(* ===== verification/Prelude.thy ===== *)
theory Prelude
  imports Main "HOL-Library.Word" "HOL-Library.Monad_Syntax"
begin

text \<open>
  Shared vocabulary of the development: the machine integers the Rust sources use, checked
  indexing (a slice access that panics is \<open>None\<close>), byte strings, and the generic list and map
  lemmas the component theories rely on.

  \<^item> \<open>usize\<close>, \<open>u32\<close> and \<open>i64\<close> values are \<open>nat\<close> or \<open>int\<close> with the width written out
    (\<open>as_u32\<close>, \<open>usize_size\<close>); hash arithmetic on \<open>u64\<close> uses 64-bit words.
  \<^item> A Rust \<open>str\<close> is a \<open>string\<close>: the list of its UTF-8 bytes, so \<open>length\<close> is \<open>str::len\<close>.
\<close>

unbundle bit_operations_syntax

type_synonym u8 = "8 word"
type_synonym u64 = "64 word"

named_theorems codec_simps \<open>encoders followed by their decoders\<close>
named_theorems prune_simps \<open>pruning predicates\<close>

section \<open>Machine integers\<close>

definition u32_size :: nat where
  "u32_size = 4294967296"

definition usize_size :: nat where
  "usize_size = 18446744073709551616"

text \<open>The cast \<open>x as u32\<close> of a \<open>usize\<close>: the low 32 bits.\<close>

definition as_u32 :: "nat \<Rightarrow> nat" where
  "as_u32 n = n mod u32_size"

lemma as_u32_small [simp]: "n < u32_size \<Longrightarrow> as_u32 n = n"
  by (simp add: as_u32_def)

lemma as_u32_bound [simp]: "as_u32 n < u32_size"
  by (simp add: as_u32_def u32_size_def)

section \<open>Checked access\<close>

definition idx :: "'a list \<Rightarrow> nat \<Rightarrow> 'a option" where
  "idx xs i = (if i < length xs then Some (xs ! i) else None)"

lemma idx_Some_iff [simp]: "idx xs i = Some x \<longleftrightarrow> i < length xs \<and> xs ! i = x"
  by (simp add: idx_def)

lemma idx_None_iff [simp]: "idx xs i = None \<longleftrightarrow> length xs \<le> i"
  by (simp add: idx_def)

lemma idx_in_range: "i < length xs \<Longrightarrow> idx xs i = Some (xs ! i)"
  by simp

text \<open>\<open>slice.iter().position(p)\<close>: the first index whose element satisfies \<open>p\<close>.\<close>

fun position :: "('a \<Rightarrow> bool) \<Rightarrow> 'a list \<Rightarrow> nat option" where
  "position p [] = None"
| "position p (x # xs) = (if p x then Some 0 else map_option Suc (position p xs))"

lemma position_None: "position p xs = None \<longleftrightarrow> (\<forall>x \<in> set xs. \<not> p x)"
  by (induction xs) auto

lemma position_Some: "position p xs = Some i \<Longrightarrow> i < length xs \<and> p (xs ! i)"
  by (induction xs arbitrary: i) (auto split: if_splits)

lemma position_first: "position p xs = Some i \<Longrightarrow> j < i \<Longrightarrow> \<not> p (xs ! j)"
  by (induction xs arbitrary: i j) (auto split: if_splits simp: nth_Cons')

lemma position_append:
  "position p (xs @ ys) =
     (case position p xs of Some i \<Rightarrow> Some i | None \<Rightarrow> map_option (\<lambda>j. j + length xs) (position p ys))"
  by (induction xs) (auto simp: option.map_comp option.map_ident comp_def split: option.splits)

lemma position_eq_distinct:
  "distinct xs \<Longrightarrow> position (\<lambda>x. x = a) xs = Some i \<longleftrightarrow> i < length xs \<and> xs ! i = a"
proof (induction xs arbitrary: i)
  case Nil
  then show ?case by simp
next
  case (Cons x xs)
  then show ?case by (cases i) (auto dest: nth_mem)
qed

text \<open>Collecting the results of a fallible function, stopping at the first failure.\<close>

fun traverse :: "('a \<Rightarrow> 'b option) \<Rightarrow> 'a list \<Rightarrow> 'b list option" where
  "traverse f [] = Some []"
| "traverse f (x # xs) =
     (case f x of None \<Rightarrow> None | Some y \<Rightarrow> map_option (Cons y) (traverse f xs))"

lemma traverse_total: "(\<And>x. x \<in> set xs \<Longrightarrow> f x = Some (g x)) \<Longrightarrow> traverse f xs = Some (map g xs)"
  by (induction xs) auto

text \<open>A \<open>for\<close> loop whose body may panic: the state is threaded and \<open>None\<close> stops the loop.\<close>

fun foldM :: "('s \<Rightarrow> 'a \<Rightarrow> 's option) \<Rightarrow> 's \<Rightarrow> 'a list \<Rightarrow> 's option" where
  "foldM f s [] = Some s"
| "foldM f s (x # xs) = (case f s x of None \<Rightarrow> None | Some s' \<Rightarrow> foldM f s' xs)"

lemma foldM_append:
  "foldM f s (xs @ ys) = (case foldM f s xs of None \<Rightarrow> None | Some s' \<Rightarrow> foldM f s' ys)"
  by (induction xs arbitrary: s) (auto split: option.splits)

text \<open>The rule for such a loop: an invariant on the elements done so far, and no panic.\<close>

lemma foldM_inv:
  assumes init: "I [] s"
    and step: "\<And>done x rest t. xs = done @ x # rest \<Longrightarrow> I done t \<Longrightarrow>
                 \<exists>t'. f t x = Some t' \<and> I (done @ [x]) t'"
  shows "\<exists>t. foldM f s xs = Some t \<and> I xs t"
proof -
  have "\<exists>t. foldM f s ys = Some t \<and> I ys t" if "\<exists>zs. xs = ys @ zs" for ys
    using that
  proof (induction ys rule: rev_induct)
    case Nil
    then show ?case by (simp add: init)
  next
    case (snoc y ys)
    then obtain zs where xs: "xs = ys @ y # zs" by auto
    with snoc.IH obtain t where "foldM f s ys = Some t" "I ys t" by auto
    with step [OF xs] show ?case by (fastforce simp: foldM_append)
  qed
  then show ?thesis by blast
qed

text \<open>The rule for a loop that is known to have returned.\<close>

lemma foldM_pres:
  assumes "foldM f s xs = Some t" and "I [] s"
    and step: "\<And>done x t t'. x \<in> set xs \<Longrightarrow> I done t \<Longrightarrow> f t x = Some t' \<Longrightarrow> I (done @ [x]) t'"
  shows "I xs t"
  using assms
proof (induction xs arbitrary: t rule: rev_induct)
  case Nil
  then show ?case by simp
next
  case (snoc x xs)
  then obtain u where u: "foldM f s xs = Some u" "f u x = Some t"
    by (auto simp: foldM_append split: option.splits)
  have "I xs u" by (rule snoc.IH [OF u(1) snoc.prems(2)]) (use snoc.prems(3) in auto)
  with u(2) show ?case using snoc.prems(3) by simp
qed

text \<open>A loop that never panics is a plain fold.\<close>

lemma foldM_total: "(\<And>t x. x \<in> set xs \<Longrightarrow> f t x = Some (g t x)) \<Longrightarrow> foldM f s xs = Some (foldl g s xs)"
  by (induction xs arbitrary: s) auto

text \<open>
  Rust's \<open>loop\<close> and \<open>while\<close>: the body continues with a new state (\<open>Inl\<close>), breaks with a result
  (\<open>Inr\<close>) or panics (\<open>None\<close>). A loop that does not return is \<open>None\<close> as well.
\<close>

partial_function (option) loopM :: "('s \<Rightarrow> ('s + 'r) option) \<Rightarrow> 's \<Rightarrow> 'r option" where
  "loopM body s =
     (case body s of
        None \<Rightarrow> None
      | Some r \<Rightarrow> (case r of Inl s' \<Rightarrow> loopM body s' | Inr x \<Rightarrow> Some x))"

text \<open>Total correctness: an invariant and a measure that every continuing iteration decreases.\<close>

lemma loopM_rule:
  fixes m :: "'s \<Rightarrow> nat"
  assumes "I s"
    and step: "\<And>s. I s \<Longrightarrow> (\<exists>s'. body s = Some (Inl s') \<and> I s' \<and> m s' < m s) \<or>
                          (\<exists>r. body s = Some (Inr r) \<and> Q r)"
  shows "\<exists>r. loopM body s = Some r \<and> Q r"
  using assms(1)
proof (induction "m s" arbitrary: s rule: less_induct)
  case less
  from step [OF less.prems] show ?case
  proof
    assume "\<exists>s'. body s = Some (Inl s') \<and> I s' \<and> m s' < m s"
    with less.hyps show ?thesis by (force simp: loopM.simps [of body s])
  next
    assume "\<exists>r. body s = Some (Inr r) \<and> Q r"
    then show ?thesis by (force simp: loopM.simps [of body s])
  qed
qed

lemma loopM_continue: "body s = Some (Inl t) \<Longrightarrow> loopM body s = loopM body t"
  by (simp add: loopM.simps [of body s])

lemma loopM_break: "body s = Some (Inr r) \<Longrightarrow> loopM body s = Some r"
  by (simp add: loopM.simps [of body s])

lemma loopM_panic: "body s = None \<Longrightarrow> loopM body s = None"
  by (simp add: loopM.simps [of body s])

section \<open>Byte strings\<close>

definition as_bytes :: "string \<Rightarrow> u8 list" where
  "as_bytes s = map (\<lambda>c. word_of_nat (of_char c)) s"

definition bytes_str :: "u8 list \<Rightarrow> string" where
  "bytes_str bs = map (\<lambda>b. char_of (unat b)) bs"

lemma length_as_bytes [simp]: "length (as_bytes s) = length s"
  by (simp add: as_bytes_def)

lemma bytes_str_as_bytes [simp]: "bytes_str (as_bytes s) = s"
  by (induction s) (auto simp: as_bytes_def bytes_str_def unat_of_nat)

text \<open>
  \<open>core::str::from_utf8\<close>: the well-formed UTF-8 byte sequences, by the ranges the Rust standard
  library checks (no overlong forms, no surrogates, nothing above U+10FFFF).
\<close>

definition utf8_cont :: "u8 \<Rightarrow> bool" where
  "utf8_cont b \<longleftrightarrow> 128 \<le> b \<and> b \<le> 191"

fun utf8_valid :: "u8 list \<Rightarrow> bool" where
  "utf8_valid [] = True"
| "utf8_valid (a # bs) =
     (if a \<le> 127 then utf8_valid bs
      else case bs of
        [] \<Rightarrow> False
      | b # cs \<Rightarrow>
          (if 194 \<le> a \<and> a \<le> 223 then utf8_cont b \<and> utf8_valid cs
           else case cs of
             [] \<Rightarrow> False
           | c # ds \<Rightarrow>
               (if 224 \<le> a \<and> a \<le> 239
                then (if a = 224 then 160 \<le> b \<and> b \<le> 191
                      else if a = 237 then 128 \<le> b \<and> b \<le> 159 else utf8_cont b) \<and>
                     utf8_cont c \<and> utf8_valid ds
                else case ds of
                  [] \<Rightarrow> False
                | d # es \<Rightarrow>
                    240 \<le> a \<and> a \<le> 244 \<and>
                    (if a = 240 then 144 \<le> b \<and> b \<le> 191
                     else if a = 244 then 128 \<le> b \<and> b \<le> 143 else utf8_cont b) \<and>
                    utf8_cont c \<and> utf8_cont d \<and> utf8_valid es)))"

definition from_utf8 :: "u8 list \<Rightarrow> string option" where
  "from_utf8 bs = (if utf8_valid bs then Some (bytes_str bs) else None)"

text \<open>The invariant of Rust's \<open>String\<close>: its bytes are well-formed UTF-8.\<close>

definition str_ok :: "string \<Rightarrow> bool" where
  "str_ok s \<longleftrightarrow> utf8_valid (as_bytes s)"

lemma from_utf8_as_bytes [simp]: "str_ok s \<Longrightarrow> from_utf8 (as_bytes s) = Some s"
  by (simp add: from_utf8_def str_ok_def)

lemma from_utf8_length: "from_utf8 bs = Some s \<Longrightarrow> length s = length bs"
  by (auto simp: from_utf8_def bytes_str_def split: if_splits)

section \<open>Prefix sums\<close>

fun prefix_sums :: "nat \<Rightarrow> nat list \<Rightarrow> nat list" where
  "prefix_sums a [] = [a]"
| "prefix_sums a (x # xs) = a # prefix_sums (a + x) xs"

lemma length_prefix_sums [simp]: "length (prefix_sums a xs) = Suc (length xs)"
  by (induction xs arbitrary: a) auto

lemma nth_prefix_sums: "i \<le> length xs \<Longrightarrow> prefix_sums a xs ! i = a + sum_list (take i xs)"
  by (induction xs arbitrary: a i) (auto simp: nth_Cons' take_Cons' split: nat.splits)

end
