(* ===== verification/Graph_Topo.thy ===== *)
theory Graph_Topo
  imports Prelude
begin

text \<open>
  The immutable graph topology of \<open>pensieve-graph-topo\<close>: interning of node ids and edge types,
  the compressed-sparse-row arrays built by counting sort, and the one-hop neighbour step. An
  access out of bounds, which panics in Rust, is \<open>None\<close>.
\<close>

section \<open>Data\<close>

datatype direction = Fwd | Back | Both

datatype etype_filter = Any | Unknown | Only nat

fun filter_matches :: "etype_filter \<Rightarrow> nat \<Rightarrow> bool" where
  "filter_matches Any t = True"
| "filter_matches Unknown t = False"
| "filter_matches (Only i) t = (t = i)"

record csr_graph =
  ids :: "string list"
  id_to_idx :: "string \<rightharpoonup> nat"
  etypes :: "string list"
  out_offsets :: "nat list"
  out_targets :: "nat list"
  out_etype :: "nat list"
  in_offsets :: "nat list"
  in_sources :: "nat list"
  in_etype :: "nat list"

type_synonym triple = "nat \<times> nat \<times> nat"
type_synonym edge = "string \<times> string \<times> string"

section \<open>Construction\<close>

definition add_node :: "string list \<times> (string \<rightharpoonup> nat) \<Rightarrow> string \<Rightarrow> string list \<times> (string \<rightharpoonup> nat)" where
  "add_node acc n = (case acc of (is, m) \<Rightarrow>
     (case m n of
        None \<Rightarrow> (is @ [n], m(n \<mapsto> as_u32 (length is)))
      | Some _ \<Rightarrow> (is, m)))"

definition intern_nodes :: "string list \<Rightarrow> string list \<times> (string \<rightharpoonup> nat)" where
  "intern_nodes nodes = foldl add_node ([], Map.empty) nodes"

type_synonym edge_acc = "string list \<times> (string \<rightharpoonup> nat) \<times> triple list"

definition add_edge :: "(string \<rightharpoonup> nat) \<Rightarrow> edge_acc \<Rightarrow> edge \<Rightarrow> edge_acc" where
  "add_edge m acc e = (case acc of (ts, tm, kept) \<Rightarrow> case e of (s, d, t) \<Rightarrow>
     (case (m s, m d) of
        (Some si, Some di) \<Rightarrow>
          (case tm t of
             Some tid \<Rightarrow> (ts, tm, kept @ [(si, di, tid)])
           | None \<Rightarrow> (let i = as_u32 (length ts)
                      in (ts @ [t], tm(t \<mapsto> i), kept @ [(si, di, i)])))
      | _ \<Rightarrow> (ts, tm, kept)))"

definition intern_edges :: "(string \<rightharpoonup> nat) \<Rightarrow> edge list \<Rightarrow> edge_acc" where
  "intern_edges m es = foldl (add_edge m) ([], Map.empty, []) es"

text \<open>The counting sort \<open>build_csr\<close>: count, prefix-sum in place, place.\<close>

definition csr_count :: "nat list \<Rightarrow> triple \<Rightarrow> nat list option" where
  "csr_count off t = (case t of (from, _, _) \<Rightarrow>
     (if Suc from < length off then Some (off[Suc from := as_u32 (off ! Suc from + 1)]) else None))"

definition csr_accum :: "nat list \<Rightarrow> nat \<Rightarrow> nat list option" where
  "csr_accum off i =
     (if Suc i < length off then Some (off[Suc i := as_u32 (off ! Suc i + off ! i)]) else None)"

type_synonym csr_arrays = "nat list \<times> nat list \<times> nat list"

definition csr_place :: "csr_arrays \<Rightarrow> triple \<Rightarrow> csr_arrays option" where
  "csr_place acc t = (case acc of (targets, etype, cursor) \<Rightarrow> case t of (from, to, tid) \<Rightarrow>
     (case idx cursor from of
        None \<Rightarrow> None
      | Some slot \<Rightarrow>
          (if slot < length targets \<and> slot < length etype
           then Some (targets[slot := to], etype[slot := tid], cursor[from := as_u32 (slot + 1)])
           else None)))"

definition build_csr :: "nat \<Rightarrow> triple list \<Rightarrow> csr_arrays option" where
  "build_csr n ts =
     (case foldM csr_count (replicate (Suc n) 0) ts of
        None \<Rightarrow> None
      | Some counts \<Rightarrow>
     (case foldM csr_accum counts [0..<n] of
        None \<Rightarrow> None
      | Some offsets \<Rightarrow>
     (let total = last offsets in
      (case foldM csr_place (replicate total 0, replicate total 0, offsets) ts of
         None \<Rightarrow> None
       | Some (targets, etype, _) \<Rightarrow> Some (offsets, targets, etype)))))"

definition swap_triple :: "triple \<Rightarrow> triple" where
  "swap_triple t = (case t of (s, d, e) \<Rightarrow> (d, s, e))"

definition build :: "string list \<Rightarrow> edge list \<Rightarrow> csr_graph option" where
  "build nodes es =
     (case intern_nodes nodes of (is, m) \<Rightarrow>
      case intern_edges m es of (ts, _, kept) \<Rightarrow>
      let n = length is in
      (case build_csr n kept of
         None \<Rightarrow> None
       | Some (oo, ot, oe) \<Rightarrow>
      (case build_csr n (map swap_triple kept) of
         None \<Rightarrow> None
       | Some (io, isrc, ie) \<Rightarrow>
           Some \<lparr>ids = is, id_to_idx = m, etypes = ts,
                 out_offsets = oo, out_targets = ot, out_etype = oe,
                 in_offsets = io, in_sources = isrc, in_etype = ie\<rparr>)))"

section \<open>Queries on the arrays\<close>

definition num_nodes :: "csr_graph \<Rightarrow> nat" where
  "num_nodes g = length (ids g)"

definition node_ids :: "csr_graph \<Rightarrow> string list" where
  "node_ids g = ids g"

definition num_edges :: "csr_graph \<Rightarrow> nat" where
  "num_edges g = length (out_targets g)"

definition contains :: "csr_graph \<Rightarrow> string \<Rightarrow> bool" where
  "contains g i \<longleftrightarrow> id_to_idx g i \<noteq> None"

definition resolve_etype :: "csr_graph \<Rightarrow> string option \<Rightarrow> etype_filter" where
  "resolve_etype g et =
     (case et of
        None \<Rightarrow> Any
      | Some t \<Rightarrow> (case position (\<lambda>e. e = t) (etypes g) of
                    Some p \<Rightarrow> Only (as_u32 p)
                  | None \<Rightarrow> Unknown))"

text \<open>The inner loop of \<open>step\<close> over one pair of arrays.\<close>

definition push_nbr :: "nat list \<Rightarrow> nat list \<Rightarrow> etype_filter \<Rightarrow> nat list \<Rightarrow> nat \<Rightarrow> nat list option" where
  "push_nbr targets ets f out i =
     (case idx ets i of
        None \<Rightarrow> None
      | Some t \<Rightarrow> (if filter_matches f t
                   then (case idx targets i of None \<Rightarrow> None | Some w \<Rightarrow> Some (out @ [w]))
                   else Some out))"

definition collect_nbrs ::
  "nat list \<Rightarrow> nat list \<Rightarrow> nat list \<Rightarrow> etype_filter \<Rightarrow> nat \<Rightarrow> nat list \<Rightarrow> nat list option" where
  "collect_nbrs offsets targets ets f v out =
     (case (idx offsets v, idx offsets (Suc v)) of
        (Some a, Some b) \<Rightarrow> foldM (push_nbr targets ets f) out [a..<b]
      | _ \<Rightarrow> None)"

definition step :: "csr_graph \<Rightarrow> direction \<Rightarrow> etype_filter \<Rightarrow> nat \<Rightarrow> nat list option" where
  "step g dir f v =
     (case (if dir = Fwd \<or> dir = Both
            then collect_nbrs (out_offsets g) (out_targets g) (out_etype g) f v [] else Some []) of
        None \<Rightarrow> None
      | Some out \<Rightarrow>
          (if dir = Back \<or> dir = Both
           then collect_nbrs (in_offsets g) (in_sources g) (in_etype g) f v out else Some out))"

section \<open>Correctness of the counting sort\<close>

text \<open>Triples leaving node \<open>v\<close>, how many there are, and how many leave a smaller node.\<close>

definition nbrs_of :: "triple list \<Rightarrow> nat \<Rightarrow> (nat \<times> nat) list" where
  "nbrs_of ts v = map snd (filter (\<lambda>t. fst t = v) ts)"

definition deg_of :: "triple list \<Rightarrow> nat \<Rightarrow> nat" where
  "deg_of ts v = length (filter (\<lambda>t. fst t = v) ts)"

definition off_of :: "triple list \<Rightarrow> nat \<Rightarrow> nat" where
  "off_of ts v = length (filter (\<lambda>t. fst t < v) ts)"

lemma off_of_0 [simp]: "off_of ts 0 = 0"
  by (simp add: off_of_def)

lemma off_of_Suc: "off_of ts (Suc v) = off_of ts v + deg_of ts v"
  by (induction ts) (auto simp: off_of_def deg_of_def less_Suc_eq)

lemma off_of_mono: "v \<le> w \<Longrightarrow> off_of ts v \<le> off_of ts w"
  by (induction ts) (auto simp: off_of_def)

lemma off_of_le: "off_of ts v \<le> length ts"
  by (simp add: off_of_def)

lemma off_of_all: "(\<And>t. t \<in> set ts \<Longrightarrow> fst t < n) \<Longrightarrow> off_of ts n = length ts"
  by (simp add: off_of_def)

lemma deg_of_le: "deg_of ts v \<le> length ts"
  by (simp add: deg_of_def)

lemma deg_of_append [simp]: "deg_of (xs @ ys) v = deg_of xs v + deg_of ys v"
  by (simp add: deg_of_def)

lemma deg_of_Cons [simp]: "deg_of (t # ts) v = (if fst t = v then Suc (deg_of ts v) else deg_of ts v)"
  by (simp add: deg_of_def)

lemma deg_of_Nil [simp]: "deg_of [] v = 0"
  by (simp add: deg_of_def)

lemma length_nbrs_of [simp]: "length (nbrs_of ts v) = deg_of ts v"
  by (simp add: nbrs_of_def deg_of_def)

lemma nbrs_of_append [simp]: "nbrs_of (xs @ ys) v = nbrs_of xs v @ nbrs_of ys v"
  by (simp add: nbrs_of_def)

lemma nbrs_of_Cons [simp]:
  "nbrs_of (t # ts) v = (if fst t = v then snd t # nbrs_of ts v else nbrs_of ts v)"
  by (simp add: nbrs_of_def)

lemma nbrs_of_Nil [simp]: "nbrs_of [] v = []"
  by (simp add: nbrs_of_def)

lemma csr_count_loop:
  assumes "\<And>t. t \<in> set ts \<Longrightarrow> fst t < n" and "length ts < u32_size"
  shows "\<exists>off. foldM csr_count (replicate (Suc n) 0) ts = Some off \<and>
    length off = Suc n \<and> off ! 0 = 0 \<and> (\<forall>v < n. off ! Suc v = deg_of ts v)"
proof (rule foldM_inv)
  show "length (replicate (Suc n) (0::nat)) = Suc n \<and> replicate (Suc n) (0::nat) ! 0 = 0 \<and>
    (\<forall>v < n. replicate (Suc n) 0 ! Suc v = deg_of [] v)"
    by (simp del: replicate_Suc)
next
  fix xs x rest off
  assume ts: "ts = xs @ x # rest"
    and inv: "length off = Suc n \<and> off ! 0 = 0 \<and> (\<forall>v < n. off ! Suc v = deg_of xs v)"
  from ts assms have "fst x < n" by auto
  moreover have "deg_of xs v + 1 < u32_size" for v
    using deg_of_le [of xs v] ts assms(2) by simp
  ultimately show "\<exists>t'. csr_count off x = Some t' \<and> length t' = Suc n \<and> t' ! 0 = 0 \<and>
      (\<forall>v < n. t' ! Suc v = deg_of (xs @ [x]) v)"
    using inv by (auto simp: csr_count_def nth_list_update split: prod.splits)
qed

lemma csr_accum_loop:
  assumes len: "length counts = Suc n" and z: "counts ! 0 = 0"
    and cnt: "\<forall>v < n. counts ! Suc v = deg_of ts v" and small: "length ts < u32_size"
  shows "\<exists>off. foldM csr_accum counts [0..<n] = Some off \<and>
    length off = Suc n \<and>
    (\<forall>v \<le> n. off ! v = (if v \<le> length [0..<n] then off_of ts v else deg_of ts (v - 1)))"
proof (rule foldM_inv)
  show "length counts = Suc n \<and>
    (\<forall>v \<le> n. counts ! v = (if v \<le> length ([]::nat list) then off_of ts v else deg_of ts (v - 1)))"
    using len z cnt by (auto simp: le_Suc_eq gr0_conv_Suc Suc_le_eq)
next
  fix xs x rest off
  assume eq: "[0..<n] = xs @ x # rest"
    and inv: "length off = Suc n \<and>
      (\<forall>v \<le> n. off ! v = (if v \<le> length xs then off_of ts v else deg_of ts (v - 1)))"
  have "length xs < length [0..<n]" by (simp add: eq)
  moreover have "[0..<n] ! length xs = x" by (simp add: eq)
  ultimately have x: "x = length xs" "x < n" by auto
  have "off ! x = off_of ts x" and "off ! Suc x = deg_of ts x"
    using inv x by auto
  moreover have "deg_of ts x + off_of ts x < u32_size"
    using off_of_le [of ts "Suc x"] small by (simp add: off_of_Suc)
  ultimately show "\<exists>t'. csr_accum off x = Some t' \<and> length t' = Suc n \<and>
      (\<forall>v \<le> n. t' ! v = (if v \<le> length (xs @ [x]) then off_of ts v else deg_of ts (v - 1)))"
    using inv x by (auto simp: csr_accum_def nth_list_update off_of_Suc le_Suc_eq)
qed

text \<open>Where the \<open>j\<close>-th edge of a node lands; slots of different edges differ.\<close>

lemma slot_less:
  assumes "fst x < n" "\<And>t. t \<in> set ts \<Longrightarrow> fst t < n" "ts = xs @ x # rest"
  shows "off_of ts (fst x) + deg_of xs (fst x) < length ts"
proof -
  have "off_of ts (fst x) + deg_of xs (fst x) < off_of ts (Suc (fst x))"
    using assms(3) by (simp add: off_of_Suc)
  also have "\<dots> \<le> length ts" by (rule off_of_le)
  finally show ?thesis .
qed

lemma slot_distinct:
  assumes "i < deg_of ts v" "j < deg_of ts w" "v \<noteq> w"
  shows "off_of ts v + i \<noteq> off_of ts w + j"
proof -
  have "off_of ts a + k < off_of ts b" if "k < deg_of ts a" "a < b" for a b k
    using that off_of_mono [of "Suc a" b ts] by (simp add: off_of_Suc)
  with assms show ?thesis by (cases "v < w") (fastforce simp: linorder_neq_iff)+
qed

definition placed :: "nat \<Rightarrow> triple list \<Rightarrow> triple list \<Rightarrow> csr_arrays \<Rightarrow> bool" where
  "placed n ts xs a \<longleftrightarrow> (case a of (targets, etype, cursor) \<Rightarrow>
     length targets = length ts \<and> length etype = length ts \<and> length cursor = Suc n \<and>
     (\<forall>v < n. cursor ! v = off_of ts v + deg_of xs v) \<and>
     (\<forall>v < n. \<forall>j < deg_of xs v.
        (targets ! (off_of ts v + j), etype ! (off_of ts v + j)) = nbrs_of xs v ! j))"

lemma csr_place_step:
  assumes lt: "\<And>t. t \<in> set ts \<Longrightarrow> fst t < n" and small: "length ts < u32_size"
    and ts: "ts = xs @ x # rest" and inv: "placed n ts xs a"
  shows "\<exists>a'. csr_place a x = Some a' \<and> placed n ts (xs @ [x]) a'"
proof -
  obtain targets etype cursor where a: "a = (targets, etype, cursor)" by (cases a)
  obtain f to tid where x: "x = (f, to, tid)" by (cases x)
  define slot where "slot = off_of ts f + deg_of xs f"
  have f: "f < n" using lt [of x] by (simp add: ts x)
  have sl: "slot < length ts"
    using slot_less [of x n ts xs rest] lt ts x f by (simp add: slot_def)
  with small have sl32: "Suc slot < u32_size" by simp
  have deg: "deg_of xs v \<le> deg_of ts v" for v by (simp add: ts)
  have degf: "deg_of xs f < deg_of ts f" by (simp add: ts x)
  have other: "off_of ts v + j \<noteq> slot" if "j < deg_of xs v" for v j
  proof (cases "v = f")
    case True
    with that show ?thesis by (simp add: slot_def)
  next
    case False
    have "j < deg_of ts v" using that deg [of v] by simp
    with False degf show ?thesis unfolding slot_def by (intro slot_distinct) auto
  qed
  have place: "csr_place a x =
      Some (targets[slot := to], etype[slot := tid], cursor[f := Suc slot])"
    using inv f sl sl32 by (simp add: a x csr_place_def placed_def slot_def idx_def)
  have "placed n ts (xs @ [x]) (targets[slot := to], etype[slot := tid], cursor[f := Suc slot])"
    using inv f sl other
    by (auto simp: a x placed_def nth_list_update nth_append less_Suc_eq slot_def) metis
  with place show ?thesis by blast
qed

text \<open>
  What \<open>build_csr\<close> promises: the slice of node \<open>v\<close> is the list of its edges, in input order.
\<close>

definition csr_slices :: "nat \<Rightarrow> triple list \<Rightarrow> csr_arrays \<Rightarrow> bool" where
  "csr_slices n ts a \<longleftrightarrow> (case a of (offsets, targets, etype) \<Rightarrow>
     length offsets = Suc n \<and> length targets = length ts \<and> length etype = length ts \<and>
     (\<forall>v \<le> n. offsets ! v = off_of ts v) \<and>
     (\<forall>v < n. map (\<lambda>i. (targets ! i, etype ! i)) [offsets ! v ..< offsets ! Suc v] = nbrs_of ts v))"

lemma build_csr_slices:
  assumes lt: "\<And>t. t \<in> set ts \<Longrightarrow> fst t < n" and small: "length ts < u32_size"
  shows "\<exists>a. build_csr n ts = Some a \<and> csr_slices n ts a"
proof -
  from csr_count_loop [OF lt small] obtain counts where
    c: "foldM csr_count (replicate (Suc n) 0) ts = Some counts"
       "length counts = Suc n" "counts ! 0 = 0" "\<forall>v < n. counts ! Suc v = deg_of ts v"
    by blast
  from csr_accum_loop [OF c(2,3,4) small] obtain offsets where
    o: "foldM csr_accum counts [0..<n] = Some offsets" "length offsets = Suc n"
       "\<forall>v \<le> n. offsets ! v = off_of ts v"
    by auto
  have "offsets \<noteq> []" using o(2) by auto
  then have total: "last offsets = length ts"
    using o off_of_all [of ts n, OF lt] by (simp add: last_conv_nth)
  have init: "placed n ts [] (replicate (length ts) 0, replicate (length ts) 0, offsets)"
    using o by (simp add: placed_def)
  have "\<exists>a. foldM csr_place (replicate (length ts) 0, replicate (length ts) 0, offsets) ts = Some a \<and>
      placed n ts ts a"
    by (rule foldM_inv [where I = "placed n ts", OF init]) (rule csr_place_step [OF lt small])
  then obtain targets etype cursor where
    p: "foldM csr_place (replicate (length ts) 0, replicate (length ts) 0, offsets) ts =
          Some (targets, etype, cursor)" "placed n ts ts (targets, etype, cursor)"
    by (metis prod_cases3)
  have "map (\<lambda>i. (targets ! i, etype ! i)) [offsets ! v ..< offsets ! Suc v] = nbrs_of ts v"
    if "v < n" for v
    by (rule nth_equalityI) (use that p(2) o(3) in \<open>auto simp: placed_def off_of_Suc\<close>)
  with c o p total have "build_csr n ts = Some (offsets, targets, etype)"
    "csr_slices n ts (offsets, targets, etype)"
    by (auto simp: build_csr_def csr_slices_def placed_def Let_def)
  then show ?thesis by blast
qed

section \<open>The neighbour step reads the slice\<close>

lemma push_nbr_loop:
  assumes "\<And>i. i \<in> set is \<Longrightarrow> i < length targets" and "length ets = length targets"
  shows "foldM (push_nbr targets ets f) out is =
    Some (out @ map fst (filter (\<lambda>(w, t). filter_matches f t) (map (\<lambda>i. (targets ! i, ets ! i)) is)))"
  using assms
proof (induction "is" arbitrary: out)
  case Nil
  then show ?case by simp
next
  case (Cons i "is")
  then have "i < length targets" by simp
  with Cons.prems(2) have "push_nbr targets ets f out i =
      Some (if filter_matches f (ets ! i) then out @ [targets ! i] else out)"
    by (simp add: push_nbr_def idx_def)
  with Cons show ?case by simp
qed

lemma collect_nbrs_slice:
  assumes "csr_slices n ts (offsets, targets, ets)" and "v < n"
  shows "collect_nbrs offsets targets ets f v out =
    Some (out @ map fst (filter (\<lambda>(w, t). filter_matches f t) (nbrs_of ts v)))"
proof -
  from assms have o: "idx offsets v = Some (off_of ts v)" "idx offsets (Suc v) = Some (off_of ts (Suc v))"
    and sl: "map (\<lambda>i. (targets ! i, ets ! i)) [off_of ts v ..< off_of ts (Suc v)] = nbrs_of ts v"
    and len: "length targets = length ts" "length ets = length ts"
    by (auto simp: csr_slices_def)
  have "i < length targets" if "i \<in> set [off_of ts v ..< off_of ts (Suc v)]" for i
    using that off_of_le [of ts "Suc v"] len by auto
  from push_nbr_loop [OF this, of "[off_of ts v ..< off_of ts (Suc v)]" ets f out] len sl
  show ?thesis by (simp add: collect_nbrs_def o)
qed

section \<open>What a built graph represents\<close>

definition index_of :: "string list \<Rightarrow> string \<Rightarrow> nat option" where
  "index_of xs s = position (\<lambda>x. x = s) xs"

lemma index_of_snoc:
  "index_of (xs @ [y]) s =
     (case index_of xs s of Some i \<Rightarrow> Some i | None \<Rightarrow> if y = s then Some (length xs) else None)"
  by (auto simp: index_of_def position_append split: option.splits)

lemma index_of_None: "index_of xs s = None \<longleftrightarrow> s \<notin> set xs"
  by (auto simp: index_of_def position_None)

lemma index_of_Some: "distinct xs \<Longrightarrow> index_of xs s = Some i \<longleftrightarrow> i < length xs \<and> xs ! i = s"
  by (simp add: index_of_def position_eq_distinct)

lemma index_of_nth [simp]: "distinct xs \<Longrightarrow> i < length xs \<Longrightarrow> index_of xs (xs ! i) = Some i"
  by (simp add: index_of_Some)

lemma intern_nodes_spec:
  assumes "length nodes < u32_size"
  shows "\<exists>is. intern_nodes nodes = (is, index_of is) \<and> is = rev (remdups (rev nodes))"
  using assms
proof (induction nodes rule: rev_induct)
  case Nil
  then show ?case by (simp add: intern_nodes_def index_of_def)
next
  case (snoc n ns)
  then obtain "is" where IH: "intern_nodes ns = (is, index_of is)" "is = rev (remdups (rev ns))"
    by auto
  have "length is \<le> length ns" using IH(2) length_remdups_leq [of "rev ns"] by simp
  with snoc.prems have small: "length is < u32_size" by simp
  have snoc_eq: "intern_nodes (ns @ [n]) = add_node (is, index_of is) n"
    using IH(1) by (simp add: intern_nodes_def)
  show ?case
  proof (cases "n \<in> set is")
    case True
    then obtain i where "index_of is n = Some i" by (metis index_of_None option.exhaust)
    with True IH(2) show ?thesis by (simp add: snoc_eq add_node_def)
  next
    case False
    then have none: "index_of is n = None" by (simp add: index_of_None)
    have "index_of (is @ [n]) = (index_of is)(n \<mapsto> length is)"
      using none by (auto simp: fun_eq_iff index_of_snoc split: option.splits)
    with False none small IH(2) show ?thesis by (simp add: snoc_eq add_node_def)
  qed
qed

text \<open>The triples of the retained edges, over the dictionaries \<open>is\<close> and \<open>ts\<close>.\<close>

definition retained :: "string list \<Rightarrow> edge list \<Rightarrow> edge list" where
  "retained is es = filter (\<lambda>(s, d, t). s \<in> set is \<and> d \<in> set is) es"

definition triple_of :: "string list \<Rightarrow> string list \<Rightarrow> edge \<Rightarrow> triple" where
  "triple_of is ts e = (case e of (s, d, t) \<Rightarrow>
     (the (index_of is s), the (index_of is d), the (index_of ts t)))"

definition kept_triples :: "string list \<Rightarrow> string list \<Rightarrow> edge list \<Rightarrow> triple list" where
  "kept_triples is ts es = map (triple_of is ts) (retained is es)"

lemma intern_edges_spec:
  assumes "length es < u32_size"
  shows "\<exists>ts. intern_edges (index_of is) es = (ts, index_of ts, kept_triples is ts es) \<and>
    distinct ts \<and> length ts \<le> length es \<and> (\<forall>(s, d, t) \<in> set (retained is es). t \<in> set ts)"
  using assms
proof (induction es rule: rev_induct)
  case Nil
  then show ?case by (simp add: intern_edges_def kept_triples_def retained_def index_of_def)
next
  case (snoc e es)
  then obtain ts where IH: "intern_edges (index_of is) es = (ts, index_of ts, kept_triples is ts es)"
    "distinct ts" "length ts \<le> length es" "\<forall>(s, d, t) \<in> set (retained is es). t \<in> set ts"
    by auto
  obtain s d t where e: "e = (s, d, t)" by (cases e)
  have eq: "intern_edges (index_of is) (es @ [(s, d, t)]) =
      add_edge (index_of is) (ts, index_of ts, kept_triples is ts es) (s, d, t)"
    using IH(1) by (simp add: intern_edges_def)
  show ?case
  proof (cases "s \<in> set is \<and> d \<in> set is")
    case False
    then have "index_of is s = None \<or> index_of is d = None" by (auto simp: index_of_None)
    with False IH show ?thesis
      by (intro exI [of _ ts])
        (auto simp: eq e add_edge_def kept_triples_def retained_def split: option.splits)
  next
    case True
    then obtain si di where si: "index_of is s = Some si" "index_of is d = Some di"
      by (metis index_of_None option.exhaust)
    show ?thesis
    proof (cases "index_of ts t")
      case (Some i)
      then have "t \<in> set ts" by (metis index_of_None option.distinct(1))
      with True Some si IH show ?thesis
        by (intro exI [of _ ts])
          (auto simp: eq e add_edge_def kept_triples_def retained_def triple_of_def)
    next
      case None
      then have new: "t \<notin> set ts" by (simp add: index_of_None)
      have small: "length ts < u32_size" using IH(3) snoc.prems by simp
      have upd: "index_of (ts @ [t]) = (index_of ts)(t \<mapsto> length ts)"
        using None by (auto simp: fun_eq_iff index_of_snoc split: option.splits)
      have "triple_of is (ts @ [t]) x = triple_of is ts x" if "x \<in> set (retained is es)" for x
        using that IH(4) new by (auto simp: triple_of_def upd)
      then have kt: "kept_triples is (ts @ [t]) es = kept_triples is ts es"
        by (simp add: kept_triples_def)
      have "retained is (es @ [e]) = retained is es @ [e]"
        using True by (simp add: retained_def e)
      then have "kept_triples is (ts @ [t]) (es @ [e]) = kept_triples is ts es @ [(si, di, length ts)]"
        "\<forall>(s, d, t') \<in> set (retained is (es @ [e])). t' \<in> set (ts @ [t])"
        using kt si IH(4) by (auto simp: kept_triples_def triple_of_def e upd)
      with None si IH new small show ?thesis
        by (intro exI [of _ "ts @ [t]"]) (simp add: eq e add_edge_def upd Let_def fun_upd_def)
    qed
  qed
qed

text \<open>\<open>csr_of nodes es g\<close>: the arrays of \<open>g\<close> hold the retained part of \<open>(nodes, es)\<close>.\<close>

definition csr_of :: "string list \<Rightarrow> edge list \<Rightarrow> csr_graph \<Rightarrow> bool" where
  "csr_of nodes es g \<longleftrightarrow>
     ids g = rev (remdups (rev nodes)) \<and> id_to_idx g = index_of (ids g) \<and>
     distinct (etypes g) \<and> length (etypes g) < u32_size \<and> length (ids g) < u32_size \<and>
     length es < u32_size \<and>
     (\<forall>(s, d, t) \<in> set (retained (ids g) es). t \<in> set (etypes g)) \<and>
     csr_slices (num_nodes g) (kept_triples (ids g) (etypes g) es)
       (out_offsets g, out_targets g, out_etype g) \<and>
     csr_slices (num_nodes g) (map swap_triple (kept_triples (ids g) (etypes g) es))
       (in_offsets g, in_sources g, in_etype g)"

lemma csr_of_ids:
  assumes "csr_of nodes es g"
  shows "distinct (ids g)" and "set (ids g) = set nodes"
  using assms by (auto simp: csr_of_def)

lemma triple_of_lt:
  assumes "e \<in> set (retained is es)" and "distinct is"
  shows "fst (triple_of is ts e) < length is" and "fst (snd (triple_of is ts e)) < length is"
proof -
  obtain s d t where e: "e = (s, d, t)" by (cases e)
  with assms(1) have "s \<in> set is" "d \<in> set is" by (auto simp: retained_def)
  then obtain i j where "index_of is s = Some i" "index_of is d = Some j"
    by (metis index_of_None option.exhaust)
  with assms(2) show "fst (triple_of is ts e) < length is" "fst (snd (triple_of is ts e)) < length is"
    by (auto simp: e triple_of_def index_of_Some)
qed

lemma length_retained: "length (retained is es) \<le> length es"
  by (simp add: retained_def)

lemma build_total:
  assumes "length nodes < u32_size" "length es < u32_size"
  shows "\<exists>g. build nodes es = Some g \<and> csr_of nodes es g"
proof -
  obtain "is" where isd: "intern_nodes nodes = (is, index_of is)" "is = rev (remdups (rev nodes))"
    using intern_nodes_spec [OF assms(1)] by blast
  obtain ts where ts: "intern_edges (index_of is) es = (ts, index_of ts, kept_triples is ts es)"
    "distinct ts" "length ts \<le> length es" "\<forall>(s, d, t) \<in> set (retained is es). t \<in> set ts"
    using intern_edges_spec [OF assms(2)] by blast
  have di: "distinct is" by (simp add: isd(2))
  have li: "length is < u32_size"
    using isd(2) length_remdups_leq [of "rev nodes"] assms(1) by simp
  let ?k = "kept_triples is ts es"
  have lt: "fst t < length is" "fst (swap_triple t) < length is" if "t \<in> set ?k" for t
    using that triple_of_lt [OF _ di] by (auto simp: kept_triples_def swap_triple_def split: prod.splits)
      (metis fst_conv snd_conv)+
  have lk: "length ?k < u32_size"
    using length_retained [of "is" es] assms(2) by (simp add: kept_triples_def)
  from build_csr_slices [of ?k "length is"] lt lk obtain oo ot oe where
    o: "build_csr (length is) ?k = Some (oo, ot, oe)" "csr_slices (length is) ?k (oo, ot, oe)"
    by (metis prod_cases3)
  have lt2: "fst t < length is" if "t \<in> set (map swap_triple ?k)" for t
    using that lt by auto
  from build_csr_slices [OF lt2] lk obtain io isr ie where
    i: "build_csr (length is) (map swap_triple ?k) = Some (io, isr, ie)"
       "csr_slices (length is) (map swap_triple ?k) (io, isr, ie)"
    by (metis length_map prod_cases3)
  let ?g = "\<lparr>ids = is, id_to_idx = index_of is, etypes = ts, out_offsets = oo, out_targets = ot,
    out_etype = oe, in_offsets = io, in_sources = isr, in_etype = ie\<rparr>"
  have "build nodes es = Some ?g"
    using isd(1) ts(1) o(1) i(1) by (simp add: build_def Let_def)
  moreover have "csr_of nodes es ?g"
    using isd(2) ts(2-4) li assms(2) o(2) i(2) by (simp add: csr_of_def num_nodes_def)
  ultimately show ?thesis by blast
qed

section \<open>Neighbours in terms of the input\<close>

text \<open>
  An edge type filter admits an edge by equality; one hop from \<open>a\<close> to \<open>b\<close> follows an edge both of
  whose endpoints are nodes, in the direction asked for.
\<close>

definition admits :: "string option \<Rightarrow> string \<Rightarrow> bool" where
  "admits et t \<longleftrightarrow> (case et of None \<Rightarrow> True | Some x \<Rightarrow> t = x)"

definition hop :: "string list \<Rightarrow> edge list \<Rightarrow> direction \<Rightarrow> string option \<Rightarrow> (string \<times> string) set" where
  "hop nodes es dir et =
     {(a, b). \<exists>(s, d, t) \<in> set es. s \<in> set nodes \<and> d \<in> set nodes \<and> admits et t \<and>
        ((dir \<noteq> Back \<and> a = s \<and> b = d) \<or> (dir \<noteq> Fwd \<and> a = d \<and> b = s))}"

lemma resolve_admits:
  assumes g: "csr_of nodes es g" and e: "(s, d, t) \<in> set (retained (ids g) es)"
  shows "filter_matches (resolve_etype g et) (the (index_of (etypes g) t)) \<longleftrightarrow> admits et t"
proof (cases et)
  case None
  then show ?thesis by (simp add: resolve_etype_def admits_def)
next
  case (Some x)
  from g have d: "distinct (etypes g)" and l: "length (etypes g) < u32_size" by (auto simp: csr_of_def)
  from g e have "t \<in> set (etypes g)" by (auto simp: csr_of_def)
  then obtain i where i: "index_of (etypes g) t = Some i" by (metis index_of_None option.exhaust)
  show ?thesis
  proof (cases "index_of (etypes g) x")
    case None
    with Some i have "x \<noteq> t" by auto
    with Some None show ?thesis
      by (auto simp: resolve_etype_def admits_def index_of_def)
  next
    case (Some j)
    with d l have "j < u32_size" by (simp add: index_of_Some)
    with \<open>et = Some x\<close> Some i d show ?thesis
      by (auto simp: resolve_etype_def admits_def index_of_def [symmetric] index_of_Some nth_eq_iff_index_eq)
  qed
qed

definition matching :: "etype_filter \<Rightarrow> (nat \<times> nat) list \<Rightarrow> nat list" where
  "matching f ps = map fst (filter (\<lambda>(w, t). filter_matches f t) ps)"

lemma set_matching: "set (matching f (nbrs_of ts v)) = {w. \<exists>t. (v, w, t) \<in> set ts \<and> filter_matches f t}"
  by (force simp: matching_def nbrs_of_def image_iff)

lemma step_slices:
  assumes g: "csr_of nodes es g" and v: "v < num_nodes g"
  defines "k \<equiv> kept_triples (ids g) (etypes g) es"
  shows "step g dir f v =
    Some ((if dir = Back then [] else matching f (nbrs_of k v)) @
          (if dir = Fwd then [] else matching f (nbrs_of (map swap_triple k) v)))"
proof -
  from g have "csr_slices (num_nodes g) k (out_offsets g, out_targets g, out_etype g)"
    "csr_slices (num_nodes g) (map swap_triple k) (in_offsets g, in_sources g, in_etype g)"
    by (auto simp: csr_of_def k_def)
  from collect_nbrs_slice [OF this(1) v] collect_nbrs_slice [OF this(2) v]
  show ?thesis by (cases dir) (auto simp: step_def matching_def)
qed

lemma kept_edge:
  assumes g: "csr_of nodes es g" and e: "(s, d, t) \<in> set (retained (ids g) es)"
  shows "\<exists>i < num_nodes g. \<exists>j < num_nodes g. ids g ! i = s \<and> ids g ! j = d \<and>
    triple_of (ids g) (etypes g) (s, d, t) = (i, j, the (index_of (etypes g) t))"
proof -
  from e have "s \<in> set (ids g)" "d \<in> set (ids g)" by (auto simp: retained_def)
  then obtain i j where "index_of (ids g) s = Some i" "index_of (ids g) d = Some j"
    by (metis index_of_None option.exhaust)
  with csr_of_ids(1) [OF g] show ?thesis
    by (auto simp: triple_of_def num_nodes_def index_of_Some)
qed

text \<open>
  One admitted hop at the level of the arrays: an edge of the input that leaves node number \<open>v\<close>
  and enters node number \<open>w\<close>.
\<close>

lemma kept_hop:
  assumes g: "csr_of nodes es g" and v: "v < num_nodes g" and w: "w < num_nodes g"
  shows "(\<exists>t. (v, w, t) \<in> set (kept_triples (ids g) (etypes g) es) \<and>
              filter_matches (resolve_etype g et) t) \<longleftrightarrow>
         (\<exists>t. (ids g ! v, ids g ! w, t) \<in> set (retained (ids g) es) \<and> admits et t)"
    (is "?L \<longleftrightarrow> ?R")
proof
  assume ?L
  then obtain t s d t' where k: "(s, d, t') \<in> set (retained (ids g) es)"
    "triple_of (ids g) (etypes g) (s, d, t') = (v, w, t)" "filter_matches (resolve_etype g et) t"
    by (auto simp: kept_triples_def) metis
  with kept_edge [OF g k(1)] resolve_admits [OF g k(1)] show ?R by fastforce
next
  assume ?R
  then obtain t where t: "(ids g ! v, ids g ! w, t) \<in> set (retained (ids g) es)" "admits et t"
    by blast
  from kept_edge [OF g t(1)] csr_of_ids(1) [OF g] v w
  have "triple_of (ids g) (etypes g) (ids g ! v, ids g ! w, t) = (v, w, the (index_of (etypes g) t))"
    by (auto simp: num_nodes_def nth_eq_iff_index_eq)
  with t resolve_admits [OF g t(1)] show ?L by (force simp: kept_triples_def)
qed

lemma kept_lt:
  assumes g: "csr_of nodes es g" and k: "(v, w, t) \<in> set (kept_triples (ids g) (etypes g) es)"
  shows "v < num_nodes g" "w < num_nodes g"
proof -
  from k obtain s d t' where e: "(s, d, t') \<in> set (retained (ids g) es)"
    "triple_of (ids g) (etypes g) (s, d, t') = (v, w, t)"
    by (auto simp: kept_triples_def)
  from kept_edge [OF g e(1)] e(2) show "v < num_nodes g" "w < num_nodes g" by auto
qed

lemma hop_iff:
  assumes g: "csr_of nodes es g"
  shows "(a, b) \<in> hop nodes es dir et \<longleftrightarrow>
    (dir \<noteq> Back \<and> (\<exists>t. (a, b, t) \<in> set (retained (ids g) es) \<and> admits et t)) \<or>
    (dir \<noteq> Fwd \<and> (\<exists>t. (b, a, t) \<in> set (retained (ids g) es) \<and> admits et t))"
  using csr_of_ids(2) [OF g] by (auto simp: hop_def retained_def)

text \<open>The step of a built graph never panics and finds exactly the admitted neighbours.\<close>

lemma step_hop:
  assumes g: "csr_of nodes es g" and v: "v < num_nodes g"
  shows "\<exists>ws. step g dir (resolve_etype g et) v = Some ws \<and>
    set ws = {w. w < num_nodes g \<and> (ids g ! v, ids g ! w) \<in> hop nodes es dir et}"
proof -
  let ?k = "kept_triples (ids g) (etypes g) es"
  let ?f = "resolve_etype g et"
  have "(v, w, t) \<in> set (map swap_triple ?k) \<longleftrightarrow> (w, v, t) \<in> set ?k" for w t
    by (force simp: swap_triple_def image_iff)
  then have "set (matching ?f (nbrs_of (map swap_triple ?k) v)) =
      {w. \<exists>t. (w, v, t) \<in> set ?k \<and> filter_matches ?f t}"
    by (simp add: set_matching)
  moreover have "w < num_nodes g \<and> (ids g ! v, ids g ! w) \<in> hop nodes es dir et \<longleftrightarrow>
    (dir \<noteq> Back \<and> (\<exists>t. (v, w, t) \<in> set ?k \<and> filter_matches ?f t)) \<or>
    (dir \<noteq> Fwd \<and> (\<exists>t. (w, v, t) \<in> set ?k \<and> filter_matches ?f t))" for w
    using kept_hop [OF g v, of w et] kept_hop [OF g _ v, of w et] kept_lt [OF g]
    by (auto simp: hop_iff [OF g])
  ultimately show ?thesis
    using step_slices [OF g v, of dir ?f] by (auto simp: set_matching)
qed

section \<open>Properties\<close>

text \<open>
  for triples whose source nodes are below \<open>n\<close>, the counting sort \<open>build_csr\<close> never indexes out
  of bounds and is a stable grouping: there is one slice per node, the slices are consecutive, and
  the slice of node \<open>v\<close> holds the targets and edge types of \<open>v\<close> in the order of the input.
\<close>

theorem build_csr_stable:
  assumes "\<And>t. t \<in> set ts \<Longrightarrow> fst t < n" and "length ts < u32_size"
  shows "\<exists>offsets targets ets. build_csr n ts = Some (offsets, targets, ets) \<and>
    length offsets = Suc n \<and> length targets = length ts \<and> length ets = length ts \<and>
    offsets ! 0 = 0 \<and> offsets ! n = length ts \<and>
    (\<forall>v < n. map (\<lambda>i. (targets ! i, ets ! i)) [offsets ! v ..< offsets ! Suc v] =
             map snd (filter (\<lambda>t. fst t = v) ts))"
proof -
  from build_csr_slices [OF assms] obtain offsets targets ets where
    b: "build_csr n ts = Some (offsets, targets, ets)" "csr_slices n ts (offsets, targets, ets)"
    by (metis prod_cases3)
  have "offsets ! 0 = 0" "offsets ! n = length ts"
    using b(2) off_of_all [of ts n] assms(1) by (auto simp: csr_slices_def)
  with b show ?thesis
    unfolding csr_slices_def nbrs_of_def prod.case
    by (elim conjE, intro exI [of _ offsets] exI [of _ targets] exI [of _ ets] conjI) assumption+
qed

theorem build_csr_stable_witness:
  "\<exists>offsets targets ets. build_csr 2 [(1, 0, 7), (0, 1, 8), (1, 1, 9)] = Some (offsets, targets, ets) \<and>
    length offsets = Suc 2 \<and> length targets = length ([(1, 0, 7), (0, 1, 8), (1, 1, 9)] :: triple list) \<and>
    length ets = length ([(1, 0, 7), (0, 1, 8), (1, 1, 9)] :: triple list) \<and>
    offsets ! 0 = 0 \<and> offsets ! 2 = length ([(1, 0, 7), (0, 1, 8), (1, 1, 9)] :: triple list) \<and>
    (\<forall>v < 2. map (\<lambda>i. (targets ! i, ets ! i)) [offsets ! v ..< offsets ! Suc v] =
             map snd (filter (\<lambda>t. fst t = v) [(1, 0, 7), (0, 1, 8), (1, 1, 9)]))"
  by (rule build_csr_stable) (auto simp: u32_size_def)

end
