(* ===== verification/Graph_Traverse.thy ===== *)
theory Graph_Traverse
  imports Graph_Topo
begin

text \<open>
  Traversals of \<open>pensieve-graph-topo\<close>: \<open>k_hop\<close>, \<open>var_length\<close> and \<open>shortest_path_len\<close>. The
  breadth-first loops take the neighbour function as an argument, since \<open>CsrGraph\<close> and the
  reference oracle run the same loop over different graphs. A result \<open>None\<close> is a panic or a loop
  that does not return, and the theorems show that neither happens.
\<close>

section \<open>The loops\<close>

type_synonym depths = "nat \<rightharpoonup> nat"
type_synonym hit = "string \<times> string \<times> nat"

text \<open>One neighbour of the node at depth \<open>d\<close> in \<open>k_hop\<close>.\<close>

definition visit ::
  "(nat \<Rightarrow> string option) \<Rightarrow> string \<Rightarrow> nat \<Rightarrow> depths \<times> nat list \<times> hit set \<Rightarrow> nat
     \<Rightarrow> (depths \<times> nat list \<times> hit set) option" where
  "visit name s d st nb = (case st of (depth_of, q, out) \<Rightarrow>
     (case depth_of nb of
        Some _ \<Rightarrow> Some st
      | None \<Rightarrow> (case name nb of
                   None \<Rightarrow> None
                 | Some i \<Rightarrow> Some (depth_of(nb \<mapsto> d + 1), q @ [nb], insert (s, i, d + 1) out))))"

type_synonym khop_state = "depths \<times> nat list \<times> hit set"

text \<open>One turn of the \<open>while let Some(cur) = q.pop_front()\<close> loop.\<close>

definition khop_body ::
  "(nat \<Rightarrow> nat list option) \<Rightarrow> (nat \<Rightarrow> string option) \<Rightarrow> string \<Rightarrow> nat \<Rightarrow> khop_state
     \<Rightarrow> (khop_state + hit set) option" where
  "khop_body nb name s k st = (case st of (depth_of, q, out) \<Rightarrow>
     (case q of
        [] \<Rightarrow> Some (Inr out)
      | cur # q' \<Rightarrow>
          (case depth_of cur of
             None \<Rightarrow> None
           | Some d \<Rightarrow>
               (if d = k then Some (Inl (depth_of, q', out))
                else (case nb cur of
                        None \<Rightarrow> None
                      | Some ws \<Rightarrow> map_option Inl (foldM (visit name s d) (depth_of, q', out) ws))))))"

definition k_hop_source ::
  "csr_graph \<Rightarrow> nat \<Rightarrow> direction \<Rightarrow> etype_filter \<Rightarrow> hit set \<Rightarrow> string \<Rightarrow> hit set option" where
  "k_hop_source g k dir f out s =
     (case id_to_idx g s of
        None \<Rightarrow> Some out
      | Some start \<Rightarrow>
          loopM (khop_body (step g dir f) (idx (ids g)) s k)
            ([start \<mapsto> 0], [start], insert (s, s, 0) out))"

definition k_hop ::
  "csr_graph \<Rightarrow> string list \<Rightarrow> nat \<Rightarrow> direction \<Rightarrow> string option \<Rightarrow> hit set option" where
  "k_hop g sources k dir et = foldM (k_hop_source g k dir (resolve_etype g et)) {} sources"

definition var_length ::
  "csr_graph \<Rightarrow> string list \<Rightarrow> nat \<Rightarrow> nat \<Rightarrow> direction \<Rightarrow> string option \<Rightarrow> hit set option" where
  "var_length g sources mn mx dir et =
     map_option (Set.filter (\<lambda>(_, _, d). mn \<le> d)) (k_hop g sources mx dir et)"

text \<open>The inner loop of \<open>shortest_path_len\<close>: \<open>Inl\<close> is the early return.\<close>

fun sp_scan :: "nat \<Rightarrow> nat \<Rightarrow> nat list \<Rightarrow> depths \<Rightarrow> nat list \<Rightarrow> nat + depths \<times> nat list" where
  "sp_scan goal d [] depth_of q = Inr (depth_of, q)"
| "sp_scan goal d (nb # ws) depth_of q =
     (if nb = goal then Inl (d + 1)
      else (case depth_of nb of
              None \<Rightarrow> sp_scan goal d ws (depth_of(nb \<mapsto> d + 1)) (q @ [nb])
            | Some _ \<Rightarrow> sp_scan goal d ws depth_of q))"

definition sp_body ::
  "(nat \<Rightarrow> nat list option) \<Rightarrow> nat \<Rightarrow> depths \<times> nat list
     \<Rightarrow> (depths \<times> nat list + nat option) option" where
  "sp_body nb goal st = (case st of (depth_of, q) \<Rightarrow>
     (case q of
        [] \<Rightarrow> Some (Inr None)
      | cur # q' \<Rightarrow>
          (case depth_of cur of
             None \<Rightarrow> None
           | Some d \<Rightarrow>
               (case nb cur of
                  None \<Rightarrow> None
                | Some ws \<Rightarrow>
                    (case sp_scan goal d ws depth_of q' of
                       Inl r \<Rightarrow> Some (Inr (Some r))
                     | Inr st' \<Rightarrow> Some (Inl st'))))))"

definition shortest_path_len ::
  "csr_graph \<Rightarrow> string \<Rightarrow> string \<Rightarrow> direction \<Rightarrow> string option \<Rightarrow> nat option option" where
  "shortest_path_len g src dst dir et =
     (case id_to_idx g src of
        None \<Rightarrow> Some None
      | Some start \<Rightarrow>
     (case id_to_idx g dst of
        None \<Rightarrow> Some None
      | Some goal \<Rightarrow>
          (if start = goal then Some (Some 0)
           else loopM (sp_body (step g dir (resolve_etype g et)) goal) ([start \<mapsto> 0], [start]))))"

section \<open>Distances\<close>

definition is_dist :: "('a \<times> 'a) set \<Rightarrow> 'a \<Rightarrow> 'a \<Rightarrow> nat \<Rightarrow> bool" where
  "is_dist R a b d \<longleftrightarrow> (a, b) \<in> R ^^ d \<and> (\<forall>e < d. (a, b) \<notin> R ^^ e)"

lemma is_dist_unique: "is_dist R a b d \<Longrightarrow> is_dist R a b e \<Longrightarrow> d = e"
  by (auto simp: is_dist_def) (meson linorder_neqE_nat)

lemma is_dist_self [simp]: "is_dist R a a d \<longleftrightarrow> d = 0"
  by (auto simp: is_dist_def)

lemma is_dist_exists: "(a, b) \<in> R ^^ n \<Longrightarrow> \<exists>d \<le> n. is_dist R a b d"
  by (rule exI [of _ "LEAST d. (a, b) \<in> R ^^ d"])
    (auto simp: is_dist_def intro: LeastI Least_le dest: not_less_Least)

section \<open>The invariant of the breadth-first loops\<close>

text \<open>
  \<open>stop d\<close> says that nodes at depth \<open>d\<close> are not expanded. Discovered nodes have a walk of their
  depth; the queue is sorted by depth and spans two levels; a discovered node that is neither
  queued nor stopped has all its successors discovered at most one level deeper.
\<close>

definition bfs_inv ::
  "(nat \<times> nat) set \<Rightarrow> nat \<Rightarrow> nat \<Rightarrow> (nat \<Rightarrow> bool) \<Rightarrow> depths \<Rightarrow> nat list \<Rightarrow> bool" where
  "bfs_inv R n s stop depth q \<longleftrightarrow>
     depth s = Some 0 \<and> dom depth \<subseteq> {..<n} \<and>
     (\<forall>v d. depth v = Some d \<longrightarrow> (s, v) \<in> R ^^ d \<and> (\<forall>e < d. \<not> stop e)) \<and>
     set q \<subseteq> dom depth \<and> sorted (map (\<lambda>v. the (depth v)) q) \<and>
     (\<forall>x q'. q = x # q' \<longrightarrow> (\<forall>v d. depth v = Some d \<longrightarrow> d \<le> Suc (the (depth x)))) \<and>
     (\<forall>v d w. depth v = Some d \<and> v \<notin> set q \<and> \<not> stop d \<and> (v, w) \<in> R \<longrightarrow>
        (\<exists>e \<le> Suc d. depth w = Some e))"

lemma bfs_inv_init: "s < n \<Longrightarrow> bfs_inv R n s stop [s \<mapsto> 0] [s]"
  by (auto simp: bfs_inv_def split: if_splits)

lemma bfs_invI:
  assumes "depth s = Some 0" "dom depth \<subseteq> {..<n}"
    and "\<And>v d. depth v = Some d \<Longrightarrow> (s, v) \<in> R ^^ d \<and> (\<forall>e < d. \<not> stop e)"
    and "set q \<subseteq> dom depth" "sorted (map (\<lambda>v. the (depth v)) q)"
    and "\<And>x q' v d. q = x # q' \<Longrightarrow> depth v = Some d \<Longrightarrow> d \<le> Suc (the (depth x))"
    and "\<And>v d w. depth v = Some d \<Longrightarrow> v \<notin> set q \<Longrightarrow> \<not> stop d \<Longrightarrow> (v, w) \<in> R \<Longrightarrow>
           \<exists>e \<le> Suc d. depth w = Some e"
  shows "bfs_inv R n s stop depth q"
proof -
  have "\<forall>v d w. depth v = Some d \<and> v \<notin> set q \<and> \<not> stop d \<and> (v, w) \<in> R \<longrightarrow> (\<exists>e \<le> Suc d. depth w = Some e)"
    using assms(7) by blast
  with assms(1-6) show ?thesis by (simp add: bfs_inv_def)
qed

lemma bfs_inv_closed:
  "bfs_inv R n s stop depth q \<Longrightarrow> depth v = Some d \<Longrightarrow> v \<notin> set q \<Longrightarrow> \<not> stop d \<Longrightarrow> (v, w) \<in> R \<Longrightarrow>
     \<exists>e \<le> Suc d. depth w = Some e"
  unfolding bfs_inv_def by blast

lemma bfs_inv_queued:
  assumes "bfs_inv R n s stop depth q" "v \<in> set q"
  obtains d where "depth v = Some d"
  using assms unfolding bfs_inv_def by blast

lemma bfs_inv_sound:
  "bfs_inv R n s stop depth q \<Longrightarrow> depth v = Some d \<Longrightarrow> (s, v) \<in> R ^^ d \<and> (\<forall>e < d. \<not> stop e) \<and> v < n"
  unfolding bfs_inv_def by blast

text \<open>Discovering the new members of \<open>ws\<close> at depth \<open>Suc d\<close>.\<close>

definition discover :: "nat \<Rightarrow> nat list \<Rightarrow> depths \<Rightarrow> depths" where
  "discover d ws depth v =
     (case depth v of Some e \<Rightarrow> Some e | None \<Rightarrow> if v \<in> set ws then Some (Suc d) else None)"

definition news :: "nat list \<Rightarrow> depths \<Rightarrow> nat list" where
  "news ws depth = rev (remdups (rev (filter (\<lambda>v. depth v = None) ws)))"

lemma set_news: "set (news ws depth) = {v \<in> set ws. depth v = None}"
  by (auto simp: news_def)

lemma distinct_news: "distinct (news ws depth)"
  by (simp add: news_def)

lemma discover_Some:
  "discover d ws depth v = Some e \<longleftrightarrow> depth v = Some e \<or> v \<in> set (news ws depth) \<and> e = Suc d"
  by (auto simp: discover_def set_news split: option.splits)

lemma discover_Nil [simp]: "discover d [] depth = depth"
  by (auto simp: discover_def fun_eq_iff split: option.splits)

lemma news_Nil [simp]: "news [] depth = []"
  by (simp add: news_def)

lemma dom_discover: "dom (discover d ws depth) = dom depth \<union> set ws"
  by (auto simp: discover_def split: option.splits if_splits)

lemma discover_snoc:
  "discover d (ws @ [w]) depth =
     (case discover d ws depth w of Some _ \<Rightarrow> discover d ws depth
      | None \<Rightarrow> (discover d ws depth)(w \<mapsto> Suc d))"
  by (auto simp: discover_def fun_eq_iff split: option.splits if_splits)

lemma news_snoc:
  "news (ws @ [w]) depth =
     (case discover d ws depth w of Some _ \<Rightarrow> news ws depth | None \<Rightarrow> news ws depth @ [w])"
  by (auto simp: news_def discover_def split: option.splits if_splits)

lemma bfs_inv_stop:
  assumes "bfs_inv R n s stop depth (x # q)" "depth x = Some d" "stop d"
  shows "bfs_inv R n s stop depth q"
proof -
  have "d' \<le> Suc (the (depth y))" if "q = y # q'" "depth v = Some d'" for y q' v d'
  proof -
    from assms(1) that(1) have "the (depth x) \<le> the (depth y)" by (auto simp: bfs_inv_def)
    moreover from assms(1) that(2) have "d' \<le> Suc (the (depth x))" by (auto simp: bfs_inv_def)
    ultimately show ?thesis by simp
  qed
  with assms show ?thesis unfolding bfs_inv_def by (auto; metis option.inject)
qed

lemma bfs_inv_expand:
  assumes inv: "bfs_inv R n s stop depth (x # q)" and x: "depth x = Some d" "\<not> stop d"
    and R: "\<And>w. (x, w) \<in> R \<longleftrightarrow> w \<in> set ws" and lt: "\<And>w. w \<in> set ws \<Longrightarrow> w < n"
  shows "bfs_inv R n s stop (discover d ws depth) (q @ news ws depth)"
proof -
  let ?D = "discover d ws depth"
  let ?q = "q @ news ws depth"
  have old: "?D v = Some e" if "depth v = Some e" for v e
    using that by (simp add: discover_def)
  have new: "?D v = Some (Suc d)" if "v \<in> set (news ws depth)" for v
    using that by (auto simp: discover_def set_news)
  have cases_D: "depth v = Some e \<or> depth v = None \<and> v \<in> set ws \<and> e = Suc d" if "?D v = Some e" for v e
    using that by (auto simp: discover_def split: option.splits if_splits)
  have top: "e \<le> Suc d" if "depth v = Some e" for v e
    using inv x that by (auto simp: bfs_inv_def)
  have bot: "d \<le> e" if "v \<in> set q" "depth v = Some e" for v e
    using inv x that by (force simp: bfs_inv_def)
  have 1: "?D s = Some 0" "dom ?D \<subseteq> {..<n}"
    using inv lt old by (auto simp: bfs_inv_def dom_discover)
  have 2: "(s, v) \<in> R ^^ e \<and> (\<forall>i < e. \<not> stop i)" if "?D v = Some e" for v e
    using cases_D [OF that]
  proof
    assume "depth v = Some e"
    then show ?thesis using inv by (auto simp: bfs_inv_def)
  next
    assume v: "depth v = None \<and> v \<in> set ws \<and> e = Suc d"
    have "(s, x) \<in> R ^^ d" "\<forall>i < d. \<not> stop i" using inv x by (auto simp: bfs_inv_def)
    with v R x(2) show ?thesis by (auto simp: less_Suc_eq intro: relpow_Suc_I)
  qed
  have mq: "map (\<lambda>v. the (?D v)) q = map (\<lambda>v. the (depth v)) q"
    using inv old by (auto simp: bfs_inv_def)
  have mn: "map (\<lambda>v. the (?D v)) (news ws depth) = replicate (length (news ws depth)) (Suc d)"
    using new by (auto intro!: nth_equalityI)
  have "\<forall>v \<in> set q. the (depth v) \<le> Suc d"
  proof
    fix v assume "v \<in> set q"
    then have "v \<in> set (x # q)" by simp
    with inv obtain e where "depth v = Some e" by (rule bfs_inv_queued)
    with top show "the (depth v) \<le> Suc d" by simp
  qed
  with inv have "sorted (map (\<lambda>v. the (depth v)) q @ replicate (length (news ws depth)) (Suc d))"
    by (auto simp: bfs_inv_def sorted_append)
  then have 3: "sorted (map (\<lambda>v. the (?D v)) ?q)" "set ?q \<subseteq> dom ?D"
    using inv by (simp_all add: mq mn) (auto simp: bfs_inv_def dom_discover set_news)
  have lo: "d \<le> the (?D v)" if "v \<in> set ?q" for v
  proof (cases "v \<in> set q")
    case True
    with inv obtain e where "depth v = Some e" by (auto simp: bfs_inv_def)
    with bot [OF True] old show ?thesis by simp
  next
    case False
    with that new show ?thesis by simp
  qed
  have 4: "e \<le> Suc (the (?D y))" if "?q = y # q'" "?D v = Some e" for y q' v e
  proof -
    have "y \<in> set ?q" using that(1) by (metis list.set_intros(1))
    from lo [OF this] cases_D [OF that(2)] top show ?thesis by fastforce
  qed
  have 5: "\<exists>i \<le> Suc e. ?D w = Some i"
    if "?D v = Some e" "v \<notin> set ?q" "\<not> stop e" "(v, w) \<in> R" for v e w
  proof (cases "v = x")
    case True
    with that(1,4) x(1) R have e: "e = d" and w: "w \<in> set ws" by (auto simp: discover_def)
    then obtain i where i: "?D w = Some i" using dom_discover [of d ws depth] by blast
    with cases_D [OF i] top e show ?thesis by fastforce
  next
    case False
    have "depth v = Some e" using cases_D [OF that(1)] that(2) by (auto simp: set_news)
    moreover have "v \<notin> set (x # q)" using that(2) False by simp
    moreover note \<open>\<not> stop e\<close> \<open>(v, w) \<in> R\<close>
    ultimately obtain i where "i \<le> Suc e" "depth w = Some i"
      using bfs_inv_closed [OF inv] by blast
    then show ?thesis using old by blast
  qed
  show ?thesis by (rule bfs_invI [OF 1 2 3(2) 3(1) 4 5])
qed

text \<open>At the end of the loop the recorded depths are exactly the distances.\<close>

lemma bfs_inv_walk:
  assumes inv: "bfs_inv R n s stop depth q" and q: "\<And>v. v \<in> set q \<Longrightarrow> m \<le> the (depth v)"
  shows "(s, v) \<in> R ^^ m \<Longrightarrow> \<forall>e < m. \<not> stop e \<Longrightarrow> \<exists>e \<le> m. depth v = Some e"
  using q
proof (induction m arbitrary: v)
  case 0
  then show ?case using inv by (auto simp: bfs_inv_def)
next
  case (Suc m)
  from Suc.prems(1) obtain u where u: "(s, u) \<in> R ^^ m" "(u, v) \<in> R" by auto
  from Suc.IH [OF u(1)] Suc.prems obtain e where e: "e \<le> m" "depth u = Some e"
    by fastforce
  from e Suc.prems(3) [of u] have "u \<notin> set q" by auto
  moreover from e(1) Suc.prems(2) have "\<not> stop e" by simp
  ultimately obtain i where "i \<le> Suc e" "depth v = Some i"
    using bfs_inv_closed [OF inv e(2)] u(2) by blast
  with e(1) show ?case by (intro exI [of _ i]) simp
qed

lemma bfs_inv_final:
  assumes "bfs_inv R n s stop depth []"
  shows "depth v = Some d \<longleftrightarrow> is_dist R s v d \<and> (\<forall>e < d. \<not> stop e)"
proof -
  note walk = bfs_inv_walk [OF assms, simplified]
  have sound: "(s, v) \<in> R ^^ d \<and> (\<forall>e < d. \<not> stop e)" if "depth v = Some d" for d
    using assms that by (simp add: bfs_inv_def)
  show ?thesis
  proof
    assume d: "depth v = Some d"
    have "(s, v) \<notin> R ^^ e" if "e < d" for e
      using walk [of v e] sound [OF d] that d by fastforce
    with sound [OF d] show "is_dist R s v d \<and> (\<forall>e < d. \<not> stop e)" by (simp add: is_dist_def)
  next
    assume d: "is_dist R s v d \<and> (\<forall>e < d. \<not> stop e)"
    with walk [of v d] obtain e where e: "e \<le> d" "depth v = Some e" by (auto simp: is_dist_def)
    have "\<not> e < d" using sound [OF e(2)] d unfolding is_dist_def by blast
    with e show "depth v = Some d" by simp
  qed
qed

text \<open>Each turn of the loop shrinks the undiscovered nodes plus the queue.\<close>

definition todo :: "nat \<Rightarrow> depths \<Rightarrow> nat list \<Rightarrow> nat" where
  "todo n depth q = card ({..<n} - dom depth) + length q"

lemma todo_expand:
  assumes "\<And>w. w \<in> set ws \<Longrightarrow> w < n"
  shows "todo n (discover d ws depth) (q @ news ws depth) < todo n depth (x # q)"
proof -
  let ?U = "{..<n} - dom depth"
  let ?W = "set (news ws depth)"
  have sub: "?W \<subseteq> ?U" using assms by (auto simp: set_news)
  have "{..<n} - dom (discover d ws depth) = ?U - ?W"
    by (auto simp: dom_discover set_news)
  moreover have "card (?U - ?W) = card ?U - card ?W"
    using sub by (intro card_Diff_subset) auto
  moreover have "card ?W \<le> card ?U" using sub by (intro card_mono) auto
  moreover have "card ?W = length (news ws depth)"
    by (simp add: distinct_card distinct_news)
  ultimately show ?thesis by (simp add: todo_def)
qed

section \<open>The contract of a neighbour function\<close>

text \<open>
  What the loops need of a graph representation: on a well-formed graph the neighbours of every
  node exist and are nodes again.
\<close>

definition nbr_rel :: "(nat \<Rightarrow> nat list option) \<Rightarrow> nat \<Rightarrow> (nat \<times> nat) set" where
  "nbr_rel nb n = {(v, w). v < n \<and> (\<exists>ws. nb v = Some ws \<and> w \<in> set ws)}"

lemma visit_loop:
  assumes "\<And>w. w \<in> set ws \<Longrightarrow> name w = Some (nm w)"
  shows "foldM (visit name s d) (depth, q, out) ws =
    Some (discover d ws depth, q @ news ws depth, out \<union> {(s, nm v, Suc d) | v. v \<in> set (news ws depth)})"
  using assms
proof (induction ws rule: rev_induct)
  case Nil
  then show ?case by simp
next
  case (snoc w ws)
  then show ?case
    by (cases "discover d ws depth w")
      (auto simp: foldM_append visit_def discover_snoc news_snoc [where d = d])
qed

lemma sp_scan_goal: "goal \<in> set ws \<Longrightarrow> sp_scan goal d ws depth q = Inl (Suc d)"
  by (induction ws arbitrary: depth q) (auto split: option.splits)

lemma sp_scan_append:
  "goal \<notin> set xs \<Longrightarrow> sp_scan goal d (xs @ ys) depth q =
     (case sp_scan goal d xs depth q of Inl r \<Rightarrow> Inl r | Inr (d', q') \<Rightarrow> sp_scan goal d ys d' q')"
  by (induction xs arbitrary: depth q) (auto split: option.splits)

lemma sp_scan_discover:
  "goal \<notin> set ws \<Longrightarrow> sp_scan goal d ws depth q = Inr (discover d ws depth, q @ news ws depth)"
proof (induction ws rule: rev_induct)
  case Nil
  then show ?case by simp
next
  case (snoc w ws)
  then show ?case
    by (cases "discover d ws depth w")
      (auto simp: sp_scan_append discover_snoc news_snoc [where d = d])
qed

locale adjacency =
  fixes invar :: "'g \<Rightarrow> bool"
    and size_of :: "'g \<Rightarrow> nat"
    and nbrs :: "'g \<Rightarrow> nat \<Rightarrow> nat list option"
  assumes nbrs_total: "invar g \<Longrightarrow> v < size_of g \<Longrightarrow>
    \<exists>ws. nbrs g v = Some ws \<and> (\<forall>w \<in> set ws. w < size_of g)"
begin

lemma nbrs_expand:
  assumes g: "invar g" and inv: "bfs_inv (nbr_rel (nbrs g) (size_of g)) (size_of g) s stop depth (x # q)"
  obtains d ws where "depth x = Some d" "nbrs g x = Some ws" "\<And>w. w \<in> set ws \<Longrightarrow> w < size_of g"
    "\<And>w. (x, w) \<in> nbr_rel (nbrs g) (size_of g) \<longleftrightarrow> w \<in> set ws"
proof -
  have "x \<in> set (x # q)" by simp
  with inv obtain d where d: "depth x = Some d" by (rule bfs_inv_queued)
  with inv have x: "x < size_of g" by (simp add: bfs_inv_sound)
  with nbrs_total [OF g] obtain ws where "nbrs g x = Some ws" "\<forall>w \<in> set ws. w < size_of g" by blast
  with d x that show thesis by (auto simp: nbr_rel_def)
qed

lemma khop_loop_correct:
  assumes g: "invar g" and start: "start < size_of g"
    and name: "\<And>v. v < size_of g \<Longrightarrow> name v = Some (nm v)" and s: "nm start = s"
  defines "R \<equiv> nbr_rel (nbrs g) (size_of g)"
  shows "loopM (khop_body (nbrs g) name s k) ([start \<mapsto> 0], [start], insert (s, s, 0) out) =
    Some (out \<union> {(s, nm v, d) | v d. is_dist R start v d \<and> d \<le> k})"
proof -
  let ?n = "size_of g"
  let ?hits = "\<lambda>depth. {(s, nm v, d) | v d. depth v = Some d}"
  let ?I = "\<lambda>(depth, q, o'). bfs_inv R ?n start (\<lambda>d. d = k) depth q \<and> o' = out \<union> ?hits depth"
  let ?r = "out \<union> {(s, nm v, d) | v d. is_dist R start v d \<and> d \<le> k}"
  have "\<exists>r. loopM (khop_body (nbrs g) name s k) ([start \<mapsto> 0], [start], insert (s, s, 0) out) = Some r \<and>
      r = ?r"
  proof (rule loopM_rule [where I = ?I and m = "\<lambda>(depth, q, _). todo ?n depth q"])
    show "?I ([start \<mapsto> 0], [start], insert (s, s, 0) out)"
      using bfs_inv_init [OF start] s by (auto split: if_splits)
  next
    fix st assume I: "?I st"
    obtain depth q o' where st: "st = (depth, q, o')" by (cases st)
    from I st have inv: "bfs_inv R ?n start (\<lambda>d. d = k) depth q" and o': "o' = out \<union> ?hits depth"
      by auto
    show "(\<exists>st'. khop_body (nbrs g) name s k st = Some (Inl st') \<and> ?I st' \<and>
             (case st' of (depth, q, _) \<Rightarrow> todo ?n depth q) < (case st of (depth, q, _) \<Rightarrow> todo ?n depth q)) \<or>
          (\<exists>r. khop_body (nbrs g) name s k st = Some (Inr r) \<and> r = ?r)"
    proof (cases q)
      case Nil
      with inv have "depth v = Some d \<longleftrightarrow> is_dist R start v d \<and> d \<le> k" for v d
        by (simp add: bfs_inv_final) (metis linorder_not_le nat_neq_iff)
      with Nil show ?thesis by (simp add: st khop_body_def o')
    next
      case (Cons x q')
      from inv Cons obtain d ws where x: "depth x = Some d" "nbrs g x = Some ws"
        "\<And>w. w \<in> set ws \<Longrightarrow> w < ?n" "\<And>w. (x, w) \<in> R \<longleftrightarrow> w \<in> set ws"
        unfolding R_def using nbrs_expand [OF g] by metis
      show ?thesis
      proof (cases "d = k")
        case True
        with inv Cons x(1) have "bfs_inv R ?n start (\<lambda>d. d = k) depth q'"
          using bfs_inv_stop by blast
        with True Cons x(1) o' show ?thesis by (simp add: st khop_body_def todo_def)
      next
        case False
        let ?o = "o' \<union> {(s, nm v, Suc d) | v. v \<in> set (news ws depth)}"
        have body: "khop_body (nbrs g) name s k st =
            Some (Inl (discover d ws depth, q' @ news ws depth, ?o))"
          using False Cons x name visit_loop [of ws name nm s d depth q' o']
          by (simp add: st khop_body_def)
        have "?o = out \<union> ?hits (discover d ws depth)"
          unfolding o' discover_Some by blast
        moreover have "bfs_inv R ?n start (\<lambda>d. d = k) (discover d ws depth) (q' @ news ws depth)"
          using bfs_inv_expand [OF inv [unfolded Cons] x(1) False x(4) x(3)] .
        ultimately show ?thesis using body todo_expand [OF x(3)] Cons by (simp add: st)
      qed
    qed
  qed
  then show ?thesis by simp
qed

end

context adjacency
begin

lemma sp_loop_correct:
  assumes g: "invar g" and start: "start < size_of g" and ne: "start \<noteq> goal"
  defines "R \<equiv> nbr_rel (nbrs g) (size_of g)"
  shows "\<exists>r. loopM (sp_body (nbrs g) goal) ([start \<mapsto> 0], [start]) = Some r \<and>
    (case r of None \<Rightarrow> (start, goal) \<notin> R\<^sup>* | Some d \<Rightarrow> is_dist R start goal d)"
proof (rule loopM_rule [where m = "\<lambda>(depth, q). todo (size_of g) depth q" and
      I = "\<lambda>(depth, q). bfs_inv R (size_of g) start (\<lambda>_. False) depth q \<and> depth goal = None"])
  let ?n = "size_of g"
  let ?I = "\<lambda>(depth, q). bfs_inv R ?n start (\<lambda>_. False) depth q \<and> depth goal = None"
  show "?I ([start \<mapsto> 0], [start])" using bfs_inv_init [OF start] ne by simp
  fix st assume I: "?I st"
  obtain depth q where st: "st = (depth, q)" by (cases st)
  from I st have inv: "bfs_inv R ?n start (\<lambda>_. False) depth q" and goal: "depth goal = None" by auto
  show "(\<exists>st'. sp_body (nbrs g) goal st = Some (Inl st') \<and> ?I st' \<and>
           (case st' of (depth, q) \<Rightarrow> todo ?n depth q) < (case st of (depth, q) \<Rightarrow> todo ?n depth q)) \<or>
        (\<exists>r. sp_body (nbrs g) goal st = Some (Inr r) \<and>
           (case r of None \<Rightarrow> (start, goal) \<notin> R\<^sup>* | Some d \<Rightarrow> is_dist R start goal d))"
  proof (cases q)
    case Nil
    with bfs_inv_walk [OF inv, of _ goal] goal have "(start, goal) \<notin> R\<^sup>*"
      by (fastforce simp: rtrancl_power)
    with Nil show ?thesis by (simp add: st sp_body_def)
  next
    case (Cons x q')
    from inv Cons obtain d ws where x: "depth x = Some d" "nbrs g x = Some ws"
      "\<And>w. w \<in> set ws \<Longrightarrow> w < ?n" "\<And>w. (x, w) \<in> R \<longleftrightarrow> w \<in> set ws"
      unfolding R_def using nbrs_expand [OF g] by metis
    show ?thesis
    proof (cases "goal \<in> set ws")
      case False
      from sp_scan_discover [OF False]
      have "sp_body (nbrs g) goal st = Some (Inl (discover d ws depth, q' @ news ws depth))"
        using Cons x(1,2) by (simp add: st sp_body_def)
      moreover have "bfs_inv R ?n start (\<lambda>_. False) (discover d ws depth) (q' @ news ws depth)"
        using bfs_inv_expand [OF inv [unfolded Cons] x(1) _ x(4) x(3)] by simp
      moreover have "discover d ws depth goal = None"
        using goal False by (simp add: discover_def)
      ultimately show ?thesis using todo_expand [OF x(3)] Cons by (simp add: st)
    next
      case True
      have "e \<le> the (depth v)" if "v \<in> set q" "e \<le> d" for v e
        using inv that x(1) Cons by (auto simp: bfs_inv_def)
      with bfs_inv_walk [OF inv, of _ goal] goal have "(start, goal) \<notin> R ^^ e" if "e \<le> d" for e
        using that by fastforce
      moreover have "(start, goal) \<in> R ^^ Suc d"
        using bfs_inv_sound [OF inv x(1)] True x(4) by (auto intro: relpow_Suc_I)
      ultimately have "is_dist R start goal (Suc d)" by (simp add: is_dist_def less_Suc_eq_le)
      with True Cons x(1,2) show ?thesis by (simp add: st sp_body_def sp_scan_goal)
    qed
  qed
qed

end

section \<open>Well-formed arrays\<close>

definition csr_arrays_wf :: "nat \<Rightarrow> csr_arrays \<Rightarrow> bool" where
  "csr_arrays_wf n a \<longleftrightarrow> (case a of (offsets, targets, ets) \<Rightarrow>
     length offsets = Suc n \<and> length ets = length targets \<and>
     (\<forall>v < n. \<forall>i \<in> {offsets ! v ..< offsets ! Suc v}. i < length targets \<and> targets ! i < n))"

definition csr_wf :: "csr_graph \<Rightarrow> bool" where
  "csr_wf g \<longleftrightarrow>
     csr_arrays_wf (num_nodes g) (out_offsets g, out_targets g, out_etype g) \<and>
     csr_arrays_wf (num_nodes g) (in_offsets g, in_sources g, in_etype g)"

lemma collect_nbrs_wf:
  assumes "csr_arrays_wf n (offsets, targets, ets)" "v < n"
  shows "\<exists>ws. collect_nbrs offsets targets ets f v out = Some (out @ ws) \<and> (\<forall>w \<in> set ws. w < n)"
proof -
  let ?is = "[offsets ! v ..< offsets ! Suc v]"
  from assms have lt: "i < length targets" if "i \<in> set ?is" for i
    using that by (auto simp: csr_arrays_wf_def)
  from assms push_nbr_loop [OF lt, of ?is ets f out] have "collect_nbrs offsets targets ets f v out =
      Some (out @ map fst (filter (\<lambda>(w, t). filter_matches f t) (map (\<lambda>i. (targets ! i, ets ! i)) ?is)))"
    by (simp add: collect_nbrs_def csr_arrays_wf_def idx_def)
  moreover have "w < n"
    if "w \<in> set (map fst (filter (\<lambda>(w, t). filter_matches f t) (map (\<lambda>i. (targets ! i, ets ! i)) ?is)))" for w
    using that assms by (auto simp: csr_arrays_wf_def)
  ultimately show ?thesis by blast
qed

interpretation csr: adjacency csr_wf num_nodes "\<lambda>g. step g dir f" for dir f
proof
  fix g v assume g: "csr_wf g" and v: "v < num_nodes g"
  then have o: "csr_arrays_wf (num_nodes g) (out_offsets g, out_targets g, out_etype g)"
    and i: "csr_arrays_wf (num_nodes g) (in_offsets g, in_sources g, in_etype g)"
    by (auto simp: csr_wf_def)
  from collect_nbrs_wf [OF o v, of f "[]"] obtain xs where
    xs: "collect_nbrs (out_offsets g) (out_targets g) (out_etype g) f v [] = Some xs"
        "\<forall>w \<in> set xs. w < num_nodes g" by auto
  have "\<exists>ws. collect_nbrs (in_offsets g) (in_sources g) (in_etype g) f v out = Some (out @ ws) \<and>
      (\<forall>w \<in> set ws. w < num_nodes g)" for out
    by (rule collect_nbrs_wf [OF i v])
  with xs show "\<exists>ws. step g dir f v = Some ws \<and> (\<forall>w \<in> set ws. w < num_nodes g)"
    by (cases dir) (fastforce simp: step_def)+
qed

lemma csr_slices_wf:
  assumes "csr_slices n ts a" "\<And>t. t \<in> set ts \<Longrightarrow> fst (snd t) < n"
  shows "csr_arrays_wf n a"
proof -
  obtain offsets targets ets where a: "a = (offsets, targets, ets)" by (cases a)
  have "i < length targets \<and> targets ! i < n"
    if v: "v < n" and i: "i \<in> {offsets ! v ..< offsets ! Suc v}" for v i
  proof -
    have "offsets ! Suc v \<le> length targets"
      using assms(1) v off_of_le [of ts "Suc v"] by (simp add: a csr_slices_def)
    moreover have "map (\<lambda>i. (targets ! i, ets ! i)) [offsets ! v ..< offsets ! Suc v] = nbrs_of ts v"
      using assms(1) v unfolding a csr_slices_def prod.case by blast
    from arg_cong [OF this, of set] i have "(targets ! i, ets ! i) \<in> set (nbrs_of ts v)" by auto
    then have "targets ! i < n" using assms(2) by (force simp: nbrs_of_def)
    ultimately show ?thesis using i by simp
  qed
  with assms(1) show ?thesis by (simp add: a csr_slices_def csr_arrays_wf_def)
qed

lemma csr_of_wf:
  assumes "csr_of nodes es g"
  shows "csr_wf g"
proof -
  let ?k = "kept_triples (ids g) (etypes g) es"
  have "fst (snd t) < num_nodes g" if "t \<in> set ?k" for t
    using that kept_lt(2) [OF assms] by (metis prod.collapse)
  moreover have "fst (snd t) < num_nodes g" if "t \<in> set (map swap_triple ?k)" for t
    using that kept_lt [OF assms] by (auto simp: swap_triple_def split: prod.splits)
  ultimately show ?thesis
    using assms unfolding csr_wf_def csr_of_def by (auto intro: csr_slices_wf)
qed

section \<open>Distances of the input graph\<close>

text \<open>Renaming the nodes of a relation keeps the lengths of walks.\<close>

lemma relpow_rename:
  assumes inj: "inj_on f A" and R: "\<And>v w. (v, w) \<in> R \<longleftrightarrow> v \<in> A \<and> w \<in> A \<and> (f v, f w) \<in> H"
    and H: "H \<subseteq> f ` A \<times> f ` A" and v: "v \<in> A"
  shows "w \<in> A \<Longrightarrow> (v, w) \<in> R ^^ d \<longleftrightarrow> (f v, f w) \<in> H ^^ d"
proof (induction d arbitrary: w)
  case 0
  then show ?case using inj v by (auto dest: inj_onD)
next
  case (Suc d)
  show ?case
  proof
    assume "(v, w) \<in> R ^^ Suc d"
    then obtain u where "(v, u) \<in> R ^^ d" "(u, w) \<in> R" by auto
    with Suc.IH [of u] R show "(f v, f w) \<in> H ^^ Suc d" by auto
  next
    assume "(f v, f w) \<in> H ^^ Suc d"
    then obtain c where c: "(f v, c) \<in> H ^^ d" "(c, f w) \<in> H" by auto
    with H obtain u where "u \<in> A" "c = f u" by auto
    with c Suc.IH [of u] R Suc.prems show "(v, w) \<in> R ^^ Suc d" by auto
  qed
qed

lemma hop_nodes: "(a, b) \<in> hop nodes es dir et \<Longrightarrow> a \<in> set nodes \<and> b \<in> set nodes"
  by (auto simp: hop_def)

lemma hop_walk_node: "(a, b) \<in> hop nodes es dir et ^^ d \<Longrightarrow> a \<in> set nodes \<Longrightarrow> b \<in> set nodes"
  by (cases d) (auto dest: hop_nodes)

lemma nbr_rel_hop:
  assumes g: "csr_of nodes es g"
  shows "(v, w) \<in> nbr_rel (step g dir (resolve_etype g et)) (num_nodes g) \<longleftrightarrow>
     v < num_nodes g \<and> w < num_nodes g \<and> (ids g ! v, ids g ! w) \<in> hop nodes es dir et"
proof (cases "v < num_nodes g")
  case True
  from step_hop [OF g this, of dir et] obtain ws where
    "step g dir (resolve_etype g et) v = Some ws"
    "set ws = {w. w < num_nodes g \<and> (ids g ! v, ids g ! w) \<in> hop nodes es dir et}" by blast
  with True show ?thesis by (simp add: nbr_rel_def)
next
  case False
  then show ?thesis by (simp add: nbr_rel_def)
qed

lemma set_ids_image: "csr_of nodes es g \<Longrightarrow> (!) (ids g) ` {..<num_nodes g} = set nodes"
  using csr_of_ids(2) [of nodes es g] by (auto simp: num_nodes_def set_conv_nth)

lemma walk_hop:
  assumes g: "csr_of nodes es g" and "v < num_nodes g" "w < num_nodes g"
  shows "(v, w) \<in> nbr_rel (step g dir (resolve_etype g et)) (num_nodes g) ^^ d \<longleftrightarrow>
    (ids g ! v, ids g ! w) \<in> hop nodes es dir et ^^ d"
proof (rule relpow_rename [where A = "{..<num_nodes g}"])
  show "inj_on ((!) (ids g)) {..<num_nodes g}"
    using csr_of_ids(1) [OF g] by (auto simp: num_nodes_def inj_on_def nth_eq_iff_index_eq)
  show "hop nodes es dir et \<subseteq> (!) (ids g) ` {..<num_nodes g} \<times> (!) (ids g) ` {..<num_nodes g}"
    unfolding set_ids_image [OF g] by (auto dest: hop_nodes)
qed (use assms nbr_rel_hop [OF g] in auto)

lemma dist_hop:
  assumes "csr_of nodes es g" and "v < num_nodes g" "w < num_nodes g"
  shows "is_dist (nbr_rel (step g dir (resolve_etype g et)) (num_nodes g)) v w d \<longleftrightarrow>
    is_dist (hop nodes es dir et) (ids g ! v) (ids g ! w) d"
  using walk_hop [OF assms] by (simp add: is_dist_def)

lemma reach_hop:
  assumes "csr_of nodes es g" and "v < num_nodes g" "w < num_nodes g"
  shows "(v, w) \<in> (nbr_rel (step g dir (resolve_etype g et)) (num_nodes g))\<^sup>* \<longleftrightarrow>
    (ids g ! v, ids g ! w) \<in> (hop nodes es dir et)\<^sup>*"
  using walk_hop [OF assms] by (simp add: rtrancl_power)

lemma nbr_rel_lt: "csr_of nodes es g \<Longrightarrow> v < num_nodes g \<Longrightarrow>
    is_dist (nbr_rel (step g dir (resolve_etype g et)) (num_nodes g)) v w d \<Longrightarrow> w < num_nodes g"
  by (cases d) (auto simp: is_dist_def nbr_rel_hop)

text \<open>The triples one source contributes, read off the input graph.\<close>

definition hits_of ::
  "string list \<Rightarrow> edge list \<Rightarrow> nat \<Rightarrow> direction \<Rightarrow> string option \<Rightarrow> string \<Rightarrow> hit set" where
  "hits_of nodes es k dir et s =
     {(s, b, d) | b d. s \<in> set nodes \<and> is_dist (hop nodes es dir et) s b d \<and> d \<le> k}"

lemma id_to_idx_cases:
  assumes "csr_of nodes es g"
  shows "id_to_idx g s = None \<Longrightarrow> s \<notin> set nodes"
    and "id_to_idx g s = Some i \<Longrightarrow> i < num_nodes g \<and> ids g ! i = s \<and> s \<in> set nodes"
proof -
  have eq: "id_to_idx g = index_of (ids g)" using assms by (simp add: csr_of_def)
  show "id_to_idx g s = None \<Longrightarrow> s \<notin> set nodes"
    using csr_of_ids(2) [OF assms] by (simp add: eq index_of_None)
  show "id_to_idx g s = Some i \<Longrightarrow> i < num_nodes g \<and> ids g ! i = s \<and> s \<in> set nodes"
    using csr_of_ids [OF assms] by (auto simp: eq index_of_Some num_nodes_def dest: nth_mem)
qed

lemma k_hop_source_correct:
  assumes g: "csr_of nodes es g"
  shows "k_hop_source g k dir (resolve_etype g et) out s = Some (out \<union> hits_of nodes es k dir et s)"
proof (cases "id_to_idx g s")
  case None
  with id_to_idx_cases(1) [OF g] show ?thesis by (simp add: k_hop_source_def hits_of_def)
next
  case (Some start)
  let ?R = "nbr_rel (step g dir (resolve_etype g et)) (num_nodes g)"
  from id_to_idx_cases(2) [OF g Some]
  have st: "start < num_nodes g" "ids g ! start = s" "s \<in> set nodes" by auto
  have "k_hop_source g k dir (resolve_etype g et) out s =
      Some (out \<union> {(s, ids g ! v, d) | v d. is_dist ?R start v d \<and> d \<le> k})"
    unfolding k_hop_source_def Some option.case
    by (rule csr.khop_loop_correct [OF csr_of_wf [OF g]]) (use st in \<open>auto simp: num_nodes_def\<close>)
  moreover have "{(s, ids g ! v, d) | v d. is_dist ?R start v d \<and> d \<le> k} = hits_of nodes es k dir et s"
    (is "?A = ?B")
  proof (intro equalityI subsetI)
    fix h assume "h \<in> ?A"
    then obtain v d where h: "h = (s, ids g ! v, d)" "is_dist ?R start v d" "d \<le> k" by auto
    have "v < num_nodes g" by (rule nbr_rel_lt [OF g st(1) h(2)])
    with h dist_hop [OF g st(1) this] st show "h \<in> ?B" by (auto simp: hits_of_def)
  next
    fix h assume "h \<in> ?B"
    then obtain b d where h: "h = (s, b, d)" "is_dist (hop nodes es dir et) s b d" "d \<le> k"
      by (auto simp: hits_of_def)
    then have "b \<in> set nodes" using hop_walk_node st(3) by (auto simp: is_dist_def)
    then obtain v where "v < num_nodes g" "b = ids g ! v" unfolding set_ids_image [OF g, symmetric] by auto
    with h dist_hop [OF g st(1)] st(2) show "h \<in> ?A" by auto
  qed
  ultimately show ?thesis by simp
qed

lemma foldM_union:
  "(\<And>out s. f out s = Some (out \<union> H s)) \<Longrightarrow> foldM f out xs = Some (out \<union> (\<Union>x \<in> set xs. H x))"
  by (induction xs arbitrary: out) auto

lemma k_hop_csr:
  assumes "csr_of nodes es g"
  shows "k_hop g sources k dir et = Some (\<Union>s \<in> set sources. hits_of nodes es k dir et s)"
  by (simp add: k_hop_def foldM_union [OF k_hop_source_correct [OF assms]])

lemma shortest_path_csr:
  assumes g: "csr_of nodes es g"
  shows "\<exists>r. shortest_path_len g src dst dir et = Some r \<and>
    (case r of
       None \<Rightarrow> src \<notin> set nodes \<or> dst \<notin> set nodes \<or> (src, dst) \<notin> (hop nodes es dir et)\<^sup>*
     | Some d \<Rightarrow> src \<in> set nodes \<and> dst \<in> set nodes \<and> is_dist (hop nodes es dir et) src dst d)"
proof (cases "id_to_idx g src")
  case None
  with id_to_idx_cases(1) [OF g] show ?thesis by (simp add: shortest_path_len_def)
next
  case (Some start)
  note start = id_to_idx_cases(2) [OF g Some]
  show ?thesis
  proof (cases "id_to_idx g dst")
    case None
    with Some id_to_idx_cases(1) [OF g] show ?thesis by (simp add: shortest_path_len_def)
  next
    case (Some goal)
    note goal = id_to_idx_cases(2) [OF g Some]
    show ?thesis
    proof (cases "start = goal")
      case True
      with start goal Some \<open>id_to_idx g src = Some start\<close> show ?thesis
        by (auto simp: shortest_path_len_def)
    next
      case False
      from csr.sp_loop_correct [OF csr_of_wf [OF g] _ False, of dir "resolve_etype g et"] start
      obtain r where r: "loopM (sp_body (step g dir (resolve_etype g et)) goal) ([start \<mapsto> 0], [start]) = Some r"
        "case r of None \<Rightarrow> (start, goal) \<notin> (nbr_rel (step g dir (resolve_etype g et)) (num_nodes g))\<^sup>*
         | Some d \<Rightarrow> is_dist (nbr_rel (step g dir (resolve_etype g et)) (num_nodes g)) start goal d"
        by blast
      with False Some \<open>id_to_idx g src = Some start\<close> start goal show ?thesis
        by (auto simp: shortest_path_len_def dist_hop [OF g] reach_hop [OF g] split: option.splits)
    qed
  qed
qed

section \<open>Properties\<close>

text \<open>
  C20: on every graph \<open>build\<close> makes, \<open>k_hop\<close> returns, without panic, exactly the triples of a source
  that is a node, a node, and their distance in the input graph, for the distances up to \<open>k\<close>; so
  each node appears once per source, at its shortest hop count.
\<close>

theorem k_hop_correct:
  assumes "length nodes < u32_size" "length es < u32_size"
  shows "\<exists>g. build nodes es = Some g \<and>
    k_hop g sources k dir et =
      Some {(s, b, d). s \<in> set sources \<and> s \<in> set nodes \<and> is_dist (hop nodes es dir et) s b d \<and> d \<le> k}"
proof -
  from build_total [OF assms] obtain g where g: "build nodes es = Some g" "csr_of nodes es g" by blast
  have "(\<Union>s \<in> set sources. hits_of nodes es k dir et s) =
      {(s, b, d). s \<in> set sources \<and> s \<in> set nodes \<and> is_dist (hop nodes es dir et) s b d \<and> d \<le> k}"
    by (auto simp: hits_of_def)
  with g k_hop_csr [OF g(2)] show ?thesis by auto
qed

theorem k_hop_correct_witness:
  "\<exists>g. build [''a'', ''b''] [(''a'', ''b'', ''x'')] = Some g \<and>
    k_hop g [''a''] 1 Fwd None =
      Some {(s, b, d). s \<in> set [''a''] \<and> s \<in> set [''a'', ''b''] \<and>
        is_dist (hop [''a'', ''b''] [(''a'', ''b'', ''x'')] Fwd None) s b d \<and> d \<le> 1}"
  by (rule k_hop_correct) (simp_all add: u32_size_def)

text \<open>
  \<open>var_length\<close> returns the same triples restricted to distances between its two bounds.
\<close>

theorem var_length_correct:
  assumes "length nodes < u32_size" "length es < u32_size"
  shows "\<exists>g. build nodes es = Some g \<and>
    var_length g sources mn mx dir et =
      Some {(s, b, d). s \<in> set sources \<and> s \<in> set nodes \<and> is_dist (hop nodes es dir et) s b d \<and>
                       mn \<le> d \<and> d \<le> mx}"
proof -
  from build_total [OF assms] obtain g where g: "build nodes es = Some g" "csr_of nodes es g" by blast
  have "Set.filter (\<lambda>(_, _, d). mn \<le> d) (\<Union>s \<in> set sources. hits_of nodes es mx dir et s) =
      {(s, b, d). s \<in> set sources \<and> s \<in> set nodes \<and> is_dist (hop nodes es dir et) s b d \<and>
                  mn \<le> d \<and> d \<le> mx}"
    by (auto simp: hits_of_def)
  with g k_hop_csr [OF g(2)] show ?thesis by (auto simp: var_length_def)
qed

theorem var_length_correct_witness:
  "\<exists>g. build [''a'', ''b''] [(''a'', ''b'', ''x'')] = Some g \<and>
    var_length g [''a''] 1 2 Both (Some ''x'') =
      Some {(s, b, d). s \<in> set [''a''] \<and> s \<in> set [''a'', ''b''] \<and>
        is_dist (hop [''a'', ''b''] [(''a'', ''b'', ''x'')] Both (Some ''x'')) s b d \<and> 1 \<le> d \<and> d \<le> 2}"
  by (rule var_length_correct) (simp_all add: u32_size_def)

text \<open>
  C29: \<open>shortest_path_len\<close> terminates without panic; it returns the distance when both ends are nodes
  and connected in the asked direction, and \<open>None\<close> exactly otherwise.
\<close>

theorem shortest_path_correct:
  assumes "length nodes < u32_size" "length es < u32_size"
  shows "\<exists>g r. build nodes es = Some g \<and> shortest_path_len g src dst dir et = Some r \<and>
    (case r of
       None \<Rightarrow> src \<notin> set nodes \<or> dst \<notin> set nodes \<or> (src, dst) \<notin> (hop nodes es dir et)\<^sup>*
     | Some d \<Rightarrow> src \<in> set nodes \<and> dst \<in> set nodes \<and> is_dist (hop nodes es dir et) src dst d)"
  using build_total [OF assms] shortest_path_csr by blast

theorem shortest_path_correct_witness:
  "\<exists>g r. build [''a'', ''b''] [(''a'', ''b'', ''x'')] = Some g \<and>
    shortest_path_len g ''b'' ''a'' Back None = Some r \<and>
    (case r of
       None \<Rightarrow> ''b'' \<notin> set [''a'', ''b''] \<or> ''a'' \<notin> set [''a'', ''b''] \<or>
         (''b'', ''a'') \<notin> (hop [''a'', ''b''] [(''a'', ''b'', ''x'')] Back None)\<^sup>*
     | Some d \<Rightarrow> ''b'' \<in> set [''a'', ''b''] \<and> ''a'' \<in> set [''a'', ''b''] \<and>
         is_dist (hop [''a'', ''b''] [(''a'', ''b'', ''x'')] Back None) ''b'' ''a'' d)"
  by (rule shortest_path_correct) (simp_all add: u32_size_def)

end
