(* ===== verification/Graph_Components.thy ===== *)
theory Graph_Components
  imports Graph_Traverse
begin

text \<open>
  Connected components and dense relabelling of \<open>pensieve-graph-topo\<close>. Labels are \<open>u32\<close>; the
  value \<open>u32::MAX\<close> marks a node that has none yet.
\<close>

section \<open>The algorithms\<close>

definition u32_max :: nat where
  "u32_max = u32_size - 1"

text \<open>One neighbour \<open>v\<close> in the inner loop.\<close>

definition comp_label :: "nat \<Rightarrow> nat list \<times> nat list \<Rightarrow> nat \<Rightarrow> (nat list \<times> nat list) option" where
  "comp_label nxt st v = (case st of (lab, queue) \<Rightarrow>
     (case idx lab v of
        None \<Rightarrow> None
      | Some c \<Rightarrow> (if c = u32_max then Some (lab[v := nxt], queue @ [v]) else Some (lab, queue))))"

definition comp_body ::
  "(nat \<Rightarrow> nat list option) \<Rightarrow> nat \<Rightarrow> nat list \<times> nat list
     \<Rightarrow> (nat list \<times> nat list + nat list) option" where
  "comp_body nb nxt st = (case st of (lab, queue) \<Rightarrow>
     (case queue of
        [] \<Rightarrow> Some (Inr lab)
      | u # queue' \<Rightarrow>
          (case nb u of
             None \<Rightarrow> None
           | Some ws \<Rightarrow> map_option Inl (foldM (comp_label nxt) (lab, queue') ws))))"

definition comp_start ::
  "(nat \<Rightarrow> nat list option) \<Rightarrow> nat list \<times> nat \<Rightarrow> nat \<Rightarrow> (nat list \<times> nat) option" where
  "comp_start nb st start = (case st of (lab, nxt) \<Rightarrow>
     (case idx lab start of
        None \<Rightarrow> None
      | Some c \<Rightarrow>
          (if c \<noteq> u32_max then Some (lab, nxt)
           else map_option (\<lambda>lab'. (lab', as_u32 (nxt + 1)))
                  (loopM (comp_body nb nxt) (lab[start := nxt], [as_u32 start])))))"

definition connected_components :: "csr_graph \<Rightarrow> direction \<Rightarrow> (string \<times> nat) list option" where
  "connected_components g dir =
     (case foldM (comp_start (step g dir Any)) (replicate (num_nodes g) u32_max, 0) [0..<num_nodes g] of
        None \<Rightarrow> None
      | Some (lab, _) \<Rightarrow> traverse (\<lambda>(i, c). map_option (\<lambda>s. (s, c)) (idx (ids g) i)) (enumerate 0 lab))"

text \<open>
  \<open>densify\<close> and \<open>dense_communities\<close>: labels renumbered by first occurrence. The hash map is an
  association list, whose length is its size.
\<close>

definition dense_id :: "(nat \<times> nat) list \<Rightarrow> nat \<Rightarrow> (nat \<times> nat) list \<times> nat" where
  "dense_id remap c =
     (case map_of remap c of
        Some i \<Rightarrow> (remap, i)
      | None \<Rightarrow> ((c, length remap) # remap, length remap))"

fun densify_from :: "(nat \<times> nat) list \<Rightarrow> nat list \<Rightarrow> nat list \<times> (nat \<times> nat) list" where
  "densify_from remap [] = ([], remap)"
| "densify_from remap (c # cs) =
     (case dense_id remap c of (remap', i) \<Rightarrow>
      case densify_from remap' cs of (is, remap'') \<Rightarrow> (i # is, remap''))"

definition densify :: "nat list \<Rightarrow> nat list \<times> nat" where
  "densify raw = (case densify_from [] raw of (dense, remap) \<Rightarrow> (dense, length remap))"

definition dense_communities :: "csr_graph \<Rightarrow> nat list \<Rightarrow> (string \<times> nat) list option" where
  "dense_communities g comm =
     traverse (\<lambda>(i, c). map_option (\<lambda>s. (s, as_u32 c)) (idx (ids g) i))
       (enumerate 0 (fst (densify_from [] comm)))"

section \<open>Labelling one component\<close>

text \<open>
  \<open>labelling\<close>: against the labels \<open>lab0\<close> before the loop, nodes reached from \<open>start\<close> have got the
  label \<open>nxt\<close>, and those no longer queued have all their neighbours labelled.
\<close>

definition labelling ::
  "(nat \<times> nat) set \<Rightarrow> nat \<Rightarrow> nat \<Rightarrow> nat \<Rightarrow> nat list \<Rightarrow> nat list \<Rightarrow> nat list \<Rightarrow> bool" where
  "labelling R n start nxt lab0 lab q \<longleftrightarrow>
     length lab = n \<and> lab ! start = nxt \<and> set q \<subseteq> {v. v < n \<and> lab ! v = nxt} \<and>
     (\<forall>v < n. lab0 ! v \<noteq> u32_max \<longrightarrow> lab ! v = lab0 ! v) \<and>
     (\<forall>v < n. lab0 ! v = u32_max \<longrightarrow> lab ! v = u32_max \<or> lab ! v = nxt \<and> (start, v) \<in> R\<^sup>*) \<and>
     (\<forall>v < n. lab ! v = nxt \<and> v \<notin> set q \<longrightarrow> (\<forall>w. (v, w) \<in> R \<longrightarrow> lab ! w \<noteq> u32_max))"

lemma labellingI:
  assumes "length lab = n" "lab ! start = nxt" "set q \<subseteq> {v. v < n \<and> lab ! v = nxt}"
    "\<And>v. v < n \<Longrightarrow> lab0 ! v \<noteq> u32_max \<Longrightarrow> lab ! v = lab0 ! v"
    "\<And>v. v < n \<Longrightarrow> lab0 ! v = u32_max \<Longrightarrow> lab ! v = u32_max \<or> lab ! v = nxt \<and> (start, v) \<in> R\<^sup>*"
    "\<And>v w. v < n \<Longrightarrow> lab ! v = nxt \<Longrightarrow> v \<notin> set q \<Longrightarrow> (v, w) \<in> R \<Longrightarrow> lab ! w \<noteq> u32_max"
  shows "labelling R n start nxt lab0 lab q"
  using assms unfolding labelling_def by blast

definition unlabelled :: "nat list \<Rightarrow> nat" where
  "unlabelled lab = length (filter (\<lambda>c. c = u32_max) lab)"

lemma unlabelled_update:
  "v < length lab \<Longrightarrow> lab ! v = u32_max \<Longrightarrow> c \<noteq> u32_max \<Longrightarrow> Suc (unlabelled (lab[v := c])) = unlabelled lab"
  unfolding unlabelled_def
  by (induction lab arbitrary: v) (auto split: nat.splits simp: less_Suc_eq_0_disj)

text \<open>The inner \<open>for\<close> loop labels exactly the unlabelled neighbours and queues them.\<close>

lemma comp_label_loop:
  assumes "\<And>w. w \<in> set ws \<Longrightarrow> w < length lab" and next_ok: "nxt \<noteq> u32_max"
  shows "\<exists>lab' q'. foldM (comp_label nxt) (lab, q) ws = Some (lab', q @ q') \<and>
    length lab' = length lab \<and>
    (\<forall>v < length lab. lab' ! v = (if v \<in> set ws \<and> lab ! v = u32_max then nxt else lab ! v)) \<and>
    set q' = {v \<in> set ws. lab ! v = u32_max} \<and>
    unlabelled lab' + length q' = unlabelled lab"
  using assms(1)
proof (induction ws rule: rev_induct)
  case Nil
  then show ?case by simp
next
  case (snoc w ws)
  then obtain lab' q' where IH: "foldM (comp_label nxt) (lab, q) ws = Some (lab', q @ q')"
    "length lab' = length lab"
    "\<forall>v < length lab. lab' ! v = (if v \<in> set ws \<and> lab ! v = u32_max then nxt else lab ! v)"
    "set q' = {v \<in> set ws. lab ! v = u32_max}" "unlabelled lab' + length q' = unlabelled lab"
    by auto
  have w: "w < length lab" using snoc.prems by simp
  show ?case
  proof (cases "lab' ! w = u32_max")
    case True
    then have w0: "w \<notin> set ws" "lab ! w = u32_max" using IH(3) w next_ok by (auto split: if_splits)
    have "Suc (unlabelled (lab'[w := nxt])) = unlabelled lab'"
      using unlabelled_update True w IH(2) next_ok by simp
    moreover have "comp_label nxt (lab', q @ q') w = Some (lab'[w := nxt], q @ q' @ [w])"
      using True w IH(2) by (simp add: comp_label_def idx_def)
    ultimately show ?thesis
      by (intro exI [of "\<lambda>c. \<exists>p. _ c p" "lab'[w := nxt]"] exI [of _ "q' @ [w]"])
        (use w w0 IH in \<open>auto simp: foldM_append nth_list_update\<close>)
  next
    case False
    then have "\<not> (lab ! w = u32_max \<and> w \<notin> set ws)" using IH(3) w by (auto split: if_splits)
    moreover have "comp_label nxt (lab', q @ q') w = Some (lab', q @ q')"
      using False w IH(2) by (simp add: comp_label_def idx_def)
    ultimately show ?thesis
      by (intro exI [of "\<lambda>c. \<exists>p. _ c p" lab'] exI [of _ q'])
        (use w IH in \<open>auto simp: foldM_append\<close>)
  qed
qed

lemma labelling_expand:
  assumes inv: "labelling R n start nxt lab0 lab (u # q)" and u: "(start, u) \<in> R\<^sup>*"
    and R: "\<And>w. (u, w) \<in> R \<longleftrightarrow> w \<in> set ws" and lt: "\<And>v w. (v, w) \<in> R \<Longrightarrow> w < n"
    and len: "length lab' = n" and start: "start < n" and nx: "nxt \<noteq> u32_max"
    and lab': "\<And>v. v < n \<Longrightarrow> lab' ! v = (if v \<in> set ws \<and> lab ! v = u32_max then nxt else lab ! v)"
    and q': "set q' = {v \<in> set ws. lab ! v = u32_max}"
  shows "labelling R n start nxt lab0 lab' (q @ q')"
proof -
  have keep: "lab' ! v = lab ! v" if "v < n" "lab ! v \<noteq> u32_max" for v
    using that lab' by simp
  have 6: "lab' ! w \<noteq> u32_max" if "v < n" "lab' ! v = nxt" "v \<notin> set (q @ q')" "(v, w) \<in> R" for v w
  proof (cases "v = u")
    case True
    with that R have w: "w \<in> set ws" "w < n" using lt by auto
    with lab' [of w] nx show ?thesis by auto
  next
    case False
    have "lab ! v = nxt" using that lab' [of v] q' by (auto split: if_splits)
    with inv that False have "lab ! w \<noteq> u32_max" by (auto simp: labelling_def)
    with keep [OF lt [OF that(4)]] show ?thesis by simp
  qed
  have 5: "lab' ! v = u32_max \<or> lab' ! v = nxt \<and> (start, v) \<in> R\<^sup>*" if "v < n" "lab0 ! v = u32_max" for v
  proof (cases "v \<in> set ws \<and> lab ! v = u32_max")
    case True
    with R have "(u, v) \<in> R" by blast
    with u have "(start, v) \<in> R\<^sup>*" by (rule rtrancl_into_rtrancl)
    with True lab' that show ?thesis by simp
  next
    case False
    with lab' [OF that(1)] have "lab' ! v = lab ! v" by (simp split: if_splits)
    with inv that show ?thesis unfolding labelling_def by simp
  qed
  have 3: "v < n \<and> lab' ! v = nxt" if "v \<in> set (q @ q')" for v
  proof (cases "v \<in> set q")
    case True
    with inv have "v < n" "lab ! v = nxt" unfolding labelling_def by auto
    with nx keep show ?thesis by simp
  next
    case False
    with that q' have "v \<in> set ws" "lab ! v = u32_max" by auto
    then show ?thesis using lt [of u v] R lab' [of v] by auto
  qed
  have 2: "lab' ! start = nxt" using inv start nx keep [OF start] by (simp add: labelling_def)
  have 4: "lab' ! v = lab0 ! v" if "v < n" "lab0 ! v \<noteq> u32_max" for v
    using inv that keep [of v] by (simp add: labelling_def)
  show ?thesis by (rule labellingI [OF len 2 _ 4 5 6]) (use 3 in auto)
qed

context adjacency
begin

lemma nbr_rel_closed: "invar g \<Longrightarrow> (v, w) \<in> nbr_rel (nbrs g) (size_of g) \<Longrightarrow> w < size_of g"
  using nbrs_total [of g v] by (auto simp: nbr_rel_def)

lemma comp_loop_correct:
  assumes g: "invar g" and start: "start < size_of g" "lab0 ! start = u32_max"
    and len: "length lab0 = size_of g" and nx: "nxt \<noteq> u32_max" "nxt \<notin> set lab0"
  defines "R \<equiv> nbr_rel (nbrs g) (size_of g)"
  shows "\<exists>lab. loopM (comp_body (nbrs g) nxt) (lab0[start := nxt], [start]) = Some lab \<and>
    labelling R (size_of g) start nxt lab0 lab []"
proof (rule loopM_rule [where I = "\<lambda>(lab, q). labelling R (size_of g) start nxt lab0 lab q" and
      m = "\<lambda>(lab, q). unlabelled lab + length q"])
  let ?n = "size_of g"
  let ?I = "\<lambda>(lab, q). labelling R ?n start nxt lab0 lab q"
  show "?I (lab0[start := nxt], [start])"
    using start len nx by (auto simp: labelling_def nth_list_update in_set_conv_nth)
  fix st assume I: "?I st"
  obtain lab q where st: "st = (lab, q)" by (cases st)
  from I st have inv: "labelling R ?n start nxt lab0 lab q" by simp
  show "(\<exists>st'. comp_body (nbrs g) nxt st = Some (Inl st') \<and> ?I st' \<and>
           (case st' of (lab, q) \<Rightarrow> unlabelled lab + length q) <
           (case st of (lab, q) \<Rightarrow> unlabelled lab + length q)) \<or>
        (\<exists>r. comp_body (nbrs g) nxt st = Some (Inr r) \<and> labelling R ?n start nxt lab0 r [])"
  proof (cases q)
    case Nil
    with inv show ?thesis by (simp add: st comp_body_def)
  next
    case (Cons u q1)
    with inv have u: "u < ?n" "lab ! u = nxt" and lc: "length lab = ?n"
      by (auto simp: labelling_def)
    from nbrs_total [OF g u(1)] obtain ws where
      ws: "nbrs g u = Some ws" "\<And>w. w \<in> set ws \<Longrightarrow> w < length lab" using lc by auto
    have Ru: "(u, w) \<in> R \<longleftrightarrow> w \<in> set ws" for w using u ws by (auto simp: R_def nbr_rel_def)
    from comp_label_loop [OF ws(2) nx(1), of ws q1] obtain lab' q' where
      c: "foldM (comp_label nxt) (lab, q1) ws = Some (lab', q1 @ q')" "length lab' = ?n"
      "\<forall>v < ?n. lab' ! v = (if v \<in> set ws \<and> lab ! v = u32_max then nxt else lab ! v)"
      "set q' = {v \<in> set ws. lab ! v = u32_max}" "unlabelled lab' + length q' = unlabelled lab"
      using lc by auto
    have su: "(start, u) \<in> R\<^sup>*"
      using inv u nx(2) len by (auto simp: labelling_def) (metis nth_mem)
    have "labelling R ?n start nxt lab0 lab' (q1 @ q')"
      by (rule labelling_expand [OF inv [unfolded Cons] su Ru _ c(2) start(1) nx(1) _ c(4)])
        (use c(3) nbr_rel_closed [OF g] in \<open>auto simp: R_def\<close>)
    moreover have "comp_body (nbrs g) nxt st = Some (Inl (lab', q1 @ q'))"
      using Cons ws(1) c(1) by (simp add: st comp_body_def)
    ultimately show ?thesis using c(5) Cons by (simp add: st)
  qed
qed

end

section \<open>All components\<close>

text \<open>
  After the starts below \<open>m\<close>: the labels in use are \<open>0..<nxt\<close>, a labelled node has labelled
  neighbours, and equal labels mean connected.
\<close>

definition comps_upto :: "(nat \<times> nat) set \<Rightarrow> nat \<Rightarrow> nat \<Rightarrow> nat list \<Rightarrow> nat \<Rightarrow> bool" where
  "comps_upto R n m lab nxt \<longleftrightarrow>
     length lab = n \<and> nxt \<le> m \<and> (\<forall>v < m. lab ! v \<noteq> u32_max) \<and>
     {c \<in> set lab. c \<noteq> u32_max} = {..<nxt} \<and>
     (\<forall>v w. (v, w) \<in> R \<longrightarrow> lab ! v \<noteq> u32_max \<longrightarrow> lab ! w \<noteq> u32_max) \<and>
     (\<forall>v < n. \<forall>w < n. lab ! v \<noteq> u32_max \<longrightarrow> lab ! w \<noteq> u32_max \<longrightarrow>
        (lab ! v = lab ! w \<longleftrightarrow> (v, w) \<in> R\<^sup>*))"

lemma comps_uptoD:
  assumes "comps_upto R n m lab nxt"
  shows "length lab = n" "nxt \<le> m"
    and "\<And>v. v < n \<Longrightarrow> lab ! v \<noteq> u32_max \<Longrightarrow> lab ! v < nxt"
    and "\<And>c. c < nxt \<Longrightarrow> c \<in> set lab"
    and "\<And>v. v < m \<Longrightarrow> lab ! v \<noteq> u32_max"
    and "\<And>v w. (v, w) \<in> R \<Longrightarrow> lab ! v \<noteq> u32_max \<Longrightarrow> lab ! w \<noteq> u32_max"
    and "\<And>v w. v < n \<Longrightarrow> w < n \<Longrightarrow> lab ! v \<noteq> u32_max \<Longrightarrow> lab ! w \<noteq> u32_max \<Longrightarrow>
           lab ! v = lab ! w \<longleftrightarrow> (v, w) \<in> R\<^sup>*"
proof -
  have len: "length lab = n" and nm: "nxt \<le> m" and used: "{c \<in> set lab. c \<noteq> u32_max} = {..<nxt}"
    and lm: "\<forall>v < m. lab ! v \<noteq> u32_max"
    and cl: "\<forall>v w. (v, w) \<in> R \<longrightarrow> lab ! v \<noteq> u32_max \<longrightarrow> lab ! w \<noteq> u32_max"
    and eq: "\<forall>v < n. \<forall>w < n. lab ! v \<noteq> u32_max \<longrightarrow> lab ! w \<noteq> u32_max \<longrightarrow>
        (lab ! v = lab ! w \<longleftrightarrow> (v, w) \<in> R\<^sup>*)"
    using assms unfolding comps_upto_def by - (elim conjE, assumption)+
  show "length lab = n" "nxt \<le> m" by (rule len, rule nm)
  show "lab ! v < nxt" if "v < n" "lab ! v \<noteq> u32_max" for v
    using that len arg_cong [OF used, of "\<lambda>A. lab ! v \<in> A"] by simp
  show "c \<in> set lab" if "c < nxt" for c
    using that arg_cong [OF used, of "\<lambda>A. c \<in> A"] by simp
  show "lab ! v \<noteq> u32_max" if "v < m" for v using lm that by simp
  show "lab ! w \<noteq> u32_max" if "(v, w) \<in> R" "lab ! v \<noteq> u32_max" for v w using cl that by simp
  show "lab ! v = lab ! w \<longleftrightarrow> (v, w) \<in> R\<^sup>*"
    if "v < n" "w < n" "lab ! v \<noteq> u32_max" "lab ! w \<noteq> u32_max" for v w using eq that by simp
qed

lemma labelling_class:
  assumes inv: "comps_upto R n m lab nxt" and l: "labelling R n start nxt lab lab' []"
    and sym: "sym R" and lt: "\<And>v w. (v, w) \<in> R \<Longrightarrow> w < n" and start: "start < n"
    and v: "v < n" and nx: "nxt \<noteq> u32_max"
  shows "lab' ! v = nxt \<longleftrightarrow> (start, v) \<in> R\<^sup>*"
proof
  note d = comps_uptoD [OF inv]
  have keep: "\<And>v. v < n \<Longrightarrow> lab ! v \<noteq> u32_max \<Longrightarrow> lab' ! v = lab ! v"
    and new: "\<And>v. v < n \<Longrightarrow> lab ! v = u32_max \<Longrightarrow> lab' ! v = u32_max \<or> lab' ! v = nxt \<and> (start, v) \<in> R\<^sup>*"
    and clos: "\<And>v w. v < n \<Longrightarrow> lab' ! v = nxt \<Longrightarrow> (v, w) \<in> R \<Longrightarrow> lab' ! w \<noteq> u32_max"
    using l unfolding labelling_def by (blast, blast, simp)
  { assume *: "lab' ! v = nxt"
    then have "lab ! v = u32_max" using keep [OF v] d(3) [OF v] by (metis less_irrefl)
    with new [OF v] * nx show "(start, v) \<in> R\<^sup>*" by simp }
  assume "(start, v) \<in> R\<^sup>*"
  then have "lab' ! v = nxt \<and> v < n"
  proof (induction rule: rtrancl_induct)
    case base
    then show ?case using l start by (simp add: labelling_def)
  next
    case (step u w)
    have w: "w < n" by (rule lt [OF step.hyps(2)])
    have "lab ! w = u32_max"
    proof (rule ccontr)
      assume "lab ! w \<noteq> u32_max"
      moreover have "(w, u) \<in> R" using sym step.hyps(2) by (rule symD)
      ultimately have "lab ! u \<noteq> u32_max" using d(6) by blast
      with step.IH keep [of u] d(3) [of u] show False by simp
    qed
    with new [OF w] clos [OF _ _ step.hyps(2)] step.IH w show ?case by blast
  qed
  then show "lab' ! v = nxt" by simp
qed

lemma comps_upto_step:
  assumes inv: "comps_upto R n m lab nxt" and l: "labelling R n m nxt lab lab' []"
    and sym: "sym R" and lt: "\<And>v w. (v, w) \<in> R \<Longrightarrow> v < n \<and> w < n" and m: "m < n"
    and nx: "nxt \<noteq> u32_max"
  shows "comps_upto R n (Suc m) lab' (Suc nxt)"
proof -
  note d = comps_uptoD [OF inv]
  have len: "length lab' = n" and sm: "lab' ! m = nxt"
    and keep: "\<And>v. v < n \<Longrightarrow> lab ! v \<noteq> u32_max \<Longrightarrow> lab' ! v = lab ! v"
    and new: "\<And>v. v < n \<Longrightarrow> lab ! v = u32_max \<Longrightarrow> lab' ! v = u32_max \<or> lab' ! v = nxt"
    and clos: "\<And>v w. v < n \<Longrightarrow> lab' ! v = nxt \<Longrightarrow> (v, w) \<in> R \<Longrightarrow> lab' ! w \<noteq> u32_max"
    using l unfolding labelling_def by (blast, blast, blast, blast, simp)
  have cls: "lab' ! v = nxt \<longleftrightarrow> (m, v) \<in> R\<^sup>*" if "v < n" for v
    by (rule labelling_class [OF inv l sym _ m that nx]) (use lt in blast)
  have old: "lab ! v \<noteq> u32_max \<and> lab' ! v = lab ! v \<and> lab' ! v < nxt"
    if "v < n" "lab' ! v \<noteq> u32_max" "lab' ! v \<noteq> nxt" for v
    using that new [OF that(1)] keep [OF that(1)] d(3) [OF that(1)] by metis
  have bound: "lab' ! v < Suc nxt" if "v < n" "lab' ! v \<noteq> u32_max" for v
    using old [OF that] by (cases "lab' ! v = nxt") auto
  have 1: "{c \<in> set lab'. c \<noteq> u32_max} = {..<Suc nxt}"
  proof (intro equalityI subsetI)
    fix c assume "c \<in> {c \<in> set lab'. c \<noteq> u32_max}"
    then show "c \<in> {..<Suc nxt}" using bound len by (auto simp: in_set_conv_nth)
  next
    fix c assume c: "c \<in> {..<Suc nxt}"
    show "c \<in> {c \<in> set lab'. c \<noteq> u32_max}"
    proof (cases "c = nxt")
      case True
      with sm nx m len show ?thesis by (auto simp: in_set_conv_nth)
    next
      case False
      with c have "c \<in> {c \<in> set lab. c \<noteq> u32_max}" using inv by (simp add: comps_upto_def)
      then obtain v where "v < n" "lab ! v = c" "c \<noteq> u32_max" using d(1) by (auto simp: in_set_conv_nth)
      with keep [of v] len show ?thesis by (auto simp: in_set_conv_nth)
    qed
  qed
  have 2: "lab' ! v \<noteq> u32_max" if "v < Suc m" for v
    using that sm nx keep [of v] d(5) [of v] m by (cases "v = m") auto
  have 3: "lab' ! w \<noteq> u32_max" if "(v, w) \<in> R" "lab' ! v \<noteq> u32_max" for v w
  proof (cases "lab' ! v = nxt")
    case True
    with clos lt that show ?thesis by blast
  next
    case False
    with old lt that d(6) [OF that(1)] keep [of w] show ?thesis by metis
  qed
  have symc: "(a, b) \<in> R\<^sup>* \<Longrightarrow> (b, a) \<in> R\<^sup>*" for a b
    using sym_rtrancl [OF sym] by (auto dest: symD)
  have 4: "lab' ! v = lab' ! w \<longleftrightarrow> (v, w) \<in> R\<^sup>*"
    if vw: "v < n" "w < n" "lab' ! v \<noteq> u32_max" "lab' ! w \<noteq> u32_max" for v w
  proof (cases "lab' ! v = nxt \<or> lab' ! w = nxt")
    case True
    with cls [OF vw(1)] cls [OF vw(2)] show ?thesis using symc rtrancl_trans by metis
  next
    case False
    with old [OF vw(1,3)] old [OF vw(2,4)] d(7) [OF vw(1,2)] show ?thesis by simp
  qed
  show ?thesis unfolding comps_upto_def using len d(2) 1 2 3 4 by simp
qed

lemma comps_upto_skip:
  "comps_upto R n m lab nxt \<Longrightarrow> lab ! m \<noteq> u32_max \<Longrightarrow> comps_upto R n (Suc m) lab nxt"
  unfolding comps_upto_def by (simp add: less_Suc_eq)

context adjacency
begin

lemma comps_correct:
  assumes g: "invar g" and small: "size_of g < u32_size"
  defines "R \<equiv> nbr_rel (nbrs g) (size_of g)"
  assumes sym: "sym R"
  shows "\<exists>lab nxt. foldM (comp_start (nbrs g)) (replicate (size_of g) u32_max, 0) [0..<size_of g] =
      Some (lab, nxt) \<and> comps_upto R (size_of g) (size_of g) lab nxt"
proof -
  let ?n = "size_of g"
  have "\<exists>st. foldM (comp_start (nbrs g)) (replicate ?n u32_max, 0) [0..<?n] = Some st \<and>
      (case st of (lab, nxt) \<Rightarrow> comps_upto R ?n (length [0..<?n]) lab nxt)"
  proof (rule foldM_inv)
    have "v < ?n" if "(v, w) \<in> R" for v w using that by (simp add: R_def nbr_rel_def)
    then show "case (replicate ?n u32_max, 0) of (lab, nxt) \<Rightarrow> comps_upto R ?n (length []) lab nxt"
      by (auto simp: comps_upto_def)
  next
    fix dn x rest st
    assume eq: "[0..<?n] = dn @ x # rest" and I: "case st of (lab, nxt) \<Rightarrow> comps_upto R ?n (length dn) lab nxt"
    obtain lab nxt where st: "st = (lab, nxt)" by (cases st)
    from I have inv: "comps_upto R ?n (length dn) lab nxt" by (simp add: st)
    note d = comps_uptoD [OF inv]
    have "length dn < length [0..<?n]" "[0..<?n] ! length dn = x" by (simp_all add: eq)
    then have x: "x = length dn" "x < ?n" by auto
    with small have x32: "as_u32 x = x" by simp
    from small d(2) x have nx: "nxt < u32_max" by (simp add: u32_max_def)
    then have nx32: "as_u32 (nxt + 1) = Suc nxt" by (simp add: u32_max_def)
    have nxl: "nxt \<notin> set lab" using d(1,3) nx by (fastforce simp: in_set_conv_nth)
    show "\<exists>t'. comp_start (nbrs g) st x = Some t' \<and>
        (case t' of (lab, nxt) \<Rightarrow> comps_upto R ?n (length (dn @ [x])) lab nxt)"
    proof (cases "lab ! x = u32_max")
      case False
      with comps_upto_skip [OF inv] x d(1) show ?thesis
        by (simp add: st comp_start_def idx_def)
    next
      case True
      from comp_loop_correct [OF g x(2) True d(1) _ nxl] nx obtain lab' where
        l: "loopM (comp_body (nbrs g) nxt) (lab[x := nxt], [x]) = Some lab'"
           "labelling R ?n x nxt lab lab' []"
        unfolding R_def by blast
      have lt: "v < ?n \<and> w < ?n" if "(v, w) \<in> R" for v w
        using that nbr_rel_closed [OF g, of v w] by (simp add: R_def nbr_rel_def)
      have "comps_upto R ?n (Suc (length dn)) lab' (Suc nxt)"
        by (rule comps_upto_step [OF inv l(2) [unfolded x(1)] sym lt x(2) [unfolded x(1)]])
          (use nx in auto)
      with l(1) True x d(1) show ?thesis
        by (simp add: st comp_start_def idx_def x32 [unfolded x(1)] nx32 del: One_nat_def)
    qed
  qed
  then show ?thesis by auto
qed

end

lemma hop_both_sym: "sym (hop nodes es Both et)"
  by (auto simp: sym_def hop_def)

lemma connected_components_csr:
  assumes g: "csr_of nodes es g"
  shows "\<exists>res k. connected_components g Both = Some res \<and> map fst res = ids g \<and>
    snd ` set res = {..<k} \<and>
    (\<forall>(a, c) \<in> set res. \<forall>(b, c') \<in> set res. c = c' \<longleftrightarrow> (a, b) \<in> (hop nodes es Both None)\<^sup>*)"
proof -
  let ?n = "num_nodes g"
  let ?R = "nbr_rel (step g Both Any) ?n"
  have any: "Any = resolve_etype g None" by (simp add: resolve_etype_def)
  have small: "?n < u32_size" using g unfolding csr_of_def num_nodes_def by blast
  have "sym ?R" unfolding any sym_def nbr_rel_hop [OF g] using hop_both_sym by (auto dest: symD)
  from csr.comps_correct [OF csr_of_wf [OF g] small this] obtain lab nxt where
    f: "foldM (comp_start (step g Both Any)) (replicate ?n u32_max, 0) [0..<?n] = Some (lab, nxt)"
    and inv: "comps_upto ?R ?n ?n lab nxt" by blast
  note d = comps_uptoD [OF inv]
  let ?f = "\<lambda>(i, c). (ids g ! i, c)"
  define res where "res = map ?f (enumerate 0 lab)"
  have en: "set (enumerate 0 lab) = {(i, lab ! i) | i. i < ?n}"
    using d(1) by (auto simp: in_set_enumerate_eq)
  have "traverse (\<lambda>(i, c). map_option (\<lambda>s. (s, c)) (idx (ids g) i)) (enumerate 0 lab) = Some res"
    unfolding res_def by (rule traverse_total) (auto simp: res_def en idx_def num_nodes_def)
  then have cc: "connected_components g Both = Some res"
    by (simp add: connected_components_def f)
  have "map fst res = ids g"
    using d(1) by (intro nth_equalityI) (auto simp: res_def num_nodes_def nth_enumerate_eq)
  moreover have "snd ` set res = {..<nxt}"
  proof -
    have "snd ` set res = set lab" using d(1) by (auto simp: res_def en image_iff in_set_conv_nth)
    also have "\<dots> = {c \<in> set lab. c \<noteq> u32_max}" using d(1,5) by (auto simp: in_set_conv_nth)
    also have "\<dots> = {..<nxt}" using inv by (simp add: comps_upto_def)
    finally show ?thesis .
  qed
  moreover have "c = c' \<longleftrightarrow> (a, b) \<in> (hop nodes es Both None)\<^sup>*"
    if "(a, c) \<in> set res" "(b, c') \<in> set res" for a b c c'
  proof -
    from that obtain i j where ij: "i < ?n" "a = ids g ! i" "c = lab ! i" "j < ?n" "b = ids g ! j" "c' = lab ! j"
      by (auto simp: res_def en)
    from d(7) [OF ij(1,4) d(5) [OF ij(1)] d(5) [OF ij(4)]]
    show ?thesis using reach_hop [OF g ij(1,4), of Both None] by (simp add: ij any)
  qed
  ultimately show ?thesis using cc by (intro exI [of _ res] exI [of _ nxt]) blast
qed

section \<open>Dense relabelling\<close>

text \<open>The remap table lists the labels seen so far against \<open>0, 1, 2, ...\<close>, newest first.\<close>

definition dense_table :: "nat list \<Rightarrow> (nat \<times> nat) list \<Rightarrow> bool" where
  "dense_table seen remap \<longleftrightarrow> distinct seen \<and> rev remap = zip seen [0..<length seen]"

lemma dense_table_map_of:
  assumes "dense_table seen remap"
  shows "map_of remap c = position (\<lambda>x. x = c) seen" and "length remap = length seen"
proof -
  from assms have ds: "distinct seen" and r: "remap = rev (zip seen [0..<length seen])"
    by (auto simp: dense_table_def rev_swap)
  show "length remap = length seen" by (simp add: r)
  have dz: "distinct (map fst (zip seen [0..<length seen]))" using ds by simp
  have "map_of remap = map_of (zip seen [0..<length seen])"
    unfolding r by (rule map_of_inject_set [THEN iffD2]) (use ds in \<open>auto simp: rev_map [symmetric]\<close>)
  moreover have "map_of (zip seen [0..<length seen]) c = position (\<lambda>x. x = c) seen"
  proof (cases "position (\<lambda>x. x = c) seen")
    case None
    then have "map_of (zip seen [0..<length seen]) c = None"
      by (auto simp: position_None map_of_eq_None_iff dest: set_zip_leftD)
    with None show ?thesis by simp
  next
    case (Some i)
    then have "i < length seen" "seen ! i = c" by (auto dest: position_Some)
    then have "(c, i) \<in> set (zip seen [0..<length seen])" by (force simp: set_zip)
    with dz Some show ?thesis by (auto intro: map_of_is_SomeI)
  qed
  ultimately show "map_of remap c = position (\<lambda>x. x = c) seen" by simp
qed

text \<open>The labels in the order of their first occurrence.\<close>

fun first_seen :: "nat list \<Rightarrow> nat list \<Rightarrow> nat list" where
  "first_seen seen [] = seen"
| "first_seen seen (c # cs) = first_seen (if c \<in> set seen then seen else seen @ [c]) cs"

lemma first_seen_prefix: "\<exists>ys. first_seen seen cs = seen @ ys"
proof (induction seen cs rule: first_seen.induct)
  case (2 seen c cs)
  then show ?case by (cases "c \<in> set seen") auto
qed simp

lemma set_first_seen: "set (first_seen seen cs) = set seen \<union> set cs"
  by (induction seen cs rule: first_seen.induct) auto

lemma distinct_first_seen: "distinct seen \<Longrightarrow> distinct (first_seen seen cs)"
  by (induction seen cs rule: first_seen.induct) auto

lemma position_first_seen:
  "c \<in> set seen \<Longrightarrow> position (\<lambda>x. x = c) (first_seen seen cs) = position (\<lambda>x. x = c) seen"
  using first_seen_prefix [of seen cs] by (auto simp: position_append position_None split: option.splits)

lemma dense_id_step:
  assumes t: "dense_table seen remap"
  shows "dense_id remap c = (remap', i) \<Longrightarrow>
    dense_table (if c \<in> set seen then seen else seen @ [c]) remap' \<and>
    position (\<lambda>x. x = c) (if c \<in> set seen then seen else seen @ [c]) = Some i"
proof (cases "c \<in> set seen")
  case True
  then obtain j where "position (\<lambda>x. x = c) seen = Some j"
    by (cases "position (\<lambda>x. x = c) seen") (auto simp: position_None)
  with True t dense_table_map_of [OF t] show "dense_id remap c = (remap', i) \<Longrightarrow> ?thesis"
    by (auto simp: dense_id_def)
next
  case False
  then have "position (\<lambda>x. x = c) seen = None" by (auto simp: position_None)
  with False t dense_table_map_of [OF t] show "dense_id remap c = (remap', i) \<Longrightarrow> ?thesis"
    by (auto simp: dense_id_def dense_table_def position_append)
qed

lemma densify_from_spec:
  assumes "dense_table seen remap"
  shows "\<exists>remap'. densify_from remap cs =
      (map (\<lambda>c. the (position (\<lambda>x. x = c) (first_seen seen cs))) cs, remap') \<and>
    dense_table (first_seen seen cs) remap'"
  using assms
proof (induction cs arbitrary: seen remap)
  case Nil
  then show ?case by simp
next
  case (Cons c cs)
  let ?seen = "if c \<in> set seen then seen else seen @ [c]"
  obtain r i where r: "dense_id remap c = (r, i)" by (cases "dense_id remap c")
  from dense_id_step [OF Cons.prems r] have t: "dense_table ?seen r"
    and i: "position (\<lambda>x. x = c) ?seen = Some i" by auto
  have "c \<in> set ?seen" by simp
  from position_first_seen [OF this, of cs] i
  have "position (\<lambda>x. x = c) (first_seen ?seen cs) = Some i" by simp
  with Cons.IH [OF t] r show ?case by (auto split: prod.splits)
qed

lemma densify_spec:
  "densify raw = (map (\<lambda>c. the (position (\<lambda>x. x = c) (first_seen [] raw))) raw, length (first_seen [] raw))"
proof -
  have "dense_table [] []" by (simp add: dense_table_def)
  from densify_from_spec [OF this, of raw] show ?thesis
    by (auto simp: densify_def dest: dense_table_map_of(2))
qed

lemma the_position_distinct:
  assumes "distinct xs" "c \<in> set xs"
  shows "the (position (\<lambda>x. x = c) xs) < length xs \<and> xs ! the (position (\<lambda>x. x = c) xs) = c"
proof -
  from assms(2) obtain i where "position (\<lambda>x. x = c) xs = Some i"
    by (cases "position (\<lambda>x. x = c) xs") (auto simp: position_None)
  with position_Some [OF this] show ?thesis by simp
qed

section \<open>Properties\<close>

text \<open>
  C35: \<open>connected_components\<close> over undirected edges labels every node once, in node order; two nodes
  have the same label exactly when a path connects them, and the labels are \<open>0\<close> up to the number
  of components.
\<close>

theorem connected_components_correct:
  assumes "length nodes < u32_size" "length es < u32_size"
  shows "\<exists>g res k. build nodes es = Some g \<and> connected_components g Both = Some res \<and>
    map fst res = node_ids g \<and> set (node_ids g) = set nodes \<and> snd ` set res = {..<k} \<and>
    (\<forall>(a, c) \<in> set res. \<forall>(b, c') \<in> set res. c = c' \<longleftrightarrow> (a, b) \<in> (hop nodes es Both None)\<^sup>*)"
proof -
  from build_total [OF assms] obtain g where g: "build nodes es = Some g" "csr_of nodes es g" by blast
  from connected_components_csr [OF g(2)] obtain res k where
    "connected_components g Both = Some res" "map fst res = ids g" "snd ` set res = {..<k}"
    "\<forall>(a, c) \<in> set res. \<forall>(b, c') \<in> set res. c = c' \<longleftrightarrow> (a, b) \<in> (hop nodes es Both None)\<^sup>*"
    by (elim exE conjE)
  with g(1) csr_of_ids(2) [OF g(2)] show ?thesis
    unfolding node_ids_def by (intro exI [of _ g] exI [of _ res] exI [of _ k] conjI)
qed

theorem connected_components_correct_witness:
  "\<exists>g res k. build [''a'', ''b''] [(''a'', ''b'', ''x'')] = Some g \<and>
    connected_components g Both = Some res \<and>
    map fst res = node_ids g \<and> set (node_ids g) = set [''a'', ''b''] \<and> snd ` set res = {..<k} \<and>
    (\<forall>(a, c) \<in> set res. \<forall>(b, c') \<in> set res.
       c = c' \<longleftrightarrow> (a, b) \<in> (hop [''a'', ''b''] [(''a'', ''b'', ''x'')] Both None)\<^sup>*)"
  by (rule connected_components_correct) (simp_all add: u32_size_def)

text \<open>
  \<open>densify\<close> renumbers labels without merging or splitting classes: the new labels are exactly
  \<open>0..<k\<close>, and label \<open>i\<close> appears first before label \<open>i + 1\<close> does.
\<close>

theorem densify_correct:
  "\<exists>dense k. densify raw = (dense, k) \<and> length dense = length raw \<and> set dense = {..<k} \<and>
    (\<forall>i < length raw. \<forall>j < length raw. dense ! i = dense ! j \<longleftrightarrow> raw ! i = raw ! j) \<and>
    k = card (set raw)"
proof -
  let ?s = "first_seen [] raw"
  let ?p = "\<lambda>c. the (position (\<lambda>x. x = c) ?s)"
  have ds: "distinct ?s" by (rule distinct_first_seen) simp
  have ss: "set ?s = set raw" by (simp add: set_first_seen)
  note p = the_position_distinct [OF ds]
  have inv: "?p c = ?p c' \<longleftrightarrow> c = c'" if "c \<in> set raw" "c' \<in> set raw" for c c'
    using p [of c] p [of c'] that ss by metis
  have "?p ` set raw = {..<length ?s}"
  proof (intro equalityI subsetI)
    fix i assume i: "i \<in> {..<length ?s}"
    then have "?s ! i \<in> set raw" using nth_mem [of i ?s] ss by simp
    moreover have "i = ?p (?s ! i)" using i ds by (simp add: position_eq_distinct [THEN iffD2])
    ultimately show "i \<in> ?p ` set raw" by (rule rev_image_eqI)
  qed (use p ss in auto)
  moreover have "length ?s = card (set raw)" using distinct_card [OF ds] ss by simp
  moreover have "map ?p raw ! i = map ?p raw ! j \<longleftrightarrow> raw ! i = raw ! j"
    if "i < length raw" "j < length raw" for i j
    using inv [of "raw ! i" "raw ! j"] that by simp
  ultimately show ?thesis
    unfolding densify_spec by (intro exI [of _ "map ?p raw"] exI [of _ "length ?s"]) simp
qed

theorem densify_correct_witness: "fst (densify [7, 3, 7]) ! 0 = fst (densify [7, 3, 7]) ! 2"
proof -
  obtain dense k where "densify [7, 3, 7] = (dense, k)"
    "\<forall>i < length [7, 3, 7 :: nat]. \<forall>j < length [7, 3, 7 :: nat].
       dense ! i = dense ! j \<longleftrightarrow> [7, 3, 7 :: nat] ! i = [7, 3, 7] ! j"
    using densify_correct [of "[7, 3, 7]"] by blast
  then show ?thesis by simp
qed

end
