(* ===== verification/Bytes.thy ===== *)
theory Bytes
  imports Prelude
begin

text \<open>
  Little-endian integers, length-prefixed strings and the bounds-checked reader the on-disk
  formats share. A reader is a function of a cursor that fails with an error or returns a value
  and the advanced cursor; \<open>reads p e x\<close> says that \<open>p\<close> consumes exactly the encoding \<open>e\<close>,
  wherever it stands in the buffer, and returns \<open>x\<close>.
\<close>

section \<open>Results\<close>

definition bindE :: "'e + 'a \<Rightarrow> ('a \<Rightarrow> 'e + 'b) \<Rightarrow> 'e + 'b" where
  "bindE r f = (case r of Inl e \<Rightarrow> Inl e | Inr x \<Rightarrow> f x)"

lemma bindE_simps [simp]: "bindE (Inl e) f = Inl e" "bindE (Inr x) f = f x"
  by (simp_all add: bindE_def)

lemma bindE_Inr_iff: "bindE r f = Inr y \<longleftrightarrow> (\<exists>x. r = Inr x \<and> f x = Inr y)"
  by (cases r) auto

lemma bindE_Inl_iff: "bindE r f = Inl e \<longleftrightarrow> r = Inl e \<or> (\<exists>x. r = Inr x \<and> f x = Inl e)"
  by (cases r) auto

section \<open>Little-endian integers\<close>

fun le_bytes :: "nat \<Rightarrow> nat \<Rightarrow> u8 list" where
  "le_bytes 0 n = []"
| "le_bytes (Suc k) n = word_of_nat (n mod 256) # le_bytes k (n div 256)"

fun of_le :: "u8 list \<Rightarrow> nat" where
  "of_le [] = 0"
| "of_le (b # bs) = unat b + 256 * of_le bs"

lemma length_le_bytes [simp]: "length (le_bytes k n) = k"
  by (induction k arbitrary: n) auto

lemma unat_byte [simp]: "unat (word_of_nat (n mod 256) :: u8) = n mod 256"
  by (simp add: unat_of_nat)

lemma of_le_le_bytes: "of_le (le_bytes k n) = n mod 256 ^ k"
  by (induction k arbitrary: n) (auto simp: mod_mult2_eq mult.commute)

lemma of_le_le_bytes_small [simp]: "n < 256 ^ k \<Longrightarrow> of_le (le_bytes k n) = n"
  by (simp add: of_le_le_bytes)

lemma unat_byte_less: "unat (b :: u8) < 256"
  using unsigned_less [where 'a = nat, of b] by simp

lemma of_le_bound: "of_le bs < 256 ^ length bs"
proof (induction bs)
  case (Cons b bs)
  note unat_byte_less [of b]
  with Cons.IH show ?case by simp
qed simp

lemma le_bytes_of_le [simp]: "le_bytes (length bs) (of_le bs) = bs"
proof (induction bs)
  case (Cons b bs)
  note unat_byte_less [of b]
  then have "(unat b + 256 * of_le bs) mod 256 = unat b" "(unat b + 256 * of_le bs) div 256 = of_le bs"
    by simp_all
  with Cons show ?case by simp
qed simp

section \<open>The cursor\<close>

record cursor =
  buf :: "u8 list"
  pos :: nat

type_synonym ('e, 'a) reader = "cursor \<Rightarrow> 'e + 'a \<times> cursor"

definition bindR :: "('e, 'a) reader \<Rightarrow> ('a \<Rightarrow> ('e, 'b) reader) \<Rightarrow> ('e, 'b) reader" where
  "bindR p f c = (case p c of Inl e \<Rightarrow> Inl e | Inr (x, c') \<Rightarrow> f x c')"

definition returnR :: "'a \<Rightarrow> ('e, 'a) reader" where
  "returnR x c = Inr (x, c)"

text \<open>\<open>for _ in 0..n { v.push(p()?) }\<close>\<close>

fun read_n :: "nat \<Rightarrow> ('e, 'a) reader \<Rightarrow> ('e, 'a list) reader" where
  "read_n 0 p = returnR []"
| "read_n (Suc n) p = bindR p (\<lambda>x. bindR (read_n n p) (\<lambda>xs. returnR (x # xs)))"

definition reads :: "('e, 'a) reader \<Rightarrow> u8 list \<Rightarrow> 'a \<Rightarrow> bool" where
  "reads p e x \<longleftrightarrow> (\<forall>pre post. length (pre @ e @ post) < usize_size \<longrightarrow>
     p \<lparr>buf = pre @ e @ post, pos = length pre\<rparr> =
       Inr (x, \<lparr>buf = pre @ e @ post, pos = length (pre @ e)\<rparr>))"

lemma reads_return: "reads (returnR x) [] x"
  by (simp add: reads_def returnR_def)

lemma reads_bind:
  assumes p: "reads p e1 x" and f: "reads (f x) e2 y"
  shows "reads (bindR p f) (e1 @ e2) y"
  unfolding reads_def
proof (intro allI impI)
  fix pre post assume l: "length (pre @ (e1 @ e2) @ post) < usize_size"
  have "p \<lparr>buf = pre @ e1 @ e2 @ post, pos = length pre\<rparr> =
      Inr (x, \<lparr>buf = pre @ e1 @ e2 @ post, pos = length (pre @ e1)\<rparr>)"
    using p l unfolding reads_def by (metis append.assoc)
  moreover have "f x \<lparr>buf = (pre @ e1) @ e2 @ post, pos = length (pre @ e1)\<rparr> =
      Inr (y, \<lparr>buf = (pre @ e1) @ e2 @ post, pos = length ((pre @ e1) @ e2)\<rparr>)"
    using f l unfolding reads_def by (metis append.assoc)
  ultimately show "bindR p f \<lparr>buf = pre @ (e1 @ e2) @ post, pos = length pre\<rparr> =
      Inr (y, \<lparr>buf = pre @ (e1 @ e2) @ post, pos = length (pre @ e1 @ e2)\<rparr>)"
    by (simp add: bindR_def)
qed

lemma reads_bind_last: "reads p e x \<Longrightarrow> reads (f x) [] y \<Longrightarrow> reads (bindR p f) e y"
  using reads_bind [of p e x f "[]" y] by simp

lemma reads_whole:
  "reads p e x \<Longrightarrow> length e < usize_size \<Longrightarrow> \<exists>c. p \<lparr>buf = e, pos = 0\<rparr> = Inr (x, c)"
  unfolding reads_def by (metis append.right_neutral append_Nil list.size(3))

section \<open>Encodings\<close>

text \<open>
  What a format promises of the pair of an encoder and a reader: every valid value is read back
  from its encoding.
\<close>

locale codec =
  fixes ok :: "'a \<Rightarrow> bool" and enc :: "'a \<Rightarrow> u8 list" and dec :: "('e, 'a) reader"
  assumes dec_enc: "ok x \<Longrightarrow> reads dec (enc x) x"
begin

lemma read_n_enc:
  "(\<And>x. x \<in> set xs \<Longrightarrow> ok x) \<Longrightarrow> n = length xs \<Longrightarrow> reads (read_n n dec) (concat (map enc xs)) xs"
proof (induction xs arbitrary: n)
  case Nil
  then show ?case by (simp add: reads_return)
next
  case (Cons x xs)
  then have "reads (bindR dec (\<lambda>x. bindR (read_n (length xs) dec) (\<lambda>xs. returnR (x # xs))))
      (enc x @ concat (map enc xs)) (x # xs)"
    by (intro reads_bind [OF dec_enc] reads_bind_last [OF _ reads_return]) auto
  with Cons.prems show ?case by simp
qed

end

end
