(* ===== verification/Graph_Codec.thy ===== *)
theory Graph_Codec
  imports Graph_Topo Bytes
begin

text \<open>
  The checksummed \<open>KYCS\<close> serialization of \<open>pensieve-graph-topo\<close>: \<open>to_bytes\<close>, \<open>from_bytes\<close>, the
  FNV-1a checksum and the bounds-checked payload reader.
\<close>

section \<open>The format\<close>

datatype topo_error = Corrupt string | UnsupportedVersion nat | ChecksumMismatch

definition magic :: "u8 list" where
  "magic = as_bytes ''KYCS''"

definition version :: nat where
  "version = 1"

definition fnv_step :: "u64 \<Rightarrow> u8 \<Rightarrow> u64" where
  "fnv_step h b = (h XOR ucast b) * 0x100000001b3"

definition fnv1a :: "u8 list \<Rightarrow> u64" where
  "fnv1a bs = foldl fnv_step 0xcbf29ce484222325 bs"

definition put_u32 :: "nat \<Rightarrow> u8 list" where
  "put_u32 v = le_bytes 4 v"

definition put_str :: "string \<Rightarrow> u8 list" where
  "put_str s = put_u32 (as_u32 (length s)) @ as_bytes s"

definition put_u32_slice :: "nat list \<Rightarrow> u8 list" where
  "put_u32_slice vs = concat (map put_u32 vs)"

definition cur_take :: "nat \<Rightarrow> (topo_error, u8 list) reader" where
  "cur_take n c =
     (let end = pos c + n in
      if usize_size \<le> end then Inl (Corrupt ''length overflow'')
      else if length (buf c) < end then Inl (Corrupt ''read past end'')
      else Inr (take n (drop (pos c) (buf c)), c\<lparr>pos := end\<rparr>))"

definition cur_u32 :: "(topo_error, nat) reader" where
  "cur_u32 = bindR (cur_take 4) (\<lambda>s. returnR (of_le s))"

definition cur_string :: "(topo_error, string) reader" where
  "cur_string = bindR cur_u32 (\<lambda>len. bindR (cur_take len) (\<lambda>s c.
     (case from_utf8 s of
        None \<Rightarrow> Inl (Corrupt ''invalid utf8 id'')
      | Some x \<Rightarrow> Inr (x, c))))"

definition cur_u32_vec :: "nat \<Rightarrow> (topo_error, nat list) reader" where
  "cur_u32_vec n = read_n n cur_u32"

text \<open>The loop that reads the node ids and fills the dictionary.\<close>

fun read_ids :: "nat \<Rightarrow> string list \<Rightarrow> (string \<rightharpoonup> nat)
    \<Rightarrow> (topo_error, string list \<times> (string \<rightharpoonup> nat)) reader" where
  "read_ids 0 is m = returnR (is, m)"
| "read_ids (Suc n) is m =
     bindR cur_string (\<lambda>s. read_ids n (is @ [s]) (m(s \<mapsto> as_u32 (length is))))"

definition payload_of :: "csr_graph \<Rightarrow> u8 list" where
  "payload_of g =
     put_u32 (as_u32 (length (ids g))) @ put_u32 (as_u32 (length (etypes g))) @
     put_u32 (as_u32 (length (out_targets g))) @ put_u32 (as_u32 (length (in_sources g))) @
     concat (map put_str (ids g)) @ concat (map put_str (etypes g)) @
     put_u32_slice (out_offsets g) @ put_u32_slice (out_targets g) @ put_u32_slice (out_etype g) @
     put_u32_slice (in_offsets g) @ put_u32_slice (in_sources g) @ put_u32_slice (in_etype g)"

definition to_bytes :: "csr_graph \<Rightarrow> u8 list" where
  "to_bytes g =
     (let payload = payload_of g in
      magic @ le_bytes 2 version @ le_bytes 2 0 @ le_bytes 8 (unat (fnv1a payload)) @ payload)"

definition read_payload :: "(topo_error, csr_graph) reader" where
  "read_payload =
     bindR cur_u32 (\<lambda>n_nodes. bindR cur_u32 (\<lambda>n_etypes.
     bindR cur_u32 (\<lambda>n_out. bindR cur_u32 (\<lambda>n_in.
     bindR (read_ids n_nodes [] Map.empty) (\<lambda>(is, m).
     bindR (read_n n_etypes cur_string) (\<lambda>ts.
     bindR (cur_u32_vec (n_nodes + 1)) (\<lambda>oo.
     bindR (cur_u32_vec n_out) (\<lambda>ot.
     bindR (cur_u32_vec n_out) (\<lambda>oe.
     bindR (cur_u32_vec (n_nodes + 1)) (\<lambda>io.
     bindR (cur_u32_vec n_in) (\<lambda>isrc.
     bindR (cur_u32_vec n_in) (\<lambda>ie.
       returnR \<lparr>ids = is, id_to_idx = m, etypes = ts,
                out_offsets = oo, out_targets = ot, out_etype = oe,
                in_offsets = io, in_sources = isrc, in_etype = ie\<rparr>))))))))))))"

definition from_bytes :: "u8 list \<Rightarrow> topo_error + csr_graph" where
  "from_bytes bytes =
     (if length bytes < 16 then Inl (Corrupt ''header truncated'')
      else if take 4 bytes \<noteq> magic then Inl (Corrupt ''bad magic'')
      else let v = of_le (take 2 (drop 4 bytes)) in
      if v \<noteq> version then Inl (UnsupportedVersion v)
      else let stored_ck = word_of_nat (of_le (take 8 (drop 8 bytes))); payload = drop 16 bytes in
      if fnv1a payload \<noteq> stored_ck then Inl ChecksumMismatch
      else bindE (read_payload \<lparr>buf = payload, pos = 0\<rparr>) (\<lambda>(g, _). Inr g))"

section \<open>Encodings are read back\<close>

lemma length_magic [simp]: "length magic = 4"
  by (simp add: magic_def)

lemma reads_take: "n = length e \<Longrightarrow> reads (cur_take n) e e"
  by (simp add: reads_def cur_take_def Let_def)

lemma u32_bytes: "n < u32_size \<Longrightarrow> of_le (le_bytes 4 n) = n"
  by (simp add: of_le_le_bytes u32_size_def)

interpretation u32_codec: codec "\<lambda>n. n < u32_size" put_u32 cur_u32
proof
  fix n assume "n < u32_size"
  then have "reads (returnR (of_le (le_bytes 4 n))) [] n" by (simp add: u32_bytes reads_return)
  then show "reads cur_u32 (put_u32 n) n"
    unfolding cur_u32_def put_u32_def by (intro reads_bind_last [OF reads_take]) simp
qed

definition enc_str :: "string \<Rightarrow> bool" where
  "enc_str s \<longleftrightarrow> str_ok s \<and> length s < u32_size"

interpretation str_codec: codec enc_str put_str cur_string
proof
  fix s assume "enc_str s"
  then have s: "str_ok s" "length s < u32_size" by (auto simp: enc_str_def)
  have "reads (\<lambda>c. case from_utf8 (as_bytes s) of None \<Rightarrow> Inl (Corrupt ''invalid utf8 id'')
      | Some x \<Rightarrow> Inr (x, c)) [] s"
    using s by (simp add: reads_def)
  then have "reads (bindR (cur_take (length s)) (\<lambda>b c. case from_utf8 b of
      None \<Rightarrow> Inl (Corrupt ''invalid utf8 id'') | Some x \<Rightarrow> Inr (x, c))) (as_bytes s) s"
    by (intro reads_bind_last [OF reads_take]) auto
  then show "reads cur_string (put_str s) s"
    unfolding cur_string_def put_str_def using s(2)
    by (intro reads_bind [OF u32_codec.dec_enc]) auto
qed

lemmas reads_u32 = u32_codec.dec_enc

lemma reads_u32_vec:
  "\<forall>v \<in> set vs. v < u32_size \<Longrightarrow> n = length vs \<Longrightarrow> reads (cur_u32_vec n) (put_u32_slice vs) vs"
  unfolding cur_u32_vec_def put_u32_slice_def by (intro u32_codec.read_n_enc) auto

lemma reads_ids:
  assumes "\<forall>s \<in> set xs. enc_str s" "distinct (is @ xs)" "length (is @ xs) < u32_size" "n = length xs"
  shows "reads (read_ids n is (index_of is)) (concat (map put_str xs)) (is @ xs, index_of (is @ xs))"
  using assms
proof (induction xs arbitrary: n "is")
  case Nil
  then show ?case by (simp add: reads_return)
next
  case (Cons x xs)
  have x: "index_of is x = None" using Cons.prems by (simp add: index_of_None)
  have "(index_of is)(x \<mapsto> as_u32 (length is)) = index_of (is @ [x])"
    using x Cons.prems(3) by (auto simp: fun_eq_iff index_of_snoc split: option.splits)
  with Cons.IH [of "is @ [x]" "length xs"] Cons.prems
  have "reads (read_ids (length xs) (is @ [x]) ((index_of is)(x \<mapsto> as_u32 (length is))))
      (concat (map put_str xs)) (is @ x # xs, index_of (is @ x # xs))" by auto
  with Cons.prems show ?case
    by (auto intro!: reads_bind [OF str_codec.dec_enc])
qed

section \<open>Round trip\<close>

text \<open>
  The graphs the format can hold: every stored number fits 32 bits, the node ids are distinct and
  are what the dictionary indexes, and paired arrays have equal lengths.
\<close>

definition serializable :: "csr_graph \<Rightarrow> bool" where
  "serializable g \<longleftrightarrow>
     distinct (ids g) \<and> id_to_idx g = index_of (ids g) \<and>
     (\<forall>s \<in> set (ids g). enc_str s) \<and> (\<forall>s \<in> set (etypes g). enc_str s) \<and>
     length (ids g) < u32_size \<and> length (etypes g) < u32_size \<and>
     length (out_targets g) < u32_size \<and> length (in_sources g) < u32_size \<and>
     length (out_offsets g) = length (ids g) + 1 \<and> length (in_offsets g) = length (ids g) + 1 \<and>
     length (out_etype g) = length (out_targets g) \<and> length (in_etype g) = length (in_sources g) \<and>
     (\<forall>v \<in> set (out_offsets g @ out_targets g @ out_etype g @ in_offsets g @ in_sources g @ in_etype g).
        v < u32_size)"

lemma reads_payload:
  assumes "serializable g"
  shows "reads read_payload (payload_of g) g"
proof -
  have ok: "distinct (ids g)" "id_to_idx g = index_of (ids g)" "\<forall>s \<in> set (ids g). enc_str s"
    "\<And>s. s \<in> set (etypes g) \<Longrightarrow> enc_str s" "length (ids g) < u32_size" "length (etypes g) < u32_size"
    "length (out_targets g) < u32_size" "length (in_sources g) < u32_size"
    "length (out_offsets g) = length (ids g) + 1" "length (in_offsets g) = length (ids g) + 1"
    "length (out_etype g) = length (out_targets g)" "length (in_etype g) = length (in_sources g)"
    "\<forall>v \<in> set (out_offsets g). v < u32_size" "\<forall>v \<in> set (out_targets g). v < u32_size"
    "\<forall>v \<in> set (out_etype g). v < u32_size" "\<forall>v \<in> set (in_offsets g). v < u32_size"
    "\<forall>v \<in> set (in_sources g). v < u32_size" "\<forall>v \<in> set (in_etype g). v < u32_size"
    using assms unfolding serializable_def by auto
  have empty: "Map.empty = index_of []" by (auto simp: index_of_def fun_eq_iff)
  have is0: "reads (read_ids (length (ids g)) [] Map.empty) (concat (map put_str (ids g)))
      (ids g, id_to_idx g)"
    using reads_ids [of "ids g" "[]"] ok(1-3,5) by (simp add: empty)
  have g: "g = \<lparr>ids = ids g, id_to_idx = id_to_idx g, etypes = etypes g, out_offsets = out_offsets g,
      out_targets = out_targets g, out_etype = out_etype g, in_offsets = in_offsets g,
      in_sources = in_sources g, in_etype = in_etype g\<rparr>" by simp
  have ret: "reads (returnR \<lparr>ids = ids g, id_to_idx = id_to_idx g, etypes = etypes g,
      out_offsets = out_offsets g, out_targets = out_targets g, out_etype = out_etype g,
      in_offsets = in_offsets g, in_sources = in_sources g, in_etype = in_etype g\<rparr>) [] g"
    unfolding g [symmetric] by (rule reads_return)
  have ts: "reads (read_n (length (etypes g)) cur_string) (concat (map put_str (etypes g))) (etypes g)"
    using str_codec.read_n_enc ok(4) by blast
  note vec = reads_u32_vec [OF ok(13)] reads_u32_vec [OF ok(14)] reads_u32_vec [OF ok(15)]
    reads_u32_vec [OF ok(16)] reads_u32_vec [OF ok(17)] reads_u32_vec [OF ok(18)]
  show ?thesis
    unfolding read_payload_def payload_of_def as_u32_small [OF ok(5)] as_u32_small [OF ok(6)]
      as_u32_small [OF ok(7)] as_u32_small [OF ok(8)]
    apply (rule reads_bind [OF reads_u32 [OF ok(5)]])
    apply (rule reads_bind [OF reads_u32 [OF ok(6)]])
    apply (rule reads_bind [OF reads_u32 [OF ok(7)]])
    apply (rule reads_bind [OF reads_u32 [OF ok(8)]])
    apply (rule reads_bind [OF is0], unfold prod.case)
    apply (rule reads_bind [OF ts])
    apply (rule reads_bind [OF vec(1)], simp add: ok(9))
    apply (rule reads_bind [OF vec(2)], simp)
    apply (rule reads_bind [OF vec(3)], simp add: ok(11))
    apply (rule reads_bind [OF vec(4)], simp add: ok(10))
    apply (rule reads_bind [OF vec(5)], simp)
    apply (rule reads_bind_last [OF vec(6)], simp add: ok(12))
    apply (rule ret)
    done
qed

lemma from_bytes_frame:
  assumes "length ck = 8" "length res = 2"
  shows "from_bytes (magic @ le_bytes 2 version @ res @ ck @ payload) =
    (if fnv1a payload \<noteq> word_of_nat (of_le ck) then Inl ChecksumMismatch
     else bindE (read_payload \<lparr>buf = payload, pos = 0\<rparr>) (\<lambda>(g, _). Inr g))"
  using assms by (simp add: from_bytes_def version_def Let_def)

lemma ck_bytes [simp]: "word_of_nat (of_le (le_bytes 8 (unat (h :: u64)))) = h"
proof -
  have "unat h < 256 ^ 8" using unsigned_less [where 'a = nat, of h] by simp
  then show ?thesis by simp
qed

lemma from_bytes_to_bytes:
  assumes "serializable g" "length (payload_of g) < usize_size"
  shows "from_bytes (to_bytes g) = Inr g"
proof -
  from reads_whole [OF reads_payload [OF assms(1)] assms(2)] obtain c where
    "read_payload \<lparr>buf = payload_of g, pos = 0\<rparr> = Inr (g, c)" by blast
  then show ?thesis by (simp add: to_bytes_def Let_def from_bytes_frame)
qed

section \<open>The checksum detects a damaged byte\<close>

lemma fnv_step_inj_hash: "fnv_step h b = fnv_step h' b \<Longrightarrow> h = h'"
proof -
  assume eq: "fnv_step h b = fnv_step h' b"
  have p: "(0x100000001b3 :: u64) * 0xce965057aff6957b = 1" by simp
  have "(h XOR ucast b) * (0x100000001b3 * 0xce965057aff6957b) = (h' XOR ucast b) * (0x100000001b3 * 0xce965057aff6957b)"
    using eq unfolding fnv_step_def mult.assoc [symmetric] by simp
  then have "h XOR ucast b = h' XOR ucast b" by (simp only: p mult_1_right)
  then have "(h XOR ucast b) XOR ucast b = (h' XOR ucast b) XOR ucast b" by simp
  then show "h = h'" by (simp add: xor.assoc)
qed

lemma ucast_byte_inj: "(ucast (b :: u8) :: u64) = ucast b' \<Longrightarrow> b = b'"
proof -
  assume "(ucast b :: u64) = ucast b'"
  then have "unat (ucast b :: u64) = unat (ucast b' :: u64)" by simp
  moreover have "unat (ucast x :: u64) = unat x" for x :: u8
    using unat_byte_less [of x] by (simp add: unsigned_ucast_eq take_bit_nat_eq_self)
  ultimately show "b = b'" by (simp add: unsigned_word_eqI)
qed

lemma fnv_step_inj_byte: "fnv_step h b = fnv_step h b' \<Longrightarrow> b = b'"
proof -
  assume "fnv_step h b = fnv_step h b'"
  then have "(ucast b :: u64) XOR h = ucast b' XOR h"
    using fnv_step_inj_hash [of "ucast b" 0 "ucast b'"] unfolding fnv_step_def
    by (metis fnv_step_def fnv_step_inj_hash unsigned_0 xor.commute xor.right_neutral)
  then have "((ucast b :: u64) XOR h) XOR h = (ucast b' XOR h) XOR h" by simp
  then show "b = b'" by (simp add: xor.assoc ucast_byte_inj)
qed

lemma fnv_fold_inj: "foldl fnv_step h bs = foldl fnv_step h' bs \<Longrightarrow> h = h'"
  by (induction bs arbitrary: h h') (auto dest: fnv_step_inj_hash)

lemma fnv1a_update:
  assumes i: "i < length bs" and b: "b \<noteq> bs ! i"
  shows "fnv1a (bs[i := b]) \<noteq> fnv1a bs"
proof
  assume eq: "fnv1a (bs[i := b]) = fnv1a bs"
  let ?h = "foldl fnv_step 0xcbf29ce484222325 (take i bs)"
  have "foldl fnv_step (fnv_step ?h b) (drop (Suc i) bs) =
      foldl fnv_step (fnv_step ?h (bs ! i)) (drop (Suc i) bs)"
    using eq i unfolding fnv1a_def upd_conv_take_nth_drop [OF i]
    by (subst (asm) (2) id_take_nth_drop [OF i]) simp
  then have "b = bs ! i" by (intro fnv_step_inj_byte [OF fnv_fold_inj])
  with b show False by simp
qed

lemma to_bytes_payload:
  assumes "16 \<le> i"
  shows "to_bytes g ! i = payload_of g ! (i - 16)" "length (to_bytes g) = 16 + length (payload_of g)"
proof -
  let ?h = "magic @ le_bytes 2 version @ le_bytes 2 0 @ le_bytes 8 (unat (fnv1a (payload_of g)))"
  have eq: "to_bytes g = ?h @ payload_of g" by (simp add: to_bytes_def Let_def)
  have lh: "length ?h = 16" by simp
  show "to_bytes g ! i = payload_of g ! (i - 16)"
    unfolding eq nth_append [of ?h _ i] lh using assms by simp
  show "length (to_bytes g) = 16 + length (payload_of g)" by (simp add: eq)
qed

lemma from_bytes_damaged:
  assumes i: "16 \<le> i" "i < length (to_bytes g)" and b: "b \<noteq> to_bytes g ! i"
  shows "from_bytes ((to_bytes g)[i := b]) = Inl ChecksumMismatch"
proof -
  let ?p = "payload_of g"
  let ?h = "magic @ le_bytes 2 version @ le_bytes 2 0 @ le_bytes 8 (unat (fnv1a ?p))"
  have eq: "to_bytes g = ?h @ ?p" by (simp add: to_bytes_def Let_def)
  have lh: "length ?h = 16" by simp
  have j: "i - 16 < length ?p" "b \<noteq> ?p ! (i - 16)"
    using i b to_bytes_payload [OF i(1), of g] by auto
  have "(to_bytes g)[i := b] = ?h @ ?p[i - 16 := b]"
    unfolding eq list_update_append [of ?h ?p i b] lh using i(1) by simp
  then show ?thesis
    using fnv1a_update [OF j] by (simp add: from_bytes_frame)
qed

section \<open>Built graphs are serializable\<close>

lemma slot_owner: "i < off_of ts n \<Longrightarrow> \<exists>v < n. off_of ts v \<le> i \<and> i < off_of ts (Suc v)"
  by (induction n) (auto, metis less_Suc_eq not_le)

lemma csr_slices_entries:
  assumes s: "csr_slices n ts (offsets, targets, ets)" and lt: "\<And>t. t \<in> set ts \<Longrightarrow> fst t < n"
    and i: "i < length targets"
  shows "\<exists>v. (v, targets ! i, ets ! i) \<in> set ts"
proof -
  have "i < off_of ts n" using s i off_of_all [OF lt] by (simp add: csr_slices_def)
  then obtain v where v: "v < n" "off_of ts v \<le> i" "i < off_of ts (Suc v)" using slot_owner by blast
  have "map (\<lambda>i. (targets ! i, ets ! i)) [offsets ! v ..< offsets ! Suc v] = nbrs_of ts v"
    using s v(1) unfolding csr_slices_def prod.case by blast
  moreover have "offsets ! v = off_of ts v" "offsets ! Suc v = off_of ts (Suc v)"
    using s v(1) by (auto simp: csr_slices_def)
  ultimately have "(targets ! i, ets ! i) \<in> set (nbrs_of ts v)"
    using v(2,3) by (metis (mono_tags, lifting) atLeastLessThan_iff image_eqI list.set_map set_upt)
  then show ?thesis by (auto simp: nbrs_of_def)
qed

lemma csr_slices_u32:
  assumes s: "csr_slices n ts (offsets, targets, ets)" and small: "length ts < u32_size"
    and lt: "\<And>f t e. (f, t, e) \<in> set ts \<Longrightarrow> f < n \<and> t < u32_size \<and> e < u32_size"
  shows "\<forall>v \<in> set (offsets @ targets @ ets). v < u32_size"
proof -
  have len: "length offsets = Suc n" "length ets = length targets"
    and off: "\<And>v. v \<le> n \<Longrightarrow> offsets ! v = off_of ts v"
    using s by (auto simp: csr_slices_def)
  have "offsets ! v < u32_size" if "v \<le> n" for v
    using off [OF that] off_of_le [of ts v] small by simp
  moreover have "targets ! i < u32_size \<and> ets ! i < u32_size" if i: "i < length targets" for i
  proof -
    have "\<exists>v. (v, targets ! i, ets ! i) \<in> set ts"
      by (rule csr_slices_entries [OF s _ i]) (use lt in \<open>auto simp: split_paired_all\<close>)
    with lt show ?thesis by blast
  qed
  ultimately show ?thesis using len by (auto simp: in_set_conv_nth less_Suc_eq_le)
qed

lemma intern_edges_types: "fst (intern_edges m es) = ts \<Longrightarrow> set ts \<subseteq> (snd \<circ> snd) ` set es"
proof (induction es arbitrary: ts rule: rev_induct)
  case Nil
  then show ?case by (simp add: intern_edges_def)
next
  case (snoc e es)
  obtain ts0 tm k where ih: "intern_edges m es = (ts0, tm, k)" by (cases "intern_edges m es")
  obtain s d t where e: "e = (s, d, t)" by (cases e)
  have "intern_edges m (es @ [e]) = add_edge m (ts0, tm, k) e"
    using ih by (simp add: intern_edges_def)
  then have "set ts \<subseteq> insert t (set ts0)"
    using snoc.prems by (auto simp: add_edge_def e Let_def split: option.splits)
  moreover have "set ts0 \<subseteq> (snd \<circ> snd) ` set es" by (rule snoc.IH) (simp add: ih)
  ultimately show ?case by (force simp: e)
qed

lemma build_etypes: "build nodes es = Some g \<Longrightarrow> set (etypes g) \<subseteq> (snd \<circ> snd) ` set es"
proof -
  assume b: "build nodes es = Some g"
  obtain "is" m where i: "intern_nodes nodes = (is, m)" by (cases "intern_nodes nodes")
  from b have "etypes g = fst (intern_edges m es)"
    by (auto simp: build_def i Let_def split: prod.splits option.splits)
  with intern_edges_types [of m es] show ?thesis by simp
qed

lemma build_serializable:
  assumes b: "build nodes es = Some g" and g: "csr_of nodes es g"
    and n: "\<forall>s \<in> set nodes. enc_str s" and t: "\<forall>(s, d, t) \<in> set es. enc_str t"
  shows "serializable g"
proof -
  let ?k = "kept_triples (ids g) (etypes g) es"
  have small: "length (ids g) < u32_size" "length (etypes g) < u32_size" "length ?k < u32_size"
    using g length_retained [of "ids g" es] unfolding csr_of_def kept_triples_def by auto
  have o: "csr_slices (num_nodes g) ?k (out_offsets g, out_targets g, out_etype g)"
    and i: "csr_slices (num_nodes g) (map swap_triple ?k) (in_offsets g, in_sources g, in_etype g)"
    using g unfolding csr_of_def by auto
  have k: "f < num_nodes g \<and> t < num_nodes g \<and> e < u32_size" if "(f, t, e) \<in> set ?k" for f t e
  proof -
    from that obtain s d t' where r: "(s, d, t') \<in> set (retained (ids g) es)"
      "triple_of (ids g) (etypes g) (s, d, t') = (f, t, e)" by (auto simp: kept_triples_def)
    from kept_edge [OF g r(1)] r(2) have "e = the (index_of (etypes g) t')" by auto
    moreover have "t' \<in> set (etypes g)" using g r(1) unfolding csr_of_def by auto
    moreover have "distinct (etypes g)" using g unfolding csr_of_def by auto
    ultimately have "e < length (etypes g)"
      using index_of_None [of "etypes g" t'] by (cases "index_of (etypes g) t'") (auto simp: index_of_Some)
    with kept_lt [OF g that] small show ?thesis by simp
  qed
  have out: "\<forall>v \<in> set (out_offsets g @ out_targets g @ out_etype g). v < u32_size"
    by (rule csr_slices_u32 [OF o small(3)]) (use k small in \<open>fastforce simp: num_nodes_def\<close>)
  have inn: "\<forall>v \<in> set (in_offsets g @ in_sources g @ in_etype g). v < u32_size"
    by (rule csr_slices_u32 [OF i])
      (use k small in \<open>fastforce simp: num_nodes_def swap_triple_def\<close>)+
  have "enc_str s" if "s \<in> set (ids g)" for s
    using that n csr_of_ids(2) [OF g] by blast
  moreover have "enc_str s" if "s \<in> set (etypes g)" for s
    using that t build_etypes [OF b] by fastforce
  moreover have "length (out_offsets g) = length (ids g) + 1" "length (in_offsets g) = length (ids g) + 1"
    "length (out_etype g) = length (out_targets g)" "length (in_etype g) = length (in_sources g)"
    "length (out_targets g) < u32_size" "length (in_sources g) < u32_size"
    using o i small(3) by (auto simp: csr_slices_def num_nodes_def)
  moreover have "id_to_idx g = index_of (ids g)" using g unfolding csr_of_def by blast
  ultimately show ?thesis
    unfolding serializable_def using out inn small csr_of_ids(1) [OF g] by auto
qed

section \<open>Properties\<close>

text \<open>
  A graph built from ids and edge types that are valid UTF-8 strings shorter than 4 GiB is read
  back by \<open>from_bytes\<close> from what \<open>to_bytes\<close> wrote, field by field.
\<close>

theorem build_roundtrip:
  assumes "length nodes < u32_size" "length es < u32_size"
    and "\<forall>s \<in> set nodes. enc_str s" "\<forall>(s, d, t) \<in> set es. enc_str t"
  shows "\<exists>g. build nodes es = Some g \<and>
    (length (to_bytes g) < usize_size \<longrightarrow> from_bytes (to_bytes g) = Inr g)"
proof -
  from build_total [OF assms(1,2)] obtain g where g: "build nodes es = Some g" "csr_of nodes es g" by blast
  have "from_bytes (to_bytes g) = Inr g" if "length (to_bytes g) < usize_size"
    by (rule from_bytes_to_bytes [OF build_serializable [OF g assms(3,4)]])
      (use that in \<open>simp add: to_bytes_def Let_def\<close>)
  with g show ?thesis by blast
qed

theorem build_roundtrip_witness:
  "\<exists>g. build [''a'', ''b''] [(''a'', ''b'', ''x'')] = Some g \<and>
    (length (to_bytes g) < usize_size \<longrightarrow> from_bytes (to_bytes g) = Inr g)"
  by (rule build_roundtrip) (simp_all add: u32_size_def enc_str_def str_ok_def as_bytes_def)

text \<open>
  Whatever graph was written, replacing any one byte of the payload is reported as a checksum
  mismatch: FNV-1a steps are injective in the state and in the byte.
\<close>

theorem from_bytes_detects_byte:
  assumes "16 \<le> i" "i < length (to_bytes g)" "b \<noteq> to_bytes g ! i"
  shows "from_bytes ((to_bytes g)[i := b]) = Inl ChecksumMismatch"
  using assms by (rule from_bytes_damaged)

theorem from_bytes_detects_byte_witness:
  "let g = \<lparr>ids = [], id_to_idx = Map.empty, etypes = [], out_offsets = [0], out_targets = [],
       out_etype = [], in_offsets = [0], in_sources = [], in_etype = []\<rparr>
   in from_bytes ((to_bytes g)[16 := 1]) = Inl ChecksumMismatch"
proof -
  let ?g = "\<lparr>ids = [], id_to_idx = Map.empty, etypes = [], out_offsets = [0], out_targets = [],
       out_etype = [], in_offsets = [0], in_sources = [], in_etype = []\<rparr> :: csr_graph"
  have "(4 :: nat) = Suc (Suc (Suc (Suc 0)))" by simp
  then have z: "put_u32 0 = [0, 0, 0, 0]" by (simp only: put_u32_def) simp
  have "payload_of ?g ! 0 = 0" "0 < length (payload_of ?g)"
    by (simp_all add: payload_of_def as_u32_def z)
  then have "to_bytes ?g ! 16 = 0" "16 < length (to_bytes ?g)"
    using to_bytes_payload [of 16 ?g] by simp_all
  then show ?thesis using from_bytes_detects_byte [of 16 ?g 1] by (simp add: Let_def)
qed

end
