(* ===== verification/Object_Cache.thy ===== *)
theory Object_Cache
  imports Bytes
begin

text \<open>
  The read cache of \<open>pensieve-storage\<close> (\<open>cache.rs\<close>): the byte-bounded LRU with its three indexes,
  and the caching wrapper over an object store. The wrapped store is a parameter (a record of its
  operations on a state of its own); so are its metadata, attributes, errors and put results,
  which the cache only passes on. The \<open>u64\<close> counters are \<open>nat\<close>: they count operations of one
  process.

  Shown: the indexes stay consistent and the budget holds, the LRU refines a recency-ordered list
  that drops its oldest entries, and a sequence of operations on the caching store answers as the
  wrapped store does. The last section shows the interleaving in which it does not.
\<close>

section \<open>Ordered maps\<close>

text \<open>A \<open>BTreeMap\<close>: an association list in ascending key order.\<close>

type_synonym 'a btree = "(nat \<times> 'a) list"

fun bt_insert :: "nat \<Rightarrow> 'a \<Rightarrow> 'a btree \<Rightarrow> 'a btree" where
  "bt_insert k v [] = [(k, v)]"
| "bt_insert k v ((k', v') # xs) =
     (if k < k' then (k, v) # (k', v') # xs
      else if k = k' then (k, v) # xs
      else (k', v') # bt_insert k v xs)"

definition bt_remove :: "nat \<Rightarrow> 'a btree \<Rightarrow> 'a btree" where
  "bt_remove k xs = filter (\<lambda>(k', _). k' \<noteq> k) xs"

definition bt_ok :: "'a btree \<Rightarrow> bool" where
  "bt_ok xs \<longleftrightarrow> sorted_wrt (<) (map fst xs)"

lemma bt_insert_last: "\<forall>x \<in> set xs. fst x < k \<Longrightarrow> bt_insert k v xs = xs @ [(k, v)]"
  by (induction k v xs rule: bt_insert.induct) auto

lemma bt_remove_mid:
  assumes "bt_ok (xs @ (k, v) # ys)"
  shows "bt_remove k (xs @ (k, v) # ys) = xs @ ys"
proof -
  have "\<forall>z \<in> set xs \<union> set ys. fst z \<noteq> k"
    using assms by (fastforce simp: bt_ok_def sorted_wrt_append)
  then have "filter (\<lambda>(k', _). k' \<noteq> k) xs = xs" "filter (\<lambda>(k', _). k' \<noteq> k) ys = ys"
    by (force intro!: filter_True)+
  then show ?thesis by (simp add: bt_remove_def)
qed

lemma bt_ok_mid: "bt_ok (xs @ x # ys) \<Longrightarrow> bt_ok (xs @ ys)"
  by (auto simp: bt_ok_def sorted_wrt_append)

lemma bt_ok_snoc: "bt_ok xs \<Longrightarrow> \<forall>x \<in> set xs. fst x < k \<Longrightarrow> bt_ok (xs @ [(k, v)])"
  by (auto simp: bt_ok_def sorted_wrt_append)

section \<open>The LRU\<close>

definition ENTRY_OVERHEAD :: nat where
  "ENTRY_OVERHEAD = 256"

type_synonym path = string

datatype range_key = FullKey | BoundedKey nat nat | HeadKey

type_synonym cache_key = "path \<times> range_key"

record ('m, 'a) entry =
  e_bytes :: "u8 list"
  e_meta :: 'm
  e_attributes :: 'a
  e_range :: "nat \<times> nat"
  e_tick :: nat
  e_nbytes :: nat

record ('m, 'a) lru =
  entries :: "cache_key \<rightharpoonup> ('m, 'a) entry"
  by_tick :: "cache_key btree"
  by_path :: "path \<rightharpoonup> range_key list"
  total_bytes :: nat
  max_total :: nat
  lru_tick :: nat
  hits :: nat
  misses :: nat

definition lru_new :: "nat \<Rightarrow> ('m, 'a) lru" where
  "lru_new n = \<lparr>entries = Map.empty, by_tick = [], by_path = Map.empty, total_bytes = 0,
     max_total = n, lru_tick = 0, hits = 0, misses = 0\<rparr>"

definition lru_get :: "path \<Rightarrow> range_key \<Rightarrow> ('m, 'a) lru \<Rightarrow> ('m, 'a) entry option \<times> ('m, 'a) lru" where
  "lru_get p rk l =
     (let key = (p, rk) in
      case entries l key of
        None \<Rightarrow> (None, l\<lparr>misses := misses l + 1\<rparr>)
      | Some e \<Rightarrow>
          (let nt = lru_tick l + 1; e' = e\<lparr>e_tick := nt\<rparr> in
           (Some e', l\<lparr>by_tick := bt_insert nt key (bt_remove (e_tick e) (by_tick l)),
                       lru_tick := nt, entries := (entries l)(key \<mapsto> e'), hits := hits l + 1\<rparr>)))"

definition remove_key :: "cache_key \<Rightarrow> ('m, 'a) lru \<Rightarrow> ('m, 'a) lru" where
  "remove_key key l =
     (case entries l key of
        None \<Rightarrow> l
      | Some e \<Rightarrow>
          l\<lparr>entries := (entries l)(key := None),
            total_bytes := total_bytes l - e_nbytes e,
            by_tick := bt_remove (e_tick e) (by_tick l),
            by_path := (case by_path l (fst key) of
                None \<Rightarrow> by_path l
              | Some v \<Rightarrow> (let v' = filter (\<lambda>r. r \<noteq> snd key) v in
                  (by_path l)(fst key := (if v' = [] then None else Some v'))))\<rparr>)"

text \<open>The \<open>while\<close> loop at the end of \<open>insert\<close>.\<close>

definition evict_step :: "('m, 'a) lru \<Rightarrow> (('m, 'a) lru + ('m, 'a) lru) option" where
  "evict_step l =
     (if total_bytes l \<le> max_total l then Some (Inr l)
      else case by_tick l of
        [] \<Rightarrow> Some (Inr l)
      | (_, victim) # _ \<Rightarrow> Some (Inl (remove_key victim l)))"

text \<open>The part of \<open>insert\<close> that adds the new entry to the map and both indexes.\<close>

definition put_entry :: "cache_key \<Rightarrow> u8 list \<Rightarrow> 'm \<Rightarrow> 'a \<Rightarrow> nat \<times> nat \<Rightarrow> ('m, 'a) lru \<Rightarrow> ('m, 'a) lru" where
  "put_entry key bytes meta attrs rng l =
     (let nbytes = max (length bytes) ENTRY_OVERHEAD; t = lru_tick l + 1 in
      l\<lparr>lru_tick := t,
        entries := (entries l)(key \<mapsto> \<lparr>e_bytes = bytes, e_meta = meta,
          e_attributes = attrs, e_range = rng, e_tick = t, e_nbytes = nbytes\<rparr>),
        by_tick := bt_insert t key (by_tick l),
        by_path := (by_path l)(fst key \<mapsto>
          (case by_path l (fst key) of None \<Rightarrow> [] | Some v \<Rightarrow> v) @ [snd key]),
        total_bytes := total_bytes l + nbytes\<rparr>)"

definition lru_insert :: "path \<Rightarrow> range_key \<Rightarrow> u8 list \<Rightarrow> 'm \<Rightarrow> 'a \<Rightarrow> nat \<times> nat
    \<Rightarrow> ('m, 'a) lru \<Rightarrow> ('m, 'a) lru option" where
  "lru_insert p rk bytes meta attrs rng l =
     (if max (length bytes) ENTRY_OVERHEAD > max_total l then Some l
      else loopM evict_step (put_entry (p, rk) bytes meta attrs rng (remove_key (p, rk) l)))"

text \<open>The body of the loop over the ranges cached for one path.\<close>

definition evict_range :: "path \<Rightarrow> range_key \<Rightarrow> ('m, 'a) lru \<Rightarrow> ('m, 'a) lru" where
  "evict_range p rk l =
     (case entries l (p, rk) of
        None \<Rightarrow> l
      | Some e \<Rightarrow> l\<lparr>entries := (entries l)((p, rk) := None),
                    total_bytes := total_bytes l - e_nbytes e,
                    by_tick := bt_remove (e_tick e) (by_tick l)\<rparr>)"

definition evict_path :: "path \<Rightarrow> ('m, 'a) lru \<Rightarrow> ('m, 'a) lru" where
  "evict_path p l =
     (case by_path l p of
        None \<Rightarrow> l
      | Some rks \<Rightarrow> fold (evict_range p) rks (l\<lparr>by_path := (by_path l)(p := None)\<rparr>))"

section \<open>Consistency of the indexes\<close>

definition cost_in :: "(cache_key \<rightharpoonup> ('m, 'a) entry) \<Rightarrow> nat \<times> cache_key \<Rightarrow> nat" where
  "cost_in m x = (case m (snd x) of None \<Rightarrow> 0 | Some e \<Rightarrow> e_nbytes e)"

text \<open>\<open>ticked\<close>: the recency index lists exactly the cached keys, each under its tick.\<close>

definition ticked :: "('m, 'a) lru \<Rightarrow> bool" where
  "ticked l \<longleftrightarrow> bt_ok (by_tick l) \<and>
     (\<forall>t k. (t, k) \<in> set (by_tick l) \<longleftrightarrow> (\<exists>e. entries l k = Some e \<and> e_tick e = t)) \<and>
     (\<forall>x \<in> set (by_tick l). fst x \<le> lru_tick l) \<and>
     total_bytes l = sum_list (map (cost_in (entries l)) (by_tick l))"

text \<open>\<open>pathed\<close>: the reverse index lists, for each path of \<open>P\<close>, exactly the cached ranges.\<close>

definition ranges_ok :: "range_key list option \<Rightarrow> (range_key \<Rightarrow> bool) \<Rightarrow> bool" where
  "ranges_ok v cached \<longleftrightarrow> (case v of
       None \<Rightarrow> \<forall>rk. \<not> cached rk
     | Some rks \<Rightarrow> rks \<noteq> [] \<and> distinct rks \<and> (\<forall>rk. rk \<in> set rks \<longleftrightarrow> cached rk))"

definition pathed :: "path set \<Rightarrow> ('m, 'a) lru \<Rightarrow> bool" where
  "pathed P l \<longleftrightarrow> (\<forall>p \<in> P. ranges_ok (by_path l p) (\<lambda>rk. (p, rk) \<in> dom (entries l)))"

definition sized :: "('m, 'a) lru \<Rightarrow> bool" where
  "sized l \<longleftrightarrow> (\<forall>k e. entries l k = Some e \<longrightarrow> e_nbytes e = max (length (e_bytes e)) ENTRY_OVERHEAD)"

definition lru_inv :: "('m, 'a) lru \<Rightarrow> bool" where
  "lru_inv l \<longleftrightarrow> ticked l \<and> pathed UNIV l \<and> sized l \<and> total_bytes l \<le> max_total l"

lemma ticked_entry: "ticked l \<Longrightarrow> (t, k) \<in> set (by_tick l) \<longleftrightarrow> (\<exists>e. entries l k = Some e \<and> e_tick e = t)"
  unfolding ticked_def by blast

lemma ticked_split:
  assumes l: "ticked l" and e: "entries l k = Some e"
  shows "\<exists>xs ys. by_tick l = xs @ (e_tick e, k) # ys \<and> bt_remove (e_tick e) (by_tick l) = xs @ ys \<and>
           (\<forall>x \<in> set (xs @ ys). snd x \<noteq> k)"
proof -
  from l e have "(e_tick e, k) \<in> set (by_tick l)" by (simp add: ticked_entry)
  then obtain xs ys where s: "by_tick l = xs @ (e_tick e, k) # ys" by (meson split_list)
  have "x \<noteq> (e_tick e, k)" if "x \<in> set (xs @ ys)" for x
    using l that by (auto simp: ticked_def bt_ok_def s sorted_wrt_append)
  moreover have "fst x = e_tick e" if "x \<in> set (xs @ ys)" "snd x = k" for x
    using ticked_entry [OF l, of "fst x" k] that e by (auto simp: s)
  ultimately have "\<forall>x \<in> set (xs @ ys). snd x \<noteq> k" by (metis prod.collapse)
  with s bt_remove_mid [of xs "e_tick e" k ys] l show ?thesis by (auto simp: ticked_def)
qed

lemma cost_in_upd: "snd x \<noteq> k \<Longrightarrow> cost_in (m(k := v)) x = cost_in m x"
  by (simp add: cost_in_def)

text \<open>Dropping a key from the map and the recency index, the step both removals share.\<close>

lemma ticked_drop:
  assumes l: "ticked l" and e: "entries l k = Some e"
  defines "l' \<equiv> l\<lparr>entries := (entries l)(k := None), total_bytes := total_bytes l - e_nbytes e,
                 by_tick := bt_remove (e_tick e) (by_tick l)\<rparr>"
  shows "ticked l'" and "bt_remove (e_tick e) (by_tick l) = filter (\<lambda>x. snd x \<noteq> k) (by_tick l)"
proof -
  from ticked_split [OF l e] obtain xs ys where
    s: "by_tick l = xs @ (e_tick e, k) # ys" and r: "bt_remove (e_tick e) (by_tick l) = xs @ ys"
    and k: "\<forall>x \<in> set (xs @ ys). snd x \<noteq> k" by blast
  from k show f: "bt_remove (e_tick e) (by_tick l) = filter (\<lambda>x. snd x \<noteq> k) (by_tick l)"
    by (simp add: r) (simp add: s)
  have "map (cost_in ((entries l)(k := None))) (xs @ ys) = map (cost_in (entries l)) (xs @ ys)"
    using k by (intro map_cong refl cost_in_upd) auto
  then have "sum_list (map (cost_in ((entries l)(k := None))) (xs @ ys)) =
      sum_list (map (cost_in (entries l)) (xs @ ys))" by (rule arg_cong)
  moreover have "total_bytes l = sum_list (map (cost_in (entries l)) (xs @ ys)) + e_nbytes e"
    using l e by (simp add: ticked_def s cost_in_def)
  ultimately have "total_bytes l' = sum_list (map (cost_in (entries l')) (by_tick l'))"
    unfolding l'_def r by simp
  moreover have "(t, j) \<in> set (by_tick l') \<longleftrightarrow> (\<exists>e. entries l' j = Some e \<and> e_tick e = t)" for t j
    using ticked_entry [OF l, of t j] by (auto simp: l'_def f)
  moreover have "bt_ok (by_tick l')"
    using l by (simp add: l'_def r bt_ok_mid [of xs "(e_tick e, k)" ys] ticked_def flip: s)
  ultimately show "ticked l'"
    using l by (auto simp: ticked_def l'_def f)
qed

lemma ticked_absent: "ticked l \<Longrightarrow> entries l k = None \<Longrightarrow> filter (\<lambda>x. snd x \<noteq> k) (by_tick l) = by_tick l"
  by (intro filter_True) (force simp: ticked_def)

lemma entries_remove_key [simp]: "entries (remove_key k l) = (entries l)(k := None)"
  by (auto simp: remove_key_def split: option.splits)

lemma by_tick_remove_key:
  "ticked l \<Longrightarrow> by_tick (remove_key k l) = filter (\<lambda>x. snd x \<noteq> k) (by_tick l)"
  by (auto simp: remove_key_def ticked_drop(2) ticked_absent split: option.splits)

lemma remove_key_same [simp]:
  "max_total (remove_key k l) = max_total l" "lru_tick (remove_key k l) = lru_tick l"
  by (auto simp: remove_key_def split: option.splits)

lemma ticked_by_path: "ticked (l\<lparr>by_path := b\<rparr>) = ticked l"
  by (simp add: ticked_def)

lemma ticked_remove_key: "ticked l \<Longrightarrow> ticked (remove_key k l)"
proof (cases "entries l k")
  case (Some e)
  assume "ticked l"
  from ticked_drop(1) [OF this Some] show ?thesis
    using Some by (simp add: remove_key_def ticked_def)
qed (simp add: remove_key_def)

lemma pathed_remove_key:
  assumes "pathed UNIV l"
  shows "pathed UNIV (remove_key k l)"
  unfolding pathed_def
proof
  fix p
  from assms have l: "ranges_ok (by_path l p) (\<lambda>rk. (p, rk) \<in> dom (entries l))"
    by (simp add: pathed_def)
  show "ranges_ok (by_path (remove_key k l) p) (\<lambda>rk. (p, rk) \<in> dom (entries (remove_key k l)))"
  proof (cases "entries l k")
    case None
    then have "remove_key k l = l" by (simp add: remove_key_def)
    with l show ?thesis by (simp only:)
  next
    case (Some e)
    obtain q r where k: "k = (q, r)" by fastforce
    show ?thesis
    proof (cases "q = p")
      case True
      with l Some k obtain v where v: "by_path l p = Some v"
        by (cases "by_path l p") (auto simp: ranges_ok_def)
      have "by_path (remove_key k l) p = (let v' = filter (\<lambda>x. x \<noteq> r) v in if v' = [] then None else Some v')"
        using v Some k True by (simp add: remove_key_def Let_def)
      with l v k True show ?thesis
        by (auto simp: ranges_ok_def Let_def filter_empty_conv)
    next
      case False
      then have "by_path (remove_key k l) p = by_path l p"
        using Some k by (auto simp: remove_key_def Let_def split: option.splits)
      with l k False show ?thesis by (simp add: ranges_ok_def split: option.splits)
    qed
  qed
qed

lemma sized_remove_key: "sized l \<Longrightarrow> sized (remove_key k l)"
  by (simp add: sized_def)

lemma total_remove_key: "total_bytes (remove_key k l) \<le> total_bytes l"
  by (auto simp: remove_key_def split: option.splits)

lemmas remove_key_inv = ticked_remove_key pathed_remove_key sized_remove_key

lemma lru_inv_remove_key: "lru_inv l \<Longrightarrow> lru_inv (remove_key k l)"
  using total_remove_key [of k l] by (auto simp: lru_inv_def remove_key_inv)

section \<open>The abstract cache\<close>

text \<open>
  What the LRU promises: a list of cached reads from the least to the most recently used. A hit
  moves its entry to the end, an insertion appends and then drops the oldest entries until the
  rest fits the budget, a write to a path drops the entries of that path.
\<close>

type_synonym ('m, 'a) recency = "(cache_key \<times> ('m, 'a) entry) list"

definition lru_list :: "('m, 'a) lru \<Rightarrow> ('m, 'a) recency" where
  "lru_list l = map (\<lambda>(t, k). (k, (the (entries l k))\<lparr>e_tick := 0\<rparr>)) (by_tick l)"

definition spec_size :: "('m, 'a) recency \<Rightarrow> nat" where
  "spec_size xs = sum_list (map (\<lambda>(k, e). e_nbytes e) xs)"

fun spec_shrink :: "nat \<Rightarrow> ('m, 'a) recency \<Rightarrow> ('m, 'a) recency" where
  "spec_shrink b [] = []"
| "spec_shrink b (x # xs) = (if spec_size (x # xs) \<le> b then x # xs else spec_shrink b xs)"

definition spec_drop :: "cache_key \<Rightarrow> ('m, 'a) recency \<Rightarrow> ('m, 'a) recency" where
  "spec_drop k xs = filter (\<lambda>x. fst x \<noteq> k) xs"

definition spec_get :: "cache_key \<Rightarrow> ('m, 'a) recency \<Rightarrow> ('m, 'a) entry option \<times> ('m, 'a) recency" where
  "spec_get k xs =
     (case map_of xs k of None \<Rightarrow> (None, xs) | Some e \<Rightarrow> (Some e, spec_drop k xs @ [(k, e)]))"

definition spec_insert :: "nat \<Rightarrow> cache_key \<Rightarrow> ('m, 'a) entry \<Rightarrow> ('m, 'a) recency \<Rightarrow> ('m, 'a) recency" where
  "spec_insert b k e xs =
     (if e_nbytes e > b then xs else spec_shrink b (spec_drop k xs @ [(k, e)]))"

definition spec_evict :: "path \<Rightarrow> ('m, 'a) recency \<Rightarrow> ('m, 'a) recency" where
  "spec_evict p xs = filter (\<lambda>x. fst (fst x) \<noteq> p) xs"

lemma spec_shrink_fits: "spec_size xs \<le> b \<Longrightarrow> spec_shrink b xs = xs"
  by (cases xs) auto

lemma lru_list_size: "ticked l \<Longrightarrow> spec_size (lru_list l) = total_bytes l"
proof -
  assume l: "ticked l"
  have "(\<lambda>(k, e). e_nbytes e) (case x of (t, k) \<Rightarrow> (k, (the (entries l k))\<lparr>e_tick := 0\<rparr>)) =
      cost_in (entries l) x" if "x \<in> set (by_tick l)" for x
    using ticked_entry [OF l, of "fst x" "snd x"] that by (auto simp: cost_in_def split: prod.splits)
  then have "map (\<lambda>(k, e). e_nbytes e) (lru_list l) = map (cost_in (entries l)) (by_tick l)"
    unfolding lru_list_def map_map comp_def by (intro map_cong refl)
  then show ?thesis using l by (simp only: spec_size_def ticked_def)
qed

lemma lru_list_remove_key: "ticked l \<Longrightarrow> lru_list (remove_key k l) = spec_drop k (lru_list l)"
  by (auto simp: lru_list_def spec_drop_def by_tick_remove_key filter_map comp_def
      split_beta intro!: map_cong)

lemma map_of_lru_list:
  assumes l: "ticked l"
  shows "map_of (lru_list l) k = map_option (\<lambda>e. e\<lparr>e_tick := 0\<rparr>) (entries l k)"
proof (cases "entries l k")
  case None
  then have "k \<notin> fst ` set (lru_list l)"
    using ticked_entry [OF l] by (force simp: lru_list_def)
  with None show ?thesis by (simp add: map_of_eq_None_iff)
next
  case (Some e)
  from ticked_split [OF l Some] obtain xs ys where
    s: "by_tick l = xs @ (e_tick e, k) # ys" and "\<forall>x \<in> set (xs @ ys). snd x \<noteq> k" by blast
  then have "map_of (map (\<lambda>(t, k). (k, (the (entries l k))\<lparr>e_tick := 0\<rparr>)) xs) k = None"
    by (force simp: map_of_eq_None_iff)
  with Some show ?thesis by (simp add: lru_list_def s map_add_def)
qed

section \<open>The budget\<close>

text \<open>
  The invariant of the eviction loop: \<open>k\<close> is the entry just inserted, the newest, and it fits.
\<close>

definition evict_inv :: "cache_key \<Rightarrow> ('m, 'a) entry \<Rightarrow> ('m, 'a) lru \<Rightarrow> ('m, 'a) lru \<Rightarrow> bool" where
  "evict_inv k e l0 l \<longleftrightarrow> ticked l \<and> pathed UNIV l \<and> sized l \<and> entries l k = Some e \<and>
     e_tick e = lru_tick l \<and> e_nbytes e \<le> max_total l \<and> max_total l = max_total l0 \<and>
     entries l \<subseteq>\<^sub>m entries l0 \<and>
     spec_shrink (max_total l0) (lru_list l) = spec_shrink (max_total l0) (lru_list l0)"

lemma evict_inv_victim:
  assumes l: "evict_inv k e l0 l" and over: "max_total l < total_bytes l"
  shows "\<exists>t v xs. by_tick l = (t, v) # xs \<and> v \<noteq> k"
proof -
  from l have t: "ticked l" and k: "entries l k = Some e" and "e_nbytes e \<le> max_total l"
    and top: "e_tick e = lru_tick l"
    by (simp_all add: evict_inv_def)
  from ticked_split [OF t k] obtain xs ys where s: "by_tick l = xs @ (e_tick e, k) # ys"
    and other: "\<forall>x \<in> set (xs @ ys). snd x \<noteq> k" by blast
  have "ys = []"
    using t unfolding ticked_def s top by (cases ys) (fastforce simp: bt_ok_def sorted_wrt_append)+
  moreover have "xs \<noteq> []"
  proof
    assume "xs = []"
    with \<open>ys = []\<close> s t k have "total_bytes l = e_nbytes e" by (simp add: ticked_def cost_in_def)
    with over \<open>e_nbytes e \<le> max_total l\<close> show False by simp
  qed
  ultimately show ?thesis using s other by (cases xs) auto
qed

lemma lru_list_tl:
  assumes l: "ticked l" and v: "by_tick l = (t, v) # xs"
  shows "lru_list (remove_key v l) = tl (lru_list l)"
proof -
  have "(t, v) \<in> set (by_tick l)" by (simp add: v)
  then obtain e where e: "entries l v = Some e" "e_tick e = t" using ticked_entry [OF l] by blast
  from ticked_split [OF l e(1)] obtain as bs where
    s: "by_tick l = as @ (t, v) # bs" and o: "\<forall>x \<in> set (as @ bs). snd x \<noteq> v" using e(2) by blast
  then have "as = []" by (cases as) (auto simp: v)
  with s o v have "\<forall>x \<in> set xs. snd x \<noteq> v" by auto
  then have "filter (\<lambda>x. snd x \<noteq> v) (by_tick l) = xs" by (auto simp: v intro!: filter_True)
  with \<open>\<forall>x \<in> set xs. snd x \<noteq> v\<close> show ?thesis
    by (auto simp: lru_list_def by_tick_remove_key [OF l] v)
qed

lemma evict_loop:
  assumes "evict_inv k e l l"
  shows "\<exists>l'. loopM evict_step l = Some l' \<and> evict_inv k e l l' \<and> total_bytes l' \<le> max_total l'"
proof (rule loopM_rule [where I = "evict_inv k e l" and m = "\<lambda>l. length (by_tick l)"])
  show "evict_inv k e l l" by (rule assms)
  fix l1 assume I: "evict_inv k e l l1"
  show "(\<exists>s'. evict_step l1 = Some (Inl s') \<and> evict_inv k e l s' \<and> length (by_tick s') < length (by_tick l1)) \<or>
        (\<exists>r. evict_step l1 = Some (Inr r) \<and> evict_inv k e l r \<and> total_bytes r \<le> max_total r)"
  proof (cases "total_bytes l1 \<le> max_total l1")
    case True
    with I show ?thesis by (simp add: evict_step_def)
  next
    case False
    with evict_inv_victim [OF I] obtain t v xs where v: "by_tick l1 = (t, v) # xs" "v \<noteq> k" by auto
    let ?l = "remove_key v l1"
    have t: "ticked l1" using I by (simp add: evict_inv_def)
    have "spec_drop v (lru_list l1) = tl (lru_list l1)"
      using lru_list_tl [OF t v(1)] by (simp add: lru_list_remove_key t)
    then have "spec_shrink (max_total l1) (lru_list l1) = spec_shrink (max_total l1) (lru_list ?l)"
      using False lru_list_size [OF t] by (simp add: lru_list_remove_key t) (simp add: lru_list_def v(1))
    then have "evict_inv k e l ?l"
      using I v(2) by (auto simp: evict_inv_def remove_key_inv map_le_def split: if_splits)
    moreover have "length (by_tick ?l) < length (by_tick l1)"
      using I by (simp add: by_tick_remove_key evict_inv_def v(1) le_imp_less_Suc)
    ultimately show ?thesis using False v(1) by (simp add: evict_step_def)
  qed
qed

lemma ticked_snoc: "ticked l \<Longrightarrow> bt_insert (lru_tick l + 1) k (by_tick l) = by_tick l @ [(lru_tick l + 1, k)]"
  by (intro bt_insert_last) (force simp: ticked_def)

lemma ticked_put_entry:
  assumes l: "ticked l" and k: "entries l k = None"
  shows "ticked (put_entry k bytes meta attrs rng l)"
proof -
  let ?l = "put_entry k bytes meta attrs rng l"
  have new: "snd x \<noteq> k" if "x \<in> set (by_tick l)" for x
    using ticked_entry [OF l, of "fst x" "snd x"] that k by auto
  have le: "\<forall>x \<in> set (by_tick l). fst x < lru_tick l + 1" using l by (force simp: ticked_def)
  have bt: "by_tick ?l = by_tick l @ [(lru_tick l + 1, k)]"
    by (simp add: put_entry_def Let_def ticked_snoc [OF l, simplified])
  have "map (cost_in (entries ?l)) (by_tick l) = map (cost_in (entries l)) (by_tick l)"
    using new by (intro map_cong refl) (simp add: put_entry_def Let_def cost_in_upd)
  then have "sum_list (map (cost_in (entries ?l)) (by_tick l)) = total_bytes l"
    using l by (simp only: ticked_def)
  then have "total_bytes ?l = sum_list (map (cost_in (entries ?l)) (by_tick ?l))"
    by (simp add: bt) (simp add: put_entry_def Let_def cost_in_def)
  moreover have "(t, j) \<in> set (by_tick ?l) \<longleftrightarrow> (\<exists>e. entries ?l j = Some e \<and> e_tick e = t)" for t j
    using ticked_entry [OF l, of t j] new [of "(t, j)"] k
    by (auto simp: bt) (auto simp: put_entry_def Let_def split: if_splits)
  moreover have "bt_ok (by_tick ?l)"
    using l le by (simp add: bt bt_ok_snoc ticked_def)
  moreover have "\<forall>x \<in> set (by_tick ?l). fst x \<le> lru_tick ?l"
    using le by (simp add: bt) (auto simp: put_entry_def Let_def)
  ultimately show ?thesis unfolding ticked_def by blast
qed

lemma pathed_put_entry:
  assumes l: "pathed UNIV l" and k: "entries l k = None"
  shows "pathed UNIV (put_entry k bytes meta attrs rng l)"
  unfolding pathed_def
proof
  fix p
  obtain q r where kq: "k = (q, r)" by fastforce
  from l have "ranges_ok (by_path l p) (\<lambda>rk. (p, rk) \<in> dom (entries l))" by (simp add: pathed_def)
  with k kq show "ranges_ok (by_path (put_entry k bytes meta attrs rng l) p)
      (\<lambda>rk. (p, rk) \<in> dom (entries (put_entry k bytes meta attrs rng l)))"
    by (cases "by_path l p") (auto simp: put_entry_def Let_def ranges_ok_def split: option.splits)
qed

definition new_entry :: "u8 list \<Rightarrow> 'm \<Rightarrow> 'a \<Rightarrow> nat \<times> nat \<Rightarrow> nat \<Rightarrow> ('m, 'a) entry" where
  "new_entry bytes meta attrs rng t =
     \<lparr>e_bytes = bytes, e_meta = meta, e_attributes = attrs, e_range = rng, e_tick = t,
      e_nbytes = max (length bytes) ENTRY_OVERHEAD\<rparr>"

lemma lru_list_put_entry:
  assumes l: "ticked l" and k: "entries l k = None"
  shows "lru_list (put_entry k bytes meta attrs rng l) =
    lru_list l @ [(k, new_entry bytes meta attrs rng 0)]"
proof -
  have "snd x \<noteq> k" if "x \<in> set (by_tick l)" for x
    using ticked_entry [OF l, of "fst x" "snd x"] that k by auto
  then show ?thesis
    by (auto simp: lru_list_def put_entry_def Let_def ticked_snoc [OF l, simplified] new_entry_def)
qed

lemma lru_insert_spec:
  assumes l: "lru_inv l"
  shows "\<exists>l'. lru_insert p rk bytes meta attrs rng l = Some l' \<and> lru_inv l' \<and>
    lru_list l' = spec_insert (max_total l) (p, rk) (new_entry bytes meta attrs rng 0) (lru_list l) \<and>
    max_total l' = max_total l \<and>
    (\<forall>k e. entries l' k = Some e \<longrightarrow>
       (if k = (p, rk) \<and> max (length bytes) ENTRY_OVERHEAD \<le> max_total l
        then \<exists>t. e = new_entry bytes meta attrs rng t else entries l k = Some e)) \<and>
    (max (length bytes) ENTRY_OVERHEAD \<le> max_total l \<longrightarrow>
       (\<exists>t. entries l' (p, rk) = Some (new_entry bytes meta attrs rng t)))"
proof (cases "max (length bytes) ENTRY_OVERHEAD \<le> max_total l")
  case False
  with l show ?thesis by (auto simp: lru_insert_def spec_insert_def new_entry_def)
next
  case True
  let ?k = "(p, rk)" and ?l1 = "remove_key (p, rk) l"
  let ?l2 = "put_entry ?k bytes meta attrs rng ?l1" and ?e = "new_entry bytes meta attrs rng (lru_tick l + 1)"
  have t: "ticked ?l1" "pathed UNIV ?l1" "sized ?l1"
    using l by (simp_all add: lru_inv_def remove_key_inv)
  have e2: "entries ?l2 = (entries ?l1)(?k \<mapsto> ?e)"
    by (simp add: put_entry_def Let_def new_entry_def)
  have "sized ?l2" using t(3) by (auto simp: sized_def e2 new_entry_def split: if_splits)
  then have "evict_inv ?k ?e ?l2 ?l2"
    using True ticked_put_entry [OF t(1)] pathed_put_entry [OF t(2)]
    by (auto simp: evict_inv_def e2) (auto simp: put_entry_def Let_def new_entry_def)
  from evict_loop [OF this] obtain l' where l': "loopM evict_step ?l2 = Some l'"
    "evict_inv ?k ?e ?l2 l'" "total_bytes l' \<le> max_total l'" by blast
  have m2: "max_total ?l2 = max_total l" by (simp add: put_entry_def Let_def)
  have "lru_list ?l2 = spec_drop ?k (lru_list l) @ [(?k, new_entry bytes meta attrs rng 0)]"
    using lru_list_put_entry [OF t(1)] l by (simp add: lru_list_remove_key lru_inv_def)
  moreover have "lru_list l' = spec_shrink (max_total l) (lru_list ?l2)"
    using l'(2,3) lru_list_size [of l'] by (simp add: evict_inv_def m2 spec_shrink_fits)
  ultimately have "lru_list l' = spec_insert (max_total l) ?k (new_entry bytes meta attrs rng 0) (lru_list l)"
    using True by (auto simp: spec_insert_def new_entry_def)
  moreover have "if k = ?k then \<exists>t. e = new_entry bytes meta attrs rng t else entries l k = Some e"
    if "entries l' k = Some e" for k e
  proof -
    from l'(2) that have "entries ?l2 k = Some e" unfolding evict_inv_def map_le_def by (metis domI)
    then show ?thesis by (auto simp: e2 split: if_splits)
  qed
  ultimately show ?thesis
    using True l' m2 by (auto simp: lru_insert_def evict_inv_def lru_inv_def)
qed

text \<open>A hit moves the entry to the end of the recency order and changes nothing else.\<close>

lemma lru_get_spec:
  assumes l: "lru_inv l" and g: "lru_get p rk l = (r, l')"
  shows "lru_inv l'" and "max_total l' = max_total l"
    and "map_option (\<lambda>e. e\<lparr>e_tick := 0\<rparr>) r = fst (spec_get (p, rk) (lru_list l))"
    and "lru_list l' = snd (spec_get (p, rk) (lru_list l))"
    and "map_option (\<lambda>e. e\<lparr>e_tick := 0\<rparr>) \<circ> entries l' = map_option (\<lambda>e. e\<lparr>e_tick := 0\<rparr>) \<circ> entries l"
proof -
  let ?k = "(p, rk)"
  have t: "ticked l" using l by (simp add: lru_inv_def)
  have "lru_inv l' \<and> max_total l' = max_total l \<and>
    map_option (\<lambda>e. e\<lparr>e_tick := 0\<rparr>) r = fst (spec_get ?k (lru_list l)) \<and>
    lru_list l' = snd (spec_get ?k (lru_list l)) \<and>
    map_option (\<lambda>e. e\<lparr>e_tick := 0\<rparr>) \<circ> entries l' = map_option (\<lambda>e. e\<lparr>e_tick := 0\<rparr>) \<circ> entries l"
  proof (cases "entries l ?k")
    case None
    then have r: "r = None" and l': "l' = l\<lparr>misses := misses l + 1\<rparr>"
      using g by (simp_all add: lru_get_def)
    have "lru_list l' = lru_list l" by (simp add: l' lru_list_def)
    moreover have "lru_inv l'" using l by (simp add: l' lru_inv_def ticked_def pathed_def sized_def)
    ultimately show ?thesis using None r l' by (simp add: spec_get_def map_of_lru_list [OF t])
  next
    case (Some e)
    let ?nt = "lru_tick l + 1"
    from ticked_split [OF t Some] obtain xs ys where s: "by_tick l = xs @ (e_tick e, ?k) # ys"
      and r: "bt_remove (e_tick e) (by_tick l) = xs @ ys" and o: "\<forall>x \<in> set (xs @ ys). snd x \<noteq> ?k"
      by blast
    have le: "\<forall>x \<in> set (xs @ ys). fst x < ?nt" using t by (force simp: ticked_def s)
    have r': "r = Some (e\<lparr>e_tick := ?nt\<rparr>)"
      and l': "l' = l\<lparr>by_tick := (xs @ ys) @ [(?nt, ?k)], lru_tick := ?nt,
                 entries := (entries l)(?k \<mapsto> e\<lparr>e_tick := ?nt\<rparr>), hits := hits l + 1\<rparr>"
      using g Some bt_insert_last [OF le] by (auto simp: lru_get_def Let_def r)
    have "map (cost_in (entries l')) (xs @ ys) = map (cost_in (entries l)) (xs @ ys)"
      using o by (intro map_cong refl) (auto simp: l' cost_in_def)
    then have "sum_list (map (cost_in (entries l')) (xs @ ys)) = sum_list (map (cost_in (entries l)) (xs @ ys))"
      by (rule arg_cong)
    moreover have "cost_in (entries l') (?nt, ?k) = cost_in (entries l) (e_tick e, ?k)"
      by (simp add: l' cost_in_def Some)
    ultimately have "total_bytes l' = sum_list (map (cost_in (entries l')) (by_tick l'))"
      using t by (simp add: ticked_def s) (simp add: l')
    moreover have "bt_ok (by_tick l')"
      using t le bt_ok_snoc [of "xs @ ys" ?nt ?k] bt_ok_mid [of xs "(e_tick e, ?k)" ys]
      by (auto simp: ticked_def l' s [symmetric])
    moreover have "\<forall>x \<in> set (by_tick l'). fst x \<le> lru_tick l'"
      using le less_imp_le [of _ ?nt] by (simp add: l') (metis le_SucI less_Suc_eq_le)
    moreover have "(t, j) \<in> set (by_tick l') \<longleftrightarrow> (\<exists>e. entries l' j = Some e \<and> e_tick e = t)" for t j
    proof (cases "j = ?k")
      case True
      then have "(t, j) \<notin> set (xs @ ys)" using o by (metis snd_conv)
      with True show ?thesis by (auto simp: l')
    next
      case False
      then show ?thesis using ticked_entry [OF t, of t j] by (simp add: l' s)
    qed
    ultimately have "ticked l'" unfolding ticked_def by blast
    then have "lru_inv l'"
      using l Some by (auto simp: lru_inv_def pathed_def sized_def l' insert_absorb domI)
    moreover have "spec_drop ?k (lru_list l) = map (\<lambda>(t, k). (k, (the (entries l k))\<lparr>e_tick := 0\<rparr>)) (xs @ ys)"
    proof -
      have "filter (\<lambda>x. snd x \<noteq> ?k) xs = xs" "filter (\<lambda>x. snd x \<noteq> ?k) ys = ys"
        using o by (simp_all add: filter_True)
      then show ?thesis by (simp add: spec_drop_def lru_list_def s filter_map comp_def split_beta)
    qed
    moreover have "map (\<lambda>(t, k). (k, (the (entries l' k))\<lparr>e_tick := 0\<rparr>)) (xs @ ys) =
        map (\<lambda>(t, k). (k, (the (entries l k))\<lparr>e_tick := 0\<rparr>)) (xs @ ys)"
      using Some by (intro map_cong refl) (auto simp: l')
    moreover have "lru_list l' = map (\<lambda>(t, k). (k, (the (entries l' k))\<lparr>e_tick := 0\<rparr>)) (xs @ ys) @
        [(?k, e\<lparr>e_tick := 0\<rparr>)]" by (simp add: lru_list_def l')
    ultimately have "lru_list l' = spec_drop ?k (lru_list l) @ [(?k, e\<lparr>e_tick := 0\<rparr>)]" "lru_inv l'"
      by (simp_all only:)
    moreover have "spec_get ?k (lru_list l) =
        (Some (e\<lparr>e_tick := 0\<rparr>), spec_drop ?k (lru_list l) @ [(?k, e\<lparr>e_tick := 0\<rparr>)])"
      by (simp add: spec_get_def map_of_lru_list [OF t] Some)
    moreover have "max_total l' = max_total l" by (simp add: l')
    moreover have "map_option (\<lambda>e. e\<lparr>e_tick := 0\<rparr>) \<circ> entries l' = map_option (\<lambda>e. e\<lparr>e_tick := 0\<rparr>) \<circ> entries l"
      by (auto simp: l' fun_eq_iff Some)
    ultimately show ?thesis using r' by simp
  qed
  then show "lru_inv l'" "max_total l' = max_total l"
    "map_option (\<lambda>e. e\<lparr>e_tick := 0\<rparr>) r = fst (spec_get (p, rk) (lru_list l))"
    "lru_list l' = snd (spec_get (p, rk) (lru_list l))"
    "map_option (\<lambda>e. e\<lparr>e_tick := 0\<rparr>) \<circ> entries l' = map_option (\<lambda>e. e\<lparr>e_tick := 0\<rparr>) \<circ> entries l"
    by blast+
qed

lemma evict_range_alt: "evict_range p rk l = (remove_key (p, rk) l)\<lparr>by_path := by_path l\<rparr>"
  by (auto simp: evict_range_def remove_key_def split: option.splits)

lemma evict_ranges:
  assumes "ticked l"
  shows "ticked (fold (evict_range p) rks l) \<and>
    entries (fold (evict_range p) rks l) = (\<lambda>k. if fst k = p \<and> snd k \<in> set rks then None else entries l k) \<and>
    lru_list (fold (evict_range p) rks l) = filter (\<lambda>x. \<not> (fst (fst x) = p \<and> snd (fst x) \<in> set rks)) (lru_list l) \<and>
    by_path (fold (evict_range p) rks l) = by_path l \<and> max_total (fold (evict_range p) rks l) = max_total l \<and>
    total_bytes (fold (evict_range p) rks l) \<le> total_bytes l"
  using assms
proof (induction rks arbitrary: l)
  case Nil
  then show ?case by simp
next
  case (Cons rk rks)
  let ?l = "evict_range p rk l"
  have t: "ticked ?l" using Cons.prems by (simp add: evict_range_alt ticked_by_path ticked_remove_key)
  have "lru_list ?l = lru_list (remove_key (p, rk) l)" by (simp add: evict_range_alt lru_list_def)
  then have "lru_list ?l = filter (\<lambda>x. fst x \<noteq> (p, rk)) (lru_list l)"
    by (simp add: lru_list_remove_key Cons.prems spec_drop_def)
  moreover have "entries ?l = (entries l)((p, rk) := None)" "by_path ?l = by_path l"
    "max_total ?l = max_total l" "total_bytes ?l \<le> total_bytes l"
    using total_remove_key [of "(p, rk)" l] by (simp_all add: evict_range_alt)
  ultimately show ?case
    using Cons.IH [OF t] by (auto simp: fun_eq_iff intro!: filter_cong)
qed

text \<open>A write to \<open>p\<close> drops the cached reads of \<open>p\<close> and no other.\<close>

lemma evict_path_spec:
  assumes l: "lru_inv l"
  shows "lru_inv (evict_path p l)" and "max_total (evict_path p l) = max_total l"
    and "entries (evict_path p l) = (\<lambda>k. if fst k = p then None else entries l k)"
    and "lru_list (evict_path p l) = spec_evict p (lru_list l)"
proof -
  let ?l = "evict_path p l"
  have t: "ticked l" and rk: "ranges_ok (by_path l p) (\<lambda>rk. (p, rk) \<in> dom (entries l))"
    using l by (simp_all add: lru_inv_def pathed_def)
  have keys: "entries l (fst x) \<noteq> None" if "x \<in> set (lru_list l)" for x
    using that ticked_entry [OF t] by (force simp: lru_list_def)
  have "ticked ?l \<and> entries ?l = (\<lambda>k. if fst k = p then None else entries l k) \<and>
    lru_list ?l = spec_evict p (lru_list l) \<and> by_path ?l = (by_path l)(p := None) \<and>
    max_total ?l = max_total l \<and> total_bytes ?l \<le> total_bytes l"
  proof (cases "by_path l p")
    case None
    with rk have n: "entries l (p, rk) = None" for rk by (auto simp: ranges_ok_def)
    have "fst (fst x) \<noteq> p" if "x \<in> set (lru_list l)" for x
      using keys [OF that] n by (metis prod.collapse)
    with None n t show ?thesis
      by (auto simp: evict_path_def fun_eq_iff spec_evict_def intro!: filter_True [symmetric])
  next
    case (Some v)
    let ?l0 = "l\<lparr>by_path := (by_path l)(p := None)\<rparr>"
    have "ticked ?l0" using t by (simp add: ticked_by_path)
    note e = evict_ranges [OF this, of p v]
    have v: "entries l (p, rk) = None" if "rk \<notin> set v" for rk
      using rk Some that by (auto simp: ranges_ok_def)
    have "snd (fst x) \<in> set v" if "x \<in> set (lru_list l)" "fst (fst x) = p" for x
      using keys [OF that(1)] v that(2) by (metis prod.collapse)
    then have "filter (\<lambda>x. \<not> (fst (fst x) = p \<and> snd (fst x) \<in> set v)) (lru_list l) = spec_evict p (lru_list l)"
      unfolding spec_evict_def by (intro filter_cong) auto
    moreover have "lru_list ?l0 = lru_list l" by (simp add: lru_list_def)
    ultimately show ?thesis
      using e Some v by (auto simp: evict_path_def fun_eq_iff)
  qed
  note e = this
  then show "max_total ?l = max_total l" "entries ?l = (\<lambda>k. if fst k = p then None else entries l k)"
    "lru_list ?l = spec_evict p (lru_list l)"
    by blast+
  have "ranges_ok (by_path ?l q) (\<lambda>rk. (q, rk) \<in> dom (entries ?l))" for q
    using l e by (cases "q = p") (simp_all add: lru_inv_def pathed_def ranges_ok_def dom_def)
  with l e show "lru_inv ?l" by (auto simp: lru_inv_def pathed_def sized_def)
qed

lemma lru_list_overhead:
  assumes l: "lru_inv l"
  shows "ENTRY_OVERHEAD * length (lru_list l) \<le> total_bytes l"
proof -
  have t: "ticked l" and z: "sized l" using l by (simp_all add: lru_inv_def)
  have "ENTRY_OVERHEAD \<le> e_nbytes (snd x)" if "x \<in> set (lru_list l)" for x
    using that z ticked_entry [OF t] by (fastforce simp: lru_list_def sized_def)
  then have "ENTRY_OVERHEAD * length (lru_list l) \<le> spec_size (lru_list l)"
    unfolding spec_size_def
    using sum_list_mono [of "lru_list l" "\<lambda>_. ENTRY_OVERHEAD" "\<lambda>(k, e). e_nbytes e"]
    by (simp add: sum_list_triv case_prod_beta' mult.commute)
  then show ?thesis by (simp add: lru_list_size [OF t])
qed

section \<open>Property\<close>

text \<open>
  The LRU with its map, recency index and path index implements the
  recency-ordered list: a lookup returns what the list holds and moves it to the end, an insertion
  returns and drops the oldest entries until the rest fits the budget, and a write to a path drops
  exactly the entries of that path. The consistency of the indexes is kept by all three.
\<close>

theorem lru_refines:
  assumes "lru_inv l"
  shows "(let (r, l') = lru_get p rk l in
            lru_inv l' \<and> (map_option (\<lambda>e. e\<lparr>e_tick := 0\<rparr>) r, lru_list l') = spec_get (p, rk) (lru_list l)) \<and>
         (\<exists>l'. lru_insert p rk bytes meta attrs rng l = Some l' \<and> lru_inv l' \<and>
            lru_list l' = spec_insert (max_total l) (p, rk) (new_entry bytes meta attrs rng 0) (lru_list l)) \<and>
         lru_inv (evict_path p l) \<and> lru_list (evict_path p l) = spec_evict p (lru_list l)"
  using lru_get_spec [OF assms, of p rk] lru_insert_spec [OF assms, of p rk bytes meta attrs rng]
    evict_path_spec [OF assms, of p]
  by (auto simp: Let_def split: prod.splits)

theorem lru_refines_witness:
  "lru_inv (lru_new 600 :: (nat, unit) lru) \<and>
   (let l = the (lru_insert ''a'' HeadKey [] 7 () (0, 0) (lru_new 600)) in
    lru_list l = spec_insert 600 (''a'', HeadKey) (new_entry [] (7::nat) () (0, 0) 0) [])"
proof -
  have i: "lru_inv (lru_new 600 :: (nat, unit) lru)"
    by (simp add: lru_new_def lru_inv_def ticked_def bt_ok_def pathed_def ranges_ok_def sized_def)
  from lru_refines [OF i, of "''a''" HeadKey "[]" 7 "()" "(0, 0)"] i show ?thesis
    by (auto simp: Let_def) (simp add: lru_new_def lru_list_def)
qed

end
