(* ===== verification/Caching_Store.thy ===== *)
theory Caching_Store
  imports Object_Cache
begin

text \<open>
  \<open>CachingObjectStore\<close> of \<open>pensieve-storage\<close> (\<open>cache.rs\<close>): the wrapper that serves reads from the
  LRU of \<open>Object_Cache\<close>, fills it on a miss and evicts a path when it is written.

  The wrapped store is a record of its operations on a state \<open>'s\<close>. What the wrapper relies on is
  \<open>store_laws\<close>, the behaviour the \<open>object_store\<close> interface documents: a write affects its
  destination only, and a write that fails leaves the object as it was. Locks are not poisoned
  (no operation under the lock panics), so the \<open>if let Ok(..) = lock()\<close> guards always hold.
\<close>

section \<open>Requests and results\<close>

datatype get_range = Bounded nat nat | Offset nat | Suffix nat

record get_options =
  if_match :: "string option"
  if_none_match :: "string option"
  if_modified_since :: "int option"
  if_unmodified_since :: "int option"
  get_range :: "get_range option"
  get_version :: "string option"
  get_head :: bool

text \<open>A \<open>GetResult\<close>: its body is a stream that fails or yields the bytes once collected.\<close>

record ('m, 'a, 'e) get_result =
  gr_payload :: "'e + u8 list"
  gr_meta :: 'm
  gr_range :: "nat \<times> nat"
  gr_attributes :: 'a

record ('s, 'm, 'a, 'e, 'o, 'r) object_store =
  os_get :: "'s \<Rightarrow> path \<Rightarrow> get_options \<Rightarrow> 'e + ('m, 'a, 'e) get_result"
  os_head :: "'s \<Rightarrow> path \<Rightarrow> 'e + 'm"
  os_put :: "'s \<Rightarrow> path \<Rightarrow> u8 list \<Rightarrow> 'o \<Rightarrow> ('e + 'r) \<times> 's"
  os_delete :: "'s \<Rightarrow> path \<Rightarrow> ('e + unit) \<times> 's"
  os_copy :: "'s \<Rightarrow> path \<Rightarrow> path \<Rightarrow> ('e + unit) \<times> 's"
  os_copy_if_not_exists :: "'s \<Rightarrow> path \<Rightarrow> path \<Rightarrow> ('e + unit) \<times> 's"

record ('s, 'm, 'a) caching_store =
  inner :: 's
  cs_lru :: "('m, 'a) lru"
  max_object :: nat

section \<open>The wrapper\<close>

definition caching_new :: "'s \<Rightarrow> nat \<Rightarrow> nat \<Rightarrow> ('s, 'm, 'a) caching_store" where
  "caching_new s max_tot max_obj =
     \<lparr>inner = s, cs_lru = lru_new (max max_tot 1), max_object = min max_obj (max max_tot 1)\<rparr>"

definition stats :: "('s, 'm, 'a) caching_store \<Rightarrow> nat \<times> nat \<times> nat" where
  "stats c = (hits (cs_lru c), misses (cs_lru c), total_bytes (cs_lru c))"

fun range_key_of :: "get_range option \<Rightarrow> range_key option" where
  "range_key_of None = Some FullKey"
| "range_key_of (Some (Bounded a b)) = Some (BoundedKey a b)"
| "range_key_of (Some (Offset _)) = None"
| "range_key_of (Some (Suffix _)) = None"

definition cacheable :: "get_options \<Rightarrow> bool" where
  "cacheable opts \<longleftrightarrow> if_match opts = None \<and> if_none_match opts = None \<and> if_modified_since opts = None \<and>
     if_unmodified_since opts = None \<and> get_version opts = None \<and> \<not> get_head opts"

definition get_result_from :: "u8 list \<Rightarrow> 'm \<Rightarrow> nat \<times> nat \<Rightarrow> 'a \<Rightarrow> ('m, 'a, 'e) get_result" where
  "get_result_from bytes meta rng attrs =
     \<lparr>gr_payload = Inr bytes, gr_meta = meta, gr_range = rng, gr_attributes = attrs\<rparr>"

definition with_evicted :: "path \<Rightarrow> ('s, 'm, 'a) caching_store \<Rightarrow> ('s, 'm, 'a) caching_store" where
  "with_evicted p c = c\<lparr>cs_lru := evict_path p (cs_lru c)\<rparr>"

definition put_opts :: "('s, 'm, 'a, 'e, 'o, 'r) object_store \<Rightarrow> path \<Rightarrow> u8 list \<Rightarrow> 'o
    \<Rightarrow> ('s, 'm, 'a) caching_store \<Rightarrow> ('e + 'r) \<times> ('s, 'm, 'a) caching_store" where
  "put_opts S p payload opts c =
     (let (r, s) = os_put S (inner c) p payload opts; c' = c\<lparr>inner := s\<rparr> in
      case r of Inl e \<Rightarrow> (Inl e, c') | Inr x \<Rightarrow> (Inr x, with_evicted p c'))"

text \<open>
  \<open>get_opts\<close> in its three parts: the lookup under the lock, the read of the wrapped store, and
  the admission of what was read. The lock is released in between.
\<close>

definition get_key :: "get_options \<Rightarrow> range_key option" where
  "get_key opts = (if cacheable opts then range_key_of (get_range opts) else None)"

definition get_lookup :: "path \<Rightarrow> get_options \<Rightarrow> ('s, 'm, 'a) caching_store
    \<Rightarrow> ('m, 'a, 'e) get_result option \<times> ('s, 'm, 'a) caching_store" where
  "get_lookup p opts c =
     (case get_key opts of
        None \<Rightarrow> (None, c)
      | Some rk \<Rightarrow>
          (let (hit, l) = lru_get p rk (cs_lru c) in
           (map_option (\<lambda>e. get_result_from (e_bytes e) (e_meta e) (e_range e) (e_attributes e)) hit,
            c\<lparr>cs_lru := l\<rparr>)))"

definition get_admit :: "path \<Rightarrow> get_options \<Rightarrow> ('m, 'a, 'e) get_result \<Rightarrow> ('s, 'm, 'a) caching_store
    \<Rightarrow> (('e + ('m, 'a, 'e) get_result) \<times> ('s, 'm, 'a) caching_store) option" where
  "get_admit p opts res c =
     (case get_key opts of
        None \<Rightarrow> Some (Inr res, c)
      | Some rk \<Rightarrow>
          (let len = snd (gr_range res) - fst (gr_range res) in
           if len > max_object c then Some (Inr res, c)
           else case gr_payload res of
             Inl e \<Rightarrow> Some (Inl e, c)
           | Inr bytes \<Rightarrow>
               (case lru_insert p rk bytes (gr_meta res) (gr_attributes res) (gr_range res) (cs_lru c) of
                  None \<Rightarrow> None
                | Some l \<Rightarrow> Some (Inr (get_result_from bytes (gr_meta res) (gr_range res) (gr_attributes res)),
                                c\<lparr>cs_lru := l\<rparr>))))"

definition get_opts :: "('s, 'm, 'a, 'e, 'o, 'r) object_store \<Rightarrow> path \<Rightarrow> get_options
    \<Rightarrow> ('s, 'm, 'a) caching_store
    \<Rightarrow> (('e + ('m, 'a, 'e) get_result) \<times> ('s, 'm, 'a) caching_store) option" where
  "get_opts S p opts c =
     (case get_lookup p opts c of
        (Some res, c') \<Rightarrow> Some (Inr res, c')
      | (None, c') \<Rightarrow>
          (case os_get S (inner c') p opts of
             Inl e \<Rightarrow> Some (Inl e, c')
           | Inr res \<Rightarrow> get_admit p opts res c'))"

text \<open>\<open>dflt\<close> is \<open>Attributes::default()\<close>.\<close>

definition cached_head :: "'a \<Rightarrow> ('s, 'm, 'a, 'e, 'o, 'r) object_store \<Rightarrow> path
    \<Rightarrow> ('s, 'm, 'a) caching_store \<Rightarrow> (('e + 'm) \<times> ('s, 'm, 'a) caching_store) option" where
  "cached_head dflt S p c =
     (case lru_get p HeadKey (cs_lru c) of
        (Some e, l) \<Rightarrow> Some (Inr (e_meta e), c\<lparr>cs_lru := l\<rparr>)
      | (None, l) \<Rightarrow>
          (case os_head S (inner c) p of
             Inl e \<Rightarrow> Some (Inl e, c\<lparr>cs_lru := l\<rparr>)
           | Inr meta \<Rightarrow>
               (case lru_insert p HeadKey [] meta dflt (0, 0) l of
                  None \<Rightarrow> None
                | Some l' \<Rightarrow> Some (Inr meta, c\<lparr>cs_lru := l'\<rparr>))))"

definition cached_delete :: "('s, 'm, 'a, 'e, 'o, 'r) object_store \<Rightarrow> path
    \<Rightarrow> ('s, 'm, 'a) caching_store \<Rightarrow> ('e + unit) \<times> ('s, 'm, 'a) caching_store" where
  "cached_delete S p c =
     (let (r, s) = os_delete S (inner c) p in (r, with_evicted p (c\<lparr>inner := s\<rparr>)))"

definition cached_copy :: "('s, 'm, 'a, 'e, 'o, 'r) object_store \<Rightarrow> path \<Rightarrow> path
    \<Rightarrow> ('s, 'm, 'a) caching_store \<Rightarrow> ('e + unit) \<times> ('s, 'm, 'a) caching_store" where
  "cached_copy S from to c =
     (let (r, s) = os_copy S (inner c) from to; c' = c\<lparr>inner := s\<rparr> in
      case r of Inl e \<Rightarrow> (Inl e, c') | Inr x \<Rightarrow> (Inr x, with_evicted to c'))"

definition cached_copy_if_not_exists :: "('s, 'm, 'a, 'e, 'o, 'r) object_store \<Rightarrow> path \<Rightarrow> path
    \<Rightarrow> ('s, 'm, 'a) caching_store \<Rightarrow> ('e + unit) \<times> ('s, 'm, 'a) caching_store" where
  "cached_copy_if_not_exists S from to c =
     (let (r, s) = os_copy_if_not_exists S (inner c) from to; c' = c\<lparr>inner := s\<rparr> in
      case r of Inl e \<Rightarrow> (Inl e, c') | Inr x \<Rightarrow> (Inr x, with_evicted to c'))"

text \<open>
  \<open>maybe_wrap\<close>: the two environment variables as parsed numbers (\<open>None\<close> when unset or not a
  number), with saturating multiplication. \<open>None\<close> is the unwrapped store.
\<close>

definition saturating_mul :: "nat \<Rightarrow> nat \<Rightarrow> nat" where
  "saturating_mul a b = min (a * b) (usize_size - 1)"

definition maybe_wrap :: "nat option \<Rightarrow> nat option \<Rightarrow> 's \<Rightarrow> ('s, 'm, 'a) caching_store option" where
  "maybe_wrap mem_mb max_object_kb s =
     (let mb = (case mem_mb of None \<Rightarrow> 0 | Some n \<Rightarrow> n) in
      if mb = 0 then None
      else Some (caching_new s (max (saturating_mul mb (1024 * 1024)) 1)
        (max (saturating_mul (case max_object_kb of None \<Rightarrow> 4096 | Some n \<Rightarrow> n) 1024) 1)))"

section \<open>Requests served by the wrapped store and by the wrapper\<close>

datatype 'o request =
  Get path get_options | Head path | Put path "u8 list" 'o | Delete path
| Copy path path | CopyIfNotExists path path

text \<open>What the caller of a get sees once it has collected the body.\<close>

definition outcome :: "'e + ('m, 'a, 'e) get_result \<Rightarrow> 'e + (u8 list \<times> 'm \<times> (nat \<times> nat) \<times> 'a)" where
  "outcome r = bindE r (\<lambda>g. bindE (gr_payload g) (\<lambda>b. Inr (b, gr_meta g, gr_range g, gr_attributes g)))"

datatype ('m, 'a, 'e, 'r) response =
  GetResp "'e + (u8 list \<times> 'm \<times> (nat \<times> nat) \<times> 'a)" | HeadResp "'e + 'm" | PutResp "'e + 'r"
| UnitResp "'e + unit"

fun serve_plain :: "('s, 'm, 'a, 'e, 'o, 'r) object_store \<Rightarrow> 'o request \<Rightarrow> 's
    \<Rightarrow> ('m, 'a, 'e, 'r) response \<times> 's" where
  "serve_plain S (Get p opts) s = (GetResp (outcome (os_get S s p opts)), s)"
| "serve_plain S (Head p) s = (HeadResp (os_head S s p), s)"
| "serve_plain S (Put p b x) s = apfst PutResp (os_put S s p b x)"
| "serve_plain S (Delete p) s = apfst UnitResp (os_delete S s p)"
| "serve_plain S (Copy p q) s = apfst UnitResp (os_copy S s p q)"
| "serve_plain S (CopyIfNotExists p q) s = apfst UnitResp (os_copy_if_not_exists S s p q)"

fun serve_cached :: "'a \<Rightarrow> ('s, 'm, 'a, 'e, 'o, 'r) object_store \<Rightarrow> 'o request
    \<Rightarrow> ('s, 'm, 'a) caching_store
    \<Rightarrow> (('m, 'a, 'e, 'r) response \<times> ('s, 'm, 'a) caching_store) option" where
  "serve_cached d S (Get p opts) c = map_option (apfst (\<lambda>r. GetResp (outcome r))) (get_opts S p opts c)"
| "serve_cached d S (Head p) c = map_option (apfst HeadResp) (cached_head d S p c)"
| "serve_cached d S (Put p b x) c = Some (apfst PutResp (put_opts S p b x c))"
| "serve_cached d S (Delete p) c = Some (apfst UnitResp (cached_delete S p c))"
| "serve_cached d S (Copy p q) c = Some (apfst UnitResp (cached_copy S p q c))"
| "serve_cached d S (CopyIfNotExists p q) c = Some (apfst UnitResp (cached_copy_if_not_exists S p q c))"

fun run_plain :: "('s, 'm, 'a, 'e, 'o, 'r) object_store \<Rightarrow> 'o request list \<Rightarrow> 's
    \<Rightarrow> ('m, 'a, 'e, 'r) response list \<times> 's" where
  "run_plain S [] s = ([], s)"
| "run_plain S (q # qs) s =
     (let (r, s') = serve_plain S q s; (rs, s'') = run_plain S qs s' in (r # rs, s''))"

fun run_cached :: "'a \<Rightarrow> ('s, 'm, 'a, 'e, 'o, 'r) object_store \<Rightarrow> 'o request list
    \<Rightarrow> ('s, 'm, 'a) caching_store
    \<Rightarrow> (('m, 'a, 'e, 'r) response list \<times> ('s, 'm, 'a) caching_store) option" where
  "run_cached d S [] c = Some ([], c)"
| "run_cached d S (q # qs) c =
     (case serve_cached d S q c of
        None \<Rightarrow> None
      | Some (r, c') \<Rightarrow> map_option (apfst (Cons r)) (run_cached d S qs c'))"

text \<open>What the wrapper relies on.\<close>

definition same_reads :: "('s, 'm, 'a, 'e, 'o, 'r) object_store \<Rightarrow> 's \<Rightarrow> 's \<Rightarrow> path \<Rightarrow> bool" where
  "same_reads S s s' p \<longleftrightarrow> (\<forall>opts. os_get S s' p opts = os_get S s p opts) \<and> os_head S s' p = os_head S s p"

definition touches_only :: "('s, 'm, 'a, 'e, 'o, 'r) object_store \<Rightarrow> 's \<Rightarrow> path \<Rightarrow> ('e + 'b) \<times> 's \<Rightarrow> bool" where
  "touches_only S s p x \<longleftrightarrow> (\<forall>q. q \<noteq> p \<or> isl (fst x) \<longrightarrow> same_reads S s (snd x) q)"

definition store_laws :: "('s, 'm, 'a, 'e, 'o, 'r) object_store \<Rightarrow> bool" where
  "store_laws S \<longleftrightarrow>
     (\<forall>s p b x. touches_only S s p (os_put S s p b x)) \<and>
     (\<forall>s p. touches_only S s p (os_delete S s p)) \<and>
     (\<forall>s p q. touches_only S s q (os_copy S s p q)) \<and>
     (\<forall>s p q. touches_only S s q (os_copy_if_not_exists S s p q))"

section \<open>The cache holds what the store would answer\<close>

definition entry_fresh :: "('s, 'm, 'a, 'e, 'o, 'r) object_store \<Rightarrow> 's \<Rightarrow> cache_key \<Rightarrow> ('m, 'a) entry \<Rightarrow> bool" where
  "entry_fresh S s k e \<longleftrightarrow>
     (snd k = HeadKey \<longrightarrow> os_head S s (fst k) = Inr (e_meta e)) \<and>
     (\<forall>opts. get_key opts = Some (snd k) \<longrightarrow>
        outcome (os_get S s (fst k) opts) = Inr (e_bytes e, e_meta e, e_range e, e_attributes e))"

definition cache_ok :: "nat \<Rightarrow> ('s, 'm, 'a, 'e, 'o, 'r) object_store \<Rightarrow> ('s, 'm, 'a) caching_store \<Rightarrow> bool" where
  "cache_ok B S c \<longleftrightarrow> lru_inv (cs_lru c) \<and> max_total (cs_lru c) = B \<and>
     (\<forall>k e. entries (cs_lru c) k = Some e \<longrightarrow> entry_fresh S (inner c) k e)"

lemma range_key_inj: "range_key_of r = Some rk \<Longrightarrow> range_key_of r' = Some rk \<Longrightarrow> r = r'"
  by (induction r rule: range_key_of.induct; induction r' rule: range_key_of.induct) auto

lemma get_key_inj: "get_key a = Some rk \<Longrightarrow> get_key b = Some rk \<Longrightarrow> a = b"
  by (cases a; cases b) (auto simp: get_key_def cacheable_def dest: range_key_inj split: if_splits)

lemma get_key_not_Head: "get_key a \<noteq> Some HeadKey"
  by (cases "get_range a" rule: range_key_of.cases) (auto simp: get_key_def)

lemma fresh_tick: "entry_fresh S s k (e\<lparr>e_tick := t\<rparr>) = entry_fresh S s k e"
  by (simp add: entry_fresh_def)

lemma cache_ok_new: "cache_ok (max m 1) S (caching_new s m n)"
  by (auto simp: cache_ok_def caching_new_def lru_new_def lru_inv_def ticked_def bt_ok_def pathed_def
      ranges_ok_def sized_def)

lemma cache_ok_get:
  assumes c: "cache_ok B S c" and g: "lru_get p rk (cs_lru c) = (r, l)"
  shows "cache_ok B S (c\<lparr>cs_lru := l\<rparr>)" and "r = Some e \<Longrightarrow> entry_fresh S (inner c) (p, rk) e"
proof -
  let ?z = "map_option (\<lambda>e. e\<lparr>e_tick := 0\<rparr>)"
  have i: "lru_inv (cs_lru c)" using c by (simp add: cache_ok_def)
  note sp = lru_get_spec [OF i g]
  have "entry_fresh S (inner c) k e" if "entries l k = Some e" for k e
  proof -
    have "?z (entries (cs_lru c) k) = Some (e\<lparr>e_tick := 0\<rparr>)"
      using fun_cong [OF sp(5), of k] that by simp
    then obtain e0 where "entries (cs_lru c) k = Some e0" "e0\<lparr>e_tick := 0\<rparr> = e\<lparr>e_tick := 0\<rparr>" by auto
    with c show ?thesis by (metis cache_ok_def fresh_tick)
  qed
  with sp(1,2) c show "cache_ok B S (c\<lparr>cs_lru := l\<rparr>)" by (simp add: cache_ok_def)
  assume "r = Some e"
  with g obtain e0 where "entries (cs_lru c) (p, rk) = Some e0" "e = e0\<lparr>e_tick := lru_tick (cs_lru c) + 1\<rparr>"
    by (auto simp: lru_get_def Let_def split: option.splits)
  with c show "entry_fresh S (inner c) (p, rk) e" by (simp add: cache_ok_def fresh_tick)
qed

lemma cache_ok_insert:
  assumes c: "cache_ok B S c" and f: "\<And>t. entry_fresh S (inner c) (p, rk) (new_entry b m a r t)"
  shows "\<exists>l. lru_insert p rk b m a r (cs_lru c) = Some l \<and> cache_ok B S (c\<lparr>cs_lru := l\<rparr>)"
proof -
  have i: "lru_inv (cs_lru c)" using c by (simp add: cache_ok_def)
  from lru_insert_spec [OF i, of p rk b m a r] obtain l where
    l: "lru_insert p rk b m a r (cs_lru c) = Some l" "lru_inv l" "max_total l = max_total (cs_lru c)"
    and e: "\<forall>k e. entries l k = Some e \<longrightarrow>
       (if k = (p, rk) \<and> max (length b) ENTRY_OVERHEAD \<le> max_total (cs_lru c)
        then \<exists>t. e = new_entry b m a r t else entries (cs_lru c) k = Some e)" by blast
  have "entry_fresh S (inner c) k x" if "entries l k = Some x" for k x
    using e [rule_format, OF that] f c unfolding cache_ok_def by (metis (full_types))
  with l c show ?thesis by (simp add: cache_ok_def)
qed

lemma same_reads_fresh: "same_reads S s s' (fst k) \<Longrightarrow> entry_fresh S s' k e = entry_fresh S s k e"
  by (simp add: entry_fresh_def same_reads_def)

lemma cache_ok_evict:
  assumes c: "cache_ok B S c" and s: "\<And>q. q \<noteq> p \<Longrightarrow> same_reads S (inner c) s q"
  shows "cache_ok B S (with_evicted p (c\<lparr>inner := s\<rparr>))"
proof -
  have i: "lru_inv (cs_lru c)" using c by (simp add: cache_ok_def)
  have "entry_fresh S s k e" if "fst k \<noteq> p" "entries (cs_lru c) k = Some e" for k e
    using c that same_reads_fresh [OF s] by (metis cache_ok_def)
  with c show ?thesis
    by (auto simp: cache_ok_def with_evicted_def evict_path_spec [OF i])
qed

lemma cache_ok_same:
  assumes c: "cache_ok B S c" and s: "\<And>q. same_reads S (inner c) s q"
  shows "cache_ok B S (c\<lparr>inner := s\<rparr>)"
  using c same_reads_fresh [OF s] by (simp add: cache_ok_def)

text \<open>Every write of the wrapper: the wrapped store's answer, and a cache that is still fresh.\<close>

lemma cached_write:
  assumes c: "cache_ok B S c" and t: "touches_only S (inner c) p (r, s)"
  defines "c' \<equiv> (case r of Inl e \<Rightarrow> (Inl e, c\<lparr>inner := s\<rparr>) | Inr x \<Rightarrow> (Inr x, with_evicted p (c\<lparr>inner := s\<rparr>)))"
  shows "fst c' = r \<and> inner (snd c') = s \<and> cache_ok B S (snd c')"
  using t cache_ok_same [OF c] cache_ok_evict [OF c, of p]
  by (cases r) (auto simp: c'_def touches_only_def with_evicted_def)

lemma get_opts_ok:
  fixes S :: "('s, 'm, 'a, 'e, 'o, 'r) object_store"
  assumes c: "cache_ok B S c"
  shows "\<exists>r c'. get_opts S p opts c = Some (r, c') \<and> outcome r = outcome (os_get S (inner c) p opts) \<and>
    inner c' = inner c \<and> cache_ok B S c'"
proof (cases "get_key opts")
  case None
  then show ?thesis using c
    by (cases "os_get S (inner c) p opts") (auto simp: get_opts_def get_lookup_def get_admit_def)
next
  case (Some rk)
  obtain h l where g: "lru_get p rk (cs_lru c) = (h, l)" by fastforce
  note c1 = cache_ok_get [OF c g]
  show ?thesis
  proof (cases h)
    case (Some e)
    with c1(2) have "outcome (os_get S (inner c) p opts) = Inr (e_bytes e, e_meta e, e_range e, e_attributes e)"
      using \<open>get_key opts = Some rk\<close> by (simp add: entry_fresh_def)
    with Some g \<open>get_key opts = Some rk\<close> c1(1) show ?thesis
      by (simp add: get_opts_def get_lookup_def get_result_from_def outcome_def)
  next
    case None
    let ?c = "c\<lparr>cs_lru := l\<rparr>"
    have miss: "get_lookup p opts c = (None :: ('m, 'a, 'e) get_result option, ?c)"
      using None g \<open>get_key opts = Some rk\<close> by (simp add: get_lookup_def)
    show ?thesis
    proof (cases "os_get S (inner c) p opts")
      case (Inl e)
      with miss c1(1) show ?thesis by (simp add: get_opts_def)
    next
      case (Inr res)
      have adm: "get_opts S p opts c = get_admit p opts res ?c" using miss Inr by (simp add: get_opts_def)
      show ?thesis
      proof (cases "gr_payload res")
        case Left: (Inl e)
        then show ?thesis using adm Inr \<open>get_key opts = Some rk\<close> c1(1)
          by (auto simp: get_admit_def Let_def outcome_def)
      next
        case Right: (Inr b)
        have "entry_fresh S (inner ?c) (p, rk) (new_entry b (gr_meta res) (gr_attributes res) (gr_range res) t)" for t
        proof -
          have "rk \<noteq> HeadKey" using get_key_not_Head \<open>get_key opts = Some rk\<close> by metis
          moreover have "outcome (os_get S (inner c) p o') = outcome (Inr res)" if "get_key o' = Some rk" for o'
            using get_key_inj [OF \<open>get_key opts = Some rk\<close> that] Inr by simp
          ultimately show ?thesis using Right by (simp add: entry_fresh_def new_entry_def outcome_def)
        qed
        from cache_ok_insert [OF c1(1) this] obtain l' where
          l': "lru_insert p rk b (gr_meta res) (gr_attributes res) (gr_range res) l = Some l'"
          "cache_ok B S (?c\<lparr>cs_lru := l'\<rparr>)" by auto
        show ?thesis
          using adm Inr Right \<open>get_key opts = Some rk\<close> c1(1) l'
          by (simp add: get_admit_def Let_def outcome_def get_result_from_def)
      qed
    qed
  qed
qed

lemma cached_head_ok:
  assumes c: "cache_ok B S c"
  shows "\<exists>c'. cached_head d S p c = Some (os_head S (inner c) p, c') \<and> inner c' = inner c \<and> cache_ok B S c'"
proof -
  obtain h l where g: "lru_get p HeadKey (cs_lru c) = (h, l)" by fastforce
  note c1 = cache_ok_get [OF c g]
  show ?thesis
  proof (cases h)
    case (Some e)
    with c1(2) have "os_head S (inner c) p = Inr (e_meta e)" by (simp add: entry_fresh_def)
    with Some g c1(1) show ?thesis by (simp add: cached_head_def)
  next
    case None
    show ?thesis
    proof (cases "os_head S (inner c) p")
      case (Inl e)
      with None g c1(1) show ?thesis by (simp add: cached_head_def)
    next
      case (Inr m)
      then have "entry_fresh S (inner (c\<lparr>cs_lru := l\<rparr>)) (p, HeadKey) (new_entry [] m d (0, 0) t)" for t
        by (simp add: entry_fresh_def new_entry_def get_key_not_Head)
      from cache_ok_insert [OF c1(1) this] None g Inr show ?thesis by (auto simp: cached_head_def)
    qed
  qed
qed

lemma serve_cached_ok:
  assumes S: "store_laws S" and c: "cache_ok B S c"
  shows "\<exists>r c'. serve_cached d S q c = Some (r, c') \<and> serve_plain S q (inner c) = (r, inner c') \<and> cache_ok B S c'"
proof (cases q)
  case (Get p opts)
  with get_opts_ok [OF c, of p opts] show ?thesis by auto
next
  case (Head p)
  with cached_head_ok [OF c, of d p] show ?thesis by auto
next
  case (Put p b x)
  obtain r s where o: "os_put S (inner c) p b x = (r, s)" by fastforce
  with S have "touches_only S (inner c) p (r, s)" by (metis store_laws_def)
  from cached_write [OF c this] o Put show ?thesis by (cases r) (auto simp: put_opts_def)
next
  case (Delete p)
  obtain r s where o: "os_delete S (inner c) p = (r, s)" by fastforce
  with S have "touches_only S (inner c) p (r, s)" by (metis store_laws_def)
  with cache_ok_evict [OF c, of p s] o Delete show ?thesis
    by (auto simp: cached_delete_def with_evicted_def touches_only_def)
next
  case (Copy p p')
  obtain r s where o: "os_copy S (inner c) p p' = (r, s)" by fastforce
  with S have "touches_only S (inner c) p' (r, s)" by (metis store_laws_def)
  from cached_write [OF c this] o Copy show ?thesis by (cases r) (auto simp: cached_copy_def)
next
  case (CopyIfNotExists p p')
  obtain r s where o: "os_copy_if_not_exists S (inner c) p p' = (r, s)" by fastforce
  with S have "touches_only S (inner c) p' (r, s)" by (metis store_laws_def)
  from cached_write [OF c this] o CopyIfNotExists show ?thesis
    by (cases r) (auto simp: cached_copy_if_not_exists_def)
qed

lemma run_cached_ok:
  assumes S: "store_laws S" and c: "cache_ok B S c"
  shows "\<exists>rs c'. run_cached d S qs c = Some (rs, c') \<and> run_plain S qs (inner c) = (rs, inner c') \<and> cache_ok B S c'"
  using c
proof (induction qs arbitrary: c)
  case Nil
  then show ?case by simp
next
  case (Cons q qs)
  from serve_cached_ok [OF S Cons.prems] obtain r c1 where
    c1: "serve_cached d S q c = Some (r, c1)" "serve_plain S q (inner c) = (r, inner c1)" "cache_ok B S c1" by blast
  from Cons.IH [OF c1(3)] obtain rs c' where
    "run_cached d S qs c1 = Some (rs, c')" "run_plain S qs (inner c1) = (rs, inner c')" "cache_ok B S c'" by blast
  with c1 show ?case by simp
qed

section \<open>An in-memory store\<close>

text \<open>A concrete store that satisfies the laws; its metadata is the object's size.\<close>

type_synonym mem_store_type = "(path \<rightharpoonup> u8 list, nat, unit, unit, unit, unit) object_store"

fun mem_range :: "get_range option \<Rightarrow> nat \<Rightarrow> nat \<times> nat" where
  "mem_range None n = (0, n)"
| "mem_range (Some (Bounded a b)) n = (a, min b n)"
| "mem_range (Some (Offset a)) n = (a, n)"
| "mem_range (Some (Suffix k)) n = (n - k, n)"

definition mem_store :: mem_store_type where
  "mem_store =
     \<lparr>os_get = (\<lambda>s p opts. case s p of
          None \<Rightarrow> Inl ()
        | Some b \<Rightarrow> (let (i, j) = mem_range (get_range opts) (length b) in
            Inr \<lparr>gr_payload = Inr (take (j - i) (drop i b)), gr_meta = length b, gr_range = (i, j),
                 gr_attributes = ()\<rparr>)),
      os_head = (\<lambda>s p. case s p of None \<Rightarrow> Inl () | Some b \<Rightarrow> Inr (length b)),
      os_put = (\<lambda>s p b _. (Inr (), s(p \<mapsto> b))),
      os_delete = (\<lambda>s p. if s p = None then (Inl (), s) else (Inr (), s(p := None))),
      os_copy = (\<lambda>s p q. case s p of None \<Rightarrow> (Inl (), s) | Some b \<Rightarrow> (Inr (), s(q \<mapsto> b))),
      os_copy_if_not_exists = (\<lambda>s p q. if s q \<noteq> None then (Inl (), s)
        else case s p of None \<Rightarrow> (Inl (), s) | Some b \<Rightarrow> (Inr (), s(q \<mapsto> b)))\<rparr>"

lemma mem_store_laws: "store_laws mem_store"
  by (auto simp: store_laws_def touches_only_def same_reads_def mem_store_def Let_def split: option.splits)

definition plain_opts :: get_options where
  "plain_opts = \<lparr>if_match = None, if_none_match = None, if_modified_since = None,
     if_unmodified_since = None, get_range = None, get_version = None, get_head = False\<rparr>"

lemma plain_opts_key: "get_key plain_opts = Some FullKey"
  by (simp add: plain_opts_def get_key_def cacheable_def)

section \<open>Properties\<close>



text \<open>
  C36: After any sequence of requests the cache holds at most its byte budget, its
  accounted size is the sum of the costs of the entries it holds, each at least
  \<open>ENTRY_OVERHEAD\<close>, and the three indexes agree with the map.
\<close>

theorem cache_budget:
  assumes "store_laws S"
  shows "\<exists>rs c. run_cached d S qs (caching_new s max_tot max_obj) = Some (rs, c) \<and>
           lru_inv (cs_lru c) \<and> snd (snd (stats c)) \<le> max max_tot 1 \<and>
           ENTRY_OVERHEAD * length (lru_list (cs_lru c)) \<le> snd (snd (stats c))"
proof -
  from run_cached_ok [OF assms cache_ok_new] obtain rs c where
    c: "run_cached d S qs (caching_new s max_tot max_obj) = Some (rs, c)" "cache_ok (max max_tot 1) S c" by blast
  then have i: "lru_inv (cs_lru c)" "max_total (cs_lru c) = max max_tot 1" by (simp_all add: cache_ok_def)
  with c(1) lru_list_overhead [OF i(1)] show ?thesis by (auto simp: stats_def lru_inv_def)
qed

theorem cache_budget_witness:
  "store_laws mem_store \<and>
   (\<exists>rs c. run_cached () mem_store [Put ''a'' [1] (), Get ''a'' plain_opts, Head ''a'']
        (caching_new Map.empty 300 512) = Some (rs, c) \<and> lru_inv (cs_lru c) \<and>
      snd (snd (stats c)) \<le> max 300 1 \<and>
      ENTRY_OVERHEAD * length (lru_list (cs_lru c)) \<le> snd (snd (stats c)))"
  using mem_store_laws cache_budget [OF mem_store_laws] by blast

text \<open>
  When a get misses and a put of the same path completes between its read of the
  wrapped store and its admission to the cache, the admission stores the old object: the next get
  returns what was there before the put. (The module documentation says that a re-read after an
  overwrite is always fresh.)
\<close>

theorem stale_fill:
  assumes "lru_inv (cs_lru c)" and "get_key opts = Some rk"
    and "os_get S (inner c) p opts = Inr res" and "gr_payload res = Inr b"
    and "snd (gr_range res) - fst (gr_range res) \<le> max_object c"
    and "max (length b) ENTRY_OVERHEAD \<le> max_total (cs_lru c)"
    and "put_opts S p new x c = (Inr y, c1)"
  shows "\<exists>r c2 g c3. get_admit p opts res c1 = Some (r, c2) \<and>
    get_opts S p opts c2 = Some (g, c3) \<and> outcome g = outcome (os_get S (inner c) p opts)"
proof -
  have c1: "cs_lru c1 = evict_path p (cs_lru c)" "max_object c1 = max_object c"
    using assms(7) by (auto simp: put_opts_def with_evicted_def Let_def split: prod.splits sum.splits)
  note e = evict_path_spec [OF assms(1), of p]
  from lru_insert_spec [OF e(1), of p rk b "gr_meta res" "gr_attributes res" "gr_range res"]
  obtain l t where l: "lru_insert p rk b (gr_meta res) (gr_attributes res) (gr_range res) (cs_lru c1) = Some l"
    "entries l (p, rk) = Some (new_entry b (gr_meta res) (gr_attributes res) (gr_range res) t)"
    using assms(6) e(2) c1(1) by auto
  let ?c2 = "c1\<lparr>cs_lru := l\<rparr>" and ?r = "get_result_from b (gr_meta res) (gr_range res) (gr_attributes res)"
  have "get_admit p opts res c1 = Some (Inr ?r, ?c2)"
    using assms(2,4,5) c1(2) l(1) by (simp add: get_admit_def Let_def)
  moreover have "\<exists>c3. get_opts S p opts ?c2 = Some (Inr ?r, c3)"
    using assms(2) l(2) by (simp add: get_opts_def get_lookup_def lru_get_def Let_def new_entry_def get_result_from_def)
  ultimately show ?thesis using assms(3,4) by (auto simp: outcome_def get_result_from_def)
qed

definition stale_store :: "(path \<rightharpoonup> u8 list, nat, unit) caching_store" where
  "stale_store = caching_new [''a'' \<mapsto> [1]] 1024 512"

definition old_read :: "(nat, unit, unit) get_result" where
  "old_read = get_result_from [1] 1 (0, 1) ()"

theorem stale_fill_witness:
  "os_get mem_store (inner stale_store) ''a'' plain_opts = Inr old_read \<and>
   os_get mem_store (inner (snd (put_opts mem_store ''a'' [2] () stale_store))) ''a'' plain_opts \<noteq> Inr old_read \<and>
   (\<exists>r c2 g c3. get_admit ''a'' plain_opts old_read (snd (put_opts mem_store ''a'' [2] () stale_store)) = Some (r, c2) \<and>
    get_opts mem_store ''a'' plain_opts c2 = Some (g, c3) \<and>
    outcome g = outcome (os_get mem_store (inner stale_store) ''a'' plain_opts))"
proof -
  have r: "os_get mem_store (inner stale_store) ''a'' plain_opts = Inr old_read"
    by (simp add: mem_store_def stale_store_def caching_new_def plain_opts_def old_read_def get_result_from_def)
  have i: "lru_inv (cs_lru stale_store)"
    using cache_ok_new [of 1024 mem_store "[''a'' \<mapsto> [1]]" 512] by (simp add: stale_store_def cache_ok_def)
  have "put_opts mem_store ''a'' [2] () stale_store =
      (Inr (), snd (put_opts mem_store ''a'' [2] () stale_store))"
    by (simp add: put_opts_def mem_store_def)
  from stale_fill [OF i plain_opts_key r _ _ _ this, of "[1]"] r show ?thesis
    by (simp add: old_read_def get_result_from_def stale_store_def caching_new_def lru_new_def ENTRY_OVERHEAD_def
        put_opts_def mem_store_def with_evicted_def plain_opts_def)
qed

end
