(* ===== verification/Json.thy ===== *)
theory Json
  imports Prelude "HOL-Library.AList" "HOL-Library.List_Lexorder" "HOL-Library.Char_ord"
begin

text \<open>
  The part of \<open>serde_json::Value\<close> the sources use. Integers are kept exactly; other numbers are
  kept as the bit pattern of their \<open>f64\<close>.
\<close>

datatype json = JNull | JBool bool | JInt int | JFloat u64 | JString string | JArray "json list"
  | JObject "(string \<times> json) list"

text \<open>\<open>Value::get\<close> on an object key, \<open>as_array\<close>, \<open>as_str\<close>, \<open>as_bool\<close>, \<open>as_i64\<close>.\<close>

fun json_get :: "json \<Rightarrow> string \<Rightarrow> json option" where
  "json_get (JObject kvs) k = map_of kvs k"
| "json_get _ k = None"

fun json_as_array :: "json \<Rightarrow> json list option" where
  "json_as_array (JArray xs) = Some xs"
| "json_as_array _ = None"

fun json_as_str :: "json \<Rightarrow> string option" where
  "json_as_str (JString s) = Some s"
| "json_as_str _ = None"

fun json_as_bool :: "json \<Rightarrow> bool option" where
  "json_as_bool (JBool b) = Some b"
| "json_as_bool _ = None"

text \<open>\<open>Map::insert\<close> replaces the value of a key that is there.\<close>

definition json_insert :: "string \<Rightarrow> json \<Rightarrow> (string \<times> json) list \<Rightarrow> (string \<times> json) list" where
  "json_insert k v kvs = AList.update k v kvs"

lemma map_of_json_insert: "map_of (json_insert k v kvs) = (map_of kvs)(k \<mapsto> v)"
  by (simp add: json_insert_def update_conv')

end
