(* ===== verification/Jobs.thy ===== *)
theory Jobs
  imports Json
begin

text \<open>
  The \<open>jobs\<close> table both job queues work on, and the SQL statements they run against it: an
  \<open>UPDATE .. WHERE\<close> changes the rows that satisfy its condition and fails without effect when a
  uniqueness constraint would break; an \<open>INSERT .. ON CONFLICT DO NOTHING\<close> adds its row when no
  constraint breaks. A table is the list of its rows in insertion order.

  Identifiers (UUIDs) are numbers and instants are integers: the sources print instants in UTC
  with \<open>to_rfc3339\<close>, whose text order is the order of the instants. A comparison with a NULL
  column is not satisfied.
\<close>

section \<open>Rows\<close>

datatype job_status = Pending | Claimed | Running | Done | Failed | Canceled

text \<open>\<open>'p\<close> is the type of the JSON columns, \<open>'c\<close> that of the capability list.\<close>

record ('p, 'c) job =
  job_id :: nat
  job_tenant :: nat
  job_kind :: string
  payload :: 'p
  job_priority :: int
  req_capabilities :: 'c
  job_status :: job_status
  claimed_by :: "nat option"
  claim_expires_at :: "int option"
  attempt :: int
  max_attempts :: int
  progress :: 'p
  result :: "'p option"
  last_error :: "string option"
  job_created_at :: int
  job_updated_at :: int

datatype queue_error = ConstraintViolation | SerializeError

text \<open>A claim as the worker sees it.\<close>

record claimed_job =
  cj_id :: nat
  cj_tenant :: nat
  cj_kind :: string
  cj_payload :: json
  cj_attempt :: int
  cj_max_attempts :: int
  cj_claim_expires_at :: int

text \<open>A request to enqueue, and the row it makes; the other columns take the table's defaults.\<close>

record enqueue_job =
  ej_kind :: string
  ej_payload :: json
  ej_priority :: int
  ej_req_capabilities :: "string list"
  ej_max_attempts :: int

definition new_job :: "nat \<Rightarrow> nat \<Rightarrow> enqueue_job \<Rightarrow> 'p \<Rightarrow> 'p \<Rightarrow> 'c \<Rightarrow> int \<Rightarrow> ('p, 'c) job" where
  "new_job i tenant ej dflt payload_v caps_v now =
     \<lparr>job_id = i, job_tenant = tenant, job_kind = ej_kind ej, payload = payload_v,
      job_priority = ej_priority ej, req_capabilities = caps_v, job_status = Pending,
      claimed_by = None, claim_expires_at = None, attempt = 0, max_attempts = ej_max_attempts ej,
      progress = dflt, result = None, last_error = None, job_created_at = now, job_updated_at = now\<rparr>"

definition expired :: "int \<Rightarrow> ('p, 'c, 'z) job_scheme \<Rightarrow> bool" where
  "expired now j \<longleftrightarrow> (case claim_expires_at j of None \<Rightarrow> False | Some t \<Rightarrow> t < now)"

definition in_flight :: "('p, 'c, 'z) job_scheme \<Rightarrow> bool" where
  "in_flight j \<longleftrightarrow> job_status j = Claimed \<or> job_status j = Running"

text \<open>The condition both claims share: pending, or a lease that expired with attempts left.\<close>

definition runnable :: "int \<Rightarrow> ('p, 'c, 'z) job_scheme \<Rightarrow> bool" where
  "runnable now j \<longleftrightarrow> job_status j = Pending \<or> (in_flight j \<and> expired now j \<and> attempt j < max_attempts j)"

definition owned_by :: "nat \<Rightarrow> nat \<Rightarrow> ('p, 'c, 'z) job_scheme \<Rightarrow> bool" where
  "owned_by i w j \<longleftrightarrow> job_id j = i \<and> claimed_by j = Some w"

section \<open>Statements\<close>

definition update_row :: "('a \<Rightarrow> bool) \<Rightarrow> ('a \<Rightarrow> 'a) \<Rightarrow> 'a \<Rightarrow> 'a" where
  "update_row p f j = (if p j then f j else j)"

definition exec_update :: "('a list \<Rightarrow> bool) \<Rightarrow> ('a \<Rightarrow> bool) \<Rightarrow> ('a \<Rightarrow> 'a) \<Rightarrow> 'a list
    \<Rightarrow> (queue_error + nat) \<times> 'a list" where
  "exec_update uniq p f tbl =
     (let tbl' = map (update_row p f) tbl in
      if uniq tbl' then (Inr (length (filter p tbl)), tbl') else (Inl ConstraintViolation, tbl))"

definition insert_or_nothing :: "('a list \<Rightarrow> bool) \<Rightarrow> 'a \<Rightarrow> 'a list \<Rightarrow> bool \<times> 'a list" where
  "insert_or_nothing uniq r tbl = (if uniq (tbl @ [r]) then (True, tbl @ [r]) else (False, tbl))"

text \<open>\<open>rows_affected() > 0\<close> of an update.\<close>

definition affected :: "(queue_error + nat) \<times> 'a list \<Rightarrow> (queue_error + bool) \<times> 'a list" where
  "affected r = (case fst r of Inl e \<Rightarrow> (Inl e, snd r) | Inr n \<Rightarrow> (Inr (n > 0), snd r))"

text \<open>\<open>ORDER BY .. LIMIT 1\<close>: the first row no other row comes before.\<close>

fun select_best :: "('a \<Rightarrow> 'a \<Rightarrow> bool) \<Rightarrow> 'a list \<Rightarrow> 'a option" where
  "select_best before [] = None"
| "select_best before (x # xs) =
     (case select_best before xs of
        None \<Rightarrow> Some x
      | Some y \<Rightarrow> Some (if before y x then y else x))"

definition by_priority :: "('p, 'c, 'z) job_scheme \<Rightarrow> ('p, 'c, 'z) job_scheme \<Rightarrow> bool" where
  "by_priority a b \<longleftrightarrow> job_priority a > job_priority b \<or>
     (job_priority a = job_priority b \<and> job_created_at a < job_created_at b)"

section \<open>Lemmas\<close>

lemma select_best_None [simp]: "select_best before xs = None \<longleftrightarrow> xs = []"
  by (cases xs) (auto split: option.splits)

lemma select_best_mem: "select_best before xs = Some x \<Longrightarrow> x \<in> set xs"
  by (induction xs arbitrary: x) (auto split: option.splits if_splits)

lemma select_best_first:
  assumes trans: "\<And>a b c. before a b \<Longrightarrow> before b c \<Longrightarrow> before a c"
    and asym: "\<And>a b. before a b \<Longrightarrow> \<not> before b a"
    and weak: "\<And>a b c. before a c \<Longrightarrow> before a b \<or> before b c"
    and "select_best before xs = Some x" and "y \<in> set xs"
  shows "\<not> before y x"
  using assms(4,5)
proof (induction xs arbitrary: x y)
  case (Cons z zs)
  show ?case
  proof (cases "select_best before zs")
    case None
    with Cons.prems show ?thesis using asym by (auto split: option.splits)
  next
    case (Some u)
    have u: "\<not> before v u" if "v \<in> set zs" for v using Cons.IH [OF Some that] .
    have x: "x = (if before u z then u else z)" using Cons.prems(1) Some by simp
    show ?thesis
    proof (cases "y = z")
      case True
      with x asym show ?thesis by auto
    next
      case False
      with Cons.prems(2) have "\<not> before y u" using u by simp
      with x weak [of y z u] show ?thesis by auto
    qed
  qed
qed simp

lemma by_priority_first:
  assumes "select_best by_priority xs = Some x" and "y \<in> set xs"
  shows "\<not> by_priority y x"
  using select_best_first [of by_priority, OF _ _ _ assms] unfolding by_priority_def by linarith

lemma exec_update_cases:
  "exec_update uniq p f tbl = (r, tbl') \<Longrightarrow>
     tbl' = tbl \<or> (tbl' = map (update_row p f) tbl \<and> uniq tbl')"
  by (auto simp: exec_update_def Let_def split: if_splits)

lemma affected_table [simp]: "snd (affected r) = snd r"
  by (simp add: affected_def split: sum.splits)

lemma affected_result [simp]: "fst (affected r) = map_sum id (\<lambda>n. n > 0) (fst r)"
  by (simp add: affected_def split: sum.splits)

section \<open>Leases\<close>

text \<open>Worker \<open>w\<close> holds the job until \<open>t\<close>.\<close>

definition leased :: "nat \<Rightarrow> int \<Rightarrow> ('p, 'c, 'z) job_scheme \<Rightarrow> bool" where
  "leased w t j \<longleftrightarrow> in_flight j \<and> claimed_by j = Some w \<and> claim_expires_at j = Some t"

text \<open>
  What a queue promises of its statements: none of those issued by others (\<open>actor\<close>) at an instant
  (\<open>at\<close>) before the lease expires changes a leased row. \<open>row_step\<close> is the effect of a statement on
  one row of the table; the statements of concurrent workers interleave in any order.
\<close>

locale lease_queue =
  fixes row_step :: "'st \<Rightarrow> ('p, 'c, 'z) job_scheme \<Rightarrow> ('p, 'c, 'z) job_scheme"
    and actor :: "'st \<Rightarrow> nat option" and at :: "'st \<Rightarrow> int"
  assumes foreign: "leased w t j \<Longrightarrow> actor s \<noteq> Some w \<Longrightarrow> at s \<le> t \<Longrightarrow> row_step s j = j"
begin

lemma lease_exclusive:
  assumes "leased w t j" and "\<forall>s \<in> set ss. actor s \<noteq> Some w \<and> at s \<le> t"
  shows "fold row_step ss j = j"
  using assms(2)
proof (induction ss)
  case (Cons s ss)
  then have "row_step s j = j" by (intro foreign [OF assms(1)]) auto
  with Cons show ?case by simp
qed simp

end

end
