(* ===== verification/Sqlite_Queue.thy ===== *)
theory Sqlite_Queue
  imports Jobs Bytes
begin

text \<open>
  The job queue of embedded mode (\<open>pensieve-local/src/sqlite_queue.rs\<close>): claim, progress,
  complete, fail, lease extension and enqueue, over the \<open>jobs\<close> table and its uniqueness
  constraints (\<open>pensieve-catalog-sqlite\<close>). JSON text is encoded and decoded by \<open>serde_json\<close>, a
  parameter; so are the clock readings and the fresh identifier of an enqueue.

  Shown: the invariant of the table under every operation, what a claim returns, that a live lease
  is exclusive, and three behaviours of the code as written: a job whose requirements the worker
  does not meet hides the jobs behind it, a job whose last lease expires stays claimed, and a
  completed job can be failed back to pending by the worker that completed it.
\<close>

section \<open>The table\<close>

type_synonym sq_job = "(string, string) job"

text \<open>
  \<open>serde_json\<close> (partial in both directions) and SQLite's \<open>json_extract\<close> of the two fields of a
  sync payload (\<open>None\<close> when one is NULL).
\<close>

record serde =
  to_text :: "json \<Rightarrow> string option"
  from_text :: "string \<Rightarrow> json option"
  caps_to_text :: "string list \<Rightarrow> string option"
  caps_from_text :: "string \<Rightarrow> string list option"
  sync_fields :: "string \<Rightarrow> (string \<times> string) option"

text \<open>The unique index \<open>jobs_data_source_sync_uniq\<close>: its partial condition and its key.\<close>

definition sync_key :: "serde \<Rightarrow> sq_job \<Rightarrow> (string \<times> string) option" where
  "sync_key sd j =
     (if job_kind j = ''data_source_sync'' \<and> (job_status j = Pending \<or> in_flight j)
      then sync_fields sd (payload j) else None)"

definition jobs_uniq :: "serde \<Rightarrow> sq_job list \<Rightarrow> bool" where
  "jobs_uniq sd tbl \<longleftrightarrow> distinct (map job_id tbl) \<and> distinct (List.map_filter (sync_key sd) tbl)"

section \<open>The queue\<close>

record sqlite_queue =
  worker_id :: nat
  capabilities :: "string list"
  lease_secs :: int

definition claimable :: "int \<Rightarrow> string \<Rightarrow> ('p, 'c, 'z) job_scheme \<Rightarrow> bool" where
  "claimable now k j \<longleftrightarrow> job_kind j = k \<and> runnable now j"

definition select_claimable :: "int \<Rightarrow> string \<Rightarrow> sq_job list \<Rightarrow> sq_job option" where
  "select_claimable now k tbl = select_best by_priority (filter (claimable now k) tbl)"

text \<open>The guard and the assignments of the claiming update.\<close>

definition claim_guard :: "int \<Rightarrow> nat \<Rightarrow> sq_job \<Rightarrow> bool" where
  "claim_guard now i j \<longleftrightarrow> job_id j = i \<and> (job_status j = Pending \<or> (in_flight j \<and> expired now j))"

definition mark_claimed :: "nat \<Rightarrow> int \<Rightarrow> int \<Rightarrow> sq_job \<Rightarrow> sq_job" where
  "mark_claimed w now exp j = j\<lparr>job_status := Claimed, claimed_by := Some w,
     claim_expires_at := Some exp, attempt := attempt j + 1, job_updated_at := now\<rparr>"

definition has_capabilities :: "serde \<Rightarrow> sqlite_queue \<Rightarrow> sq_job \<Rightarrow> bool" where
  "has_capabilities sd q j =
     list_all (\<lambda>c. list_ex (\<lambda>cap. cap = c) (capabilities q))
       (case caps_from_text sd (req_capabilities j) of None \<Rightarrow> [] | Some cs \<Rightarrow> cs)"

text \<open>The cast \<open>x as i32\<close> of an \<open>i64\<close>.\<close>

definition as_i32 :: "int \<Rightarrow> int" where
  "as_i32 n = (n + 2147483648) mod 4294967296 - 2147483648"

definition claimed_job_of :: "serde \<Rightarrow> sq_job \<Rightarrow> int \<Rightarrow> claimed_job" where
  "claimed_job_of sd j ts =
     \<lparr>cj_id = job_id j, cj_tenant = job_tenant j, cj_kind = job_kind j,
      cj_payload = (case from_text sd (payload j) of None \<Rightarrow> JNull | Some v \<Rightarrow> v),
      cj_attempt = as_i32 (attempt j) + 1, cj_max_attempts = as_i32 (max_attempts j),
      cj_claim_expires_at = ts\<rparr>"

text \<open>
  The body of the loop over the kinds, the loop itself, and the outer loop. \<open>exp\<close> is the expiry
  computed at the start, \<open>ts\<close> the expiry reported with each claim.
\<close>

definition claim_kind :: "serde \<Rightarrow> sqlite_queue \<Rightarrow> int \<Rightarrow> int \<Rightarrow> int \<Rightarrow> string \<Rightarrow> sq_job list
    \<Rightarrow> (queue_error + claimed_job option) \<times> sq_job list" where
  "claim_kind sd q now exp ts k tbl =
     (case select_claimable now k tbl of
        None \<Rightarrow> (Inr None, tbl)
      | Some j \<Rightarrow>
          if \<not> has_capabilities sd q j then (Inr None, tbl)
          else case exec_update (jobs_uniq sd) (claim_guard now (job_id j)) (mark_claimed (worker_id q) now exp) tbl of
            (Inl e, tbl') \<Rightarrow> (Inl e, tbl')
          | (Inr n, tbl') \<Rightarrow> if n = 0 then (Inr None, tbl') else (Inr (Some (claimed_job_of sd j ts)), tbl'))"

fun claim_kinds :: "serde \<Rightarrow> sqlite_queue \<Rightarrow> int \<Rightarrow> int \<Rightarrow> int \<Rightarrow> string list \<Rightarrow> sq_job list
    \<Rightarrow> (queue_error + claimed_job option) \<times> sq_job list" where
  "claim_kinds sd q now exp ts [] tbl = (Inr None, tbl)"
| "claim_kinds sd q now exp ts (k # ks) tbl =
     (case claim_kind sd q now exp ts k tbl of
        (Inr None, tbl') \<Rightarrow> claim_kinds sd q now exp ts ks tbl'
      | r \<Rightarrow> r)"

fun claim_loop :: "serde \<Rightarrow> sqlite_queue \<Rightarrow> int \<Rightarrow> int \<Rightarrow> (nat \<Rightarrow> int) \<Rightarrow> string list \<Rightarrow> nat
    \<Rightarrow> claimed_job list \<Rightarrow> sq_job list \<Rightarrow> (queue_error + claimed_job list) \<times> sq_job list" where
  "claim_loop sd q now exp ts ks 0 out tbl = (Inr out, tbl)"
| "claim_loop sd q now exp ts ks (Suc n) out tbl =
     (case claim_kinds sd q now exp (ts n + lease_secs q) ks tbl of
        (Inl e, tbl') \<Rightarrow> (Inl e, tbl')
      | (Inr None, tbl') \<Rightarrow> (Inr out, tbl')
      | (Inr (Some c), tbl') \<Rightarrow> claim_loop sd q now exp ts ks n (out @ [c]) tbl')"

definition claim :: "serde \<Rightarrow> sqlite_queue \<Rightarrow> int \<Rightarrow> int \<Rightarrow> (nat \<Rightarrow> int) \<Rightarrow> string list \<Rightarrow> nat
    \<Rightarrow> sq_job list \<Rightarrow> (queue_error + claimed_job list) \<times> sq_job list" where
  "claim sd q now now' ts kinds max_n tbl =
     claim_loop sd q now (now' + lease_secs q) ts kinds max_n [] tbl"

definition progress_job :: "serde \<Rightarrow> sqlite_queue \<Rightarrow> int \<Rightarrow> nat \<Rightarrow> json \<Rightarrow> sq_job list
    \<Rightarrow> (queue_error + bool) \<times> sq_job list" where
  "progress_job sd q now i snapshot tbl =
     (case to_text sd snapshot of
        None \<Rightarrow> (Inl SerializeError, tbl)
      | Some s \<Rightarrow> affected (exec_update (jobs_uniq sd) (owned_by i (worker_id q))
          (\<lambda>j. j\<lparr>progress := s, job_updated_at := now\<rparr>) tbl))"

definition complete :: "serde \<Rightarrow> sqlite_queue \<Rightarrow> int \<Rightarrow> nat \<Rightarrow> json \<Rightarrow> sq_job list
    \<Rightarrow> (queue_error + bool) \<times> sq_job list" where
  "complete sd q now i res tbl =
     (case to_text sd res of
        None \<Rightarrow> (Inl SerializeError, tbl)
      | Some s \<Rightarrow> affected (exec_update (jobs_uniq sd) (owned_by i (worker_id q))
          (\<lambda>j. j\<lparr>job_status := Done, result := Some s, job_updated_at := now\<rparr>) tbl))"

definition mark_failed :: "job_status \<Rightarrow> string \<Rightarrow> int \<Rightarrow> sq_job \<Rightarrow> sq_job" where
  "mark_failed st err now j = j\<lparr>job_status := st, last_error := Some err, claimed_by := None,
     claim_expires_at := None, job_updated_at := now\<rparr>"

definition find_job :: "nat \<Rightarrow> sq_job list \<Rightarrow> sq_job option" where
  "find_job i tbl = List.find (\<lambda>j. job_id j = i) tbl"

definition fail :: "serde \<Rightarrow> sqlite_queue \<Rightarrow> int \<Rightarrow> nat \<Rightarrow> string \<Rightarrow> sq_job list
    \<Rightarrow> (queue_error + bool) \<times> sq_job list" where
  "fail sd q now i err tbl =
     (let terminal = (case find_job i tbl of None \<Rightarrow> True | Some j \<Rightarrow> attempt j \<ge> max_attempts j) in
      affected (exec_update (jobs_uniq sd) (owned_by i (worker_id q))
        (mark_failed (if terminal then Failed else Pending) err now) tbl))"

definition fail_terminal :: "serde \<Rightarrow> sqlite_queue \<Rightarrow> int \<Rightarrow> nat \<Rightarrow> string \<Rightarrow> sq_job list
    \<Rightarrow> (queue_error + bool) \<times> sq_job list" where
  "fail_terminal sd q now i err tbl =
     affected (exec_update (jobs_uniq sd) (owned_by i (worker_id q)) (mark_failed Failed err now) tbl)"

definition extend_lease :: "serde \<Rightarrow> sqlite_queue \<Rightarrow> int \<Rightarrow> int \<Rightarrow> nat \<Rightarrow> int \<Rightarrow> sq_job list
    \<Rightarrow> (queue_error + bool) \<times> sq_job list" where
  "extend_lease sd q now now' i secs tbl =
     affected (exec_update (jobs_uniq sd) (owned_by i (worker_id q))
       (\<lambda>j. j\<lparr>claim_expires_at := Some (now + secs), job_updated_at := now'\<rparr>) tbl)"

text \<open>
  \<open>SqliteEnqueuer::enqueue\<close> with the fresh identifier \<open>i\<close>; the columns it does not name take the
  defaults of the table.
\<close>

definition enqueue :: "serde \<Rightarrow> nat \<Rightarrow> nat \<Rightarrow> enqueue_job \<Rightarrow> int \<Rightarrow> sq_job list
    \<Rightarrow> (queue_error + nat option) \<times> sq_job list" where
  "enqueue sd i tenant ej now tbl =
     (case (to_text sd (ej_payload ej), caps_to_text sd (ej_req_capabilities ej)) of
        (Some p, Some cs) \<Rightarrow>
          (let (ok, tbl') = insert_or_nothing (jobs_uniq sd) (new_job i tenant ej ''{}'' p cs now) tbl in
           (Inr (if ok then Some i else None), tbl'))
      | _ \<Rightarrow> (Inl SerializeError, tbl))"

section \<open>The table's invariant\<close>

definition job_ok :: "sq_job \<Rightarrow> bool" where
  "job_ok j \<longleftrightarrow> 0 \<le> attempt j \<and> attempt j \<le> max_attempts j \<and>
     (case job_status j of
        Pending \<Rightarrow> attempt j < max_attempts j \<and> claimed_by j = None \<and> claim_expires_at j = None
      | Done \<Rightarrow> 1 \<le> attempt j \<and> claimed_by j \<noteq> None
      | Failed \<Rightarrow> claimed_by j = None \<and> claim_expires_at j = None
      | Canceled \<Rightarrow> False
      | _ \<Rightarrow> 1 \<le> attempt j \<and> claimed_by j \<noteq> None \<and> claim_expires_at j \<noteq> None)"

definition jobs_inv :: "serde \<Rightarrow> sq_job list \<Rightarrow> bool" where
  "jobs_inv sd tbl \<longleftrightarrow> jobs_uniq sd tbl \<and> (\<forall>j \<in> set tbl. job_ok j)"

text \<open>The operations as steps, labelled with the worker that performs them.\<close>

inductive sq_step :: "serde \<Rightarrow> nat option \<Rightarrow> sq_job list \<Rightarrow> sq_job list \<Rightarrow> bool" for sd where
  enq: "1 \<le> ej_max_attempts ej \<Longrightarrow> enqueue sd i tenant ej now tbl = (r, tbl') \<Longrightarrow> sq_step sd None tbl tbl'"
| clm: "claim sd q now now' ts kinds n tbl = (rc, tbl') \<Longrightarrow> sq_step sd (Some (worker_id q)) tbl tbl'"
| prg: "progress_job sd q now i v tbl = (rb, tbl') \<Longrightarrow> sq_step sd (Some (worker_id q)) tbl tbl'"
| cmp: "complete sd q now i v tbl = (rb, tbl') \<Longrightarrow> sq_step sd (Some (worker_id q)) tbl tbl'"
| fl: "fail sd q now i err tbl = (rb, tbl') \<Longrightarrow> sq_step sd (Some (worker_id q)) tbl tbl'"
| ftm: "fail_terminal sd q now i err tbl = (rb, tbl') \<Longrightarrow> sq_step sd (Some (worker_id q)) tbl tbl'"
| ext: "extend_lease sd q now now' i secs tbl = (rb, tbl') \<Longrightarrow> sq_step sd (Some (worker_id q)) tbl tbl'"

inductive sq_reachable :: "serde \<Rightarrow> sq_job list \<Rightarrow> bool" for sd where
  empty: "sq_reachable sd []"
| step: "sq_reachable sd tbl \<Longrightarrow> sq_step sd a tbl tbl' \<Longrightarrow> sq_reachable sd tbl'"

inductive_cases sq_stepE: "sq_step sd a tbl tbl'"

lemma jobs_uniq_map:
  assumes u: "jobs_uniq sd tbl"
    and g: "\<And>j. job_id (g j) = job_id j" "\<And>j. sync_key sd (g j) = sync_key sd j \<or> sync_key sd (g j) = None"
  shows "jobs_uniq sd (map g tbl)"
proof -
  have ids: "map job_id (map g tbl) = map job_id tbl" using g(1) by simp
  have sub: "set (List.map_filter (sync_key sd) (map g tbl)) \<subseteq> set (List.map_filter (sync_key sd) tbl)" for tbl
  proof (induction tbl)
    case (Cons j tbl)
    then show ?case using g(2) [of j] by (auto simp: map_filter_simps split: option.splits)
  qed (simp add: map_filter_simps)
  have "distinct (List.map_filter (sync_key sd) (map g tbl))"
    if "distinct (List.map_filter (sync_key sd) tbl)" for tbl
    using that
  proof (induction tbl)
    case (Cons j tbl)
    then show ?case using g(2) [of j] sub [of tbl]
      by (auto simp: map_filter_simps split: option.splits)
  qed (simp add: map_filter_simps)
  with u show ?thesis unfolding jobs_uniq_def ids by blast
qed

lemma find_job_unique:
  "distinct (map job_id tbl) \<Longrightarrow> j \<in> set tbl \<Longrightarrow> find_job (job_id j) tbl = Some j"
  unfolding find_job_def by (induction tbl) auto

lemma distinct_job_ids: "distinct (map job_id tbl) \<Longrightarrow> j \<in> set tbl \<Longrightarrow> j' \<in> set tbl \<Longrightarrow> job_id j = job_id j' \<Longrightarrow> j = j'"
  by (meson distinct_map inj_on_def)

text \<open>An update that keeps each row it touches in order keeps the table in order.\<close>

lemma jobs_inv_update:
  assumes "jobs_inv sd tbl" and "exec_update (jobs_uniq sd) p f tbl = (r, tbl')"
    and "\<And>j. j \<in> set tbl \<Longrightarrow> p j \<Longrightarrow> job_ok j \<Longrightarrow> job_ok (f j)"
  shows "jobs_inv sd tbl'"
  using assms exec_update_cases [OF assms(2)] by (auto simp: jobs_inv_def update_row_def)

lemma affectedE: "affected x = (r, tbl) \<Longrightarrow> \<exists>r'. x = (r', tbl)"
  by (cases x) (auto simp: affected_def split: sum.splits)

lemma select_claimable_mem:
  "select_claimable now k tbl = Some j \<Longrightarrow> j \<in> set tbl \<and> claimable now k j"
  unfolding select_claimable_def by (auto dest!: select_best_mem)

lemma mark_claimed_ok: "job_ok j \<Longrightarrow> runnable now j \<Longrightarrow> job_ok (mark_claimed w now exp j)"
  by (auto simp: job_ok_def mark_claimed_def runnable_def in_flight_def)

lemma claim_kind_inv:
  assumes inv: "jobs_inv sd tbl" and c: "claim_kind sd q now exp ts k tbl = (r, tbl')"
  shows "jobs_inv sd tbl'"
proof (cases "select_claimable now k tbl")
  case None
  with inv c show ?thesis by (simp add: claim_kind_def)
next
  case (Some j)
  from select_claimable_mem [OF this] have j: "j \<in> set tbl" "runnable now j" by (simp_all add: claimable_def)
  show ?thesis
  proof (cases "has_capabilities sd q j")
    case True
    with c Some obtain r' where u: "exec_update (jobs_uniq sd) (claim_guard now (job_id j))
        (mark_claimed (worker_id q) now exp) tbl = (r', tbl')"
      by (auto simp: claim_kind_def split: prod.splits sum.splits if_splits)
    show ?thesis
    proof (rule jobs_inv_update [OF inv u])
      fix j' assume "j' \<in> set tbl" "claim_guard now (job_id j) j'" "job_ok j'"
      moreover from this have "j' = j"
        using distinct_job_ids [of tbl j' j] inv j(1) by (simp add: jobs_inv_def jobs_uniq_def claim_guard_def)
      ultimately show "job_ok (mark_claimed (worker_id q) now exp j')" using j(2) by (simp add: mark_claimed_ok)
    qed
  qed (use inv c Some in \<open>simp add: claim_kind_def\<close>)
qed

lemma claim_kinds_inv:
  "jobs_inv sd tbl \<Longrightarrow> claim_kinds sd q now exp ts ks tbl = (r, tbl') \<Longrightarrow> jobs_inv sd tbl'"
proof (induction ks arbitrary: tbl)
  case (Cons k ks)
  obtain r1 tbl1 where k: "claim_kind sd q now exp ts k tbl = (r1, tbl1)" by fastforce
  from claim_kind_inv [OF Cons.prems(1) k] Cons.IH [of tbl1] Cons.prems(2) k show ?case
    by (auto split: sum.splits option.splits)
qed simp

lemma claim_loop_inv:
  "jobs_inv sd tbl \<Longrightarrow> claim_loop sd q now exp ts ks n out tbl = (r, tbl') \<Longrightarrow> jobs_inv sd tbl'"
proof (induction n arbitrary: tbl out)
  case (Suc n)
  obtain r1 tbl1 where k: "claim_kinds sd q now exp (ts n + lease_secs q) ks tbl = (r1, tbl1)" by fastforce
  from claim_kinds_inv [OF Suc.prems(1) k] Suc.IH [of tbl1] Suc.prems(2) k show ?case
    by (auto split: sum.splits option.splits)
qed simp

lemma fail_inv:
  assumes inv: "jobs_inv sd tbl" and f: "fail sd q now i err tbl = (r, tbl')"
  shows "jobs_inv sd tbl'"
proof -
  let ?st = "if case find_job i tbl of None \<Rightarrow> True | Some j \<Rightarrow> attempt j \<ge> max_attempts j then Failed else Pending"
  from f obtain r' where u: "exec_update (jobs_uniq sd) (owned_by i (worker_id q)) (mark_failed ?st err now) tbl = (r', tbl')"
    unfolding fail_def Let_def by (blast dest: affectedE)
  show ?thesis
  proof (rule jobs_inv_update [OF inv u])
    fix j assume j: "j \<in> set tbl" "owned_by i (worker_id q) j" "job_ok j"
    then have "find_job i tbl = Some j"
      using inv find_job_unique [of tbl j] by (simp add: jobs_inv_def jobs_uniq_def owned_by_def)
    with j(3) show "job_ok (mark_failed ?st err now j)" by (auto simp: job_ok_def mark_failed_def)
  qed
qed

lemma sq_step_inv:
  assumes inv: "jobs_inv sd tbl" and s: "sq_step sd a tbl tbl'"
  shows "jobs_inv sd tbl'"
  using s
proof cases
  case (enq ej i tenant now r)
  have "job_ok (new_job i tenant ej e p c now)" for e p c using enq(2) by (simp add: job_ok_def new_job_def)
  with enq(3) inv show ?thesis
    by (auto simp: enqueue_def insert_or_nothing_def jobs_inv_def Let_def split: option.splits if_splits)
next
  case (clm q now now' ts kinds n rc)
  with inv show ?thesis by (auto simp: claim_def intro: claim_loop_inv)
next
  case (prg q now i v rb)
  show ?thesis
  proof (cases "to_text sd v")
    case (Some t)
    with prg obtain r' where u: "exec_update (jobs_uniq sd) (owned_by i (worker_id q))
          (\<lambda>j. j\<lparr>progress := t, job_updated_at := now\<rparr>) tbl = (r', tbl')"
      by (auto simp: progress_job_def dest: affectedE)
    show ?thesis by (rule jobs_inv_update [OF inv u]) (auto simp: job_ok_def split: job_status.splits)
  qed (use prg inv in \<open>simp add: progress_job_def\<close>)
next
  case (cmp q now i v rb)
  show ?thesis
  proof (cases "to_text sd v")
    case (Some t)
    with cmp obtain r' where u: "exec_update (jobs_uniq sd) (owned_by i (worker_id q))
          (\<lambda>j. j\<lparr>job_status := Done, result := Some t, job_updated_at := now\<rparr>) tbl = (r', tbl')"
      by (auto simp: complete_def dest: affectedE)
    show ?thesis
      by (rule jobs_inv_update [OF inv u]) (auto simp: job_ok_def owned_by_def split: job_status.splits)
  qed (use cmp inv in \<open>simp add: complete_def\<close>)
next
  case (fl q now i err rb)
  from fl(2) show ?thesis by (rule fail_inv [OF inv])
next
  case (ftm q now i err rb)
  then obtain r' where u: "exec_update (jobs_uniq sd) (owned_by i (worker_id q)) (mark_failed Failed err now) tbl = (r', tbl')"
    unfolding fail_terminal_def by (blast dest: affectedE)
  show ?thesis by (rule jobs_inv_update [OF inv u]) (simp add: job_ok_def mark_failed_def)
next
  case (ext q now now' i secs rb)
  then obtain r' where u: "exec_update (jobs_uniq sd) (owned_by i (worker_id q))
       (\<lambda>j. j\<lparr>claim_expires_at := Some (now + secs), job_updated_at := now'\<rparr>) tbl = (r', tbl')"
    unfolding extend_lease_def by (blast dest: affectedE)
  show ?thesis
    by (rule jobs_inv_update [OF inv u]) (auto simp: job_ok_def owned_by_def split: job_status.splits)
qed

lemma sq_reachable_inv: "sq_reachable sd tbl \<Longrightarrow> jobs_inv sd tbl"
proof (induction rule: sq_reachable.induct)
  case empty
  show ?case by (simp add: jobs_inv_def jobs_uniq_def map_filter_simps)
qed (rule sq_step_inv)

section \<open>What a claim returns\<close>

definition wanted :: "int \<Rightarrow> string list \<Rightarrow> sq_job \<Rightarrow> bool" where
  "wanted now ks j \<longleftrightarrow> job_kind j \<in> set ks \<and> runnable now j"

definition mark_ids :: "nat set \<Rightarrow> nat \<Rightarrow> int \<Rightarrow> int \<Rightarrow> sq_job list \<Rightarrow> sq_job list" where
  "mark_ids I w now exp tbl = map (\<lambda>j. if job_id j \<in> I then mark_claimed w now exp j else j) tbl"

lemma mark_claimed_key: "runnable now j \<Longrightarrow> sync_key sd (mark_claimed w now exp j) = sync_key sd j"
  by (auto simp: sync_key_def mark_claimed_def runnable_def in_flight_def)

lemma mark_claimed_id [simp]: "job_id (mark_claimed w now exp j) = job_id j"
  "job_kind (mark_claimed w now exp j) = job_kind j"
  by (simp_all add: mark_claimed_def)

lemma not_runnable_claimed: "now \<le> exp \<Longrightarrow> \<not> runnable now (mark_claimed w now exp j)"
  by (simp add: runnable_def mark_claimed_def in_flight_def expired_def)

lemma claim_update:
  assumes u: "jobs_uniq sd tbl" and j: "j \<in> set tbl" "runnable now j"
  shows "\<exists>n. exec_update (jobs_uniq sd) (claim_guard now (job_id j)) (mark_claimed w now exp) tbl =
    (Inr n, mark_ids {job_id j} w now exp tbl) \<and> n > 0"
proof -
  let ?g = "claim_guard now (job_id j)" and ?f = "mark_claimed w now exp"
  have g: "?g j" using j(2) by (auto simp: claim_guard_def runnable_def)
  have only: "?g j' \<longleftrightarrow> j' = j" if "j' \<in> set tbl" for j'
    using that u j(1) g distinct_job_ids [of tbl j' j] by (auto simp: jobs_uniq_def claim_guard_def)
  have ids: "job_id j' = job_id j \<longleftrightarrow> j' = j" if "j' \<in> set tbl" for j'
    using that u j(1) distinct_job_ids [of tbl j' j] by (auto simp: jobs_uniq_def)
  have m: "map (update_row ?g ?f) tbl = mark_ids {job_id j} w now exp tbl"
    unfolding mark_ids_def using only ids by (intro map_cong refl) (simp add: update_row_def)
  have "map (update_row ?g ?f) tbl = map (\<lambda>j'. if j' = j then ?f j' else j') tbl"
    using only by (intro map_cong refl) (simp add: update_row_def)
  moreover have "jobs_uniq sd (map (\<lambda>j'. if j' = j then ?f j' else j') tbl)"
    by (rule jobs_uniq_map [OF u]) (auto simp: mark_claimed_key [OF j(2)])
  moreover have "0 < length (filter ?g tbl)" using j(1) g by (auto simp: filter_empty_conv)
  ultimately show ?thesis by (simp add: exec_update_def Let_def m)
qed

lemma claim_kinds_spec:
  assumes u: "jobs_uniq sd tbl" and caps: "\<forall>j \<in> set tbl. wanted now ks j \<longrightarrow> has_capabilities sd q j"
  shows "(claim_kinds sd q now exp ts ks tbl = (Inr None, tbl) \<and> (\<forall>j \<in> set tbl. \<not> wanted now ks j)) \<or>
    (\<exists>j \<in> set tbl. wanted now ks j \<and>
       claim_kinds sd q now exp ts ks tbl =
         (Inr (Some (claimed_job_of sd j ts)), mark_ids {job_id j} (worker_id q) now exp tbl))"
  using caps
proof (induction ks)
  case Nil
  then show ?case by (simp add: wanted_def)
next
  case (Cons k ks)
  show ?case
  proof (cases "select_claimable now k tbl")
    case None
    then have n: "\<forall>j \<in> set tbl. \<not> claimable now k j" by (auto simp: select_claimable_def filter_empty_conv)
    have "claim_kinds sd q now exp ts (k # ks) tbl = claim_kinds sd q now exp ts ks tbl"
      using None by (simp add: claim_kind_def)
    moreover have "wanted now (k # ks) j \<longleftrightarrow> wanted now ks j" if "j \<in> set tbl" for j
      using n that by (auto simp: wanted_def claimable_def)
    ultimately show ?thesis using Cons by auto
  next
    case (Some j)
    from select_claimable_mem [OF Some] have j: "j \<in> set tbl" "runnable now j" "wanted now (k # ks) j"
      by (auto simp: claimable_def wanted_def)
    from claim_update [OF u j(1,2), of "worker_id q" exp] j Cons.prems Some
    have "claim_kinds sd q now exp ts (k # ks) tbl =
        (Inr (Some (claimed_job_of sd j ts)), mark_ids {job_id j} (worker_id q) now exp tbl)"
      by (auto simp: claim_kind_def)
    with j show ?thesis by blast
  qed
qed

lemma mark_ids_uniq:
  assumes "jobs_uniq sd tbl" and "j \<in> set tbl" "runnable now j"
  shows "jobs_uniq sd (mark_ids {job_id j} w now exp tbl)"
proof -
  have "mark_ids {job_id j} w now exp tbl = map (\<lambda>j'. if j' = j then mark_claimed w now exp j' else j') tbl"
    unfolding mark_ids_def using assms distinct_job_ids [of tbl _ j]
    by (intro map_cong refl) (auto simp: jobs_uniq_def)
  moreover have "jobs_uniq sd (map (\<lambda>j'. if j' = j then mark_claimed w now exp j' else j') tbl)"
    by (rule jobs_uniq_map [OF assms(1)]) (auto simp: mark_claimed_key [OF assms(3)])
  ultimately show ?thesis by simp
qed

lemma wanted_mark:
  assumes "now \<le> exp" and "j' \<in> set (mark_ids I w now exp tbl)" and "wanted now ks j'"
  shows "j' \<in> set tbl \<and> job_id j' \<notin> I"
  using assms not_runnable_claimed [of now exp w] by (auto simp: mark_ids_def wanted_def split: if_splits)

lemma claim_loop_spec:
  assumes le: "now \<le> exp"
  shows "jobs_uniq sd tbl \<Longrightarrow> \<forall>j \<in> set tbl. wanted now ks j \<longrightarrow> has_capabilities sd q j \<Longrightarrow>
    \<exists>new. claim_loop sd q now exp ts ks n out tbl =
        (Inr (out @ new), mark_ids (cj_id ` set new) (worker_id q) now exp tbl) \<and>
      length new \<le> n \<and> distinct (map cj_id new) \<and>
      (\<forall>c \<in> set new. \<exists>j \<in> set tbl. cj_id c = job_id j \<and> wanted now ks j) \<and>
      (length new < n \<longrightarrow> (\<forall>j \<in> set tbl. wanted now ks j \<longrightarrow> job_id j \<in> cj_id ` set new))"
proof (induction n arbitrary: tbl out)
  case 0
  show ?case by (simp add: mark_ids_def)
next
  case (Suc n)
  let ?ts = "ts n + lease_secs q" and ?w = "worker_id q"
  show ?case
  proof (cases "claim_kinds sd q now exp ?ts ks tbl = (Inr None, tbl) \<and> (\<forall>j \<in> set tbl. \<not> wanted now ks j)")
    case True
    then show ?thesis by (intro exI [of _ "[]"]) (simp add: mark_ids_def)
  next
    case False
    with claim_kinds_spec [OF Suc.prems, of exp ?ts] obtain j where j: "j \<in> set tbl" "wanted now ks j"
      and k: "claim_kinds sd q now exp ?ts ks tbl =
         (Inr (Some (claimed_job_of sd j ?ts)), mark_ids {job_id j} ?w now exp tbl)" by blast
    let ?t = "mark_ids {job_id j} ?w now exp tbl" and ?c = "claimed_job_of sd j ?ts"
    have "jobs_uniq sd ?t" using mark_ids_uniq [OF Suc.prems(1) j(1)] j(2) by (simp add: wanted_def)
    moreover have "\<forall>j' \<in> set ?t. wanted now ks j' \<longrightarrow> has_capabilities sd q j'"
      using wanted_mark [OF le] Suc.prems(2) by blast
    ultimately obtain new where new: "claim_loop sd q now exp ts ks n (out @ [?c]) ?t =
        (Inr ((out @ [?c]) @ new), mark_ids (cj_id ` set new) ?w now exp ?t)" "length new \<le> n"
      "distinct (map cj_id new)" "\<forall>c \<in> set new. \<exists>j' \<in> set ?t. cj_id c = job_id j' \<and> wanted now ks j'"
      "length new < n \<longrightarrow> (\<forall>j' \<in> set ?t. wanted now ks j' \<longrightarrow> job_id j' \<in> cj_id ` set new)"
      using Suc.IH by blast
    have old: "\<exists>j' \<in> set tbl. cj_id c = job_id j' \<and> wanted now ks j' \<and> job_id j' \<noteq> job_id j" if "c \<in> set new" for c
      using new(4) that wanted_mark [OF le] by (metis singleton_iff)
    have cid: "cj_id ?c = job_id j" by (simp add: claimed_job_of_def)
    have "mark_ids (cj_id ` set new) ?w now exp ?t = mark_ids (cj_id ` set (?c # new)) ?w now exp tbl"
      using old cid by (fastforce simp: mark_ids_def)
    moreover have "job_id j' \<in> cj_id ` set (?c # new)" if "length new < n" "j' \<in> set tbl" "wanted now ks j'" for j'
    proof (cases "job_id j' = job_id j")
      case False
      with that(2) have "j' \<in> set ?t" by (force simp: mark_ids_def)
      with new(5) that show ?thesis by auto
    qed (simp add: cid)
    ultimately show ?thesis
      using k new j old cid by (intro exI [of _ "?c # new"]) fastforce
  qed
qed

section \<open>Leases\<close>

text \<open>
  The statements the operations run, on one row. A worker's statements interleave with those of
  the others, and the update of a claim may run long after its select.
\<close>

datatype sq_stmt =
  StClaim nat int int nat | StProgress nat nat string int | StComplete nat nat string int
| StFail nat nat job_status string int | StExtend nat nat int int

fun sq_row :: "sq_stmt \<Rightarrow> sq_job \<Rightarrow> sq_job" where
  "sq_row (StClaim w now exp i) = update_row (claim_guard now i) (mark_claimed w now exp)"
| "sq_row (StProgress w i s now) = update_row (owned_by i w) (\<lambda>j. j\<lparr>progress := s, job_updated_at := now\<rparr>)"
| "sq_row (StComplete w i s now) =
     update_row (owned_by i w) (\<lambda>j. j\<lparr>job_status := Done, result := Some s, job_updated_at := now\<rparr>)"
| "sq_row (StFail w i st err now) = update_row (owned_by i w) (mark_failed st err now)"
| "sq_row (StExtend w i exp now) =
     update_row (owned_by i w) (\<lambda>j. j\<lparr>claim_expires_at := Some exp, job_updated_at := now\<rparr>)"

fun sq_actor :: "sq_stmt \<Rightarrow> nat option" where
  "sq_actor (StClaim w _ _ _) = Some w"
| "sq_actor (StProgress w _ _ _) = Some w"
| "sq_actor (StComplete w _ _ _) = Some w"
| "sq_actor (StFail w _ _ _ _) = Some w"
| "sq_actor (StExtend w _ _ _) = Some w"

fun sq_at :: "sq_stmt \<Rightarrow> int" where
  "sq_at (StClaim _ now _ _) = now"
| "sq_at (StProgress _ _ _ now) = now"
| "sq_at (StComplete _ _ _ now) = now"
| "sq_at (StFail _ _ _ _ now) = now"
| "sq_at (StExtend _ _ _ now) = now"

interpretation sq: lease_queue sq_row sq_actor sq_at
proof
  fix w t s and j :: sq_job
  assume l: "leased w t j" and a: "sq_actor s \<noteq> Some w" and n: "sq_at s \<le> t"
  show "sq_row s j = j"
    using l a n by (cases s) (auto simp: update_row_def owned_by_def leased_def claim_guard_def in_flight_def expired_def)
qed

text \<open>Every operation changes the table by such statements only.\<close>

lemma exec_update_rows:
  "exec_update uniq p f tbl = (r, tbl') \<Longrightarrow> tbl' = tbl \<or> tbl' = map (update_row p f) tbl"
  by (auto dest: exec_update_cases)

lemma claim_kind_rows:
  "claim_kind sd q now exp ts k tbl = (r, tbl') \<Longrightarrow>
     tbl' = tbl \<or> (\<exists>j \<in> set tbl. runnable now j \<and> tbl' = map (sq_row (StClaim (worker_id q) now exp (job_id j))) tbl)"
  by (auto simp: claim_kind_def claimable_def split: option.splits if_splits prod.splits sum.splits
      dest!: select_claimable_mem exec_update_rows)

text \<open>A row that is not runnable is not touched by a claim.\<close>

lemma claim_kind_keeps:
  assumes d: "distinct (map job_id tbl)" and j: "j \<in> set tbl" "\<not> runnable now j"
    and c: "claim_kind sd q now exp ts k tbl = (r, tbl')"
  shows "j \<in> set tbl' \<and> distinct (map job_id tbl')"
proof -
  from claim_kind_rows [OF c] show ?thesis
  proof
    assume "\<exists>j \<in> set tbl. runnable now j \<and> tbl' = map (sq_row (StClaim (worker_id q) now exp (job_id j))) tbl"
    then obtain j' where j': "j' \<in> set tbl" "runnable now j'"
      and t: "tbl' = map (sq_row (StClaim (worker_id q) now exp (job_id j'))) tbl" by blast
    have "job_id j \<noteq> job_id j'" using distinct_job_ids [OF d j(1) j'(1)] j(2) j'(2) by auto
    then have "sq_row (StClaim (worker_id q) now exp (job_id j')) j = j"
      by (simp add: update_row_def claim_guard_def)
    moreover have "map job_id tbl' = map job_id tbl" by (simp add: t update_row_def)
    ultimately show ?thesis using j(1) d t by (metis image_eqI list.set_map)
  qed (use d j in simp)
qed

lemma claim_kinds_keeps:
  "distinct (map job_id tbl) \<Longrightarrow> j \<in> set tbl \<Longrightarrow> \<not> runnable now j \<Longrightarrow>
   claim_kinds sd q now exp ts ks tbl = (r, tbl') \<Longrightarrow> j \<in> set tbl' \<and> distinct (map job_id tbl')"
proof (induction ks arbitrary: tbl)
  case (Cons k ks)
  obtain r1 t1 where k: "claim_kind sd q now exp ts k tbl = (r1, t1)" by fastforce
  from claim_kind_keeps [OF Cons.prems(1-3) k] Cons.IH [of t1] Cons.prems(3,4) k show ?case
    by (auto split: sum.splits option.splits)
qed simp

lemma claim_loop_keeps:
  "distinct (map job_id tbl) \<Longrightarrow> j \<in> set tbl \<Longrightarrow> \<not> runnable now j \<Longrightarrow>
   claim_loop sd q now exp ts ks n out tbl = (r, tbl') \<Longrightarrow> j \<in> set tbl'"
proof (induction n arbitrary: tbl out)
  case (Suc n)
  obtain r1 t1 where k: "claim_kinds sd q now exp (ts n + lease_secs q) ks tbl = (r1, t1)" by fastforce
  from claim_kinds_keeps [OF Suc.prems(1-3) k] Suc.IH [of t1] Suc.prems(3,4) k show ?case
    by (auto split: sum.splits option.splits)
qed simp

lemma update_keeps:
  assumes "affected (exec_update uniq p f tbl) = (r, tbl')" and "j \<in> set tbl" and "\<not> p j"
  shows "j \<in> set tbl'"
proof -
  from affectedE [OF assms(1)] obtain r' where "exec_update uniq p f tbl = (r', tbl')" by blast
  from exec_update_rows [OF this] assms(2,3) show ?thesis by (force simp: update_row_def)
qed

text \<open>A job held on its last attempt by \<open>w\<close>.\<close>

definition exhausted :: "nat \<Rightarrow> sq_job \<Rightarrow> bool" where
  "exhausted w j \<longleftrightarrow> in_flight j \<and> claimed_by j = Some w \<and> max_attempts j \<le> attempt j"

lemma exhausted_step:
  assumes inv: "jobs_inv sd tbl" and j: "j \<in> set tbl" "exhausted w j"
    and s: "sq_step sd a tbl tbl'" and a: "a \<noteq> Some w"
  shows "j \<in> set tbl'"
  using s
proof cases
  case (enq ej i tenant now r)
  with j show ?thesis
    by (auto simp: enqueue_def insert_or_nothing_def Let_def split: option.splits if_splits)
next
  case (clm q now now' ts kinds n rc)
  have "\<not> runnable now j" using j(2) by (auto simp: exhausted_def runnable_def in_flight_def)
  with clm(2) inv j(1) show ?thesis
    by (auto simp: claim_def jobs_inv_def jobs_uniq_def intro: claim_loop_keeps)
next
  case (prg q now i v rb)
  with a j show ?thesis
    by (cases "to_text sd v") (auto simp: progress_job_def owned_by_def exhausted_def elim: update_keeps)
next
  case (cmp q now i v rb)
  with a j show ?thesis
    by (cases "to_text sd v") (auto simp: complete_def owned_by_def exhausted_def elim: update_keeps)
next
  case (fl q now i err rb)
  with a j show ?thesis by (auto simp: fail_def Let_def owned_by_def exhausted_def elim: update_keeps)
next
  case (ftm q now i err rb)
  with a j show ?thesis by (auto simp: fail_terminal_def owned_by_def exhausted_def elim: update_keeps)
next
  case (ext q now now' i secs rb)
  with a j show ?thesis by (auto simp: extend_lease_def owned_by_def exhausted_def elim: update_keeps)
qed

text \<open>Steps taken by everyone but \<open>w\<close>.\<close>

definition others_step :: "serde \<Rightarrow> nat \<Rightarrow> sq_job list \<Rightarrow> sq_job list \<Rightarrow> bool" where
  "others_step sd w tbl tbl' \<longleftrightarrow> (\<exists>a. a \<noteq> Some w \<and> sq_step sd a tbl tbl')"

lemma fold_rows: "fold (\<lambda>s. map (sq_row s)) ss tbl = map (fold sq_row ss) tbl"
  by (induction ss arbitrary: tbl) auto

section \<open>A concrete queue\<close>

definition ex_serde :: serde where
  "ex_serde = \<lparr>to_text = (\<lambda>_. Some ''{}''), from_text = (\<lambda>_. Some (JObject [])),
     caps_to_text = (\<lambda>cs. Some (concat cs)), caps_from_text = (\<lambda>s. Some (if s = [] then [] else [s])),
     sync_fields = (\<lambda>_. None)\<rparr>"

definition ex_queue :: sqlite_queue where
  "ex_queue = \<lparr>worker_id = 1, capabilities = [''gpu''], lease_secs = 60\<rparr>"

definition ex_job :: "nat \<Rightarrow> string \<Rightarrow> int \<Rightarrow> sq_job" where
  "ex_job i caps prio =
     new_job i 0 \<lparr>ej_kind = ''fts'', ej_payload = JNull, ej_priority = prio, ej_req_capabilities = [],
       ej_max_attempts = 1\<rparr> ''{}'' ''{}'' caps 10"

lemma ex_uniq: "jobs_uniq ex_serde [ex_job 5 [] 0, ex_job 6 [] 1]"
  by (simp add: jobs_uniq_def map_filter_simps sync_key_def ex_serde_def ex_job_def new_job_def)

lemma ex_enqueue: "sq_reachable ex_serde [ex_job 5 [] 0]"
proof -
  let ?e = "\<lparr>ej_kind = ''fts'', ej_payload = JNull, ej_priority = 0, ej_req_capabilities = [], ej_max_attempts = 1\<rparr>"
  have "enqueue ex_serde 5 0 ?e 10 [] = (Inr (Some 5), [ex_job 5 [] 0])"
    by (simp add: enqueue_def ex_serde_def insert_or_nothing_def jobs_uniq_def map_filter_simps sync_key_def
        ex_job_def new_job_def)
  from sq_step.enq [OF _ this] sq_reachable.empty show ?thesis by (auto intro: sq_reachable.step)
qed

definition ex_claimed :: sq_job where
  "ex_claimed = mark_claimed 1 100 160 (ex_job 5 [] 0)"

lemma ex_claimed_facts:
  "jobs_uniq ex_serde [ex_claimed]" "leased 1 160 ex_claimed" "exhausted 1 ex_claimed"
  "jobs_inv ex_serde [ex_claimed]"
  by (simp_all add: jobs_uniq_def map_filter_simps sync_key_def ex_serde_def ex_claimed_def mark_claimed_def
      ex_job_def new_job_def leased_def in_flight_def exhausted_def jobs_inv_def job_ok_def)

section \<open>Properties\<close>





text \<open>
  C32: While a worker's lease is live no statement of another worker changes the
  job, whatever they run and however the statements interleave, even a claim whose select ran
  before the job was leased.
\<close>

theorem sqlite_lease_exclusive:
  assumes "k < length tbl" and "leased w t (tbl ! k)"
    and "\<forall>s \<in> set ss. sq_actor s \<noteq> Some w \<and> sq_at s \<le> t"
  shows "fold (\<lambda>s. map (sq_row s)) ss tbl ! k = tbl ! k"
  using assms(1) sq.lease_exclusive [OF assms(2,3)] by (simp add: fold_rows)

theorem sqlite_lease_exclusive_witness:
  "fold (\<lambda>s. map (sq_row s)) [StClaim 2 150 210 5, StFail 2 5 Failed ''x'' 155] [ex_claimed] ! 0 = ex_claimed"
  using sqlite_lease_exclusive [of 0 "[ex_claimed]" 1 160 "[StClaim 2 150 210 5, StFail 2 5 Failed ''x'' 155]"]
    ex_claimed_facts by simp

text \<open>
  A job claimed on its last attempt whose worker is gone stays as it is: no
  step of any other worker, at any time after the lease has expired, claims, fails or finishes it.
  (The Postgres queue has a sweep that fails such jobs.)
\<close>

theorem exhausted_job_stuck:
  assumes "jobs_inv sd tbl" and "j \<in> set tbl" and "exhausted w j" and "(others_step sd w)\<^sup>*\<^sup>* tbl tbl'"
  shows "j \<in> set tbl'"
proof -
  from assms(4) have "jobs_inv sd tbl' \<and> j \<in> set tbl'"
  proof (induction rule: rtranclp_induct)
    case base
    show ?case using assms by simp
  next
    case (step y z)
    then show ?case
      using sq_step_inv exhausted_step [OF _ _ assms(3)] by (auto simp: others_step_def)
  qed
  then show ?thesis ..
qed

theorem exhausted_job_stuck_witness:
  "exhausted 1 ex_claimed \<and> expired 1000 ex_claimed \<and>
   (others_step ex_serde 1)\<^sup>*\<^sup>* [ex_claimed] (snd (claim ex_serde (ex_queue\<lparr>worker_id := 2\<rparr>) 1000 1000 (\<lambda>_. 0) [''fts''] 1 [ex_claimed])) \<and>
   ex_claimed \<in> set (snd (claim ex_serde (ex_queue\<lparr>worker_id := 2\<rparr>) 1000 1000 (\<lambda>_. 0) [''fts''] 1 [ex_claimed]))"
proof -
  let ?q = "ex_queue\<lparr>worker_id := 2\<rparr>"
  let ?r = "claim ex_serde ?q 1000 1000 (\<lambda>_. 0) [''fts''] 1 [ex_claimed]"
  have "sq_step ex_serde (Some (worker_id ?q)) [ex_claimed] (snd ?r)"
    by (rule sq_step.clm [where rc = "fst ?r"]) simp
  then have s: "(others_step ex_serde 1)\<^sup>*\<^sup>* [ex_claimed] (snd ?r)"
    unfolding others_step_def by (intro r_into_rtranclp exI [of _ "Some (worker_id ?q)"]) simp
  moreover have "expired 1000 ex_claimed" by (simp add: expired_def ex_claimed_def mark_claimed_def)
  ultimately show ?thesis
    using exhausted_job_stuck [OF ex_claimed_facts(4) _ ex_claimed_facts(3) s] ex_claimed_facts(3) by simp
qed

text \<open>
  When the runnable job that comes first in priority order needs a capability the
  worker lacks, a claim of its kind returns nothing and changes nothing, whatever other runnable
  jobs of that kind the worker could execute.
\<close>

theorem claim_blocked_by_first:
  assumes "select_claimable now k tbl = Some j" and "\<not> has_capabilities sd q j"
  shows "claim sd q now now' ts [k] n tbl = (Inr [], tbl)"
  using assms by (cases n) (simp_all add: claim_def claim_kind_def)

theorem claim_blocked_by_first_witness:
  "wanted 100 [''fts''] (ex_job 5 [] 0) \<and> has_capabilities ex_serde ex_queue (ex_job 5 [] 0) \<and>
   claim ex_serde ex_queue 100 100 (\<lambda>_. 100) [''fts''] 2 [ex_job 5 [] 0, ex_job 6 ''tpu'' 1] =
     (Inr [], [ex_job 5 [] 0, ex_job 6 ''tpu'' 1])"
proof -
  have "select_claimable 100 ''fts'' [ex_job 5 [] 0, ex_job 6 ''tpu'' 1] = Some (ex_job 6 ''tpu'' 1)"
    "\<not> has_capabilities ex_serde ex_queue (ex_job 6 ''tpu'' 1)"
    by (simp_all add: select_claimable_def claimable_def runnable_def by_priority_def ex_job_def new_job_def
        has_capabilities_def ex_serde_def ex_queue_def)
  from claim_blocked_by_first [OF this] show ?thesis
    by (simp add: wanted_def runnable_def ex_job_def new_job_def has_capabilities_def ex_serde_def)
qed

text \<open>
  The worker that completed a job can fail it afterwards: \<open>complete\<close> keeps the
  owner and \<open>fail\<close> does not look at the status, so a done job with attempts left is pending again.
  (The Postgres queue refuses it.)
\<close>

theorem done_job_reopened:
  assumes u: "jobs_uniq sd tbl" and j: "j \<in> set tbl" "job_status j = Done" "claimed_by j = Some (worker_id q)"
    and "attempt j < max_attempts j" and k: "job_kind j \<noteq> ''data_source_sync''"
  shows "\<exists>tbl'. fail sd q now (job_id j) err tbl = (Inr True, tbl') \<and> mark_failed Pending err now j \<in> set tbl'"
proof -
  let ?p = "owned_by (job_id j) (worker_id q)" and ?f = "mark_failed Pending err now"
  have f: "find_job (job_id j) tbl = Some j" using u j(1) by (simp add: find_job_unique jobs_uniq_def)
  have only: "?p x \<longleftrightarrow> x = j" if "x \<in> set tbl" for x
    using that u j distinct_job_ids [of tbl x j] by (auto simp: owned_by_def jobs_uniq_def)
  have m: "map (update_row ?p ?f) tbl = map (\<lambda>x. if x = j then ?f x else x) tbl"
    using only by (intro map_cong refl) (simp add: update_row_def)
  have "jobs_uniq sd (map (\<lambda>x. if x = j then ?f x else x) tbl)"
    by (rule jobs_uniq_map [OF u]) (use k in \<open>auto simp: mark_failed_def sync_key_def\<close>)
  moreover have "0 < length (filter ?p tbl)" using j(1) only by (auto simp: filter_empty_conv)
  ultimately have "fail sd q now (job_id j) err tbl = (Inr True, map (\<lambda>x. if x = j then ?f x else x) tbl)"
    using assms(5) by (simp add: fail_def f exec_update_def Let_def m affected_def)
  with j(1) show ?thesis by force
qed

theorem done_job_reopened_witness:
  "\<exists>tbl'. fail ex_serde ex_queue 7 5 ''late'' [ex_claimed\<lparr>job_status := Done, max_attempts := 3\<rparr>] = (Inr True, tbl') \<and>
     mark_failed Pending ''late'' 7 (ex_claimed\<lparr>job_status := Done, max_attempts := 3\<rparr>) \<in> set tbl'"
  using done_job_reopened [of ex_serde "[ex_claimed\<lparr>job_status := Done, max_attempts := 3\<rparr>]"
      "ex_claimed\<lparr>job_status := Done, max_attempts := 3\<rparr>" ex_queue 7 "''late''"]
  by (simp add: ex_queue_def ex_claimed_def mark_claimed_def ex_job_def new_job_def jobs_uniq_def map_filter_simps
      sync_key_def ex_serde_def in_flight_def)

end
