(* ===== verification/Pg_Fabric.thy ===== *)
theory Pg_Fabric
  imports Jobs
begin

text \<open>
  The Postgres worker and job fabric (\<open>pensieve-catalog/src/fabric.rs\<close>): worker registration,
  heartbeat and revocation, and the placement-aware job queue with its sweep of stale leases.

  Each method is one SQL statement (the sweep is three), so a method is atomic and concurrent
  calls are sequences of methods; rows locked by a concurrent claim (\<open>SKIP LOCKED\<close>) belong to
  another position of that sequence. The constraints of the \<open>jobs\<close> table (primary key, foreign
  key, partial unique indexes of the migrations) are a parameter \<open>cons\<close>; \<open>index_laws\<close> says what is
  used of them. Fresh identifiers and \<open>now()\<close> are arguments.
\<close>

section \<open>Tables\<close>

record pg_job = "(json, string list) job" +
  affinity_worker_id :: "nat option"
  label_selector :: json
  dreaming_run_id :: "nat option"

datatype worker_kind = Embedded | Daemon

datatype worker_status = Online | Draining | Offline

record worker =
  w_id :: nat
  w_tenant :: nat
  w_name :: string
  w_hostname :: "string option"
  w_kind :: worker_kind
  w_token_hash :: "string option"
  w_capabilities :: "string list"
  w_labels :: json
  w_sources :: json
  w_status :: worker_status
  w_max_concurrent :: int
  w_version :: "string option"
  w_presence :: json
  w_last_heartbeat :: "int option"
  w_created_at :: int
  w_updated_at :: int

record worker_registration =
  wr_name :: string
  wr_hostname :: "string option"
  wr_capabilities :: "string list"
  wr_labels :: json
  wr_sources :: json
  wr_max_concurrent :: int
  wr_version :: "string option"

record worker_auth =
  wa_worker_id :: nat
  wa_tenant :: nat
  wa_capabilities :: "string list"
  wa_status :: worker_status

definition worker_status_str :: "worker_status \<Rightarrow> string" where
  "worker_status_str s = (case s of Online \<Rightarrow> ''online'' | Draining \<Rightarrow> ''draining'' | Offline \<Rightarrow> ''offline'')"

definition parse_worker_status :: "string \<Rightarrow> worker_status" where
  "parse_worker_status s = (if s = ''online'' then Online else if s = ''draining'' then Draining else Offline)"

definition job_status_str :: "job_status \<Rightarrow> string" where
  "job_status_str s = (case s of Pending \<Rightarrow> ''pending'' | Claimed \<Rightarrow> ''claimed'' | Running \<Rightarrow> ''running''
     | Done \<Rightarrow> ''done'' | Failed \<Rightarrow> ''failed'' | Canceled \<Rightarrow> ''canceled'')"

definition parse_job_status :: "string \<Rightarrow> job_status" where
  "parse_job_status s =
     (if s = ''pending'' then Pending else if s = ''claimed'' then Claimed
      else if s = ''running'' then Running else if s = ''done'' then Done
      else if s = ''canceled'' then Canceled else Failed)"

section \<open>Workers\<close>

text \<open>The unique constraint on (tenant, name): a violation is an error.\<close>

definition same_worker :: "nat \<Rightarrow> string \<Rightarrow> worker \<Rightarrow> bool" where
  "same_worker tenant name w \<longleftrightarrow> w_tenant w = tenant \<and> w_name w = name"

definition create_worker :: "nat \<Rightarrow> int \<Rightarrow> nat \<Rightarrow> string \<Rightarrow> string \<Rightarrow> string list \<Rightarrow> json \<Rightarrow> worker list
    \<Rightarrow> (queue_error + nat) \<times> worker list" where
  "create_worker i now tenant name hash caps labels ws =
     (if list_ex (same_worker tenant name) ws then (Inl ConstraintViolation, ws)
      else (Inr i, ws @ [\<lparr>w_id = i, w_tenant = tenant, w_name = name, w_hostname = None, w_kind = Daemon,
        w_token_hash = Some hash, w_capabilities = caps, w_labels = labels, w_sources = JObject [],
        w_status = Offline, w_max_concurrent = 1, w_version = None, w_presence = JArray [],
        w_last_heartbeat = None, w_created_at = now, w_updated_at = now\<rparr>]))"

definition authenticate_worker :: "string \<Rightarrow> worker list \<Rightarrow> worker_auth option" where
  "authenticate_worker hash ws =
     map_option (\<lambda>w. \<lparr>wa_worker_id = w_id w, wa_tenant = w_tenant w, wa_capabilities = w_capabilities w,
         wa_status = w_status w\<rparr>)
       (List.find (\<lambda>w. w_token_hash w = Some hash) ws)"

definition register_worker :: "int \<Rightarrow> nat \<Rightarrow> worker_registration \<Rightarrow> worker list \<Rightarrow> worker list" where
  "register_worker now i reg ws = map (update_row (\<lambda>w. w_id w = i)
     (\<lambda>w. w\<lparr>w_hostname := wr_hostname reg, w_capabilities := wr_capabilities reg, w_labels := wr_labels reg,
        w_sources := wr_sources reg, w_max_concurrent := wr_max_concurrent reg, w_version := wr_version reg,
        w_status := Online, w_last_heartbeat := Some now, w_updated_at := now\<rparr>)) ws"

definition upsert_embedded_worker :: "nat \<Rightarrow> int \<Rightarrow> nat \<Rightarrow> worker_registration \<Rightarrow> worker list \<Rightarrow> nat \<times> worker list" where
  "upsert_embedded_worker i now tenant reg ws =
     (case List.find (same_worker tenant (wr_name reg)) ws of
        None \<Rightarrow> (i, ws @ [\<lparr>w_id = i, w_tenant = tenant, w_name = wr_name reg, w_hostname = wr_hostname reg,
          w_kind = Embedded, w_token_hash = None, w_capabilities = wr_capabilities reg,
          w_labels = wr_labels reg, w_sources = wr_sources reg, w_status = Online,
          w_max_concurrent = wr_max_concurrent reg, w_version = wr_version reg, w_presence = JArray [],
          w_last_heartbeat = Some now, w_created_at = now, w_updated_at = now\<rparr>])
      | Some w0 \<Rightarrow> (w_id w0, map (update_row (same_worker tenant (wr_name reg))
          (\<lambda>w. w\<lparr>w_hostname := wr_hostname reg, w_capabilities := wr_capabilities reg, w_labels := wr_labels reg,
             w_sources := wr_sources reg, w_max_concurrent := wr_max_concurrent reg, w_version := wr_version reg,
             w_status := Online, w_last_heartbeat := Some now, w_updated_at := now\<rparr>)) ws))"

text \<open>\<open>fetch_one\<close> fails when no row matches.\<close>

definition touch_heartbeat :: "int \<Rightarrow> nat \<Rightarrow> json \<Rightarrow> json option \<Rightarrow> worker list
    \<Rightarrow> worker_status option \<times> worker list" where
  "touch_heartbeat now i presence srcs ws =
     (let ws' = map (update_row (\<lambda>w. w_id w = i)
          (\<lambda>w. w\<lparr>w_last_heartbeat := Some now, w_presence := presence,
             w_sources := (case srcs of None \<Rightarrow> w_sources w | Some s \<Rightarrow> s),
             w_status := (if w_status w = Offline then Online else w_status w), w_updated_at := now\<rparr>)) ws in
      (map_option w_status (List.find (\<lambda>w. w_id w = i) ws'), ws'))"

definition set_worker_status :: "int \<Rightarrow> nat \<Rightarrow> worker_status \<Rightarrow> worker list \<Rightarrow> worker list" where
  "set_worker_status now i st ws =
     map (update_row (\<lambda>w. w_id w = i) (\<lambda>w. w\<lparr>w_status := st, w_updated_at := now\<rparr>)) ws"

definition revoke_worker :: "int \<Rightarrow> nat \<Rightarrow> nat \<Rightarrow> worker list \<Rightarrow> bool \<times> worker list" where
  "revoke_worker now tenant i ws =
     (let p = (\<lambda>w. w_id w = i \<and> w_tenant w = tenant) in
      (list_ex p ws, map (update_row p (\<lambda>w. w\<lparr>w_token_hash := None, w_status := Offline, w_updated_at := now\<rparr>)) ws))"

section \<open>Jobs\<close>

definition pg_new_job :: "nat \<Rightarrow> nat \<Rightarrow> enqueue_job \<Rightarrow> nat option \<Rightarrow> json \<Rightarrow> int \<Rightarrow> pg_job" where
  "pg_new_job i tenant ej aff sel now =
     job.extend (new_job i tenant ej (JObject []) (ej_payload ej) (ej_req_capabilities ej) now)
       (pg_job.fields aff sel None)"

definition pg_enqueue_job :: "(pg_job list \<Rightarrow> bool) \<Rightarrow> nat \<Rightarrow> nat \<Rightarrow> enqueue_job \<Rightarrow> nat option \<Rightarrow> json \<Rightarrow> int
    \<Rightarrow> pg_job list \<Rightarrow> nat option \<times> pg_job list" where
  "pg_enqueue_job cons i tenant ej aff sel now tbl =
     (let (ok, tbl') = insert_or_nothing cons (pg_new_job i tenant ej aff sel now) tbl in
      (if ok then Some i else None, tbl'))"

text \<open>The \<open>WHERE\<close> and the \<open>ORDER BY\<close> of the claim.\<close>

definition eligible :: "nat \<Rightarrow> nat option \<Rightarrow> string list \<Rightarrow> string list \<Rightarrow> int \<Rightarrow> pg_job \<Rightarrow> bool" where
  "eligible w tenant caps kinds now j \<longleftrightarrow>
     job_kind j \<in> set kinds \<and>
     (case tenant of None \<Rightarrow> True | Some t \<Rightarrow> job_tenant j = t) \<and>
     (affinity_worker_id j = Some w \<or> affinity_worker_id j = None) \<and>
     list_all (\<lambda>c. c \<in> set caps) (req_capabilities j) \<and>
     runnable now j"

definition pinned_first :: "nat \<Rightarrow> pg_job \<Rightarrow> pg_job \<Rightarrow> bool" where
  "pinned_first w a b \<longleftrightarrow>
     (let pa = (affinity_worker_id a = Some w); pb = (affinity_worker_id b = Some w) in
      (pa \<and> \<not> pb) \<or> (pa = pb \<and> by_priority a b))"

definition pg_mark_claimed :: "nat \<Rightarrow> int \<Rightarrow> int \<Rightarrow> pg_job \<Rightarrow> pg_job" where
  "pg_mark_claimed w now lease j = j\<lparr>job_status := Claimed, claimed_by := Some w,
     claim_expires_at := Some (now + lease), attempt := attempt j + 1, job_updated_at := now\<rparr>"

definition pg_claimed_job :: "pg_job \<Rightarrow> claimed_job" where
  "pg_claimed_job j = \<lparr>cj_id = job_id j, cj_tenant = job_tenant j, cj_kind = job_kind j, cj_payload = payload j,
     cj_attempt = attempt j, cj_max_attempts = max_attempts j,
     cj_claim_expires_at = (case claim_expires_at j of None \<Rightarrow> 0 | Some t \<Rightarrow> t)\<rparr>"

definition pg_claim_job :: "(pg_job list \<Rightarrow> bool) \<Rightarrow> nat \<Rightarrow> nat option \<Rightarrow> string list \<Rightarrow> string list \<Rightarrow> int \<Rightarrow> int
    \<Rightarrow> pg_job list \<Rightarrow> (queue_error + claimed_job option) \<times> pg_job list" where
  "pg_claim_job cons w tenant caps kinds lease now tbl =
     (case select_best (pinned_first w) (filter (eligible w tenant caps kinds now) tbl) of
        None \<Rightarrow> (Inr None, tbl)
      | Some j \<Rightarrow>
          (case exec_update cons (\<lambda>x. job_id x = job_id j) (pg_mark_claimed w now lease) tbl of
             (Inl e, tbl') \<Rightarrow> (Inl e, tbl')
           | (Inr _, tbl') \<Rightarrow> (Inr (Some (pg_claimed_job (pg_mark_claimed w now lease j))), tbl')))"

definition holds :: "nat \<Rightarrow> nat \<Rightarrow> pg_job \<Rightarrow> bool" where
  "holds i w j \<longleftrightarrow> owned_by i w j \<and> in_flight j"

definition pg_job_progress :: "(pg_job list \<Rightarrow> bool) \<Rightarrow> int \<Rightarrow> nat \<Rightarrow> nat \<Rightarrow> json \<Rightarrow> pg_job list
    \<Rightarrow> (queue_error + bool) \<times> pg_job list" where
  "pg_job_progress cons now i w snapshot tbl = affected (exec_update cons (holds i w)
     (\<lambda>j. j\<lparr>progress := snapshot, job_status := (if job_status j = Claimed then Running else job_status j),
        job_updated_at := now\<rparr>) tbl)"

definition pg_complete_job :: "(pg_job list \<Rightarrow> bool) \<Rightarrow> int \<Rightarrow> nat \<Rightarrow> nat \<Rightarrow> json \<Rightarrow> pg_job list
    \<Rightarrow> (queue_error + bool) \<times> pg_job list" where
  "pg_complete_job cons now i w res tbl = affected (exec_update cons (holds i w)
     (\<lambda>j. j\<lparr>job_status := Done, result := Some res, claim_expires_at := None, job_updated_at := now\<rparr>) tbl)"

definition pg_fail_row :: "string \<Rightarrow> int \<Rightarrow> pg_job \<Rightarrow> pg_job" where
  "pg_fail_row err now j =
     j\<lparr>job_status := (if attempt j \<ge> max_attempts j then Failed else Pending),
       claimed_by := (if attempt j \<ge> max_attempts j then claimed_by j else None),
       claim_expires_at := None, last_error := Some err, job_updated_at := now\<rparr>"

definition pg_fail_job :: "(pg_job list \<Rightarrow> bool) \<Rightarrow> int \<Rightarrow> nat \<Rightarrow> nat \<Rightarrow> string \<Rightarrow> pg_job list
    \<Rightarrow> (queue_error + bool) \<times> pg_job list" where
  "pg_fail_job cons now i w err tbl = affected (exec_update cons (holds i w) (pg_fail_row err now) tbl)"

definition pg_fail_job_terminal :: "(pg_job list \<Rightarrow> bool) \<Rightarrow> int \<Rightarrow> nat \<Rightarrow> nat \<Rightarrow> string \<Rightarrow> pg_job list
    \<Rightarrow> (queue_error + bool) \<times> pg_job list" where
  "pg_fail_job_terminal cons now i w err tbl = affected (exec_update cons (holds i w)
     (\<lambda>j. j\<lparr>job_status := Failed, claim_expires_at := None, last_error := Some err, job_updated_at := now\<rparr>) tbl)"

definition pg_extend_lease :: "(pg_job list \<Rightarrow> bool) \<Rightarrow> int \<Rightarrow> nat \<Rightarrow> nat \<Rightarrow> int \<Rightarrow> pg_job list
    \<Rightarrow> (queue_error + bool) \<times> pg_job list" where
  "pg_extend_lease cons now i w lease tbl = affected (exec_update cons (holds i w)
     (\<lambda>j. j\<lparr>claim_expires_at := Some (now + lease), job_updated_at := now\<rparr>) tbl)"

definition pg_link_dreaming_run :: "(pg_job list \<Rightarrow> bool) \<Rightarrow> int \<Rightarrow> nat \<Rightarrow> nat \<Rightarrow> pg_job list
    \<Rightarrow> (queue_error + nat) \<times> pg_job list" where
  "pg_link_dreaming_run cons now i run tbl =
     exec_update cons (\<lambda>j. job_id j = i) (\<lambda>j. j\<lparr>dreaming_run_id := Some run, job_updated_at := now\<rparr>) tbl"

text \<open>The three statements of the sweep.\<close>

definition error_note :: "string option \<Rightarrow> string \<Rightarrow> string option" where
  "error_note e note = Some ((case e of None \<Rightarrow> [] | Some s \<Rightarrow> s) @ note)"

definition requeue_row :: "int \<Rightarrow> pg_job \<Rightarrow> pg_job" where
  "requeue_row now j = j\<lparr>job_status := Pending, claimed_by := None, claim_expires_at := None,
     last_error := error_note (last_error j) '' [recovered: stale lease]'', job_updated_at := now\<rparr>"

definition fail_stale_row :: "int \<Rightarrow> pg_job \<Rightarrow> pg_job" where
  "fail_stale_row now j = j\<lparr>job_status := Failed, claim_expires_at := None,
     last_error := error_note (last_error j) '' [failed: lease expired, attempts exhausted]'',
     job_updated_at := now\<rparr>"

definition stale :: "int \<Rightarrow> pg_job \<Rightarrow> bool" where
  "stale now j \<longleftrightarrow> in_flight j \<and> expired now j"

definition silent :: "int \<Rightarrow> int \<Rightarrow> worker \<Rightarrow> bool" where
  "silent now after w \<longleftrightarrow> (w_status w = Online \<or> w_status w = Draining) \<and>
     (case w_last_heartbeat w of None \<Rightarrow> True | Some t \<Rightarrow> t < now - after)"

definition sweep_stale :: "(pg_job list \<Rightarrow> bool) \<Rightarrow> int \<Rightarrow> int \<Rightarrow> pg_job list \<times> worker list
    \<Rightarrow> (queue_error + nat \<times> nat \<times> nat) \<times> pg_job list \<times> worker list" where
  "sweep_stale cons now after st =
     (let (tbl, ws) = st in
      case exec_update cons (\<lambda>j. stale now j \<and> attempt j < max_attempts j) (requeue_row now) tbl of
        (Inl e, t1) \<Rightarrow> (Inl e, t1, ws)
      | (Inr requeued, t1) \<Rightarrow>
          (case exec_update cons (\<lambda>j. stale now j \<and> attempt j \<ge> max_attempts j) (fail_stale_row now) t1 of
             (Inl e, t2) \<Rightarrow> (Inl e, t2, ws)
           | (Inr failed, t2) \<Rightarrow>
               (Inr (requeued, failed, length (filter (silent now after) ws)), t2,
                map (update_row (silent now after) (\<lambda>w. w\<lparr>w_status := Offline, w_updated_at := now\<rparr>)) ws)))"

definition get_job :: "nat \<Rightarrow> nat \<Rightarrow> pg_job list \<Rightarrow> pg_job option" where
  "get_job tenant i tbl = List.find (\<lambda>j. job_tenant j = tenant \<and> job_id j = i) tbl"

definition list_jobs :: "nat \<Rightarrow> string option \<Rightarrow> string option \<Rightarrow> nat \<Rightarrow> pg_job list \<Rightarrow> pg_job list" where
  "list_jobs tenant k st limit tbl = take limit (sort_key (\<lambda>j. - job_created_at j)
     (filter (\<lambda>j. job_tenant j = tenant \<and>
        (case k of None \<Rightarrow> True | Some x \<Rightarrow> job_kind j = x) \<and>
        (case st of None \<Rightarrow> True | Some x \<Rightarrow> job_status_str (job_status j) = x)) tbl))"

section \<open>Steps and constraints\<close>

text \<open>The columns the partial unique indexes of the migrations read.\<close>

definition index_key :: "pg_job \<Rightarrow> string \<times> json \<times> nat option \<times> bool" where
  "index_key j = (job_kind j, payload j, affinity_worker_id j, job_status j = Pending \<or> in_flight j)"

text \<open>
  The primary key holds, and an update that keeps the indexed columns of each row, or takes the row
  out of the indexes' condition, breaks no constraint.
\<close>

definition index_laws :: "(pg_job list \<Rightarrow> bool) \<Rightarrow> bool" where
  "index_laws cons \<longleftrightarrow>
     (\<forall>t. cons t \<longrightarrow> distinct (map job_id t)) \<and>
     (\<forall>t f. cons t \<and> (\<forall>j \<in> set t. job_id (f j) = job_id j \<and>
         (index_key (f j) = index_key j \<or> \<not> snd (snd (snd (index_key (f j)))))) \<longrightarrow> cons (map f t))"

inductive pg_step :: "(pg_job list \<Rightarrow> bool) \<Rightarrow> pg_job list \<Rightarrow> pg_job list \<Rightarrow> bool" for cons where
  enq: "pg_enqueue_job cons i tenant ej aff sel now tbl = (r, tbl') \<Longrightarrow> pg_step cons tbl tbl'"
| clm: "pg_claim_job cons w tn caps kinds lease now tbl = (rc, tbl') \<Longrightarrow> pg_step cons tbl tbl'"
| prg: "pg_job_progress cons now i w v tbl = (rb, tbl') \<Longrightarrow> pg_step cons tbl tbl'"
| cmp: "pg_complete_job cons now i w v tbl = (rb, tbl') \<Longrightarrow> pg_step cons tbl tbl'"
| fl: "pg_fail_job cons now i w err tbl = (rb, tbl') \<Longrightarrow> pg_step cons tbl tbl'"
| ftm: "pg_fail_job_terminal cons now i w err tbl = (rb, tbl') \<Longrightarrow> pg_step cons tbl tbl'"
| ext: "pg_extend_lease cons now i w lease tbl = (rb, tbl') \<Longrightarrow> pg_step cons tbl tbl'"
| lnk: "pg_link_dreaming_run cons now i run tbl = (rn, tbl') \<Longrightarrow> pg_step cons tbl tbl'"
| swp: "sweep_stale cons now after (tbl, ws) = (rs, tbl', ws') \<Longrightarrow> pg_step cons tbl tbl'"

text \<open>The effect of every step but an enqueue, row by row.\<close>

inductive row_update :: "pg_job \<Rightarrow> pg_job \<Rightarrow> bool" where
  same: "row_update j j"
| claim: "runnable now j \<Longrightarrow> row_update j (pg_mark_claimed w now lease j)"
| progress: "in_flight j \<Longrightarrow> row_update j (j\<lparr>progress := v,
     job_status := (if job_status j = Claimed then Running else job_status j), job_updated_at := now\<rparr>)"
| complete: "in_flight j \<Longrightarrow> row_update j (j\<lparr>job_status := Done, result := Some v, claim_expires_at := None, job_updated_at := now\<rparr>)"
| fail: "in_flight j \<Longrightarrow> row_update j (pg_fail_row err now j)"
| terminal: "in_flight j \<Longrightarrow> row_update j (j\<lparr>job_status := Failed, claim_expires_at := None, last_error := Some err, job_updated_at := now\<rparr>)"
| extend: "in_flight j \<Longrightarrow> row_update j (j\<lparr>claim_expires_at := Some t, job_updated_at := now\<rparr>)"
| link: "row_update j (j\<lparr>dreaming_run_id := Some run, job_updated_at := now\<rparr>)"
| requeue: "stale now j \<Longrightarrow> attempt j < max_attempts j \<Longrightarrow> row_update j (requeue_row now j)"
| fail_stale: "stale now j \<Longrightarrow> row_update j (fail_stale_row now j)"

lemma row_update_exec:
  assumes "exec_update cons p f tbl = (r, tbl')" and "\<And>j. j \<in> set tbl \<Longrightarrow> p j \<Longrightarrow> row_update j (f j)"
  shows "list_all2 row_update tbl tbl'"
  using exec_update_cases [OF assms(1)] assms(2)
  by (auto simp: list_all2_conv_all_nth update_row_def intro: row_update.same)

lemma affectedD: "affected x = (r, tbl) \<Longrightarrow> \<exists>r'. x = (r', tbl)"
  by (cases x) (auto simp: affected_def split: sum.splits)

lemma claim_rows:
  assumes d: "distinct (map job_id tbl)" and c: "pg_claim_job cons w tn caps kinds lease now tbl = (rc, tbl')"
  shows "list_all2 row_update tbl tbl'"
proof (cases "select_best (pinned_first w) (filter (eligible w tn caps kinds now) tbl)")
  case None
  with c show ?thesis by (simp add: pg_claim_job_def list_all2_same row_update.same)
next
  case (Some j)
  then have j: "j \<in> set tbl" "runnable now j" by (auto dest!: select_best_mem simp: eligible_def)
  from c Some obtain r where u: "exec_update cons (\<lambda>x. job_id x = job_id j) (pg_mark_claimed w now lease) tbl = (r, tbl')"
    by (auto simp: pg_claim_job_def split: prod.splits sum.splits)
  show ?thesis
  proof (rule row_update_exec [OF u])
    fix x assume "x \<in> set tbl" "job_id x = job_id j"
    with d j(1) have "x = j" by (meson distinct_map inj_onD)
    with j(2) show "row_update x (pg_mark_claimed w now lease x)" by (simp add: row_update.claim)
  qed
qed

lemma sweep_rows:
  assumes "sweep_stale cons now after (tbl, ws) = (rs, tbl', ws')"
  shows "\<exists>t1. list_all2 row_update tbl t1 \<and> list_all2 row_update t1 tbl'"
proof -
  obtain r1 t1 where u1: "exec_update cons (\<lambda>j. stale now j \<and> attempt j < max_attempts j) (requeue_row now) tbl = (r1, t1)"
    by fastforce
  obtain r2 t2 where u2: "exec_update cons (\<lambda>j. stale now j \<and> attempt j \<ge> max_attempts j) (fail_stale_row now) t1 = (r2, t2)"
    by fastforce
  have a: "list_all2 row_update tbl t1" by (rule row_update_exec [OF u1]) (simp add: row_update.requeue)
  have b: "list_all2 row_update t1 t2" by (rule row_update_exec [OF u2]) (simp add: row_update.fail_stale)
  have "list_all2 row_update t1 t1" by (simp add: list_all2_same row_update.same)
  with a b u1 u2 assms show ?thesis by (cases r1; cases r2) (auto simp: sweep_stale_def)
qed

lemma rows_once:
  "list_all2 row_update tbl tbl' \<Longrightarrow>
   (tbl' = tbl \<or> (\<exists>j. tbl' = tbl @ [j] \<and> cons tbl')) \<or> (\<exists>t1. list_all2 row_update tbl t1 \<and> list_all2 row_update t1 tbl')"
  by (meson list_all2_same row_update.same)

lemma pg_step_rows:
  assumes d: "distinct (map job_id tbl)" and s: "pg_step cons tbl tbl'"
  shows "(tbl' = tbl \<or> (\<exists>j. tbl' = tbl @ [j] \<and> cons tbl')) \<or> (\<exists>t1. list_all2 row_update tbl t1 \<and> list_all2 row_update t1 tbl')"
  using s
proof cases
  case (enq i tenant ej aff sel now r)
  then show ?thesis
    by (auto simp: pg_enqueue_job_def insert_or_nothing_def Let_def split: if_splits)
next
  case (clm w tn caps kinds lease now rc)
  from claim_rows [OF d this] show ?thesis by (rule rows_once)
next
  case (prg now i w v rb)
  from affectedD [OF this [unfolded pg_job_progress_def]] obtain r where
    u: "exec_update cons (holds i w) (\<lambda>j. j\<lparr>progress := v,
          job_status := (if job_status j = Claimed then Running else job_status j), job_updated_at := now\<rparr>) tbl = (r, tbl')"
    by blast
  have "list_all2 row_update tbl tbl'" by (rule row_update_exec [OF u], rule row_update.progress) (simp add: holds_def)
  then show ?thesis by (rule rows_once)
next
  case (cmp now i w v rb)
  from affectedD [OF this [unfolded pg_complete_job_def]] obtain r where
    u: "exec_update cons (holds i w) (\<lambda>j. j\<lparr>job_status := Done, result := Some v, claim_expires_at := None,
          job_updated_at := now\<rparr>) tbl = (r, tbl')" by blast
  have "list_all2 row_update tbl tbl'" by (rule row_update_exec [OF u]) (simp add: holds_def row_update.complete)
  then show ?thesis by (rule rows_once)
next
  case (fl now i w err rb)
  from affectedD [OF this [unfolded pg_fail_job_def]] obtain r where
    u: "exec_update cons (holds i w) (pg_fail_row err now) tbl = (r, tbl')" by blast
  have "list_all2 row_update tbl tbl'" by (rule row_update_exec [OF u]) (simp add: holds_def row_update.fail)
  then show ?thesis by (rule rows_once)
next
  case (ftm now i w err rb)
  from affectedD [OF this [unfolded pg_fail_job_terminal_def]] obtain r where
    u: "exec_update cons (holds i w) (\<lambda>j. j\<lparr>job_status := Failed, claim_expires_at := None,
          last_error := Some err, job_updated_at := now\<rparr>) tbl = (r, tbl')" by blast
  have "list_all2 row_update tbl tbl'" by (rule row_update_exec [OF u]) (simp add: holds_def row_update.terminal)
  then show ?thesis by (rule rows_once)
next
  case (ext now i w lease rb)
  from affectedD [OF this [unfolded pg_extend_lease_def]] obtain r where
    u: "exec_update cons (holds i w) (\<lambda>j. j\<lparr>claim_expires_at := Some (now + lease), job_updated_at := now\<rparr>) tbl = (r, tbl')"
    by blast
  have "list_all2 row_update tbl tbl'" by (rule row_update_exec [OF u]) (simp add: holds_def row_update.extend)
  then show ?thesis by (rule rows_once)
next
  case (lnk now i run rn)
  have "list_all2 row_update tbl tbl'"
    by (rule row_update_exec [OF lnk [unfolded pg_link_dreaming_run_def]]) (simp add: row_update.link)
  then show ?thesis by (rule rows_once)
next
  case (swp now after ws rs ws')
  from sweep_rows [OF this] show ?thesis by blast
qed

lemma row_update_id: "row_update j j' \<Longrightarrow> job_id j' = job_id j"
  by (induction rule: row_update.induct)
    (simp_all add: pg_mark_claimed_def pg_fail_row_def requeue_row_def fail_stale_row_def)

lemma rows_ids: "list_all2 row_update t t' \<Longrightarrow> map job_id t' = map job_id t"
  by (auto simp: list_all2_conv_all_nth list_eq_iff_nth_eq row_update_id)

lemma pg_step_ids:
  assumes c: "index_laws cons" and d: "distinct (map job_id tbl)" and s: "pg_step cons tbl tbl'"
  shows "distinct (map job_id tbl')"
  using pg_step_rows [OF d s]
proof
  assume "tbl' = tbl \<or> (\<exists>j. tbl' = tbl @ [j] \<and> cons tbl')"
  with c d show ?thesis by (auto simp: index_laws_def)
next
  assume "\<exists>t1. list_all2 row_update tbl t1 \<and> list_all2 row_update t1 tbl'"
  then have "map job_id tbl' = map job_id tbl" using rows_ids by metis
  with d show ?thesis by (simp only:)
qed

text \<open>Finished jobs.\<close>

definition finished :: "pg_job \<Rightarrow> bool" where
  "finished j \<longleftrightarrow> job_status j = Done \<or> job_status j = Failed \<or> job_status j = Canceled"

definition same_outcome :: "pg_job \<Rightarrow> pg_job \<Rightarrow> bool" where
  "same_outcome j j' \<longleftrightarrow> job_id j' = job_id j \<and> job_status j' = job_status j \<and> result j' = result j \<and>
     attempt j' = attempt j \<and> last_error j' = last_error j \<and> claimed_by j' = claimed_by j"

lemma finished_row: "row_update j j' \<Longrightarrow> finished j \<Longrightarrow> same_outcome j j'"
  by (induction rule: row_update.induct)
    (auto simp: finished_def same_outcome_def runnable_def in_flight_def stale_def)

lemma same_outcome_trans: "same_outcome a b \<Longrightarrow> same_outcome b c \<Longrightarrow> same_outcome a c"
  by (simp add: same_outcome_def)

lemma finished_rows:
  assumes "list_all2 row_update t t'" and "j \<in> set t" "finished j"
  shows "\<exists>j' \<in> set t'. same_outcome j j'"
  using assms by (induction rule: list_all2_induct) (auto dest: finished_row)

lemma finished_same: "finished j \<Longrightarrow> same_outcome j j' \<Longrightarrow> finished j'"
  by (simp add: finished_def same_outcome_def)

lemma finished_step:
  assumes d: "distinct (map job_id tbl)" and s: "pg_step cons tbl tbl'" and j: "j \<in> set tbl" "finished j"
  shows "\<exists>j' \<in> set tbl'. same_outcome j j'"
  using pg_step_rows [OF d s]
proof
  assume "tbl' = tbl \<or> (\<exists>j. tbl' = tbl @ [j] \<and> cons tbl')"
  with j show ?thesis by (auto simp: same_outcome_def)
next
  assume "\<exists>t1. list_all2 row_update tbl t1 \<and> list_all2 row_update t1 tbl'"
  then obtain t1 where t1: "list_all2 row_update tbl t1" "list_all2 row_update t1 tbl'" by blast
  from finished_rows [OF t1(1) j] obtain j1 where "j1 \<in> set t1" "same_outcome j j1" by blast
  with finished_rows [OF t1(2)] finished_same [OF j(2)] same_outcome_trans show ?thesis by blast
qed

section \<open>Leases\<close>

text \<open>
  The statements on one row: those of a worker, the sweep and the linkage of a run. A claim updates the
  row its own select picked, which is runnable.
\<close>

datatype pg_stmt =
  PgClaim nat int int nat | PgProgress nat nat json int | PgComplete nat nat json int | PgFail nat nat string int
| PgFailTerminal nat nat string int | PgExtend nat nat int int | PgRequeue int | PgFailStale int

fun pg_row :: "pg_stmt \<Rightarrow> pg_job \<Rightarrow> pg_job" where
  "pg_row (PgClaim w now lease i) = update_row (\<lambda>j. job_id j = i \<and> runnable now j) (pg_mark_claimed w now lease)"
| "pg_row (PgProgress w i v now) = update_row (holds i w) (\<lambda>j. j\<lparr>progress := v,
     job_status := (if job_status j = Claimed then Running else job_status j), job_updated_at := now\<rparr>)"
| "pg_row (PgComplete w i v now) = update_row (holds i w)
     (\<lambda>j. j\<lparr>job_status := Done, result := Some v, claim_expires_at := None, job_updated_at := now\<rparr>)"
| "pg_row (PgFail w i err now) = update_row (holds i w) (pg_fail_row err now)"
| "pg_row (PgFailTerminal w i err now) = update_row (holds i w)
     (\<lambda>j. j\<lparr>job_status := Failed, claim_expires_at := None, last_error := Some err, job_updated_at := now\<rparr>)"
| "pg_row (PgExtend w i t now) = update_row (holds i w) (\<lambda>j. j\<lparr>claim_expires_at := Some t, job_updated_at := now\<rparr>)"
| "pg_row (PgRequeue now) = update_row (\<lambda>j. stale now j \<and> attempt j < max_attempts j) (requeue_row now)"
| "pg_row (PgFailStale now) = update_row (\<lambda>j. stale now j \<and> attempt j \<ge> max_attempts j) (fail_stale_row now)"

fun pg_actor :: "pg_stmt \<Rightarrow> nat option" where
  "pg_actor (PgClaim w _ _ _) = Some w"
| "pg_actor (PgProgress w _ _ _) = Some w"
| "pg_actor (PgComplete w _ _ _) = Some w"
| "pg_actor (PgFail w _ _ _) = Some w"
| "pg_actor (PgFailTerminal w _ _ _) = Some w"
| "pg_actor (PgExtend w _ _ _) = Some w"
| "pg_actor (PgRequeue _) = None"
| "pg_actor (PgFailStale _) = None"

fun pg_at :: "pg_stmt \<Rightarrow> int" where
  "pg_at (PgClaim _ now _ _) = now"
| "pg_at (PgProgress _ _ _ now) = now"
| "pg_at (PgComplete _ _ _ now) = now"
| "pg_at (PgFail _ _ _ now) = now"
| "pg_at (PgFailTerminal _ _ _ now) = now"
| "pg_at (PgExtend _ _ _ now) = now"
| "pg_at (PgRequeue now) = now"
| "pg_at (PgFailStale now) = now"

interpretation pg: lease_queue pg_row pg_actor pg_at
proof
  fix w t s and j :: pg_job
  assume l: "leased w t j" and a: "pg_actor s \<noteq> Some w" and n: "pg_at s \<le> t"
  show "pg_row s j = j"
    using l a n by (cases s) (auto simp: update_row_def holds_def owned_by_def leased_def runnable_def in_flight_def
        expired_def stale_def)
qed

lemma pg_fold_rows: "fold (\<lambda>s. map (pg_row s)) ss tbl = map (fold pg_row ss) tbl"
  by (induction ss arbitrary: tbl) auto

section \<open>Claims and sweeps under the index laws\<close>

lemma index_laws_update:
  assumes "index_laws cons" and "cons tbl"
    and "\<And>j. j \<in> set tbl \<Longrightarrow> p j \<Longrightarrow> job_id (f j) = job_id j \<and>
          (index_key (f j) = index_key j \<or> \<not> snd (snd (snd (index_key (f j)))))"
  shows "exec_update cons p f tbl = (Inr (length (filter p tbl)), map (update_row p f) tbl) \<and>
    cons (map (update_row p f) tbl)"
proof -
  have "\<forall>j \<in> set tbl. job_id (update_row p f j) = job_id j \<and>
      (index_key (update_row p f j) = index_key j \<or> \<not> snd (snd (snd (index_key (update_row p f j)))))"
    using assms(3) by (simp add: update_row_def)
  with assms(1,2) have "cons (map (update_row p f) tbl)" unfolding index_laws_def by blast
  then show ?thesis by (simp add: exec_update_def)
qed

lemma claim_key: "runnable now j \<Longrightarrow> index_key (pg_mark_claimed w now lease j) = index_key j"
  by (auto simp: index_key_def pg_mark_claimed_def runnable_def in_flight_def)

lemma pg_claim_spec:
  assumes c: "index_laws cons" "cons tbl" and e: "j0 \<in> set tbl" "eligible w tn caps kinds now j0"
  shows "\<exists>j \<in> set tbl. eligible w tn caps kinds now j \<and>
    (\<forall>x \<in> set tbl. eligible w tn caps kinds now x \<longrightarrow> \<not> pinned_first w x j) \<and>
    pg_claim_job cons w tn caps kinds lease now tbl =
      (Inr (Some (pg_claimed_job (pg_mark_claimed w now lease j))),
       map (update_row (\<lambda>x. job_id x = job_id j) (pg_mark_claimed w now lease)) tbl)"
proof -
  let ?es = "filter (eligible w tn caps kinds now) tbl"
  from e have "?es \<noteq> []" by (auto simp: filter_empty_conv)
  then obtain j where j: "select_best (pinned_first w) ?es = Some j"
    by (cases "select_best (pinned_first w) ?es") auto
  then have m: "j \<in> set tbl" "eligible w tn caps kinds now j" by (auto dest!: select_best_mem)
  have first: "\<not> pinned_first w x j" if "x \<in> set ?es" for x
    by (rule select_best_first [OF _ _ _ j that]) (auto simp: pinned_first_def by_priority_def Let_def)
  have d: "distinct (map job_id tbl)" using c by (simp add: index_laws_def)
  have "job_id (pg_mark_claimed w now lease x) = job_id x \<and>
      (index_key (pg_mark_claimed w now lease x) = index_key x \<or> \<not> snd (snd (snd (index_key (pg_mark_claimed w now lease x)))))"
    if "x \<in> set tbl" "job_id x = job_id j" for x
  proof -
    from that d m(1) have "x = j" by (meson distinct_map inj_onD)
    with m(2) show ?thesis using claim_key [of now j] by (simp add: eligible_def pg_mark_claimed_def)
  qed
  from index_laws_update [OF c this] j m first show ?thesis
    by (intro bexI [of _ j]) (auto simp: pg_claim_job_def)
qed

lemma sweep_spec:
  assumes c: "index_laws cons" "cons tbl"
  shows "\<exists>tbl' ws'. sweep_stale cons now after (tbl, ws) =
      (Inr (length (filter (\<lambda>j. stale now j \<and> attempt j < max_attempts j) tbl),
            length (filter (\<lambda>j. stale now j \<and> attempt j \<ge> max_attempts j) tbl),
            length (filter (silent now after) ws)), tbl', ws') \<and>
    tbl' = map (\<lambda>j. if stale now j then (if attempt j < max_attempts j then requeue_row now j else fail_stale_row now j)
                    else j) tbl"
proof -
  let ?p1 = "\<lambda>j. stale now j \<and> attempt j < max_attempts j" and ?p2 = "\<lambda>j. stale now j \<and> attempt j \<ge> max_attempts j"
  let ?t1 = "map (update_row ?p1 (requeue_row now)) tbl"
  have u1: "exec_update cons ?p1 (requeue_row now) tbl = (Inr (length (filter ?p1 tbl)), ?t1) \<and> cons ?t1"
    by (rule index_laws_update [OF c]) (auto simp: requeue_row_def index_key_def stale_def in_flight_def)
  have u2: "exec_update cons ?p2 (fail_stale_row now) ?t1 =
      (Inr (length (filter ?p2 ?t1)), map (update_row ?p2 (fail_stale_row now)) ?t1)"
    using index_laws_update [OF c(1), of ?t1 ?p2 "fail_stale_row now"] u1
    by (auto simp: fail_stale_row_def index_key_def in_flight_def)
  have p2: "?p2 (update_row ?p1 (requeue_row now) j) = ?p2 j" for j
    by (auto simp: update_row_def requeue_row_def stale_def in_flight_def)
  have "length (filter ?p2 ?t1) = length (filter ?p2 tbl)"
    by (simp only: filter_map length_map comp_def p2)
  moreover have "map (update_row ?p2 (fail_stale_row now)) ?t1 =
      map (\<lambda>j. if stale now j then (if attempt j < max_attempts j then requeue_row now j else fail_stale_row now j) else j) tbl"
    using p2 by (auto simp: update_row_def)
  ultimately show ?thesis using u1 u2 by (simp add: sweep_stale_def)
qed

section \<open>Properties\<close>

text \<open>An instance of the constraints: the primary key alone.\<close>

definition pk_only :: "pg_job list \<Rightarrow> bool" where
  "pk_only t \<longleftrightarrow> distinct (map job_id t)"

lemma pk_only_laws: "index_laws pk_only"
  unfolding index_laws_def pk_only_def by (auto simp: comp_def cong: map_cong)

definition ex_pg_job :: "nat \<Rightarrow> string list \<Rightarrow> int \<Rightarrow> pg_job" where
  "ex_pg_job i caps prio =
     pg_new_job i 0 \<lparr>ej_kind = ''fts'', ej_payload = JNull, ej_priority = prio, ej_req_capabilities = caps,
       ej_max_attempts = 3\<rparr> None (JObject []) 10"

lemmas ex_pg_simps = ex_pg_job_def pg_new_job_def new_job_def job.extend_def pg_job.fields_def job.defs pg_job.defs

text \<open>
  A job that is done, failed or canceled keeps its status, result, attempt count, error
  and owner under every sequence of operations of the fabric.
\<close>

theorem finished_jobs_final:
  assumes "index_laws cons" and "distinct (map job_id tbl)" and "(pg_step cons)\<^sup>*\<^sup>* tbl tbl'"
    and "j \<in> set tbl" and "finished j"
  shows "\<exists>j' \<in> set tbl'. same_outcome j j'"
proof -
  from assms(3) have "distinct (map job_id tbl') \<and> (\<exists>j' \<in> set tbl'. same_outcome j j')"
  proof (induction rule: rtranclp_induct)
    case base
    show ?case using assms by (auto simp: same_outcome_def)
  next
    case (step y z)
    then obtain j1 where j1: "j1 \<in> set y" "same_outcome j j1" by blast
    with finished_step [OF _ step.hyps(2) j1(1)] step.IH finished_same [OF assms(5)]
    obtain j2 where "j2 \<in> set z" "same_outcome j1 j2" by blast
    with j1(2) pg_step_ids [OF assms(1) _ step.hyps(2)] step.IH show ?case using same_outcome_trans by blast
  qed
  then show ?thesis ..
qed

theorem finished_jobs_final_witness:
  "\<exists>j' \<in> set (snd (pg_fail_job pk_only 50 7 1 ''late'' [(ex_pg_job 7 [] 0)\<lparr>job_status := Done, claimed_by := Some 1\<rparr>])).
     same_outcome ((ex_pg_job 7 [] 0)\<lparr>job_status := Done, claimed_by := Some 1\<rparr>) j'"
proof -
  let ?j = "(ex_pg_job 7 [] 0)\<lparr>job_status := Done, claimed_by := Some 1\<rparr>"
  let ?r = "pg_fail_job pk_only 50 7 1 ''late'' [?j]"
  have "(pg_step pk_only)\<^sup>*\<^sup>* [?j] (snd ?r)"
    by (intro r_into_rtranclp pg_step.fl [where rb = "fst ?r"]) simp
  from finished_jobs_final [OF pk_only_laws _ this, of ?j] show ?thesis by (simp add: finished_def)
qed



text \<open>
  A sweep succeeds, requeues every job with an expired lease and attempts left, fails
  every one without, leaves the other jobs alone, and counts both; after it no job holds an expired
  lease, so none is stuck with a worker that is gone.
\<close>

theorem sweep_releases_leases:
  assumes "index_laws cons" and "cons tbl"
  shows "\<exists>requeued failed offlined tbl' ws'.
    sweep_stale cons now after (tbl, ws) = (Inr (requeued, failed, offlined), tbl', ws') \<and>
    length tbl' = length tbl \<and> requeued + failed = length (filter (stale now) tbl) \<and>
    (\<forall>j \<in> set tbl'. \<not> stale now j) \<and>
    (\<forall>k < length tbl. if stale now (tbl ! k)
       then job_status (tbl' ! k) = (if attempt (tbl ! k) < max_attempts (tbl ! k) then Pending else Failed)
       else tbl' ! k = tbl ! k)"
proof -
  have "length (filter (\<lambda>j. stale now j \<and> attempt j < max_attempts j) tbl) +
      length (filter (\<lambda>j. stale now j \<and> attempt j \<ge> max_attempts j) tbl) = length (filter (stale now) tbl)" for tbl
    by (induction tbl) auto
  with sweep_spec [OF assms, of now after ws] show ?thesis
    by (auto simp: stale_def in_flight_def requeue_row_def fail_stale_row_def)
qed

theorem sweep_releases_leases_witness:
  "\<exists>r f off tbl' ws'. sweep_stale pk_only 1000 60 ([pg_mark_claimed 1 100 60 (ex_pg_job 5 [] 0)], []) =
     (Inr (r, f, off), tbl', ws') \<and> r + f = 1 \<and> (\<forall>j \<in> set tbl'. \<not> stale 1000 j)"
proof -
  let ?j = "pg_mark_claimed 1 100 60 (ex_pg_job 5 [] 0)"
  have "pk_only [?j]" by (simp add: pk_only_def)
  moreover have "length (filter (stale 1000) [?j]) = 1"
    by (simp add: stale_def in_flight_def expired_def pg_mark_claimed_def)
  ultimately show ?thesis
    using sweep_releases_leases [OF pk_only_laws, of "[?j]" 1000 60 "[]"] by (metis (no_types, lifting))
qed



end
