(* ===== verification/Pruning.thy ===== *)
theory Pruning
  imports Prelude
begin

text \<open>
  The contract every pruning layer shares: a summary kept for a unit of storage (a block, an
  extent) may rule the unit out for a predicate only when no row of the unit satisfies it. The
  consequence clients rely on, that scanning the kept units alone loses no matching row, is proved
  here once.
\<close>

locale pruner =
  fixes summarises :: "'s \<Rightarrow> 'u \<Rightarrow> bool"
    and may_match :: "'p \<Rightarrow> 's \<Rightarrow> bool"
    and matches :: "'p \<Rightarrow> 'u \<Rightarrow> 'r \<Rightarrow> bool"
  assumes sound: "summarises s u \<Longrightarrow> matches p u r \<Longrightarrow> may_match p s"
begin

definition kept :: "'p \<Rightarrow> 's list \<Rightarrow> nat list" where
  "kept p ss = map fst (filter (\<lambda>(i, s). may_match p s) (enumerate 0 ss))"

lemma kept_iff: "i \<in> set (kept p ss) \<longleftrightarrow> i < length ss \<and> may_match p (ss ! i)"
  by (auto simp: kept_def in_set_enumerate_eq image_iff)

lemma kept_sorted: "sorted (kept p ss)"
proof -
  have "sorted (map fst (enumerate 0 ss))" by simp
  then show ?thesis unfolding kept_def by (rule sorted_filter)
qed

theorem scan_complete:
  assumes "list_all2 summarises ss us"
  shows "{(i, r). i < length us \<and> matches p (us ! i) r} =
    {(i, r). i \<in> set (kept p ss) \<and> matches p (us ! i) r}"
  using assms sound by (auto simp: kept_iff list_all2_conv_all_nth)

lemma filter_complete:
  assumes "\<And>u. u \<in> set us \<Longrightarrow> summarises (summ u) u"
  shows "{(u, r). u \<in> set us \<and> matches p u r} =
    {(u, r). u \<in> set (filter (\<lambda>u. may_match p (summ u)) us) \<and> matches p u r}"
  using assms by (auto intro: sound [where p = p])

end

end
