(* ===== verification/Tlm_Block_Stats.thy ===== *)
theory Tlm_Block_Stats
  imports Pruning "HOL-Library.List_Lexorder" "HOL-Library.Char_ord"
begin

text \<open>
  Per-block statistics of \<open>pensieve-format-tlm\<close> (\<open>block_stats.rs\<close>) and the block-level pruning of
  \<open>reader.rs\<close>. Arrow data is modelled by what the sources read of it: named, typed columns of
  optional values. Rust compares strings by their bytes, which is the lexicographic order on
  \<open>string\<close>.
\<close>

section \<open>Arrow data\<close>

datatype time_unit = Second | Millisecond | Microsecond | Nanosecond

datatype data_type = Timestamp time_unit | Int32 | Int64 | Utf8 | LargeUtf8 | FixedSizeList data_type nat
  | Float32 | OtherType nat

text \<open>
  Concrete arrays, by the type a downcast tests. Values of types the statistics never look at are
  kept as uninterpreted numbers.
\<close>

datatype arrow_array =
    TimestampNanosecondArray "int option list"
  | TimestampOtherArray time_unit "int option list"
  | Int32Array "int option list"
  | Int64Array "int option list"
  | StringArray "string option list"
  | LargeStringArray "string option list"
  | OtherArray "nat option list"

record record_batch =
  schema :: "(string \<times> data_type) list"
  columns :: "arrow_array list"
  num_rows :: nat

fun array_len :: "arrow_array \<Rightarrow> nat" where
  "array_len (TimestampNanosecondArray a) = length a"
| "array_len (TimestampOtherArray u a) = length a"
| "array_len (Int32Array a) = length a"
| "array_len (Int64Array a) = length a"
| "array_len (StringArray a) = length a"
| "array_len (LargeStringArray a) = length a"
| "array_len (OtherArray a) = length a"

fun array_has_type :: "arrow_array \<Rightarrow> data_type \<Rightarrow> bool" where
  "array_has_type (TimestampNanosecondArray _) t = (t = Timestamp Nanosecond)"
| "array_has_type (TimestampOtherArray u _) t = (t = Timestamp u \<and> u \<noteq> Nanosecond)"
| "array_has_type (Int32Array _) t = (t = Int32)"
| "array_has_type (Int64Array _) t = (t = Int64)"
| "array_has_type (StringArray _) t = (t = Utf8)"
| "array_has_type (LargeStringArray _) t = (t = LargeUtf8)"
| "array_has_type (OtherArray _) t = (case t of FixedSizeList _ _ \<Rightarrow> True | Float32 \<Rightarrow> True | OtherType _ \<Rightarrow> True | _ \<Rightarrow> False)"

text \<open>What \<open>RecordBatch\<close> guarantees: one column per field, of its type and of the batch's length.\<close>

definition batch_ok :: "record_batch \<Rightarrow> bool" where
  "batch_ok b \<longleftrightarrow> length (columns b) = length (schema b) \<and>
     list_all2 (\<lambda>a f. array_has_type a (snd f) \<and> array_len a = num_rows b) (columns b) (schema b)"

section \<open>Statistics\<close>

definition STRING_MINMAX_CAP :: nat where
  "STRING_MINMAX_CAP = 256"

definition i64_max :: int where
  "i64_max = 9223372036854775807"

definition i64_min :: int where
  "i64_min = - 9223372036854775808"

datatype col_stat = Ts int int nat | StInt64 int int nat | StStr string string nat

record block_stats =
  row_count :: nat
  cols :: "string \<rightharpoonup> col_stat"

text \<open>The loop of \<open>ts_stats\<close>, \<open>i32_stats\<close> and \<open>i64_stats\<close>: minimum, maximum, nulls, any value seen.\<close>

definition minmax_step :: "int \<times> int \<times> nat \<times> bool \<Rightarrow> int option \<Rightarrow> int \<times> int \<times> nat \<times> bool" where
  "minmax_step st x = (case st of (mn, mx, nulls, seen) \<Rightarrow>
     (case x of
        None \<Rightarrow> (mn, mx, as_u32 (nulls + 1), seen)
      | Some v \<Rightarrow> (if v < mn then v else mn, if v > mx then v else mx, nulls, True)))"

definition minmax_loop :: "int option list \<Rightarrow> int \<times> int \<times> nat \<times> bool" where
  "minmax_loop arr = foldl minmax_step (i64_max, i64_min, 0, False) arr"

definition ts_stats :: "int option list \<Rightarrow> col_stat option" where
  "ts_stats arr = (case minmax_loop arr of (mn, mx, nulls, seen) \<Rightarrow>
     if \<not> seen then None else Some (Ts mn mx nulls))"

definition i32_stats :: "int option list \<Rightarrow> col_stat option" where
  "i32_stats arr = (case minmax_loop arr of (mn, mx, nulls, seen) \<Rightarrow>
     if \<not> seen then None else Some (StInt64 mn mx nulls))"

definition i64_stats :: "int option list \<Rightarrow> col_stat option" where
  "i64_stats arr = (case minmax_loop arr of (mn, mx, nulls, seen) \<Rightarrow>
     if \<not> seen then None else Some (StInt64 mn mx nulls))"

fun str_stats_loop ::
  "string option \<Rightarrow> string option \<Rightarrow> nat \<Rightarrow> string option list \<Rightarrow> col_stat option" where
  "str_stats_loop mn mx nulls [] =
     (case (mn, mx) of (Some a, Some b) \<Rightarrow> Some (StStr a b nulls) | _ \<Rightarrow> None)"
| "str_stats_loop mn mx nulls (None # xs) = str_stats_loop mn mx (as_u32 (nulls + 1)) xs"
| "str_stats_loop mn mx nulls (Some v # xs) =
     (if length v > STRING_MINMAX_CAP then None
      else str_stats_loop
        (Some (case mn of Some cur \<Rightarrow> (if v < cur then v else cur) | None \<Rightarrow> v))
        (Some (case mx of Some cur \<Rightarrow> (if v > cur then v else cur) | None \<Rightarrow> v)) nulls xs)"

definition str_stats :: "string option list \<Rightarrow> col_stat option" where
  "str_stats arr = str_stats_loop None None 0 arr"

definition put_stat ::
  "string \<Rightarrow> col_stat option \<Rightarrow> (string \<rightharpoonup> col_stat) \<Rightarrow> (string \<rightharpoonup> col_stat)" where
  "put_stat name s m = (case s of Some x \<Rightarrow> m(name \<mapsto> x) | None \<Rightarrow> m)"

text \<open>
  One field of \<open>stats_for_batch\<close>. A failed downcast leaves the column out, except that
  \<open>as_string\<close> panics on anything but a \<open>StringArray\<close> (\<open>None\<close>).
\<close>

definition field_stats ::
  "(string \<rightharpoonup> col_stat) \<Rightarrow> (string \<times> data_type) \<times> arrow_array \<Rightarrow> (string \<rightharpoonup> col_stat) option" where
  "field_stats m fc = (case fc of ((name, ty), col) \<Rightarrow>
     (case ty of
        Timestamp _ \<Rightarrow> (case col of TimestampNanosecondArray a \<Rightarrow> Some (put_stat name (ts_stats a) m) | _ \<Rightarrow> Some m)
      | Int32 \<Rightarrow> (case col of Int32Array a \<Rightarrow> Some (put_stat name (i32_stats a) m) | _ \<Rightarrow> Some m)
      | Int64 \<Rightarrow> (case col of Int64Array a \<Rightarrow> Some (put_stat name (i64_stats a) m) | _ \<Rightarrow> Some m)
      | Utf8 \<Rightarrow> (case col of StringArray a \<Rightarrow> Some (put_stat name (str_stats a) m) | _ \<Rightarrow> None)
      | LargeUtf8 \<Rightarrow> (case col of StringArray a \<Rightarrow> Some (put_stat name (str_stats a) m) | _ \<Rightarrow> None)
      | _ \<Rightarrow> Some m))"

definition stats_for_batch :: "record_batch \<Rightarrow> block_stats option" where
  "stats_for_batch b =
     map_option (\<lambda>m. \<lparr>row_count = as_u32 (num_rows b), cols = m\<rparr>)
       (foldM field_stats Map.empty (zip (schema b) (columns b)))"

section \<open>Block predicates\<close>

text \<open>\<open>f64\<close> and byte payloads are never compared at this level; they are kept as bit patterns.\<close>

datatype scalar_value = SNull | SBool bool | SInt64 int | SFloat64 u64 | SString string | SBytes "u8 list"
  | STimestamp int

datatype block_predicate =
    PAll
  | PAnd "block_predicate list"
  | POr "block_predicate list"
  | PNot block_predicate
  | TimeRange nat int int
  | Equals nat scalar_value
  | InSet nat "scalar_value list"
  | StringHas nat string
  | DynamicPathExists nat string
  | DynamicPathEquals nat string scalar_value

fun equals_ok :: "col_stat \<Rightarrow> scalar_value \<Rightarrow> bool" where
  "equals_ok (Ts mn mx _) (STimestamp t) = (mn \<le> t \<and> t \<le> mx)"
| "equals_ok (StInt64 mn mx _) (SInt64 t) = (mn \<le> t \<and> t \<le> mx)"
| "equals_ok (StStr mn mx _) (SString t) = (mn \<le> t \<and> t \<le> mx)"
| "equals_ok _ _ = True"

fun evaluate :: "block_predicate \<Rightarrow> block_stats \<Rightarrow> string list \<Rightarrow> bool" where
  "evaluate PAll bs names = True"
| "evaluate (PAnd subs) bs names = list_all (\<lambda>s. evaluate s bs names) subs"
| "evaluate (POr subs) bs names = (if subs = [] then True else list_ex (\<lambda>s. evaluate s bs names) subs)"
| "evaluate (PNot _) bs names = True"
| "evaluate (TimeRange col start_inclusive end_exclusive) bs names =
     (case idx names col of
        None \<Rightarrow> True
      | Some name \<Rightarrow>
          (case cols bs name of
             Some (Ts mn mx _) \<Rightarrow> \<not> (mx < start_inclusive \<or> mn \<ge> end_exclusive)
           | _ \<Rightarrow> True))"
| "evaluate (Equals col value) bs names =
     (case idx names col of
        None \<Rightarrow> True
      | Some name \<Rightarrow> (case cols bs name of None \<Rightarrow> True | Some cs \<Rightarrow> equals_ok cs value))"
| "evaluate (InSet col values) bs names =
     (case idx names col of
        None \<Rightarrow> True
      | Some name \<Rightarrow> (case cols bs name of None \<Rightarrow> True | Some cs \<Rightarrow> list_ex (equals_ok cs) values))"
| "evaluate (StringHas _ _) bs names = True"
| "evaluate (DynamicPathExists _ _) bs names = True"
| "evaluate (DynamicPathEquals _ _ _) bs names = True"

text \<open>\<open>pruned_blocks\<close>: without a footer (version 1) every block is kept.\<close>

definition pruned_blocks ::
  "nat \<Rightarrow> block_stats list option \<Rightarrow> string list \<Rightarrow> block_predicate \<Rightarrow> nat list" where
  "pruned_blocks block_count stats names predicate =
     (case stats of
        None \<Rightarrow> [0..<block_count]
      | Some bss \<Rightarrow> map (\<lambda>(i, bs). as_u32 i) (filter (\<lambda>(i, bs). evaluate predicate bs names) (enumerate 0 bss)))"

section \<open>What a predicate means\<close>

text \<open>
  The cell of row \<open>i\<close> in an array, and the truth of a predicate on a row. \<open>mism\<close> and \<open>opq\<close> stand for
  the comparisons and the predicates the block statistics say nothing about.
\<close>

datatype cell = CTs int | CInt int | CStr string | COther nat

fun cell_at :: "arrow_array \<Rightarrow> nat \<Rightarrow> cell option" where
  "cell_at (TimestampNanosecondArray a) i = (case idx a i of Some (Some v) \<Rightarrow> Some (CTs v) | _ \<Rightarrow> None)"
| "cell_at (TimestampOtherArray u a) i = (case idx a i of Some (Some v) \<Rightarrow> Some (COther (nat v)) | _ \<Rightarrow> None)"
| "cell_at (Int32Array a) i = (case idx a i of Some (Some v) \<Rightarrow> Some (CInt v) | _ \<Rightarrow> None)"
| "cell_at (Int64Array a) i = (case idx a i of Some (Some v) \<Rightarrow> Some (CInt v) | _ \<Rightarrow> None)"
| "cell_at (StringArray a) i = (case idx a i of Some (Some v) \<Rightarrow> Some (CStr v) | _ \<Rightarrow> None)"
| "cell_at (LargeStringArray a) i = (case idx a i of Some (Some v) \<Rightarrow> Some (CStr v) | _ \<Rightarrow> None)"
| "cell_at (OtherArray a) i = (case idx a i of Some (Some v) \<Rightarrow> Some (COther v) | _ \<Rightarrow> None)"

definition column_of :: "record_batch \<Rightarrow> string \<Rightarrow> arrow_array option" where
  "column_of b name = map_of (zip (map fst (schema b)) (columns b)) name"

definition cell_of :: "record_batch \<Rightarrow> nat \<Rightarrow> string \<Rightarrow> cell option" where
  "cell_of b i name = (case column_of b name of None \<Rightarrow> None | Some a \<Rightarrow> cell_at a i)"

fun cell_eq :: "(cell \<Rightarrow> scalar_value \<Rightarrow> bool) \<Rightarrow> cell \<Rightarrow> scalar_value \<Rightarrow> bool" where
  "cell_eq mism (CTs t) (STimestamp u) = (t = u)"
| "cell_eq mism (CInt t) (SInt64 u) = (t = u)"
| "cell_eq mism (CStr t) (SString u) = (t = u)"
| "cell_eq mism c v = mism c v"

type_synonym semantics = "(cell \<Rightarrow> scalar_value \<Rightarrow> bool) \<times> (block_predicate \<Rightarrow> nat \<Rightarrow> bool)"

fun row_sat :: "semantics \<Rightarrow> record_batch \<Rightarrow> string list \<Rightarrow> nat \<Rightarrow> block_predicate \<Rightarrow> bool" where
  "row_sat sm b names i PAll = True"
| "row_sat sm b names i (PAnd subs) = list_all (row_sat sm b names i) subs"
| "row_sat sm b names i (POr subs) = list_ex (row_sat sm b names i) subs"
| "row_sat sm b names i (PNot p) = (\<not> row_sat sm b names i p)"
| "row_sat sm b names i (TimeRange col lo hi) =
     (case idx names col of
        None \<Rightarrow> False
      | Some name \<Rightarrow> (case cell_of b i name of Some (CTs t) \<Rightarrow> lo \<le> t \<and> t < hi | _ \<Rightarrow> False))"
| "row_sat sm b names i (Equals col v) =
     (case idx names col of
        None \<Rightarrow> False
      | Some name \<Rightarrow> (case cell_of b i name of Some c \<Rightarrow> cell_eq (fst sm) c v | None \<Rightarrow> False))"
| "row_sat sm b names i (InSet col vs) =
     (case idx names col of
        None \<Rightarrow> False
      | Some name \<Rightarrow> (case cell_of b i name of Some c \<Rightarrow> list_ex (cell_eq (fst sm) c) vs | None \<Rightarrow> False))"
| "row_sat sm b names i p = snd sm p i"

section \<open>Statistics cover the values\<close>

lemma minmax_loop_cover:
  assumes "\<And>v. Some v \<in> set arr \<Longrightarrow> i64_min \<le> v \<and> v \<le> i64_max"
  shows "minmax_loop arr = (mn, mx, nulls, seen) \<Longrightarrow>
    (seen \<longleftrightarrow> (\<exists>v. Some v \<in> set arr)) \<and> (\<forall>v. Some v \<in> set arr \<longrightarrow> mn \<le> v \<and> v \<le> mx) \<and>
    (seen \<longrightarrow> Some mn \<in> set arr \<and> Some mx \<in> set arr)"
  using assms
proof (induction arr arbitrary: mn mx nulls seen rule: rev_induct)
  case Nil
  then show ?case by (simp add: minmax_loop_def)
next
  case (snoc x xs)
  obtain mn0 mx0 n0 s0 where l: "minmax_loop xs = (mn0, mx0, n0, s0)" by (metis prod_cases4)
  have IH: "(s0 \<longleftrightarrow> (\<exists>v. Some v \<in> set xs)) \<and> (\<forall>v. Some v \<in> set xs \<longrightarrow> mn0 \<le> v \<and> v \<le> mx0) \<and>
      (s0 \<longrightarrow> Some mn0 \<in> set xs \<and> Some mx0 \<in> set xs)"
    by (rule snoc.IH [OF l]) (use snoc.prems(2) in auto)
  have init: "mn0 = i64_max \<and> mx0 = i64_min" if "\<not> s0"
    using that l
  proof (induction xs arbitrary: mn0 mx0 n0 s0 rule: rev_induct)
    case Nil
    then show ?case by (simp add: minmax_loop_def)
  next
    case (snoc y ys)
    then show ?case
      by (cases "minmax_loop ys") (auto simp: minmax_loop_def minmax_step_def split: option.splits)
  qed
  have "minmax_loop (xs @ [x]) = minmax_step (mn0, mx0, n0, s0) x"
    using l by (simp add: minmax_loop_def)
  with snoc.prems(1) have eq: "minmax_step (mn0, mx0, n0, s0) x = (mn, mx, nulls, seen)" by simp
  show ?case
  proof (cases x)
    case None
    with eq IH show ?thesis by (auto simp: minmax_step_def)
  next
    case (Some v)
    from snoc.prems(2) [of v] Some have r: "i64_min \<le> v" "v \<le> i64_max" by auto
    from Some eq have new: "mn = (if v < mn0 then v else mn0)" "mx = (if v > mx0 then v else mx0)" seen
      by (auto simp: minmax_step_def)
    show ?thesis
    proof (cases s0)
      case True
      with IH new Some show ?thesis by force
    next
      case False
      with init r new have "mn = v" "mx = v" by auto
      with False IH new Some show ?thesis by auto
    qed
  qed
qed

lemma str_stats_loop_cover:
  "str_stats_loop mn mx nulls arr = Some cs \<Longrightarrow>
    \<exists>a b k. cs = StStr a b k \<and> (\<forall>v. Some v \<in> set arr \<longrightarrow> a \<le> v \<and> v \<le> b) \<and>
      (\<forall>m. mn = Some m \<longrightarrow> a \<le> m) \<and> (\<forall>m. mx = Some m \<longrightarrow> m \<le> b)"
proof (induction mn mx nulls arr rule: str_stats_loop.induct)
  case (1 mn mx nulls)
  then show ?case by (auto split: option.splits)
next
  case (2 mn mx nulls xs)
  then show ?case by auto
next
  case (3 mn mx nulls v xs)
  let ?mn = "case mn of Some cur \<Rightarrow> (if v < cur then v else cur) | None \<Rightarrow> v"
  let ?mx = "case mx of Some cur \<Rightarrow> (if v > cur then v else cur) | None \<Rightarrow> v"
  from "3.prems" have "\<not> STRING_MINMAX_CAP < length v" "str_stats_loop (Some ?mn) (Some ?mx) nulls xs = Some cs"
    by (auto split: if_splits)
  with "3.IH" obtain a b k where IH: "cs = StStr a b k" "\<forall>v. Some v \<in> set xs \<longrightarrow> a \<le> v \<and> v \<le> b"
    "a \<le> ?mn" "?mx \<le> b" by auto
  have "?mn \<le> v" "v \<le> ?mx" "\<And>m. mn = Some m \<Longrightarrow> ?mn \<le> m" "\<And>m. mx = Some m \<Longrightarrow> m \<le> ?mx"
    by (auto split: option.splits)
  with IH show ?case by (auto intro: order_trans)
qed

text \<open>A statistic covers a cell when the cell has its kind and lies between its bounds.\<close>

fun stat_covers :: "col_stat \<Rightarrow> cell \<Rightarrow> bool" where
  "stat_covers (Ts mn mx _) (CTs t) = (mn \<le> t \<and> t \<le> mx)"
| "stat_covers (StInt64 mn mx _) (CInt t) = (mn \<le> t \<and> t \<le> mx)"
| "stat_covers (StStr mn mx _) (CStr t) = (mn \<le> t \<and> t \<le> mx)"
| "stat_covers _ _ = False"

text \<open>Arrow integers fit their width.\<close>

fun array_range :: "arrow_array \<Rightarrow> bool" where
  "array_range (TimestampNanosecondArray a) = (\<forall>v \<in> Option.these (set a). i64_min \<le> v \<and> v \<le> i64_max)"
| "array_range (Int32Array a) = (\<forall>v \<in> Option.these (set a). - 2147483648 \<le> v \<and> v \<le> 2147483647)"
| "array_range (Int64Array a) = (\<forall>v \<in> Option.these (set a). i64_min \<le> v \<and> v \<le> i64_max)"
| "array_range _ = True"

lemma idx_Some_mem: "idx a i = Some (Some v) \<Longrightarrow> Some v \<in> set a"
  by (auto dest: nth_mem)

lemma minmax_stats_cover:
  assumes "\<forall>v \<in> Option.these (set a). i64_min \<le> v \<and> v \<le> i64_max"
    and "minmax_loop a = (mn, mx, nulls, seen)" and "idx a i = Some (Some v)"
  shows "mn \<le> v \<and> v \<le> mx"
  using minmax_loop_cover [OF _ assms(2)] assms(1) idx_Some_mem [OF assms(3)]
  by (auto simp: in_these_eq)

lemma field_stats_cover:
  assumes "field_stats m ((name, ty), a) = Some m'" and "array_range a"
  shows "m' = m \<or> (\<exists>cs. m' = m(name \<mapsto> cs) \<and> (\<forall>i c. cell_at a i = Some c \<longrightarrow> stat_covers cs c))"
proof (cases a)
  case (TimestampNanosecondArray xs)
  obtain mn mx n s where l: "minmax_loop xs = (mn, mx, n, s)" by (metis prod_cases4)
  have c: "stat_covers (Ts mn mx n) c" if "cell_at a i = Some c" for i c
    using that minmax_stats_cover [OF _ l, of i] assms(2) TimestampNanosecondArray
    by (auto split: option.splits)
  show ?thesis
    using assms(1) TimestampNanosecondArray l c
    by (auto simp: field_stats_def put_stat_def ts_stats_def split: data_type.splits if_splits)
next
  case (Int32Array xs)
  obtain mn mx n s where l: "minmax_loop xs = (mn, mx, n, s)" by (metis prod_cases4)
  have "\<forall>v \<in> Option.these (set xs). i64_min \<le> v \<and> v \<le> i64_max"
    using assms(2) Int32Array by (fastforce simp: i64_min_def i64_max_def)
  then have c: "stat_covers (StInt64 mn mx n) c" if "cell_at a i = Some c" for i c
    using that minmax_stats_cover [OF _ l, of i] Int32Array by (auto split: option.splits)
  show ?thesis
    using assms(1) Int32Array l c
    by (auto simp: field_stats_def put_stat_def i32_stats_def split: data_type.splits if_splits)
next
  case (Int64Array xs)
  obtain mn mx n s where l: "minmax_loop xs = (mn, mx, n, s)" by (metis prod_cases4)
  have c: "stat_covers (StInt64 mn mx n) c" if "cell_at a i = Some c" for i c
    using that minmax_stats_cover [OF _ l, of i] assms(2) Int64Array
    by (auto split: option.splits)
  show ?thesis
    using assms(1) Int64Array l c
    by (auto simp: field_stats_def put_stat_def i64_stats_def split: data_type.splits if_splits)
next
  case (StringArray xs)
  have c: "stat_covers cs c" if "str_stats xs = Some cs" "cell_at a i = Some c" for cs i c
    using str_stats_loop_cover [OF that(1) [unfolded str_stats_def]] that(2) StringArray
    by (auto split: option.splits dest: nth_mem)
  have "m' = m \<or> m' = put_stat name (str_stats xs) m"
    using assms(1) StringArray by (auto simp: field_stats_def split: data_type.splits)
  with c show ?thesis by (cases "str_stats xs") (auto simp: put_stat_def simp del: cell_at.simps)
qed (use assms(1) in \<open>auto simp: field_stats_def split: data_type.splits\<close>)

text \<open>Valid batches: typed columns of the batch's length, in range, with distinct names.\<close>

definition batch_valid :: "record_batch \<Rightarrow> bool" where
  "batch_valid b \<longleftrightarrow> batch_ok b \<and> list_all array_range (columns b) \<and> distinct (map fst (schema b))"

lemma column_of_unique:
  assumes "batch_valid b" "((name, ty), a) \<in> set (zip (schema b) (columns b))"
  shows "column_of b name = Some a"
proof -
  have len: "length (schema b) = length (columns b)" using assms(1) by (simp add: batch_valid_def batch_ok_def)
  have "(name, a) \<in> set (zip (map fst (schema b)) (columns b))"
    using assms(2) by (force simp: zip_map1)
  then show ?thesis
    using assms(1) len unfolding column_of_def by (intro map_of_is_SomeI) (auto simp: batch_valid_def)
qed

lemma stats_for_batch_cover:
  assumes b: "batch_valid b" and s: "stats_for_batch b = Some bs"
    and cs: "cols bs name = Some cs" and c: "cell_of b i name = Some c"
  shows "stat_covers cs c"
proof -
  let ?z = "zip (schema b) (columns b)"
  let ?I = "\<lambda>ds m. set ds \<subseteq> set ?z \<longrightarrow> (\<forall>name cs. m name = Some cs \<longrightarrow> (\<exists>ty a. ((name, ty), a) \<in> set ds \<and>
      (\<forall>i c. cell_at a i = Some c \<longrightarrow> stat_covers cs c)))"
  from s have f: "foldM field_stats Map.empty ?z = Some (cols bs)"
    by (auto simp: stats_for_batch_def)
  have "?I ?z (cols bs)"
  proof (rule foldM_pres [where I = ?I, OF f])
    fix ds x t t' assume xz: "x \<in> set ?z" and I: "?I ds t" and xf: "field_stats t x = Some t'"
    note x = xz xf
    obtain n ty a where xe: "x = ((n, ty), a)" by (metis prod.collapse)
    have "array_range a"
      using x(1) b xe by (auto simp: batch_valid_def list_all_iff dest: set_zip_rightD)
    from field_stats_cover [OF x(2) [unfolded xe] this] I
    show "?I (ds @ [x]) t'" by (auto simp: xe split: if_splits) blast+
  qed simp
  with cs obtain ty a where a: "((name, ty), a) \<in> set ?z" "\<forall>i c. cell_at a i = Some c \<longrightarrow> stat_covers cs c"
    by blast
  with column_of_unique [OF b a(1)] c show ?thesis by (simp add: cell_of_def)
qed

section \<open>Block pruning is sound\<close>

lemma equals_ok_cover: "stat_covers cs c \<Longrightarrow> cell_eq mism c v \<Longrightarrow> equals_ok cs v"
  by (cases cs; cases c; cases v) auto

lemma evaluate_sound:
  assumes b: "batch_valid b" and s: "stats_for_batch b = Some bs"
  shows "row_sat sm b names i p \<Longrightarrow> evaluate p bs names"
proof (induction p)
  case (PAnd subs)
  then show ?case by (auto simp: list_all_iff)
next
  case (POr subs)
  then show ?case by (auto simp: list_ex_iff)
next
  case (TimeRange col lo hi)
  then obtain name t where n: "idx names col = Some name" "cell_of b i name = Some (CTs t)" "lo \<le> t" "t < hi"
    by (auto split: option.splits cell.splits)
  have "mn \<le> t \<and> t \<le> mx" if "cols bs name = Some (Ts mn mx k)" for mn mx k
    using stats_for_batch_cover [OF b s that n(2)] by simp
  with n show ?case by (fastforce split: option.splits col_stat.splits)
next
  case (Equals col v)
  then obtain name c where n: "idx names col = Some name" "cell_of b i name = Some c" "cell_eq (fst sm) c v"
    by (auto split: option.splits)
  with equals_ok_cover [OF stats_for_batch_cover [OF b s _ n(2)] n(3)] show ?case
    by (auto split: option.splits)
next
  case (InSet col vs)
  then obtain name c v where n: "idx names col = Some name" "cell_of b i name = Some c" "v \<in> set vs"
    "cell_eq (fst sm) c v"
    by (auto simp: list_ex_iff split: option.splits)
  with equals_ok_cover [OF stats_for_batch_cover [OF b s _ n(2)] n(4)] show ?case
    by (auto simp: list_ex_iff split: option.splits)
qed auto

interpretation blocks: pruner "\<lambda>bs b. batch_valid b \<and> stats_for_batch b = Some bs"
    "\<lambda>p bs. evaluate p bs names" "\<lambda>p b i. row_sat sm b names i p" for names sm
  by unfold_locales (auto intro: evaluate_sound)

lemma pruned_blocks_kept:
  assumes "length bss < u32_size"
  shows "pruned_blocks n (Some bss) names p = blocks.kept names p bss"
  unfolding pruned_blocks_def blocks.kept_def option.case
  by (rule map_cong) (use assms in \<open>auto simp: in_set_enumerate_eq\<close>)

section \<open>Properties\<close>

text \<open>
  C11: block pruning has no false negatives. For valid batches with the statistics \<open>stats_for_batch\<close>
  computes, every block with a row that satisfies the predicate is among \<open>pruned_blocks\<close>, whatever the
  truth of the predicates the statistics cannot decide.
\<close>

theorem pruned_blocks_complete:
  assumes "list_all2 (\<lambda>s b. batch_valid b \<and> stats_for_batch b = Some s) stats bs" "length bs < u32_size"
    and "k < length bs" "row_sat sm (bs ! k) names i p"
  shows "k \<in> set (pruned_blocks n (Some stats) names p)"
proof -
  have "length stats < u32_size" using assms(1,2) by (simp add: list_all2_lengthD)
  moreover have "(k, i) \<in> {(k, i). k \<in> set (blocks.kept names p stats) \<and> row_sat sm (bs ! k) names i p}"
    unfolding blocks.scan_complete [OF assms(1), symmetric] using assms(3,4) by simp
  ultimately show ?thesis by (simp add: pruned_blocks_kept)
qed

theorem pruned_blocks_complete_witness:
  "let b = \<lparr>schema = [(''n'', Int64)], columns = [Int64Array [Some 7, None]], num_rows = 2\<rparr>
   in \<exists>s. stats_for_batch b = Some s \<and> 0 \<in> set (pruned_blocks 1 (Some [s]) [''n''] (Equals 0 (SInt64 7)))"
proof -
  let ?b = "\<lparr>schema = [(''n'', Int64)], columns = [Int64Array [Some 7, None]], num_rows = 2\<rparr> :: record_batch"
  let ?s = "\<lparr>row_count = 2, cols = [''n'' \<mapsto> StInt64 7 7 1]\<rparr> :: block_stats"
  have s: "stats_for_batch ?b = Some ?s"
    by (simp add: stats_for_batch_def field_stats_def put_stat_def i64_stats_def minmax_loop_def minmax_step_def
        i64_max_def i64_min_def as_u32_def u32_size_def)
  moreover have "batch_valid ?b"
    by (auto simp: batch_valid_def batch_ok_def Option.these_def i64_min_def i64_max_def)
  moreover have "row_sat (\<lambda>_ _. False, \<lambda>_ _. False) ?b [''n''] 0 (Equals 0 (SInt64 7))"
    by (simp add: cell_of_def column_of_def idx_def)
  ultimately show ?thesis
    using pruned_blocks_complete [of "[?s]" "[?b]" 0 "(\<lambda>_ _. False, \<lambda>_ _. False)" "[''n'']" 0 "Equals 0 (SInt64 7)" 1]
    by (simp add: Let_def u32_size_def)
qed

end
