(* ===== verification/Tlm_Column_Stats.thy ===== *)
theory Tlm_Column_Stats
  imports Tlm_Block_Stats Json
begin

text \<open>
  Per-extent column statistics of \<open>pensieve-format-tlm\<close> (\<open>column_stats.rs\<close>): distinct values, word
  tokens and timestamp bounds, each dropped once it grows past its cap. The parallel vectors of
  the accumulator are one list of slots here, slot \<open>p\<close> holding position \<open>p\<close> of each. Vector
  statistics are \<open>f64\<close> arithmetic and are left out.
\<close>

section \<open>Tokens\<close>

definition DISTINCT_SET_CAP :: nat where
  "DISTINCT_SET_CAP = 1000"

definition TOKEN_SET_CAP :: nat where
  "TOKEN_SET_CAP = 10000"

definition is_ascii_alphanumeric :: "char \<Rightarrow> bool" where
  "is_ascii_alphanumeric c \<longleftrightarrow>
     (let n = (of_char c :: nat) in (48 \<le> n \<and> n \<le> 57) \<or> (65 \<le> n \<and> n \<le> 90) \<or> (97 \<le> n \<and> n \<le> 122))"

definition to_ascii_lowercase :: "char \<Rightarrow> char" where
  "to_ascii_lowercase c =
     (let n = (of_char c :: nat) in if 65 \<le> n \<and> n \<le> 90 then char_of (n + 32) else c)"

text \<open>
  The loop of \<open>tokenize\<close>. It runs over the bytes: every byte of a multi-byte character is outside
  ASCII, so it ends a token exactly as the character does.
\<close>

fun tokenize_loop :: "string \<Rightarrow> string \<Rightarrow> string set \<Rightarrow> string set" where
  "tokenize_loop cur [] out = (if length cur \<ge> 2 then insert cur out else out)"
| "tokenize_loop cur (c # cs) out =
     (if is_ascii_alphanumeric c then tokenize_loop (cur @ [to_ascii_lowercase c]) cs out
      else if cur \<noteq> [] then tokenize_loop [] cs (if length cur \<ge> 2 then insert cur out else out)
      else tokenize_loop cur cs out)"

definition tokenize :: "string \<Rightarrow> string set \<Rightarrow> string set" where
  "tokenize s out = tokenize_loop [] s out"

section \<open>The accumulator\<close>

datatype indexable_kind = KString | KInt32 | KInt64 | KVector nat

record stat_slot =
  distinct_string :: "string set option"
  distinct_int :: "int set option"
  token_set :: "string set option"

record column_stats_acc =
  acc_schema :: "(string \<times> data_type) list"
  ts_col_index :: "nat option"
  min_ts_nanos :: "int option"
  max_ts_nanos :: "int option"
  indexable_columns :: "(nat \<times> indexable_kind) list"
  slots :: "stat_slot list"

fun indexable_kind_of :: "data_type \<Rightarrow> indexable_kind option" where
  "indexable_kind_of Utf8 = Some KString"
| "indexable_kind_of LargeUtf8 = Some KString"
| "indexable_kind_of Int32 = Some KInt32"
| "indexable_kind_of Int64 = Some KInt64"
| "indexable_kind_of (FixedSizeList inner dim) = (if inner = Float32 then Some (KVector dim) else None)"
| "indexable_kind_of _ = None"

definition index_fields :: "(string \<times> data_type) list \<Rightarrow> (nat \<times> indexable_kind) list" where
  "index_fields sch =
     List.map_filter (\<lambda>(i, f). map_option (Pair i) (indexable_kind_of (snd f))) (enumerate 0 sch)"

definition new_slot :: "indexable_kind \<Rightarrow> stat_slot" where
  "new_slot k =
     \<lparr>distinct_string = (if k = KString then Some {} else None),
      distinct_int = (if k = KInt32 \<or> k = KInt64 then Some {} else None),
      token_set = (if k = KString then Some {} else None)\<rparr>"

definition acc_new :: "(string \<times> data_type) list \<Rightarrow> column_stats_acc" where
  "acc_new sch =
     \<lparr>acc_schema = sch,
      ts_col_index = position (\<lambda>f. snd f = Timestamp Nanosecond) sch,
      min_ts_nanos = None, max_ts_nanos = None,
      indexable_columns = index_fields sch,
      slots = map (\<lambda>(_, k). new_slot k) (index_fields sch)\<rparr>"

definition ts_bound_step :: "int option \<times> int option \<Rightarrow> int option \<Rightarrow> int option \<times> int option" where
  "ts_bound_step st x = (case st of (mn, mx) \<Rightarrow>
     (case x of
        None \<Rightarrow> (mn, mx)
      | Some v \<Rightarrow> (Some (case mn of None \<Rightarrow> v | Some m \<Rightarrow> min m v),
                   Some (case mx of None \<Rightarrow> v | Some m \<Rightarrow> max m v))))"

text \<open>A missing column is the panic of \<open>batch.column\<close>.\<close>

definition update_ts_bounds :: "column_stats_acc \<Rightarrow> record_batch \<Rightarrow> column_stats_acc option" where
  "update_ts_bounds a b =
     (case ts_col_index a of
        None \<Rightarrow> Some a
      | Some i \<Rightarrow>
          (case idx (columns b) i of
             None \<Rightarrow> None
           | Some (TimestampNanosecondArray arr) \<Rightarrow>
               (case foldl ts_bound_step (min_ts_nanos a, max_ts_nanos a) arr of
                  (mn, mx) \<Rightarrow> Some (a\<lparr>min_ts_nanos := mn, max_ts_nanos := mx\<rparr>))
           | Some _ \<Rightarrow> Some a))"

definition add_string :: "stat_slot \<Rightarrow> string option \<Rightarrow> stat_slot" where
  "add_string s x =
     (case x of
        None \<Rightarrow> s
      | Some v \<Rightarrow>
          s\<lparr>distinct_string :=
               (case distinct_string s of
                  None \<Rightarrow> None
                | Some S \<Rightarrow> if card S \<ge> DISTINCT_SET_CAP then None else Some (insert v S)),
            token_set :=
               (case token_set s of
                  None \<Rightarrow> None
                | Some T \<Rightarrow> (let T' = tokenize v T in if card T' > TOKEN_SET_CAP then None else Some T'))\<rparr>)"

text \<open>The integer loops stop at the value that overflows the set.\<close>

fun add_ints :: "int set \<Rightarrow> int option list \<Rightarrow> int set option" where
  "add_ints S [] = Some S"
| "add_ints S (None # xs) = add_ints S xs"
| "add_ints S (Some v # xs) = (if card S \<ge> DISTINCT_SET_CAP then None else add_ints (insert v S) xs)"

definition update_slot :: "record_batch \<Rightarrow> (nat \<times> indexable_kind) \<times> stat_slot \<Rightarrow> stat_slot option" where
  "update_slot b x = (case x of ((col_idx, kind), s) \<Rightarrow>
     (case idx (columns b) col_idx of
        None \<Rightarrow> None
      | Some col \<Rightarrow>
          (case kind of
             KString \<Rightarrow> (case col of StringArray arr \<Rightarrow> Some (foldl add_string s arr) | _ \<Rightarrow> None)
           | KInt32 \<Rightarrow>
               (case distinct_int s of
                  None \<Rightarrow> Some s
                | Some S \<Rightarrow> (case col of Int32Array arr \<Rightarrow> Some (s\<lparr>distinct_int := add_ints S arr\<rparr>) | _ \<Rightarrow> Some s))
           | KInt64 \<Rightarrow>
               (case distinct_int s of
                  None \<Rightarrow> Some s
                | Some S \<Rightarrow> (case col of Int64Array arr \<Rightarrow> Some (s\<lparr>distinct_int := add_ints S arr\<rparr>) | _ \<Rightarrow> Some s))
           | KVector _ \<Rightarrow> Some s)))"

definition update_distinct_sets :: "column_stats_acc \<Rightarrow> record_batch \<Rightarrow> column_stats_acc option" where
  "update_distinct_sets a b =
     map_option (\<lambda>ss. a\<lparr>slots := ss\<rparr>) (traverse (update_slot b) (zip (indexable_columns a) (slots a)))"

definition acc_update :: "column_stats_acc \<Rightarrow> record_batch \<Rightarrow> column_stats_acc option" where
  "acc_update a b = Option.bind (update_ts_bounds a b) (\<lambda>a'. update_distinct_sets a' b)"

definition string_array_json :: "string set option \<Rightarrow> json" where
  "string_array_json s = (case s of None \<Rightarrow> JNull | Some S \<Rightarrow> JArray (map JString (sorted_list_of_set S)))"

definition int_array_json :: "int set option \<Rightarrow> json" where
  "int_array_json s = (case s of None \<Rightarrow> JNull | Some S \<Rightarrow> JArray (map JInt (sorted_list_of_set S)))"

text \<open>\<open>finish\<close>; \<open>vector_stat\<close> gives the \<open>f64\<close> statistic of a position, which is not modelled.\<close>

definition finish_column ::
  "(nat \<Rightarrow> json option) \<Rightarrow> (string \<times> data_type) list
     \<Rightarrow> (string \<times> json) list \<Rightarrow> nat \<times> (nat \<times> indexable_kind) \<times> stat_slot \<Rightarrow> (string \<times> json) list option" where
  "finish_column vector_stat sch stats x = (case x of (p, (col_idx, kind), s) \<Rightarrow>
     (case idx sch col_idx of
        None \<Rightarrow> None
      | Some (name, _) \<Rightarrow>
          (case kind of
             KVector _ \<Rightarrow>
               (case vector_stat p of
                  None \<Rightarrow> Some stats
                | Some v \<Rightarrow> Some (json_insert name (JObject [(''vec'', v)]) stats))
           | KString \<Rightarrow>
               Some (json_insert name (JObject [(''distinct'', string_array_json (distinct_string s)),
                                                (''tokens'', string_array_json (token_set s))]) stats)
           | _ \<Rightarrow>
               Some (json_insert name (JObject [(''distinct'', int_array_json (distinct_int s)),
                                                (''tokens'', JNull)]) stats))))"

definition acc_finish :: "(nat \<Rightarrow> json option) \<Rightarrow> column_stats_acc \<Rightarrow> json option" where
  "acc_finish vector_stat a =
     map_option JObject
       (foldM (finish_column vector_stat (acc_schema a)) []
          (enumerate 0 (zip (indexable_columns a) (slots a))))"

section \<open>What tokenize computes\<close>

definition tokens_of :: "string \<Rightarrow> string set" where
  "tokens_of s = tokenize s {}"

definition word_end :: "string \<Rightarrow> bool" where
  "word_end post \<longleftrightarrow> post = [] \<or> \<not> is_ascii_alphanumeric (hd post)"

lemma tokenize_loop_union: "tokenize_loop cur s out = out \<union> tokenize_loop cur s {}"
proof (induction s arbitrary: cur out)
  case (Cons c cs)
  note ih = Cons.IH [of "cur @ [to_ascii_lowercase c]" out] Cons.IH [of "[]" "insert cur out"]
    Cons.IH [of "[]" "{cur}"] Cons.IH [of "[]" out]
  then show ?case by (simp add: ih)
qed simp

text \<open>
  The tokens found with \<open>cur\<close> already read: the word that continues \<open>cur\<close>, and the maximal
  alphanumeric runs after the first separator.
\<close>

definition starts_word :: "string \<Rightarrow> string \<Rightarrow> string \<Rightarrow> bool" where
  "starts_word cur s t \<longleftrightarrow> (\<exists>w post. s = w @ post \<and> list_all is_ascii_alphanumeric w \<and> word_end post \<and>
     t = cur @ map to_ascii_lowercase w)"

definition later_word :: "string \<Rightarrow> string \<Rightarrow> bool" where
  "later_word s t \<longleftrightarrow> (\<exists>pre w post. s = pre @ w @ post \<and> pre \<noteq> [] \<and> \<not> is_ascii_alphanumeric (last pre) \<and>
     list_all is_ascii_alphanumeric w \<and> word_end post \<and> t = map to_ascii_lowercase w)"

definition loop_tokens :: "string \<Rightarrow> string \<Rightarrow> string set" where
  "loop_tokens cur s = {t. 2 \<le> length t \<and> (starts_word cur s t \<or> later_word s t)}"

lemma starts_word_alnum:
  assumes "is_ascii_alphanumeric c"
  shows "starts_word cur (c # cs) t \<longleftrightarrow> starts_word (cur @ [to_ascii_lowercase c]) cs t"
proof
  assume "starts_word cur (c # cs) t"
  then obtain w post where w: "c # cs = w @ post" "list_all is_ascii_alphanumeric w" "word_end post"
    "t = cur @ map to_ascii_lowercase w" by (auto simp: starts_word_def)
  then obtain w' where "w = c # w'" "cs = w' @ post" using assms by (cases w) (auto simp: word_end_def)
  with w show "starts_word (cur @ [to_ascii_lowercase c]) cs t"
    unfolding starts_word_def by (intro exI [of _ w'] exI [of _ post]) simp
next
  assume "starts_word (cur @ [to_ascii_lowercase c]) cs t"
  then obtain w post where "cs = w @ post" "list_all is_ascii_alphanumeric w" "word_end post"
    "t = (cur @ [to_ascii_lowercase c]) @ map to_ascii_lowercase w" by (auto simp: starts_word_def)
  with assms show "starts_word cur (c # cs) t"
    unfolding starts_word_def by (intro exI [of _ "c # w"] exI [of _ post]) simp
qed

lemma starts_word_sep: "\<not> is_ascii_alphanumeric c \<Longrightarrow> starts_word cur (c # cs) t \<longleftrightarrow> t = cur"
  by (auto simp: starts_word_def Cons_eq_append_conv word_end_def)

lemma later_word_Cons:
  "later_word (c # cs) t \<longleftrightarrow> (\<not> is_ascii_alphanumeric c \<and> starts_word [] cs t) \<or> later_word cs t"
proof
  assume "later_word (c # cs) t"
  then obtain pre w post where p: "c # cs = pre @ w @ post" "pre \<noteq> []" "\<not> is_ascii_alphanumeric (last pre)"
    "list_all is_ascii_alphanumeric w" "word_end post" "t = map to_ascii_lowercase w"
    by (auto simp: later_word_def)
  then obtain pre' where p': "pre = c # pre'" "cs = pre' @ w @ post" by (cases pre) auto
  show "(\<not> is_ascii_alphanumeric c \<and> starts_word [] cs t) \<or> later_word cs t"
  proof (cases "pre' = []")
    case True
    with p p' show ?thesis by (auto simp: starts_word_def)
  next
    case False
    with p p' have "later_word cs t"
      unfolding later_word_def by (intro exI [of _ pre'] exI [of _ w] exI [of _ post]) simp
    then show ?thesis ..
  qed
next
  assume "(\<not> is_ascii_alphanumeric c \<and> starts_word [] cs t) \<or> later_word cs t"
  then show "later_word (c # cs) t"
  proof
    assume a: "\<not> is_ascii_alphanumeric c \<and> starts_word [] cs t"
    then obtain w post where "cs = w @ post" "list_all is_ascii_alphanumeric w" "word_end post"
      "t = map to_ascii_lowercase w" by (auto simp: starts_word_def)
    with a show ?thesis
      unfolding later_word_def by (intro exI [of _ "[c]"] exI [of _ w] exI [of _ post]) simp
  next
    assume "later_word cs t"
    then obtain pre w post where "cs = pre @ w @ post" "pre \<noteq> []" "\<not> is_ascii_alphanumeric (last pre)"
      "list_all is_ascii_alphanumeric w" "word_end post" "t = map to_ascii_lowercase w"
      by (auto simp: later_word_def)
    then show ?thesis
      unfolding later_word_def by (intro exI [of _ "c # pre"] exI [of _ w] exI [of _ post]) simp
  qed
qed

lemma loop_tokens_alnum:
  "is_ascii_alphanumeric c \<Longrightarrow> loop_tokens cur (c # cs) = loop_tokens (cur @ [to_ascii_lowercase c]) cs"
  by (simp add: loop_tokens_def starts_word_alnum later_word_Cons)

lemma loop_tokens_sep:
  "\<not> is_ascii_alphanumeric c \<Longrightarrow>
     loop_tokens cur (c # cs) = {t. t = cur \<and> 2 \<le> length t} \<union> loop_tokens [] cs"
  by (auto simp: loop_tokens_def starts_word_sep later_word_Cons)

lemma tokenize_loop_tokens: "tokenize_loop cur s {} = loop_tokens cur s"
proof (induction s arbitrary: cur)
  case Nil
  then show ?case by (auto simp: loop_tokens_def starts_word_def later_word_def word_end_def)
next
  case (Cons c cs)
  have u: "tokenize_loop [] cs {cur} = {cur} \<union> loop_tokens [] cs"
    using tokenize_loop_union [of "[]" cs "{cur}"] Cons.IH by simp
  show ?case
    by (cases "is_ascii_alphanumeric c")
      (auto simp: Cons.IH loop_tokens_alnum loop_tokens_sep u)
qed

definition is_word :: "string \<Rightarrow> string \<Rightarrow> bool" where
  "is_word s t \<longleftrightarrow> (\<exists>pre w post. s = pre @ w @ post \<and> (pre = [] \<or> \<not> is_ascii_alphanumeric (last pre)) \<and>
     list_all is_ascii_alphanumeric w \<and> word_end post \<and> t = map to_ascii_lowercase w)"

lemma is_word_cases: "is_word s t \<longleftrightarrow> starts_word [] s t \<or> later_word s t"
proof
  assume "is_word s t"
  then obtain pre w post where w: "s = pre @ w @ post" "pre = [] \<or> \<not> is_ascii_alphanumeric (last pre)"
    "list_all is_ascii_alphanumeric w" "word_end post" "t = map to_ascii_lowercase w"
    unfolding is_word_def by blast
  show "starts_word [] s t \<or> later_word s t"
  proof (cases "pre = []")
    case True
    with w show ?thesis unfolding starts_word_def by auto
  next
    case False
    with w show ?thesis unfolding later_word_def by blast
  qed
next
  assume "starts_word [] s t \<or> later_word s t"
  then show "is_word s t"
  proof
    assume "starts_word [] s t"
    then obtain w post where "s = w @ post" "list_all is_ascii_alphanumeric w" "word_end post"
      "t = map to_ascii_lowercase w" by (auto simp: starts_word_def)
    then show ?thesis unfolding is_word_def by (intro exI [of _ "[]"] exI [of _ w] exI [of _ post]) simp
  next
    assume "later_word s t"
    then show ?thesis unfolding is_word_def later_word_def by blast
  qed
qed

lemma tokens_of_iff: "t \<in> tokens_of s \<longleftrightarrow> 2 \<le> length t \<and> is_word s t"
  by (simp add: tokens_of_def tokenize_def tokenize_loop_tokens loop_tokens_def is_word_cases)

lemma tokenize_union: "tokenize s out = out \<union> tokens_of s"
  unfolding tokens_of_def tokenize_def by (rule tokenize_loop_union)

lemma finite_tokens_of: "finite (tokens_of s)"
proof -
  have "finite out \<Longrightarrow> finite (tokenize_loop cur s out)" for cur out
    by (induction cur s out rule: tokenize_loop.induct) auto
  then show ?thesis by (simp add: tokens_of_def tokenize_def)
qed

section \<open>What the accumulator collects\<close>

text \<open>The values a batch holds in column \<open>j\<close>.\<close>

definition str_vals :: "record_batch \<Rightarrow> nat \<Rightarrow> string set" where
  "str_vals b j = (case idx (columns b) j of
     Some (StringArray a) \<Rightarrow> Option.these (set a) | Some (LargeStringArray a) \<Rightarrow> Option.these (set a) | _ \<Rightarrow> {})"

definition int_vals :: "record_batch \<Rightarrow> nat \<Rightarrow> int set" where
  "int_vals b j = (case idx (columns b) j of
     Some (Int32Array a) \<Rightarrow> Option.these (set a) | Some (Int64Array a) \<Rightarrow> Option.these (set a) | _ \<Rightarrow> {})"

definition ts_vals :: "record_batch \<Rightarrow> nat \<Rightarrow> int set" where
  "ts_vals b j = (case idx (columns b) j of Some (TimestampNanosecondArray a) \<Rightarrow> Option.these (set a) | _ \<Rightarrow> {})"

text \<open>A slot either gave a set up or holds exactly the values seen.\<close>

definition slot_sum :: "indexable_kind \<Rightarrow> string set \<Rightarrow> int set \<Rightarrow> stat_slot \<Rightarrow> bool" where
  "slot_sum k V W s \<longleftrightarrow> finite V \<and> finite W \<and>
     (k = KString \<longrightarrow> distinct_string s \<in> {None, Some V} \<and> token_set s \<in> {None, Some (\<Union>v \<in> V. tokens_of v)}) \<and>
     (k = KInt32 \<or> k = KInt64 \<longrightarrow> distinct_int s \<in> {None, Some W})"

lemma slot_sum_new: "slot_sum k {} {} (new_slot k)"
  by (auto simp: slot_sum_def new_slot_def)

lemma add_string_sum:
  "slot_sum KString V W s \<Longrightarrow> slot_sum KString (V \<union> (case x of None \<Rightarrow> {} | Some v \<Rightarrow> {v})) W (add_string s x)"
  by (cases x) (auto simp: slot_sum_def add_string_def tokenize_union Let_def Un_commute split: option.splits if_splits)

lemma these_snoc: "Option.these (set (xs @ [x])) = Option.these (set xs) \<union> (case x of None \<Rightarrow> {} | Some v \<Rightarrow> {v})"
  by (cases x) (auto simp: in_these_eq)

lemma add_strings_sum:
  "slot_sum KString V W s \<Longrightarrow> slot_sum KString (V \<union> Option.these (set arr)) W (foldl add_string s arr)"
proof (induction arr rule: rev_induct)
  case (snoc x xs)
  with add_string_sum [of "V \<union> Option.these (set xs)" W "foldl add_string s xs" x]
  show ?case by (simp only: foldl_append foldl.simps these_snoc Un_assoc)
qed simp

lemma add_ints_sum: "add_ints S arr \<in> {None, Some (S \<union> Option.these (set arr))}"
proof (induction S arr rule: add_ints.induct)
  case (3 S v xs)
  then show ?case by (auto simp: these_insert_Some)
qed auto

lemma finite_these [simp]: "finite A \<Longrightarrow> finite (Option.these A)"
  by (simp add: Option.these_def)

definition column_typed :: "record_batch \<Rightarrow> nat \<Rightarrow> indexable_kind \<Rightarrow> bool" where
  "column_typed b j k \<longleftrightarrow> (case idx (columns b) j of None \<Rightarrow> False | Some a \<Rightarrow>
     (case k of
        KString \<Rightarrow> (case a of StringArray _ \<Rightarrow> True | LargeStringArray _ \<Rightarrow> True | _ \<Rightarrow> False)
      | KInt32 \<Rightarrow> (case a of Int32Array _ \<Rightarrow> True | _ \<Rightarrow> False)
      | KInt64 \<Rightarrow> (case a of Int64Array _ \<Rightarrow> True | _ \<Rightarrow> False)
      | KVector _ \<Rightarrow> True))"

lemma update_slot_sum:
  assumes u: "update_slot b ((j, k), s) = Some s'" and s: "slot_sum k V W s" and t: "column_typed b j k"
  shows "slot_sum k (V \<union> str_vals b j) (W \<union> int_vals b j) s'"
proof -
  from u obtain col where c: "idx (columns b) j = Some col" by (cases "idx (columns b) j") (auto simp: update_slot_def)
  have f: "finite (str_vals b j)" "finite (int_vals b j)"
    by (auto simp: str_vals_def int_vals_def split: option.splits arrow_array.splits)
  show ?thesis
  proof (cases k)
    case KString
    with u c obtain arr where arr: "col = StringArray arr" "s' = foldl add_string s arr"
      by (auto simp: update_slot_def split: arrow_array.splits)
    with add_strings_sum [of V W s arr] s c KString show ?thesis
      by (simp add: str_vals_def int_vals_def idx_def)
  next
    case KInt32
    with t c obtain arr where arr: "col = Int32Array arr"
      by (auto simp: column_typed_def split: arrow_array.splits)
    from u s c KInt32 arr add_ints_sum [of W arr] f show ?thesis
      by (auto simp: update_slot_def slot_sum_def int_vals_def split: option.splits)
  next
    case KInt64
    with t c obtain arr where arr: "col = Int64Array arr"
      by (auto simp: column_typed_def split: arrow_array.splits)
    from u s c KInt64 arr add_ints_sum [of W arr] f show ?thesis
      by (auto simp: update_slot_def slot_sum_def int_vals_def split: option.splits)
  next
    case (KVector n)
    with s f show ?thesis by (simp add: slot_sum_def)
  qed
qed

text \<open>The invariant of the accumulator after the batches \<open>bs\<close>.\<close>

definition ts_within :: "int option \<Rightarrow> int option \<Rightarrow> int \<Rightarrow> bool" where
  "ts_within mn mx v \<longleftrightarrow> (\<exists>a b. mn = Some a \<and> mx = Some b \<and> a \<le> v \<and> v \<le> b)"

definition acc_inv :: "(string \<times> data_type) list \<Rightarrow> record_batch list \<Rightarrow> column_stats_acc \<Rightarrow> bool" where
  "acc_inv sch bs a \<longleftrightarrow>
     acc_schema a = sch \<and> ts_col_index a = position (\<lambda>f. snd f = Timestamp Nanosecond) sch \<and>
     indexable_columns a = index_fields sch \<and>
     list_all2 (\<lambda>(j, k) s. slot_sum k (\<Union>b \<in> set bs. str_vals b j) (\<Union>b \<in> set bs. int_vals b j) s)
       (index_fields sch) (slots a) \<and>
     (min_ts_nanos a = None \<longleftrightarrow> max_ts_nanos a = None) \<and>
     (\<forall>i. ts_col_index a = Some i \<longrightarrow>
        (\<forall>b \<in> set bs. \<forall>v \<in> ts_vals b i. ts_within (min_ts_nanos a) (max_ts_nanos a) v))"

lemma ts_bound_step_within:
  assumes "ts_bound_step (mn, mx) x = (mn', mx')" and "mn = None \<longleftrightarrow> mx = None"
  shows "(mn' = None \<longleftrightarrow> mx' = None) \<and> (ts_within mn mx v \<or> x = Some v \<longrightarrow> ts_within mn' mx' v)"
  using assms by (cases x; cases mn; cases mx) (auto simp: ts_bound_step_def ts_within_def)

lemma ts_bound_fold:
  assumes "foldl ts_bound_step (mn, mx) arr = (mn', mx')" and "mn = None \<longleftrightarrow> mx = None"
  shows "(mn' = None \<longleftrightarrow> mx' = None) \<and>
    (ts_within mn mx v \<or> v \<in> Option.these (set arr) \<longrightarrow> ts_within mn' mx' v)"
  using assms
proof (induction arr arbitrary: mn mx)
  case (Cons x xs)
  obtain mn1 mx1 where s: "ts_bound_step (mn, mx) x = (mn1, mx1)" by (cases "ts_bound_step (mn, mx) x")
  note st = ts_bound_step_within [OF s Cons.prems(2), of v]
  from Cons.IH [of mn1 mx1] Cons.prems(1) s st show ?case by (auto simp: in_these_eq)
qed simp

lemma update_ts_bounds_inv:
  assumes u: "update_ts_bounds a b = Some a'" and iff: "min_ts_nanos a = None \<longleftrightarrow> max_ts_nanos a = None"
  shows "(\<exists>mn mx. a' = a\<lparr>min_ts_nanos := mn, max_ts_nanos := mx\<rparr>) \<and>
    (min_ts_nanos a' = None \<longleftrightarrow> max_ts_nanos a' = None) \<and>
    (ts_within (min_ts_nanos a) (max_ts_nanos a) v \<or> (\<exists>i. ts_col_index a = Some i \<and> v \<in> ts_vals b i) \<longrightarrow>
       ts_within (min_ts_nanos a') (max_ts_nanos a') v)"
proof -
  have self: "\<exists>mn mx. a = a\<lparr>min_ts_nanos := mn, max_ts_nanos := mx\<rparr>"
    by (rule exI [of _ "min_ts_nanos a"], rule exI [of _ "max_ts_nanos a"]) simp
  show ?thesis
proof (cases "ts_col_index a")
  case None
  with u have "a' = a" by (simp add: update_ts_bounds_def)
  with None iff self show ?thesis by simp
next
  case (Some i)
  with u obtain col where c: "idx (columns b) i = Some col" by (cases "idx (columns b) i") (auto simp: update_ts_bounds_def)
  show ?thesis
  proof (cases "\<exists>arr. col = TimestampNanosecondArray arr")
    case True
    then obtain arr where arr: "col = TimestampNanosecondArray arr" by blast
    obtain mn mx where f: "foldl ts_bound_step (min_ts_nanos a, max_ts_nanos a) arr = (mn, mx)" by (metis prod.exhaust)
    from u Some c arr f have a': "a' = a\<lparr>min_ts_nanos := mn, max_ts_nanos := mx\<rparr>"
      by (auto simp: update_ts_bounds_def idx_def split: if_splits)
    have "ts_vals b i = Option.these (set arr)" using c arr by (simp add: ts_vals_def idx_def)
    with ts_bound_fold [OF f iff, of v] a' Some show ?thesis by auto
  next
    case False
    then have "a' = a" "ts_vals b i = {}"
      using u Some c by (cases col; simp add: update_ts_bounds_def ts_vals_def idx_def)+
    moreover have "\<exists>mn mx. a = a\<lparr>min_ts_nanos := mn, max_ts_nanos := mx\<rparr>" by (rule self)
    ultimately show ?thesis using iff Some by simp
  qed
qed
qed

lemma traverse_list_all2: "traverse f xs = Some ys \<Longrightarrow> list_all2 (\<lambda>x y. f x = Some y) xs ys"
  by (induction xs arbitrary: ys) (auto split: option.splits)

text \<open>A batch with the accumulator's schema has columns of the kinds the schema announces.\<close>

lemma index_fields_typed:
  assumes "batch_ok b" "(j, k) \<in> set (index_fields (schema b))"
  shows "column_typed b j k"
proof -
  from assms(2) obtain f where f: "j < length (schema b)" "f = schema b ! j" "indexable_kind_of (snd f) = Some k"
    by (auto simp: index_fields_def map_filter_def in_set_enumerate_eq split: option.splits)
  from assms(1) f have len: "j < length (columns b)" and ty: "array_has_type (columns b ! j) (snd f)"
    by (auto simp: batch_ok_def list_all2_conv_all_nth)
  show ?thesis
    using len ty f(3) unfolding column_typed_def idx_in_range [OF len] option.case
    by (cases "snd f"; cases "columns b ! j") (auto split: if_splits)
qed

lemma acc_update_inv:
  assumes inv: "acc_inv sch bs a" and b: "batch_ok b" "schema b = sch" and u: "acc_update a b = Some a'"
  shows "acc_inv sch (bs @ [b]) a'"
proof -
  from u obtain a1 where a1: "update_ts_bounds a b = Some a1" "update_distinct_sets a1 b = Some a'"
    by (auto simp: acc_update_def bind_eq_Some_conv)
  from inv have iff: "min_ts_nanos a = None \<longleftrightarrow> max_ts_nanos a = None" by (simp add: acc_inv_def)
  note ts = update_ts_bounds_inv [OF a1(1) iff]
  from ts obtain mn mx where a1e: "a1 = a\<lparr>min_ts_nanos := mn, max_ts_nanos := mx\<rparr>" by blast
  from a1(2) obtain ss where ss: "traverse (update_slot b) (zip (indexable_columns a1) (slots a1)) = Some ss"
    "a' = a1\<lparr>slots := ss\<rparr>" by (auto simp: update_distinct_sets_def)
  have ix: "indexable_columns a = index_fields sch" using inv by (simp add: acc_inv_def)
  have old: "list_all2 (\<lambda>(j, k) s. slot_sum k (\<Union>b \<in> set bs. str_vals b j) (\<Union>b \<in> set bs. int_vals b j) s)
       (index_fields sch) (slots a)" using inv by (simp add: acc_inv_def)
  have new: "list_all2 (\<lambda>x s'. update_slot b x = Some s') (zip (index_fields sch) (slots a)) ss"
    using traverse_list_all2 [OF ss(1)] by (simp add: a1e ix)
  have "list_all2 (\<lambda>(j, k) s. slot_sum k (\<Union>b \<in> set (bs @ [b]). str_vals b j)
       (\<Union>b \<in> set (bs @ [b]). int_vals b j) s) (index_fields sch) ss"
    unfolding list_all2_conv_all_nth
  proof (intro conjI allI impI)
    show "length (index_fields sch) = length ss"
      using list_all2_lengthD [OF new] list_all2_lengthD [OF old] by simp
    fix p assume p: "p < length (index_fields sch)"
    obtain j k where jk: "index_fields sch ! p = (j, k)" by (cases "index_fields sch ! p")
    with p have "column_typed b j k" using index_fields_typed [OF b(1)] b(2) by (metis nth_mem)
    moreover have "update_slot b ((j, k), slots a ! p) = Some (ss ! p)"
      using list_all2_nthD [OF new, of p] p jk list_all2_lengthD [OF old] by simp
    moreover have "slot_sum k (\<Union>b \<in> set bs. str_vals b j) (\<Union>b \<in> set bs. int_vals b j) (slots a ! p)"
      using list_all2_nthD [OF old p] jk by simp
    ultimately have "slot_sum k ((\<Union>b \<in> set bs. str_vals b j) \<union> str_vals b j)
        ((\<Union>b \<in> set bs. int_vals b j) \<union> int_vals b j) (ss ! p)"
      using update_slot_sum by blast
    then show "(case index_fields sch ! p of (j, k) \<Rightarrow> \<lambda>s. slot_sum k
        (\<Union>b \<in> set (bs @ [b]). str_vals b j) (\<Union>b \<in> set (bs @ [b]). int_vals b j) s) (ss ! p)"
      using jk by (simp add: Un_commute)
  qed
  moreover have "\<forall>i. ts_col_index a' = Some i \<longrightarrow>
        (\<forall>b \<in> set (bs @ [b]). \<forall>v \<in> ts_vals b i. ts_within (min_ts_nanos a') (max_ts_nanos a') v)"
    using ts inv unfolding ss(2) by (auto simp: acc_inv_def a1e)
  ultimately show ?thesis
    using inv ts unfolding acc_inv_def ss(2) by (simp add: a1e)
qed

section \<open>Properties\<close>

text \<open>
  \<open>tokenize\<close> adds exactly the lowercased maximal runs of ASCII letters and digits that have at
  least two characters.
\<close>

theorem tokenize_words:
  "t \<in> tokenize s out \<longleftrightarrow> t \<in> out \<or> 2 \<le> length t \<and>
    (\<exists>pre w post. s = pre @ w @ post \<and> (pre = [] \<or> \<not> is_ascii_alphanumeric (last pre)) \<and>
       list_all is_ascii_alphanumeric w \<and> (post = [] \<or> \<not> is_ascii_alphanumeric (hd post)) \<and>
       t = map to_ascii_lowercase w)"
  unfolding tokenize_union Un_iff tokens_of_iff is_word_def word_end_def by (rule refl)

theorem tokenize_words_witness: "''ab'' \<in> tokenize ''x AB!'' {}"
proof (rule tokenize_words [THEN iffD2], intro disjI2 conjI)
  have "\<not> is_ascii_alphanumeric (last ''x '')" "list_all is_ascii_alphanumeric ''AB''"
    "\<not> is_ascii_alphanumeric (hd ''!'')"
    by (simp_all add: is_ascii_alphanumeric_def)
  moreover have "''ab'' = map to_ascii_lowercase ''AB''" by code_simp
  ultimately show "\<exists>pre w post. ''x AB!'' = pre @ w @ post \<and>
      (pre = [] \<or> \<not> is_ascii_alphanumeric (last pre)) \<and> list_all is_ascii_alphanumeric w \<and>
      (post = [] \<or> \<not> is_ascii_alphanumeric (hd post)) \<and> ''ab'' = map to_ascii_lowercase w"
    by (intro exI [of _ "''x ''"] exI [of _ "''AB''"] exI [of _ "''!''"] conjI disjI2) simp_all
qed simp

end
