(* ===== verification/Fts_Tokenizer.thy ===== *)
theory Fts_Tokenizer
  imports Tlm_Column_Stats
begin

text \<open>
  The \<open>pensieve-word-v1\<close> tokenizer of the full-text index (\<open>pensieve-index-fts/src/tokenizer.rs\<close>):
  the standalone \<open>tokenize\<close> and the token stream handed to the search engine, with byte offsets and
  positions. As for the extent writer's tokenizer the loops run over the bytes of the text; the
  bytes of a non-ASCII character are all separators, so the byte counter agrees with the sum of
  \<open>len_utf8\<close> at every point where it is read.
\<close>

section \<open>The tokenizers\<close>

definition MIN_TOKEN_LEN :: nat where
  "MIN_TOKEN_LEN = 2"

fun fts_tokenize_loop :: "string \<Rightarrow> string list \<Rightarrow> string \<Rightarrow> string list" where
  "fts_tokenize_loop cur out [] = (if length cur \<ge> MIN_TOKEN_LEN then out @ [cur] else out)"
| "fts_tokenize_loop cur out (c # cs) =
     (if is_ascii_alphanumeric c then fts_tokenize_loop (cur @ [to_ascii_lowercase c]) out cs
      else if cur \<noteq> []
      then (if length cur \<ge> MIN_TOKEN_LEN then fts_tokenize_loop [] (out @ [cur]) cs
            else fts_tokenize_loop [] out cs)
      else fts_tokenize_loop cur out cs)"

definition fts_tokenize :: "string \<Rightarrow> string list" where
  "fts_tokenize s = fts_tokenize_loop [] [] s"

record fts_token =
  offset_from :: nat
  offset_to :: nat
  tok_position :: nat
  tok_text :: string
  position_length :: nat

record stream_state =
  ss_tokens :: "fts_token list"
  ss_pos :: nat
  ss_cur :: string
  ss_start :: nat
  ss_byte :: nat

definition emit :: "stream_state \<Rightarrow> stream_state" where
  "emit s = s\<lparr>ss_tokens := ss_tokens s @ [\<lparr>offset_from = ss_start s, offset_to = ss_byte s,
       tok_position = ss_pos s, tok_text = ss_cur s, position_length = 1\<rparr>],
     ss_cur := [], ss_pos := ss_pos s + 1\<rparr>"

definition stream_step :: "stream_state \<Rightarrow> char \<Rightarrow> stream_state" where
  "stream_step s c =
     (let s' =
        (if is_ascii_alphanumeric c then
           s\<lparr>ss_start := (if ss_cur s = [] then ss_byte s else ss_start s),
             ss_cur := ss_cur s @ [to_ascii_lowercase c]\<rparr>
         else if ss_cur s \<noteq> [] then
           (if length (ss_cur s) \<ge> MIN_TOKEN_LEN then emit s else s\<lparr>ss_cur := []\<rparr>)
         else s)
      in s'\<lparr>ss_byte := ss_byte s' + 1\<rparr>)"

definition token_stream :: "string \<Rightarrow> fts_token list" where
  "token_stream text =
     (let s = foldl stream_step \<lparr>ss_tokens = [], ss_pos = 0, ss_cur = [], ss_start = 0, ss_byte = 0\<rparr> text in
      ss_tokens (if length (ss_cur s) \<ge> MIN_TOKEN_LEN then emit s else s))"

text \<open>The stream over the precomputed tokens: \<open>advance\<close> and \<open>token\<close>, which panics before \<open>advance\<close>.\<close>

record vec_stream =
  vs_tokens :: "fts_token list"
  vs_idx :: nat

definition vs_advance :: "vec_stream \<Rightarrow> bool \<times> vec_stream" where
  "vs_advance v = (if vs_idx v < length (vs_tokens v) then (True, v\<lparr>vs_idx := vs_idx v + 1\<rparr>) else (False, v))"

definition vs_token :: "vec_stream \<Rightarrow> fts_token option" where
  "vs_token v = (if vs_idx v = 0 then None else idx (vs_tokens v) (vs_idx v - 1))"

section \<open>Parity with the extent writer\<close>

lemma fts_loop_set: "set (fts_tokenize_loop cur out s) = tokenize_loop cur s (set out)"
  by (induction cur out s rule: fts_tokenize_loop.induct) (auto simp: MIN_TOKEN_LEN_def)

lemma fts_tokenize_set: "set (fts_tokenize s) = tokens_of s"
  using fts_loop_set [of "[]" "[]" s] by (simp add: fts_tokenize_def tokens_of_def tokenize_def)

definition finish_stream :: "stream_state \<Rightarrow> fts_token list" where
  "finish_stream s = ss_tokens (if length (ss_cur s) \<ge> MIN_TOKEN_LEN then emit s else s)"

lemma stream_texts:
  "map tok_text (finish_stream (foldl stream_step s cs)) = fts_tokenize_loop (ss_cur s) (map tok_text (ss_tokens s)) cs"
proof (induction cs arbitrary: s)
  case Nil
  show ?case by (simp add: finish_stream_def emit_def)
next
  case (Cons c cs)
  show ?case by (simp add: Cons.IH) (simp add: stream_step_def emit_def Let_def)
qed

text \<open>
  The invariant of the stream after reading the prefix \<open>pre\<close>: the current run is the lowercased end
  of the prefix, and every token emitted is the lowercased text of its byte range.
\<close>

definition token_at :: "string \<Rightarrow> fts_token \<Rightarrow> bool" where
  "token_at s t \<longleftrightarrow> offset_from t + MIN_TOKEN_LEN \<le> offset_to t \<and> offset_to t \<le> length s \<and>
     tok_text t = map to_ascii_lowercase (take (offset_to t - offset_from t) (drop (offset_from t) s)) \<and>
     position_length t = 1"

definition stream_inv :: "string \<Rightarrow> stream_state \<Rightarrow> bool" where
  "stream_inv pre s \<longleftrightarrow> ss_byte s = length pre \<and> ss_pos s = length (ss_tokens s) \<and>
     (\<forall>i < length (ss_tokens s). token_at pre (ss_tokens s ! i) \<and> tok_position (ss_tokens s ! i) = i) \<and>
     (ss_cur s \<noteq> [] \<longrightarrow> ss_start s + length (ss_cur s) = length pre \<and>
        ss_cur s = map to_ascii_lowercase (drop (ss_start s) pre))"

lemma token_at_append: "token_at pre t \<Longrightarrow> token_at (pre @ cs) t"
  by (auto simp: token_at_def)

lemma stream_inv_emit:
  assumes "stream_inv pre s" and "length (ss_cur s) \<ge> MIN_TOKEN_LEN"
  shows "stream_inv pre (emit s)"
proof -
  have "ss_cur s \<noteq> []" using assms(2) by (auto simp: MIN_TOKEN_LEN_def)
  with assms have "token_at pre \<lparr>offset_from = ss_start s, offset_to = ss_byte s, tok_position = ss_pos s,
      tok_text = ss_cur s, position_length = 1\<rparr>"
    by (auto simp: stream_inv_def token_at_def)
  with assms show ?thesis by (auto simp: stream_inv_def emit_def nth_append less_Suc_eq)
qed

lemma stream_inv_byte:
  "stream_inv pre s \<Longrightarrow> ss_cur s = [] \<Longrightarrow> stream_inv (pre @ [c]) (s\<lparr>ss_byte := ss_byte s + 1\<rparr>)"
  by (auto simp: stream_inv_def token_at_append)

lemma stream_inv_step:
  assumes s: "stream_inv pre s"
  shows "stream_inv (pre @ [c]) (stream_step s c)"
proof (cases "is_ascii_alphanumeric c")
  case True
  with s show ?thesis by (auto simp: stream_step_def stream_inv_def token_at_append Let_def)
next
  case False
  have "stream_inv pre (s\<lparr>ss_cur := []\<rparr>)" using s by (simp add: stream_inv_def)
  with False stream_inv_byte [OF s] stream_inv_byte [of pre "s\<lparr>ss_cur := []\<rparr>" c]
    stream_inv_byte [OF stream_inv_emit [OF s], of c]
  show ?thesis by (auto simp: stream_step_def Let_def emit_def)
qed

lemma stream_inv_fold: "stream_inv pre s \<Longrightarrow> stream_inv (pre @ cs) (foldl stream_step s cs)"
proof (induction cs arbitrary: pre s)
  case (Cons c cs)
  from Cons.IH [OF stream_inv_step [OF Cons.prems]] show ?case by simp
qed simp

section \<open>Properties\<close>

text \<open>
  C39: The terms the full-text index stores for a text are, in order, those of the
  standalone tokenizer, and as a set exactly the tokens the extent writer records for it; so the
  catalog's token pruning and the index agree on every text.
\<close>

theorem fts_tokenizer_parity:
  "map tok_text (token_stream s) = fts_tokenize s \<and> set (fts_tokenize s) = tokens_of s"
  using stream_texts [of _ s] fts_tokenize_set [of s]
  by (simp add: token_stream_def fts_tokenize_def Let_def finish_stream_def)

text \<open>
  Every token of the stream names a byte range of the text of at least two bytes
  that lies inside the text, its term is that range lowercased, and positions count 0, 1, 2, ...
\<close>

theorem token_stream_offsets:
  "\<forall>i < length (token_stream s). token_at s (token_stream s ! i) \<and> tok_position (token_stream s ! i) = i"
proof -
  let ?s0 = "\<lparr>ss_tokens = [], ss_pos = 0, ss_cur = [], ss_start = 0, ss_byte = 0\<rparr>"
  have "stream_inv [] ?s0" by (simp add: stream_inv_def)
  from stream_inv_fold [OF this, of s] have i: "stream_inv s (foldl stream_step ?s0 s)" by simp
  from i stream_inv_emit [OF i] show ?thesis by (simp add: token_stream_def Let_def stream_inv_def)
qed

theorem token_stream_offsets_witness:
  "token_at ''a Bc'' (token_stream ''a Bc'' ! 0) \<and> tok_position (token_stream ''a Bc'' ! 0) = 0"
proof -
  have "length (token_stream ''a Bc'') = 1" by code_simp
  with token_stream_offsets [of "''a Bc''"] show ?thesis by simp
qed

end
