(* ===== verification/Fts_Sidecar.thy ===== *)
theory Fts_Sidecar
  imports Bytes
begin

text \<open>
  The full-text index sidecar of \<open>pensieve-index-fts\<close> (\<open>file.rs\<close>): a directory of index files packed
  into one blob, and the bounds-checked reader. The in-memory directory the files are restored into
  belongs to the search engine and is a parameter: its empty state and its fallible write.
\<close>

section \<open>The format\<close>

definition fts_magic :: "u8 list" where
  "fts_magic = as_bytes ''KYFT''"

definition FORMAT_VERSION :: nat where
  "FORMAT_VERSION = 1"

datatype fts_error = TooShort nat nat | BadMagic | FtsUnsupportedVersion nat | FtsCorrupt string | Tantivy string

record fts_header =
  fh_version :: nat
  fh_file_count :: nat
  fh_manifest_offset :: nat

record manifest_entry =
  me_name :: string
  me_data_off :: nat
  me_data_len :: nat

text \<open>\<open>buf.get(a..b)\<close>\<close>

definition get_slice :: "u8 list \<Rightarrow> nat \<Rightarrow> nat \<Rightarrow> u8 list option" where
  "get_slice bs a b = (if a \<le> b \<and> b \<le> length bs then Some (take (b - a) (drop a bs)) else None)"

definition rd_u32 :: "u8 list \<Rightarrow> nat \<Rightarrow> fts_error + nat" where
  "rd_u32 bs off =
     (if usize_size \<le> off + 4 then Inl (FtsCorrupt ''offset overflow'')
      else case get_slice bs off (off + 4) of
        None \<Rightarrow> Inl (TooShort (off + 4) (length bs))
      | Some s \<Rightarrow> Inr (of_le s))"

definition rd_u64 :: "u8 list \<Rightarrow> nat \<Rightarrow> fts_error + nat" where
  "rd_u64 bs off =
     (if usize_size \<le> off + 8 then Inl (FtsCorrupt ''offset overflow'')
      else case get_slice bs off (off + 8) of
        None \<Rightarrow> Inl (TooShort (off + 8) (length bs))
      | Some s \<Rightarrow> Inr (of_le s))"

definition manifest_size :: "(string \<times> u8 list) list \<Rightarrow> nat" where
  "manifest_size files = sum_list (map (\<lambda>(name, _). 4 + length name + 8 + 8) files)"

text \<open>The loop that writes the manifest; \<open>cursor\<close> is the offset of the next file's bytes.\<close>

fun write_manifest :: "nat \<Rightarrow> (string \<times> u8 list) list \<Rightarrow> u8 list" where
  "write_manifest cursor [] = []"
| "write_manifest cursor ((name, bytes) # files) =
     le_bytes 4 (as_u32 (length name)) @ as_bytes name @ le_bytes 8 cursor @ le_bytes 8 (length bytes) @
     write_manifest (cursor + length bytes) files"

definition fts_write :: "(string \<times> u8 list) list \<Rightarrow> u8 list" where
  "fts_write files =
     (let head = fts_magic @ le_bytes 4 FORMAT_VERSION @ le_bytes 4 (as_u32 (length files));
          data_start = length head + manifest_size files
      in head @ write_manifest data_start files @ concat (map snd files) @ fts_magic)"

definition read_header :: "u8 list \<Rightarrow> fts_error + fts_header" where
  "read_header bs =
     (if length bs < 12 then Inl (TooShort 12 (length bs))
      else if take 4 bs \<noteq> fts_magic then Inl BadMagic
      else if length bs < 4 \<or> drop (length bs - 4) bs \<noteq> fts_magic then Inl BadMagic
      else bindE (rd_u32 bs 4) (\<lambda>v.
        if v \<noteq> FORMAT_VERSION then Inl (FtsUnsupportedVersion v)
        else bindE (rd_u32 bs 8) (\<lambda>n.
          Inr \<lparr>fh_version = v, fh_file_count = n, fh_manifest_offset = 12\<rparr>)))"

text \<open>One iteration of the manifest loop, and the loop.\<close>

definition read_entry :: "u8 list \<Rightarrow> nat \<Rightarrow> nat \<Rightarrow> fts_error + manifest_entry \<times> nat" where
  "read_entry bs data_floor off =
     bindE (rd_u32 bs off) (\<lambda>name_len.
      (let off = off + 4; name_end = off + name_len in
       if usize_size \<le> name_end then Inl (FtsCorrupt ''name length overflow'')
       else case get_slice bs off name_end of
         None \<Rightarrow> Inl (TooShort name_end (length bs))
       | Some name_slice \<Rightarrow>
           (case from_utf8 name_slice of
              None \<Rightarrow> Inl (FtsCorrupt ''file name not utf-8'')
            | Some name \<Rightarrow>
                bindE (rd_u64 bs name_end) (\<lambda>data_off.
                bindE (rd_u64 bs (name_end + 8)) (\<lambda>data_len.
                (let data_end = data_off + data_len in
                 if usize_size \<le> data_end then Inl (FtsCorrupt ''file data range overflow'')
                 else if data_end > data_floor then Inl (FtsCorrupt ''data range runs past data region'')
                 else Inr (\<lparr>me_name = name, me_data_off = data_off, me_data_len = data_len\<rparr>, name_end + 8 + 8)))))))"

fun read_entries :: "u8 list \<Rightarrow> nat \<Rightarrow> nat \<Rightarrow> nat \<Rightarrow> fts_error + manifest_entry list" where
  "read_entries bs data_floor 0 off = Inr []"
| "read_entries bs data_floor (Suc n) off =
     bindE (read_entry bs data_floor off) (\<lambda>(e, off').
     bindE (read_entries bs data_floor n off') (\<lambda>es. Inr (e # es)))"

definition read_manifest :: "u8 list \<Rightarrow> fts_header \<Rightarrow> fts_error + manifest_entry list" where
  "read_manifest bs h = read_entries bs (length bs - 4) (fh_file_count h) (fh_manifest_offset h)"

definition restore :: "('d \<Rightarrow> string \<Rightarrow> u8 list \<Rightarrow> string + 'd) \<Rightarrow> u8 list \<Rightarrow> fts_error + 'd \<Rightarrow> manifest_entry \<Rightarrow> fts_error + 'd" where
  "restore wr bs r e =
     bindE r (\<lambda>d.
       (case get_slice bs (me_data_off e) (me_data_off e + me_data_len e) of
          None \<Rightarrow> Inl (TooShort (me_data_off e + me_data_len e) (length bs))
        | Some s \<Rightarrow> (case wr d (me_name e) s of Inl err \<Rightarrow> Inl (Tantivy err) | Inr d' \<Rightarrow> Inr d')))"

definition open_directory :: "'d \<Rightarrow> ('d \<Rightarrow> string \<Rightarrow> u8 list \<Rightarrow> string + 'd) \<Rightarrow> u8 list \<Rightarrow> fts_error + 'd" where
  "open_directory create wr bs =
     bindE (read_header bs) (\<lambda>h.
     bindE (read_manifest bs h) (\<lambda>es.
       foldl (restore wr bs) (Inr create) es))"

section \<open>Reading back\<close>

lemma length_fts_magic [simp]: "length fts_magic = 4"
  by (simp add: fts_magic_def)

lemma get_slice_mid: "get_slice (pre @ e @ post) (length pre) (length pre + length e) = Some e"
  by (simp add: get_slice_def)

lemma rd_u32_mid:
  assumes "n < u32_size" and "length (pre @ le_bytes 4 n @ post) < usize_size"
  shows "rd_u32 (pre @ le_bytes 4 n @ post) (length pre) = Inr n"
  using assms get_slice_mid [of pre "le_bytes 4 n" post] by (simp add: rd_u32_def u32_size_def)

lemma rd_u64_mid:
  assumes "n < usize_size" and "length (pre @ le_bytes 8 n @ post) < usize_size"
  shows "rd_u64 (pre @ le_bytes 8 n @ post) (length pre) = Inr n"
  using assms get_slice_mid [of pre "le_bytes 8 n" post] by (simp add: rd_u64_def usize_size_def)

lemma read_entry_mid:
  assumes name: "str_ok name" "length name < u32_size"
    and fits: "off + len \<le> fl" "fl < usize_size"
    and bs: "bs = pre @ le_bytes 4 (length name) @ as_bytes name @ le_bytes 8 off @ le_bytes 8 len @ post"
    and l: "length bs < usize_size"
  shows "read_entry bs fl (length pre) =
    Inr (\<lparr>me_name = name, me_data_off = off, me_data_len = len\<rparr>, length pre + 4 + length name + 16)"
proof -
  let ?n = "le_bytes 4 (length name)" and ?s = "as_bytes name" and ?o = "le_bytes 8 off" and ?l = "le_bytes 8 len"
  have a: "rd_u32 bs (length pre) = Inr (length name)"
    using rd_u32_mid [of "length name" pre "?s @ ?o @ ?l @ post"] name l by (simp add: bs)
  have b: "get_slice bs (length pre + 4) (length pre + 4 + length name) = Some ?s"
    using get_slice_mid [of "pre @ ?n" ?s "?o @ ?l @ post"] by (simp add: bs)
  have c: "rd_u64 bs (length pre + 4 + length name) = Inr off"
    using rd_u64_mid [of off "pre @ ?n @ ?s" "?l @ post"] fits l by (simp add: bs add.assoc)
  have d: "rd_u64 bs (length pre + 4 + length name + 8) = Inr len"
    using rd_u64_mid [of len "pre @ ?n @ ?s @ ?o" post] fits l by (simp add: bs add.assoc)
  have "length pre + 4 + length name < usize_size" using l by (simp add: bs)
  with a b c d name fits show ?thesis by (simp add: read_entry_def Let_def)
qed

text \<open>The manifest of the files, their bytes starting at \<open>cursor\<close>.\<close>

fun entries_from :: "nat \<Rightarrow> (string \<times> u8 list) list \<Rightarrow> manifest_entry list" where
  "entries_from cursor [] = []"
| "entries_from cursor ((name, bytes) # files) =
     \<lparr>me_name = name, me_data_off = cursor, me_data_len = length bytes\<rparr> # entries_from (cursor + length bytes) files"

definition file_ok :: "string \<times> u8 list \<Rightarrow> bool" where
  "file_ok f \<longleftrightarrow> str_ok (fst f) \<and> length (fst f) < u32_size"

lemma read_entries_mid:
  assumes "list_all file_ok files" and "bs = pre @ write_manifest cursor files @ post" and "length bs < usize_size"
    and "cursor + length (concat (map snd files)) \<le> fl" and "fl < usize_size"
  shows "read_entries bs fl (length files) (length pre) = Inr (entries_from cursor files)"
  using assms(1,2,4)
proof (induction files arbitrary: pre cursor)
  case (Cons f files)
  obtain name bytes where f: "f = (name, bytes)" by fastforce
  let ?e = "le_bytes 4 (length name) @ as_bytes name @ le_bytes 8 cursor @ le_bytes 8 (length bytes)"
  have n: "str_ok name" "length name < u32_size" using Cons.prems(1) by (simp_all add: f file_ok_def)
  have b: "bs = pre @ ?e @ write_manifest (cursor + length bytes) files @ post"
    using Cons.prems(2) n by (simp add: f)
  have "read_entry bs fl (length pre) =
      Inr (\<lparr>me_name = name, me_data_off = cursor, me_data_len = length bytes\<rparr>, length pre + 4 + length name + 16)"
    by (rule read_entry_mid [OF n _ assms(5) _ assms(3)]) (use Cons.prems(3) b f in auto)
  moreover have "read_entries bs fl (length files) (length (pre @ ?e)) = Inr (entries_from (cursor + length bytes) files)"
    by (rule Cons.IH) (use Cons.prems b f in auto)
  ultimately show ?case by (simp add: f add.assoc)
qed simp

lemma length_write_manifest: "length (write_manifest cursor files) = manifest_size files"
  by (induction cursor files rule: write_manifest.induct) (auto simp: manifest_size_def)

text \<open>Writing the files one by one into an empty directory.\<close>

fun write_all :: "('d \<Rightarrow> string \<Rightarrow> u8 list \<Rightarrow> string + 'd) \<Rightarrow> fts_error + 'd \<Rightarrow> (string \<times> u8 list) list \<Rightarrow> fts_error + 'd" where
  "write_all wr r [] = r"
| "write_all wr r ((name, bytes) # files) =
     write_all wr (bindE r (\<lambda>d. case wr d name bytes of Inl e \<Rightarrow> Inl (Tantivy e) | Inr d' \<Rightarrow> Inr d')) files"

lemma restore_all:
  assumes "bs = pre @ concat (map snd files) @ post"
  shows "foldl (restore wr bs) r (entries_from (length pre) files) = write_all wr r files"
  using assms
proof (induction files arbitrary: pre r)
  case (Cons f files)
  obtain name bytes where f: "f = (name, bytes)" by fastforce
  have "get_slice bs (length pre) (length pre + length bytes) = Some bytes"
    using get_slice_mid [of pre bytes "concat (map snd files) @ post"] Cons.prems by (simp add: f)
  moreover have "foldl (restore wr bs) r' (entries_from (length (pre @ bytes)) files) = write_all wr r' files" for r'
    by (rule Cons.IH) (simp add: Cons.prems f)
  ultimately show ?case by (simp add: f) (simp add: restore_def [of wr bs r])
qed simp

lemma read_header_write:
  assumes "length files < u32_size" and "length (fts_write files) < usize_size"
  shows "read_header (fts_write files) =
    Inr \<lparr>fh_version = FORMAT_VERSION, fh_file_count = length files, fh_manifest_offset = 12\<rparr>"
proof -
  let ?m = "write_manifest (12 + manifest_size files) files @ concat (map snd files) @ fts_magic"
  have w: "fts_write files = fts_magic @ le_bytes 4 FORMAT_VERSION @ le_bytes 4 (length files) @ ?m"
    using assms(1) by (simp add: fts_write_def)
  have v: "rd_u32 (fts_write files) 4 = Inr FORMAT_VERSION"
    using rd_u32_mid [of FORMAT_VERSION fts_magic "le_bytes 4 (length files) @ ?m"] assms(2)
    by (simp add: w FORMAT_VERSION_def u32_size_def)
  have n: "rd_u32 (fts_write files) 8 = Inr (length files)"
    using rd_u32_mid [of "length files" "fts_magic @ le_bytes 4 FORMAT_VERSION" ?m] assms by (simp add: w)
  have "take 4 (fts_write files) = fts_magic" by (simp add: w)
  moreover have "drop (length (fts_write files) - 4) (fts_write files) = fts_magic" by (simp add: w)
  moreover have "12 \<le> length (fts_write files)" by (simp add: w)
  ultimately show ?thesis using v n by (simp add: read_header_def)
qed

lemma read_entry_bound:
  "read_entry bs fl off = Inr (e, off') \<Longrightarrow> me_data_off e + me_data_len e \<le> fl \<and> off' \<le> length bs"
  by (auto simp: read_entry_def rd_u64_def get_slice_def bindE_Inr_iff Let_def
      split: if_splits option.splits)

lemma read_entries_bound:
  "read_entries bs fl n off = Inr es \<Longrightarrow>
   length es = n \<and> (\<forall>e \<in> set es. me_data_off e + me_data_len e \<le> fl)"
  by (induction n arbitrary: off es) (fastforce simp: bindE_Inr_iff dest: read_entry_bound)+

section \<open>Properties\<close>

text \<open>
  Opening the blob written for a list of index files restores exactly these
  files, in order, into the directory: the result (or the directory's own error) is that of writing
  them one by one.
\<close>

theorem sidecar_roundtrip:
  assumes "list_all file_ok files" and "length files < u32_size" and "length (fts_write files) < usize_size"
  shows "open_directory create wr (fts_write files) = write_all wr (Inr create) files"
proof -
  let ?h = "fts_magic @ le_bytes 4 FORMAT_VERSION @ le_bytes 4 (length files)"
  let ?c = "12 + manifest_size files"
  have w: "fts_write files = ?h @ write_manifest ?c files @ concat (map snd files) @ fts_magic"
    using assms(2) by (simp add: fts_write_def)
  have "read_entries (fts_write files) (length (fts_write files) - 4) (length files) (length ?h) =
      Inr (entries_from ?c files)"
    by (rule read_entries_mid [OF assms(1) w assms(3)])
      (use assms(3) in \<open>simp_all add: w length_write_manifest\<close>)
  moreover have "foldl (restore wr (fts_write files)) (Inr create) (entries_from (length (?h @ write_manifest ?c files)) files) =
      write_all wr (Inr create) files"
    by (rule restore_all) (simp add: w)
  ultimately show ?thesis
    using read_header_write [OF assms(2,3)]
    by (simp add: open_directory_def read_manifest_def length_write_manifest)
qed

theorem sidecar_roundtrip_witness:
  "open_directory [] (\<lambda>d n b. Inr (d @ [(n, b)])) (fts_write [(''meta.json'', [1, 2]), (''seg'', [])]) =
     Inr [(''meta.json'', [1, 2]), (''seg'', [])]"
proof -
  have "list_all file_ok [(''meta.json'', [1, 2]), (''seg'', [])]"
    by (simp add: file_ok_def u32_size_def str_ok_def as_bytes_def)
  moreover have "length (fts_write [(''meta.json'', [1, 2]), (''seg'', [])]) < usize_size"
    by (simp add: fts_write_def usize_size_def Let_def)
  ultimately show ?thesis
    using sidecar_roundtrip [of "[(''meta.json'', [1, 2]), (''seg'', [])]" "[]" "\<lambda>d n b. Inr (d @ [(n, b)])"]
    by (simp add: u32_size_def)
qed

text \<open>
  Whatever the blob, a manifest that is accepted lists as many files as the header
  says, and the byte range of each ends before the trailing magic: the slice taken to restore it is
  inside the buffer.
\<close>

theorem sidecar_ranges_in_bounds:
  assumes "read_header bs = Inr h" and "read_manifest bs h = Inr es"
  shows "length es = fh_file_count h \<and>
    (\<forall>e \<in> set es. me_data_off e + me_data_len e + 4 \<le> length bs \<and>
       get_slice bs (me_data_off e) (me_data_off e + me_data_len e) \<noteq> None)"
proof -
  have "12 \<le> length bs" using assms(1) by (simp add: read_header_def split: if_splits)
  with read_entries_bound [OF assms(2) [unfolded read_manifest_def]] show ?thesis
    by (fastforce simp: get_slice_def)
qed

theorem sidecar_ranges_in_bounds_witness:
  "length (entries_from 35 [(''seg'', [7])]) = 1 \<and>
   list_all (\<lambda>e. me_data_off e + me_data_len e + 4 \<le> length (fts_write [(''seg'', [7])])) (entries_from 35 [(''seg'', [7])])"
proof -
  let ?w = "fts_write [(''seg'', [7])]"
  have h: "read_header ?w = Inr \<lparr>fh_version = FORMAT_VERSION, fh_file_count = 1, fh_manifest_offset = 12\<rparr>"
    using read_header_write [of "[(''seg'', [7])]"]
    by (simp add: fts_write_def usize_size_def u32_size_def Let_def)
  have "read_entries ?w (length ?w - 4) (length [(''seg'', [7 :: u8])]) 12 = Inr (entries_from 35 [(''seg'', [7])])"
    using read_entries_mid [of "[(''seg'', [7])]" ?w "fts_magic @ le_bytes 4 FORMAT_VERSION @ le_bytes 4 1" 35
        "[7] @ fts_magic" "length ?w - 4"]
    by (simp add: fts_write_def file_ok_def u32_size_def usize_size_def str_ok_def as_bytes_def manifest_size_def Let_def
        del: le_bytes.simps)
  then have "read_manifest ?w \<lparr>fh_version = FORMAT_VERSION, fh_file_count = 1, fh_manifest_offset = 12\<rparr> =
      Inr (entries_from 35 [(''seg'', [7])])" by (simp add: read_manifest_def)
  from sidecar_ranges_in_bounds [OF h this] show ?thesis by (simp add: list_all_iff)
qed

end
