(* ===== verification/Catalog_Prune.thy ===== *)
theory Catalog_Prune
  imports Tlm_Column_Stats
begin

text \<open>
  Extent listing of the SQLite catalog (\<open>list_extents_in_tenant\<close> of \<open>pensieve-catalog-sqlite\<close>): the
  live extents of a table, pruned by time range, by required paths and by the column statistics
  each extent carries, newest first. Instants are nanoseconds since the epoch.
\<close>

section \<open>Manifests and predicates\<close>

record extent_manifest =
  ext_id :: string
  ext_table_id :: nat
  schema_snapshot_id :: nat
  object_path :: string
  byte_size :: nat
  ext_row_count :: nat
  min_timestamp :: "int option"
  max_timestamp :: "int option"
  column_stats :: json
  present_paths :: "string list"
  compaction_gen :: nat
  created_at :: int

text \<open>A row of the \<open>extents\<close> table: the manifest with its tenant and the soft-delete mark.\<close>

record extent_row =
  row_tenant :: nat
  row_manifest :: extent_manifest
  deleted_at :: "int option"

record time_range =
  start_inclusive :: int
  end_exclusive :: int

datatype column_prune =
    PruneEquals json
  | PruneBetween json json
  | PruneInSet "json list"
  | ContainsTokens "string list"
  | VectorDistance "u64 list" u64

record prune_predicate =
  prune_time_range :: "time_range option"
  required_paths :: "string list"
  column_predicates :: "(string \<times> column_prune) list"

definition prune_default :: prune_predicate where
  "prune_default = \<lparr>prune_time_range = None, required_paths = [], column_predicates = []\<rparr>"

section \<open>Listing\<close>

definition distinct_array :: "json \<Rightarrow> string \<Rightarrow> json list option" where
  "distinct_array stats col =
     Option.bind (Option.bind (json_get stats col) (\<lambda>c. json_get c ''distinct'')) json_as_array"

definition token_array :: "json \<Rightarrow> string \<Rightarrow> json list option" where
  "token_array stats col =
     Option.bind (Option.bind (json_get stats col) (\<lambda>c. json_get c ''tokens'')) json_as_array"

text \<open>
  \<open>in_range\<close>. \<open>num_range\<close> stands for the comparison of three numbers after \<open>as_f64\<close>: it is \<open>None\<close> when
  one of the three is not a number.
\<close>

definition in_range :: "(json \<Rightarrow> json \<Rightarrow> json \<Rightarrow> bool option) \<Rightarrow> json \<Rightarrow> json \<Rightarrow> json \<Rightarrow> bool" where
  "in_range num_range x low high =
     (case num_range x low high of
        Some r \<Rightarrow> r
      | None \<Rightarrow>
          (case (json_as_str x, json_as_str low, json_as_str high) of
             (Some xs, Some ls, Some hs) \<Rightarrow> ls \<le> xs \<and> xs \<le> hs
           | _ \<Rightarrow> True))"

definition keep_time :: "time_range \<Rightarrow> extent_manifest \<Rightarrow> bool" where
  "keep_time tr m =
     (case (min_timestamp m, max_timestamp m) of
        (Some mn, Some mx) \<Rightarrow> mx \<ge> start_inclusive tr \<and> mn < end_exclusive tr
      | _ \<Rightarrow> True)"

definition keep_paths :: "string list \<Rightarrow> extent_manifest \<Rightarrow> bool" where
  "keep_paths ps m \<longleftrightarrow> list_all (\<lambda>p. p \<in> set (present_paths m)) ps"

text \<open>The comparisons on \<open>f64\<close> are the parameters \<open>num_range\<close> and \<open>keep_vector\<close>.\<close>

record float_ops =
  num_range :: "json \<Rightarrow> json \<Rightarrow> json \<Rightarrow> bool option"
  keep_vector :: "json \<Rightarrow> string \<Rightarrow> u64 list \<Rightarrow> u64 \<Rightarrow> bool"

fun keep_column :: "float_ops \<Rightarrow> string \<Rightarrow> column_prune \<Rightarrow> extent_manifest \<Rightarrow> bool" where
  "keep_column fo col (PruneEquals v) m =
     (case distinct_array (column_stats m) col of
        Some arr \<Rightarrow> list_ex (\<lambda>x. x = v) arr
      | None \<Rightarrow> True)"
| "keep_column fo col (PruneInSet vs) m =
     (case distinct_array (column_stats m) col of
        Some arr \<Rightarrow> list_ex (\<lambda>v. list_ex (\<lambda>x. x = v) arr) vs
      | None \<Rightarrow> True)"
| "keep_column fo col (PruneBetween low high) m =
     (case distinct_array (column_stats m) col of
        Some arr \<Rightarrow> list_ex (\<lambda>x. in_range (num_range fo) x low high) arr
      | None \<Rightarrow> True)"
| "keep_column fo col (ContainsTokens tokens) m =
     (case token_array (column_stats m) col of
        Some toks \<Rightarrow> list_all (\<lambda>t. list_ex (\<lambda>x. x = JString t) toks) tokens
      | None \<Rightarrow> True)"
| "keep_column fo col (VectorDistance query threshold) m =
     keep_vector fo (column_stats m) col query threshold"

text \<open>
  \<open>ORDER BY min_timestamp DESC NULLS LAST\<close>, as the stable sort with that comparator: the extents
  with a bound in descending order, then the others as they came.
\<close>

definition sort_newest :: "extent_manifest list \<Rightarrow> extent_manifest list" where
  "sort_newest ms =
     sort_key (\<lambda>m. - the (min_timestamp m)) (filter (\<lambda>m. min_timestamp m \<noteq> None) ms) @
     filter (\<lambda>m. min_timestamp m = None) ms"

definition keep_extent :: "float_ops \<Rightarrow> prune_predicate \<Rightarrow> extent_manifest \<Rightarrow> bool" where
  "keep_extent fo prune m \<longleftrightarrow>
     (case prune_time_range prune of None \<Rightarrow> True | Some tr \<Rightarrow> keep_time tr m) \<and>
     keep_paths (required_paths prune) m \<and>
     list_all (\<lambda>(col, pred). keep_column fo col pred m) (column_predicates prune)"

definition list_extents ::
  "float_ops \<Rightarrow> extent_row list \<Rightarrow> nat \<Rightarrow> nat \<Rightarrow> prune_predicate \<Rightarrow> extent_manifest list" where
  "list_extents fo db tenant table_id prune =
     (let rows = filter (\<lambda>r. row_tenant r = tenant \<and> ext_table_id (row_manifest r) = table_id \<and>
                             deleted_at r = None) db;
          out0 = map row_manifest rows;
          out1 = (case prune_time_range prune of
                    Some tr \<Rightarrow> filter (keep_time tr) out0
                  | None \<Rightarrow> out0);
          out2 = (if required_paths prune \<noteq> [] then filter (keep_paths (required_paths prune)) out1 else out1);
          out3 = foldl (\<lambda>out (col, pred). filter (keep_column fo col pred) out) out2 (column_predicates prune)
      in sort_newest out3)"

section \<open>The listing is one filter and a sort\<close>

lemma fold_filter:
  "foldl (\<lambda>out (col, pred). filter (keep_column fo col pred) out) ms ps =
     filter (\<lambda>m. list_all (\<lambda>(col, pred). keep_column fo col pred m) ps) ms"
  by (induction ps arbitrary: ms) (auto simp: conj_commute split: prod.splits)

lemma set_sort_newest [simp]: "set (sort_newest ms) = set ms"
  by (auto simp: sort_newest_def)

lemma list_extents_set:
  "set (list_extents fo db tenant table_id prune) =
     {row_manifest r | r. r \<in> set db \<and> row_tenant r = tenant \<and> ext_table_id (row_manifest r) = table_id \<and>
        deleted_at r = None \<and> keep_extent fo prune (row_manifest r)}"
  by (auto simp: list_extents_def Let_def fold_filter keep_extent_def keep_paths_def split: option.splits)

section \<open>Column statistics describe the extent\<close>

text \<open>The statistic object \<open>finish\<close> writes for a slot.\<close>

fun slot_json :: "indexable_kind \<Rightarrow> stat_slot \<Rightarrow> json \<Rightarrow> bool" where
  "slot_json KString s v = (v = JObject [(''distinct'', string_array_json (distinct_string s)),
                                         (''tokens'', string_array_json (token_set s))])"
| "slot_json (KVector _) s v = (\<exists>w. v = JObject [(''vec'', w)])"
| "slot_json _ s v = (v = JObject [(''distinct'', int_array_json (distinct_int s)), (''tokens'', JNull)])"

lemma finish_column_cases:
  assumes "finish_column vs sch st (p, (j, k), s) = Some st'"
  shows "st' = st \<or> (\<exists>v. j < length sch \<and> st' = json_insert (fst (sch ! j)) v st \<and> slot_json k s v)"
  using assms by (cases k; cases "sch ! j") (auto simp: finish_column_def split: option.splits)

lemma acc_finish_get:
  assumes fin: "acc_finish vs a = Some js" and get: "json_get js name = Some v"
  shows "\<exists>j k s. ((j, k), s) \<in> set (zip (indexable_columns a) (slots a)) \<and>
    j < length (acc_schema a) \<and> fst (acc_schema a ! j) = name \<and> slot_json k s v"
proof -
  let ?z = "zip (indexable_columns a) (slots a)"
  let ?I = "\<lambda>ds st. \<forall>name v. map_of st name = Some v \<longrightarrow> (\<exists>p j k s. (p :: nat, (j, k), s) \<in> set ds \<and>
      j < length (acc_schema a) \<and> fst (acc_schema a ! j) = name \<and> slot_json k s v)"
  from fin obtain st where f: "foldM (finish_column vs (acc_schema a)) [] (enumerate 0 ?z) = Some st"
    "js = JObject st" by (auto simp: acc_finish_def)
  have "?I (enumerate 0 ?z) st"
  proof (rule foldM_pres [where I = ?I, OF f(1)])
    fix ds x t t' assume I: "?I ds t" and x: "finish_column vs (acc_schema a) t x = Some t'"
    obtain p j k s where xe: "x = (p, (j, k), s)" by (metis prod.collapse)
    from finish_column_cases [OF x [unfolded xe]] show "?I (ds @ [x]) t'"
    proof
      assume "t' = t"
      with I show ?thesis by (metis Un_iff set_append)
    next
      assume "\<exists>v. j < length (acc_schema a) \<and> t' = json_insert (fst (acc_schema a ! j)) v t \<and> slot_json k s v"
      then obtain v where v: "j < length (acc_schema a)" "t' = json_insert (fst (acc_schema a ! j)) v t" "slot_json k s v"
        by blast
      show ?thesis
      proof (intro allI impI)
        fix n w assume "map_of t' n = Some w"
        then consider "n = fst (acc_schema a ! j)" "w = v" | "map_of t n = Some w"
          unfolding v(2) map_of_json_insert by (cases "n = fst (acc_schema a ! j)") simp_all
        then show "\<exists>p j k s. (p :: nat, (j, k), s) \<in> set (ds @ [x]) \<and> j < length (acc_schema a) \<and>
            fst (acc_schema a ! j) = n \<and> slot_json k s w"
        proof cases
          case 1
          with v xe show ?thesis by (metis in_set_conv_decomp)
        next
          case 2
          with I show ?thesis by (metis Un_iff set_append)
        qed
      qed
    qed
  qed simp
  with get f(2) have "\<exists>p j k s. (p, (j, k), s) \<in> set (enumerate 0 ?z) \<and>
      j < length (acc_schema a) \<and> fst (acc_schema a ! j) = name \<and> slot_json k s v" by simp
  then obtain p j k s where "(p, (j, k), s) \<in> set (enumerate 0 ?z)"
      "j < length (acc_schema a)" "fst (acc_schema a ! j) = name" "slot_json k s v" by blast
  moreover from this(1) have "snd (p, (j, k), s) \<in> set (map snd (enumerate 0 ?z))"
    unfolding set_map by (rule imageI)
  then have "((j, k), s) \<in> set ?z" by simp
  ultimately show ?thesis by blast
qed

text \<open>The cells of a column, by the value they have in the statistics.\<close>

fun cell_json :: "cell \<Rightarrow> json option" where
  "cell_json (CStr v) = Some (JString v)"
| "cell_json (CInt v) = Some (JInt v)"
| "cell_json _ = None"

lemma cell_of_index:
  assumes "batch_ok b" "cell_of b i name = Some c"
  shows "\<exists>j. j < length (schema b) \<and> fst (schema b ! j) = name \<and> cell_at (columns b ! j) i = Some c \<and>
    j < length (columns b)"
proof -
  from assms(2) obtain a where a: "column_of b name = Some a" "cell_at a i = Some c"
    by (auto simp: cell_of_def split: option.splits)
  from map_of_SomeD [OF a(1) [unfolded column_of_def]] a(2) assms(1) show ?thesis
    by (auto simp: set_zip batch_ok_def)
qed

lemma cell_at_str: "cell_at (columns b ! j) i = Some (CStr v) \<Longrightarrow> j < length (columns b) \<Longrightarrow> v \<in> str_vals b j"
  by (cases "columns b ! j") (auto simp: str_vals_def idx_in_range in_these_eq split: option.splits dest: nth_mem)

lemma cell_at_int: "cell_at (columns b ! j) i = Some (CInt v) \<Longrightarrow> j < length (columns b) \<Longrightarrow> v \<in> int_vals b j"
  by (cases "columns b ! j") (auto simp: int_vals_def idx_in_range in_these_eq split: option.splits dest: nth_mem)

lemma cell_at_ts: "cell_at (columns b ! j) i = Some (CTs v) \<Longrightarrow> j < length (columns b) \<Longrightarrow> v \<in> ts_vals b j"
  by (cases "columns b ! j") (auto simp: ts_vals_def idx_in_range in_these_eq split: option.splits dest: nth_mem)

text \<open>What an extent's manifest must say of the batches in its file.\<close>

definition manifest_of :: "(string \<times> data_type) list \<Rightarrow> record_batch list \<Rightarrow> extent_manifest \<Rightarrow> bool" where
  "manifest_of sch bs m \<longleftrightarrow> distinct (map fst sch) \<and> (\<forall>b \<in> set bs. batch_valid b \<and> schema b = sch) \<and>
     (\<exists>vs a. acc_inv sch bs a \<and> acc_finish vs a = Some (column_stats m) \<and>
        min_timestamp m = min_ts_nanos a \<and> max_timestamp m = max_ts_nanos a)"

lemma index_fields_kind:
  "(j, k) \<in> set (index_fields sch) \<Longrightarrow> j < length sch \<and> indexable_kind_of (snd (sch ! j)) = Some k"
  by (auto simp: index_fields_def map_filter_def in_set_enumerate_eq split: option.splits)

lemma acc_finish_total:
  assumes inv: "acc_inv sch bs a"
  shows "\<exists>js. acc_finish vs a = Some js"
proof -
  let ?xs = "enumerate 0 (zip (indexable_columns a) (slots a))"
  have "\<exists>t. foldM (finish_column vs (acc_schema a)) [] ?xs = Some t \<and> True"
  proof (rule foldM_inv)
    fix ds x rest t assume xs: "?xs = ds @ x # rest"
    obtain p j k s where x: "x = (p, (j, k), s)" by (metis prod.collapse)
    have "x \<in> set ?xs" by (simp add: xs)
    then have "snd x \<in> set (map snd ?xs)" unfolding set_map by (rule imageI)
    then have "(j, k) \<in> set (indexable_columns a)" by (auto simp: x dest: set_zip_leftD)
    then have "j < length (acc_schema a)" using inv index_fields_kind by (auto simp: acc_inv_def)
    then show "\<exists>t'. finish_column vs (acc_schema a) t x = Some t' \<and> True"
      by (cases "acc_schema a ! j"; cases k) (auto simp: x finish_column_def idx_in_range split: option.splits)
  qed simp
  then show ?thesis by (auto simp: acc_finish_def)
qed

lemma manifest_column:
  assumes m: "manifest_of sch bs m" and b: "b \<in> set bs" and c: "cell_of b i name = Some c"
    and get: "json_get (column_stats m) name = Some v"
  shows "\<exists>j k s V W. slot_json k s v \<and> slot_sum k V W s \<and> column_typed b j k \<and> str_vals b j \<subseteq> V \<and>
    int_vals b j \<subseteq> W \<and> j < length (columns b) \<and> cell_at (columns b ! j) i = Some c"
proof -
  from m obtain vs a where a: "acc_inv sch bs a" "acc_finish vs a = Some (column_stats m)"
    and dn: "distinct (map fst sch)" and bv: "batch_valid b" "schema b = sch"
    using b by (auto simp: manifest_of_def)
  have bo: "batch_ok b" using bv by (simp add: batch_valid_def)
  from a(1) have as: "acc_schema a = sch" "indexable_columns a = index_fields sch"
    and sl: "list_all2 (\<lambda>(j, k) s. slot_sum k (\<Union>b \<in> set bs. str_vals b j) (\<Union>b \<in> set bs. int_vals b j) s)
       (index_fields sch) (slots a)" by (auto simp: acc_inv_def)
  from acc_finish_get [OF a(2) get] obtain j k s where
    jk: "((j, k), s) \<in> set (zip (index_fields sch) (slots a))" "j < length sch" "fst (sch ! j) = name" "slot_json k s v"
    unfolding as by blast
  from cell_of_index [OF bo c] bv(2) obtain j' where
    j': "j' < length sch" "fst (sch ! j') = name" "cell_at (columns b ! j') i = Some c" "j' < length (columns b)"
    by auto
  have "j' = j" using dn jk(2,3) j'(1,2) by (metis distinct_conv_nth length_map nth_map)
  moreover have "slot_sum k (\<Union>b \<in> set bs. str_vals b j) (\<Union>b \<in> set bs. int_vals b j) s"
    using sl jk(1) by (auto simp: list_all2_iff)
  moreover have "column_typed b j k"
    using index_fields_typed [OF bo] set_zip_leftD [OF jk(1)] bv(2) by simp
  ultimately show ?thesis
    using jk(4) j' b by (intro exI [of _ j] exI [of _ k] exI [of _ s]
        exI [of _ "\<Union>b \<in> set bs. str_vals b j"] exI [of _ "\<Union>b \<in> set bs. int_vals b j"]) auto
qed

lemma finite_token_union: "finite V \<Longrightarrow> finite (\<Union>v \<in> V. tokens_of v)"
  by (simp add: finite_tokens_of)

lemma manifest_distinct:
  assumes m: "manifest_of sch bs m" "b \<in> set bs" "cell_of b i name = Some c"
    and j: "cell_json c = Some x" and d: "distinct_array (column_stats m) name = Some arr"
  shows "x \<in> set arr"
proof -
  from d obtain v w where v: "json_get (column_stats m) name = Some v" "json_get v ''distinct'' = Some w"
    "json_as_array w = Some arr" by (auto simp: distinct_array_def bind_eq_Some_conv)
  from manifest_column [OF m v(1)] obtain jj k s V W where
    k: "slot_json k s v" "slot_sum k V W s" "column_typed b jj k" "str_vals b jj \<subseteq> V" "int_vals b jj \<subseteq> W"
       "jj < length (columns b)" "cell_at (columns b ! jj) i = Some c" by blast
  show ?thesis
  proof (cases c)
    case (CStr t)
    with j have x: "x = JString t" by simp
    from CStr k(3,6,7) have "k = KString \<or> (\<exists>n. k = KVector n)"
      by (cases k; cases "columns b ! jj") (auto simp: column_typed_def idx_in_range split: option.splits)
    with k(1) v(2) have ks: "k = KString" by auto
    with k(1) v(2,3) have "string_array_json (distinct_string s) = JArray arr"
      by (cases w) (auto simp: string_array_json_def split: option.splits)
    with k(2) ks have "arr = map JString (sorted_list_of_set V)" "finite V"
      by (auto simp: string_array_json_def slot_sum_def split: option.splits)
    with cell_at_str [OF k(7) [unfolded CStr] k(6)] k(4) x show ?thesis by auto
  next
    case (CInt t)
    with j have x: "x = JInt t" by simp
    from CInt k(3,6,7) have "k = KInt32 \<or> k = KInt64 \<or> (\<exists>n. k = KVector n)"
      by (cases k; cases "columns b ! jj") (auto simp: column_typed_def idx_in_range split: option.splits)
    with k(1) v(2) have ks: "k = KInt32 \<or> k = KInt64" by auto
    with k(1) v(2,3) have "int_array_json (distinct_int s) = JArray arr"
      by (cases w) (auto simp: int_array_json_def split: option.splits)
    with k(2) ks have "arr = map JInt (sorted_list_of_set W)" "finite W"
      by (auto simp: int_array_json_def slot_sum_def split: option.splits)
    with cell_at_int [OF k(7) [unfolded CInt] k(6)] k(5) x show ?thesis by auto
  qed (use j in auto)
qed

lemma manifest_tokens:
  assumes m: "manifest_of sch bs m" "b \<in> set bs" "cell_of b i name = Some (CStr t)"
    and d: "token_array (column_stats m) name = Some toks" and tok: "x \<in> tokens_of t"
  shows "JString x \<in> set toks"
proof -
  from d obtain v w where v: "json_get (column_stats m) name = Some v" "json_get v ''tokens'' = Some w"
    "json_as_array w = Some toks" by (auto simp: token_array_def bind_eq_Some_conv)
  from manifest_column [OF m v(1)] obtain jj k s V W where
    k: "slot_json k s v" "slot_sum k V W s" "column_typed b jj k" "str_vals b jj \<subseteq> V"
       "jj < length (columns b)" "cell_at (columns b ! jj) i = Some (CStr t)" by blast
  from k(3,5,6) have "k = KString \<or> (\<exists>n. k = KVector n)"
    by (cases k; cases "columns b ! jj") (auto simp: column_typed_def idx_in_range split: option.splits)
  with k(1) v(2) have ks: "k = KString" by auto
  with k(1) v(2,3) have "string_array_json (token_set s) = JArray toks"
    by (cases w) (auto simp: string_array_json_def split: option.splits)
  with k(2) ks have "toks = map JString (sorted_list_of_set (\<Union>v \<in> V. tokens_of v))" "finite V"
    by (auto simp: string_array_json_def slot_sum_def split: option.splits)
  with cell_at_str [OF k(6,5)] k(4) tok finite_token_union show ?thesis by auto
qed

section \<open>Extent pruning is sound\<close>

text \<open>What a prune predicate asks of a row: \<open>row_ts\<close> is the row's cell in the first nanosecond column.\<close>

definition ts_column :: "(string \<times> data_type) list \<Rightarrow> string option" where
  "ts_column sch = map_option (\<lambda>i. fst (sch ! i)) (position (\<lambda>f. snd f = Timestamp Nanosecond) sch)"

definition row_ts :: "record_batch \<Rightarrow> nat \<Rightarrow> int option" where
  "row_ts b i = (case ts_column (schema b) of
     None \<Rightarrow> None
   | Some name \<Rightarrow> (case cell_of b i name of Some (CTs t) \<Rightarrow> Some t | _ \<Rightarrow> None))"

definition in_time_range :: "time_range \<Rightarrow> int \<Rightarrow> bool" where
  "in_time_range tr t \<longleftrightarrow> start_inclusive tr \<le> t \<and> t < end_exclusive tr"

fun col_sat :: "float_ops \<Rightarrow> record_batch \<Rightarrow> nat \<Rightarrow> string \<Rightarrow> column_prune \<Rightarrow> bool" where
  "col_sat fo b i col (PruneEquals v) = (Option.bind (cell_of b i col) cell_json = Some v)"
| "col_sat fo b i col (PruneInSet vs) =
     (case Option.bind (cell_of b i col) cell_json of None \<Rightarrow> False | Some x \<Rightarrow> x \<in> set vs)"
| "col_sat fo b i col (PruneBetween low high) =
     (case Option.bind (cell_of b i col) cell_json of
        None \<Rightarrow> False | Some x \<Rightarrow> in_range (num_range fo) x low high)"
| "col_sat fo b i col (ContainsTokens ts) =
     (case cell_of b i col of Some (CStr s) \<Rightarrow> set ts \<subseteq> tokens_of s | _ \<Rightarrow> False)"
| "col_sat fo b i col (VectorDistance _ _) = False"

definition prune_sat :: "float_ops \<Rightarrow> prune_predicate \<Rightarrow> record_batch \<Rightarrow> nat \<Rightarrow> bool" where
  "prune_sat fo prune b i \<longleftrightarrow>
     (case prune_time_range prune of
        None \<Rightarrow> True | Some tr \<Rightarrow> (case row_ts b i of None \<Rightarrow> False | Some t \<Rightarrow> in_time_range tr t)) \<and>
     required_paths prune = [] \<and>
     list_all (\<lambda>(col, pred). col_sat fo b i col pred) (column_predicates prune)"

lemma keep_column_sound:
  assumes m: "manifest_of sch bs m" "b \<in> set bs" and c: "col_sat fo b i col pred"
  shows "keep_column fo col pred m"
proof (cases pred)
  case (PruneEquals v)
  with c obtain cl where cl: "cell_of b i col = Some cl" "cell_json cl = Some v"
    by (auto simp: bind_eq_Some_conv)
  with manifest_distinct [OF m cl] PruneEquals show ?thesis by (auto simp: list_ex_iff split: option.splits)
next
  case (PruneBetween low high)
  with c obtain cl x where cl: "cell_of b i col = Some cl" "cell_json cl = Some x" "in_range (num_range fo) x low high"
    by (auto simp: bind_eq_Some_conv split: option.splits)
  with manifest_distinct [OF m cl(1,2)] PruneBetween show ?thesis by (auto simp: list_ex_iff split: option.splits)
next
  case (PruneInSet vs)
  with c obtain cl x where cl: "cell_of b i col = Some cl" "cell_json cl = Some x" "x \<in> set vs"
    by (auto simp: bind_eq_Some_conv split: option.splits)
  with manifest_distinct [OF m cl(1,2)] PruneInSet show ?thesis by (auto simp: list_ex_iff split: option.splits)
next
  case (ContainsTokens ts)
  with c obtain s where "cell_of b i col = Some (CStr s)" "set ts \<subseteq> tokens_of s"
    by (auto split: option.splits cell.splits)
  with manifest_tokens [OF m, of i col s] ContainsTokens show ?thesis
    by (auto simp: list_ex_iff list_all_iff split: option.splits)
qed (use c in simp)

lemma manifest_time:
  assumes m: "manifest_of sch bs m" and b: "b \<in> set bs" and t: "row_ts b i = Some t"
  shows "ts_within (min_timestamp m) (max_timestamp m) t"
proof -
  from m obtain vs a where a: "acc_inv sch bs a" "min_timestamp m = min_ts_nanos a" "max_timestamp m = max_ts_nanos a"
    and dn: "distinct (map fst sch)" and bv: "batch_valid b" "schema b = sch"
    using b by (auto simp: manifest_of_def)
  have bo: "batch_ok b" using bv by (simp add: batch_valid_def)
  from t bv(2) obtain p where p: "position (\<lambda>f. snd f = Timestamp Nanosecond) sch = Some p"
    "cell_of b i (fst (sch ! p)) = Some (CTs t)"
    by (auto simp: row_ts_def ts_column_def split: option.splits cell.splits)
  from cell_of_index [OF bo p(2)] bv(2) obtain j where
    j: "j < length sch" "fst (sch ! j) = fst (sch ! p)" "cell_at (columns b ! j) i = Some (CTs t)" "j < length (columns b)"
    by auto
  have "p < length sch" using position_Some [OF p(1)] by simp
  then have "j = p" using dn j(1,2) by (metis distinct_conv_nth length_map nth_map)
  with cell_at_ts [OF j(3,4)] have "t \<in> ts_vals b p" by simp
  moreover have "ts_col_index a = Some p" using a(1) p(1) by (simp add: acc_inv_def)
  ultimately show ?thesis using a b by (auto simp: acc_inv_def)
qed

lemma keep_extent_sound:
  assumes m: "manifest_of sch bs m" "b \<in> set bs" and p: "prune_sat fo prune b i"
  shows "keep_extent fo prune m"
proof -
  have "keep_time tr m" if tr: "prune_time_range prune = Some tr" for tr
  proof -
    from p tr obtain t where t: "row_ts b i = Some t" "in_time_range tr t"
      by (auto simp: prune_sat_def split: option.splits)
    from manifest_time [OF m t(1)] t(2) show ?thesis
      by (auto simp: ts_within_def keep_time_def in_time_range_def)
  qed
  moreover have "keep_paths (required_paths prune) m" using p by (simp add: prune_sat_def keep_paths_def)
  moreover have "keep_column fo col pred m" if "(col, pred) \<in> set (column_predicates prune)" for col pred
    using keep_column_sound [OF m, of fo i col pred] p that by (auto simp: prune_sat_def list_all_iff)
  ultimately show ?thesis by (auto simp: keep_extent_def list_all_iff split: option.splits)
qed

interpretation extents: pruner "\<lambda>m (sch, bs). manifest_of sch bs m" "keep_extent fo"
    "\<lambda>prune (sch, bs) (b, i). b \<in> set bs \<and> prune_sat fo prune b i" for fo
  by unfold_locales (auto intro: keep_extent_sound split: prod.splits)

end
