(* ===== verification/Exec_Prune.thy ===== *)
theory Exec_Prune
  imports Catalog_Prune
begin

text \<open>
  Filter pushdown of \<open>pensieve-exec\<close>: from the filter expressions of a query to the catalog's prune
  predicate and on to the block predicate. Expressions are DataFusion's, reduced to the forms the
  code matches on; instants are nanoseconds since the epoch.
\<close>

section \<open>Expressions\<close>

datatype df_scalar =
    DUtf8 "string option"
  | DLargeUtf8 "string option"
  | DInt32 "int option"
  | DInt64 "int option"
  | TimestampNanosecond "int option"
  | TimestampMicrosecond "int option"
  | TimestampMillisecond "int option"
  | TimestampSecond "int option"
  | OtherScalar nat

datatype operator = OpEq | OpLt | OpLtEq | OpGt | OpGtEq | OpAnd | OpOr | OtherOp nat

datatype expr =
    Column string
  | Literal df_scalar
  | BinaryExpr expr operator expr
  | Between expr bool expr expr
  | InList expr "expr list" bool
  | Like bool expr expr
  | Cast expr
  | ScalarFunction string "expr list"
  | OtherExpr nat

text \<open>
  What the code takes from \<open>chrono\<close> and from \<open>f64\<close> arithmetic: the seconds \<open>timestamp_opt\<close> accepts, the
  RFC 3339 parser, and the conversions of scalars to the bits of \<open>f64\<close> and \<open>f32\<close>.
\<close>

record time_env =
  secs_ok :: "int \<Rightarrow> bool"
  parse_rfc3339 :: "string \<Rightarrow> int option"
  scalar_to_f64 :: "df_scalar \<Rightarrow> u64 option"
  f64_to_f32 :: "u64 \<Rightarrow> u64"

datatype time_bound = GtOrGe int bool | LtOrLe int bool | TBetween int int

section \<open>Extraction\<close>

fun flip_op :: "operator \<Rightarrow> operator" where
  "flip_op OpLt = OpGt"
| "flip_op OpLtEq = OpGtEq"
| "flip_op OpGt = OpLt"
| "flip_op OpGtEq = OpLtEq"
| "flip_op other = other"

text \<open>
  \<open>timestamp_opt(n / k, (n % k) * (10^9 / k) as u32)\<close> for \<open>k\<close> units per second: Rust's remainder has the
  sign of \<open>n\<close>, and a negative one wraps to a nanosecond count that \<open>timestamp_opt\<close> rejects.
\<close>

definition unit_instant :: "time_env \<Rightarrow> int \<Rightarrow> int \<Rightarrow> int option" where
  "unit_instant env k n =
     (if n < 0 \<and> n mod k \<noteq> 0 then None
      else if secs_ok env (n div k) then Some (n * (1000000000 div k)) else None)"

definition scalar_instant :: "time_env \<Rightarrow> df_scalar \<Rightarrow> int option" where
  "scalar_instant env lit =
     (case lit of
        TimestampNanosecond (Some n) \<Rightarrow> (if secs_ok env (n div 1000000000) then Some n else None)
      | TimestampMicrosecond (Some n) \<Rightarrow> unit_instant env 1000000 n
      | TimestampMillisecond (Some n) \<Rightarrow> unit_instant env 1000 n
      | TimestampSecond (Some n) \<Rightarrow> (if secs_ok env n then Some (n * 1000000000) else None)
      | DUtf8 (Some s) \<Rightarrow> parse_rfc3339 env s
      | DLargeUtf8 (Some s) \<Rightarrow> parse_rfc3339 env s
      | _ \<Rightarrow> None)"

definition ts_from_expr :: "time_env \<Rightarrow> expr \<Rightarrow> int option" where
  "ts_from_expr env e =
     (case e of
        Literal s \<Rightarrow> scalar_instant env s
      | Cast (Literal s) \<Rightarrow> scalar_instant env s
      | _ \<Rightarrow> None)"

definition bound_of_op :: "operator \<Rightarrow> int \<Rightarrow> time_bound option" where
  "bound_of_op op ts =
     (case op of
        OpGt \<Rightarrow> Some (GtOrGe ts False)
      | OpGtEq \<Rightarrow> Some (GtOrGe ts True)
      | OpLt \<Rightarrow> Some (LtOrLe ts False)
      | OpLtEq \<Rightarrow> Some (LtOrLe ts True)
      | _ \<Rightarrow> None)"

definition extract_time_bound :: "time_env \<Rightarrow> expr \<Rightarrow> string \<Rightarrow> time_bound option" where
  "extract_time_bound env e ts_col =
     (case e of
        BinaryExpr left op right \<Rightarrow>
          (if left = Column ts_col then Option.bind (ts_from_expr env right) (bound_of_op op)
           else if right = Column ts_col then Option.bind (ts_from_expr env left) (bound_of_op (flip_op op))
           else None)
      | Between x negated low high \<Rightarrow>
          (if \<not> negated \<and> x = Column ts_col
           then (case (ts_from_expr env low, ts_from_expr env high) of
                   (Some a, Some b) \<Rightarrow> Some (TBetween a b)
                 | _ \<Rightarrow> None)
           else None)
      | _ \<Rightarrow> None)"

definition scalar_to_json :: "df_scalar \<Rightarrow> json option" where
  "scalar_to_json s =
     (case s of
        DUtf8 (Some v) \<Rightarrow> Some (JString v)
      | DLargeUtf8 (Some v) \<Rightarrow> Some (JString v)
      | DInt32 (Some v) \<Rightarrow> Some (JInt v)
      | DInt64 (Some v) \<Rightarrow> Some (JInt v)
      | _ \<Rightarrow> None)"

text \<open>\<open>col == literal\<close> on either side, for an indexable column.\<close>

definition eq_operands :: "string set \<Rightarrow> expr \<Rightarrow> expr \<Rightarrow> (string \<times> df_scalar) option" where
  "eq_operands indexable left right =
     (case (left, right) of
        (Column c, Literal l) \<Rightarrow> (if c \<in> indexable then Some (c, l) else None)
      | (Literal l, Column c) \<Rightarrow> (if c \<in> indexable then Some (c, l) else None)
      | _ \<Rightarrow> None)"

text \<open>\<open>walk\<close>: \<open>None\<close> is the result \<open>false\<close>; otherwise the column and values collected so far.\<close>

fun walk :: "string set \<Rightarrow> expr \<Rightarrow> string option \<times> json list \<Rightarrow> (string option \<times> json list) option" where
  "walk indexable (BinaryExpr left op right) st =
     (if op = OpOr then Option.bind (walk indexable left st) (walk indexable right)
      else if op = OpEq then
        (case eq_operands indexable left right of
           None \<Rightarrow> None
         | Some (n, lit) \<Rightarrow>
             (case st of (col_name, values) \<Rightarrow>
                (case col_name of
                   Some existing \<Rightarrow> if existing \<noteq> n then None
                                     else map_option (\<lambda>j. (col_name, values @ [j])) (scalar_to_json lit)
                 | None \<Rightarrow> map_option (\<lambda>j. (Some n, values @ [j])) (scalar_to_json lit))))
      else None)"
| "walk indexable _ st = None"

definition literal_json :: "expr \<Rightarrow> json option" where
  "literal_json e = (case e of Literal l \<Rightarrow> scalar_to_json l | _ \<Rightarrow> None)"

definition extract_equality :: "string set \<Rightarrow> expr \<Rightarrow> (string \<times> column_prune) option" where
  "extract_equality indexable e =
     (case e of
        BinaryExpr left op right \<Rightarrow>
          (if op = OpEq then
             (case eq_operands indexable left right of
                None \<Rightarrow> None
              | Some (col_name, lit) \<Rightarrow> map_option (\<lambda>j. (col_name, PruneEquals j)) (scalar_to_json lit))
           else if op = OpOr then
             (case Option.bind (walk indexable left (None, [])) (walk indexable right) of
                Some (Some n, values) \<Rightarrow> Some (n, PruneInSet values)
              | _ \<Rightarrow> None)
           else None)
      | InList x items negated \<Rightarrow>
          (if negated then None
           else (case x of
                   Column c \<Rightarrow>
                     (if c \<in> indexable then map_option (\<lambda>vs. (c, PruneInSet vs)) (traverse literal_json items)
                      else None)
                 | _ \<Rightarrow> None))
      | _ \<Rightarrow> None)"

definition trim_percent :: "string \<Rightarrow> string" where
  "trim_percent s = rev (dropWhile (\<lambda>c. c = CHR ''%'') (rev (dropWhile (\<lambda>c. c = CHR ''%'') s)))"

definition extract_text_search :: "string set \<Rightarrow> expr \<Rightarrow> (string \<times> column_prune) option" where
  "extract_text_search string_cols e =
     (case e of
        Like negated inner pat \<Rightarrow>
          (if negated then None
           else (case inner of
                   Column c \<Rightarrow>
                     (if c \<notin> string_cols then None
                      else (case pat of
                              Literal (DUtf8 (Some raw)) \<Rightarrow>
                                (let tokens = tokenize (trim_percent raw) {}
                                 in if tokens = {} then None
                                    else Some (c, ContainsTokens (sorted_list_of_set tokens)))
                            | Literal (DLargeUtf8 (Some raw)) \<Rightarrow>
                                (let tokens = tokenize (trim_percent raw) {}
                                 in if tokens = {} then None
                                    else Some (c, ContainsTokens (sorted_list_of_set tokens)))
                            | _ \<Rightarrow> None))
                 | _ \<Rightarrow> None))
      | _ \<Rightarrow> None)"

definition decode_make_array :: "time_env \<Rightarrow> expr \<Rightarrow> u64 list option" where
  "decode_make_array env e =
     (case e of
        ScalarFunction name args \<Rightarrow>
          (if name \<noteq> ''make_array'' \<or> args = [] then None
           else traverse (\<lambda>a. case a of
                    Literal s \<Rightarrow> map_option (f64_to_f32 env) (scalar_to_f64 env s)
                  | _ \<Rightarrow> None) args)
      | _ \<Rightarrow> None)"

definition vector_operands :: "string set \<Rightarrow> expr list \<Rightarrow> (string \<times> expr) option" where
  "vector_operands vector_cols args =
     (case args of
        [a, b] \<Rightarrow>
          (case a of
             Column c \<Rightarrow>
               (if c \<in> vector_cols then Some (c, b)
                else (case b of Column d \<Rightarrow> (if d \<in> vector_cols then Some (d, a) else None) | _ \<Rightarrow> None))
           | _ \<Rightarrow> (case b of Column d \<Rightarrow> (if d \<in> vector_cols then Some (d, a) else None) | _ \<Rightarrow> None))
      | _ \<Rightarrow> None)"

definition extract_vector_distance :: "time_env \<Rightarrow> string set \<Rightarrow> expr \<Rightarrow> (string \<times> column_prune) option" where
  "extract_vector_distance env vector_cols e =
     (case e of
        BinaryExpr left op right \<Rightarrow>
          (case (if op = OpLt \<or> op = OpLtEq then Some (left, right)
                 else if op = OpGt \<or> op = OpGtEq then Some (right, left) else None) of
             None \<Rightarrow> None
           | Some (dist_expr, thresh_expr) \<Rightarrow>
               (case dist_expr of
                  ScalarFunction name args \<Rightarrow>
                    (if name \<noteq> ''cosine_distance'' then None
                     else (case vector_operands vector_cols args of
                             None \<Rightarrow> None
                           | Some (col_name, arr) \<Rightarrow>
                               (case (decode_make_array env arr, thresh_expr) of
                                  (Some query, Literal s) \<Rightarrow>
                                    map_option (\<lambda>t. (col_name, VectorDistance query t)) (scalar_to_f64 env s)
                                | _ \<Rightarrow> None)))
                | _ \<Rightarrow> None))
      | _ \<Rightarrow> None)"

section \<open>Predicates\<close>

type_synonym bounds = "int option \<times> int option"

definition max_opt :: "int option \<Rightarrow> int \<Rightarrow> int option" where
  "max_opt cur t = Some (case cur of None \<Rightarrow> t | Some c \<Rightarrow> max c t)"

definition min_opt :: "int option \<Rightarrow> int \<Rightarrow> int option" where
  "min_opt cur t = Some (case cur of None \<Rightarrow> t | Some c \<Rightarrow> min c t)"

definition add_bound :: "bounds \<Rightarrow> time_bound option \<Rightarrow> bounds" where
  "add_bound lh tb = (case lh of (lo, hi) \<Rightarrow>
     (case tb of
        Some (GtOrGe t _) \<Rightarrow> (max_opt lo t, hi)
      | Some (LtOrLe t inclusive) \<Rightarrow> (lo, min_opt hi (if inclusive then t + 1 else t))
      | Some (TBetween a b) \<Rightarrow> (max_opt lo a, min_opt hi (b + 1))
      | None \<Rightarrow> (lo, hi)))"

text \<open>2999-12-31T23:59:59Z and the epoch, the sentinels of one-sided ranges.\<close>

definition far_future :: int where
  "far_future = 32503679999 * 1000000000"

definition range_of_bounds :: "bounds \<Rightarrow> time_range option" where
  "range_of_bounds lh =
     (case lh of
        (Some s, Some e) \<Rightarrow> (if s < e then Some \<lparr>start_inclusive = s, end_exclusive = e\<rparr> else None)
      | (Some s, None) \<Rightarrow> Some \<lparr>start_inclusive = s, end_exclusive = far_future\<rparr>
      | (None, Some e) \<Rightarrow> Some \<lparr>start_inclusive = 0, end_exclusive = e\<rparr>
      | (None, None) \<Rightarrow> None)"

definition indexable_cols :: "(string \<times> data_type) list \<Rightarrow> string set" where
  "indexable_cols sch = fst ` set (filter (\<lambda>f. snd f \<in> {Utf8, LargeUtf8, Int32, Int64}) sch)"

definition string_cols :: "(string \<times> data_type) list \<Rightarrow> string set" where
  "string_cols sch = fst ` set (filter (\<lambda>f. snd f \<in> {Utf8, LargeUtf8}) sch)"

fun is_float_vector :: "data_type \<Rightarrow> bool" where
  "is_float_vector (FixedSizeList inner _) = (inner = Float32)"
| "is_float_vector _ = False"

definition float_vector_cols :: "(string \<times> data_type) list \<Rightarrow> string set" where
  "float_vector_cols sch = fst ` set (filter (\<lambda>f. is_float_vector (snd f)) sch)"

text \<open>\<open>entry(col).or_insert(prune)\<close> on the map of column predicates.\<close>

definition or_insert :: "(string \<times> column_prune) list \<Rightarrow> string \<times> column_prune \<Rightarrow> (string \<times> column_prune) list" where
  "or_insert m kv = (if map_of m (fst kv) = None then m @ [kv] else m)"

definition add_column_filter ::
  "time_env \<Rightarrow> (string \<times> data_type) list \<Rightarrow> (string \<times> column_prune) list \<Rightarrow> expr \<Rightarrow> (string \<times> column_prune) list" where
  "add_column_filter env sch m f =
     (case extract_equality (indexable_cols sch) f of
        Some kv \<Rightarrow> or_insert m kv
      | None \<Rightarrow>
          (case extract_text_search (string_cols sch) f of
             Some kv \<Rightarrow> or_insert m kv
           | None \<Rightarrow>
               (case extract_vector_distance env (float_vector_cols sch) f of
                  Some kv \<Rightarrow> or_insert m kv
                | None \<Rightarrow> m)))"

definition build_prune_predicate :: "time_env \<Rightarrow> (string \<times> data_type) list \<Rightarrow> expr list \<Rightarrow> prune_predicate" where
  "build_prune_predicate env sch filters =
     (case ts_column sch of
        None \<Rightarrow> prune_default
      | Some ts_col \<Rightarrow>
          \<lparr>prune_time_range =
             range_of_bounds (foldl (\<lambda>lh f. add_bound lh (extract_time_bound env f ts_col)) (None, None) filters),
           required_paths = [],
           column_predicates = foldl (add_column_filter env sch) [] filters\<rparr>)"

definition json_to_block_scalar :: "json \<Rightarrow> scalar_value option" where
  "json_to_block_scalar v =
     (case v of
        JString s \<Rightarrow> Some (SString s)
      | JInt n \<Rightarrow> (if i64_min \<le> n \<and> n \<le> i64_max then Some (SInt64 n) else None)
      | JBool b \<Rightarrow> Some (SBool b)
      | JNull \<Rightarrow> Some SNull
      | _ \<Rightarrow> None)"

text \<open>\<open>timestamp_nanos_opt().unwrap_or(d)\<close>\<close>

definition nanos_or :: "int \<Rightarrow> int \<Rightarrow> int" where
  "nanos_or d t = (if i64_min \<le> t \<and> t \<le> i64_max then t else d)"

definition block_part :: "(string \<times> data_type) list \<Rightarrow> string \<times> column_prune \<Rightarrow> block_predicate list" where
  "block_part sch cp = (case cp of (col_name, pred) \<Rightarrow>
     (case position (\<lambda>f. fst f = col_name) sch of
        None \<Rightarrow> []
      | Some i \<Rightarrow>
          (case pred of
             PruneEquals v \<Rightarrow> (case json_to_block_scalar v of None \<Rightarrow> [] | Some sv \<Rightarrow> [Equals (as_u32 i) sv])
           | PruneInSet vals \<Rightarrow>
               (let values = List.map_filter json_to_block_scalar vals
                in if values = [] then [] else [InSet (as_u32 i) values])
           | _ \<Rightarrow> [])))"

definition build_block_predicate :: "(string \<times> data_type) list \<Rightarrow> prune_predicate \<Rightarrow> block_predicate" where
  "build_block_predicate sch prune =
     (let time_part =
            (case prune_time_range prune of
               None \<Rightarrow> []
             | Some tr \<Rightarrow>
                 (case position (\<lambda>f. snd f = Timestamp Nanosecond) sch of
                    None \<Rightarrow> []
                  | Some i \<Rightarrow> [TimeRange (as_u32 i) (nanos_or i64_min (start_inclusive tr))
                                 (nanos_or i64_max (end_exclusive tr))]));
          parts = time_part @ concat (map (block_part sch) (column_predicates prune))
      in (case parts of [] \<Rightarrow> PAll | [p] \<Rightarrow> p | _ \<Rightarrow> PAnd parts))"

section \<open>What a filter means on a row\<close>

text \<open>
  Truth of a filter on row \<open>i\<close> of a batch. \<open>opq\<close> decides the expressions the pushdown does not look
  into; a comparison with a null cell, or with a column the batch lacks, is not true.
\<close>

fun ord_op :: "operator \<Rightarrow> int \<Rightarrow> int \<Rightarrow> bool" where
  "ord_op OpEq a t = (a = t)"
| "ord_op OpLt a t = (a < t)"
| "ord_op OpLtEq a t = (a \<le> t)"
| "ord_op OpGt a t = (a > t)"
| "ord_op OpGtEq a t = (a \<ge> t)"
| "ord_op _ a t = False"

definition is_ts_array :: "arrow_array \<Rightarrow> bool" where
  "is_ts_array a \<longleftrightarrow> (case a of TimestampNanosecondArray _ \<Rightarrow> True | _ \<Rightarrow> False)"

definition cmp_column ::
  "time_env \<Rightarrow> (expr \<Rightarrow> bool) \<Rightarrow> record_batch \<Rightarrow> nat \<Rightarrow> expr \<Rightarrow> string \<Rightarrow> operator \<Rightarrow> expr \<Rightarrow> bool" where
  "cmp_column env opq b i whole c op e =
     (case column_of b c of
        None \<Rightarrow> False
      | Some a \<Rightarrow>
          (if is_ts_array a then
             (case ts_from_expr env e of
                None \<Rightarrow> opq whole
              | Some t \<Rightarrow> (case cell_of b i c of Some (CTs v) \<Rightarrow> ord_op op v t | _ \<Rightarrow> False))
           else (case literal_json e of
                   None \<Rightarrow> opq whole
                 | Some j \<Rightarrow> (if op = OpEq then Option.bind (cell_of b i c) cell_json = Some j else opq whole))))"

fun holds :: "time_env \<Rightarrow> (expr \<Rightarrow> bool) \<Rightarrow> record_batch \<Rightarrow> nat \<Rightarrow> expr \<Rightarrow> bool" where
  "holds env opq b i (BinaryExpr l op r) =
     (if op = OpOr then holds env opq b i l \<or> holds env opq b i r
      else if op = OpAnd then holds env opq b i l \<and> holds env opq b i r
      else (case (l, r) of
              (Column c, _) \<Rightarrow> cmp_column env opq b i (BinaryExpr l op r) c op r
            | (_, Column c) \<Rightarrow> cmp_column env opq b i (BinaryExpr l op r) c (flip_op op) l
            | _ \<Rightarrow> opq (BinaryExpr l op r)))"
| "holds env opq b i (Between x negated low high) =
     (case (x, ts_from_expr env low, ts_from_expr env high) of
        (Column c, Some lo, Some hi) \<Rightarrow>
          (if \<not> negated \<and> (case column_of b c of None \<Rightarrow> True | Some a \<Rightarrow> is_ts_array a)
           then (case cell_of b i c of Some (CTs v) \<Rightarrow> lo \<le> v \<and> v \<le> hi | _ \<Rightarrow> False)
           else opq (Between x negated low high))
      | _ \<Rightarrow> opq (Between x negated low high))"
| "holds env opq b i (InList x items negated) =
     (case (x, traverse literal_json items) of
        (Column c, Some vs) \<Rightarrow>
          (if \<not> negated \<and> (case column_of b c of None \<Rightarrow> True | Some a \<Rightarrow> \<not> is_ts_array a)
           then (case Option.bind (cell_of b i c) cell_json of None \<Rightarrow> False | Some j \<Rightarrow> j \<in> set vs)
           else opq (InList x items negated))
      | _ \<Rightarrow> opq (InList x items negated))"
| "holds env opq b i e = opq e"

section \<open>The prune predicate follows from the filters\<close>

lemma schema_column:
  assumes "batch_valid b" "j < length (schema b)"
  shows "column_of b (fst (schema b ! j)) = Some (columns b ! j)" "array_has_type (columns b ! j) (snd (schema b ! j))"
proof -
  have len: "length (columns b) = length (schema b)"
    and ty: "array_has_type (columns b ! j) (snd (schema b ! j))"
    using assms by (auto simp: batch_valid_def batch_ok_def list_all2_conv_all_nth)
  show "array_has_type (columns b ! j) (snd (schema b ! j))" by (rule ty)
  have "((fst (schema b ! j), snd (schema b ! j)), columns b ! j) \<in> set (zip (schema b) (columns b))"
    using len assms(2) by (auto simp: set_zip)
  from column_of_unique [OF assms(1) this] show "column_of b (fst (schema b ! j)) = Some (columns b ! j)" .
qed

lemma ts_column_array:
  assumes "batch_valid b" "ts_column (schema b) = Some tc"
  shows "\<exists>a. column_of b tc = Some a \<and> is_ts_array a"
proof -
  from assms(2) obtain p where p: "position (\<lambda>f. snd f = Timestamp Nanosecond) (schema b) = Some p"
    "tc = fst (schema b ! p)" by (auto simp: ts_column_def)
  note q = position_Some [OF p(1)]
  with schema_column [OF assms(1), of p] p(2) show ?thesis
    by (cases "columns b ! p") (auto simp: is_ts_array_def)
qed

lemma indexable_array:
  assumes "batch_valid b" "c \<in> indexable_cols (schema b)"
  shows "\<exists>a. column_of b c = Some a \<and> \<not> is_ts_array a"
proof -
  from assms(2) obtain j where j: "j < length (schema b)" "fst (schema b ! j) = c"
    "snd (schema b ! j) \<in> {Utf8, LargeUtf8, Int32, Int64}"
    by (auto simp: indexable_cols_def in_set_conv_nth)
  with schema_column [OF assms(1) j(1)] show ?thesis
    by (cases "columns b ! j") (auto simp: is_ts_array_def)
qed

fun bound_sat :: "time_bound \<Rightarrow> int \<Rightarrow> bool" where
  "bound_sat (GtOrGe x inclusive) t = (x \<le> t)"
| "bound_sat (LtOrLe x inclusive) t = (if inclusive then t \<le> x else t < x)"
| "bound_sat (TBetween a b) t = (a \<le> t \<and> t \<le> b)"

lemma bound_of_op_sat: "bound_of_op op x = Some tb \<Longrightarrow> ord_op op v x \<Longrightarrow> bound_sat tb v"
  by (cases op) (auto simp: bound_of_op_def)

lemma bound_of_op_ord: "bound_of_op op x = Some tb \<Longrightarrow> op \<noteq> OpOr \<and> op \<noteq> OpAnd"
  by (cases op) (auto simp: bound_of_op_def)

lemma flip_op_logic: "flip_op op = OpOr \<longleftrightarrow> op = OpOr" "flip_op op = OpAnd \<longleftrightarrow> op = OpAnd"
  by (cases op; simp)+

lemma time_bound_sound:
  assumes b: "batch_valid b" and tc: "ts_column (schema b) = Some tc"
    and ex: "extract_time_bound env f tc = Some tb" and h: "holds env opq b i f"
  shows "\<exists>t. row_ts b i = Some t \<and> bound_sat tb t"
proof -
  from ts_column_array [OF b tc] obtain a where a: "column_of b tc = Some a" "is_ts_array a" by blast
  have rt: "row_ts b i = Some v" if "cell_of b i tc = Some (CTs v)" for v
    using that tc by (simp add: row_ts_def)
  show ?thesis
  proof (cases f)
    case (BinaryExpr l op r)
    show ?thesis
    proof (cases "l = Column tc")
      case True
      with ex BinaryExpr obtain x where x: "ts_from_expr env r = Some x" "bound_of_op op x = Some tb"
        by (auto simp: extract_time_bound_def bind_eq_Some_conv)
      from h BinaryExpr True a x bound_of_op_ord [OF x(2)] obtain v where
        "cell_of b i tc = Some (CTs v)" "ord_op op v x"
        by (auto simp: cmp_column_def split: option.splits cell.splits)
      with rt bound_of_op_sat [OF x(2)] show ?thesis by blast
    next
      case False
      with ex BinaryExpr obtain x where x: "r = Column tc" "ts_from_expr env l = Some x" "bound_of_op (flip_op op) x = Some tb"
        by (auto simp: extract_time_bound_def bind_eq_Some_conv split: if_splits)
      from x(2) have nc: "l \<noteq> Column c" for c by (auto simp: ts_from_expr_def)
      have "op \<noteq> OpOr \<and> op \<noteq> OpAnd" using bound_of_op_ord [OF x(3)] by (simp add: flip_op_logic)
      with h BinaryExpr x a nc obtain v where
        "cell_of b i tc = Some (CTs v)" "ord_op (flip_op op) v x"
        by (cases l) (auto simp: cmp_column_def split: option.splits cell.splits)
      with rt bound_of_op_sat [OF x(3)] show ?thesis by blast
    qed
  next
    case (Between x negated low high)
    with ex obtain lo hi where e: "x = Column tc" "\<not> negated" "ts_from_expr env low = Some lo"
      "ts_from_expr env high = Some hi" "tb = TBetween lo hi"
      by (auto simp: extract_time_bound_def split: if_splits option.splits)
    with h Between a obtain v where "cell_of b i tc = Some (CTs v)" "lo \<le> v" "v \<le> hi"
      by (auto split: option.splits cell.splits)
    with rt e show ?thesis by auto
  qed (use ex in \<open>auto simp: extract_time_bound_def\<close>)
qed

definition bounds_sat :: "bounds \<Rightarrow> int \<Rightarrow> bool" where
  "bounds_sat lh t \<longleftrightarrow> (case lh of (lo, hi) \<Rightarrow>
     (case lo of None \<Rightarrow> True | Some s \<Rightarrow> s \<le> t) \<and> (case hi of None \<Rightarrow> True | Some e \<Rightarrow> t < e))"

lemma add_bound_sat: "bounds_sat lh t \<Longrightarrow> bound_sat tb t \<Longrightarrow> bounds_sat (add_bound lh (Some tb)) t"
  by (cases tb; cases lh) (auto simp: bounds_sat_def add_bound_def max_opt_def min_opt_def split: option.splits)

lemma fold_bounds:
  assumes b: "batch_valid b" "ts_column (schema b) = Some tc" and h: "\<And>f. f \<in> set fs \<Longrightarrow> holds env opq b i f"
  shows "lh = foldl (\<lambda>lh f. add_bound lh (extract_time_bound env f tc)) (None, None) fs \<Longrightarrow>
    lh = (None, None) \<or> (\<exists>t. row_ts b i = Some t \<and> bounds_sat lh t)"
  using h
proof (induction fs arbitrary: lh rule: rev_induct)
  case (snoc f fs)
  let ?l = "foldl (\<lambda>lh f. add_bound lh (extract_time_bound env f tc)) (None, None) fs"
  have IH: "?l = (None, None) \<or> (\<exists>t. row_ts b i = Some t \<and> bounds_sat ?l t)"
    by (rule snoc.IH) (use snoc.prems in auto)
  have lh: "lh = add_bound ?l (extract_time_bound env f tc)" using snoc.prems by simp
  show ?case
  proof (cases "extract_time_bound env f tc")
    case None
    with lh have "lh = ?l" by (cases ?l) (simp add: add_bound_def)
    with IH show ?thesis by simp
  next
    case (Some tb)
    from time_bound_sound [OF b Some] snoc.prems(2) [of f] obtain t where
      t: "row_ts b i = Some t" "bound_sat tb t" by auto
    moreover have "bounds_sat ?l t" using IH t(1) by (auto simp: bounds_sat_def)
    ultimately show ?thesis using add_bound_sat lh Some by auto
  qed
qed simp

lemma range_of_bounds_sat:
  "range_of_bounds lh = Some tr \<Longrightarrow> bounds_sat lh t \<Longrightarrow> fst lh = None \<longrightarrow> 0 \<le> t \<Longrightarrow> t < far_future \<Longrightarrow> in_time_range tr t"
  by (cases lh) (auto simp: range_of_bounds_def bounds_sat_def in_time_range_def split: option.splits if_splits)

section \<open>Column predicates\<close>

lemma cmp_column_eq:
  assumes b: "batch_valid b" "c \<in> indexable_cols (schema b)" and j: "literal_json e = Some j"
    and h: "cmp_column env opq b i w c OpEq e"
  shows "Option.bind (cell_of b i c) cell_json = Some j"
  using indexable_array [OF b] j h by (auto simp: cmp_column_def)

lemma eq_holds:
  assumes b: "batch_valid b" and e: "eq_operands (indexable_cols (schema b)) l r = Some (c, lit)"
    and j: "scalar_to_json lit = Some j" and h: "holds env opq b i (BinaryExpr l OpEq r)"
  shows "Option.bind (cell_of b i c) cell_json = Some j"
proof -
  from e have c: "c \<in> indexable_cols (schema b)" and lr: "l = Column c \<and> r = Literal lit \<or> l = Literal lit \<and> r = Column c"
    by (auto simp: eq_operands_def split: expr.splits if_splits)
  have "literal_json (Literal lit) = Some j" using j by (simp add: literal_json_def)
  with cmp_column_eq [OF b c this] lr h show ?thesis by auto
qed

lemma walk_mono:
  "walk ix e (cn, vs) = Some (cn', vs') \<Longrightarrow> set vs \<subseteq> set vs' \<and> (\<forall>n. cn = Some n \<longrightarrow> cn' = Some n) \<and> cn' \<noteq> None"
proof (induction ix e "(cn, vs)" arbitrary: cn vs cn' vs' rule: walk.induct)
  case (1 ix l op r)
  show ?case
  proof (cases "op = OpOr")
    case True
    with 1(3) obtain c1 v1 where w: "walk ix l (cn, vs) = Some (c1, v1)" "walk ix r (c1, v1) = Some (cn', vs')"
      by (auto simp: bind_eq_Some_conv)
    from 1(1) [OF True w(1)] 1(2) [OF True w(1) w(2)] show ?thesis by auto
  next
    case False
    with 1(3) show ?thesis by (auto split: if_splits option.splits)
  qed
qed auto

definition cell_in :: "record_batch \<Rightarrow> nat \<Rightarrow> string \<Rightarrow> json list \<Rightarrow> bool" where
  "cell_in b i n vs \<longleftrightarrow> (\<exists>j. Option.bind (cell_of b i n) cell_json = Some j \<and> j \<in> set vs)"

lemma walk_holds:
  assumes b: "batch_valid b"
  shows "walk (indexable_cols (schema b)) e (cn, vs) = Some (cn', vs') \<Longrightarrow> holds env opq b i e \<Longrightarrow>
    \<exists>n. cn' = Some n \<and> cell_in b i n vs'"
proof (induction e arbitrary: cn vs cn' vs')
  case (BinaryExpr l op r)
  let ?ix = "indexable_cols (schema b)"
  show ?case
  proof (cases "op = OpOr")
    case True
    with BinaryExpr.prems(1) obtain c1 v1 where
      w: "walk ?ix l (cn, vs) = Some (c1, v1)" "walk ?ix r (c1, v1) = Some (cn', vs')"
      by (auto simp: bind_eq_Some_conv)
    from BinaryExpr.prems(2) True consider "holds env opq b i l" | "holds env opq b i r" by auto
    then show ?thesis
    proof cases
      case 1
      with BinaryExpr.IH(1) [OF w(1)] obtain n where "c1 = Some n" "cell_in b i n v1" by blast
      with walk_mono [OF w(2)] show ?thesis by (auto simp: cell_in_def)
    next
      case 2
      with BinaryExpr.IH(2) [OF w(2)] show ?thesis by blast
    qed
  next
    case False
    with BinaryExpr.prems(1) obtain n lit j where
      w: "op = OpEq" "eq_operands ?ix l r = Some (n, lit)" "scalar_to_json lit = Some j"
         "cn' = Some n" "vs' = vs @ [j]"
      by (auto split: if_splits option.splits)
    with eq_holds [OF b w(2,3)] BinaryExpr.prems(2) show ?thesis by (auto simp: cell_in_def)
  qed
qed auto

lemma extract_equality_sound:
  assumes b: "batch_valid b" and ex: "extract_equality (indexable_cols (schema b)) f = Some (c, pred)"
    and h: "holds env opq b i f"
  shows "col_sat fo b i c pred"
proof (cases f)
  case (BinaryExpr l op r)
  let ?ix = "indexable_cols (schema b)"
  show ?thesis
  proof (cases "op = OpEq")
    case True
    with ex BinaryExpr obtain lit j where
      "eq_operands ?ix l r = Some (c, lit)" "scalar_to_json lit = Some j" "pred = PruneEquals j"
      by (auto simp: extract_equality_def split: option.splits)
    with eq_holds [OF b this(1,2)] h BinaryExpr True show ?thesis by simp
  next
    case False
    with ex BinaryExpr obtain vs where w: "op = OpOr"
      "Option.bind (walk ?ix l (None, [])) (walk ?ix r) = Some (Some c, vs)" "pred = PruneInSet vs"
      by (auto simp: extract_equality_def split: option.splits if_splits)
    then have "walk ?ix f (None, []) = Some (Some c, vs)" by (simp add: BinaryExpr)
    from walk_holds [OF b this h] have "cell_in b i c vs" by simp
    with w(3) show ?thesis by (auto simp: cell_in_def split: option.splits)
  qed
next
  case (InList x items negated)
  with ex obtain vs where e: "x = Column c" "\<not> negated" "c \<in> indexable_cols (schema b)"
    "traverse literal_json items = Some vs" "pred = PruneInSet vs"
    by (auto simp: extract_equality_def split: if_splits expr.splits)
  with h InList indexable_array [OF b e(3)] show ?thesis by (auto split: option.splits)
qed (use ex in \<open>auto simp: extract_equality_def\<close>)

text \<open>The filters whose pruning is exact reasoning: neither a text search nor a vector distance.\<close>

definition plain_filter :: "time_env \<Rightarrow> (string \<times> data_type) list \<Rightarrow> expr \<Rightarrow> bool" where
  "plain_filter env sch f \<longleftrightarrow> extract_text_search (string_cols sch) f = None \<and>
     extract_vector_distance env (float_vector_cols sch) f = None"

lemma column_filters_sat:
  assumes b: "batch_valid b" and h: "\<And>f. f \<in> set fs \<Longrightarrow> holds env opq b i f \<and> plain_filter env (schema b) f"
  shows "list_all (\<lambda>(col, pred). col_sat fo b i col pred) (foldl (add_column_filter env (schema b)) [] fs)"
  using h
proof (induction fs rule: rev_induct)
  case (snoc f fs)
  let ?m = "foldl (add_column_filter env (schema b)) [] fs"
  have IH: "list_all (\<lambda>(col, pred). col_sat fo b i col pred) ?m"
    by (rule snoc.IH) (use snoc.prems in auto)
  have f: "holds env opq b i f" "plain_filter env (schema b) f" using snoc.prems [of f] by auto
  then have "add_column_filter env (schema b) ?m f =
      (case extract_equality (indexable_cols (schema b)) f of Some kv \<Rightarrow> or_insert ?m kv | None \<Rightarrow> ?m)"
    by (auto simp: add_column_filter_def plain_filter_def split: option.splits)
  with IH extract_equality_sound [OF b _ f(1)] show ?case
    by (auto simp: or_insert_def split: option.splits)
qed simp

lemma build_prune_sat:
  assumes b: "batch_valid b" "schema b = sch"
    and h: "\<And>f. f \<in> set fs \<Longrightarrow> holds env opq b i f \<and> plain_filter env sch f"
    and t: "\<And>t. row_ts b i = Some t \<Longrightarrow> 0 \<le> t \<and> t \<le> i64_max"
  shows "prune_sat fo (build_prune_predicate env sch fs) b i"
proof (cases "ts_column sch")
  case None
  then show ?thesis by (simp add: build_prune_predicate_def prune_default_def prune_sat_def)
next
  case (Some tc)
  let ?lh = "foldl (\<lambda>lh f. add_bound lh (extract_time_bound env f tc)) (None, None) fs"
  have fb: "?lh = (None, None) \<or> (\<exists>t. row_ts b i = Some t \<and> bounds_sat ?lh t)"
    by (rule fold_bounds [OF b(1) _ _ refl]) (use Some b h in auto)
  have "\<exists>t. row_ts b i = Some t \<and> in_time_range tr t" if tr: "range_of_bounds ?lh = Some tr" for tr
  proof -
    from tr have "?lh \<noteq> (None, None)" by (auto simp: range_of_bounds_def)
    with fb obtain t where rt: "row_ts b i = Some t" "bounds_sat ?lh t" by blast
    with t [OF rt(1)] range_of_bounds_sat [OF tr rt(2)] show ?thesis
      by (auto simp: far_future_def i64_max_def)
  qed
  then have "case range_of_bounds ?lh of None \<Rightarrow> True
      | Some tr \<Rightarrow> (case row_ts b i of None \<Rightarrow> False | Some t \<Rightarrow> in_time_range tr t)"
    by (auto split: option.splits)
  with Some column_filters_sat [OF b(1), of fs env opq i fo] b(2) h show ?thesis
    by (simp add: build_prune_predicate_def prune_sat_def)
qed

section \<open>The block predicate follows from the prune predicate\<close>

lemma json_block_scalar:
  assumes "json_to_block_scalar v = Some sv" "cell_json c = Some v"
  shows "cell_eq mism c sv"
  using assms by (cases c) (auto simp: json_to_block_scalar_def split: if_splits)

lemma cell_int_range:
  assumes b: "batch_valid b" and c: "cell_of b i n = Some c" "cell_json c = Some v"
  shows "json_to_block_scalar v \<noteq> None"
proof (cases c)
  case (CInt x)
  from b cell_of_index [of b i n c] c(1) obtain j where
    j: "j < length (columns b)" "cell_at (columns b ! j) i = Some c" by (auto simp: batch_valid_def)
  have "array_range (columns b ! j)" using b j(1) by (auto simp: batch_valid_def list_all_iff)
  with j(2) CInt have "i64_min \<le> x \<and> x \<le> i64_max"
    by (cases "columns b ! j")
      (force simp: in_these_eq i64_min_def i64_max_def split: option.splits dest: nth_mem)+
  with CInt c(2) show ?thesis by (auto simp: json_to_block_scalar_def)
qed (use c(2) in \<open>auto simp: json_to_block_scalar_def\<close>)

lemma block_part_sat:
  assumes b: "batch_valid b" "schema b = sch" "length sch < u32_size" and c: "col_sat fo b i col pred"
    and p: "p \<in> set (block_part sch (col, pred))"
  shows "row_sat sm b (map fst sch) i p"
proof -
  from p obtain j where j: "position (\<lambda>f. fst f = col) sch = Some j"
    by (cases "position (\<lambda>f. fst f = col) sch") (simp_all add: block_part_def)
  note jl = position_Some [OF j]
  then have nm: "idx (map fst sch) (as_u32 j) = Some col" using b(3) by simp
  show ?thesis
  proof (cases pred)
    case (PruneEquals v)
    with p j obtain sv where sv: "json_to_block_scalar v = Some sv" "p = Equals (as_u32 j) sv"
      by (cases "json_to_block_scalar v") (simp_all add: block_part_def)
    from c PruneEquals obtain cl where "cell_of b i col = Some cl" "cell_json cl = Some v"
      by (auto simp: bind_eq_Some_conv)
    with sv nm json_block_scalar [OF sv(1)] show ?thesis by (simp del: idx_Some_iff)
  next
    case (PruneInSet vs)
    with p j have pe: "p = InSet (as_u32 j) (List.map_filter json_to_block_scalar vs)"
      by (simp add: block_part_def Let_def split: if_splits)
    from c PruneInSet obtain cl v where cl: "cell_of b i col = Some cl" "cell_json cl = Some v" "v \<in> set vs"
      by (auto simp: bind_eq_Some_conv split: option.splits)
    from cell_int_range [OF b(1) cl(1,2)] obtain sv where sv: "json_to_block_scalar v = Some sv" by auto
    with cl(3) have "sv \<in> set (List.map_filter json_to_block_scalar vs)" by (force simp: map_filter_def)
    with pe nm cl(1) json_block_scalar [OF sv cl(2)] show ?thesis
      by (auto simp: list_ex_iff simp del: idx_Some_iff)
  qed (use p j in \<open>simp_all add: block_part_def\<close>)
qed

lemma block_predicate_sat:
  assumes b: "batch_valid b" "schema b = sch" "length sch < u32_size" and p: "prune_sat fo prune b i"
    and t: "\<And>t. row_ts b i = Some t \<Longrightarrow> i64_min \<le> t \<and> t < i64_max"
  shows "row_sat sm b (map fst sch) i (build_block_predicate sch prune)"
proof -
  let ?time = "case prune_time_range prune of None \<Rightarrow> []
     | Some tr \<Rightarrow> (case position (\<lambda>f. snd f = Timestamp Nanosecond) sch of None \<Rightarrow> []
        | Some i \<Rightarrow> [TimeRange (as_u32 i) (nanos_or i64_min (start_inclusive tr)) (nanos_or i64_max (end_exclusive tr))])"
  have time: "row_sat sm b (map fst sch) i q" if q: "q \<in> set ?time" for q
  proof -
    from q obtain tr j where tr: "prune_time_range prune = Some tr" "position (\<lambda>f. snd f = Timestamp Nanosecond) sch = Some j"
      "q = TimeRange (as_u32 j) (nanos_or i64_min (start_inclusive tr)) (nanos_or i64_max (end_exclusive tr))"
      by (cases "prune_time_range prune"; cases "position (\<lambda>f. snd f = Timestamp Nanosecond) sch") simp_all
    from p tr(1) obtain v where v: "row_ts b i = Some v" "in_time_range tr v"
      by (auto simp: prune_sat_def split: option.splits)
    have "j < length sch" using position_Some [OF tr(2)] by simp
    then have "idx (map fst sch) (as_u32 j) = Some (fst (sch ! j))" using b(3) by simp
    moreover have "cell_of b i (fst (sch ! j)) = Some (CTs v)"
      using v(1) tr(2) b(2) by (auto simp: row_ts_def ts_column_def split: option.splits cell.splits)
    moreover have "nanos_or i64_min (start_inclusive tr) \<le> v" "v < nanos_or i64_max (end_exclusive tr)"
      using v(2) t [OF v(1)] by (auto simp: nanos_or_def in_time_range_def)
    ultimately show ?thesis by (simp add: tr(3) del: idx_Some_iff)
  qed
  have col: "row_sat sm b (map fst sch) i q" if "q \<in> set (concat (map (block_part sch) (column_predicates prune)))" for q
  proof -
    from that obtain c pr where cp: "(c, pr) \<in> set (column_predicates prune)" "q \<in> set (block_part sch (c, pr))" by auto
    with p have "col_sat fo b i c pr" by (auto simp: prune_sat_def list_all_iff)
    from block_part_sat [OF b this cp(2)] show ?thesis .
  qed
  let ?parts = "?time @ concat (map (block_part sch) (column_predicates prune))"
  have all: "row_sat sm b (map fst sch) i q" if "q \<in> set ?parts" for q
    using that time col unfolding set_append by blast
  have "build_block_predicate sch prune = (case ?parts of [] \<Rightarrow> PAll | [p] \<Rightarrow> p | _ \<Rightarrow> PAnd ?parts)"
    by (simp add: build_block_predicate_def Let_def)
  with all show ?thesis by (cases ?parts rule: remdups_adj.cases) (auto simp: list_all_iff)
qed

end
