(* ===== verification/Tlm_Extent.thy ===== *)
theory Tlm_Extent
  imports Exec_Prune Bytes
begin

text \<open>
  The extent writer and reader of \<open>pensieve-format-tlm\<close>: appending batches, the version 2 frame
  \<open>MAGIC_V2 || ipc || stats || stats_len || MAGIC_V2\<close>, and opening version 1 and version 2 extents.
  Arrow IPC, \<open>serde_json\<close> and the object store are parameters.
\<close>

section \<open>Data\<close>

definition MAGIC :: "u8 list" where
  "MAGIC = as_bytes ''PNSV'' @ [1]"

definition MAGIC_V2 :: "u8 list" where
  "MAGIC_V2 = as_bytes ''PNSV'' @ [2]"

datatype format_error =
    InvalidMagic
  | FmtCorrupt string string
  | TypeMismatch "(string \<times> data_type) list" "(string \<times> data_type) list"
  | ObjectStoreError string

record 'st libs =
  ipc_write :: "record_batch list \<Rightarrow> record_batch \<Rightarrow> string option"
  ipc_finish :: "(string \<times> data_type) list \<Rightarrow> record_batch list \<Rightarrow> string + u8 list"
  ipc_read :: "u8 list \<Rightarrow> string + record_batch list"
  stats_to_json :: "block_stats list \<Rightarrow> string + u8 list"
  stats_of_json :: "u8 list \<Rightarrow> string + block_stats list"
  vector_stat_of :: "record_batch list \<Rightarrow> nat \<Rightarrow> json option"
  store_put :: "'st \<Rightarrow> string \<Rightarrow> u8 list \<Rightarrow> string + 'st"
  store_get :: "'st \<Rightarrow> string \<Rightarrow> string + u8 list"

record tlm_format =
  path_prefix :: string
  tenant_segment :: string

record extent_writer =
  w_format :: tlm_format
  w_extent_id :: string
  w_schema :: "(string \<times> data_type) list"
  w_ipc :: "record_batch list"
  w_row_count :: nat
  w_block_count :: nat
  w_stats :: column_stats_acc
  w_block_stats :: "block_stats list"

record extent_write_result =
  res_extent_id :: string
  res_object_path :: string
  res_byte_size :: nat
  res_row_count :: nat
  res_block_count :: nat
  res_min_timestamp_nanos :: "int option"
  res_max_timestamp_nanos :: "int option"
  res_present_paths :: "string list"
  res_column_stats :: json

section \<open>Writing\<close>

definition writer_new :: "tlm_format \<Rightarrow> string \<Rightarrow> (string \<times> data_type) list \<Rightarrow> extent_writer" where
  "writer_new fmt extent_id sch =
     \<lparr>w_format = fmt, w_extent_id = extent_id, w_schema = sch, w_ipc = [], w_row_count = 0,
      w_block_count = 0, w_stats = acc_new sch, w_block_stats = []\<rparr>"

text \<open>
  \<open>append\<close>: the outer \<open>None\<close> is a panic of the statistics; an error of the IPC writer is reported after
  the counters and statistics have been updated.
\<close>

definition writer_append ::
  "'st libs \<Rightarrow> extent_writer \<Rightarrow> record_batch \<Rightarrow> (extent_writer \<times> (format_error + unit)) option" where
  "writer_append lb w b =
     (if schema b \<noteq> w_schema w then Some (w, Inl (TypeMismatch (w_schema w) (schema b)))
      else case acc_update (w_stats w) b of
        None \<Rightarrow> None
      | Some st \<Rightarrow>
     (case stats_for_batch b of
        None \<Rightarrow> None
      | Some bs \<Rightarrow>
          let w' = w\<lparr>w_row_count := w_row_count w + num_rows b, w_block_count := as_u32 (w_block_count w + 1),
                     w_stats := st, w_block_stats := w_block_stats w @ [bs]\<rparr>
          in (case ipc_write lb (w_ipc w) b of
                Some e \<Rightarrow> Some (w', Inl (FmtCorrupt ''<in-memory ipc>'' (''FileWriter::write: '' @ e)))
              | None \<Rightarrow> Some (w'\<lparr>w_ipc := w_ipc w @ [b]\<rparr>, Inr ()))))"

definition format_extent_path :: "string \<Rightarrow> string \<Rightarrow> string \<Rightarrow> string" where
  "format_extent_path prefix tenant extent_id =
     (let core = (if tenant = [] then ''extents/'' @ extent_id @ ''.pnsv''
                  else tenant @ ''/extents/'' @ extent_id @ ''.pnsv'')
      in if prefix = [] then core else prefix @ ''/'' @ core)"

definition frame_v2 :: "u8 list \<Rightarrow> u8 list \<Rightarrow> u8 list" where
  "frame_v2 ipc_bytes stats_json =
     MAGIC_V2 @ ipc_bytes @ stats_json @ le_bytes 4 (as_u32 (length stats_json)) @ MAGIC_V2"

definition writer_finish ::
  "'st libs \<Rightarrow> 'st \<Rightarrow> extent_writer \<Rightarrow> (format_error + 'st \<times> extent_write_result) option" where
  "writer_finish lb store w =
     (case acc_finish (vector_stat_of lb (w_ipc w)) (w_stats w) of
        None \<Rightarrow> None
      | Some stats \<Rightarrow>
     (case ipc_finish lb (w_schema w) (w_ipc w) of
        Inl e \<Rightarrow> Some (Inl (FmtCorrupt ''<in-memory ipc>'' e))
      | Inr ipc_bytes \<Rightarrow>
     (case stats_to_json lb (w_block_stats w) of
        Inl e \<Rightarrow> Some (Inl (FmtCorrupt ''<in-memory ipc>'' (''block-stats serialize: '' @ e)))
      | Inr stats_json \<Rightarrow>
          let payload = frame_v2 ipc_bytes stats_json;
              path = format_extent_path (path_prefix (w_format w)) (tenant_segment (w_format w)) (w_extent_id w)
          in (case store_put lb store path payload of
                Inl e \<Rightarrow> Some (Inl (ObjectStoreError e))
              | Inr store' \<Rightarrow>
                  Some (Inr (store',
                    \<lparr>res_extent_id = w_extent_id w, res_object_path = path, res_byte_size = length payload,
                     res_row_count = w_row_count w, res_block_count = w_block_count w,
                     res_min_timestamp_nanos = min_ts_nanos (w_stats w),
                     res_max_timestamp_nanos = max_ts_nanos (w_stats w),
                     res_present_paths = [], res_column_stats = stats\<rparr>))))))"

section \<open>Reading\<close>

record extent_reader =
  r_row_count :: nat
  r_block_count :: nat
  r_byte_size :: nat
  r_schema :: "(string \<times> data_type) list"
  r_format_version :: nat
  r_batches :: "record_batch list"
  r_object_path :: string
  r_block_stats :: "block_stats list option"

record open_extent_input =
  in_schema :: "(string \<times> data_type) list"
  in_object_path :: string
  in_byte_size :: nat

text \<open>
  The part of \<open>open\<close> that takes the frame apart: the IPC body, the statistics, the version. \<open>None\<close> is the
  panic of \<open>Bytes::slice\<close> on a range whose end lies before its start.
\<close>

definition open_frame ::
  "'st libs \<Rightarrow> string \<Rightarrow> u8 list \<Rightarrow> (format_error + (u8 list \<times> block_stats list option \<times> nat)) option" where
  "open_frame lb path bytes =
     (if length bytes < length MAGIC then Some (Inl InvalidMagic)
      else let head = take (length MAGIC) bytes in
      if head = MAGIC_V2 then
        (if length bytes < length MAGIC_V2 + 4 + length MAGIC_V2
         then Some (Inl (FmtCorrupt path ''v2 extent too short for footer''))
         else let end = length bytes; tail_magic = drop (end - length MAGIC_V2) bytes in
         if tail_magic \<noteq> MAGIC_V2 then Some (Inl (FmtCorrupt path ''v2 trailing magic mismatch''))
         else let stats_len_off = end - length MAGIC_V2 - 4;
                  stats_len = of_le (take 4 (drop stats_len_off bytes)) in
         if stats_len_off < stats_len then Some (Inl (FmtCorrupt path ''stats_len underflow''))
         else let stats_off = stats_len_off - stats_len in
         (case stats_of_json lb (take stats_len (drop stats_off bytes)) of
            Inl e \<Rightarrow> Some (Inl (FmtCorrupt path (''block-stats decode: '' @ e)))
          | Inr stats \<Rightarrow>
              (if stats_off < length MAGIC_V2 then None
               else Some (Inr (take (stats_off - length MAGIC_V2) (drop (length MAGIC_V2) bytes), Some stats, 2)))))
      else if head = MAGIC then Some (Inr (drop (length MAGIC) bytes, None, 1))
      else Some (Inl InvalidMagic))"

definition reader_open :: "'st libs \<Rightarrow> 'st \<Rightarrow> open_extent_input \<Rightarrow> (format_error + extent_reader) option" where
  "reader_open lb store inp =
     (case store_get lb store (in_object_path inp) of
        Inl e \<Rightarrow> Some (Inl (ObjectStoreError e))
      | Inr bytes \<Rightarrow>
          map_option (\<lambda>r. bindE r (\<lambda>(ipc_body, stats, format_version).
            (case ipc_read lb ipc_body of
               Inl e \<Rightarrow> Inl (FmtCorrupt (in_object_path inp) e)
             | Inr batches \<Rightarrow>
                 Inr \<lparr>r_row_count = sum_list (map num_rows batches), r_block_count = as_u32 (length batches),
                      r_byte_size = in_byte_size inp, r_schema = in_schema inp, r_format_version = format_version,
                      r_batches = batches, r_object_path = in_object_path inp, r_block_stats = stats\<rparr>)))
          (open_frame lb (in_object_path inp) bytes))"

definition reader_pruned_blocks :: "extent_reader \<Rightarrow> block_predicate \<Rightarrow> nat list" where
  "reader_pruned_blocks r predicate =
     pruned_blocks (r_block_count r) (r_block_stats r) (map fst (r_schema r)) predicate"

definition project_batch :: "record_batch \<Rightarrow> nat list \<Rightarrow> record_batch option" where
  "project_batch b is =
     Option.bind (traverse (idx (schema b)) is) (\<lambda>fs.
     Option.bind (traverse (idx (columns b)) is) (\<lambda>cs.
       Some \<lparr>schema = fs, columns = cs, num_rows = num_rows b\<rparr>))"

definition read_block :: "extent_reader \<Rightarrow> nat \<Rightarrow> nat list \<Rightarrow> format_error + record_batch" where
  "read_block r block projection =
     (case idx (r_batches r) block of
        None \<Rightarrow> Inl (FmtCorrupt (r_object_path r) ''block id out of range'')
      | Some b \<Rightarrow>
          (if projection = [] then Inr b
           else (case project_batch b projection of
                   None \<Rightarrow> Inl (FmtCorrupt (r_object_path r) ''projection failed'')
                 | Some p \<Rightarrow> Inr p)))"

section \<open>The frame is read back\<close>

lemma length_MAGIC [simp]: "length MAGIC = 5" "length MAGIC_V2 = 5"
  by (simp_all add: MAGIC_def MAGIC_V2_def)

lemma open_frame_v2:
  assumes s: "length stats_json < u32_size" and d: "stats_of_json lb stats_json = Inr stats"
  shows "open_frame lb path (frame_v2 ipc_bytes stats_json) = Some (Inr (ipc_bytes, Some stats, 2))"
proof -
  let ?f = "frame_v2 ipc_bytes stats_json"
  let ?l = "le_bytes 4 (length stats_json)"
  have f: "?f = MAGIC_V2 @ ipc_bytes @ stats_json @ ?l @ MAGIC_V2" using s by (simp add: frame_v2_def)
  have len: "length ?f = 14 + length ipc_bytes + length stats_json" by (simp add: f)
  have sl: "of_le ?l = length stats_json" using s by (simp add: of_le_le_bytes u32_size_def)
  have off: "length ?f - length MAGIC_V2 - 4 = 5 + length ipc_bytes + length stats_json" by (simp add: len)
  have "take 4 (drop (5 + length ipc_bytes + length stats_json) ?f) = ?l" by (simp add: f)
  moreover have "take (length stats_json) (drop (5 + length ipc_bytes) ?f) = stats_json" by (simp add: f)
  moreover have "drop (length ?f - length MAGIC_V2) ?f = MAGIC_V2" by (simp add: f)
  moreover have "take (length ipc_bytes) (drop 5 ?f) = ipc_bytes" by (simp add: f)
  moreover have "take 5 ?f = MAGIC_V2" by (simp add: f)
  ultimately show ?thesis
    using len d unfolding open_frame_def Let_def off by (simp add: sl)
qed

section \<open>Writer invariant\<close>

text \<open>
  After the successful appends of \<open>bs\<close>: the IPC body holds them in order, there is one statistics
  entry per batch, and the column statistics describe them.
\<close>

definition writer_inv :: "(string \<times> data_type) list \<Rightarrow> record_batch list \<Rightarrow> extent_writer \<Rightarrow> bool" where
  "writer_inv sch bs w \<longleftrightarrow> w_schema w = sch \<and> w_ipc w = bs \<and> acc_inv sch bs (w_stats w) \<and>
     list_all2 (\<lambda>s b. stats_for_batch b = Some s) (w_block_stats w) bs \<and>
     w_row_count w = sum_list (map num_rows bs) \<and> w_block_count w = as_u32 (length bs)"

lemma acc_new_inv: "acc_inv sch [] (acc_new sch)"
  by (auto simp: acc_inv_def acc_new_def list_all2_conv_all_nth slot_sum_new split: prod.splits)

lemma writer_new_inv: "writer_inv sch [] (writer_new fmt i sch)"
  by (simp add: writer_inv_def writer_new_def acc_new_inv as_u32_def)

lemma as_u32_Suc: "as_u32 (Suc (as_u32 n)) = as_u32 (Suc n)"
  by (simp add: as_u32_def mod_Suc_eq)

lemma writer_append_inv:
  assumes inv: "writer_inv sch bs w" and b: "batch_ok b" and a: "writer_append lb w b = Some (w', Inr ())"
  shows "writer_inv sch (bs @ [b]) w'" "schema b = sch"
proof -
  from a show sb: "schema b = sch"
    using inv by (auto simp: writer_append_def writer_inv_def split: if_splits)
  from a obtain st s where s: "acc_update (w_stats w) b = Some st" "stats_for_batch b = Some s"
    "ipc_write lb (w_ipc w) b = None"
    by (auto simp: writer_append_def Let_def split: if_splits option.splits)
  from acc_update_inv [OF _ b sb s(1)] inv have "acc_inv sch (bs @ [b]) st" by (simp add: writer_inv_def)
  with a s inv sb show "writer_inv sch (bs @ [b]) w'"
    by (auto simp: writer_append_def writer_inv_def Let_def as_u32_Suc intro: list_all2_appendI)
qed

text \<open>Appending a list of batches, each of which must succeed.\<close>

fun append_all :: "'st libs \<Rightarrow> extent_writer \<Rightarrow> record_batch list \<Rightarrow> extent_writer option" where
  "append_all lb w [] = Some w"
| "append_all lb w (b # bs) =
     (case writer_append lb w b of Some (w', Inr _) \<Rightarrow> append_all lb w' bs | _ \<Rightarrow> None)"

lemma append_all_ConsD:
  assumes a: "append_all lb w (b # bs) = Some w'"
  shows "\<exists>w1. writer_append lb w b = Some (w1, Inr ()) \<and> append_all lb w1 bs = Some w'"
proof (cases "writer_append lb w b")
  case None
  with a show ?thesis by simp
next
  case (Some p)
  obtain w1 r where p: "p = (w1, r)" by (cases p)
  show ?thesis
  proof (cases r)
    case (Inl e)
    with a Some p show ?thesis by simp
  next
    case (Inr u)
    with a Some p show ?thesis by simp
  qed
qed

lemma append_all_inv:
  assumes "append_all lb w bs = Some w'" "writer_inv sch ds w" "\<forall>b \<in> set bs. batch_ok b"
  shows "writer_inv sch (ds @ bs) w' \<and> (\<forall>b \<in> set bs. schema b = sch)"
  using assms
proof (induction bs arbitrary: w ds)
  case (Cons b bs)
  from Cons.prems(1) obtain w1 where
    w1: "writer_append lb w b = Some (w1, Inr ())" "append_all lb w1 bs = Some w'"
    using append_all_ConsD by blast
  have b: "batch_ok b" "\<forall>b \<in> set bs. batch_ok b" using Cons.prems(3) by auto
  note i = writer_append_inv [OF Cons.prems(2) b(1) w1(1)]
  from Cons.IH [OF w1(2) i(1) b(2)] i(2) show ?case by simp
qed simp

end
