(* ===== verification/Scan.thy ===== *)
theory Scan
  imports Tlm_Extent
begin

text \<open>
  Reading back what was written: the path of a row from the extent writer through the catalog's
  listing, the extent reader and its block pruning, for the query filters pushed down by
  \<open>pensieve-exec\<close>. This is the contract between the four components.
\<close>

section \<open>From the writer to the manifest and the reader\<close>

text \<open>The manifest the ingest path registers for a written extent.\<close>

definition table_result_to_manifest :: "nat \<Rightarrow> nat \<Rightarrow> int \<Rightarrow> extent_write_result \<Rightarrow> extent_manifest" where
  "table_result_to_manifest tid sid now res =
     \<lparr>ext_id = res_extent_id res, ext_table_id = tid, schema_snapshot_id = sid, object_path = res_object_path res,
      byte_size = res_byte_size res, ext_row_count = res_row_count res,
      min_timestamp = res_min_timestamp_nanos res, max_timestamp = res_max_timestamp_nanos res,
      column_stats = res_column_stats res, present_paths = res_present_paths res,
      compaction_gen = 0, created_at = now\<rparr>"

lemma writer_manifest:
  assumes w: "append_all lb (writer_new fmt i sch) bs = Some w" and fin: "writer_finish lb st w = Some (Inr (st', res))"
    and b: "\<forall>b \<in> set bs. batch_valid b" "distinct (map fst sch)"
  shows "manifest_of sch bs (table_result_to_manifest tid sid now res)"
proof -
  have inv: "writer_inv sch bs w" "\<forall>b \<in> set bs. schema b = sch"
    using append_all_inv [OF w writer_new_inv] b(1) by (auto simp: batch_valid_def)
  from fin obtain js where js: "acc_finish (vector_stat_of lb (w_ipc w)) (w_stats w) = Some js"
    "res_column_stats res = js" "res_min_timestamp_nanos res = min_ts_nanos (w_stats w)"
    "res_max_timestamp_nanos res = max_ts_nanos (w_stats w)"
    by (auto simp: writer_finish_def Let_def split: option.splits sum.splits)
  with inv b show ?thesis unfolding manifest_of_def table_result_to_manifest_def writer_inv_def by auto
qed

text \<open>What the libraries promise of one written extent: bytes, IPC body and statistics come back.\<close>

definition libs_read_back :: "'st libs \<Rightarrow> 'st \<Rightarrow> extent_writer \<Rightarrow> bool" where
  "libs_read_back lb st w \<longleftrightarrow>
     (\<forall>ipc. ipc_finish lb (w_schema w) (w_ipc w) = Inr ipc \<longrightarrow> ipc_read lb ipc = Inr (w_ipc w)) \<and>
     (\<forall>js. stats_to_json lb (w_block_stats w) = Inr js \<longrightarrow>
        stats_of_json lb js = Inr (w_block_stats w) \<and> length js < u32_size) \<and>
     (\<forall>path data st'. store_put lb st path data = Inr st' \<longrightarrow> store_get lb st' path = Inr data)"

lemma writer_reader:
  assumes w: "append_all lb (writer_new fmt i sch) bs = Some w" and fin: "writer_finish lb st w = Some (Inr (st', res))"
    and b: "\<forall>b \<in> set bs. batch_ok b" and l: "libs_read_back lb st w"
  shows "\<exists>r. reader_open lb st' \<lparr>in_schema = sch', in_object_path = res_object_path res,
      in_byte_size = res_byte_size res\<rparr> = Some (Inr r) \<and> r_batches r = bs \<and>
    r_block_stats r = Some (w_block_stats w) \<and> r_schema r = sch' \<and> r_row_count r = res_row_count res \<and>
    r_block_count r = res_block_count res \<and> r_format_version r = 2"
proof -
  have inv: "writer_inv sch bs w" using append_all_inv [OF w writer_new_inv b] by simp
  from fin obtain ipc js where f: "ipc_finish lb (w_schema w) (w_ipc w) = Inr ipc"
    "stats_to_json lb (w_block_stats w) = Inr js"
    "store_put lb st (res_object_path res) (frame_v2 ipc js) = Inr st'"
    "res_row_count res = w_row_count w" "res_block_count res = w_block_count w"
    by (auto simp: writer_finish_def Let_def split: option.splits sum.splits)
  with l have g: "ipc_read lb ipc = Inr (w_ipc w)" "stats_of_json lb js = Inr (w_block_stats w)"
    "length js < u32_size" "store_get lb st' (res_object_path res) = Inr (frame_v2 ipc js)"
    by (auto simp: libs_read_back_def)
  from open_frame_v2 [OF g(3,2)] g(1,4) f(4,5) inv show ?thesis
    by (simp add: reader_open_def writer_inv_def)
qed

lemma reader_blocks:
  assumes w: "writer_inv sch bs w" and r: "r_batches r = bs" "r_block_stats r = Some (w_block_stats w)"
    and v: "\<forall>b \<in> set bs. batch_valid b" and small: "length bs < u32_size" and k: "k < length bs"
    and s: "row_sat sm (bs ! k) (map fst (r_schema r)) i p"
  shows "k \<in> set (reader_pruned_blocks r p) \<and> read_block r k [] = Inr (bs ! k)"
proof -
  have l: "list_all2 (\<lambda>s b. batch_valid b \<and> stats_for_batch b = Some s) (w_block_stats w) bs"
    using w v by (auto simp: writer_inv_def list_all2_conv_all_nth)
  then have len: "length (w_block_stats w) = length bs" by (rule list_all2_lengthD)
  have "k \<in> set (blocks.kept (map fst (r_schema r)) p (w_block_stats w))"
    using k s l len by (auto simp: blocks.kept_iff list_all2_conv_all_nth intro: evaluate_sound)
  then show ?thesis
    using pruned_blocks_kept [of "w_block_stats w"] r small len k
    by (simp add: reader_pruned_blocks_def read_block_def idx_def)
qed

section \<open>A small extent\<close>

text \<open>One batch of one row: the concrete input of the witnesses below.\<close>

definition ex_schema :: "(string \<times> data_type) list" where
  "ex_schema = [(''ts'', Timestamp Nanosecond), (''msg'', Utf8)]"

definition ex_batch :: record_batch where
  "ex_batch = \<lparr>schema = ex_schema, columns = [TimestampNanosecondArray [Some 5], StringArray [Some ''error'']], num_rows = 1\<rparr>"

definition ex_stats :: block_stats where
  "ex_stats = \<lparr>row_count = 1, cols = [''ts'' \<mapsto> Ts 5 5 0, ''msg'' \<mapsto> StStr ''error'' ''error'' 0]\<rparr>"

definition ex_libs :: "(string \<rightharpoonup> u8 list) libs" where
  "ex_libs = \<lparr>ipc_write = \<lambda>_ _. None, ipc_finish = \<lambda>_ _. Inr [], ipc_read = \<lambda>_. Inr [ex_batch],
     stats_to_json = \<lambda>_. Inr [], stats_of_json = \<lambda>_. Inr [ex_stats], vector_stat_of = \<lambda>_ _. None,
     store_put = \<lambda>st p d. Inr (st(p \<mapsto> d)),
     store_get = \<lambda>st p. (case st p of None \<Rightarrow> Inl ''not found'' | Some d \<Rightarrow> Inr d)\<rparr>"

definition ex_format :: tlm_format where
  "ex_format = \<lparr>path_prefix = ''pensieve'', tenant_segment = ''''\<rparr>"

lemma ex_stats_for: "stats_for_batch ex_batch = Some ex_stats"
  by (simp add: stats_for_batch_def ex_batch_def ex_schema_def ex_stats_def field_stats_def put_stat_def
    ts_stats_def str_stats_def minmax_loop_def minmax_step_def i64_max_def i64_min_def STRING_MINMAX_CAP_def as_u32_def u32_size_def)

lemma ex_acc: "\<exists>a. acc_update (acc_new ex_schema) ex_batch = Some a"
  by (simp add: acc_update_def acc_new_def ex_schema_def ex_batch_def update_ts_bounds_def index_fields_def update_distinct_sets_def
   update_slot_def map_filter_def idx_def ts_bound_step_def)

lemma ex_valid: "batch_valid ex_batch"
  by (simp add: batch_valid_def batch_ok_def ex_batch_def ex_schema_def Option.these_def i64_min_def i64_max_def)

lemma ex_append: "\<exists>w. append_all ex_libs (writer_new ex_format ''x1'' ex_schema) [ex_batch] = Some w"
proof -
  have "schema ex_batch = ex_schema" by (simp add: ex_batch_def)
  with ex_acc ex_stats_for show ?thesis
    by (auto simp: writer_append_def writer_new_def ex_libs_def Let_def)
qed

lemma ex_finish:
  assumes "append_all ex_libs (writer_new ex_format ''x1'' ex_schema) [ex_batch] = Some w"
  shows "\<exists>st' res. writer_finish ex_libs Map.empty w = Some (Inr (st', res))"
proof -
  have "writer_inv ex_schema [ex_batch] w"
    using append_all_inv [OF assms writer_new_inv] ex_valid by (simp add: batch_valid_def)
  then have "acc_inv ex_schema [ex_batch] (w_stats w)" by (simp add: writer_inv_def)
  from acc_finish_total [OF this, of "\<lambda>_. None"] show ?thesis
    by (auto simp: writer_finish_def ex_libs_def Let_def)
qed

lemma ex_read_back:
  assumes "append_all ex_libs (writer_new ex_format ''x1'' ex_schema) [ex_batch] = Some w"
  shows "libs_read_back ex_libs Map.empty w"
proof -
  have "writer_inv ex_schema [ex_batch] w"
    using append_all_inv [OF assms writer_new_inv] ex_valid by (simp add: batch_valid_def)
  then have "w_ipc w = [ex_batch]" "w_block_stats w = [ex_stats]"
    using ex_stats_for by (auto simp: writer_inv_def list_all2_Cons2)
  then show ?thesis by (auto simp: libs_read_back_def ex_libs_def u32_size_def)
qed

definition ex_env :: time_env where
  "ex_env = \<lparr>secs_ok = \<lambda>_. True, parse_rfc3339 = \<lambda>_. None, scalar_to_f64 = \<lambda>_. None, f64_to_f32 = \<lambda>x. x\<rparr>"

definition ex_floats :: float_ops where
  "ex_floats = \<lparr>num_range = \<lambda>_ _ _. None, keep_vector = \<lambda>_ _ _ _. True\<rparr>"

text \<open>\<open>ts >= 1 AND msg = 'error'\<close>\<close>

definition ex_filters :: "expr list" where
  "ex_filters = [BinaryExpr (Column ''ts'') OpGtEq (Literal (TimestampNanosecond (Some 1))),
                 BinaryExpr (Column ''msg'') OpEq (Literal (DUtf8 (Some ''error'')))]"

definition ex_column_stats :: json where
  "ex_column_stats = JObject [(''msg'', JObject [(''distinct'', JArray [JString ''error'']), (''tokens'', JArray [JString ''error''])])]"

lemma ex_tokens: "tokenize ''error'' {} = {''error''}" "tokenize ''rror'' {} = {''rror''}"
  by (simp_all add: tokenize_def is_ascii_alphanumeric_def to_ascii_lowercase_def)

lemma ex_acc_stats:
  "\<exists>a. acc_update (acc_new ex_schema) ex_batch = Some a \<and> acc_finish (\<lambda>_. None) a = Some ex_column_stats \<and>
     min_ts_nanos a = Some 5 \<and> max_ts_nanos a = Some 5"
  by (simp add: acc_update_def acc_new_def ex_schema_def ex_batch_def update_ts_bounds_def index_fields_def
   update_distinct_sets_def update_slot_def map_filter_def idx_def ts_bound_step_def add_string_def new_slot_def
   DISTINCT_SET_CAP_def TOKEN_SET_CAP_def ex_tokens Let_def acc_finish_def finish_column_def string_array_json_def
   ex_column_stats_def json_insert_def)

definition ex_manifest :: extent_manifest where
  "ex_manifest = \<lparr>ext_id = ''x1'', ext_table_id = 0, schema_snapshot_id = 0, object_path = ''extents/x1.pnsv'',
     byte_size = 14, ext_row_count = 1, min_timestamp = Some 5, max_timestamp = Some 5,
     column_stats = ex_column_stats, present_paths = [], compaction_gen = 0, created_at = 0\<rparr>"

lemma ex_manifest_of: "manifest_of ex_schema [ex_batch] ex_manifest"
proof -
  obtain a where a: "acc_update (acc_new ex_schema) ex_batch = Some a" "acc_finish (\<lambda>_. None) a = Some ex_column_stats"
    "min_ts_nanos a = Some 5" "max_ts_nanos a = Some 5" using ex_acc_stats by blast
  have "acc_inv ex_schema ([] @ [ex_batch]) a"
    by (rule acc_update_inv [OF acc_new_inv _ _ a(1)]) (use ex_valid in \<open>simp_all add: batch_valid_def ex_batch_def\<close>)
  then have "acc_inv ex_schema [ex_batch] a" by simp
  moreover have "schema ex_batch = ex_schema" "distinct (map fst ex_schema)"
    by (simp_all add: ex_batch_def ex_schema_def)
  ultimately show ?thesis
    using a ex_valid unfolding manifest_of_def
    by (intro conjI exI [of _ "\<lambda>_. None"] exI [of _ a]) (simp_all add: ex_manifest_def)
qed

definition like_filter :: expr where
  "like_filter = Like False (Column ''msg'') (Literal (DUtf8 (Some ''%rror%'')))"

lemma like_filter_prune: "build_prune_predicate ex_env ex_schema [like_filter] =
   \<lparr>prune_time_range = None, required_paths = [], column_predicates = [(''msg'', ContainsTokens [''rror''])]\<rparr>"
  by (simp add: build_prune_predicate_def ts_column_def ex_schema_def like_filter_def extract_time_bound_def add_bound_def
     range_of_bounds_def add_column_filter_def extract_equality_def extract_text_search_def string_cols_def trim_percent_def ex_tokens or_insert_def Let_def)

text \<open>A row of a written and registered extent is found by the scan.\<close>

lemma scan_finds_row:
  assumes w: "append_all lb (writer_new fmt i sch) bs = Some w"
    and fin: "writer_finish lb st w = Some (Inr (st', res))" and l: "libs_read_back lb st w"
    and v: "\<forall>b \<in> set bs. batch_valid b" "distinct (map fst sch)" "length sch < u32_size" "length bs < u32_size"
    and db: "\<lparr>row_tenant = tenant, row_manifest = table_result_to_manifest tid sid now res, deleted_at = None\<rparr> \<in> set db"
    and k: "k < length bs"
    and h: "\<forall>f \<in> set fs. holds env opq (bs ! k) j f \<and> plain_filter env sch f"
    and t: "\<forall>t. row_ts (bs ! k) j = Some t \<longrightarrow> 0 \<le> t \<and> t < i64_max"
  shows "table_result_to_manifest tid sid now res \<in> set (list_extents fo db tenant tid (build_prune_predicate env sch fs)) \<and>
    (\<exists>r. reader_open lb st' \<lparr>in_schema = sch, in_object_path = res_object_path res,
           in_byte_size = res_byte_size res\<rparr> = Some (Inr r) \<and>
         k \<in> set (reader_pruned_blocks r (build_block_predicate sch (build_prune_predicate env sch fs))) \<and>
         read_block r k [] = Inr (bs ! k))"
proof -
  let ?m = "table_result_to_manifest tid sid now res"
  let ?p = "build_prune_predicate env sch fs"
  have inv: "writer_inv sch bs w" "\<forall>b \<in> set bs. schema b = sch"
    using append_all_inv [OF w writer_new_inv] v(1) by (auto simp: batch_valid_def)
  have bk: "bs ! k \<in> set bs" "batch_valid (bs ! k)" "schema (bs ! k) = sch" using k inv(2) v(1) by auto
  have sat: "prune_sat fo ?p (bs ! k) j"
    by (rule build_prune_sat [OF bk(2,3)]) (use h t in \<open>auto simp: i64_max_def\<close>)
  have "keep_extent fo ?p ?m" by (rule keep_extent_sound [OF writer_manifest [OF w fin v(1,2)] bk(1) sat])
  then have "?m \<in> set (list_extents fo db tenant tid ?p)"
    unfolding list_extents_set using db by (force simp: table_result_to_manifest_def)
  moreover obtain r where r: "reader_open lb st' \<lparr>in_schema = sch, in_object_path = res_object_path res,
      in_byte_size = res_byte_size res\<rparr> = Some (Inr r)" "r_batches r = bs"
      "r_block_stats r = Some (w_block_stats w)" "r_schema r = sch"
    using writer_reader [OF w fin _ l, of sch] v(1) by (auto simp: batch_valid_def)
  moreover have "row_sat (\<lambda>_ _. True, \<lambda>_ _. True) (bs ! k) (map fst (r_schema r)) j (build_block_predicate sch ?p)"
    unfolding r(4) by (rule block_predicate_sat [OF bk(2,3) v(3) sat]) (use t in \<open>auto simp: i64_min_def\<close>)
  from reader_blocks [OF inv(1) r(2,3) v(1,4) k this]
  have "k \<in> set (reader_pruned_blocks r (build_block_predicate sch ?p)) \<and> read_block r k [] = Inr (bs ! k)" .
  ultimately show ?thesis by blast
qed

lemma ex_holds: "\<forall>f \<in> set ex_filters. holds ex_env (\<lambda>_. False) ([ex_batch] ! 0) 0 f \<and> plain_filter ex_env ex_schema f"
  by (simp add: ex_filters_def ex_env_def ex_batch_def ex_schema_def cmp_column_def column_of_def is_ts_array_def
      ts_from_expr_def scalar_instant_def cell_of_def literal_json_def scalar_to_json_def plain_filter_def
      extract_text_search_def extract_vector_distance_def idx_def)

lemma ex_time: "\<forall>t. row_ts ([ex_batch] ! 0) 0 = Some t \<longrightarrow> 0 \<le> t \<and> t < i64_max"
  by (simp add: row_ts_def ts_column_def ex_batch_def ex_schema_def cell_of_def column_of_def i64_max_def idx_def)

lemma ex_sizes: "\<forall>b \<in> set [ex_batch]. batch_valid b" "distinct (map fst ex_schema)" "length ex_schema < u32_size"
    "length [ex_batch] < u32_size" "0 < length [ex_batch]"
  using ex_valid by (simp_all add: ex_schema_def u32_size_def)

section \<open>Properties\<close>





text \<open>
  text-search pruning has false negatives. The query \<open>msg LIKE '%rror%'\<close> is pushed down as the
  token \<open>rror\<close>, and the only extent, whose one row holds \<open>error\<close>, is not listed.
\<close>

theorem like_prune_drops_match:
  "manifest_of ex_schema [ex_batch] ex_manifest \<and> cell_of ex_batch 0 ''msg'' = Some (CStr ''error'') \<and>
   ''error'' = ''e'' @ ''rror'' @ '''' \<and>
   list_extents ex_floats [\<lparr>row_tenant = 0, row_manifest = ex_manifest, deleted_at = None\<rparr>] 0 0
     (build_prune_predicate ex_env ex_schema [like_filter]) = []"
proof (intro conjI ex_manifest_of)
  show "cell_of ex_batch 0 ''msg'' = Some (CStr ''error'')"
    by (simp add: cell_of_def column_of_def ex_batch_def ex_schema_def idx_def)
  show "list_extents ex_floats [\<lparr>row_tenant = 0, row_manifest = ex_manifest, deleted_at = None\<rparr>] 0 0
     (build_prune_predicate ex_env ex_schema [like_filter]) = []"
    by (simp add: list_extents_def like_filter_prune ex_manifest_def ex_column_stats_def token_array_def sort_newest_def Let_def)
qed simp

text \<open>
  a filter with an upper bound only is pushed down with the epoch as lower bound, so an extent
  whose rows all lie before 1970 is not listed although the filter \<open>ts < 10\<close> is true of them.
\<close>

theorem upper_bound_drops_pre_epoch:
  "let f = BinaryExpr (Column ''ts'') OpLt (Literal (TimestampNanosecond (Some 10)));
       b = ex_batch\<lparr>columns := [TimestampNanosecondArray [Some (- 5)], StringArray [Some ''error'']]\<rparr>;
       m = ex_manifest\<lparr>min_timestamp := Some (- 5), max_timestamp := Some (- 5)\<rparr>
   in holds ex_env (\<lambda>_. False) b 0 f \<and> row_ts b 0 = Some (- 5) \<and>
      list_extents ex_floats [\<lparr>row_tenant = 0, row_manifest = m, deleted_at = None\<rparr>] 0 0
        (build_prune_predicate ex_env ex_schema [f]) = []"
proof -
  let ?f = "BinaryExpr (Column ''ts'') OpLt (Literal (TimestampNanosecond (Some 10)))"
  have "build_prune_predicate ex_env ex_schema [?f] =
      \<lparr>prune_time_range = Some \<lparr>start_inclusive = 0, end_exclusive = 10\<rparr>, required_paths = [], column_predicates = []\<rparr>"
    by (simp add: build_prune_predicate_def ts_column_def ex_schema_def extract_time_bound_def add_bound_def
        ts_from_expr_def scalar_instant_def ex_env_def bound_of_op_def min_opt_def range_of_bounds_def
        add_column_filter_def extract_equality_def extract_text_search_def extract_vector_distance_def)
  then show ?thesis
    by (simp add: Let_def list_extents_def ex_manifest_def keep_time_def sort_newest_def cmp_column_def column_of_def
        ex_batch_def ex_schema_def is_ts_array_def ts_from_expr_def scalar_instant_def ex_env_def cell_of_def
        row_ts_def ts_column_def idx_def)
qed

text \<open>
  C27: a written extent opens again, as version 2, with the same batches in the same order, one
  statistics entry per batch and the counts the writer reported.
\<close>

theorem extent_roundtrip:
  assumes "append_all lb (writer_new fmt i sch) bs = Some w"
    and "writer_finish lb st w = Some (Inr (st', res))" and "libs_read_back lb st w"
    and "\<forall>b \<in> set bs. batch_ok b"
  shows "\<exists>r. reader_open lb st' \<lparr>in_schema = sch, in_object_path = res_object_path res,
      in_byte_size = res_byte_size res\<rparr> = Some (Inr r) \<and> r_batches r = bs \<and>
    map Some (the (r_block_stats r)) = map stats_for_batch bs \<and> r_format_version r = 2 \<and>
    r_row_count r = res_row_count res \<and> r_block_count r = res_block_count res \<and>
    res_row_count res = sum_list (map num_rows bs)"
proof -
  have inv: "writer_inv sch bs w" using append_all_inv [OF assms(1) writer_new_inv assms(4)] by simp
  then have "map Some (w_block_stats w) = map stats_for_batch bs"
    by (auto simp: writer_inv_def list_all2_conv_all_nth intro: nth_equalityI)
  moreover from assms(2) have "res_row_count res = w_row_count w"
    by (auto simp: writer_finish_def Let_def split: option.splits sum.splits)
  ultimately show ?thesis
    using writer_reader [OF assms(1,2,4,3), of sch] inv by (auto simp: writer_inv_def)
qed

theorem extent_roundtrip_witness:
  "\<exists>w st' res. append_all ex_libs (writer_new ex_format ''x1'' ex_schema) [ex_batch] = Some w \<and>
    writer_finish ex_libs Map.empty w = Some (Inr (st', res)) \<and>
    (\<exists>r. reader_open ex_libs st' \<lparr>in_schema = ex_schema, in_object_path = res_object_path res,
       in_byte_size = res_byte_size res\<rparr> = Some (Inr r) \<and> r_batches r = [ex_batch])"
proof -
  obtain w where w: "append_all ex_libs (writer_new ex_format ''x1'' ex_schema) [ex_batch] = Some w"
    using ex_append by blast
  obtain st' res where fin: "writer_finish ex_libs Map.empty w = Some (Inr (st', res))"
    using ex_finish [OF w] by blast
  from extent_roundtrip [OF w fin ex_read_back [OF w]] ex_valid w fin show ?thesis
    by (auto simp: batch_valid_def)
qed

end
