(* ===== verification/Schema_Json.thy ===== *)
theory Schema_Json
  imports Json Bytes
begin

text \<open>
  The JSON form of a table's Arrow schema (\<open>schema_to_json\<close>, \<open>json_to_schema\<close> and the column type
  names of \<open>pensieve-catalog-sqlite/src/lib.rs\<close>). The \<open>Debug\<close> text of an Arrow type that has no
  name of its own is a parameter.
\<close>

section \<open>Arrow types\<close>

datatype unit_of_time = SecondU | MillisecondU | MicrosecondU | NanosecondU

text \<open>A fixed-size list carries its element field (name, type, nullability) and its length.\<close>

datatype arrow_type =
  ABoolean | AInt32 | AInt64 | AFloat32 | AFloat64 | AUtf8 | ALargeUtf8
| ATimestamp unit_of_time "string option" | ABinary | ALargeBinary
| AFixedSizeList string arrow_type bool int | AOther string

type_synonym arrow_field = "string \<times> arrow_type \<times> bool"

datatype catalog_error =
  Conflict | TableNotFound string string | DatabaseNotFound string | SchemaSnapshotNotFound nat
| DashboardNotFound nat | GraphNotFound string string | SqlError string | OtherError string

section \<open>Numbers and blanks in text\<close>

fun show_nat :: "nat \<Rightarrow> string" where
  "show_nat n = (if n < 10 then [char_of (48 + n)] else show_nat (n div 10) @ [char_of (48 + n mod 10)])"

declare show_nat.simps [simp del]

definition show_int :: "int \<Rightarrow> string" where
  "show_int i = (if i < 0 then CHR ''-'' # show_nat (nat (- i)) else show_nat (nat i))"

definition digit :: "char \<Rightarrow> nat option" where
  "digit c = (let n = of_char c in if 48 \<le> n \<and> n \<le> 57 then Some (n - 48) else None)"

fun parse_digits :: "nat \<Rightarrow> string \<Rightarrow> nat option" where
  "parse_digits acc [] = Some acc"
| "parse_digits acc (c # cs) = (case digit c of None \<Rightarrow> None | Some d \<Rightarrow> parse_digits (10 * acc + d) cs)"

definition parse_nonempty :: "string \<Rightarrow> nat option" where
  "parse_nonempty s = (if s = [] then None else parse_digits 0 s)"

text \<open>\<open>str::parse::<i32>\<close>: an optional sign, at least one digit, and the range of \<open>i32\<close>.\<close>

definition parse_i32 :: "string \<Rightarrow> int option" where
  "parse_i32 s =
     (let v = (case s of
          [] \<Rightarrow> None
        | c # cs \<Rightarrow>
            if c = CHR ''-'' then map_option (\<lambda>n. - int n) (parse_nonempty cs)
            else if c = CHR ''+'' then map_option int (parse_nonempty cs)
            else map_option int (parse_nonempty s))
      in case v of
        None \<Rightarrow> None
      | Some i \<Rightarrow> if - 2147483648 \<le> i \<and> i \<le> 2147483647 then Some i else None)"

text \<open>\<open>str::trim\<close>: the UTF-8 encodings of the characters with the property \<open>White_Space\<close>.\<close>

definition blank_codes :: "nat list list" where
  "blank_codes = [[9], [10], [11], [12], [13], [32], [194, 133], [194, 160], [225, 154, 128],
     [226, 128, 128], [226, 128, 129], [226, 128, 130], [226, 128, 131], [226, 128, 132],
     [226, 128, 133], [226, 128, 134], [226, 128, 135], [226, 128, 136], [226, 128, 137],
     [226, 128, 138], [226, 128, 168], [226, 128, 169], [226, 128, 175], [226, 129, 159], [227, 128, 128]]"

definition starts_with :: "string \<Rightarrow> string \<Rightarrow> bool" where
  "starts_with p s \<longleftrightarrow> take (length p) s = p"

definition ends_with :: "string \<Rightarrow> string \<Rightarrow> bool" where
  "ends_with p s \<longleftrightarrow> starts_with (rev p) (rev s)"

text \<open>Dropping the blanks of the list \<open>ws\<close> at the front.\<close>

function trim_front :: "string list \<Rightarrow> string \<Rightarrow> string" where
  "trim_front ws s =
     (case List.find (\<lambda>w. w \<noteq> [] \<and> starts_with w s) ws of
        None \<Rightarrow> s
      | Some w \<Rightarrow> trim_front ws (drop (length w) s))"
  by pat_completeness auto

termination
proof (relation "measure (\<lambda>(ws, s). length s)", goal_cases)
  case (2 ws s w)
  then have "w \<noteq> []" "starts_with w s" by (auto simp: find_Some_iff)
  then have "length w \<le> length s" by (metis length_take min.absorb_iff1 nat_le_linear starts_with_def take_all)
  with \<open>w \<noteq> []\<close> show ?case by (cases w) auto
qed simp

declare trim_front.simps [simp del]

definition trim :: "string \<Rightarrow> string" where
  "trim s =
     (let ws = map (map char_of) blank_codes in
      rev (trim_front (map rev ws) (rev (trim_front ws s))))"

section \<open>Schemas and JSON\<close>

definition arrow_type_to_string :: "(arrow_type \<Rightarrow> string) \<Rightarrow> arrow_type \<Rightarrow> string" where
  "arrow_type_to_string debug ty =
     (case ty of
        ABoolean \<Rightarrow> ''bool''
      | AInt32 \<Rightarrow> ''int''
      | AInt64 \<Rightarrow> ''long''
      | AFloat64 \<Rightarrow> ''real''
      | AUtf8 \<Rightarrow> ''string''
      | ALargeUtf8 \<Rightarrow> ''string''
      | ATimestamp NanosecondU _ \<Rightarrow> ''timestamp''
      | ABinary \<Rightarrow> ''dynamic''
      | ALargeBinary \<Rightarrow> ''dynamic''
      | AFixedSizeList _ AFloat32 _ dim \<Rightarrow> ''vector('' @ show_int dim @ '')''
      | other \<Rightarrow> ''arrow:'' @ debug other)"

definition string_to_arrow_type :: "string \<Rightarrow> catalog_error + arrow_type" where
  "string_to_arrow_type s =
     (if s = ''bool'' then Inr ABoolean
      else if s = ''int'' then Inr AInt32
      else if s = ''long'' then Inr AInt64
      else if s = ''real'' then Inr AFloat64
      else if s = ''string'' then Inr AUtf8
      else if s = ''timestamp'' then Inr (ATimestamp NanosecondU None)
      else if s = ''dynamic'' then Inr ABinary
      else if starts_with ''vector('' s \<and> ends_with '')'' s then
        (case parse_i32 (trim (take (length s - 1 - 7) (drop 7 s))) of
           None \<Rightarrow> Inl (SqlError ''vector(N): N must be a positive integer'')
         | Some dim \<Rightarrow>
             if dim \<le> 0 then Inl (SqlError ''vector(N): N must be > 0'')
             else Inr (AFixedSizeList ''item'' AFloat32 False dim))
      else Inl (SqlError ''unsupported column type in schema''))"

definition field_json :: "(arrow_type \<Rightarrow> string) \<Rightarrow> arrow_field \<Rightarrow> json" where
  "field_json debug f = JObject [(''name'', JString (fst f)),
     (''type'', JString (arrow_type_to_string debug (fst (snd f)))), (''nullable'', JBool (snd (snd f)))]"

definition schema_to_json :: "(arrow_type \<Rightarrow> string) \<Rightarrow> arrow_field list \<Rightarrow> json" where
  "schema_to_json debug fs = JObject [(''fields'', JArray (map (field_json debug) fs))]"

definition json_to_field :: "json \<Rightarrow> catalog_error + arrow_field" where
  "json_to_field f =
     (case Option.bind (json_get f ''name'') json_as_str of
        None \<Rightarrow> Inl (SqlError ''field missing name'')
      | Some name \<Rightarrow>
          (case Option.bind (json_get f ''type'') json_as_str of
             None \<Rightarrow> Inl (SqlError ''field missing type'')
           | Some ty \<Rightarrow>
               bindE (string_to_arrow_type ty) (\<lambda>t.
                 Inr (name, t, (case Option.bind (json_get f ''nullable'') json_as_bool of None \<Rightarrow> True | Some b \<Rightarrow> b)))))"

fun json_to_fields :: "json list \<Rightarrow> catalog_error + arrow_field list" where
  "json_to_fields [] = Inr []"
| "json_to_fields (f # fs) = bindE (json_to_field f) (\<lambda>x. bindE (json_to_fields fs) (\<lambda>xs. Inr (x # xs)))"

definition json_to_schema :: "json \<Rightarrow> catalog_error + arrow_field list" where
  "json_to_schema j =
     (case Option.bind (json_get j ''fields'') json_as_array of
        None \<Rightarrow> Inl (SqlError ''malformed schema json: missing fields'')
      | Some fs \<Rightarrow> json_to_fields fs)"

section \<open>Round trip\<close>

lemma digit_char: "n < 10 \<Longrightarrow> digit (char_of (48 + n)) = Some n"
  by (simp add: digit_def Let_def)

lemma parse_digits_append:
  "parse_digits acc (s @ t) = (case parse_digits acc s of None \<Rightarrow> None | Some a \<Rightarrow> parse_digits a t)"
  by (induction acc s rule: parse_digits.induct) (auto split: option.splits)

lemma show_nat_digits: "list_all (\<lambda>c. digit c \<noteq> None) (show_nat n)"
proof (induction n rule: show_nat.induct)
  case (1 n)
  then show ?case by (subst show_nat.simps) (simp add: digit_char)
qed

lemma parse_show_nat: "parse_digits 0 (show_nat n) = Some n"
proof (induction n rule: show_nat.induct)
  case (1 n)
  show ?case
  proof (cases "n < 10")
    case True
    then show ?thesis by (subst show_nat.simps) (simp add: digit_char)
  next
    case False
    with 1 show ?thesis by (subst show_nat.simps) (simp add: parse_digits_append digit_char)
  qed
qed

lemma show_nat_nonempty [simp]: "show_nat n \<noteq> []"
  by (subst show_nat.simps) simp

lemma parse_i32_show:
  assumes "0 \<le> i"
  shows "parse_i32 (show_int i) = (if i \<le> 2147483647 then Some i else None)"
proof -
  obtain c cs where c: "show_nat (nat i) = c # cs" by (meson neq_Nil_conv show_nat_nonempty)
  have "digit c \<noteq> None" using show_nat_digits [of "nat i"] by (simp add: c)
  then have "c \<noteq> CHR ''-''" "c \<noteq> CHR ''+''" by (auto simp: digit_def Let_def)
  with assms parse_show_nat [of "nat i"] show ?thesis
    by (simp add: parse_i32_def show_int_def c parse_nonempty_def)
qed

lemma trim_front_none:
  "\<forall>w \<in> set ws. w = [] \<or> s = [] \<or> hd w \<noteq> hd s \<Longrightarrow> trim_front ws s = s"
proof -
  assume a: "\<forall>w \<in> set ws. w = [] \<or> s = [] \<or> hd w \<noteq> hd s"
  have "\<not> (w \<noteq> [] \<and> starts_with w s)" if "w \<in> set ws" for w
    using a that by (cases w; cases s) (auto simp: starts_with_def)
  then have "List.find (\<lambda>w. w \<noteq> [] \<and> starts_with w s) ws = None" by (simp add: find_None_iff)
  then show ?thesis by (subst trim_front.simps) simp
qed

definition numeric :: "char \<Rightarrow> bool" where
  "numeric c \<longleftrightarrow> (let n = (of_char c :: nat) in n = 45 \<or> (48 \<le> n \<and> n \<le> 57))"

lemma blank_not_numeric:
  "\<forall>w \<in> set (map (map char_of) blank_codes). w \<noteq> [] \<and> \<not> numeric (hd w) \<and> \<not> numeric (hd (rev w))"
  by (simp add: blank_codes_def numeric_def Let_def)

lemma trim_numeric:
  assumes "list_all numeric s"
  shows "trim s = s"
proof -
  let ?ws = "map (map char_of) blank_codes"
  have n: "numeric (hd t)" if "t = s \<or> t = rev s" "t \<noteq> []" for t
    using that assms by (metis hd_in_set list_all_iff set_rev)
  have "trim_front ?ws s = s"
    by (rule trim_front_none) (use blank_not_numeric n [of s] in \<open>auto simp del: list.map\<close>)
  moreover have "trim_front (map rev ?ws) (rev s) = rev s"
  proof (rule trim_front_none, rule ballI)
    fix w assume "w \<in> set (map rev ?ws)"
    then obtain v where "v \<in> set ?ws" "w = rev v" by auto
    with blank_not_numeric n [of "rev s"] show "w = [] \<or> rev s = [] \<or> hd w \<noteq> hd (rev s)" by metis
  qed
  ultimately show ?thesis unfolding trim_def Let_def by (simp only: rev_rev_ident)
qed

lemma numeric_show_int: "list_all numeric (show_int i)"
proof -
  have "list_all numeric (show_nat n)" for n
    using show_nat_digits [of n] by (auto simp: numeric_def digit_def list_all_iff Let_def split: if_splits)
  then show ?thesis by (simp add: show_int_def numeric_def [of "CHR ''-''"])
qed

lemma vector_type_roundtrip:
  "string_to_arrow_type (''vector('' @ show_int dim @ '')'') =
     (if 0 < dim \<and> dim \<le> 2147483647 then Inr (AFixedSizeList ''item'' AFloat32 False dim)
      else if dim \<le> 0 \<and> parse_i32 (show_int dim) \<noteq> None then Inl (SqlError ''vector(N): N must be > 0'')
      else Inl (SqlError ''vector(N): N must be a positive integer''))"
proof -
  let ?s = "''vector('' @ show_int dim @ '')''"
  have "starts_with ''vector('' ?s" "ends_with '')'' ?s" by (simp_all add: starts_with_def ends_with_def)
  moreover have "take (length ?s - 1 - 7) (drop 7 ?s) = show_int dim" by simp
  moreover have "?s \<noteq> ''bool''" "?s \<noteq> ''int''" "?s \<noteq> ''long''" "?s \<noteq> ''real''" "?s \<noteq> ''string''"
    "?s \<noteq> ''timestamp''" "?s \<noteq> ''dynamic''" by simp_all
  ultimately have e: "string_to_arrow_type ?s =
      (case parse_i32 (show_int dim) of None \<Rightarrow> Inl (SqlError ''vector(N): N must be a positive integer'')
       | Some d \<Rightarrow> if d \<le> 0 then Inl (SqlError ''vector(N): N must be > 0'')
                   else Inr (AFixedSizeList ''item'' AFloat32 False d))"
    unfolding string_to_arrow_type_def by (simp only: trim_numeric [OF numeric_show_int] if_False if_True simp_thms)
  show ?thesis
  proof (cases "0 < dim")
    case True
    then show ?thesis unfolding e using parse_i32_show [of dim] by simp
  next
    case False
    have "d \<le> 0" if "parse_i32 (show_int dim) = Some d" for d
    proof (cases "dim = 0")
      case True
      with that show ?thesis using parse_i32_show [of 0] by simp
    next
      case neg: False
      with False that show ?thesis
        by (auto simp: show_int_def parse_i32_def Let_def split: option.splits if_splits)
    qed
    with False show ?thesis unfolding e by (auto split: option.splits)
  qed
qed

text \<open>What is left of a column after one round trip; \<open>None\<close> where the stored form is not readable.\<close>

definition stored_type :: "arrow_type \<Rightarrow> arrow_type option" where
  "stored_type ty =
     (case ty of
        ABoolean \<Rightarrow> Some ABoolean
      | AInt32 \<Rightarrow> Some AInt32
      | AInt64 \<Rightarrow> Some AInt64
      | AFloat64 \<Rightarrow> Some AFloat64
      | AUtf8 \<Rightarrow> Some AUtf8
      | ALargeUtf8 \<Rightarrow> Some AUtf8
      | ATimestamp NanosecondU _ \<Rightarrow> Some (ATimestamp NanosecondU None)
      | ABinary \<Rightarrow> Some ABinary
      | ALargeBinary \<Rightarrow> Some ABinary
      | AFixedSizeList _ AFloat32 _ dim \<Rightarrow>
          (if 0 < dim \<and> dim \<le> 2147483647 then Some (AFixedSizeList ''item'' AFloat32 False dim) else None)
      | _ \<Rightarrow> None)"

definition stored_field :: "arrow_field \<Rightarrow> arrow_field option" where
  "stored_field f = map_option (\<lambda>t. (fst f, t, snd (snd f))) (stored_type (fst (snd f)))"

lemma arrow_prefix_rejected: "isl (string_to_arrow_type (''arrow:'' @ d))"
  by (simp add: string_to_arrow_type_def starts_with_def)

lemma type_roundtrip:
  "case stored_type ty of
     Some t \<Rightarrow> string_to_arrow_type (arrow_type_to_string debug ty) = Inr t
   | None \<Rightarrow> isl (string_to_arrow_type (arrow_type_to_string debug ty))"
proof (cases ty)
  case (ATimestamp u tz)
  then show ?thesis using arrow_prefix_rejected
    by (cases u) (auto simp: stored_type_def arrow_type_to_string_def string_to_arrow_type_def starts_with_def)
next
  case (AFixedSizeList n t b dim)
  then show ?thesis using arrow_prefix_rejected vector_type_roundtrip [of dim]
    by (cases t) (auto simp: stored_type_def arrow_type_to_string_def)
qed (auto simp: stored_type_def arrow_type_to_string_def string_to_arrow_type_def starts_with_def)

lemma field_roundtrip:
  "case stored_field f of
     Some g \<Rightarrow> json_to_field (field_json debug f) = Inr g
   | None \<Rightarrow> isl (json_to_field (field_json debug f))"
  using type_roundtrip [where ty = "fst (snd f)" and debug = debug]
  by (cases "string_to_arrow_type (arrow_type_to_string debug (fst (snd f)))")
    (auto simp: stored_field_def json_to_field_def field_json_def split: option.splits)

lemma fields_roundtrip:
  "case traverse stored_field fs of
     Some gs \<Rightarrow> json_to_fields (map (field_json debug) fs) = Inr gs
   | None \<Rightarrow> isl (json_to_fields (map (field_json debug) fs))"
proof (induction fs)
  case (Cons f fs)
  show ?case using Cons.IH field_roundtrip [where f = f and debug = debug]
    by (cases "json_to_field (field_json debug f)"; cases "json_to_fields (map (field_json debug) fs)")
      (auto split: option.splits)
qed simp

section \<open>Property\<close>

text \<open>
  A schema read back from its stored JSON has the same columns in the same order,
  with large strings and binaries as their plain forms, timestamps without zone and vectors with
  the canonical element field; when a column has any other type, or a vector's length is not
  positive, reading the stored schema fails.
\<close>

theorem schema_json_roundtrip:
  "case traverse stored_field fs of
     Some gs \<Rightarrow> json_to_schema (schema_to_json debug fs) = Inr gs
   | None \<Rightarrow> isl (json_to_schema (schema_to_json debug fs))"
proof -
  have "json_to_schema (schema_to_json debug fs) = json_to_fields (map (field_json debug) fs)"
    by (simp add: json_to_schema_def schema_to_json_def)
  with fields_roundtrip [where fs = fs and debug = debug] show ?thesis by (simp only:)
qed

end
