(* ===== verification/Catalog_State.thy ===== *)
theory Catalog_State
  imports Catalog_Prune Schema_Json
begin

text \<open>
  The tables of the SQLite catalog (\<open>pensieve-catalog-sqlite\<close>) and the operations that define
  databases and tables, evolve schemas, commit snapshots, delete extents and record idempotency
  keys (\<open>lib.rs\<close>, \<open>snapshot.rs\<close>).

  Every operation is a function of the catalog that returns an error or a result, and the new
  catalog; a transaction that fails leaves the catalog as it was. UUIDs are numbers (extent ids
  strings), fresh ones and clock readings are arguments, and an insert checks the primary key. JSON
  columns hold the value their text encodes. Lock timeouts of SQLite abort a transaction like a
  conflict and are not shown separately. \<open>u64\<close> sizes bound as \<open>i64\<close> parameters stay below 2^63.
\<close>

section \<open>Rows\<close>

record db_row =
  db_id :: nat
  db_tenant :: nat
  db_name :: string
  db_created_at :: int

record table_row =
  t_id :: nat
  t_tenant :: nat
  t_database :: nat
  t_name :: string
  t_snapshot :: "nat option"
  t_schema :: "nat option"
  t_config :: json
  t_created_at :: int

record schema_row =
  sch_id :: nat
  sch_tenant :: nat
  sch_table :: nat
  sch_arrow :: json
  sch_created_at :: int

record snap_row =
  sn_id :: nat
  sn_tenant :: nat
  sn_table :: nat
  sn_parent :: "nat option"
  sn_seq :: int
  sn_schema :: nat
  sn_summary :: json
  sn_created_at :: int

record manifest_row =
  mf_id :: nat
  mf_tenant :: nat
  mf_snapshot :: nat
  mf_kind :: string
  mf_extent_count :: nat
  mf_byte_size :: nat
  mf_created_at :: int

record cat_extent = extent_row +
  ex_manifest :: nat

record index_row =
  ix_id :: nat
  ix_tenant :: nat
  ix_table :: nat
  ix_extent :: string
  ix_column :: string
  ix_kind :: string
  ix_object_path :: string
  ix_byte_size :: nat
  ix_params :: json
  ix_model :: "string option"
  ix_created_at :: int

record ledger_entry =
  le_table :: nat
  le_snapshot :: nat
  le_rows :: nat
  le_bytes :: nat
  le_applied_at :: int

record ledger_row =
  lr_tenant :: nat
  lr_key :: string
  lr_entry :: ledger_entry
  lr_expires_at :: "int option"

record catalog =
  cat_databases :: "db_row list"
  cat_tables :: "table_row list"
  cat_schemas :: "schema_row list"
  cat_snapshots :: "snap_row list"
  cat_manifests :: "manifest_row list"
  cat_extents :: "cat_extent list"
  cat_indexes :: "index_row list"
  cat_ledger :: "ledger_row list"

definition empty_catalog :: catalog where
  "empty_catalog = \<lparr>cat_databases = [], cat_tables = [], cat_schemas = [], cat_snapshots = [],
     cat_manifests = [], cat_extents = [], cat_indexes = [], cat_ledger = []\<rparr>"

abbreviation extent_of :: "cat_extent \<Rightarrow> string" where
  "extent_of e \<equiv> ext_id (row_manifest e)"

text \<open>An insert: \<open>clash\<close> says which rows break a uniqueness constraint with the new one.\<close>

definition insert_row :: "catalog_error \<Rightarrow> ('r \<Rightarrow> bool) \<Rightarrow> 'r \<Rightarrow> 'r list \<Rightarrow> catalog_error + 'r list" where
  "insert_row err clash r rows = (if list_ex clash rows then Inl err else Inr (rows @ [r]))"

definition unique_error :: catalog_error where
  "unique_error = SqlError ''UNIQUE constraint failed''"

section \<open>Databases and tables\<close>

definition create_database :: "nat \<Rightarrow> int \<Rightarrow> nat \<Rightarrow> string \<Rightarrow> catalog \<Rightarrow> (catalog_error + nat) \<times> catalog" where
  "create_database i now tenant name c =
     (case insert_row unique_error (\<lambda>d. db_id d = i \<or> (db_tenant d = tenant \<and> db_name d = name))
        \<lparr>db_id = i, db_tenant = tenant, db_name = name, db_created_at = now\<rparr> (cat_databases c) of
        Inl e \<Rightarrow> (Inl e, c)
      | Inr ds \<Rightarrow> (Inr i, c\<lparr>cat_databases := ds\<rparr>))"

definition lookup_database :: "nat \<Rightarrow> string \<Rightarrow> catalog \<Rightarrow> nat option" where
  "lookup_database tenant name c =
     map_option db_id (List.find (\<lambda>d. db_tenant d = tenant \<and> db_name d = name) (cat_databases c))"

definition bootstrap_summary :: json where
  "bootstrap_summary = JObject [(''operation'', JString ''bootstrap'')]"

text \<open>The transaction of \<open>create_table\<close>, with its three fresh identifiers.\<close>

definition create_table :: "(arrow_type \<Rightarrow> string) \<Rightarrow> nat \<times> nat \<times> nat \<Rightarrow> int \<Rightarrow> nat \<Rightarrow> nat \<Rightarrow> string
    \<Rightarrow> arrow_field list \<Rightarrow> json \<Rightarrow> catalog \<Rightarrow> (catalog_error + nat) \<times> catalog" where
  "create_table debug ids now tenant db name flds config c =
     (let (tid, schid, snid) = ids in
      case List.find (\<lambda>d. db_id d = db) (cat_databases c) of
        None \<Rightarrow> (Inl (SqlError ''database not found''), c)
      | Some d \<Rightarrow>
          if db_tenant d \<noteq> tenant then (Inl (SqlError ''database does not belong to tenant''), c)
          else
            (let r =
               bindE (insert_row unique_error
                   (\<lambda>t. t_id t = tid \<or> (t_tenant t = tenant \<and> t_database t = db \<and> t_name t = name))
                   \<lparr>t_id = tid, t_tenant = tenant, t_database = db, t_name = name, t_snapshot = None,
                    t_schema = None, t_config = config, t_created_at = now\<rparr> (cat_tables c)) (\<lambda>ts.
               bindE (insert_row unique_error (\<lambda>s. sch_id s = schid)
                   \<lparr>sch_id = schid, sch_tenant = tenant, sch_table = tid,
                    sch_arrow = schema_to_json debug flds, sch_created_at = now\<rparr> (cat_schemas c)) (\<lambda>ss.
               bindE (insert_row unique_error
                   (\<lambda>s. sn_id s = snid \<or> (sn_table s = tid \<and> sn_seq s = 0))
                   \<lparr>sn_id = snid, sn_tenant = tenant, sn_table = tid, sn_parent = None, sn_seq = 0,
                    sn_schema = schid, sn_summary = bootstrap_summary, sn_created_at = now\<rparr> (cat_snapshots c)) (\<lambda>sns.
               Inr (c\<lparr>cat_tables := map (\<lambda>t. if t_id t = tid
                        then t\<lparr>t_snapshot := Some snid, t_schema := Some schid\<rparr> else t) ts,
                      cat_schemas := ss, cat_snapshots := sns\<rparr>))))
             in case r of Inl e \<Rightarrow> (Inl e, c) | Inr c' \<Rightarrow> (Inr tid, c')))"

record table_ref =
  tr_id :: nat
  tr_database :: nat
  tr_name :: string
  tr_snapshot :: nat
  tr_schema_id :: nat
  tr_schema :: "arrow_field list"
  tr_config :: json

text \<open>The join of a table with its database, by tenant and names.\<close>

definition find_table :: "nat \<Rightarrow> string \<Rightarrow> string \<Rightarrow> catalog \<Rightarrow> table_row option" where
  "find_table tenant db name c =
     List.find (\<lambda>t. t_tenant t = tenant \<and> t_name t = name \<and>
       list_ex (\<lambda>d. db_id d = t_database t \<and> db_tenant d = tenant \<and> db_name d = db) (cat_databases c)) (cat_tables c)"

definition lookup_table :: "nat \<Rightarrow> string \<Rightarrow> string \<Rightarrow> catalog \<Rightarrow> catalog_error + table_ref" where
  "lookup_table tenant db name c =
     (case find_table tenant db name c of
        None \<Rightarrow> Inl (TableNotFound db name)
      | Some t \<Rightarrow>
          (case Option.bind (t_schema t) (\<lambda>sid. List.find (\<lambda>s. sch_id s = sid) (cat_schemas c)) of
             None \<Rightarrow> Inl (SqlError ''arrow_schema is null'')
           | Some s \<Rightarrow>
               bindE (json_to_schema (sch_arrow s)) (\<lambda>fields.
                 case t_snapshot t of
                   None \<Rightarrow> Inl (SqlError ''table has no current snapshot (bootstrap row)'')
                 | Some sn \<Rightarrow> Inr \<lparr>tr_id = t_id t, tr_database = t_database t, tr_name = name,
                     tr_snapshot = sn, tr_schema_id = sch_id s, tr_schema = fields, tr_config = t_config t\<rparr>)))"

definition drop_table :: "nat \<Rightarrow> string \<Rightarrow> string \<Rightarrow> catalog \<Rightarrow> bool \<times> catalog" where
  "drop_table tenant db name c =
     (case find_table tenant db name c of
        None \<Rightarrow> (False, c)
      | Some t \<Rightarrow>
          (let i = t_id t; dead = map sn_id (filter (\<lambda>s. sn_table s = i) (cat_snapshots c)) in
           (True, c\<lparr>cat_extents := filter (\<lambda>e. ext_table_id (row_manifest e) \<noteq> i) (cat_extents c),
                    cat_manifests := filter (\<lambda>m. mf_snapshot m \<notin> set dead) (cat_manifests c),
                    cat_snapshots := filter (\<lambda>s. sn_table s \<noteq> i) (cat_snapshots c),
                    cat_schemas := filter (\<lambda>s. sch_table s \<noteq> i) (cat_schemas c),
                    cat_tables := filter (\<lambda>t. t_id t \<noteq> i) (cat_tables c)\<rparr>)))"

text \<open>\<open>get_mut("fields")\<close> followed by a push.\<close>

fun json_push_field :: "json \<Rightarrow> json \<Rightarrow> json option" where
  "json_push_field (JObject kvs) f =
     (case map_of kvs ''fields'' of
        Some (JArray fs) \<Rightarrow> Some (JObject (json_insert ''fields'' (JArray (fs @ [f])) kvs))
      | _ \<Rightarrow> None)"
| "json_push_field _ f = None"

definition has_column :: "string \<Rightarrow> json \<Rightarrow> bool" where
  "has_column name j =
     (case Option.bind (json_get j ''fields'') json_as_array of
        None \<Rightarrow> False
      | Some fs \<Rightarrow> list_ex (\<lambda>f. Option.bind (json_get f ''name'') json_as_str = Some name) fs)"

definition alter_table_add_column :: "nat \<Rightarrow> int \<Rightarrow> nat \<Rightarrow> string \<Rightarrow> string \<Rightarrow> catalog
    \<Rightarrow> (catalog_error + nat) \<times> catalog" where
  "alter_table_add_column i now tid name ty c =
     (case string_to_arrow_type ty of
        Inl e \<Rightarrow> (Inl e, c)
      | Inr _ \<Rightarrow>
          (case List.find (\<lambda>t. t_id t = tid) (cat_tables c) of
             None \<Rightarrow> (Inl (SqlError ''table not found''), c)
           | Some t \<Rightarrow>
               (case Option.bind (t_schema t) (\<lambda>sid. List.find (\<lambda>s. sch_id s = sid) (cat_schemas c)) of
                  None \<Rightarrow> (Inl (SqlError ''table not found''), c)
                | Some s \<Rightarrow>
                    if has_column name (sch_arrow s) then (Inl (SqlError ''column already exists''), c)
                    else (case json_push_field (sch_arrow s) (JObject [(''name'', JString name),
                            (''type'', JString ty), (''nullable'', JBool True)]) of
                        None \<Rightarrow> (Inl (SqlError ''existing schema has no fields array''), c)
                      | Some j \<Rightarrow>
                          (case insert_row unique_error (\<lambda>s. sch_id s = i)
                              \<lparr>sch_id = i, sch_tenant = t_tenant t, sch_table = tid, sch_arrow = j, sch_created_at = now\<rparr>
                              (cat_schemas c) of
                             Inl e \<Rightarrow> (Inl e, c)
                           | Inr ss \<Rightarrow>
                               (let hit = (\<lambda>t'. t_id t' = tid \<and> t_schema t' = Some (sch_id s)) in
                                if length (filter hit (cat_tables c)) \<noteq> 1 then (Inl Conflict, c)
                                else (Inr i, c\<lparr>cat_schemas := ss,
                                  cat_tables := map (\<lambda>t'. if hit t' then t'\<lparr>t_schema := Some i\<rparr> else t') (cat_tables c)\<rparr>)))))))"

section \<open>Snapshot transactions\<close>

record snapshot_txn =
  tx_tenant :: nat
  tx_table :: nat
  tx_parent :: nat
  tx_schema :: nat
  tx_added :: "extent_manifest list"
  tx_removed :: "string list"

record snapshot_summary =
  su_operation :: string
  su_rows_added :: int
  su_rows_removed :: int
  su_bytes_added :: int
  su_bytes_removed :: int

definition begin_snapshot :: "nat \<Rightarrow> nat \<Rightarrow> catalog \<Rightarrow> catalog_error + snapshot_txn" where
  "begin_snapshot tenant tid c =
     (case List.find (\<lambda>t. t_tenant t = tenant \<and> t_id t = tid) (cat_tables c) of
        None \<Rightarrow> Inl (SqlError ''table not found for begin_snapshot'')
      | Some t \<Rightarrow>
          (case t_snapshot t of
             None \<Rightarrow> Inl (SqlError ''table has no current_snapshot_id'')
           | Some sn \<Rightarrow>
               (case t_schema t of
                  None \<Rightarrow> Inl (SqlError ''table has no schema_snapshot_id'')
                | Some sch \<Rightarrow> Inr \<lparr>tx_tenant = tenant, tx_table = tid, tx_parent = sn, tx_schema = sch,
                    tx_added = [], tx_removed = []\<rparr>)))"

definition add_extent :: "extent_manifest \<Rightarrow> snapshot_txn \<Rightarrow> snapshot_txn" where
  "add_extent m tx = tx\<lparr>tx_added := tx_added tx @ [m]\<rparr>"

definition remove_extents :: "string list \<Rightarrow> snapshot_txn \<Rightarrow> snapshot_txn" where
  "remove_extents ids tx = tx\<lparr>tx_removed := tx_removed tx @ ids\<rparr>"

definition summary_json :: "snapshot_summary \<Rightarrow> json" where
  "summary_json su = JObject [(''operation'', JString (su_operation su)), (''rows_added'', JInt (su_rows_added su)),
     (''rows_removed'', JInt (su_rows_removed su)), (''bytes_added'', JInt (su_bytes_added su)),
     (''bytes_removed'', JInt (su_bytes_removed su))]"

text \<open>The loop that inserts the added extents.\<close>

fun insert_extents :: "nat \<Rightarrow> nat \<Rightarrow> extent_manifest list \<Rightarrow> cat_extent list \<Rightarrow> catalog_error + cat_extent list" where
  "insert_extents tenant mid [] rows = Inr rows"
| "insert_extents tenant mid (m # ms) rows =
     bindE (insert_row unique_error (\<lambda>e. extent_of e = ext_id m)
        \<lparr>row_tenant = tenant, row_manifest = m, deleted_at = None, ex_manifest = mid\<rparr> rows)
       (insert_extents tenant mid ms)"

definition soft_delete :: "nat \<Rightarrow> int \<Rightarrow> string list \<Rightarrow> cat_extent list \<Rightarrow> cat_extent list" where
  "soft_delete tenant now ids rows =
     (if ids = [] then rows
      else map (\<lambda>e. if row_tenant e = tenant \<and> deleted_at e = None \<and> extent_of e \<in> set ids
                    then e\<lparr>deleted_at := Some now\<rparr> else e) rows)"

definition cas_hit :: "snapshot_txn \<Rightarrow> table_row \<Rightarrow> bool" where
  "cas_hit tx t \<longleftrightarrow> t_tenant t = tx_tenant tx \<and> t_id t = tx_table tx \<and> t_snapshot t = Some (tx_parent tx)"

definition commit :: "nat \<Rightarrow> nat \<Rightarrow> int \<Rightarrow> snapshot_summary \<Rightarrow> snapshot_txn \<Rightarrow> catalog
    \<Rightarrow> (catalog_error + nat) \<times> catalog" where
  "commit snid mid now su tx c =
     (case List.find (\<lambda>s. sn_id s = tx_parent tx) (cat_snapshots c) of
        None \<Rightarrow> (Inl (SqlError ''parent snapshot not found''), c)
      | Some p \<Rightarrow>
          (let new_seq = sn_seq p + 1;
               r =
                 bindE (insert_row Conflict (\<lambda>s. sn_id s = snid \<or> (sn_table s = tx_table tx \<and> sn_seq s = new_seq))
                     \<lparr>sn_id = snid, sn_tenant = tx_tenant tx, sn_table = tx_table tx, sn_parent = Some (tx_parent tx),
                      sn_seq = new_seq, sn_schema = tx_schema tx, sn_summary = summary_json su, sn_created_at = now\<rparr>
                     (cat_snapshots c)) (\<lambda>sns.
                 bindE (insert_row unique_error (\<lambda>m. mf_id m = mid)
                     \<lparr>mf_id = mid, mf_tenant = tx_tenant tx, mf_snapshot = snid, mf_kind = ''data'', mf_extent_count = length (tx_added tx),
                      mf_byte_size = sum_list (map byte_size (tx_added tx)), mf_created_at = now\<rparr>
                     (cat_manifests c)) (\<lambda>ms.
                 bindE (insert_extents (tx_tenant tx) mid (tx_added tx) (cat_extents c)) (\<lambda>es.
                 if length (filter (cas_hit tx) (cat_tables c)) \<noteq> 1 then Inl Conflict
                 else Inr (c\<lparr>cat_snapshots := sns, cat_manifests := ms,
                        cat_extents := soft_delete (tx_tenant tx) now (tx_removed tx) es,
                        cat_tables := map (\<lambda>t. if cas_hit tx t then t\<lparr>t_snapshot := Some snid\<rparr> else t) (cat_tables c)\<rparr>))))
           in case r of Inl e \<Rightarrow> (Inl e, c) | Inr c' \<Rightarrow> (Inr snid, c')))"

section \<open>Deletion\<close>

definition before_cut :: "int \<Rightarrow> cat_extent \<Rightarrow> bool" where
  "before_cut before e \<longleftrightarrow> (case deleted_at e of None \<Rightarrow> False | Some t \<Rightarrow> t < before)"

definition gc_candidates :: "int \<Rightarrow> catalog \<Rightarrow> string list" where
  "gc_candidates before c = map extent_of (filter (before_cut before) (cat_extents c))"

definition delete_extent_rows :: "string list \<Rightarrow> catalog \<Rightarrow> catalog" where
  "delete_extent_rows ids c =
     (if ids = [] then c
      else c\<lparr>cat_indexes := filter (\<lambda>x. ix_extent x \<notin> set ids) (cat_indexes c),
             cat_extents := filter (\<lambda>e. extent_of e \<notin> set ids) (cat_extents c)\<rparr>)"

definition cleanup_soft_deleted :: "nat \<Rightarrow> string \<Rightarrow> string \<Rightarrow> int \<Rightarrow> catalog \<Rightarrow> (nat \<times> nat \<times> nat) \<times> catalog" where
  "cleanup_soft_deleted tenant db name before c =
     (case find_table tenant db name c of
        None \<Rightarrow> ((0, 0, 0), c)
      | Some t \<Rightarrow>
          (let dead = (\<lambda>e. row_tenant e = tenant \<and> ext_table_id (row_manifest e) = t_id t \<and> before_cut before e);
               xs = filter dead (cat_extents c) in
           ((length xs, sum_list (map (\<lambda>e. ext_row_count (row_manifest e)) xs),
             sum_list (map (\<lambda>e. byte_size (row_manifest e)) xs)),
            c\<lparr>cat_indexes := filter (\<lambda>x. ix_extent x \<notin> set (map extent_of xs)) (cat_indexes c),
              cat_extents := filter (\<lambda>e. \<not> dead e) (cat_extents c)\<rparr>)))"

section \<open>The idempotency ledger\<close>

definition ledger_hit :: "nat \<Rightarrow> string \<Rightarrow> ledger_row \<Rightarrow> bool" where
  "ledger_hit tenant key r \<longleftrightarrow> lr_tenant r = tenant \<and> lr_key r = key"

definition lookup_idempotency :: "nat \<Rightarrow> string \<Rightarrow> int \<Rightarrow> catalog \<Rightarrow> ledger_entry option" where
  "lookup_idempotency tenant key now c =
     map_option lr_entry (List.find (\<lambda>r. ledger_hit tenant key r \<and>
       (case lr_expires_at r of None \<Rightarrow> True | Some t \<Rightarrow> t > now)) (cat_ledger c))"

definition record_idempotency :: "nat \<Rightarrow> string \<Rightarrow> ledger_entry \<Rightarrow> int \<Rightarrow> catalog \<Rightarrow> ledger_entry option \<times> catalog" where
  "record_idempotency tenant key entry ttl c =
     (if list_ex (ledger_hit tenant key) (cat_ledger c) then (None, c)
      else (Some entry, c\<lparr>cat_ledger := cat_ledger c @ [\<lparr>lr_tenant = tenant, lr_key = key, lr_entry = entry,
              lr_expires_at = Some (le_applied_at entry + ttl)\<rparr>]\<rparr>))"

end
