(* ===== verification/Catalog_Snapshots.thy ===== *)
theory Catalog_Snapshots
  imports Catalog_State
begin

text \<open>
  What the snapshot transactions of the catalog guarantee: the history of every table is a chain of
  snapshots with consecutive sequence numbers that ends in the table's current one, a commit applies
  its additions and removals atomically or not at all.
\<close>

section \<open>What a commit does\<close>

definition live :: "nat \<Rightarrow> nat \<Rightarrow> catalog \<Rightarrow> string set" where
  "live tenant tid c = extent_of ` {e \<in> set (cat_extents c).
     row_tenant e = tenant \<and> ext_table_id (row_manifest e) = tid \<and> deleted_at e = None}"

lemma insert_row_Inr:
  "insert_row err clash r rows = Inr rows' \<longleftrightarrow> (\<forall>x \<in> set rows. \<not> clash x) \<and> rows' = rows @ [r]"
  by (auto simp: insert_row_def list_ex_iff)

lemma insert_extents_Inr:
  "insert_extents tenant mid ms rows = Inr rows' \<Longrightarrow>
     rows' = rows @ map (\<lambda>m. \<lparr>row_tenant = tenant, row_manifest = m, deleted_at = None, ex_manifest = mid\<rparr>) ms \<and>
     (distinct (map extent_of rows) \<longrightarrow> distinct (map extent_of rows'))"
proof (induction ms arbitrary: rows)
  case (Cons m ms)
  let ?e = "\<lparr>row_tenant = tenant, row_manifest = m, deleted_at = None, ex_manifest = mid\<rparr>"
  from Cons.prems have n: "\<forall>x \<in> set rows. extent_of x \<noteq> ext_id m"
    and i: "insert_extents tenant mid ms (rows @ [?e]) = Inr rows'"
    by (auto simp: bindE_Inr_iff insert_row_Inr)
  from n have "distinct (map extent_of rows) \<Longrightarrow> distinct (map extent_of (rows @ [?e]))" by (auto simp: image_iff)
  with Cons.IH [OF i] show ?case by (simp only: append_assoc append_Cons append_Nil list.map simp_thms) blast
qed simp

text \<open>The catalog after a successful commit; \<open>p\<close> is the parent's row.\<close>

definition committed :: "nat \<Rightarrow> nat \<Rightarrow> int \<Rightarrow> snapshot_summary \<Rightarrow> snapshot_txn \<Rightarrow> snap_row \<Rightarrow> manifest_row list
    \<Rightarrow> catalog \<Rightarrow> catalog" where
  "committed snid mid now su tx p ms c =
     c\<lparr>cat_snapshots := cat_snapshots c @ [\<lparr>sn_id = snid, sn_tenant = tx_tenant tx, sn_table = tx_table tx,
         sn_parent = Some (tx_parent tx), sn_seq = sn_seq p + 1, sn_schema = tx_schema tx,
         sn_summary = summary_json su, sn_created_at = now\<rparr>],
       cat_manifests := ms,
       cat_extents := soft_delete (tx_tenant tx) now (tx_removed tx) (cat_extents c @
         map (\<lambda>m. \<lparr>row_tenant = tx_tenant tx, row_manifest = m, deleted_at = None, ex_manifest = mid\<rparr>) (tx_added tx)),
       cat_tables := map (\<lambda>t. if cas_hit tx t then t\<lparr>t_snapshot := Some snid\<rparr> else t) (cat_tables c)\<rparr>"

lemma extent_of_soft_delete [simp]: "map extent_of (soft_delete T now R xs) = map extent_of xs"
  by (simp add: soft_delete_def)

text \<open>The facts of a successful commit.\<close>

lemma commitE:
  assumes "commit snid mid now su tx c = (Inr i, c')"
  obtains p ms where "i = snid" "List.find (\<lambda>s. sn_id s = tx_parent tx) (cat_snapshots c) = Some p"
    "\<forall>s \<in> set (cat_snapshots c). sn_id s \<noteq> snid \<and> \<not> (sn_table s = tx_table tx \<and> sn_seq s = sn_seq p + 1)"
    "length (filter (cas_hit tx) (cat_tables c)) = 1"
    "c' = committed snid mid now su tx p ms c"
    "distinct (map extent_of (cat_extents c)) \<longrightarrow> distinct (map extent_of (cat_extents c'))"
proof -
  from assms obtain p where p: "List.find (\<lambda>s. sn_id s = tx_parent tx) (cat_snapshots c) = Some p"
    by (auto simp: commit_def split: option.splits)
  from assms p obtain es ms where e: "insert_extents (tx_tenant tx) mid (tx_added tx) (cat_extents c) = Inr es"
    and rest: "i = snid" "\<forall>s \<in> set (cat_snapshots c). sn_id s \<noteq> snid \<and> \<not> (sn_table s = tx_table tx \<and> sn_seq s = sn_seq p + 1)"
      "length (filter (cas_hit tx) (cat_tables c)) = 1"
    and c': "c' = c\<lparr>cat_snapshots := cat_snapshots c @ [\<lparr>sn_id = snid, sn_tenant = tx_tenant tx, sn_table = tx_table tx,
              sn_parent = Some (tx_parent tx), sn_seq = sn_seq p + 1, sn_schema = tx_schema tx,
              sn_summary = summary_json su, sn_created_at = now\<rparr>],
            cat_manifests := ms, cat_extents := soft_delete (tx_tenant tx) now (tx_removed tx) es,
            cat_tables := map (\<lambda>t. if cas_hit tx t then t\<lparr>t_snapshot := Some snid\<rparr> else t) (cat_tables c)\<rparr>"
    by (auto simp: commit_def Let_def bindE_Inr_iff insert_row_Inr split: sum.splits if_splits)
  note es = insert_extents_Inr [OF e]
  have "c' = committed snid mid now su tx p ms c" using c' es by (simp add: committed_def)
  moreover have "map extent_of (cat_extents c') = map extent_of es" by (simp add: c')
  ultimately show thesis using that [OF rest(1) p rest(2,3)] es by metis
qed

lemma commit_Inl: "commit snid mid now su tx c = (Inl e, c') \<Longrightarrow> c' = c"
  by (auto simp: commit_def Let_def split: option.splits sum.splits)

lemma live_soft_delete:
  "{e \<in> set (soft_delete T now R xs). row_tenant e = T \<and> ext_table_id (row_manifest e) = tid \<and> deleted_at e = None} =
   {e \<in> set xs. row_tenant e = T \<and> ext_table_id (row_manifest e) = tid \<and> deleted_at e = None \<and> extent_of e \<notin> set R}"
  (is "{e \<in> _. ?Q e} = _")
proof -
  let ?f = "\<lambda>e. if row_tenant e = T \<and> deleted_at e = None \<and> extent_of e \<in> set R then e\<lparr>deleted_at := Some now\<rparr> else e"
  have s: "set (soft_delete T now R xs) = ?f ` set xs" by (simp add: soft_delete_def)
  have q: "?Q (?f e) \<longleftrightarrow> ?Q e \<and> extent_of e \<notin> set R" for e by auto
  have i: "?Q e \<Longrightarrow> extent_of e \<notin> set R \<Longrightarrow> ?f e = e" for e by simp
  show ?thesis
  proof (intro set_eqI iffI)
    fix x assume "x \<in> {e \<in> set (soft_delete T now R xs). ?Q e}"
    then obtain e where e: "e \<in> set xs" "x = ?f e" "?Q (?f e)" unfolding s by blast
    have Q: "?Q e" "extent_of e \<notin> set R" using e(3) unfolding q by simp_all
    have "x = e" unfolding e(2) by (rule i [OF Q])
    with e(1) Q show "x \<in> {e \<in> set xs. row_tenant e = T \<and> ext_table_id (row_manifest e) = tid \<and>
        deleted_at e = None \<and> extent_of e \<notin> set R}" by simp
  next
    fix x assume "x \<in> {e \<in> set xs. row_tenant e = T \<and> ext_table_id (row_manifest e) = tid \<and>
        deleted_at e = None \<and> extent_of e \<notin> set R}"
    with i [of x] show "x \<in> {e \<in> set (soft_delete T now R xs). ?Q e}" unfolding s by (auto simp: image_iff)
  qed
qed

lemma commit_live:
  assumes "commit snid mid now su tx c = (Inr i, c')"
  shows "live (tx_tenant tx) tid c' =
    (live (tx_tenant tx) tid c \<union> ext_id ` {m \<in> set (tx_added tx). ext_table_id m = tid}) - set (tx_removed tx)"
proof -
  from assms have c': "cat_extents c' = soft_delete (tx_tenant tx) now (tx_removed tx) (cat_extents c @
              map (\<lambda>m. \<lparr>row_tenant = tx_tenant tx, row_manifest = m, deleted_at = None, ex_manifest = mid\<rparr>) (tx_added tx))"
    by (rule commitE) (simp add: committed_def)
  show ?thesis
    unfolding live_def c' live_soft_delete by (fastforce simp: image_iff)
qed

section \<open>The catalog's invariant\<close>

text \<open>The current snapshot of a table: it exists, belongs to it, and no snapshot of the table is newer.\<close>

definition current_ok :: "catalog \<Rightarrow> table_row \<Rightarrow> bool" where
  "current_ok c t \<longleftrightarrow> (\<exists>s \<in> set (cat_snapshots c). t_snapshot t = Some (sn_id s) \<and> sn_table s = t_id t \<and>
     (\<forall>s' \<in> set (cat_snapshots c). sn_table s' = t_id t \<longrightarrow> sn_seq s' \<le> sn_seq s))"

definition schema_ok :: "catalog \<Rightarrow> table_row \<Rightarrow> bool" where
  "schema_ok c t \<longleftrightarrow> (\<exists>s \<in> set (cat_schemas c). t_schema t = Some (sch_id s) \<and> sch_table s = t_id t)"

text \<open>A snapshot is the first of its table or follows its parent in the same table.\<close>

definition lineage_ok :: "catalog \<Rightarrow> snap_row \<Rightarrow> bool" where
  "lineage_ok c s \<longleftrightarrow> (case sn_parent s of
       None \<Rightarrow> sn_seq s = 0
     | Some p \<Rightarrow> \<exists>s' \<in> set (cat_snapshots c). sn_id s' = p \<and> sn_table s' = sn_table s \<and> sn_seq s' + 1 = sn_seq s)"

definition cat_inv :: "catalog \<Rightarrow> bool" where
  "cat_inv c \<longleftrightarrow>
     distinct (map t_id (cat_tables c)) \<and> distinct (map sch_id (cat_schemas c)) \<and>
     distinct (map sn_id (cat_snapshots c)) \<and>
     distinct (map (\<lambda>s. (sn_table s, sn_seq s)) (cat_snapshots c)) \<and>
     distinct (map extent_of (cat_extents c)) \<and>
     (\<forall>t \<in> set (cat_tables c). current_ok c t \<and> schema_ok c t) \<and>
     (\<forall>s \<in> set (cat_snapshots c). lineage_ok c s)"

inductive cat_step :: "catalog \<Rightarrow> catalog \<Rightarrow> bool" where
  create_db: "create_database i now tenant name c = (r, c') \<Longrightarrow> cat_step c c'"
| create_tbl: "\<forall>s \<in> set (cat_snapshots c). sn_table s \<noteq> fst ids \<Longrightarrow>
    create_table debug ids now tenant db name flds config c = (r, c') \<Longrightarrow> cat_step c c'"
| drop_tbl: "drop_table tenant db name c = (b, c') \<Longrightarrow> cat_step c c'"
| add_col: "alter_table_add_column i now tid name ty c = (r, c') \<Longrightarrow> cat_step c c'"
| commit_tx: "commit snid mid now su tx c = (r, c') \<Longrightarrow> cat_step c c'"
| delete_rows: "cat_step c (delete_extent_rows ids' c)"
| cleanup: "cleanup_soft_deleted tenant db name before c = (n, c') \<Longrightarrow> cat_step c c'"
| record_key: "record_idempotency tenant key entry ttl c = (e, c') \<Longrightarrow> cat_step c c'"

inductive cat_reachable :: "catalog \<Rightarrow> bool" where
  empty: "cat_reachable empty_catalog"
| step: "cat_reachable c \<Longrightarrow> cat_step c c' \<Longrightarrow> cat_reachable c'"

lemma cat_inv_same:
  assumes "cat_inv c" and "cat_tables c' = cat_tables c" "cat_schemas c' = cat_schemas c"
    "cat_snapshots c' = cat_snapshots c" "distinct (map extent_of (cat_extents c'))"
  shows "cat_inv c'"
proof -
  have "current_ok c' = current_ok c" "schema_ok c' = schema_ok c" "lineage_ok c' = lineage_ok c"
    using assms(2-4) by (simp_all add: current_ok_def schema_ok_def lineage_ok_def fun_eq_iff split: option.split)
  with assms show ?thesis by (simp add: cat_inv_def)
qed

lemma distinct_key: "distinct (map f xs) \<Longrightarrow> x \<in> set xs \<Longrightarrow> y \<in> set xs \<Longrightarrow> f x = f y \<Longrightarrow> x = y"
  by (meson distinct_map inj_onD)

lemma cat_invD:
  assumes "cat_inv c"
  shows "distinct (map t_id (cat_tables c))" "distinct (map sn_id (cat_snapshots c))"
    "\<And>t. t \<in> set (cat_tables c) \<Longrightarrow> current_ok c t" "\<And>t. t \<in> set (cat_tables c) \<Longrightarrow> schema_ok c t"
    "\<And>s. s \<in> set (cat_snapshots c) \<Longrightarrow> lineage_ok c s"
  using assms by (simp_all add: cat_inv_def)

text \<open>The table a compare-and-swap hits, and the parent's row.\<close>

lemma cas_table:
  assumes inv: "cat_inv c" and one: "length (filter (cas_hit tx) (cat_tables c)) = 1"
    and p: "List.find (\<lambda>s. sn_id s = tx_parent tx) (cat_snapshots c) = Some p"
  shows "sn_table p = tx_table tx" "sn_id p = tx_parent tx" "p \<in> set (cat_snapshots c)"
    "\<forall>s \<in> set (cat_snapshots c). sn_table s = tx_table tx \<longrightarrow> sn_seq s \<le> sn_seq p"
    "\<And>t. t \<in> set (cat_tables c) \<Longrightarrow> t_id t = tx_table tx \<Longrightarrow> cas_hit tx t"
proof -
  from one obtain t0 where "filter (cas_hit tx) (cat_tables c) = [t0]" by (auto simp: length_Suc_conv)
  then have "t0 \<in> set (filter (cas_hit tx) (cat_tables c))" by simp
  then have t0: "t0 \<in> set (cat_tables c)" "cas_hit tx t0" by simp_all
  with inv obtain s where s: "s \<in> set (cat_snapshots c)" "t_snapshot t0 = Some (sn_id s)" "sn_table s = t_id t0"
    "\<forall>s' \<in> set (cat_snapshots c). sn_table s' = t_id t0 \<longrightarrow> sn_seq s' \<le> sn_seq s"
    by (auto simp: cat_inv_def current_ok_def)
  from p have pp: "p \<in> set (cat_snapshots c)" "sn_id p = tx_parent tx" by (auto simp: find_Some_iff)
  have "sn_id s = tx_parent tx" "t_id t0 = tx_table tx" using s(2) t0(2) by (simp_all add: cas_hit_def)
  moreover have "p = s"
    using distinct_key [OF cat_invD(2) [OF inv] pp(1) s(1)] pp(2) \<open>sn_id s = tx_parent tx\<close> by simp
  ultimately show "sn_table p = tx_table tx" "sn_id p = tx_parent tx" "p \<in> set (cat_snapshots c)"
    "\<forall>s \<in> set (cat_snapshots c). sn_table s = tx_table tx \<longrightarrow> sn_seq s \<le> sn_seq p"
    using pp s by simp_all
  fix t assume "t \<in> set (cat_tables c)" "t_id t = tx_table tx"
  then have "t = t0"
    using distinct_key [OF cat_invD(1) [OF inv] _ t0(1)] \<open>t_id t0 = tx_table tx\<close> by simp
  with t0 show "cas_hit tx t" by simp
qed

lemma cat_inv_commit:
  assumes inv: "cat_inv c" and r: "commit snid mid now su tx c = (Inr i, c')"
  shows "cat_inv c'"
proof -
  from r obtain p ms where p: "List.find (\<lambda>s. sn_id s = tx_parent tx) (cat_snapshots c) = Some p"
    and fresh: "\<forall>s \<in> set (cat_snapshots c). sn_id s \<noteq> snid \<and> \<not> (sn_table s = tx_table tx \<and> sn_seq s = sn_seq p + 1)"
    and one: "length (filter (cas_hit tx) (cat_tables c)) = 1"
    and c': "c' = committed snid mid now su tx p ms c"
    and d: "distinct (map extent_of (cat_extents c)) \<longrightarrow> distinct (map extent_of (cat_extents c'))" by (rule commitE)
  note cas = cas_table [OF inv one p]
  let ?s = "\<lparr>sn_id = snid, sn_tenant = tx_tenant tx, sn_table = tx_table tx, sn_parent = Some (tx_parent tx),
      sn_seq = sn_seq p + 1, sn_schema = tx_schema tx, sn_summary = summary_json su, sn_created_at = now\<rparr>"
  let ?u = "\<lambda>t. if cas_hit tx t then t\<lparr>t_snapshot := Some snid\<rparr> else t"
  have sn: "cat_snapshots c' = cat_snapshots c @ [?s]" and tb: "cat_tables c' = map ?u (cat_tables c)"
    and sc: "cat_schemas c' = cat_schemas c" by (simp_all add: c' committed_def)
  have ids: "map t_id (cat_tables c') = map t_id (cat_tables c)" by (simp add: tb)
  have "current_ok c' (?u t) \<and> schema_ok c' (?u t)" if t: "t \<in> set (cat_tables c)" for t
  proof -
    from inv t have "current_ok c t" "schema_ok c t" by (simp_all add: cat_inv_def)
    moreover have "current_ok c' (?u t)" if "current_ok c t"
    proof (cases "cas_hit tx t")
      case True
      then have "t_id t = tx_table tx" by (simp add: cas_hit_def)
      with True cas(4) show ?thesis by (auto simp: current_ok_def sn)
    next
      case False
      then have "t_id t \<noteq> tx_table tx" using cas(5) t by blast
      with False that show ?thesis by (auto simp: current_ok_def sn)
    qed
    ultimately show ?thesis by (auto simp: schema_ok_def sc)
  qed
  then have "\<forall>t \<in> set (cat_tables c'). current_ok c' t \<and> schema_ok c' t"
    unfolding tb set_map by blast
  moreover have "lineage_ok c' s" if "s \<in> set (cat_snapshots c')" for s
    using inv that cas(1-3) by (auto simp: sn cat_inv_def lineage_ok_def split: option.splits)
  ultimately show ?thesis
    using inv fresh d ids by (auto simp: cat_inv_def sn sc)
qed

lemma cat_inv_create_table:
  assumes inv: "cat_inv c" and fresh: "\<forall>s \<in> set (cat_snapshots c). sn_table s \<noteq> fst ids"
    and r: "create_table debug ids now tenant db name flds config c = (res, c')"
  shows "cat_inv c'"
proof (cases res)
  case (Inl e)
  with r have "c' = c"
    by (auto simp: create_table_def Let_def split: prod.splits option.splits if_splits sum.splits)
  with inv show ?thesis by simp
next
  case (Inr i)
  obtain tid schid snid where ids: "ids = (tid, schid, snid)" by (cases ids) auto
  let ?t = "\<lparr>t_id = tid, t_tenant = tenant, t_database = db, t_name = name, t_snapshot = Some snid,
      t_schema = Some schid, t_config = config, t_created_at = now\<rparr>"
  let ?sc = "\<lparr>sch_id = schid, sch_tenant = tenant, sch_table = tid, sch_arrow = schema_to_json debug flds, sch_created_at = now\<rparr>"
  let ?sn = "\<lparr>sn_id = snid, sn_tenant = tenant, sn_table = tid, sn_parent = None, sn_seq = 0, sn_schema = schid,
      sn_summary = bootstrap_summary, sn_created_at = now\<rparr>"
  let ?u = "\<lambda>t. if t_id t = tid then t\<lparr>t_snapshot := Some snid, t_schema := Some schid\<rparr> else t"
  from r Inr have f: "\<forall>t \<in> set (cat_tables c). t_id t \<noteq> tid" "\<forall>s \<in> set (cat_schemas c). sch_id s \<noteq> schid"
      "\<forall>s \<in> set (cat_snapshots c). sn_id s \<noteq> snid"
    and c': "c' = c\<lparr>cat_tables := map ?u (cat_tables c @ [?t\<lparr>t_snapshot := None, t_schema := None\<rparr>]),
        cat_schemas := cat_schemas c @ [?sc], cat_snapshots := cat_snapshots c @ [?sn]\<rparr>"
    unfolding ids
    by (auto simp: create_table_def Let_def bindE_Inr_iff insert_row_Inr split: option.splits if_splits sum.splits)
  have "map ?u (cat_tables c) = cat_tables c" using f(1) by (intro map_idI) simp
  then have tb: "cat_tables c' = cat_tables c @ [?t]" by (simp add: c')
  have sn: "cat_snapshots c' = cat_snapshots c @ [?sn]" and sc: "cat_schemas c' = cat_schemas c @ [?sc]"
    and ex: "cat_extents c' = cat_extents c" by (simp_all add: c')
  have new: "sn_table s \<noteq> tid" if "s \<in> set (cat_snapshots c)" for s using fresh that by (simp add: ids)
  have "current_ok c' t" if "t \<in> set (cat_tables c)" for t
  proof -
    from inv that have "current_ok c t" "t_id t \<noteq> tid" using f(1) by (auto simp: cat_inv_def)
    then show ?thesis by (auto simp: current_ok_def sn)
  qed
  moreover have "current_ok c' ?t" using new by (auto simp: current_ok_def sn)
  moreover have "schema_ok c' t" if "t = ?t \<or> t \<in> set (cat_tables c)" for t
    using inv that by (auto simp: schema_ok_def sc cat_inv_def)
  moreover have "lineage_ok c' s" if "s \<in> set (cat_snapshots c')" for s
    using inv that by (auto simp: sn cat_inv_def lineage_ok_def split: option.splits)
  moreover have "distinct (map (\<lambda>s. (sn_table s, sn_seq s)) (cat_snapshots c'))"
    using inv new by (auto simp: cat_inv_def sn)
  ultimately show ?thesis
    using inv f unfolding cat_inv_def tb sc sn ex by (auto simp: image_iff)
qed

lemma cat_inv_drop_table:
  assumes inv: "cat_inv c" and r: "drop_table tenant db name c = (b, c')"
  shows "cat_inv c'"
proof (cases "find_table tenant db name c")
  case None
  with r inv show ?thesis by (simp add: drop_table_def)
next
  case (Some t0)
  let ?i = "t_id t0"
  have tb: "cat_tables c' = filter (\<lambda>t. t_id t \<noteq> ?i) (cat_tables c)"
    and sn: "cat_snapshots c' = filter (\<lambda>s. sn_table s \<noteq> ?i) (cat_snapshots c)"
    and sc: "cat_schemas c' = filter (\<lambda>s. sch_table s \<noteq> ?i) (cat_schemas c)"
    and ex: "cat_extents c' = filter (\<lambda>e. ext_table_id (row_manifest e) \<noteq> ?i) (cat_extents c)"
    using r Some by (auto simp: drop_table_def Let_def)
  have "current_ok c' t \<and> schema_ok c' t" if "t \<in> set (cat_tables c')" for t
  proof -
    from that have t: "t \<in> set (cat_tables c)" "t_id t \<noteq> ?i" by (simp_all add: tb)
    from cat_invD(3) [OF inv t(1)] cat_invD(4) [OF inv t(1)] t(2) show ?thesis
      unfolding current_ok_def schema_ok_def sn sc by auto
  qed
  moreover have "lineage_ok c' s" if "s \<in> set (cat_snapshots c')" for s
  proof -
    from that have s: "s \<in> set (cat_snapshots c)" "sn_table s \<noteq> ?i" by (simp_all add: sn)
    show ?thesis
    proof (cases "sn_parent s")
      case None
      with cat_invD(5) [OF inv s(1)] show ?thesis by (simp add: lineage_ok_def)
    next
      case (Some p)
      with cat_invD(5) [OF inv s(1)] obtain s' where "s' \<in> set (cat_snapshots c)" "sn_id s' = p"
        "sn_table s' = sn_table s" "sn_seq s' + 1 = sn_seq s" by (auto simp: lineage_ok_def)
      with Some s(2) show ?thesis by (auto simp: lineage_ok_def sn)
    qed
  qed
  ultimately show ?thesis
    using inv by (auto simp: cat_inv_def tb sn sc ex distinct_map_filter)
qed

text \<open>An \<open>alter_table_add_column\<close> that changes the catalog.\<close>

lemma alter_changedE:
  assumes "c' \<noteq> c" and "alter_table_add_column i now tid name ty c = (res, c')"
  obtains t :: table_row and s j where "\<forall>x \<in> set (cat_schemas c). sch_id x \<noteq> i"
    "Option.bind (t_schema t) (\<lambda>sid. List.find (\<lambda>s. sch_id s = sid) (cat_schemas c)) = Some s"
    "c' = c\<lparr>cat_schemas := cat_schemas c @ [\<lparr>sch_id = i, sch_tenant = t_tenant t, sch_table = tid, sch_arrow = j,
                 sch_created_at = now\<rparr>],
          cat_tables := map (\<lambda>t'. if t_id t' = tid \<and> t_schema t' = Some (sch_id s) then t'\<lparr>t_schema := Some i\<rparr> else t') (cat_tables c)\<rparr>"
proof -
  from assms obtain t :: table_row and s j where
    a: "Option.bind (t_schema t) (\<lambda>sid. List.find (\<lambda>s. sch_id s = sid) (cat_schemas c)) = Some s" and
    n: "\<not> list_ex (\<lambda>s. sch_id s = i) (cat_schemas c)" and
    r: "c' = c\<lparr>cat_schemas := cat_schemas c @ [\<lparr>sch_id = i, sch_tenant = t_tenant t, sch_table = tid, sch_arrow = j,
                 sch_created_at = now\<rparr>],
          cat_tables := map (\<lambda>t'. if t_id t' = tid \<and> t_schema t' = Some (sch_id s) then t'\<lparr>t_schema := Some i\<rparr> else t') (cat_tables c)\<rparr>"
    unfolding alter_table_add_column_def Let_def insert_row_def
    by (simp split: sum.split_asm option.split_asm if_split_asm) blast
  show thesis by (rule that [OF _ a r]) (use n in \<open>simp add: list_ex_iff\<close>)
qed

lemma cat_inv_alter:
  assumes inv: "cat_inv c" and r: "alter_table_add_column i now tid name ty c = (res, c')"
  shows "cat_inv c'"
proof (cases "c' = c")
  case False
  from this r obtain t :: table_row and s j where fresh: "\<forall>x \<in> set (cat_schemas c). sch_id x \<noteq> i"
    and b: "Option.bind (t_schema t) (\<lambda>sid. List.find (\<lambda>s. sch_id s = sid) (cat_schemas c)) = Some s"
    and c': "c' = c\<lparr>cat_schemas := cat_schemas c @ [\<lparr>sch_id = i, sch_tenant = t_tenant t, sch_table = tid, sch_arrow = j,
                 sch_created_at = now\<rparr>],
          cat_tables := map (\<lambda>t'. if t_id t' = tid \<and> t_schema t' = Some (sch_id s) then t'\<lparr>t_schema := Some i\<rparr> else t') (cat_tables c)\<rparr>"
    by (rule alter_changedE)
  let ?u = "\<lambda>t'. if t_id t' = tid \<and> t_schema t' = Some (sch_id s) then t'\<lparr>t_schema := Some i\<rparr> else t'"
  let ?n = "\<lparr>sch_id = i, sch_tenant = t_tenant t, sch_table = tid, sch_arrow = j, sch_created_at = now\<rparr>"
  have tb: "cat_tables c' = map ?u (cat_tables c)" and sc: "cat_schemas c' = cat_schemas c @ [?n]"
    and same: "cat_snapshots c' = cat_snapshots c" "cat_extents c' = cat_extents c" by (simp_all add: c')
  have ids: "map t_id (cat_tables c') = map t_id (cat_tables c)" by (simp add: tb)
  have "current_ok c' (?u t) \<and> schema_ok c' (?u t)" if "t \<in> set (cat_tables c)" for t
    using cat_invD(3,4) [OF inv that] by (auto simp: current_ok_def schema_ok_def same sc)
  then have ts: "\<forall>t \<in> set (cat_tables c'). current_ok c' t \<and> schema_ok c' t" unfolding tb set_map by blast
  have "lineage_ok c' = lineage_ok c" by (simp add: lineage_ok_def same fun_eq_iff split: option.split)
  with inv ts show ?thesis unfolding cat_inv_def ids same sc using fresh by auto
qed (use inv in simp)

lemma cat_inv_step:
  assumes inv: "cat_inv c" and s: "cat_step c c'"
  shows "cat_inv c'"
  using s
proof cases
  case (create_db i now tenant name r)
  with inv show ?thesis
    by (intro cat_inv_same [OF inv]) (auto simp: create_database_def cat_inv_def split: sum.splits)
next
  case (create_tbl ids debug now tenant db name flds config r)
  from cat_inv_create_table [OF inv this] show ?thesis .
next
  case (drop_tbl tenant db name b)
  from cat_inv_drop_table [OF inv this] show ?thesis .
next
  case (add_col i now tid name ty r)
  from cat_inv_alter [OF inv this] show ?thesis .
next
  case (commit_tx snid mid now su tx r)
  show ?thesis
  proof (cases r)
    case (Inl e)
    with commit_tx commit_Inl inv show ?thesis by metis
  next
    case (Inr i)
    with commit_tx cat_inv_commit [OF inv] show ?thesis by metis
  qed
next
  case (delete_rows ids')
  then show ?thesis using inv
    by (intro cat_inv_same [OF inv]) (auto simp: delete_extent_rows_def cat_inv_def distinct_map_filter)
next
  case (cleanup tenant db name before n)
  then show ?thesis using inv
    by (intro cat_inv_same [OF inv])
      (auto simp: cleanup_soft_deleted_def cat_inv_def distinct_map_filter Let_def split: option.splits)
next
  case (record_key tenant key entry ttl e)
  then show ?thesis using inv
    by (intro cat_inv_same [OF inv]) (auto simp: record_idempotency_def cat_inv_def split: if_splits)
qed

lemma cat_reachable_inv: "cat_reachable c \<Longrightarrow> cat_inv c"
proof (induction rule: cat_reachable.induct)
  case empty
  show ?case by (simp add: cat_inv_def empty_catalog_def)
qed (rule cat_inv_step)

section \<open>The history of a table\<close>

lemma cat_inv_seq_distinct:
  assumes "cat_inv c" "s \<in> set (cat_snapshots c)" "s' \<in> set (cat_snapshots c)"
    "sn_table s = sn_table s'" "sn_seq s = sn_seq s'"
  shows "s = s'"
proof -
  have "distinct (map (\<lambda>s. (sn_table s, sn_seq s)) (cat_snapshots c))" using assms(1) by (simp add: cat_inv_def)
  from distinct_key [OF this assms(2,3)] assms(4,5) show ?thesis by simp
qed

text \<open>Sequence numbers start at zero: the parent of a least numbered snapshot would be smaller.\<close>

lemma cat_inv_seq_nonneg:
  assumes inv: "cat_inv c" and s: "s \<in> set (cat_snapshots c)"
  shows "0 \<le> sn_seq s"
proof -
  let ?S = "sn_seq ` set (cat_snapshots c)"
  have "Min ?S \<in> ?S" using s by (intro Min_in) auto
  then obtain l where l: "l \<in> set (cat_snapshots c)" "sn_seq l = Min ?S" by auto
  have least: "sn_seq l \<le> sn_seq x" if "x \<in> set (cat_snapshots c)" for x using that l(2) by simp
  have "sn_seq l = 0"
  proof (cases "sn_parent l")
    case (Some p)
    with cat_invD(5) [OF inv l(1)] obtain s' where "s' \<in> set (cat_snapshots c)" "sn_seq s' + 1 = sn_seq l"
      by (auto simp: lineage_ok_def)
    with least show ?thesis by fastforce
  qed (use cat_invD(5) [OF inv l(1)] in \<open>simp add: lineage_ok_def\<close>)
  with least [OF s] show ?thesis by simp
qed

lemma cat_inv_ancestor:
  assumes inv: "cat_inv c" and s: "s \<in> set (cat_snapshots c)"
  shows "int k \<le> sn_seq s \<Longrightarrow>
    \<exists>s' \<in> set (cat_snapshots c). sn_table s' = sn_table s \<and> sn_seq s' = sn_seq s - int k"
proof (induction k)
  case (Suc k)
  then obtain s' where s': "s' \<in> set (cat_snapshots c)" "sn_table s' = sn_table s" "sn_seq s' = sn_seq s - int k"
    by auto
  show ?case
  proof (cases "sn_parent s'")
    case None
    with cat_invD(5) [OF inv s'(1)] s'(3) Suc.prems show ?thesis by (simp add: lineage_ok_def)
  next
    case (Some p)
    with cat_invD(5) [OF inv s'(1)] s' show ?thesis by (fastforce simp: lineage_ok_def)
  qed
qed (use s in auto)

text \<open>
  C13: In every catalog that the operations can produce, each table has a current
  snapshot and its history is gap free: the table has exactly one snapshot for every sequence number
  from zero to the current one, and no other.
\<close>

theorem snapshot_history:
  assumes "cat_reachable c" and "t \<in> set (cat_tables c)"
  shows "\<exists>s \<in> set (cat_snapshots c). t_snapshot t = Some (sn_id s) \<and> sn_table s = t_id t \<and> 0 \<le> sn_seq s \<and>
    (\<forall>n. (\<exists>!s'. s' \<in> set (cat_snapshots c) \<and> sn_table s' = t_id t \<and> sn_seq s' = n) \<longleftrightarrow> 0 \<le> n \<and> n \<le> sn_seq s) \<and>
    (\<forall>s' \<in> set (cat_snapshots c). sn_table s' = t_id t \<longrightarrow> 0 \<le> sn_seq s' \<and> sn_seq s' \<le> sn_seq s)"
proof -
  from assms(1) have inv: "cat_inv c" by (rule cat_reachable_inv)
  from cat_invD(3) [OF inv assms(2)] obtain s where s: "s \<in> set (cat_snapshots c)" "t_snapshot t = Some (sn_id s)"
      "sn_table s = t_id t"
    and top: "\<And>s'. s' \<in> set (cat_snapshots c) \<Longrightarrow> sn_table s' = t_id t \<Longrightarrow> sn_seq s' \<le> sn_seq s"
    by (auto simp: current_ok_def)
  have "(\<exists>!s'. s' \<in> set (cat_snapshots c) \<and> sn_table s' = t_id t \<and> sn_seq s' = n) \<longleftrightarrow> 0 \<le> n \<and> n \<le> sn_seq s"
    (is "?L \<longleftrightarrow> ?R") for n
  proof
    assume ?L
    then show ?R using top cat_inv_seq_nonneg [OF inv] by auto
  next
    assume ?R
    then have "int (nat (sn_seq s - n)) \<le> sn_seq s" "sn_seq s - int (nat (sn_seq s - n)) = n" by simp_all
    with cat_inv_ancestor [OF inv s(1)] s(3) obtain s' where s': "s' \<in> set (cat_snapshots c)"
      "sn_table s' = t_id t" "sn_seq s' = n" by metis
    moreover have "x = s'" if "x \<in> set (cat_snapshots c)" "sn_table x = t_id t" "sn_seq x = n" for x
      using cat_inv_seq_distinct [OF inv that(1) s'(1)] that s' by simp
    ultimately show ?L by blast
  qed
  with s top cat_inv_seq_nonneg [OF inv] show ?thesis by blast
qed

text \<open>A catalog with one table at snapshot 3, as creating its database and the table leaves it.\<close>

definition seed_catalog :: catalog where
  "seed_catalog = snd (create_table (\<lambda>_. []) (1, 2, 3) 0 7 1 ''logs'' [] (JObject [])
     (snd (create_database 1 0 7 ''db'' empty_catalog)))"

lemma seed_reachable: "cat_reachable seed_catalog"
proof -
  have 1: "cat_step empty_catalog (snd (create_database 1 0 7 ''db'' empty_catalog))" (is "cat_step _ ?c")
    by (rule cat_step.create_db) (rule surjective_pairing)
  have "cat_step ?c seed_catalog" unfolding seed_catalog_def
    by (rule cat_step.create_tbl [OF _ surjective_pairing])
      (simp add: create_database_def empty_catalog_def insert_row_def)
  with 1 show ?thesis by (meson cat_reachable.intros)
qed

lemma seed_eq: "seed_catalog = \<lparr>cat_databases = [\<lparr>db_id = 1, db_tenant = 7, db_name = ''db'', db_created_at = 0\<rparr>],
    cat_tables = [\<lparr>t_id = 1, t_tenant = 7, t_database = 1, t_name = ''logs'', t_snapshot = Some 3, t_schema = Some 2,
      t_config = JObject [], t_created_at = 0\<rparr>],
    cat_schemas = [\<lparr>sch_id = 2, sch_tenant = 7, sch_table = 1, sch_arrow = schema_to_json (\<lambda>_. []) [], sch_created_at = 0\<rparr>],
    cat_snapshots = [\<lparr>sn_id = 3, sn_tenant = 7, sn_table = 1, sn_parent = None, sn_seq = 0, sn_schema = 2,
      sn_summary = bootstrap_summary, sn_created_at = 0\<rparr>],
    cat_manifests = [], cat_extents = [], cat_indexes = [], cat_ledger = []\<rparr>"
  by (simp add: seed_catalog_def create_table_def create_database_def empty_catalog_def insert_row_def bindE_def)

theorem snapshot_history_witness:
  "\<exists>t \<in> set (cat_tables seed_catalog). \<exists>s \<in> set (cat_snapshots seed_catalog).
     t_snapshot t = Some (sn_id s) \<and> sn_table s = t_id t \<and>
     (\<forall>n. (\<exists>!s'. s' \<in> set (cat_snapshots seed_catalog) \<and> sn_table s' = t_id t \<and> sn_seq s' = n) \<longleftrightarrow> 0 \<le> n \<and> n \<le> sn_seq s)"
proof -
  obtain t where t: "t \<in> set (cat_tables seed_catalog)" by (simp add: seed_eq)
  from snapshot_history [OF seed_reachable t] t show ?thesis by blast
qed

section \<open>Commits, alone and against each other\<close>

lemma soft_delete_other:
  "T \<noteq> T' \<Longrightarrow> filter (\<lambda>e. row_tenant e = T \<and> Q e) (soft_delete T' now R xs) = filter (\<lambda>e. row_tenant e = T \<and> Q e) xs"
  by (induction xs) (auto simp: soft_delete_def)

lemma other_tenant_live:
  assumes "T \<noteq> tx_tenant tx"
  shows "live T tid (committed snid mid now su tx p ms c) = live T tid c"
proof -
  let ?Q = "\<lambda>e. row_tenant e = T \<and> ext_table_id (row_manifest e) = tid \<and> deleted_at e = None"
  have live: "live T tid d = set (map extent_of (filter ?Q (cat_extents d)))" for d by (simp add: live_def)
  have "filter ?Q (map (\<lambda>m. \<lparr>row_tenant = tx_tenant tx, row_manifest = m, deleted_at = None, ex_manifest = mid\<rparr>) (tx_added tx)) = []"
    using assms by (auto simp: filter_empty_conv)
  then have "filter ?Q (cat_extents (committed snid mid now su tx p ms c)) = filter ?Q (cat_extents c)"
    using soft_delete_other [OF assms] by (simp add: committed_def)
  then show ?thesis by (simp only: live)
qed

lemma begin_ok:
  assumes inv: "cat_inv c" and t: "t \<in> set (cat_tables c)"
  obtains sch where "begin_snapshot (t_tenant t) (t_id t) c =
    Inr \<lparr>tx_tenant = t_tenant t, tx_table = t_id t, tx_parent = the (t_snapshot t), tx_schema = sch, tx_added = [], tx_removed = []\<rparr>"
proof -
  let ?P = "\<lambda>x. t_tenant x = t_tenant t \<and> t_id x = t_id t"
  have "List.find ?P (cat_tables c) \<noteq> None" using t by (auto simp: find_None_iff)
  then obtain x where x: "List.find ?P (cat_tables c) = Some x" by auto
  then have "x \<in> set (cat_tables c)" "t_id x = t_id t" by (auto simp: find_Some_iff)
  with distinct_key [OF cat_invD(1) [OF inv] _ t] have "x = t" by simp
  moreover obtain s sc where sn: "t_snapshot t = Some s" and sc: "t_schema t = Some sc"
    using cat_invD(3,4) [OF inv t] by (auto simp: current_ok_def schema_ok_def)
  ultimately have "begin_snapshot (t_tenant t) (t_id t) c = Inr \<lparr>tx_tenant = t_tenant t, tx_table = t_id t,
      tx_parent = the (t_snapshot t), tx_schema = sc, tx_added = [], tx_removed = []\<rparr>"
    using x by (simp add: begin_snapshot_def)
  then show thesis by (rule that)
qed

lemma begin_after_commit:
  assumes inv: "cat_inv c" and ok: "commit snid mid now su tx c = (Inr i, c')"
  shows "\<exists>tx'. begin_snapshot (tx_tenant tx) (tx_table tx) c' = Inr tx' \<and> tx_parent tx' = snid"
proof -
  from ok obtain p ms where one: "length (filter (cas_hit tx) (cat_tables c)) = 1"
    and c': "c' = committed snid mid now su tx p ms c" by (rule commitE)
  from one obtain t0 where "filter (cas_hit tx) (cat_tables c) = [t0]" by (auto simp: length_Suc_conv)
  then have "t0 \<in> set (filter (cas_hit tx) (cat_tables c))" by simp
  then have t0: "t0 \<in> set (cat_tables c)" "cas_hit tx t0" by simp_all
  let ?u = "\<lambda>t. if cas_hit tx t then t\<lparr>t_snapshot := Some snid\<rparr> else t"
  have "?u t0 \<in> set (cat_tables c')" unfolding c' using t0(1) by (simp add: committed_def del: if_image_distrib)
  then have "t0\<lparr>t_snapshot := Some snid\<rparr> \<in> set (cat_tables c')" using t0(2) by simp
  then obtain sch where "begin_snapshot (t_tenant t0) (t_id t0) c' = Inr \<lparr>tx_tenant = t_tenant t0, tx_table = t_id t0,
      tx_parent = snid, tx_schema = sch, tx_added = [], tx_removed = []\<rparr>"
    by (rule begin_ok [OF cat_inv_commit [OF inv ok]]) simp
  moreover have "t_tenant t0 = tx_tenant tx" "t_id t0 = tx_table tx" using t0(2) by (simp_all add: cas_hit_def)
  ultimately show ?thesis by simp
qed

text \<open>
  C12: A commit is all or nothing. When it fails the catalog is unchanged. When it
  succeeds the live extents of each of the tenant's tables are the old ones and the added ones less the
  removed ones, the live extents of other tenants are untouched, and the next transaction on the table
  starts from the new snapshot.
\<close>

theorem commit_atomic:
  assumes "cat_reachable c" and "commit snid mid now su tx c = (res, c')"
  shows "case res of
      Inl e \<Rightarrow> c' = c
    | Inr i \<Rightarrow> i = snid \<and>
        (\<forall>tid. live (tx_tenant tx) tid c' =
          (live (tx_tenant tx) tid c \<union> ext_id ` {m \<in> set (tx_added tx). ext_table_id m = tid}) - set (tx_removed tx)) \<and>
        (\<forall>T tid. T \<noteq> tx_tenant tx \<longrightarrow> live T tid c' = live T tid c) \<and>
        (\<exists>tx'. begin_snapshot (tx_tenant tx) (tx_table tx) c' = Inr tx' \<and> tx_parent tx' = snid)"
proof (cases res)
  case (Inl e)
  with assms(2) commit_Inl show ?thesis by simp
next
  case (Inr i)
  with assms(2) have ok: "commit snid mid now su tx c = (Inr i, c')" by simp
  from ok have i: "i = snid" by (rule commitE)
  from ok obtain p ms where one: "length (filter (cas_hit tx) (cat_tables c)) = 1"
    and c': "c' = committed snid mid now su tx p ms c" by (rule commitE)
  have "live T tid c' = live T tid c" if "T \<noteq> tx_tenant tx" for T tid
    using that by (simp add: c' other_tenant_live)
  moreover have "\<exists>tx'. begin_snapshot (tx_tenant tx) (tx_table tx) c' = Inr tx' \<and> tx_parent tx' = snid"
    using begin_after_commit [OF cat_reachable_inv [OF assms(1)] ok] .
  ultimately show ?thesis using Inr i commit_live [OF ok] by simp
qed

definition sample_extent :: "string \<Rightarrow> extent_manifest" where
  "sample_extent i = \<lparr>ext_id = i, ext_table_id = 1, schema_snapshot_id = 2, object_path = i, byte_size = 1, ext_row_count = 1,
     min_timestamp = None, max_timestamp = None, column_stats = JObject [], present_paths = [], compaction_gen = 0, created_at = 0\<rparr>"

definition sample_summary :: snapshot_summary where
  "sample_summary = \<lparr>su_operation = ''ingest'', su_rows_added = 1, su_rows_removed = 0, su_bytes_added = 1, su_bytes_removed = 0\<rparr>"

theorem commit_atomic_witness:
  "\<exists>c'. commit 4 4 0 sample_summary \<lparr>tx_tenant = 7, tx_table = 1, tx_parent = 3, tx_schema = 2,
      tx_added = [sample_extent ''a''], tx_removed = []\<rparr> seed_catalog = (Inr 4, c') \<and> live 7 1 c' = {''a''}"
    (is "\<exists>c'. commit 4 4 0 _ ?tx _ = _ \<and> _")
proof -
  have "\<exists>c'. commit 4 4 0 sample_summary ?tx seed_catalog = (Inr 4, c')"
    by (simp add: commit_def seed_eq Let_def insert_row_def bindE_def cas_hit_def)
  then obtain c' where c: "commit 4 4 0 sample_summary ?tx seed_catalog = (Inr 4, c')" ..
  have "live 7 1 seed_catalog = {}" by (simp add: live_def seed_eq)
  moreover have "live 7 1 c' = live 7 1 seed_catalog \<union> {''a''}"
  proof -
    have "{m \<in> {sample_extent ''a''}. ext_table_id m = 1} = {sample_extent ''a''}" "ext_id (sample_extent ''a'') = ''a''"
      by (auto simp: sample_extent_def)
    with commit_atomic [OF seed_reachable c] show ?thesis by simp
  qed
  ultimately show ?thesis using c by simp
qed

end
