(* ===== verification/Commit_Retry.thy ===== *)
theory Commit_Retry
  imports Catalog_Snapshots
begin

text \<open>
  Concurrent writers of one table. Of two transactions begun at the same snapshot one conflicts; the
  retry loops of ingest (\<open>pensieve-ingest-core\<close>, at most 20 attempts) and of compaction
  (\<open>pensieve-compaction\<close>, at most 10) begin again at the new snapshot. The ingest loop succeeds as soon
  as one attempt is undisturbed; the compaction loop can merge the same rows twice.
\<close>

section \<open>The retry loops\<close>

text \<open>
  \<open>env k\<close> is what other writers do to the catalog between the begin and the commit of attempt \<open>k\<close>;
  \<open>build\<close> fills the transaction, \<open>ids\<close> and \<open>now\<close> are its fresh identifiers and clock reading.
\<close>

fun commit_loop :: "(nat \<Rightarrow> catalog \<Rightarrow> catalog) \<Rightarrow> (nat \<Rightarrow> nat \<times> nat) \<Rightarrow> (nat \<Rightarrow> int) \<Rightarrow> nat \<Rightarrow> nat
    \<Rightarrow> (snapshot_txn \<Rightarrow> snapshot_txn) \<Rightarrow> snapshot_summary \<Rightarrow> nat \<Rightarrow> nat \<Rightarrow> catalog
    \<Rightarrow> (catalog_error + nat) \<times> catalog" where
  "commit_loop env ids now tenant tid build su 0 k c = (Inl Conflict, c)"
| "commit_loop env ids now tenant tid build su (Suc n) k c =
     (case begin_snapshot tenant tid c of
        Inl e \<Rightarrow> (Inl e, c)
      | Inr tx \<Rightarrow>
          (case commit (fst (ids k)) (snd (ids k)) (now k) su (build tx) (env k c) of
             (Inr i, c') \<Rightarrow> (Inr i, c')
           | (Inl Conflict, c') \<Rightarrow> commit_loop env ids now tenant tid build su n (k + 1) c'
           | (Inl e, c') \<Rightarrow> (Inl e, c')))"

definition ingest_commit :: "(nat \<Rightarrow> catalog \<Rightarrow> catalog) \<Rightarrow> (nat \<Rightarrow> nat \<times> nat) \<Rightarrow> (nat \<Rightarrow> int) \<Rightarrow> nat \<Rightarrow> nat
    \<Rightarrow> extent_manifest \<Rightarrow> catalog \<Rightarrow> (catalog_error + nat) \<times> catalog" where
  "ingest_commit env ids now tenant tid m c =
     commit_loop env ids now tenant tid (add_extent m)
       \<lparr>su_operation = ''ingest'', su_rows_added = int (ext_row_count m), su_rows_removed = 0,
        su_bytes_added = int (byte_size m), su_bytes_removed = 0\<rparr> 20 1 c"

definition compaction_commit :: "(nat \<Rightarrow> catalog \<Rightarrow> catalog) \<Rightarrow> (nat \<Rightarrow> nat \<times> nat) \<Rightarrow> (nat \<Rightarrow> int) \<Rightarrow> nat \<Rightarrow> nat
    \<Rightarrow> extent_manifest \<Rightarrow> string list \<Rightarrow> nat \<Rightarrow> nat \<Rightarrow> catalog \<Rightarrow> (catalog_error + nat) \<times> catalog" where
  "compaction_commit env ids now tenant tid m sources rows_merged bytes_in c =
     commit_loop env ids now tenant tid (\<lambda>tx. remove_extents sources (add_extent m tx))
       \<lparr>su_operation = ''compaction'', su_rows_added = int rows_merged, su_rows_removed = int rows_merged,
        su_bytes_added = int (byte_size m), su_bytes_removed = int bytes_in\<rparr> 10 1 c"


section \<open>Stale transactions\<close>

text \<open>What other writers do: any number of commits, of any transactions.\<close>

inductive commits :: "catalog \<Rightarrow> catalog \<Rightarrow> bool" where
  refl: "commits c c"
| step: "commits c d \<Longrightarrow> commit snid mid now su tx d = (r, d') \<Longrightarrow> commits c d'"

lemma commits_reachable: "commits c d \<Longrightarrow> cat_reachable c \<Longrightarrow> cat_reachable d"
  by (induction rule: commits.induct) (auto intro: cat_reachable.step cat_step.commit_tx)

lemma commit_appends: "commit snid mid now su tx c = (r, c') \<Longrightarrow>
    \<exists>xs. cat_snapshots c' = cat_snapshots c @ xs"
  by (cases r) (auto dest: commit_Inl elim!: commitE simp: committed_def)

lemma find_append: "List.find P xs = Some x \<Longrightarrow> List.find P (xs @ ys) = Some x"
  by (induction xs) (auto split: if_splits)

text \<open>
  The contract of optimistic commits: an attempt succeeds or fails with a conflict; a success makes
  every transaction with the same base stale, staleness lasts, and a stale attempt conflicts.
\<close>

locale optimistic_commit =
  fixes attempt :: "'a \<Rightarrow> 'tx \<Rightarrow> 's \<Rightarrow> ('e + 'r) \<times> 's"
    and base :: "'tx \<Rightarrow> 'b"
    and stale :: "'b \<Rightarrow> 's \<Rightarrow> bool"
    and conflict :: 'e
  assumes winner: "attempt a tx s = (Inr r, s') \<Longrightarrow> stale (base tx) s'"
    and persists: "attempt a tx s = (x, s') \<Longrightarrow> stale b s \<Longrightarrow> stale b s'"
    and rejected: "stale (base tx) s \<Longrightarrow> attempt a tx s = (Inl conflict, s)"
begin

lemma stale_forever:
  "(\<lambda>s s'. \<exists>a tx x. attempt a tx s = (x, s'))\<^sup>*\<^sup>* s d \<Longrightarrow> stale b s \<Longrightarrow> stale b d"
  by (induction rule: rtranclp_induct) (auto intro: persists)

lemma one_winner:
  assumes "attempt a tx s = (Inr r, s')" and "(\<lambda>s s'. \<exists>a tx x. attempt a tx s = (x, s'))\<^sup>*\<^sup>* s' d"
    and "base tx' = base tx"
  shows "attempt a' tx' d = (Inl conflict, d)"
  using rejected [of tx' d] stale_forever [OF assms(2) winner [OF assms(1)]] assms(3) by simp

end

text \<open>The parent is there and already has a successor: the insert of the snapshot row conflicts.\<close>

definition superseded :: "nat \<times> nat \<Rightarrow> catalog \<Rightarrow> bool" where
  "superseded b c \<longleftrightarrow> (\<exists>p. List.find (\<lambda>s. sn_id s = snd b) (cat_snapshots c) = Some p \<and>
     (\<exists>s \<in> set (cat_snapshots c). sn_table s = fst b \<and> sn_seq s = sn_seq p + 1))"

lemma superseded_commit:
  "superseded (tx_table tx, tx_parent tx) c \<Longrightarrow> commit snid mid now su tx c = (Inl Conflict, c)"
  by (auto simp: superseded_def commit_def Let_def insert_row_def bindE_def list_ex_iff)

lemma superseded_persists:
  assumes "commit snid mid now su tx c = (r, c')" "superseded b c"
  shows "superseded b c'"
proof -
  obtain xs where "cat_snapshots c' = cat_snapshots c @ xs" using commit_appends [OF assms(1)] by blast
  with assms(2) find_append show ?thesis by (fastforce simp: superseded_def)
qed

lemma commit_supersedes:
  assumes "commit snid mid now su tx c = (Inr i, c')"
  shows "superseded (tx_table tx, tx_parent tx) c'"
proof -
  from assms obtain p ms where p: "List.find (\<lambda>s. sn_id s = tx_parent tx) (cat_snapshots c) = Some p"
    and c': "c' = committed snid mid now su tx p ms c" by (rule commitE)
  from find_append [OF p] have "List.find (\<lambda>s. sn_id s = tx_parent tx) (cat_snapshots c') = Some p"
    by (simp add: c' committed_def)
  moreover have "\<exists>s \<in> set (cat_snapshots c'). sn_table s = tx_table tx \<and> sn_seq s = sn_seq p + 1"
    by (simp add: c' committed_def)
  ultimately show ?thesis unfolding superseded_def by simp
qed

interpretation snap: optimistic_commit "\<lambda>(snid, mid, now, su). commit snid mid now su"
  "\<lambda>tx. (tx_table tx, tx_parent tx)" superseded Conflict
  by unfold_locales (auto intro: commit_supersedes superseded_persists superseded_commit)

lemma commits_later:
  "commits c d \<Longrightarrow> (\<lambda>s s'. \<exists>a tx x. (case a of (snid, mid, now, su) \<Rightarrow> commit snid mid now su) tx s = (x, s'))\<^sup>*\<^sup>* c d"
proof (induction rule: commits.induct)
  case (step c d snid mid now su tx r d')
  then have "(case (snid, mid, now, su) of (snid, mid, now, su) \<Rightarrow> commit snid mid now su) tx d = (r, d')" by simp
  with step.IH show ?case by (blast intro: rtranclp.rtrancl_into_rtrancl)
qed simp

text \<open>
  C15: Of two transactions begun at the same snapshot only one commits. Once the first
  has committed, the second gets a conflict and changes nothing, whatever it adds and removes and
  however many other commits come in between.
\<close>

theorem no_lost_update:
  assumes "begin_snapshot tenant tid c = Inr tx"
    and "commit snid mid now su (tx\<lparr>tx_added := A, tx_removed := R\<rparr>) c = (Inr i, c')" and "commits c' d"
  shows "commit snid' mid' now' su' (tx\<lparr>tx_added := A', tx_removed := R'\<rparr>) d = (Inl Conflict, d)"
  using snap.one_winner [where a = "(snid, mid, now, su)" and a' = "(snid', mid', now', su')"
      and tx' = "tx\<lparr>tx_added := A', tx_removed := R'\<rparr>", OF _ commits_later [OF assms(3)]] assms(2) by simp

section \<open>An undisturbed attempt succeeds\<close>

definition fresh_ids :: "(nat \<Rightarrow> nat \<times> nat) \<Rightarrow> extent_manifest \<Rightarrow> catalog \<Rightarrow> bool" where
  "fresh_ids ids m c \<longleftrightarrow> (\<forall>k. (\<forall>s \<in> set (cat_snapshots c). sn_id s \<noteq> fst (ids k)) \<and>
       (\<forall>x \<in> set (cat_manifests c). mf_id x \<noteq> snd (ids k))) \<and>
     (\<forall>e \<in> set (cat_extents c). extent_of e \<noteq> ext_id m)"

lemma one_hit:
  "distinct (map f xs) \<Longrightarrow> x \<in> set xs \<Longrightarrow> P x \<Longrightarrow> (\<And>y. y \<in> set xs \<Longrightarrow> P y \<Longrightarrow> f y = f x) \<Longrightarrow> length (filter P xs) = 1"
proof (induction xs)
  case (Cons z xs)
  show ?case
  proof (cases "x = z")
    case True
    have "\<not> P y" if "y \<in> set xs" for y using Cons.prems(1) Cons.prems(4) [of y] that True by (auto simp: image_iff)
    then have "filter P xs = []" by (simp add: filter_empty_conv)
    with True Cons.prems(3) show ?thesis by simp
  next
    case False
    with Cons.prems have x: "x \<in> set xs" by simp
    have "\<not> P z" using Cons.prems(1) Cons.prems(4) [of z] x by (auto simp: image_iff)
    moreover have "length (filter P xs) = 1"
      by (rule Cons.IH [OF _ x Cons.prems(3)]) (use Cons.prems(1) in simp, rule Cons.prems(4), simp_all)
    ultimately show ?thesis by simp
  qed
qed simp

text \<open>What a transaction knows of the catalog it begins on.\<close>

lemma beginE:
  assumes inv: "cat_inv c" and b: "begin_snapshot tenant tid c = Inr tx"
  obtains p where "tx_tenant tx = tenant" "tx_table tx = tid" "tx_added tx = []" "tx_removed tx = []"
    "List.find (\<lambda>s. sn_id s = tx_parent tx) (cat_snapshots c) = Some p"
    "\<forall>s \<in> set (cat_snapshots c). sn_table s = tid \<longrightarrow> sn_seq s \<le> sn_seq p"
    "length (filter (cas_hit tx) (cat_tables c)) = 1"
proof -
  from b obtain t where f: "List.find (\<lambda>t. t_tenant t = tenant \<and> t_id t = tid) (cat_tables c) = Some t"
    and sn: "t_snapshot t = Some (tx_parent tx)"
    and tx: "tx_tenant tx = tenant" "tx_table tx = tid" "tx_added tx = []" "tx_removed tx = []"
    by (auto simp: begin_snapshot_def split: option.splits)
  from f have t: "t \<in> set (cat_tables c)" "t_tenant t = tenant" "t_id t = tid" by (auto simp: find_Some_iff)
  from cat_invD(3) [OF inv t(1)] sn t(3) obtain s where s: "s \<in> set (cat_snapshots c)" "sn_id s = tx_parent tx"
    "\<forall>s' \<in> set (cat_snapshots c). sn_table s' = tid \<longrightarrow> sn_seq s' \<le> sn_seq s" by (auto simp: current_ok_def)
  then have "List.find (\<lambda>s. sn_id s = tx_parent tx) (cat_snapshots c) \<noteq> None" by (auto simp: find_None_iff)
  then obtain p where p: "List.find (\<lambda>s. sn_id s = tx_parent tx) (cat_snapshots c) = Some p" by auto
  then have "p \<in> set (cat_snapshots c)" "sn_id p = tx_parent tx" by (auto simp: find_Some_iff)
  with distinct_key [OF cat_invD(2) [OF inv] _ s(1)] s(2) have "p = s" by simp
  moreover have "length (filter (cas_hit tx) (cat_tables c)) = 1"
    by (rule one_hit [OF cat_invD(1) [OF inv] t(1)]) (simp_all add: cas_hit_def tx t sn)
  ultimately show thesis using that [OF tx p] s(3) by simp
qed

text \<open>With fresh identifiers a commit either succeeds or conflicts; undisturbed it succeeds.\<close>

lemma commit_outcome:
  assumes "List.find (\<lambda>s. sn_id s = tx_parent tx) (cat_snapshots d) = Some p"
    and "fresh_ids ids m d" and "tx_added tx = [m]"
  shows "fst (commit (fst (ids k)) (snd (ids k)) now su tx d) \<in> {Inl Conflict, Inr (fst (ids k))}"
    and "(\<forall>s \<in> set (cat_snapshots d). sn_table s = tx_table tx \<longrightarrow> sn_seq s \<le> sn_seq p) \<Longrightarrow>
      length (filter (cas_hit tx) (cat_tables d)) = 1 \<Longrightarrow>
      fst (commit (fst (ids k)) (snd (ids k)) now su tx d) = Inr (fst (ids k))"
proof -
  have m: "\<not> list_ex (\<lambda>x. mf_id x = snd (ids k)) (cat_manifests d)"
    and e: "\<not> list_ex (\<lambda>e. extent_of e = ext_id m) (cat_extents d)"
    and i: "\<forall>s \<in> set (cat_snapshots d). sn_id s \<noteq> fst (ids k)"
    using assms(2) by (auto simp: fresh_ids_def list_ex_iff)
  note c = commit_def Let_def insert_row_def bindE_def assms(1,3) m e
  show "fst (commit (fst (ids k)) (snd (ids k)) now su tx d) \<in> {Inl Conflict, Inr (fst (ids k))}" by (simp add: c)
  show "fst (commit (fst (ids k)) (snd (ids k)) now su tx d) = Inr (fst (ids k))"
    if "\<forall>s \<in> set (cat_snapshots d). sn_table s = tx_table tx \<longrightarrow> sn_seq s \<le> sn_seq p"
      "length (filter (cas_hit tx) (cat_tables d)) = 1"
  proof -
    have "\<not> list_ex (\<lambda>s. sn_id s = fst (ids k) \<or> (sn_table s = tx_table tx \<and> sn_seq s = sn_seq p + 1)) (cat_snapshots d)"
      using that(1) i by (fastforce simp: list_ex_iff)
    with that(2) show ?thesis by (simp add: c)
  qed
qed

lemma commits_find:
  "commits c d \<Longrightarrow> List.find P (cat_snapshots c) = Some p \<Longrightarrow> List.find P (cat_snapshots d) = Some p"
  by (induction rule: commits.induct) (auto dest!: commit_appends intro: find_append)

lemma commits_begin:
  assumes "commits c d" "cat_reachable c" "begin_snapshot tenant tid c = Inr tx"
  shows "\<exists>tx'. begin_snapshot tenant tid d = Inr tx'"
  using assms
proof (induction rule: commits.induct)
  case (step c d snid mid now su tx2 r d')
  then have inv: "cat_inv d" using commits_reachable cat_reachable_inv by blast
  from step obtain tx' where b: "begin_snapshot tenant tid d = Inr tx'" by auto
  then obtain t where "List.find (\<lambda>t. t_tenant t = tenant \<and> t_id t = tid) (cat_tables d) = Some t"
    by (auto simp: begin_snapshot_def split: option.splits)
  then have t: "t \<in> set (cat_tables d)" "t_tenant t = tenant" "t_id t = tid" by (auto simp: find_Some_iff)
  show ?case
  proof (cases r)
    case (Inl e)
    with step b commit_Inl show ?thesis by blast
  next
    case (Inr i)
    with step(2) have ok: "commit snid mid now su tx2 d = (Inr i, d')" by simp
    then obtain p ms where d': "d' = committed snid mid now su tx2 p ms d" by (rule commitE)
    let ?t = "if cas_hit tx2 t then t\<lparr>t_snapshot := Some snid\<rparr> else t"
    have "?t \<in> set (cat_tables d')" unfolding d' using t(1) by (simp add: committed_def del: if_image_distrib)
    moreover have "t_tenant ?t = tenant" "t_id ?t = tid" using t by simp_all
    ultimately show ?thesis using begin_ok [OF cat_inv_commit [OF inv ok]] by metis
  qed
qed simp

text \<open>The retry loop with a single extent to add: an undisturbed attempt among the next \<open>n\<close> ends it.\<close>

lemma commit_loop_succeeds:
  assumes env: "\<And>k d. commits d (env k d)" "\<And>k d. fresh_ids ids m d \<Longrightarrow> fresh_ids ids m (env k d)"
    and build: "\<And>tx. tx_parent (build tx) = tx_parent tx" "\<And>tx. tx_table (build tx) = tx_table tx"
      "\<And>tx. tx_tenant (build tx) = tx_tenant tx" "\<And>tx. tx_added tx = [] \<Longrightarrow> tx_added (build tx) = [m]"
  shows "cat_reachable c \<Longrightarrow> begin_snapshot tenant tid c = Inr tx \<Longrightarrow> fresh_ids ids m c \<Longrightarrow>
    \<exists>q < n. env (k + q) = (\<lambda>d. d) \<Longrightarrow>
    \<exists>i c' k' d. commit_loop env ids now tenant tid build su n k c = (Inr i, c') \<and>
      begin_snapshot tenant tid d = Inr k' \<and> (\<exists>j. commit (fst (ids j)) (snd (ids j)) (now j) su (build k') (env j d) = (Inr i, c'))"
proof (induction n arbitrary: k c tx)
  case (Suc n)
  from cat_reachable_inv [OF Suc.prems(1)] Suc.prems(2) obtain p where tx: "tx_tenant tx = tenant" "tx_table tx = tid"
      "tx_added tx = []" "tx_removed tx = []"
    and p: "List.find (\<lambda>s. sn_id s = tx_parent tx) (cat_snapshots c) = Some p"
    and top: "\<forall>s \<in> set (cat_snapshots c). sn_table s = tid \<longrightarrow> sn_seq s \<le> sn_seq p"
    and hit: "length (filter (cas_hit tx) (cat_tables c)) = 1" by (rule beginE)
  let ?r = "commit (fst (ids k)) (snd (ids k)) (now k) su (build tx) (env k c)"
  have p': "List.find (\<lambda>s. sn_id s = tx_parent (build tx)) (cat_snapshots (env k c)) = Some p"
    unfolding build(1) by (rule commits_find [OF env(1) p])
  note out = commit_outcome [OF p' env(2) [OF Suc.prems(3)] build(4) [OF tx(3)], where k = k and now = "now k" and su = su]
  obtain r c1 where r: "?r = (r, c1)" by (cases ?r)
  consider "r = Inl Conflict" | "r = Inr (fst (ids k))" using out(1) r by auto
  then show ?case
  proof cases
    case 1
    have c1: "c1 = env k c" using commit_Inl r 1 by simp
    have "env k \<noteq> (\<lambda>d. d)"
    proof
      assume e: "env k = (\<lambda>d. d)"
      have "cas_hit (build tx) = cas_hit tx" by (simp add: cas_hit_def build fun_eq_iff)
      with out(2) top hit r 1 show False by (simp add: e build tx)
    qed
    with Suc.prems(4) obtain q where q: "q < Suc n" "env (k + q) = (\<lambda>d. d)" "q \<noteq> 0" by (metis add.right_neutral)
    then have "q - 1 < n" "env (k + 1 + (q - 1)) = (\<lambda>d. d)" by simp_all
    then have later: "\<exists>q < n. env (k + 1 + q) = (\<lambda>d. d)" by blast
    obtain tx' where "begin_snapshot tenant tid (env k c) = Inr tx'"
      using commits_begin [OF env(1) Suc.prems(1,2)] by blast
    from Suc.IH [OF commits_reachable [OF env(1) Suc.prems(1)] this env(2) [OF Suc.prems(3)] later]
    show ?thesis using Suc.prems(2) r 1 c1 by simp
  next
    case 2
    with r Suc.prems(2) show ?thesis by auto
  qed
qed simp

text \<open>
  C16: When between the begin and the commit of an ingest other writers only
  commit transactions of their own, and one of the twenty attempts is undisturbed, the ingest's commit
  succeeds and its extent is live in the table.
\<close>

theorem ingest_commit_succeeds:
  assumes "cat_reachable c" and "begin_snapshot tenant tid c = Inr tx" and "fresh_ids ids m c"
    and "\<forall>k d. commits d (env k d)" and "\<forall>k d. fresh_ids ids m d \<longrightarrow> fresh_ids ids m (env k d)"
    and "\<exists>q < 20. env (1 + q) = (\<lambda>d. d)"
  shows "\<exists>i c'. ingest_commit env ids now tenant tid m c = (Inr i, c') \<and> ext_id m \<in> live tenant (ext_table_id m) c'"
proof -
  let ?su = "\<lparr>su_operation = ''ingest'', su_rows_added = int (ext_row_count m), su_rows_removed = 0,
        su_bytes_added = int (byte_size m), su_bytes_removed = 0\<rparr>"
  have "\<exists>i c' tx' d. commit_loop env ids now tenant tid (add_extent m) ?su 20 1 c = (Inr i, c') \<and>
      begin_snapshot tenant tid d = Inr tx' \<and>
      (\<exists>j. commit (fst (ids j)) (snd (ids j)) (now j) ?su (add_extent m tx') (env j d) = (Inr i, c'))"
    by (rule commit_loop_succeeds [OF _ _ _ _ _ _ assms(1-3,6)]) (use assms(4,5) in \<open>auto simp: add_extent_def\<close>)
  then obtain i c' tx' d j where l: "ingest_commit env ids now tenant tid m c = (Inr i, c')"
    and b: "begin_snapshot tenant tid d = Inr tx'"
    and cm: "commit (fst (ids j)) (snd (ids j)) (now j) ?su (add_extent m tx') (env j d) = (Inr i, c')"
    unfolding ingest_commit_def by blast
  from b have "tx_tenant tx' = tenant" "tx_removed tx' = []"
    by (auto simp: begin_snapshot_def split: option.splits)
  with commit_live [OF cm, of "ext_table_id m"] l show ?thesis by (auto simp: add_extent_def)
qed

text \<open>At the first attempt a writer with identifiers of its own commits in between.\<close>

definition rival :: "nat \<Rightarrow> catalog \<Rightarrow> catalog" where
  "rival k c = (if k = 1 then (case begin_snapshot 7 1 c of
       Inl _ \<Rightarrow> c
     | Inr tx \<Rightarrow> snd (commit 99 99 0 sample_summary tx c)) else c)"

lemma rival_commits: "commits d (rival k d)"
  by (auto simp: rival_def intro: commits.intros prod.collapse [symmetric] split: sum.split)

lemma notin_map: "(\<forall>x \<in> set xs. f x \<noteq> a) \<longleftrightarrow> a \<notin> set (map f xs)"
  by auto

lemma fresh_ids_map: "fresh_ids ids m c \<longleftrightarrow>
    (\<forall>k. fst (ids k) \<notin> set (map sn_id (cat_snapshots c)) \<and> snd (ids k) \<notin> set (map mf_id (cat_manifests c))) \<and>
    ext_id m \<notin> set (map extent_of (cat_extents c))"
  unfolding fresh_ids_def notin_map ..

lemma commit_fresh:
  assumes "commit snid mid now su tx c = (r, c')" "fresh_ids ids m c" "tx_added tx = []"
    "\<And>k. fst (ids k) \<noteq> snid \<and> snd (ids k) \<noteq> mid"
  shows "fresh_ids ids m c'"
proof (cases r)
  case (Inl e)
  with assms(1) commit_Inl have "c' = c" by simp
  with assms(2) show ?thesis by simp
next
  case (Inr i)
  with assms(1) have "map mf_id (cat_manifests c') = map mf_id (cat_manifests c) @ [mid]"
    "map sn_id (cat_snapshots c') = map sn_id (cat_snapshots c) @ [snid]"
    "map extent_of (cat_extents c') = map extent_of (cat_extents c)"
    by (auto simp: commit_def Let_def bindE_Inr_iff insert_row_Inr assms(3) split: option.splits sum.splits if_splits)
  then show ?thesis using assms(2,4) unfolding fresh_ids_map by simp
qed

lemma rival_fresh: "fresh_ids (\<lambda>k. (100 + k, 100 + k)) m d \<Longrightarrow> fresh_ids (\<lambda>k. (100 + k, 100 + k)) m (rival k d)"
proof -
  assume f: "fresh_ids (\<lambda>k. (100 + k, 100 + k)) m d"
  have "tx_added tx = []" if "begin_snapshot 7 1 d = Inr tx" for tx
    using that by (auto simp: begin_snapshot_def split: option.splits)
  then show ?thesis using f
    by (auto simp: rival_def intro!: commit_fresh [OF prod.collapse [symmetric] f] split: sum.split)
qed

lemma seed_begin: "begin_snapshot 7 1 seed_catalog =
    Inr \<lparr>tx_tenant = 7, tx_table = 1, tx_parent = 3, tx_schema = 2, tx_added = [], tx_removed = []\<rparr>"
  by (simp add: seed_eq begin_snapshot_def)

theorem ingest_commit_succeeds_witness:
  "\<exists>i c'. ingest_commit rival (\<lambda>k. (100 + k, 100 + k)) (\<lambda>_. 0) 7 1 (sample_extent ''a'') seed_catalog = (Inr i, c') \<and>
     ''a'' \<in> live 7 1 c'"
proof -
  have f: "fresh_ids (\<lambda>k. (100 + k, 100 + k)) (sample_extent ''a'') seed_catalog" by (simp add: fresh_ids_def seed_eq)
  have "rival (1 + 1) = (\<lambda>d. d)" by (simp add: rival_def fun_eq_iff)
  then have q: "\<exists>q < 20. rival (1 + q) = (\<lambda>d. d)" by (intro exI [of _ 1]) simp
  from ingest_commit_succeeds [OF seed_reachable seed_begin f _ _ q, of "\<lambda>_. 0"] rival_commits rival_fresh
  show ?thesis by (simp add: sample_extent_def)
qed

theorem no_lost_update_witness:
  "\<exists>tx i c'. begin_snapshot 7 1 seed_catalog = Inr tx \<and>
     commit 4 4 0 sample_summary (tx\<lparr>tx_added := [sample_extent ''a''], tx_removed := []\<rparr>) seed_catalog = (Inr i, c') \<and>
     commit 5 5 0 sample_summary (tx\<lparr>tx_added := [sample_extent ''b''], tx_removed := []\<rparr>) c' = (Inl Conflict, c')"
proof -
  let ?tx = "\<lparr>tx_tenant = 7, tx_table = 1, tx_parent = 3, tx_schema = 2, tx_added = [], tx_removed = []\<rparr>"
  have "\<exists>c'. commit 4 4 0 sample_summary (?tx\<lparr>tx_added := [sample_extent ''a''], tx_removed := []\<rparr>) seed_catalog = (Inr 4, c')"
    by (simp add: commit_def seed_eq Let_def insert_row_def bindE_def cas_hit_def)
  then obtain c' where c: "commit 4 4 0 sample_summary (?tx\<lparr>tx_added := [sample_extent ''a''], tx_removed := []\<rparr>) seed_catalog = (Inr 4, c')" ..
  from no_lost_update [OF seed_begin c commits.refl, of 5 5 0 sample_summary "[]" "[sample_extent ''b'']"] c seed_begin
  show ?thesis by blast
qed

section \<open>Where a retried commit lands\<close>

lemma commits_trans: "commits d e \<Longrightarrow> commits c d \<Longrightarrow> commits c e"
  by (induction rule: commits.induct) (auto intro: commits.step)

text \<open>What holds at the start of the loop and survives the other writers holds where the commit lands.\<close>

lemma commit_loop_lands:
  assumes "\<And>k d. Q d \<Longrightarrow> Q (env k d)" and "commit_loop env ids now tenant tid build su n k c = (r, c')" and "Q c"
  shows "case r of Inl e \<Rightarrow> Q c'
    | Inr i \<Rightarrow> \<exists>tx e j d. begin_snapshot tenant tid e = Inr tx \<and> Q d \<and> commit (fst (ids j)) (snd (ids j)) (now j) su (build tx) d = (Inr i, c')"
  using assms(2,3)
proof (induction n arbitrary: k c)
  case 0
  then show ?case by auto
next
  case (Suc n)
  show ?case
  proof (cases "begin_snapshot tenant tid c")
    case (Inl e)
    with Suc.prems show ?thesis by auto
  next
    case (Inr tx)
    obtain r1 c1 where r1: "commit (fst (ids k)) (snd (ids k)) (now k) su (build tx) (env k c) = (r1, c1)" by fastforce
    have q: "Q (env k c)" by (rule assms(1) [OF Suc.prems(2)])
    show ?thesis
    proof (cases r1)
      case (Inl e)
      then have "Q c1" using q r1 by (auto dest: commit_Inl)
      with Suc.IH [of "k + 1" c1] Suc.prems(1) Inr r1 Inl show ?thesis by (cases e) auto
    next
      case r1': (Inr i)
      with Suc.prems(1) Inr r1 have "r = Inr i" "c' = c1" by auto
      with Inr q r1 r1' show ?thesis by auto
    qed
  qed
qed

section \<open>The compaction's retry\<close>

text \<open>
  A table with the live extents \<open>a\<close> and \<open>b\<close>, and two workers that merge both: the second one's
  commit lands between the begin and the commit of the first one's first attempt.
\<close>

definition two_extents :: catalog where
  "two_extents = snd (ingest_commit (\<lambda>_ d. d) (\<lambda>_. (5, 5)) (\<lambda>_. 0) 7 1 (sample_extent ''b'')
     (snd (ingest_commit (\<lambda>_ d. d) (\<lambda>_. (4, 4)) (\<lambda>_. 0) 7 1 (sample_extent ''a'') seed_catalog)))"

definition other_compactor :: "nat \<Rightarrow> catalog \<Rightarrow> catalog" where
  "other_compactor k c = (if k = 1
     then snd (compaction_commit (\<lambda>_ d. d) (\<lambda>_. (20, 20)) (\<lambda>_. 0) 7 1 (sample_extent ''m1'') [''a'', ''b''] 2 2 c) else c)"

lemma commit_loop_reachable:
  assumes "\<And>k d. cat_reachable d \<Longrightarrow> cat_reachable (env k d)"
  shows "cat_reachable c \<Longrightarrow> cat_reachable (snd (commit_loop env ids now tenant tid build su n k c))"
proof (induction n arbitrary: k c)
  case (Suc n)
  show ?case
  proof (cases "begin_snapshot tenant tid c")
    case (Inr tx)
    obtain r c' where r: "commit (fst (ids k)) (snd (ids k)) (now k) su (build tx) (env k c) = (r, c')" by fastforce
    have c': "cat_reachable c'" by (rule cat_reachable.step [OF assms [OF Suc.prems] cat_step.commit_tx [OF r]])
    with Suc.IH [OF c'] Inr r show ?thesis by (auto split: sum.split catalog_error.split)
  qed (use Suc.prems in simp)
qed simp

lemma two_extents_reachable: "cat_reachable two_extents"
  unfolding two_extents_def ingest_commit_def by (intro commit_loop_reachable seed_reachable)

lemma live_filter: "live tenant tid c = set (map extent_of (filter (\<lambda>e. row_tenant e = tenant \<and>
    ext_table_id (row_manifest e) = tid \<and> deleted_at e = None) (cat_extents c)))"
  by (simp add: live_def)

text \<open>
  A compaction that conflicts retries with the extents it read before,
  although another compaction may have replaced them in the meantime: removing an extent that is no
  longer live changes nothing, and the merged extent is added all the same. Here \<open>a\<close> and \<open>b\<close> are
  merged by two workers and both results are live afterwards, so every row is stored twice.
\<close>

theorem compaction_retry_duplicates:
  "cat_reachable two_extents \<and> live 7 1 two_extents = {''a'', ''b''} \<and>
   (\<exists>c'. compaction_commit other_compactor (\<lambda>k. (30 + k, 30 + k)) (\<lambda>_. 0) 7 1 (sample_extent ''m2'') [''a'', ''b''] 2 2
        two_extents = (Inr 32, c') \<and> live 7 1 c' = {''m1'', ''m2''})"
proof -
  let ?live = "\<lambda>c. map extent_of (filter (\<lambda>e. row_tenant e = 7 \<and> ext_table_id (row_manifest e) = 1 \<and> deleted_at e = None) (cat_extents c))"
  have l: "?live two_extents = [''a'', ''b'']" by code_simp
  let ?r = "compaction_commit other_compactor (\<lambda>k. (30 + k, 30 + k)) (\<lambda>_. 0) 7 1 (sample_extent ''m2'') [''a'', ''b''] 2 2 two_extents"
  have r: "fst ?r = Inr 32" by code_simp
  have m: "?live (snd ?r) = [''m1'', ''m2'']" by code_simp
  have "?r = (Inr 32, snd ?r)" by (rule prod_eqI) (simp_all only: r fst_conv snd_conv)
  moreover have "live 7 1 (snd ?r) = {''m1'', ''m2''}" by (simp only: live_filter m list.set)
  moreover have "live 7 1 two_extents = {''a'', ''b''}" by (simp only: live_filter l list.set)
  ultimately show ?thesis using two_extents_reachable by blast
qed

end
