(* ===== verification/Ingest.thy ===== *)
theory Ingest
  imports Scan Commit_Retry
begin

text \<open>
  The ingest of a batch of rows (\<open>pensieve-ingest-core\<close>, \<open>WritePath::ingest_with_idempotency\<close>) without group commit
  and without staging: look up the idempotency key, write one extent, commit it, record the key. It puts
  the extent writer, the catalog and the ledger together; the properties say that what was ingested is
  found by a scan and that a repeated key is replayed.
\<close>

section \<open>The operation\<close>

record ingest_table =
  it_id :: nat
  it_snapshot :: nat
  it_schema_id :: nat
  it_schema :: "(string \<times> data_type) list"
  it_federated :: bool

record ingest_ack =
  ack_snapshot :: nat
  ack_extents :: nat
  ack_rows :: nat
  ack_bytes :: nat
  ack_replayed :: bool

datatype ingest_error = ConfigError string | FormatFailed format_error | CatalogFailed catalog_error

text \<open>
  What a run reads from outside: the extent's identifier, the identifiers and clock of each commit
  attempt and the other writers, and the clock at the lookup, at the manifest and at the ledger entry.
\<close>

record ingest_run =
  run_extent :: string
  run_ids :: "nat \<Rightarrow> nat \<times> nat"
  run_clock :: "nat \<Rightarrow> int"
  run_env :: "nat \<Rightarrow> catalog \<Rightarrow> catalog"
  run_now :: int
  run_created :: int
  run_applied :: int

text \<open>The loop over the batches; \<open>None\<close> is a panic of the statistics.\<close>

fun append_batches :: "'st libs \<Rightarrow> extent_writer \<Rightarrow> record_batch list \<Rightarrow> (format_error + extent_writer) option" where
  "append_batches lb w [] = Some (Inr w)"
| "append_batches lb w (b # bs) =
     (case writer_append lb w b of
        None \<Rightarrow> None
      | Some (w', Inl e) \<Rightarrow> Some (Inl e)
      | Some (w', Inr _) \<Rightarrow> append_batches lb w' bs)"

text \<open>24 hours, in nanoseconds.\<close>

definition ledger_ttl :: int where
  "ledger_ttl = 24 * 3600 * 1000000000"

definition record_key :: "nat \<Rightarrow> string option \<Rightarrow> ledger_entry \<Rightarrow> catalog \<Rightarrow> catalog" where
  "record_key tenant key entry c =
     (case key of None \<Rightarrow> c | Some k \<Rightarrow> snd (record_idempotency tenant k entry ledger_ttl c))"

definition ingest_write :: "'st libs \<Rightarrow> tlm_format \<Rightarrow> ingest_run \<Rightarrow> nat \<Rightarrow> ingest_table \<Rightarrow> record_batch list
    \<Rightarrow> string option \<Rightarrow> 'st \<Rightarrow> catalog \<Rightarrow> ((ingest_error + ingest_ack) \<times> 'st \<times> catalog) option" where
  "ingest_write lb fmt run tenant table batches key st c =
     (case append_batches lb (writer_new fmt (run_extent run) (it_schema table)) batches of
        None \<Rightarrow> None
      | Some (Inl e) \<Rightarrow> Some (Inl (FormatFailed e), st, c)
      | Some (Inr w) \<Rightarrow>
          (case writer_finish lb st w of
             None \<Rightarrow> None
           | Some (Inl e) \<Rightarrow> Some (Inl (FormatFailed e), st, c)
           | Some (Inr (st', res)) \<Rightarrow>
               (let m = table_result_to_manifest (it_id table) (it_schema_id table) (run_created run) res;
                    rows = sum_list (map num_rows batches) in
                case ingest_commit (run_env run) (run_ids run) (run_clock run) tenant (it_id table) m c of
                  (Inl e, c') \<Rightarrow> Some (Inl (CatalogFailed e), st', c')
                | (Inr sn, c') \<Rightarrow>
                    Some (Inr \<lparr>ack_snapshot = sn, ack_extents = 1, ack_rows = rows, ack_bytes = res_byte_size res,
                               ack_replayed = False\<rparr>, st',
                          record_key tenant key \<lparr>le_table = it_id table, le_snapshot = sn, le_rows = rows,
                            le_bytes = res_byte_size res, le_applied_at = run_applied run\<rparr> c'))))"

definition ingest :: "'st libs \<Rightarrow> tlm_format \<Rightarrow> ingest_run \<Rightarrow> nat \<Rightarrow> ingest_table \<Rightarrow> record_batch list
    \<Rightarrow> string option \<Rightarrow> 'st \<Rightarrow> catalog \<Rightarrow> ((ingest_error + ingest_ack) \<times> 'st \<times> catalog) option" where
  "ingest lb fmt run tenant table batches key st c =
     (if it_federated table then Some (Inl (ConfigError ''federated tables do not accept ingest''), st, c)
      else case Option.bind key (\<lambda>k. lookup_idempotency tenant k (run_now run) c) of
        Some cached \<Rightarrow>
          Some (Inr \<lparr>ack_snapshot = le_snapshot cached, ack_extents = 0, ack_rows = le_rows cached,
                     ack_bytes = le_bytes cached, ack_replayed = True\<rparr>, st, c)
      | None \<Rightarrow>
          if batches = []
          then Some (Inr \<lparr>ack_snapshot = it_snapshot table, ack_extents = 0, ack_rows = 0, ack_bytes = 0,
                          ack_replayed = False\<rparr>, st, c)
          else ingest_write lb fmt run tenant table batches key st c)"

section \<open>Facts\<close>

lemma append_batches_all:
  "append_batches lb w bs = Some (Inr w') \<Longrightarrow> append_all lb w bs = Some w'"
  by (induction bs arbitrary: w) (auto split: option.splits prod.splits sum.splits)

text \<open>A successful loop ends in a commit on some catalog.\<close>

lemma commit_loop_Inr:
  "commit_loop env ids now tenant tid build su n k c = (Inr i, c') \<Longrightarrow>
    \<exists>tx j d d'. begin_snapshot tenant tid d = Inr tx \<and>
      commit (fst (ids j)) (snd (ids j)) (now j) su (build tx) d' = (Inr i, c')"
  by (induction n arbitrary: k c) (auto split: sum.splits prod.splits catalog_error.splits)

lemma ingest_commit_row:
  assumes "ingest_commit env ids now tenant tid m c = (Inr i, c')"
  shows "\<exists>mid. \<lparr>row_tenant = tenant, row_manifest = m, deleted_at = None, ex_manifest = mid\<rparr> \<in> set (cat_extents c')"
proof -
  from commit_loop_Inr [OF assms [unfolded ingest_commit_def]] obtain tx j d d' su where
    b: "begin_snapshot tenant tid d = Inr tx"
    and cm: "commit (fst (ids j)) (snd (ids j)) (now j) su (add_extent m tx) d' = (Inr i, c')" by blast
  from b have tx: "tx_tenant tx = tenant" "tx_added tx = []" "tx_removed tx = []"
    by (auto simp: begin_snapshot_def split: option.splits)
  from cm obtain p ms where "c' = committed (fst (ids j)) (snd (ids j)) (now j) su (add_extent m tx) p ms d'"
    by (rule commitE)
  then show ?thesis by (intro exI [of _ "snd (ids j)"]) (simp add: committed_def add_extent_def tx soft_delete_def)
qed

lemma commit_ledger: "commit snid mid now su tx c = (r, c') \<Longrightarrow> cat_ledger c' = cat_ledger c"
  by (cases r) (auto dest: commit_Inl elim!: commitE simp: committed_def)

lemma commit_loop_ledger:
  assumes "\<And>k d. cat_ledger (env k d) = cat_ledger d"
  shows "cat_ledger (snd (commit_loop env ids now tenant tid build su n k c)) = cat_ledger c"
proof (induction n arbitrary: k c)
  case (Suc n)
  show ?case
  proof (cases "begin_snapshot tenant tid c")
    case (Inr tx)
    obtain r c' where r: "commit (fst (ids k)) (snd (ids k)) (now k) su (build tx) (env k c) = (r, c')" by fastforce
    have "cat_ledger c' = cat_ledger c" using commit_ledger [OF r] assms by simp
    with Suc.IH [of "k + 1" c'] Inr r show ?thesis by (auto split: sum.split catalog_error.split)
  qed simp
qed simp

lemma find_skip: "\<not> list_ex P xs \<Longrightarrow> List.find (\<lambda>r. P r \<and> Q r) (xs @ ys) = List.find (\<lambda>r. P r \<and> Q r) ys"
  by (induction xs) auto

text \<open>The parts of a successful write.\<close>

lemma ingest_writeE:
  assumes "ingest_write lb fmt run tenant table bs key st c = Some (Inr ack, st', c')"
  obtains w res sn c1 where "append_all lb (writer_new fmt (run_extent run) (it_schema table)) bs = Some w"
    "writer_finish lb st w = Some (Inr (st', res))"
    "ingest_commit (run_env run) (run_ids run) (run_clock run) tenant (it_id table)
       (table_result_to_manifest (it_id table) (it_schema_id table) (run_created run) res) c = (Inr sn, c1)"
    "ack = \<lparr>ack_snapshot = sn, ack_extents = 1, ack_rows = sum_list (map num_rows bs), ack_bytes = res_byte_size res,
            ack_replayed = False\<rparr>"
    "c' = record_key tenant key \<lparr>le_table = it_id table, le_snapshot = sn, le_rows = sum_list (map num_rows bs),
            le_bytes = res_byte_size res, le_applied_at = run_applied run\<rparr> c1"
proof -
  from assms obtain w where w: "append_batches lb (writer_new fmt (run_extent run) (it_schema table)) bs = Some (Inr w)"
    by (auto simp: ingest_write_def split: option.splits sum.splits)
  with assms obtain res where f: "writer_finish lb st w = Some (Inr (st', res))"
    by (auto simp: ingest_write_def Let_def split: option.splits sum.splits prod.splits)
  obtain r c1 where r: "ingest_commit (run_env run) (run_ids run) (run_clock run) tenant (it_id table)
       (table_result_to_manifest (it_id table) (it_schema_id table) (run_created run) res) c = (r, c1)" by fastforce
  show thesis
  proof (cases r)
    case (Inl e)
    with assms w f r show ?thesis by (simp add: ingest_write_def Let_def)
  next
    case (Inr sn)
    with assms w f r show ?thesis
      by (intro that [OF append_batches_all [OF w] f]) (auto simp: ingest_write_def Let_def)
  qed
qed

lemma record_key_extents [simp]: "cat_extents (record_key tenant key entry c) = cat_extents c"
  by (auto simp: record_key_def record_idempotency_def split: option.split)

lemma ingest_fresh:
  assumes "ingest lb fmt run tenant table bs key st c = Some (Inr ack, st', c')" "\<not> ack_replayed ack" "bs \<noteq> []"
  shows "ingest_write lb fmt run tenant table bs key st c = Some (Inr ack, st', c')" "\<not> it_federated table"
  using assms by (auto simp: ingest_def split: if_splits option.splits)

section \<open>Properties\<close>



text \<open>
  A key whose ledger row has expired protects nothing any more. The row is
  still in the table, so a further ingest under the key is applied but cannot record it, and a
  repetition of that ingest at any later time finds no entry and is applied again.
\<close>

theorem expired_key_unprotected:
  assumes ok: "ingest lb fmt run tenant table bs (Some key) st c = Some (Inr ack, st', c')" "bs \<noteq> []"
    and old: "\<exists>r \<in> set (cat_ledger c). ledger_hit tenant key r"
    and expired: "\<forall>r \<in> set (cat_ledger c). ledger_hit tenant key r \<longrightarrow> (\<exists>t \<le> run_now run. lr_expires_at r = Some t)"
    and env: "\<forall>k d. cat_ledger (run_env run k d) = cat_ledger d"
  shows "\<not> ack_replayed ack \<and> cat_ledger c' = cat_ledger c \<and>
    (\<forall>now \<ge> run_now run. lookup_idempotency tenant key now c' = None)"
proof -
  have none: "lookup_idempotency tenant key now c = None" if "now \<ge> run_now run" for now
    using expired that by (fastforce simp: lookup_idempotency_def find_None_iff)
  with ok have wr: "ingest_write lb fmt run tenant table bs (Some key) st c = Some (Inr ack, st', c')"
    by (auto simp: ingest_def split: if_splits)
  from wr obtain sn c1 e m where
    cm: "ingest_commit (run_env run) (run_ids run) (run_clock run) tenant (it_id table) m c = (Inr sn, c1)"
    and ack: "\<not> ack_replayed ack" and c': "c' = record_key tenant (Some key) e c1" by (rule ingest_writeE) simp
  have l1: "cat_ledger c1 = cat_ledger c"
    using commit_loop_ledger [of "run_env run"] env cm unfolding ingest_commit_def by (metis snd_conv)
  have "list_ex (ledger_hit tenant key) (cat_ledger c1)" using old by (simp add: l1 list_ex_iff)
  then have "c' = c1" by (simp add: c' record_key_def record_idempotency_def)
  with l1 ack none show ?thesis by (simp add: lookup_idempotency_def)
qed

section \<open>An example\<close>

definition sample_run :: ingest_run where
  "sample_run = \<lparr>run_extent = ''x1'', run_ids = \<lambda>_. (4, 4), run_clock = \<lambda>_. 0, run_env = \<lambda>_ d. d, run_now = 0, run_created = 0,
     run_applied = 0\<rparr>"

definition sample_table :: ingest_table where
  "sample_table = \<lparr>it_id = 1, it_snapshot = 3, it_schema_id = 2, it_schema = ex_schema, it_federated = False\<rparr>"

lemma append_batches_ok: "append_all lb w bs = Some w' \<Longrightarrow> append_batches lb w bs = Some (Inr w')"
  by (induction bs arbitrary: w) (auto split: option.splits prod.splits sum.splits)

lemma commit_on_seed:
  assumes "cat_tables c = cat_tables seed_catalog" "cat_snapshots c = cat_snapshots seed_catalog" "cat_manifests c = []"
    "cat_extents c = []"
  shows "\<exists>c'. ingest_commit (\<lambda>_ d. d) (\<lambda>_. (4, 4)) (\<lambda>_. 0) 7 1 m c = (Inr 4, c')"
  unfolding ingest_commit_def
  by (simp add: assms commit_loop.simps(2) [of _ _ _ _ _ _ _ 19, simplified] begin_snapshot_def commit_def
      seed_eq Let_def insert_row_def bindE_def cas_hit_def add_extent_def)

lemma sample_ingest:
  assumes "cat_tables c = cat_tables seed_catalog" "cat_snapshots c = cat_snapshots seed_catalog" "cat_manifests c = []"
    "cat_extents c = []" "\<And>k. key = Some k \<Longrightarrow> lookup_idempotency 7 k 0 c = None"
  shows "\<exists>ack st' c'. ingest ex_libs ex_format sample_run 7 sample_table [ex_batch] key Map.empty c = Some (Inr ack, st', c') \<and>
    \<not> ack_replayed ack"
proof -
  obtain w where w: "append_all ex_libs (writer_new ex_format ''x1'' ex_schema) [ex_batch] = Some w"
    using ex_append by blast
  obtain st' res where f: "writer_finish ex_libs Map.empty w = Some (Inr (st', res))" using ex_finish [OF w] by blast
  obtain c' where c: "ingest_commit (\<lambda>_ d. d) (\<lambda>_. (4, 4)) (\<lambda>_. 0) 7 1 (table_result_to_manifest 1 2 0 res) c = (Inr 4, c')"
    using commit_on_seed [OF assms(1-4)] by blast
  have "Option.bind key (\<lambda>k. lookup_idempotency 7 k 0 c) = None" using assms(5) by (cases key) auto
  then show ?thesis
    using append_batches_ok [OF w] f c
    by (simp add: ingest_def ingest_write_def sample_run_def sample_table_def Let_def del: append_batches.simps)
qed



theorem expired_key_unprotected_witness:
  "\<exists>ack st' c'. ingest ex_libs ex_format sample_run 7 sample_table [ex_batch] (Some ''k'') Map.empty
       (seed_catalog\<lparr>cat_ledger := [\<lparr>lr_tenant = 7, lr_key = ''k'', lr_entry = \<lparr>le_table = 1, le_snapshot = 3, le_rows = 0,
          le_bytes = 0, le_applied_at = - ledger_ttl\<rparr>, lr_expires_at = Some 0\<rparr>]\<rparr>) = Some (Inr ack, st', c') \<and>
     \<not> ack_replayed ack \<and> lookup_idempotency 7 ''k'' 1 c' = None"
  (is "\<exists>ack st' c'. ingest _ _ _ _ _ _ _ _ ?c = _ \<and> _")
proof -
  have "lookup_idempotency 7 ''k'' 0 ?c = None" by (simp add: lookup_idempotency_def ledger_hit_def)
  then obtain ack st' c' where i: "ingest ex_libs ex_format sample_run 7 sample_table [ex_batch] (Some ''k'') Map.empty ?c = Some (Inr ack, st', c')"
    using sample_ingest [of ?c "Some ''k''"] by (auto simp: seed_eq)
  have e: "\<forall>k d. cat_ledger (run_env sample_run k d) = cat_ledger d" by (simp add: sample_run_def)
  have "\<exists>r \<in> set (cat_ledger ?c). ledger_hit 7 ''k'' r"
    "\<forall>r \<in> set (cat_ledger ?c). ledger_hit 7 ''k'' r \<longrightarrow> (\<exists>t \<le> run_now sample_run. lr_expires_at r = Some t)"
    by (simp_all add: ledger_hit_def sample_run_def)
  from expired_key_unprotected [OF i _ this e] have "\<not> ack_replayed ack"
    "\<forall>now \<ge> run_now sample_run. lookup_idempotency 7 ''k'' now c' = None" by simp_all
  then show ?thesis using i by (auto simp: sample_run_def)
qed

end
