(* ===== verification/Background_Tasks.thy ===== *)
theory Background_Tasks
  imports Commit_Retry Jobs
begin

text \<open>
  The background task queue of the SQLite catalog (\<open>submit_task\<close>, \<open>claim_task\<close>, \<open>complete_task\<close>, \<open>fail_task\<close>
  of \<open>pensieve-catalog-sqlite/src/lib.rs\<close>), the query for compaction candidates, and the compaction
  scheduler of \<open>pensieve-compaction/src/lib.rs\<close> that turns candidates into tasks.

  A task table is a list of rows in insertion order. Identifiers and instants are arguments. The
  encoding of a task's payload is a pair of functions, \<open>serde_json\<close>'s two directions.
\<close>

section \<open>The task queue\<close>

datatype task_status = TaskPending | TaskRunning | TaskDone | TaskFailed

record task_row =
  bt_id :: nat
  bt_tenant :: nat
  bt_kind :: string
  bt_table :: "nat option"
  bt_payload :: json
  bt_priority :: int
  bt_status :: task_status
  bt_attempt :: nat
  bt_max_attempts :: nat
  bt_expires :: "int option"
  bt_claimed_by :: "nat option"
  bt_error :: "string option"
  bt_created_at :: int
  bt_updated_at :: int

text \<open>What a claim returns.\<close>

record background_task =
  task_id :: nat
  task_kind :: string
  task_table :: "nat option"
  task_payload :: json
  task_priority :: int
  task_attempt :: nat
  task_max_attempts :: nat
  task_expires :: int

definition submit_task :: "nat \<Rightarrow> int \<Rightarrow> nat \<Rightarrow> string \<Rightarrow> nat option \<Rightarrow> json \<Rightarrow> int \<Rightarrow> task_row list
    \<Rightarrow> (catalog_error + nat) \<times> task_row list" where
  "submit_task i now tenant kind table pl prio ts =
     (case insert_row unique_error (\<lambda>t. bt_id t = i)
        \<lparr>bt_id = i, bt_tenant = tenant, bt_kind = kind, bt_table = table, bt_payload = pl, bt_priority = prio,
         bt_status = TaskPending, bt_attempt = 0, bt_max_attempts = 5, bt_expires = None, bt_claimed_by = None,
         bt_error = None, bt_created_at = now, bt_updated_at = now\<rparr> ts of
        Inl e \<Rightarrow> (Inl e, ts)
      | Inr ts' \<Rightarrow> (Inr i, ts'))"

definition open_task :: "task_row \<Rightarrow> bool" where
  "open_task t \<longleftrightarrow> bt_status t = TaskPending \<or> bt_status t = TaskRunning"

definition task_claimable :: "string \<Rightarrow> int \<Rightarrow> task_row \<Rightarrow> bool" where
  "task_claimable kind now t \<longleftrightarrow> bt_kind t = kind \<and> open_task t \<and>
     (case bt_expires t of None \<Rightarrow> True | Some e \<Rightarrow> e < now)"

definition task_before :: "task_row \<Rightarrow> task_row \<Rightarrow> bool" where
  "task_before a b \<longleftrightarrow> bt_priority a > bt_priority b \<or>
     (bt_priority a = bt_priority b \<and> bt_created_at a < bt_created_at b)"

definition claim_row :: "nat \<Rightarrow> int \<Rightarrow> int \<Rightarrow> nat \<Rightarrow> task_row \<Rightarrow> task_row" where
  "claim_row node now lease n t = t\<lparr>bt_status := TaskRunning, bt_attempt := n, bt_expires := Some (now + lease),
     bt_claimed_by := Some node, bt_updated_at := now\<rparr>"

text \<open>The transaction of \<open>claim_task\<close>: select, update, and report the task when one row changed.\<close>

definition claim_task :: "string \<Rightarrow> nat \<Rightarrow> int \<Rightarrow> int \<Rightarrow> task_row list \<Rightarrow> background_task option \<times> task_row list" where
  "claim_task kind node now lease ts =
     (case select_best task_before (filter (task_claimable kind now) ts) of
        None \<Rightarrow> (None, ts)
      | Some r \<Rightarrow>
          (let hit = (\<lambda>t. bt_id t = bt_id r \<and> open_task t); n = bt_attempt r + 1;
               ts' = map (\<lambda>t. if hit t then claim_row node now lease n t else t) ts in
           if length (filter hit ts) \<noteq> 1 then (None, ts')
           else (Some \<lparr>task_id = bt_id r, task_kind = bt_kind r, task_table = bt_table r, task_payload = bt_payload r,
                       task_priority = bt_priority r, task_attempt = n, task_max_attempts = bt_max_attempts r,
                       task_expires = now + lease\<rparr>, ts')))"

definition complete_task :: "nat \<Rightarrow> int \<Rightarrow> task_row list \<Rightarrow> task_row list" where
  "complete_task i now ts = map (\<lambda>t. if bt_id t = i then t\<lparr>bt_status := TaskDone, bt_updated_at := now\<rparr> else t) ts"

definition fail_task :: "nat \<Rightarrow> string \<Rightarrow> int \<Rightarrow> task_row list \<Rightarrow> task_row list" where
  "fail_task i err now ts = map (\<lambda>t. if bt_id t = i
     then t\<lparr>bt_status := (if bt_attempt t < bt_max_attempts t then TaskPending else TaskFailed), bt_expires := None,
            bt_error := Some err, bt_updated_at := now\<rparr> else t) ts"

section \<open>Compaction candidates\<close>

text \<open>
  The rows of the common table expression \<open>small\<close>, and \<open>rnk <= max_merge\<close> of one partition: the smallest
  extents, ties in table order.
\<close>

definition small_live :: "nat \<Rightarrow> int \<Rightarrow> catalog \<Rightarrow> cat_extent list" where
  "small_live tenant small_bytes c =
     filter (\<lambda>e. deleted_at e = None \<and> row_tenant e = tenant \<and> int (byte_size (row_manifest e)) < small_bytes) (cat_extents c)"

definition partition_of :: "nat \<Rightarrow> cat_extent list \<Rightarrow> cat_extent list" where
  "partition_of tid es = sort_key (\<lambda>e. byte_size (row_manifest e)) (filter (\<lambda>e. ext_table_id (row_manifest e) = tid) es)"

text \<open>The selected rows grouped by table (\<open>BTreeMap\<close>: ascending table ids), groups of one dropped.\<close>

definition compaction_candidates :: "nat \<Rightarrow> int \<Rightarrow> int \<Rightarrow> int \<Rightarrow> catalog \<Rightarrow> (nat \<times> string list) list" where
  "compaction_candidates tenant small_bytes min_extents max_merge c =
     (let es = small_live tenant small_bytes c;
          tids = sorted_list_of_set (set (map (\<lambda>e. ext_table_id (row_manifest e)) es));
          group = (\<lambda>tid. let p = partition_of tid es in
            if int (length p) \<ge> min_extents then map extent_of (take (nat max_merge) p) else [])
      in filter (\<lambda>(tid, ids). length ids \<ge> 2) (map (\<lambda>tid. (tid, group tid)) tids))"

record scheduler =
  min_extents_to_compact :: int
  max_merge :: int
  small_extent_threshold_bytes :: int

definition scheduler_new :: scheduler where
  "scheduler_new = \<lparr>min_extents_to_compact = 4, max_merge = 8, small_extent_threshold_bytes = 64 * 1024 * 1024\<rparr>"

text \<open>The loop of \<open>tick\<close>; \<open>ids k\<close> and \<open>now k\<close> belong to the \<open>k\<close>-th submission.\<close>

fun submit_groups :: "(string list \<Rightarrow> json) \<Rightarrow> (nat \<Rightarrow> nat) \<Rightarrow> (nat \<Rightarrow> int) \<Rightarrow> nat \<Rightarrow> (nat \<times> string list) list \<Rightarrow> nat
    \<Rightarrow> task_row list \<Rightarrow> (catalog_error + unit) \<times> task_row list" where
  "submit_groups enc ids now tenant [] k ts = (Inr (), ts)"
| "submit_groups enc ids now tenant ((tid, srcs) # gs) k ts =
     (case submit_task (ids k) (now k) tenant ''compaction'' (Some tid) (enc srcs) 0 ts of
        (Inl e, ts') \<Rightarrow> (Inl e, ts')
      | (Inr _, ts') \<Rightarrow> submit_groups enc ids now tenant gs (k + 1) ts')"

definition scheduler_tick :: "(string list \<Rightarrow> json) \<Rightarrow> (nat \<Rightarrow> nat) \<Rightarrow> (nat \<Rightarrow> int) \<Rightarrow> nat \<Rightarrow> scheduler \<Rightarrow> catalog
    \<Rightarrow> task_row list \<Rightarrow> (catalog_error + unit) \<times> task_row list" where
  "scheduler_tick enc ids now tenant s c ts =
     submit_groups enc ids now tenant
       (compaction_candidates tenant (small_extent_threshold_bytes s) (min_extents_to_compact s) (max_merge s) c) 0 ts"

section \<open>What is planned\<close>

lemma partition_of_set: "set (partition_of tid es) = {e \<in> set es. ext_table_id (row_manifest e) = tid}"
  by (auto simp: partition_of_def)

lemma sorted_take_drop: "sorted (map f xs) \<Longrightarrow> x \<in> set (take n xs) \<Longrightarrow> y \<in> set (drop n xs) \<Longrightarrow> f x \<le> f y"
proof -
  assume s: "sorted (map f xs)" and x: "x \<in> set (take n xs)" and y: "y \<in> set (drop n xs)"
  have "sorted (map f (take n xs) @ map f (drop n xs))" using s by (metis append_take_drop_id map_append)
  with x y show "f x \<le> f y" by (auto simp: sorted_append)
qed

lemma candidates_iff:
  "(tid, ids) \<in> set (compaction_candidates tenant small_bytes min_extents mm c) \<longleftrightarrow>
     (let p = partition_of tid (small_live tenant small_bytes c) in
      ids = map extent_of (take (nat mm) p) \<and> min_extents \<le> int (length p) \<and> 2 \<le> length ids)"
proof -
  let ?es = "small_live tenant small_bytes c"
  let ?p = "partition_of tid ?es"
  let ?tids = "set (map (\<lambda>e. ext_table_id (row_manifest e)) ?es)"
  let ?g = "if min_extents \<le> int (length ?p) then map extent_of (take (nat mm) ?p) else []"
  have mem: "tid \<in> ?tids \<longleftrightarrow> ?p \<noteq> []"
    using partition_of_set [of tid ?es] by (auto simp: image_iff simp flip: set_empty)
  have "(tid, ids) \<in> set (compaction_candidates tenant small_bytes min_extents mm c) \<longleftrightarrow> tid \<in> ?tids \<and> ids = ?g \<and> 2 \<le> length ids"
    unfolding compaction_candidates_def Let_def by auto
  also have "\<dots> \<longleftrightarrow> ids = map extent_of (take (nat mm) ?p) \<and> min_extents \<le> int (length ?p) \<and> 2 \<le> length ids"
    unfolding mem by (cases "min_extents \<le> int (length ?p)") (simp_all, auto)
  finally show ?thesis unfolding Let_def .
qed

lemma small_live_rows: "e \<in> set (small_live tenant small_bytes c) \<longleftrightarrow> e \<in> set (cat_extents c) \<and> deleted_at e = None \<and>
    row_tenant e = tenant \<and> int (byte_size (row_manifest e)) < small_bytes"
  by (auto simp: small_live_def)

text \<open>The extents of a table that the planner considers.\<close>

definition small_ids :: "nat \<Rightarrow> int \<Rightarrow> nat \<Rightarrow> catalog \<Rightarrow> string set" where
  "small_ids tenant small_bytes tid c = extent_of ` {e \<in> set (cat_extents c). deleted_at e = None \<and> row_tenant e = tenant \<and>
     ext_table_id (row_manifest e) = tid \<and> int (byte_size (row_manifest e)) < small_bytes}"

lemma small_ids_partition: "small_ids tenant small_bytes tid c = extent_of ` set (partition_of tid (small_live tenant small_bytes c))"
  unfolding small_ids_def partition_of_set by (rule arg_cong [of _ _ "image extent_of"]) (auto simp: small_live_rows)

lemma partition_distinct:
  assumes "cat_inv c"
  shows "distinct (map extent_of (partition_of tid (small_live tenant small_bytes c)))"
proof -
  have "distinct (map extent_of (cat_extents c))" using assms by (simp add: cat_inv_def)
  then have "distinct (map extent_of (filter (\<lambda>e. ext_table_id (row_manifest e) = tid) (small_live tenant small_bytes c)))"
    by (simp add: small_live_def distinct_map_filter)
  then have "distinct (filter (\<lambda>e. ext_table_id (row_manifest e) = tid) (small_live tenant small_bytes c))"
    "inj_on extent_of (set (filter (\<lambda>e. ext_table_id (row_manifest e) = tid) (small_live tenant small_bytes c)))"
    by (simp_all only: distinct_map)
  then show ?thesis by (simp add: partition_of_def distinct_map)
qed

text \<open>The size of an extent in the catalog.\<close>

definition size_of :: "catalog \<Rightarrow> string \<Rightarrow> nat" where
  "size_of c i = (case List.find (\<lambda>e. extent_of e = i) (cat_extents c) of None \<Rightarrow> 0 | Some e \<Rightarrow> byte_size (row_manifest e))"

lemma size_of_row:
  assumes "cat_inv c" "e \<in> set (cat_extents c)"
  shows "size_of c (extent_of e) = byte_size (row_manifest e)"
proof -
  have d: "distinct (map extent_of (cat_extents c))" using assms(1) by (simp add: cat_inv_def)
  have "List.find (\<lambda>x. extent_of x = extent_of e) (cat_extents c) \<noteq> None" using assms(2) by (auto simp: find_None_iff)
  then obtain x where x: "List.find (\<lambda>x. extent_of x = extent_of e) (cat_extents c) = Some x" by auto
  then have "x \<in> set (cat_extents c)" "extent_of x = extent_of e" by (auto simp: find_Some_iff)
  with distinct_key [OF d _ assms(2)] have "x = e" by simp
  with x show ?thesis by (simp add: size_of_def)
qed

text \<open>The promise of the planner about the group of one table.\<close>

definition good_group :: "nat \<Rightarrow> int \<Rightarrow> int \<Rightarrow> nat \<Rightarrow> catalog \<Rightarrow> string list \<Rightarrow> bool" where
  "good_group tenant small_bytes mm tid c ids \<longleftrightarrow>
     distinct ids \<and> set ids \<subseteq> small_ids tenant small_bytes tid c \<and>
     int (length ids) = min mm (int (card (small_ids tenant small_bytes tid c))) \<and>
     (\<forall>i \<in> set ids. \<forall>j \<in> small_ids tenant small_bytes tid c - set ids. size_of c i \<le> size_of c j)"

lemma card_small_ids:
  assumes "cat_inv c"
  shows "card (small_ids tenant small_bytes tid c) = length (partition_of tid (small_live tenant small_bytes c))"
  unfolding small_ids_partition using distinct_card [OF partition_distinct [OF assms]] by simp

lemma group_good:
  assumes inv: "cat_inv c" and mm: "0 \<le> mm"
  shows "good_group tenant small_bytes mm tid c
    (map extent_of (take (nat mm) (partition_of tid (small_live tenant small_bytes c))))"
proof -
  let ?p = "partition_of tid (small_live tenant small_bytes c)"
  let ?ids = "map extent_of (take (nat mm) ?p)"
  note d = partition_distinct [OF inv, of tid tenant small_bytes]
  have rest: "small_ids tenant small_bytes tid c - set ?ids \<subseteq> extent_of ` set (drop (nat mm) ?p)"
  proof -
    have "set ?p = set (take (nat mm) ?p) \<union> set (drop (nat mm) ?p)" by (metis append_take_drop_id set_append)
    then show ?thesis unfolding small_ids_partition by auto
  qed
  have srt: "sorted (map (\<lambda>e. byte_size (row_manifest e)) ?p)" by (simp add: partition_of_def)
  have row: "size_of c (extent_of e) = byte_size (row_manifest e)" if "e \<in> set ?p" for e
    using that size_of_row [OF inv] unfolding partition_of_set by (simp add: small_live_rows)
  have le: "size_of c i \<le> size_of c j" if i: "i \<in> set ?ids" and j: "j \<in> small_ids tenant small_bytes tid c - set ?ids" for i j
  proof -
    obtain e where e: "e \<in> set (take (nat mm) ?p)" "i = extent_of e" using i by auto
    obtain f where f: "f \<in> set (drop (nat mm) ?p)" "j = extent_of f" using subsetD [OF rest j] by auto
    show ?thesis
      using sorted_take_drop [OF srt e(1) f(1)] row [OF in_set_takeD [OF e(1)]] row [OF in_set_dropD [OF f(1)]] e(2) f(2)
      by simp
  qed
  have "distinct ?ids" using distinct_take [OF d] by (simp add: take_map)
  moreover have "set ?ids \<subseteq> small_ids tenant small_bytes tid c"
    unfolding small_ids_partition by (auto dest: in_set_takeD)
  moreover have "int (length ?ids) = min mm (int (length ?p))" using mm by simp
  ultimately show ?thesis unfolding good_group_def card_small_ids [OF inv] using le by blast
qed

text \<open>
  On a reachable catalog the planner proposes a group for exactly the tables that have
  at least \<open>min_extents\<close> small live extents, and no other group for them. The group's members are distinct
  small live extents of that table, as many as there are up to \<open>max_merge\<close>, and no extent left out is
  smaller than one chosen.
\<close>

theorem candidates_correct:
  assumes "cat_reachable c" and "2 \<le> min_extents" and "2 \<le> mm"
  shows "if min_extents \<le> int (card (small_ids tenant small_bytes tid c))
         then \<exists>ids. {g. (tid, g) \<in> set (compaction_candidates tenant small_bytes min_extents mm c)} = {ids} \<and>
                    good_group tenant small_bytes mm tid c ids
         else {g. (tid, g) \<in> set (compaction_candidates tenant small_bytes min_extents mm c)} = {}"
proof -
  let ?p = "partition_of tid (small_live tenant small_bytes c)"
  let ?ids = "map extent_of (take (nat mm) ?p)"
  have inv: "cat_inv c" by (rule cat_reachable_inv [OF assms(1)])
  have eq: "{g. (tid, g) \<in> set (compaction_candidates tenant small_bytes min_extents mm c)} =
      {g. g = ?ids \<and> min_extents \<le> int (length ?p) \<and> 2 \<le> length g}"
    unfolding candidates_iff Let_def by simp
  show ?thesis
  proof (cases "min_extents \<le> int (length ?p)")
    case True
    then have "2 \<le> length ?ids" using assms(2,3) by simp
    with True have "{g. g = ?ids \<and> min_extents \<le> int (length ?p) \<and> 2 \<le> length g} = {?ids}" by blast
    then show ?thesis unfolding eq card_small_ids [OF inv] using True group_good [OF inv] assms(3) by simp
  next
    case False
    then show ?thesis unfolding eq card_small_ids [OF inv] by simp
  qed
qed

section \<open>What is claimed\<close>

lemma task_before_first:
  assumes "select_best task_before xs = Some x" and "y \<in> set xs"
  shows "\<not> task_before y x"
  using select_best_first [of task_before, OF _ _ _ assms] unfolding task_before_def by linarith

lemma map_hit_nth:
  assumes "distinct (map key xs)" and "k < length xs" and "P (xs ! k)"
  shows "map (\<lambda>x. if key x = key (xs ! k) \<and> P x then f x else x) xs = xs[k := f (xs ! k)]"
    and "length (filter (\<lambda>x. key x = key (xs ! k) \<and> P x) xs) = 1"
proof -
  have eq: "key (xs ! i) = key (xs ! k) \<longleftrightarrow> i = k" if "i < length xs" for i
    using nth_eq_iff_index_eq [OF assms(1), of i k] that assms(2) by simp
  show "map (\<lambda>x. if key x = key (xs ! k) \<and> P x then f x else x) xs = xs[k := f (xs ! k)]"
  proof (rule nth_equalityI)
    fix i assume i: "i < length (map (\<lambda>x. if key x = key (xs ! k) \<and> P x then f x else x) xs)"
    then show "map (\<lambda>x. if key x = key (xs ! k) \<and> P x then f x else x) xs ! i = xs[k := f (xs ! k)] ! i"
      using eq [of i] assms(3) by (auto simp: nth_list_update)
  qed simp
  have "{i. i < length xs \<and> key (xs ! i) = key (xs ! k) \<and> P (xs ! i)} = {k}" using eq assms(2,3) by auto
  then show "length (filter (\<lambda>x. key x = key (xs ! k) \<and> P x) xs) = 1" by (simp add: length_filter_conv_card)
qed

text \<open>
  A claim takes the claimable task of the kind that no other claimable one precedes,
  by priority and then by age, and changes only its row: it is running, leased to the worker, and its
  attempt is counted. It returns nothing exactly when no task is claimable, and then changes nothing.
\<close>

theorem claim_task_correct:
  assumes "distinct (map bt_id ts)"
  shows "case claim_task kind node now lease ts of
      (None, ts') \<Rightarrow> ts' = ts \<and> list_all (\<lambda>t. \<not> task_claimable kind now t) ts
    | (Some b, ts') \<Rightarrow> \<exists>k < length ts. task_claimable kind now (ts ! k) \<and>
        (\<forall>t \<in> set ts. task_claimable kind now t \<longrightarrow> \<not> task_before t (ts ! k)) \<and>
        ts' = ts[k := claim_row node now lease (bt_attempt (ts ! k) + 1) (ts ! k)] \<and>
        task_id b = bt_id (ts ! k) \<and> task_kind b = kind \<and> task_payload b = bt_payload (ts ! k) \<and>
        task_table b = bt_table (ts ! k) \<and> task_attempt b = bt_attempt (ts ! k) + 1"
proof (cases "select_best task_before (filter (task_claimable kind now) ts)")
  case None
  then show ?thesis by (simp add: claim_task_def list_all_iff filter_empty_conv)
next
  case (Some r)
  have r: "r \<in> set ts" "task_claimable kind now r" using select_best_mem [OF Some] by auto
  from r(1) obtain k where k: "k < length ts" "ts ! k = r" by (auto simp: in_set_conv_nth)
  have "open_task (ts ! k)" using r(2) k(2) by (simp add: task_claimable_def)
  note hit = map_hit_nth [where key = bt_id and P = open_task, OF assms k(1) this, unfolded k(2)]
  have first: "\<forall>t \<in> set ts. task_claimable kind now t \<longrightarrow> \<not> task_before t r"
    using task_before_first [OF Some] by simp
  have "\<exists>b. claim_task kind node now lease ts = (Some b, ts[k := claim_row node now lease (bt_attempt r + 1) r]) \<and>
      task_id b = bt_id r \<and> task_kind b = kind \<and> task_payload b = bt_payload r \<and>
      task_table b = bt_table r \<and> task_attempt b = bt_attempt r + 1"
    using r(2) hit(1) [where f = "claim_row node now lease (bt_attempt r + 1)"] hit(2)
    unfolding claim_task_def Some Let_def by (simp add: task_claimable_def)
  then obtain b where b: "claim_task kind node now lease ts = (Some b, ts[k := claim_row node now lease (bt_attempt r + 1) r])"
    "task_id b = bt_id r" "task_kind b = kind" "task_payload b = bt_payload r" "task_table b = bt_table r"
    "task_attempt b = bt_attempt r + 1" by blast
  show ?thesis unfolding b(1) prod.case option.case
    by (rule exI [of _ k]) (use b(2-) k r(2) first in simp)
qed

section \<open>The same extents twice\<close>

text \<open>A table with four small extents, and a second worker whose commit lands during the first one's first attempt.\<close>

definition four_extents :: catalog where
  "four_extents = fold (\<lambda>(i, n) c. snd (ingest_commit (\<lambda>_ d. d) (\<lambda>_. (n, n)) (\<lambda>_. 0) 7 1 (sample_extent i) c))
     [(''a'', 4), (''b'', 5), (''c'', 6), (''d'', 7)] seed_catalog"

definition second_compactor :: "string list \<Rightarrow> nat \<Rightarrow> catalog \<Rightarrow> catalog" where
  "second_compactor srcs k c = (if k = 1
     then snd (compaction_commit (\<lambda>_ d. d) (\<lambda>_. (20, 20)) (\<lambda>_. 0) 7 1 (sample_extent ''m1'') srcs 4 4 c) else c)"

definition payload_json :: "string list \<Rightarrow> json" where
  "payload_json ids = JObject [(''source_extent_ids'', JArray (map JString ids))]"

definition two_ticks :: "task_row list" where
  "two_ticks = snd (scheduler_tick payload_json (\<lambda>k. 11 + k) (\<lambda>_. 30) 7 scheduler_new four_extents
     (snd (scheduler_tick payload_json (\<lambda>k. 10 + k) (\<lambda>_. 0) 7 scheduler_new four_extents [])))"

lemma four_extents_reachable: "cat_reachable four_extents"
  unfolding four_extents_def by (simp add: ingest_commit_def) (intro commit_loop_reachable seed_reachable)

text \<open>
  The scheduler does not look at the tasks that are already queued, so two ticks before a
  worker is done submit the same extents twice, and two workers claim the two tasks. The commit of a
  compaction that conflicts is retried with the extents it read before: removing an extent that is no
  longer live changes nothing, and its merged extent is added all the same. Both merged extents are
  live in the end, and every row is stored twice.
\<close>

theorem duplicate_compaction:
  "cat_reachable four_extents \<and> live 7 1 four_extents = {''a'', ''b'', ''c'', ''d''} \<and>
   (\<exists>t u ts ts'. claim_task ''compaction'' 1 31 120 two_ticks = (Some t, ts) \<and>
      claim_task ''compaction'' 2 32 120 ts = (Some u, ts') \<and> task_id t \<noteq> task_id u \<and>
      task_payload t = payload_json [''a'', ''b'', ''c'', ''d''] \<and> task_payload u = task_payload t) \<and>
   (\<exists>c'. compaction_commit (second_compactor [''a'', ''b'', ''c'', ''d'']) (\<lambda>k. (30 + k, 30 + k)) (\<lambda>_. 0) 7 1
        (sample_extent ''m2'') [''a'', ''b'', ''c'', ''d''] 4 4 four_extents = (Inr 32, c') \<and> live 7 1 c' = {''m1'', ''m2''})"
proof -
  let ?live = "\<lambda>c. map extent_of (filter (\<lambda>e. row_tenant e = 7 \<and> ext_table_id (row_manifest e) = 1 \<and> deleted_at e = None) (cat_extents c))"
  have l: "?live four_extents = [''a'', ''b'', ''c'', ''d'']" by code_simp
  let ?r = "compaction_commit (second_compactor [''a'', ''b'', ''c'', ''d'']) (\<lambda>k. (30 + k, 30 + k)) (\<lambda>_. 0) 7 1
        (sample_extent ''m2'') [''a'', ''b'', ''c'', ''d''] 4 4 four_extents"
  have r: "fst ?r = Inr 32" by code_simp
  have m: "?live (snd ?r) = [''m1'', ''m2'']" by code_simp
  let ?t = "\<lambda>i. \<lparr>task_id = i, task_kind = ''compaction'', task_table = Some 1, task_payload = payload_json [''a'', ''b'', ''c'', ''d''],
      task_priority = 0, task_attempt = 1, task_max_attempts = 5, task_expires = 141 + int i\<rparr>"
  let ?c = "claim_task ''compaction'' 1 31 120 two_ticks"
  have t: "fst ?c = Some (?t 10)" "fst (claim_task ''compaction'' 2 32 120 (snd ?c)) = Some (?t 11)" by code_simp+
  have "?c = (Some (?t 10), snd ?c)" "claim_task ''compaction'' 2 32 120 (snd ?c) = (Some (?t 11), snd (claim_task ''compaction'' 2 32 120 (snd ?c)))"
    by (rule prod_eqI; simp only: t fst_conv snd_conv)+
  moreover have "task_id (?t 10) \<noteq> task_id (?t 11)" "task_payload (?t 10) = payload_json [''a'', ''b'', ''c'', ''d'']"
    "task_payload (?t 11) = task_payload (?t 10)" by simp_all
  moreover have "?r = (Inr 32, snd ?r)" by (rule prod_eqI) (simp_all only: r fst_conv snd_conv)
  moreover have "live 7 1 (snd ?r) = {''m1'', ''m2''}" by (simp only: live_filter m list.set)
  moreover have "live 7 1 four_extents = {''a'', ''b'', ''c'', ''d''}" by (simp only: live_filter l list.set)
  ultimately show ?thesis using four_extents_reachable by blast
qed

text \<open>A worker that reports a failure late reopens a task that another worker has finished: no status is checked.\<close>

lemma fail_task_reopens:
  assumes "t \<in> set ts" "bt_id t = i" "bt_attempt t < bt_max_attempts t"
  shows "\<exists>u \<in> set (fail_task i err now (complete_task i now' ts)). bt_id u = i \<and> bt_status u = TaskPending"
proof -
  have "t\<lparr>bt_status := TaskDone, bt_updated_at := now'\<rparr> \<in> set (complete_task i now' ts)"
    unfolding complete_task_def set_map by (rule image_eqI [OF _ assms(1)]) (simp add: assms(2))
  then have "t\<lparr>bt_status := TaskPending, bt_updated_at := now, bt_expires := None, bt_error := Some err\<rparr>
      \<in> set (fail_task i err now (complete_task i now' ts))"
    unfolding fail_task_def set_map by (rule image_eqI [rotated]) (use assms(2,3) in simp)
  then show ?thesis by (rule bexI [rotated]) (simp add: assms(2))
qed

section \<open>Witnesses\<close>

theorem candidates_correct_witness:
  "\<exists>ids. {g. (1, g) \<in> set (compaction_candidates 7 64 4 8 four_extents)} = {ids} \<and> good_group 7 64 8 1 four_extents ids"
proof -
  have "length (partition_of 1 (small_live 7 64 four_extents)) = 4" by code_simp
  then have "card (small_ids 7 64 1 four_extents) = 4"
    by (simp only: card_small_ids [OF cat_reachable_inv [OF four_extents_reachable]])
  with candidates_correct [OF four_extents_reachable, of 4 8 7 64 1] show ?thesis by simp
qed

theorem claim_task_correct_witness:
  "distinct (map bt_id two_ticks) \<and>
   snd (claim_task ''compaction'' 1 31 120 two_ticks) = two_ticks[0 := claim_row 1 31 120 1 (two_ticks ! 0)]"
proof -
  have d: "map bt_id two_ticks = [10, 11]" by code_simp
  have n: "map bt_attempt two_ticks = [0, 0]" "map bt_created_at two_ticks = [0, 30]" "map bt_priority two_ticks = [0, 0]"
    "map (task_claimable ''compaction'' 31) two_ticks = [True, True]" by code_simp+
  have len: "length two_ticks = 2" using arg_cong [OF d, of length] by simp
  obtain a b where ab: "two_ticks = [a, b]" using len by (auto simp: numeral_2_eq_2 length_Suc_conv)
  have f: "bt_id a = 10" "bt_id b = 11" "bt_attempt a = 0" "bt_created_at a = 0" "bt_created_at b = 30"
    "bt_priority a = 0" "bt_priority b = 0" "task_claimable ''compaction'' 31 a"
    using d n unfolding ab by simp_all
  obtain o1 ts' where c: "claim_task ''compaction'' 1 31 120 two_ticks = (o1, ts')" by fastforce
  have dist: "distinct (map bt_id two_ticks)" by (simp add: d)
  have "\<exists>k < length two_ticks. \<not> task_before a (two_ticks ! k) \<and>
      ts' = two_ticks[k := claim_row 1 31 120 (bt_attempt (two_ticks ! k) + 1) (two_ticks ! k)]"
    using claim_task_correct [OF dist, where kind = "''compaction''" and node = 1 and now = 31 and lease = 120] f(8)
    unfolding c prod.case by (cases o1) (simp_all add: ab, blast)
  then obtain k where k: "k < length two_ticks" "\<not> task_before a (two_ticks ! k)"
    "ts' = two_ticks[k := claim_row 1 31 120 (bt_attempt (two_ticks ! k) + 1) (two_ticks ! k)]" by blast
  have "k = 0" using k(1,2) f by (auto simp: ab less_Suc_eq task_before_def)
  with k(3) f(3) dist show ?thesis unfolding c by (simp add: ab)
qed

end
