(* ===== verification/Catalog_Listing.thy ===== *)
theory Catalog_Listing
  imports Catalog_Snapshots
begin

text \<open>
  The listings of the catalog: databases, the tables of a database as references and by name, the columns of a table
  (\<open>pensieve-catalog-sqlite/src/lib.rs\<close>), and the two ways a table is found by its identifier: the compaction
  worker's walk and the staging buffer's join.
\<close>

section \<open>Databases and tables by name\<close>

definition list_databases :: "nat \<Rightarrow> catalog \<Rightarrow> string list" where
  "list_databases tenant c = sort (map db_name (filter (\<lambda>d. db_tenant d = tenant) (cat_databases c)))"

text \<open>
  The tables of a database in the order of their names; rows whose creation is not finished are skipped.
\<close>

definition table_ref_of :: "catalog \<Rightarrow> table_row \<Rightarrow> catalog_error + table_ref option" where
  "table_ref_of c t =
     (case (Option.bind (t_schema t) (\<lambda>sid. List.find (\<lambda>s. sch_id s = sid) (cat_schemas c)), t_snapshot t) of
        (Some s, Some sn) \<Rightarrow>
          bindE (json_to_schema (sch_arrow s)) (\<lambda>fields.
            Inr (Some \<lparr>tr_id = t_id t, tr_database = t_database t, tr_name = t_name t, tr_snapshot = sn,
                       tr_schema_id = sch_id s, tr_schema = fields, tr_config = t_config t\<rparr>))
      | _ \<Rightarrow> Inr None)"

fun collect_refs :: "(catalog_error + table_ref option) list \<Rightarrow> catalog_error + table_ref list" where
  "collect_refs [] = Inr []"
| "collect_refs (x # xs) = bindE x (\<lambda>r. bindE (collect_refs xs) (\<lambda>rs. Inr (case r of None \<Rightarrow> rs | Some t \<Rightarrow> t # rs)))"

definition list_tables_in_database :: "nat \<Rightarrow> string \<Rightarrow> catalog \<Rightarrow> catalog_error + table_ref list" where
  "list_tables_in_database tenant db c =
     collect_refs (map (table_ref_of c) (sort_key t_name
       (filter (\<lambda>t. t_tenant t = tenant \<and>
          list_ex (\<lambda>d. db_id d = t_database t \<and> db_tenant d = tenant \<and> db_name d = db) (cat_databases c)) (cat_tables c))))"

definition list_tables :: "nat \<Rightarrow> string \<Rightarrow> catalog \<Rightarrow> string list" where
  "list_tables tenant db c = sort (map t_name (filter (\<lambda>t. t_tenant t = tenant \<and>
     list_ex (\<lambda>d. db_id d = t_database t \<and> db_tenant d = tenant \<and> db_name d = db) (cat_databases c)) (cat_tables c)))"

section \<open>The columns of a table\<close>

record column_info =
  ci_name :: string
  ci_type :: string
  ci_nullable :: bool

definition column_info_of :: "json \<Rightarrow> catalog_error + column_info" where
  "column_info_of f =
     (case Option.bind (json_get f ''name'') json_as_str of
        None \<Rightarrow> Inl (SqlError ''field missing name'')
      | Some name \<Rightarrow>
     (case Option.bind (json_get f ''type'') json_as_str of
        None \<Rightarrow> Inl (SqlError ''field missing type'')
      | Some ty \<Rightarrow> Inr \<lparr>ci_name = name, ci_type = ty,
          ci_nullable = (case Option.bind (json_get f ''nullable'') json_as_bool of None \<Rightarrow> True | Some b \<Rightarrow> b)\<rparr>))"

fun column_infos :: "json list \<Rightarrow> catalog_error + column_info list" where
  "column_infos [] = Inr []"
| "column_infos (f # fs) = bindE (column_info_of f) (\<lambda>x. bindE (column_infos fs) (\<lambda>xs. Inr (x # xs)))"

definition get_table_columns :: "nat \<Rightarrow> string \<Rightarrow> string \<Rightarrow> catalog \<Rightarrow> catalog_error + column_info list" where
  "get_table_columns tenant db table c =
     (if \<not> list_ex (\<lambda>d. db_tenant d = tenant \<and> db_name d = db) (cat_databases c) then Inl (DatabaseNotFound db)
      else case Option.bind (find_table tenant db table c) (\<lambda>t. Option.bind (t_schema t)
             (\<lambda>sid. List.find (\<lambda>s. sch_id s = sid) (cat_schemas c))) of
        None \<Rightarrow> Inl (TableNotFound db table)
      | Some s \<Rightarrow>
          (case Option.bind (json_get (sch_arrow s) ''fields'') json_as_array of
             None \<Rightarrow> Inl (SqlError ''malformed arrow_schema: missing fields array'')
           | Some fs \<Rightarrow> column_infos fs))"

section \<open>Tables by identifier\<close>

text \<open>The walk over all databases of the compaction worker.\<close>

fun find_in_databases :: "nat \<Rightarrow> nat \<Rightarrow> catalog \<Rightarrow> string list \<Rightarrow> catalog_error + table_ref option" where
  "find_in_databases tenant tid c [] = Inr None"
| "find_in_databases tenant tid c (db # dbs) =
     bindE (list_tables_in_database tenant db c) (\<lambda>ts.
       case List.find (\<lambda>t. tr_id t = tid) ts of
         Some t \<Rightarrow> Inr (Some t)
       | None \<Rightarrow> find_in_databases tenant tid c dbs)"

definition list_tables_for :: "nat \<Rightarrow> nat \<Rightarrow> catalog \<Rightarrow> catalog_error + table_ref option" where
  "list_tables_for tenant tid c = find_in_databases tenant tid c (list_databases tenant c)"

text \<open>The join of the staging buffer: the name of the table's database, then the default tenant's tables in it.\<close>

definition lookup_by_id :: "nat \<Rightarrow> nat \<Rightarrow> catalog \<Rightarrow> catalog_error + table_ref option" where
  "lookup_by_id tenant tid c =
     (case Option.bind (List.find (\<lambda>t. t_id t = tid) (cat_tables c))
             (\<lambda>t. List.find (\<lambda>d. db_id d = t_database t) (cat_databases c)) of
        None \<Rightarrow> Inr None
      | Some d \<Rightarrow> bindE (list_tables_in_database tenant (db_name d) c) (\<lambda>ts. Inr (List.find (\<lambda>t. tr_id t = tid) ts)))"

section \<open>What they find\<close>

lemma find_in_databases_id: "find_in_databases tenant tid c dbs = Inr (Some t) \<Longrightarrow> tr_id t = tid"
  by (induction dbs) (auto simp: bindE_Inr_iff find_Some_iff split: option.splits)

lemma list_tables_for_id: "list_tables_for tenant tid c = Inr (Some t) \<Longrightarrow> tr_id t = tid"
  unfolding list_tables_for_def by (rule find_in_databases_id)

lemma lookup_by_id_id: "lookup_by_id tenant tid c = Inr (Some t) \<Longrightarrow> tr_id t = tid"
  by (auto simp: lookup_by_id_def bindE_Inr_iff find_Some_iff split: option.splits)

lemma collect_refs_mem: "collect_refs xs = Inr ts \<Longrightarrow> t \<in> set ts \<longleftrightarrow> Inr (Some t) \<in> set xs"
  by (induction xs arbitrary: ts) (auto simp: bindE_Inr_iff split: option.splits)

text \<open>A listed reference is a row of the tenant's database, with its current schema and snapshot.\<close>

lemma list_tables_in_database_mem:
  assumes "list_tables_in_database tenant db c = Inr ts"
  shows "r \<in> set ts \<longleftrightarrow> (\<exists>t \<in> set (cat_tables c). t_tenant t = tenant \<and> table_ref_of c t = Inr (Some r) \<and>
    (\<exists>d \<in> set (cat_databases c). db_id d = t_database t \<and> db_tenant d = tenant \<and> db_name d = db))"
  using collect_refs_mem [OF assms [unfolded list_tables_in_database_def], of r] by (auto simp: list_ex_iff image_iff)

end
