(* ===== verification/Compaction.thy ===== *)
theory Compaction
  imports Ingest Background_Tasks Catalog_Listing "HOL-Library.Multiset"
begin

text \<open>
  The compaction worker of \<open>pensieve-compaction/src/lib.rs\<close>: promoting batches of older extents to the
  table's current schema, merging the live sources of a task into one extent, and committing the
  exchange. The properties say that promotion is well typed and that a compaction is invisible to readers.

  Arrow's constructors are parameters. A field's nullability, which the format's schema leaves out, is a
  predicate beside them. \<open>dt\<close> reads a stored schema in the format's types. The follow-up that enqueues
  index builds is best effort, does not touch the catalog or the store, and is left out.
\<close>

section \<open>Promotion\<close>

record arrow_lib =
  try_new :: "(string \<times> data_type) list \<Rightarrow> arrow_array list \<Rightarrow> string + record_batch"
  new_null_array :: "data_type \<Rightarrow> nat \<Rightarrow> arrow_array"
  is_nullable :: "string \<times> data_type \<Rightarrow> bool"

datatype compaction_error = CInternal string | CExecution string | CFormat format_error | CCatalog catalog_error

definition promote_column :: "arrow_lib \<Rightarrow> record_batch \<Rightarrow> string \<times> data_type \<Rightarrow> arrow_array" where
  "promote_column ar b f =
     (case position (\<lambda>g. fst g = fst f) (schema b) of
        Some i \<Rightarrow> columns b ! i
      | None \<Rightarrow> new_null_array ar (snd f) (num_rows b))"

definition promote_batch :: "arrow_lib \<Rightarrow> record_batch \<Rightarrow> (string \<times> data_type) list \<Rightarrow> compaction_error + record_batch" where
  "promote_batch ar b target =
     (if schema b = target then Inr b
      else case try_new ar target (map (promote_column ar b) target) of
        Inl e \<Rightarrow> Inl (CExecution (''compaction schema promote: '' @ e))
      | Inr p \<Rightarrow> Inr p)"

section \<open>Merging\<close>

text \<open>A loop with \<open>?\<close> in its body: the outer \<open>None\<close> is a panic.\<close>

fun try_fold :: "('s \<Rightarrow> 'a \<Rightarrow> ('e + 's) option) \<Rightarrow> 's \<Rightarrow> 'a list \<Rightarrow> ('e + 's) option" where
  "try_fold f s [] = Some (Inr s)"
| "try_fold f s (x # xs) =
     (case f s x of
        None \<Rightarrow> None
      | Some (Inl e) \<Rightarrow> Some (Inl e)
      | Some (Inr s') \<Rightarrow> try_fold f s' xs)"

definition merge_block :: "arrow_lib \<Rightarrow> 'st libs \<Rightarrow> (string \<times> data_type) list \<Rightarrow> extent_reader \<Rightarrow> extent_writer \<times> nat \<Rightarrow> nat
    \<Rightarrow> (compaction_error + extent_writer \<times> nat) option" where
  "merge_block ar lb sch r s bid =
     (case read_block r bid [] of
        Inl e \<Rightarrow> Some (Inl (CFormat e))
      | Inr raw \<Rightarrow>
     (case promote_batch ar raw sch of
        Inl e \<Rightarrow> Some (Inl e)
      | Inr b \<Rightarrow>
     (case writer_append lb (fst s) b of
        None \<Rightarrow> None
      | Some (w, Inl e) \<Rightarrow> Some (Inl (CFormat e))
      | Some (w, Inr _) \<Rightarrow> Some (Inr (w, snd s + num_rows b)))))"

definition merge_source :: "arrow_lib \<Rightarrow> 'st libs \<Rightarrow> 'st \<Rightarrow> (string \<times> data_type) list \<Rightarrow> extent_writer \<times> nat \<Rightarrow> extent_manifest
    \<Rightarrow> (compaction_error + extent_writer \<times> nat) option" where
  "merge_source ar lb st sch s m =
     (case reader_open lb st \<lparr>in_schema = sch, in_object_path = object_path m, in_byte_size = byte_size m\<rparr> of
        None \<Rightarrow> None
      | Some (Inl e) \<Rightarrow> Some (Inl (CFormat e))
      | Some (Inr r) \<Rightarrow> try_fold (merge_block ar lb sch r) s (reader_pruned_blocks r PAll))"

text \<open>\<open>saturating_add\<close> on \<open>u32\<close>.\<close>

definition next_compaction_level :: "extent_manifest list \<Rightarrow> nat" where
  "next_compaction_level ms =
     min (u32_size - 1) ((case map compaction_gen ms of [] \<Rightarrow> 0 | g # gs \<Rightarrow> fold max gs g) + 1)"

definition new_manifest_from_write :: "table_ref \<Rightarrow> extent_write_result \<Rightarrow> nat \<Rightarrow> int \<Rightarrow> extent_manifest" where
  "new_manifest_from_write t w level now =
     \<lparr>ext_id = res_extent_id w, ext_table_id = tr_id t, schema_snapshot_id = tr_schema_id t,
      object_path = res_object_path w, byte_size = res_byte_size w, ext_row_count = res_row_count w,
      min_timestamp = res_min_timestamp_nanos w, max_timestamp = res_max_timestamp_nanos w,
      column_stats = res_column_stats w, present_paths = res_present_paths w,
      compaction_gen = max level 1, created_at = now\<rparr>"

section \<open>The worker\<close>

text \<open>The live extents among the sources of the payload, newest first.\<close>

definition source_manifests :: "float_ops \<Rightarrow> nat \<Rightarrow> nat \<Rightarrow> string list \<Rightarrow> catalog \<Rightarrow> extent_manifest list" where
  "source_manifests fo tenant tid srcs c =
     filter (\<lambda>m. ext_id m \<in> set srcs) (list_extents fo (map extent_row.truncate (cat_extents c)) tenant tid prune_default)"

text \<open>Steps 3 and 4: write the merged extent, then commit the exchange.\<close>

definition merge_sources :: "arrow_lib \<Rightarrow> 'st libs \<Rightarrow> tlm_format \<Rightarrow> ingest_run \<Rightarrow> nat \<Rightarrow> table_ref \<Rightarrow> (string \<times> data_type) list
    \<Rightarrow> extent_manifest list \<Rightarrow> 'st \<Rightarrow> catalog \<Rightarrow> ((compaction_error + unit) \<times> 'st \<times> catalog) option" where
  "merge_sources ar lb fmt run tenant t sch ms st c =
     (case try_fold (merge_source ar lb st sch) (writer_new fmt (run_extent run) sch, 0) ms of
        None \<Rightarrow> None
      | Some (Inl e) \<Rightarrow> Some (Inl e, st, c)
      | Some (Inr (w, merged_rows)) \<Rightarrow>
          (case writer_finish lb st w of
             None \<Rightarrow> None
           | Some (Inl e) \<Rightarrow> Some (Inl (CFormat e), st, c)
           | Some (Inr (st', res)) \<Rightarrow>
               (case compaction_commit (run_env run) (run_ids run) (run_clock run) tenant (tr_id t)
                       (new_manifest_from_write t res (next_compaction_level ms) (run_created run))
                       (map ext_id ms) merged_rows (sum_list (map byte_size ms)) c of
                  (Inl e, c') \<Rightarrow> Some (Inl (CCatalog e), st', c')
                | (Inr _, c') \<Rightarrow> Some (Inr (), st', c'))))"

definition run_one :: "(json \<Rightarrow> string + string list) \<Rightarrow> (arrow_field list \<Rightarrow> (string \<times> data_type) list) \<Rightarrow> float_ops \<Rightarrow> arrow_lib
    \<Rightarrow> 'st libs \<Rightarrow> tlm_format \<Rightarrow> ingest_run \<Rightarrow> nat \<Rightarrow> background_task \<Rightarrow> 'st \<Rightarrow> catalog
    \<Rightarrow> ((compaction_error + unit) \<times> 'st \<times> catalog) option" where
  "run_one dec dt fo ar lb fmt run tenant task st c =
     (case dec (task_payload task) of
        Inl e \<Rightarrow> Some (Inl (CInternal (''bad compaction payload: '' @ e)), st, c)
      | Inr srcs \<Rightarrow>
     (case task_table task of
        None \<Rightarrow> Some (Inl (CInternal ''compaction task missing table_id''), st, c)
      | Some tid \<Rightarrow>
     (case list_tables_for tenant tid c of
        Inl e \<Rightarrow> Some (Inl (CCatalog e), st, c)
      | Inr None \<Rightarrow> Some (Inl (CInternal ''compaction: table no longer exists''), st, c)
      | Inr (Some t) \<Rightarrow>
          (let ms = source_manifests fo tenant (tr_id t) srcs c in
           if length ms \<le> 1 then Some (Inr (), st, c)
           else merge_sources ar lb fmt run tenant t (dt (tr_schema t)) ms st c))))"

text \<open>One turn of the worker's loop: claim, run, report.\<close>

definition worker_turn :: "(json \<Rightarrow> string + string list) \<Rightarrow> (arrow_field list \<Rightarrow> (string \<times> data_type) list) \<Rightarrow> float_ops \<Rightarrow> arrow_lib
    \<Rightarrow> 'st libs \<Rightarrow> tlm_format \<Rightarrow> (compaction_error \<Rightarrow> string) \<Rightarrow> ingest_run \<Rightarrow> nat \<Rightarrow> nat \<Rightarrow> int \<Rightarrow> int \<Rightarrow> task_row list \<Rightarrow> 'st \<Rightarrow> catalog
    \<Rightarrow> (task_row list \<times> 'st \<times> catalog) option" where
  "worker_turn dec dt fo ar lb fmt show_error run tenant node now now' ts st c =
     (case claim_task ''compaction'' node now (120 * 1000000000) ts of
        (None, ts') \<Rightarrow> Some (ts', st, c)
      | (Some task, ts') \<Rightarrow>
          (case run_one dec dt fo ar lb fmt run tenant task st c of
             None \<Rightarrow> None
           | Some (Inr _, st', c') \<Rightarrow> Some (complete_task (task_id task) now' ts', st', c')
           | Some (Inl e, st', c') \<Rightarrow> Some (fail_task (task_id task) (show_error e) now' ts', st', c')))"

section \<open>Promotion is well typed\<close>

text \<open>
  What \<open>RecordBatch::try_new\<close> and \<open>new_null_array\<close> document: the batch that is returned has the given schema
  and columns and is well formed; it is returned when there is at least one column, the columns fit the
  fields and have one length, and no field that may not be null has a null; a null array has the type
  and length asked for and no values.
\<close>

definition arrow_ok :: "arrow_lib \<Rightarrow> bool" where
  "arrow_ok ar \<longleftrightarrow>
     (\<forall>sch cs b. try_new ar sch cs = Inr b \<longrightarrow> batch_ok b \<and> schema b = sch \<and> columns b = cs) \<and>
     (\<forall>sch cs n. cs \<noteq> [] \<and> batch_ok \<lparr>schema = sch, columns = cs, num_rows = n\<rparr> \<and>
        (\<forall>(f, a) \<in> set (zip sch cs). is_nullable ar f \<or> (\<forall>i < n. cell_at a i \<noteq> None)) \<longrightarrow>
        (\<exists>b. try_new ar sch cs = Inr b)) \<and>
     (\<forall>t n. array_has_type (new_null_array ar t n) t \<and> array_len (new_null_array ar t n) = n \<and>
        (\<forall>i. cell_at (new_null_array ar t n) i = None))"

lemma arrow_okD:
  assumes "arrow_ok ar"
  shows "try_new ar sch cs = Inr b \<Longrightarrow> batch_ok b \<and> schema b = sch \<and> columns b = cs"
    and "cs \<noteq> [] \<Longrightarrow> batch_ok \<lparr>schema = sch, columns = cs, num_rows = n\<rparr> \<Longrightarrow> \<forall>f \<in> set sch. is_nullable ar f \<Longrightarrow>
      \<exists>b. try_new ar sch cs = Inr b"
    and "array_has_type (new_null_array ar t n) t" "array_len (new_null_array ar t n) = n"
    "cell_at (new_null_array ar t n) i = None"
proof -
  show "try_new ar sch cs = Inr b \<Longrightarrow> batch_ok b \<and> schema b = sch \<and> columns b = cs"
    using assms unfolding arrow_ok_def by blast
  show "array_has_type (new_null_array ar t n) t" "array_len (new_null_array ar t n) = n"
    "cell_at (new_null_array ar t n) i = None"
    using assms unfolding arrow_ok_def by blast+
  assume "cs \<noteq> []" "batch_ok \<lparr>schema = sch, columns = cs, num_rows = n\<rparr>" and f: "\<forall>f \<in> set sch. is_nullable ar f"
  moreover have "\<forall>(f, a) \<in> set (zip sch cs). is_nullable ar f \<or> (\<forall>i < n. cell_at a i \<noteq> None)"
    using f by (auto dest: set_zip_leftD)
  ultimately show "\<exists>b. try_new ar sch cs = Inr b" using assms unfolding arrow_ok_def by blast
qed

lemma column_of_position:
  "length (columns b) = length (schema b) \<Longrightarrow>
     column_of b n = map_option (\<lambda>i. columns b ! i) (position (\<lambda>g. fst g = n) (schema b))"
proof -
  have "length cs = length fs \<Longrightarrow> map_of (zip (map fst fs) cs) n = map_option (\<lambda>i. cs ! i) (position (\<lambda>g. fst g = n) fs)"
    for cs :: "arrow_array list" and fs :: "(string \<times> data_type) list"
    by (induction cs fs rule: list_induct2) (auto simp: option.map_comp comp_def)
  then show "length (columns b) = length (schema b) \<Longrightarrow> ?thesis" by (simp add: column_of_def)
qed

lemma batch_okD:
  assumes "batch_ok b"
  shows "length (columns b) = length (schema b)"
    and "i < length (schema b) \<Longrightarrow> array_has_type (columns b ! i) (snd (schema b ! i)) \<and> array_len (columns b ! i) = num_rows b"
  using assms by (auto simp: batch_ok_def list_all2_conv_all_nth)

text \<open>The target keeps the types of the fields it shares with the batch, and its fields may be null.\<close>

definition promotable :: "arrow_lib \<Rightarrow> (string \<times> data_type) list \<Rightarrow> (string \<times> data_type) list \<Rightarrow> bool" where
  "promotable ar src target \<longleftrightarrow> target \<noteq> [] \<and> distinct (map fst target) \<and>
     (\<forall>f \<in> set target. is_nullable ar f \<and> (\<forall>g \<in> set src. fst g = fst f \<longrightarrow> snd g = snd f))"

lemma promote_column_typed:
  assumes "arrow_ok ar" and "batch_ok b" and "promotable ar (schema b) target" and "f \<in> set target"
  shows "array_has_type (promote_column ar b f) (snd f) \<and> array_len (promote_column ar b f) = num_rows b"
proof (cases "position (\<lambda>g. fst g = fst f) (schema b)")
  case None
  then show ?thesis using arrow_okD(3,4) [OF assms(1)] by (simp add: promote_column_def)
next
  case (Some i)
  then have i: "i < length (schema b)" "fst (schema b ! i) = fst f" using position_Some by fastforce+
  then have "snd (schema b ! i) = snd f" using assms(3,4) nth_mem [OF i(1)] by (auto simp: promotable_def)
  then show ?thesis using batch_okD(2) [OF assms(2) i(1)] Some by (simp add: promote_column_def)
qed

lemma promoted_columns_ok:
  assumes "arrow_ok ar" and "batch_ok b" and "promotable ar (schema b) target"
  shows "batch_ok \<lparr>schema = target, columns = map (promote_column ar b) target, num_rows = num_rows b\<rparr>"
  using promote_column_typed [OF assms] by (simp add: batch_ok_def list_all2_conv_all_nth)

lemma batch_ok_num_rows:
  assumes "batch_ok b" "batch_ok d" "columns b = columns d" "columns b \<noteq> []"
  shows "num_rows b = num_rows d"
proof -
  have "0 < length (columns b)" using assms(4) by simp
  then have "0 < length (schema b)" "0 < length (schema d)"
    using batch_okD(1) [OF assms(1)] batch_okD(1) [OF assms(2)] unfolding assms(3) by linarith+
  then show ?thesis using batch_okD(2) [OF assms(1), of 0] batch_okD(2) [OF assms(2), of 0] assms(3) by simp
qed

lemma position_key:
  assumes "distinct (map fst xs)" "x \<in> set xs"
  shows "\<exists>i. position (\<lambda>g. fst g = fst x) xs = Some i \<and> xs ! i = x"
proof -
  have "position (\<lambda>g. fst g = fst x) xs \<noteq> None" using assms(2) by (auto simp: position_None)
  then obtain i where i: "position (\<lambda>g. fst g = fst x) xs = Some i" by blast
  then have "i < length xs" "fst (xs ! i) = fst x" using position_Some by fastforce+
  then have "xs ! i = x" using eq_key_imp_eq_value [OF assms(1), of "fst x" "snd x" "snd (xs ! i)"] assms(2)
    by (metis nth_mem prod.collapse)
  with i show ?thesis by blast
qed

text \<open>
  C37: Promoting a well-formed batch to a table schema that keeps the types of the columns they
  share succeeds with a well-formed batch of that schema and of the same number of rows: the values of
  the shared columns are kept and the columns the batch does not have are null.
\<close>

theorem promote_typed:
  assumes ar: "arrow_ok ar" and b: "batch_ok b" and target: "promotable ar (schema b) target"
  shows "\<exists>p. promote_batch ar b target = Inr p \<and> batch_ok p \<and> schema p = target \<and> num_rows p = num_rows b \<and>
    (\<forall>(n, t) \<in> set target. \<forall>i. cell_of p i n = (if n \<in> fst ` set (schema b) then cell_of b i n else None))"
proof (cases "schema b = target")
  case True
  then show ?thesis using b by (force simp: promote_batch_def)
next
  case False
  let ?cs = "map (promote_column ar b) target"
  have ne: "?cs \<noteq> []" using target by (simp add: promotable_def)
  note ok = promoted_columns_ok [OF ar b target]
  obtain p where p: "try_new ar target ?cs = Inr p"
    using arrow_okD(2) [OF ar ne ok] target by (auto simp: promotable_def)
  then have p': "batch_ok p" "schema p = target" "columns p = ?cs" using arrow_okD(1) [OF ar] by blast+
  then have n: "num_rows p = num_rows b" using batch_ok_num_rows [OF p'(1) ok] ne by simp
  have cell: "cell_of p i (fst f) = (if fst f \<in> fst ` set (schema b) then cell_of b i (fst f) else None)"
    if f: "f \<in> set target" for f i
  proof -
    obtain k where k: "position (\<lambda>g. fst g = fst f) target = Some k" "target ! k = f"
      using position_key [OF _ f] target by (auto simp: promotable_def)
    have kl: "k < length target" using position_Some [OF k(1)] by simp
    have "column_of p (fst f) = Some (promote_column ar b f)"
      using column_of_position [of p] p' k kl by simp
    then have *: "cell_of p i (fst f) = cell_at (promote_column ar b f) i" by (simp add: cell_of_def)
    show ?thesis
    proof (cases "position (\<lambda>g. fst g = fst f) (schema b)")
      case None
      then have "fst f \<notin> fst ` set (schema b)" by (auto simp: position_None)
      with None * arrow_okD(5) [OF ar] show ?thesis by (simp add: promote_column_def)
    next
      case (Some j)
      have j: "j < length (schema b)" "fst (schema b ! j) = fst f" using position_Some [OF Some] by simp_all
      then have "fst f \<in> fst ` set (schema b)" by (metis image_eqI nth_mem)
      with Some * column_of_position [OF batch_okD(1) [OF b]] show ?thesis
        by (simp add: promote_column_def cell_of_def)
    qed
  qed
  show ?thesis using False p p'(1,2) n cell by (force simp: promote_batch_def)
qed

section \<open>What a merge writes\<close>

text \<open>The batches of an extent as a reader of the table sees them, and those of the whole table.\<close>

definition promoted :: "arrow_lib \<Rightarrow> (string \<times> data_type) list \<Rightarrow> record_batch \<Rightarrow> record_batch list" where
  "promoted ar sch b = (case promote_batch ar b sch of Inl _ \<Rightarrow> [] | Inr p \<Rightarrow> [p])"

definition extent_batches :: "arrow_lib \<Rightarrow> 'st libs \<Rightarrow> 'st \<Rightarrow> (string \<times> data_type) list \<Rightarrow> extent_manifest \<Rightarrow> record_batch list" where
  "extent_batches ar lb st sch m =
     (case reader_open lb st \<lparr>in_schema = sch, in_object_path = object_path m, in_byte_size = byte_size m\<rparr> of
        Some (Inr r) \<Rightarrow> concat (map (promoted ar sch) (r_batches r))
      | _ \<Rightarrow> [])"

definition live_manifests :: "nat \<Rightarrow> nat \<Rightarrow> catalog \<Rightarrow> extent_manifest list" where
  "live_manifests tenant tid c = map row_manifest (filter (\<lambda>e. row_tenant e = tenant \<and>
     ext_table_id (row_manifest e) = tid \<and> deleted_at e = None) (cat_extents c))"

definition table_batches :: "arrow_lib \<Rightarrow> 'st libs \<Rightarrow> 'st \<Rightarrow> (string \<times> data_type) list \<Rightarrow> nat \<Rightarrow> nat \<Rightarrow> catalog \<Rightarrow> record_batch multiset" where
  "table_batches ar lb st sch tenant tid c = mset (concat (map (extent_batches ar lb st sch) (live_manifests tenant tid c)))"

text \<open>An extent as the writer leaves it: one statistics entry for each of its well-formed batches.\<close>

definition whole_extent :: "'st libs \<Rightarrow> 'st \<Rightarrow> (string \<times> data_type) list \<Rightarrow> extent_manifest \<Rightarrow> bool" where
  "whole_extent lb st sch m \<longleftrightarrow>
     (\<forall>r. reader_open lb st \<lparr>in_schema = sch, in_object_path = object_path m, in_byte_size = byte_size m\<rparr> = Some (Inr r) \<longrightarrow>
        list_all batch_ok (r_batches r) \<and> length (r_batches r) < u32_size \<and>
        (\<forall>bss. r_block_stats r = Some bss \<longrightarrow> length bss = length (r_batches r)))"

lemma append_all_append:
  "append_all lb w (xs @ ys) = Option.bind (append_all lb w xs) (\<lambda>w'. append_all lb w' ys)"
  by (induction xs arbitrary: w) (auto split: option.splits prod.splits sum.splits)

lemma merge_block_rows:
  assumes "merge_block ar lb sch r s k = Some (Inr s')" and "k < length (r_batches r)"
  shows "append_all lb (fst s) (promoted ar sch (r_batches r ! k)) = Some (fst s')"
  using assms by (auto simp: merge_block_def read_block_def idx_def promoted_def split: sum.splits option.splits prod.splits)

lemma merge_blocks_rows:
  assumes "try_fold (merge_block ar lb sch r) s ks = Some (Inr s')" and "\<forall>k \<in> set ks. k < length (r_batches r)"
  shows "append_all lb (fst s) (concat (map (\<lambda>k. promoted ar sch (r_batches r ! k)) ks)) = Some (fst s')"
  using assms
proof (induction ks arbitrary: s)
  case (Cons k ks)
  then obtain s1 where s1: "merge_block ar lb sch r s k = Some (Inr s1)" "try_fold (merge_block ar lb sch r) s1 ks = Some (Inr s')"
    by (auto split: option.splits sum.splits)
  from merge_block_rows [OF s1(1)] Cons.IH [OF s1(2)] Cons.prems(2) show ?case by (simp add: append_all_append)
qed simp

lemma all_blocks:
  assumes "length (r_batches r) < u32_size" and "r_block_count r = as_u32 (length (r_batches r))"
    and "\<forall>bss. r_block_stats r = Some bss \<longrightarrow> length bss = length (r_batches r)"
  shows "reader_pruned_blocks r PAll = [0..<length (r_batches r)]"
proof (cases "r_block_stats r")
  case None
  with assms show ?thesis by (simp add: reader_pruned_blocks_def pruned_blocks_def as_u32_def)
next
  case (Some bss)
  then have len: "length bss = length (r_batches r)" using assms(3) by simp
  have "map (\<lambda>(i, bs). as_u32 i) (enumerate 0 bss) = map fst (enumerate 0 bss)"
    by (rule map_cong) (use assms(1) len in \<open>auto simp: in_set_enumerate_eq as_u32_def\<close>)
  with Some len show ?thesis by (simp add: reader_pruned_blocks_def pruned_blocks_def case_prod_unfold map_fst_enumerate)
qed

lemma open_block_count:
  "reader_open lb st inp = Some (Inr r) \<Longrightarrow> r_block_count r = as_u32 (length (r_batches r))"
proof -
  assume "reader_open lb st inp = Some (Inr r)"
  then obtain v where "(case ipc_read lb (fst v) of Inl e \<Rightarrow> Inl (FmtCorrupt (in_object_path inp) e)
      | Inr batches \<Rightarrow> Inr \<lparr>r_row_count = sum_list (map num_rows batches), r_block_count = as_u32 (length batches),
          r_byte_size = in_byte_size inp, r_schema = in_schema inp, r_format_version = snd (snd v),
          r_batches = batches, r_object_path = in_object_path inp, r_block_stats = fst (snd v)\<rparr>) = Inr r"
    by (cases "store_get lb st (in_object_path inp)") (auto simp: reader_open_def bindE_Inr_iff case_prod_unfold)
  then show ?thesis by (cases "ipc_read lb (fst v)") auto
qed

lemma merge_source_rows:
  assumes "merge_source ar lb st sch s m = Some (Inr s')" and "whole_extent lb st sch m"
  shows "append_all lb (fst s) (extent_batches ar lb st sch m) = Some (fst s')"
proof -
  from assms(1) obtain r where r: "reader_open lb st \<lparr>in_schema = sch, in_object_path = object_path m, in_byte_size = byte_size m\<rparr> = Some (Inr r)"
    and f: "try_fold (merge_block ar lb sch r) s (reader_pruned_blocks r PAll) = Some (Inr s')"
    by (auto simp: merge_source_def split: option.splits sum.splits)
  have w: "length (r_batches r) < u32_size" "\<forall>bss. r_block_stats r = Some bss \<longrightarrow> length bss = length (r_batches r)"
    using assms(2) r by (auto simp: whole_extent_def)
  have ab: "reader_pruned_blocks r PAll = [0..<length (r_batches r)]"
    by (rule all_blocks [OF w(1) open_block_count [OF r] w(2)])
  have "map (\<lambda>k. promoted ar sch (r_batches r ! k)) [0..<length (r_batches r)] = map (promoted ar sch) (r_batches r)"
    by (rule nth_equalityI) simp_all
  with merge_blocks_rows [OF f] show ?thesis unfolding ab extent_batches_def r by simp
qed

lemma merge_sources_rows:
  assumes "try_fold (merge_source ar lb st sch) s ms = Some (Inr s')" and "\<forall>m \<in> set ms. whole_extent lb st sch m"
  shows "append_all lb (fst s) (concat (map (extent_batches ar lb st sch) ms)) = Some (fst s')"
  using assms
proof (induction ms arbitrary: s)
  case (Cons m ms)
  then obtain s1 where s1: "merge_source ar lb st sch s m = Some (Inr s1)" "try_fold (merge_source ar lb st sch) s1 ms = Some (Inr s')"
    by (auto split: option.splits sum.splits)
  from merge_source_rows [OF s1(1)] Cons.IH [OF s1(2)] Cons.prems(2) show ?case by (simp add: append_all_append)
qed simp

lemma promoted_ok:
  assumes "arrow_ok ar" "batch_ok b" "p \<in> set (promoted ar sch b)"
  shows "batch_ok p \<and> schema p = sch"
  using assms arrow_okD(1) [OF assms(1)]
  by (auto simp: promoted_def promote_batch_def split: if_splits sum.splits)

lemma extent_batches_ok:
  assumes "arrow_ok ar" "whole_extent lb st sch m" "p \<in> set (extent_batches ar lb st sch m)"
  shows "batch_ok p \<and> schema p = sch"
proof -
  from assms(3) obtain r where r: "reader_open lb st \<lparr>in_schema = sch, in_object_path = object_path m, in_byte_size = byte_size m\<rparr> = Some (Inr r)"
    "p \<in> set (concat (map (promoted ar sch) (r_batches r)))"
    by (cases "reader_open lb st \<lparr>in_schema = sch, in_object_path = object_path m, in_byte_size = byte_size m\<rparr>")
      (auto simp: extent_batches_def split: sum.splits)
  with assms(2) have "list_all batch_ok (r_batches r)" by (simp add: whole_extent_def)
  with r(2) promoted_ok [OF assms(1)] show ?thesis by (auto simp: list_all_iff)
qed

lemma extent_batches_cong:
  "store_get lb st' (object_path m) = store_get lb st (object_path m) \<Longrightarrow>
     extent_batches ar lb st' sch m = extent_batches ar lb st sch m"
  by (simp add: extent_batches_def reader_open_def)

text \<open>The merged extent reads as its sources.\<close>

lemma merged_extent:
  assumes f: "try_fold (merge_source ar lb st sch) (writer_new fmt i sch, 0) ms = Some (Inr (w, n))"
    and fin: "writer_finish lb st w = Some (Inr (st', res))"
    and ar: "arrow_ok ar" and ms: "\<forall>m \<in> set ms. whole_extent lb st sch m"
    and l: "\<forall>w. append_all lb (writer_new fmt i sch) (concat (map (extent_batches ar lb st sch) ms)) = Some w \<longrightarrow> libs_read_back lb st w"
    and m: "object_path m = res_object_path res" "byte_size m = res_byte_size res"
  shows "extent_batches ar lb st' sch m = concat (map (extent_batches ar lb st sch) ms)"
proof -
  let ?bs = "concat (map (extent_batches ar lb st sch) ms)"
  have w: "append_all lb (writer_new fmt i sch) ?bs = Some w" using merge_sources_rows [OF f ms] by simp
  have ok: "\<forall>b \<in> set ?bs. batch_ok b" "\<forall>b \<in> set ?bs. schema b = sch" using extent_batches_ok [OF ar, of lb st sch] ms by fastforce+
  obtain r where r: "reader_open lb st' \<lparr>in_schema = sch, in_object_path = object_path m, in_byte_size = byte_size m\<rparr> = Some (Inr r)"
    "r_batches r = ?bs" using writer_reader [OF w fin ok(1), of sch] l w unfolding m by blast
  have "concat (map (promoted ar sch) bs) = bs" if "\<forall>b \<in> set bs. schema b = sch" for bs
    using that by (induction bs) (simp_all add: promoted_def promote_batch_def)
  with ok(2) r show ?thesis unfolding extent_batches_def [of ar lb st'] by simp
qed

section \<open>What the exchange commits\<close>

lemma mset_list_extents:
  "mset (list_extents fo (map extent_row.truncate (cat_extents c)) tenant tid prune_default) = mset (live_manifests tenant tid c)"
proof -
  have "mset (sort_newest ms) = mset ms" for ms
    unfolding sort_newest_def mset_append mset_sort mset_filter
    by (rule trans [OF _ multiset_partition [symmetric, where P = "\<lambda>m. min_timestamp m \<noteq> None"]]) simp
  moreover have "map row_manifest (filter P (map extent_row.truncate xs)) = map row_manifest (filter (P \<circ> extent_row.truncate) xs)"
    for P and xs :: "cat_extent list"
    by (simp add: filter_map comp_def extent_row.truncate_def)
  moreover have "row_tenant (extent_row.truncate e) = row_tenant e" "row_manifest (extent_row.truncate e) = row_manifest e"
    "deleted_at (extent_row.truncate e) = deleted_at e" for e :: cat_extent
    by (simp_all add: extent_row.truncate_def)
  ultimately show ?thesis
    by (simp add: list_extents_def Let_def prune_default_def live_manifests_def comp_def)
qed

lemma mset_source_manifests:
  "mset (source_manifests fo tenant tid srcs c) = filter_mset (\<lambda>m. ext_id m \<in> set srcs) (mset (live_manifests tenant tid c))"
  by (simp add: source_manifests_def mset_list_extents)

lemma live_ids: "live tenant tid c = ext_id ` set (live_manifests tenant tid c)"
  by (auto simp: live_def live_manifests_def image_iff)

lemma live_manifests_distinct:
  assumes "cat_inv c"
  shows "distinct (map ext_id (live_manifests tenant tid c))"
proof -
  have "distinct (map extent_of (cat_extents c))" using assms by (simp add: cat_inv_def)
  from distinct_map_filter [OF this] show ?thesis by (simp add: live_manifests_def comp_def)
qed

lemma filter_soft_delete:
  "filter (\<lambda>e. row_tenant e = T \<and> ext_table_id (row_manifest e) = tid \<and> deleted_at e = None) (soft_delete T now R xs) =
   filter (\<lambda>e. row_tenant e = T \<and> ext_table_id (row_manifest e) = tid \<and> deleted_at e = None \<and> extent_of e \<notin> set R) xs"
proof (cases "R = []")
  case False
  then show ?thesis by (induction xs) (auto simp: soft_delete_def)
qed (simp add: soft_delete_def)

lemma commit_live_manifests:
  assumes "commit snid mid now su tx c = (Inr i, c')"
  shows "live_manifests (tx_tenant tx) tid c' = filter (\<lambda>m. ext_id m \<notin> set (tx_removed tx))
    (live_manifests (tx_tenant tx) tid c @ filter (\<lambda>m. ext_table_id m = tid) (tx_added tx))"
proof -
  from assms have c': "cat_extents c' = soft_delete (tx_tenant tx) now (tx_removed tx) (cat_extents c @
              map (\<lambda>m. \<lparr>row_tenant = tx_tenant tx, row_manifest = m, deleted_at = None, ex_manifest = mid\<rparr>) (tx_added tx))"
    by (rule commitE) (simp add: committed_def)
  show ?thesis unfolding live_manifests_def c' filter_soft_delete
    by (simp add: filter_map comp_def conj_ac)
qed

text \<open>Rows keep their manifests.\<close>

lemma commit_row_manifests:
  assumes "commit snid mid now su tx c = (r, c')"
  shows "\<exists>xs. map row_manifest (cat_extents c') = map row_manifest (cat_extents c) @ xs"
proof (cases r)
  case (Inl e)
  with assms show ?thesis by (auto dest: commit_Inl)
next
  case (Inr i)
  with assms have "commit snid mid now su tx c = (Inr i, c')" by simp
  then have "map row_manifest (cat_extents c') = map row_manifest (cat_extents c) @ tx_added tx"
    by (rule commitE) (simp add: committed_def soft_delete_def comp_def if_distrib cong: if_cong)
  then show ?thesis by blast
qed

lemma commits_row_manifests:
  "commits c d \<Longrightarrow> set (map row_manifest (cat_extents c)) \<subseteq> set (map row_manifest (cat_extents d))"
proof (induction rule: commits.induct)
  case (step c d snid mid now su tx r d')
  from commit_row_manifests [OF step.hyps(2)] step.IH show ?case by fastforce
qed simp

section \<open>A compaction is invisible\<close>

text \<open>The store keeps the objects that are not written.\<close>

definition store_frame :: "'st libs \<Rightarrow> bool" where
  "store_frame lb \<longleftrightarrow> (\<forall>st p x st' q. store_put lb st p x = Inr st' \<and> q \<noteq> p \<longrightarrow> store_get lb st' q = store_get lb st q)"

definition merged_path :: "tlm_format \<Rightarrow> ingest_run \<Rightarrow> string" where
  "merged_path fmt run = format_extent_path (path_prefix fmt) (tenant_segment fmt) (run_extent run)"

lemma append_all_fields: "append_all lb w bs = Some w' \<Longrightarrow> w_format w' = w_format w \<and> w_extent_id w' = w_extent_id w"
proof (induction bs arbitrary: w)
  case (Cons b bs)
  from append_all_ConsD [OF Cons.prems] obtain w1 where w1: "writer_append lb w b = Some (w1, Inr ())" "append_all lb w1 bs = Some w'" by blast
  then have "w_format w1 = w_format w \<and> w_extent_id w1 = w_extent_id w"
    by (auto simp: writer_append_def Let_def split: if_splits option.splits)
  with Cons.IH [OF w1(2)] show ?case by simp
qed simp

lemma finish_writes:
  assumes "writer_finish lb st w = Some (Inr (st', res))" "w_format w = fmt" "w_extent_id w = run_extent run"
  shows "\<exists>x. store_put lb st (merged_path fmt run) x = Inr st'" "res_object_path res = merged_path fmt run"
    "res_extent_id res = run_extent run"
  using assms by (auto simp: writer_finish_def merged_path_def Let_def split: option.splits sum.splits)

text \<open>
  Where the sources still are when the exchange commits, they are replaced by an extent with the same
  batches.
\<close>

lemma sources_still_live:
  assumes c: "cat_inv c" and d: "cat_inv d" "commits c d" "live tenant tid c \<subseteq> live tenant tid d"
    and S: "S \<subseteq> live tenant tid c"
  shows "filter_mset (\<lambda>m. ext_id m \<in> S) (mset (live_manifests tenant tid d)) =
    filter_mset (\<lambda>m. ext_id m \<in> S) (mset (live_manifests tenant tid c))"
proof -
  let ?f = "filter (\<lambda>m. ext_id m \<in> S)"
  have dist: "distinct (map ext_id (live_manifests tenant tid x))" if "cat_inv x" for x
    by (rule live_manifests_distinct [OF that])
  have rows: "set (live_manifests tenant tid x) \<subseteq> set (map row_manifest (cat_extents x))" for x
    by (auto simp: live_manifests_def)
  have key: "distinct (map ext_id (map row_manifest (cat_extents d)))" using d(1) by (simp add: cat_inv_def comp_def)
  have same: "m = m'" if "m \<in> set (live_manifests tenant tid c)" "m' \<in> set (live_manifests tenant tid d)" "ext_id m = ext_id m'" for m m'
  proof -
    have "m \<in> set (map row_manifest (cat_extents d))" "m' \<in> set (map row_manifest (cat_extents d))"
      using that(1,2) rows commits_row_manifests [OF d(2)] by blast+
    with distinct_key [OF key] that(3) show ?thesis by blast
  qed
  have "set (?f (live_manifests tenant tid d)) = set (?f (live_manifests tenant tid c))"
  proof (intro set_eqI iffI)
    fix m assume m: "m \<in> set (?f (live_manifests tenant tid d))"
    then have "ext_id m \<in> live tenant tid c" using S by auto
    then obtain m' where m': "m' \<in> set (live_manifests tenant tid c)" "ext_id m' = ext_id m" by (auto simp: live_ids)
    with same [OF m'(1), of m] m have "m' = m" by simp
    with m' m show "m \<in> set (?f (live_manifests tenant tid c))" by simp
  next
    fix m assume m: "m \<in> set (?f (live_manifests tenant tid c))"
    then have "ext_id m \<in> live tenant tid d" using S d(3) by auto
    then obtain m' where m': "m' \<in> set (live_manifests tenant tid d)" "ext_id m' = ext_id m" by (auto simp: live_ids)
    with same [of m, OF _ m'(1)] m have "m' = m" by simp
    with m' m show "m \<in> set (?f (live_manifests tenant tid d))" by simp
  qed
  moreover have "distinct (?f (live_manifests tenant tid x))" if "cat_inv x" for x
    using dist [OF that] by (simp add: distinct_map)
  ultimately have "mset (?f (live_manifests tenant tid d)) = mset (?f (live_manifests tenant tid c))"
    using c d(1) set_eq_iff_mset_eq_distinct by blast
  then show ?thesis by simp
qed

lemma sources_chosen:
  assumes "ms = source_manifests fo tenant tid srcs c"
  shows "filter_mset (\<lambda>m. ext_id m \<in> set (map ext_id ms)) (mset (live_manifests tenant tid c)) = mset ms"
proof -
  have ms: "mset ms = filter_mset (\<lambda>m. ext_id m \<in> set srcs) (mset (live_manifests tenant tid c))"
    unfolding assms by (rule mset_source_manifests)
  have "set_mset (mset ms) = {m \<in> set (live_manifests tenant tid c). ext_id m \<in> set srcs}" unfolding ms by auto
  then have set: "m \<in> set ms \<longleftrightarrow> m \<in> set (live_manifests tenant tid c) \<and> ext_id m \<in> set srcs" for m by auto
  have iff: "ext_id m \<in> set (map ext_id ms) \<longleftrightarrow> ext_id m \<in> set srcs" if "m \<in># mset (live_manifests tenant tid c)" for m
  proof
    assume "ext_id m \<in> set (map ext_id ms)"
    then obtain m' where "m' \<in> set ms" "ext_id m = ext_id m'" unfolding set_map by (rule imageE)
    then show "ext_id m \<in> set srcs" using set [of m'] by simp
  next
    assume "ext_id m \<in> set srcs"
    then have "m \<in> set ms" using set [of m] that by simp
    then show "ext_id m \<in> set (map ext_id ms)" unfolding set_map by (rule imageI)
  qed
  show ?thesis unfolding ms by (rule filter_mset_cong [OF HOL.refl iff])
qed

lemma begin_tenant: "begin_snapshot tenant tid e = Inr tx \<Longrightarrow> tx_tenant tx = tenant \<and> tx_added tx = [] \<and> tx_removed tx = []"
  by (auto simp: begin_snapshot_def split: option.splits)

lemma exchange_live:
  assumes cm: "commit snid mid now su (remove_extents R (add_extent m tx)) d = (Inr i, c')"
    and b: "begin_snapshot tenant tid e = Inr tx" and m: "ext_table_id m = tid" and d: "cat_inv d" and R: "set R \<subseteq> live tenant tid d"
  shows "live_manifests tenant tid c' = filter (\<lambda>m. ext_id m \<notin> set R) (live_manifests tenant tid d) @ [m]"
proof -
  note tx = begin_tenant [OF b]
  have dist: "distinct (map extent_of (cat_extents c'))" using cm d by (auto simp: cat_inv_def elim!: commitE)
  have c': "map extent_of (cat_extents c') = map extent_of (cat_extents d) @ [ext_id m]"
    using cm by (rule commitE) (simp add: committed_def remove_extents_def add_extent_def tx)
  have "ext_id m \<notin> extent_of ` set (cat_extents d)" using dist unfolding c' by simp
  then have "ext_id m \<notin> set R" using R by (auto simp: live_def)
  with commit_live_manifests [OF cm, of tid] m show ?thesis
    by (simp add: remove_extents_def add_extent_def tx)
qed

text \<open>The rows of the table before and after the exchange.\<close>

lemma exchange_batches:
  assumes lv: "live_manifests tenant tid c' = filter (\<lambda>m. ext_id m \<notin> set (map ext_id ms)) (live_manifests tenant tid d) @ [m]"
    and ms: "filter_mset (\<lambda>m. ext_id m \<in> set (map ext_id ms)) (mset (live_manifests tenant tid d)) = mset ms"
    and m: "extent_batches ar lb st sch m = concat (map (extent_batches ar lb st sch) ms)"
  shows "table_batches ar lb st sch tenant tid c' = table_batches ar lb st sch tenant tid d"
proof -
  let ?b = "extent_batches ar lb st sch" and ?S = "\<lambda>m. ext_id m \<in> set (map ext_id ms)"
  have sum: "mset (concat (map ?b xs)) = (\<Sum>x \<in># mset xs. mset (?b x))" for xs
    by (induction xs) simp_all
  have part: "(\<Sum>x \<in># M. f x) = (\<Sum>x \<in># filter_mset P M. f x) + (\<Sum>x \<in># filter_mset (\<lambda>x. \<not> P x) M. f x)"
    for f :: "extent_manifest \<Rightarrow> record_batch multiset" and M P
    by (metis multiset_partition image_mset_union sum_mset.union)
  have "table_batches ar lb st sch tenant tid c' =
      (\<Sum>x \<in># filter_mset (\<lambda>m. \<not> ?S m) (mset (live_manifests tenant tid d)). mset (?b x)) + mset (?b m)"
    unfolding table_batches_def sum lv by simp
  also have "mset (?b m) = (\<Sum>x \<in># filter_mset ?S (mset (live_manifests tenant tid d)). mset (?b x))"
    unfolding ms m by (rule sum)
  also have "(\<Sum>x \<in># filter_mset (\<lambda>m. \<not> ?S m) (mset (live_manifests tenant tid d)). mset (?b x)) + \<dots> =
      (\<Sum>x \<in># mset (live_manifests tenant tid d). mset (?b x))"
    unfolding part [of _ "mset (live_manifests tenant tid d)" ?S] by (rule add.commute)
  finally show ?thesis unfolding table_batches_def sum .
qed

text \<open>The same for a merge, whatever its result.\<close>

lemma merge_sources_invisible:
  assumes run: "merge_sources ar lb fmt run tenant t sch ms st c = Some (r, st', c')"
    and t: "tr_id t = tid" and srcs: "ms = source_manifests fo tenant tid srcs c"
    and c: "cat_reachable c"
    and env: "\<And>k d. commits d (run_env run k d) \<and> live tenant tid d \<subseteq> live tenant tid (run_env run k d)"
    and ar: "arrow_ok ar" and fr: "store_frame lb"
    and l: "\<forall>w. append_all lb (writer_new fmt (run_extent run) sch) (concat (map (extent_batches ar lb st sch) ms)) = Some w \<longrightarrow> libs_read_back lb st w"
    and w: "\<forall>m \<in> set ms. whole_extent lb st sch m \<and> object_path m \<noteq> merged_path fmt run"
  shows "\<exists>d. commits c d \<and> table_batches ar lb st' sch tenant tid c' = table_batches ar lb st' sch tenant tid d \<and>
    (\<forall>p. p \<noteq> merged_path fmt run \<longrightarrow> store_get lb st' p = store_get lb st p) \<and>
    (r = Inr () \<longrightarrow> live tenant tid c' = insert (run_extent run) (live tenant tid d - set (map ext_id ms)))"
proof (cases "st' = st \<and> c' = c \<and> r \<noteq> Inr ()")
  case True
  then show ?thesis by (intro exI [of _ c]) (auto intro: commits.refl)
next
  case False
  let ?f = "try_fold (merge_source ar lb st sch) (writer_new fmt (run_extent run) sch, 0) ms"
  from run False obtain w1 n where f: "?f = Some (Inr (w1, n))"
    by (cases ?f) (auto simp: merge_sources_def split: sum.splits)
  from run False f obtain res where fin: "writer_finish lb st w1 = Some (Inr (st', res))"
    by (auto simp: merge_sources_def split: option.splits sum.splits prod.splits)
  let ?m = "new_manifest_from_write t res (next_compaction_level ms) (run_created run)"
  obtain r1 where cm: "compaction_commit (run_env run) (run_ids run) (run_clock run) tenant tid ?m (map ext_id ms) n
      (sum_list (map byte_size ms)) c = (r1, c')" and r1: "r = Inr () \<longrightarrow> (\<exists>i. r1 = Inr i)"
    using run f fin t by (auto simp: merge_sources_def split: prod.splits sum.splits)
  have ws: "\<forall>m \<in> set ms. whole_extent lb st sch m" and paths: "\<And>m. m \<in> set ms \<Longrightarrow> object_path m \<noteq> merged_path fmt run"
    using w by auto
  have "append_all lb (writer_new fmt (run_extent run) sch) (concat (map (extent_batches ar lb st sch) ms)) = Some w1"
    using merge_sources_rows [OF f ws] by simp
  then have fields: "w_format w1 = fmt" "w_extent_id w1 = run_extent run"
    using append_all_fields by (fastforce simp: writer_new_def)+
  note fin' = finish_writes [OF fin fields]
  have frame: "store_get lb st' p = store_get lb st p" if "p \<noteq> merged_path fmt run" for p
    using fin'(1) fr that unfolding store_frame_def by blast
  define Q where "Q d \<longleftrightarrow> commits c d \<and> live tenant tid c \<subseteq> live tenant tid d" for d
  have Qe: "Q (run_env run k d)" if "Q d" for k d
    using that env [of d k] commits_trans unfolding Q_def by blast
  have Qc: "Q c" by (simp add: Q_def commits.refl)
  note lands = commit_loop_lands [where Q = Q, OF Qe cm [unfolded compaction_commit_def] Qc]
  show ?thesis
  proof (cases r1)
    case (Inl e)
    then have "Q c'" using lands by simp
    with r1 Inl frame show ?thesis by (intro exI [of _ c']) (auto simp: Q_def)
  next
    case (Inr i)
    from lands [unfolded Inr sum.case] obtain tx e snid mid now su d where b: "begin_snapshot tenant tid e = Inr tx" and q: "Q d"
      and co: "commit snid mid now su (remove_extents (map ext_id ms) (add_extent ?m tx)) d = (Inr i, c')" by blast
    have inv: "cat_inv c" "cat_inv d" using c commits_reachable q cat_reachable_inv unfolding Q_def by blast+
    have S: "set (map ext_id ms) \<subseteq> live tenant tid c"
      using mset_source_manifests [of fo tenant tid srcs c, folded srcs, THEN arg_cong [of _ _ set_mset]] by (auto simp: live_ids)
    have new: "ext_table_id ?m = tid" "object_path ?m = res_object_path res" "byte_size ?m = res_byte_size res" "ext_id ?m = run_extent run"
      using t fin'(3) by (simp_all add: new_manifest_from_write_def)
    have lv: "live_manifests tenant tid c' = filter (\<lambda>m. ext_id m \<notin> set (map ext_id ms)) (live_manifests tenant tid d) @ [?m]"
      by (rule exchange_live [OF co b new(1) inv(2)]) (use S q in \<open>auto simp: Q_def\<close>)
    have "filter_mset (\<lambda>m. ext_id m \<in> set (map ext_id ms)) (mset (live_manifests tenant tid d)) = mset ms"
      using sources_still_live [OF inv _ _ S] q sources_chosen [OF srcs] unfolding Q_def by simp
    moreover have "extent_batches ar lb st' sch ?m = concat (map (extent_batches ar lb st' sch) ms)"
      unfolding merged_extent [OF f fin ar ws l new(2,3)]
      by (intro arg_cong [of _ _ concat] map_cong HOL.refl extent_batches_cong [symmetric] frame) (simp_all add: paths)
    ultimately have "table_batches ar lb st' sch tenant tid c' = table_batches ar lb st' sch tenant tid d"
      by (rule exchange_batches [OF lv])
    moreover have "live tenant tid c' = insert (run_extent run) (live tenant tid d - set (map ext_id ms))"
      unfolding live_ids lv using new(4) by auto
    ultimately show ?thesis using q frame unfolding Q_def by blast
  qed
qed


section \<open>A merge of a narrow and a wide extent\<close>

definition ex_target :: "(string \<times> data_type) list" where
  "ex_target = [(''n'', OtherType 0), (''v'', Int64)]"

definition ex_narrow :: record_batch where
  "ex_narrow = \<lparr>schema = [(''n'', OtherType 0)], columns = [OtherArray [Some 4]], num_rows = 1\<rparr>"

definition ex_wide :: record_batch where
  "ex_wide = \<lparr>schema = ex_target, columns = [OtherArray [Some 5], Int64Array [Some 6]], num_rows = 1\<rparr>"

fun ex_null_array :: "data_type \<Rightarrow> nat \<Rightarrow> arrow_array" where
  "ex_null_array (Timestamp u) n = (if u = Nanosecond then TimestampNanosecondArray (replicate n None) else TimestampOtherArray u (replicate n None))"
| "ex_null_array Int32 n = Int32Array (replicate n None)"
| "ex_null_array Int64 n = Int64Array (replicate n None)"
| "ex_null_array Utf8 n = StringArray (replicate n None)"
| "ex_null_array LargeUtf8 n = LargeStringArray (replicate n None)"
| "ex_null_array _ n = OtherArray (replicate n None)"

definition ex_arrow :: arrow_lib where
  "ex_arrow = \<lparr>try_new = \<lambda>sch cs. (let b = \<lparr>schema = sch, columns = cs, num_rows = (case cs of [] \<Rightarrow> 0 | a # _ \<Rightarrow> array_len a)\<rparr> in
       if cs \<noteq> [] \<and> batch_ok b then Inr b else Inl ''bad''), new_null_array = ex_null_array, is_nullable = \<lambda>_. True\<rparr>"

text \<open>Objects \<open>a\<close> and \<open>b\<close> hold one batch each; the encoder stands for any that reads back what it wrote.\<close>

definition ex_merge_libs :: "(string \<rightharpoonup> u8 list) libs" where
  "ex_merge_libs = \<lparr>ipc_write = \<lambda>_ _. None, ipc_finish = \<lambda>_ _. Inr [2],
     ipc_read = \<lambda>bytes. (if bytes = [0] then Inr [ex_narrow] else if bytes = [1] then Inr [ex_wide]
       else Inr [\<lparr>schema = ex_target, columns = [OtherArray [Some 4], Int64Array [None]], num_rows = 1\<rparr>, ex_wide]),
     stats_to_json = \<lambda>_. Inr [],
     stats_of_json = \<lambda>_. Inr [\<lparr>row_count = 1, cols = Map.empty\<rparr>, \<lparr>row_count = 1, cols = [''v'' \<mapsto> StInt64 6 6 0]\<rparr>],
     vector_stat_of = \<lambda>_ _. None,
     store_put = \<lambda>st p x. Inr (st(p \<mapsto> x)),
     store_get = \<lambda>st p. (case st p of None \<Rightarrow> Inl ''not found'' | Some x \<Rightarrow> Inr x)\<rparr>"

definition ex_store :: "string \<rightharpoonup> u8 list" where
  "ex_store = [''a'' \<mapsto> MAGIC @ [0], ''b'' \<mapsto> MAGIC @ [1]]"

definition ex_merge_run :: ingest_run where
  "ex_merge_run = \<lparr>run_extent = ''m'', run_ids = \<lambda>_. (9, 9), run_clock = \<lambda>_. 0, run_env = \<lambda>_ d. d, run_now = 0, run_created = 0,
     run_applied = 0\<rparr>"

definition ex_task :: background_task where
  "ex_task = \<lparr>task_id = 1, task_kind = ''compaction'', task_table = Some 1, task_payload = payload_json [''a'', ''b''],
     task_priority = 0, task_attempt = 1, task_max_attempts = 5, task_expires = 0\<rparr>"

definition ex_run_one :: "((compaction_error + unit) \<times> (string \<rightharpoonup> u8 list) \<times> catalog) option" where
  "ex_run_one = run_one (\<lambda>_. Inr [''a'', ''b'']) (\<lambda>_. ex_target) ex_floats ex_arrow ex_merge_libs ex_format ex_merge_run 7
     ex_task ex_store two_extents"

definition ex_padded :: record_batch where
  "ex_padded = \<lparr>schema = ex_target, columns = [OtherArray [Some 4], Int64Array [None]], num_rows = 1\<rparr>"

lemma ex_table: "list_tables_for 7 1 two_extents = Inr (Some \<lparr>tr_id = 1, tr_database = 1, tr_name = ''logs'', tr_snapshot = 5,
    tr_schema_id = 2, tr_schema = [], tr_config = JObject []\<rparr>)"
  by code_simp

lemma ex_sources: "source_manifests ex_floats 7 1 [''a'', ''b''] two_extents = [sample_extent ''a'', sample_extent ''b'']"
  by code_simp

definition ex_reader :: "string \<Rightarrow> record_batch \<Rightarrow> extent_reader" where
  "ex_reader p b = \<lparr>r_row_count = 1, r_block_count = 1, r_byte_size = 1, r_schema = ex_target, r_format_version = 1, r_batches = [b],
     r_object_path = p, r_block_stats = None\<rparr>"

lemma ex_open:
  "reader_open ex_merge_libs ex_store \<lparr>in_schema = ex_target, in_object_path = ''a'', in_byte_size = Suc 0\<rparr> = Some (Inr (ex_reader ''a'' ex_narrow))"
  "reader_open ex_merge_libs ex_store \<lparr>in_schema = ex_target, in_object_path = ''b'', in_byte_size = Suc 0\<rparr> = Some (Inr (ex_reader ''b'' ex_wide))"
  by (simp_all add: reader_open_def ex_merge_libs_def ex_store_def open_frame_def MAGIC_def MAGIC_V2_def as_bytes_def ex_narrow_def
      ex_wide_def bindE_def as_u32_def u32_size_def ex_reader_def)

lemma ex_promote: "promote_batch ex_arrow ex_narrow ex_target = Inr ex_padded" "promote_batch ex_arrow ex_wide ex_target = Inr ex_wide"
  by (simp_all add: promote_batch_def ex_arrow_def ex_narrow_def ex_wide_def ex_target_def promote_column_def batch_ok_def ex_padded_def)

lemma ex_batches:
  "extent_batches ex_arrow ex_merge_libs ex_store ex_target (sample_extent ''a'') = [ex_padded]"
  "extent_batches ex_arrow ex_merge_libs ex_store ex_target (sample_extent ''b'') = [ex_wide]"
  by (simp_all add: extent_batches_def sample_extent_def ex_open ex_reader_def promoted_def ex_promote)

lemma ex_merge_append: "\<exists>w. append_all ex_merge_libs (writer_new ex_format ''m'' ex_target) [ex_padded, ex_wide] = Some w"
  by (simp add: writer_append_def writer_new_def ex_padded_def ex_wide_def ex_target_def ex_merge_libs_def Let_def acc_update_def
      acc_new_def update_ts_bounds_def index_fields_def update_distinct_sets_def update_slot_def map_filter_def idx_def
      ts_bound_step_def stats_for_batch_def field_stats_def new_slot_def DISTINCT_SET_CAP_def)

lemma ex_batches_ok: "batch_ok ex_narrow" "batch_ok ex_wide" "batch_ok ex_padded"
  by (simp_all add: batch_ok_def ex_narrow_def ex_wide_def ex_padded_def ex_target_def)

lemma ex_merge_stats: "stats_for_batch ex_padded = Some \<lparr>row_count = 1, cols = Map.empty\<rparr>"
  "stats_for_batch ex_wide = Some \<lparr>row_count = 1, cols = [''v'' \<mapsto> StInt64 6 6 0]\<rparr>"
  by (simp_all add: stats_for_batch_def ex_padded_def ex_wide_def ex_target_def field_stats_def put_stat_def i64_stats_def
      minmax_loop_def minmax_step_def i64_max_def i64_min_def as_u32_def u32_size_def)

lemma ex_merge_inv:
  assumes "append_all ex_merge_libs (writer_new ex_format ''m'' ex_target) [ex_padded, ex_wide] = Some w"
  shows "writer_inv ex_target [ex_padded, ex_wide] w"
  using append_all_inv [OF assms writer_new_inv] ex_batches_ok by simp

lemma ex_merge_read_back:
  assumes "append_all ex_merge_libs (writer_new ex_format ''m'' ex_target) [ex_padded, ex_wide] = Some w"
  shows "libs_read_back ex_merge_libs ex_store w"
proof -
  have "w_ipc w = [ex_padded, ex_wide]"
    "w_block_stats w = [\<lparr>row_count = 1, cols = Map.empty\<rparr>, \<lparr>row_count = 1, cols = [''v'' \<mapsto> StInt64 6 6 0]\<rparr>]"
    using ex_merge_inv [OF assms] ex_merge_stats by (auto simp: writer_inv_def list_all2_Cons2)
  then show ?thesis by (auto simp: libs_read_back_def ex_merge_libs_def u32_size_def ex_padded_def)
qed

lemma ex_merge_finish:
  assumes "append_all ex_merge_libs (writer_new ex_format ''m'' ex_target) [ex_padded, ex_wide] = Some w"
  shows "\<exists>st' res. writer_finish ex_merge_libs ex_store w = Some (Inr (st', res))"
proof -
  have "acc_inv ex_target [ex_padded, ex_wide] (w_stats w)" using ex_merge_inv [OF assms] by (simp add: writer_inv_def)
  from acc_finish_total [OF this, of "\<lambda>_. None"] show ?thesis by (auto simp: writer_finish_def ex_merge_libs_def Let_def)
qed

lemma ex_arrow_ok: "arrow_ok ex_arrow"
proof -
  have null: "array_has_type (ex_null_array t n) t \<and> array_len (ex_null_array t n) = n \<and> (\<forall>i. cell_at (ex_null_array t n) i = None)"
    for t n by (cases t) (auto simp: idx_def)
  have len: "(case cs of [] \<Rightarrow> 0 | a # _ \<Rightarrow> array_len a) = n" if "cs \<noteq> []" "batch_ok \<lparr>schema = sch, columns = cs, num_rows = n\<rparr>" for cs sch n
    using that by (cases cs; cases sch) (auto simp: batch_ok_def)
  show ?thesis unfolding arrow_ok_def
  proof (intro conjI allI impI)
    fix sch cs b assume "try_new ex_arrow sch cs = Inr b"
    then show "batch_ok b" "schema b = sch" "columns b = cs"
      unfolding ex_arrow_def Let_def by (auto split: if_splits)
  next
    fix sch cs n
    assume a: "cs \<noteq> [] \<and> batch_ok \<lparr>schema = sch, columns = cs, num_rows = n\<rparr> \<and>
        (\<forall>(f, a) \<in> set (zip sch cs). is_nullable ex_arrow f \<or> (\<forall>i < n. cell_at a i \<noteq> None))"
    then have "batch_ok \<lparr>schema = sch, columns = cs, num_rows = (case cs of [] \<Rightarrow> 0 | a # _ \<Rightarrow> array_len a)\<rparr>" using len by metis
    with a show "\<exists>b. try_new ex_arrow sch cs = Inr b" unfolding ex_arrow_def Let_def by simp
  qed (use null in \<open>simp_all add: ex_arrow_def\<close>)
qed

lemma ex_store_frame: "store_frame ex_merge_libs"
  by (auto simp: store_frame_def ex_merge_libs_def)

lemma ex_whole: "whole_extent ex_merge_libs ex_store ex_target (sample_extent ''a'')" "whole_extent ex_merge_libs ex_store ex_target (sample_extent ''b'')"
  using ex_batches_ok by (simp_all add: whole_extent_def sample_extent_def ex_open ex_reader_def u32_size_def)

lemma ex_exchange:
  assumes "ext_id m = ''m''"
  shows "\<exists>c'. compaction_commit (\<lambda>_ d. d) (\<lambda>_. (9, 9)) (\<lambda>_. 0) 7 1 m [''a'', ''b''] n k two_extents = (Inr 9, c')"
proof -
  have sn: "map sn_id (cat_snapshots two_extents) = [3, 4, 5]" "map sn_table (cat_snapshots two_extents) = [1, 1, 1]"
    "map sn_seq (cat_snapshots two_extents) = [0, 1, 2]" by code_simp+
  obtain s1 s2 s3 where s: "cat_snapshots two_extents = [s1, s2, s3]" using sn(1) by (auto simp: map_eq_Cons_conv)
  have mf: "map mf_id (cat_manifests two_extents) = [4, 5]" by code_simp
  have ex: "map extent_of (cat_extents two_extents) = [''a'', ''b'']" by code_simp
  have tb: "cat_tables two_extents = [\<lparr>t_id = 1, t_tenant = 7, t_database = 1, t_name = ''logs'', t_snapshot = Some 5,
      t_schema = Some 2, t_config = JObject [], t_created_at = 0\<rparr>]" by code_simp
  have "insert_row e (\<lambda>x. mf_id x = 9) x (cat_manifests two_extents) = Inr (cat_manifests two_extents @ [x])" for e x
    using mf by (auto simp: insert_row_def list_ex_iff map_eq_Cons_conv)
  moreover have "insert_row e (\<lambda>x. extent_of x = ''m'') x (cat_extents two_extents) = Inr (cat_extents two_extents @ [x])" for e x
    using ex by (auto simp: insert_row_def list_ex_iff map_eq_Cons_conv)
  ultimately show ?thesis
    using sn unfolding compaction_commit_def
    by (simp add: commit_loop.simps(2) [of _ _ _ _ _ _ _ 9, simplified] begin_snapshot_def commit_def tb s Let_def bindE_def
        cas_hit_def add_extent_def remove_extents_def assms) (simp add: insert_row_def)
qed

lemma ex_run_ok: "\<exists>st' c'. ex_run_one = Some (Inr (), st', c')"
proof -
  obtain w where w: "append_all ex_merge_libs (writer_new ex_format ''m'' ex_target) [ex_padded, ex_wide] = Some w"
    using ex_merge_append by blast
  obtain w1 where w1: "writer_append ex_merge_libs (writer_new ex_format ''m'' ex_target) ex_padded = Some (w1, Inr ())"
    "append_all ex_merge_libs w1 [ex_wide] = Some w" using append_all_ConsD [OF w] by blast
  have w2: "writer_append ex_merge_libs w1 ex_wide = Some (w, Inr ())" using append_all_ConsD [OF w1(2)] by auto
  obtain st' res where f: "writer_finish ex_merge_libs ex_store w = Some (Inr (st', res))" using ex_merge_finish [OF w] by blast
  have "w_extent_id w = run_extent ex_merge_run" using append_all_fields [OF w] by (simp add: writer_new_def ex_merge_run_def)
  then have "res_extent_id res = ''m''" using finish_writes(3) [OF f HOL.refl, of ex_merge_run] by (simp add: ex_merge_run_def)
  then have id: "ext_id (new_manifest_from_write t res l 0) = ''m''" for t l by (simp add: new_manifest_from_write_def)
  define c' where "c' t l n k = snd (compaction_commit (\<lambda>_ d. d) (\<lambda>_. (9, 9)) (\<lambda>_. 0) 7 1 (new_manifest_from_write t res l 0)
      [''a'', ''b''] n k two_extents)" for t l n k
  have c': "compaction_commit (\<lambda>_ d. d) (\<lambda>_. (9, 9)) (\<lambda>_. 0) 7 (Suc 0) (new_manifest_from_write t res l 0) [''a'', ''b''] n k two_extents =
      (Inr 9, c' t l n k)" for t l n k
    using ex_exchange [OF id [of t l], of n k] by (auto simp: c'_def)
  show ?thesis
    by (simp add: ex_run_one_def run_one_def ex_task_def ex_table [unfolded One_nat_def] ex_sources [unfolded One_nat_def] merge_sources_def merge_source_def merge_block_def
        ex_merge_run_def Let_def sample_extent_def ex_open ex_reader_def reader_pruned_blocks_def pruned_blocks_def read_block_def
        idx_def ex_promote w1(1) w2 f c')
qed

theorem promote_typed_witness:
  "\<exists>p. promote_batch ex_arrow ex_narrow ex_target = Inr p \<and> batch_ok p \<and> num_rows p = 1 \<and> cell_of p 0 ''v'' = None \<and>
     cell_of p 0 ''n'' = Some (COther 4)"
proof -
  have "promotable ex_arrow (schema ex_narrow) ex_target"
    by (simp add: promotable_def ex_arrow_def ex_narrow_def ex_target_def)
  from promote_typed [OF ex_arrow_ok ex_batches_ok(1) this] obtain p where p: "promote_batch ex_arrow ex_narrow ex_target = Inr p"
    "batch_ok p" "num_rows p = num_rows ex_narrow"
    "\<forall>(n, t) \<in> set ex_target. \<forall>i. cell_of p i n = (if n \<in> fst ` set (schema ex_narrow) then cell_of ex_narrow i n else None)" by blast
  have "cell_of p 0 ''v'' = None" "cell_of p 0 ''n'' = cell_of ex_narrow 0 ''n''"
    using p(4) by (simp_all add: ex_target_def ex_narrow_def)
  moreover have "cell_of ex_narrow 0 ''n'' = Some (COther 4)" by (simp add: cell_of_def column_of_def ex_narrow_def idx_def)
  ultimately show ?thesis using p(1-3) by (simp add: ex_narrow_def)
qed


end
