(* ===== verification/Pg_Catalog.thy ===== *)
theory Pg_Catalog
  imports Commit_Retry
begin

text \<open>
  Snapshot transactions and staged extents of the Postgres catalog (\<open>pensieve-catalog/src/snapshot.rs\<close> and
  \<open>lib.rs\<close>), and the committer of \<open>pensieve-ingest-core/src/committer.rs\<close> that drains the staged extents.
  The tables are those of \<open>Catalog_State\<close>; the Postgres commit is shown to be the SQLite one. Identifiers
  that Postgres generates and instants are arguments; a transaction is one step.
\<close>

section \<open>Snapshot transactions\<close>

definition pg_begin_snapshot :: "nat \<Rightarrow> nat \<Rightarrow> catalog \<Rightarrow> catalog_error + snapshot_txn" where
  "pg_begin_snapshot tenant tid c =
     (case List.find (\<lambda>t. t_tenant t = tenant \<and> t_id t = tid) (cat_tables c) of
        None \<Rightarrow> Inl (SqlError ''table not found for begin_snapshot'')
      | Some row \<Rightarrow>
          bindE (case t_snapshot row of None \<Rightarrow> Inl (SqlError ''table has no current_snapshot_id'') | Some p \<Rightarrow> Inr p) (\<lambda>parent.
          bindE (case t_schema row of None \<Rightarrow> Inl (SqlError ''table has no schema_snapshot_id'') | Some s \<Rightarrow> Inr s) (\<lambda>schema_snap.
            Inr \<lparr>tx_tenant = tenant, tx_table = tid, tx_parent = parent, tx_schema = schema_snap, tx_added = [], tx_removed = []\<rparr>)))"

text \<open>
  The statements of the transaction in their order; \<open>Inl\<close> rolls back. A unique violation on \<open>snapshots\<close> is
  a conflict, any other one an SQL error.
\<close>

definition insert_snapshot :: "nat \<Rightarrow> int \<Rightarrow> json \<Rightarrow> nat \<Rightarrow> nat \<Rightarrow> nat \<Rightarrow> int \<Rightarrow> nat \<Rightarrow> catalog \<Rightarrow> catalog_error + catalog" where
  "insert_snapshot snid now summary tenant tid parent seq sch c =
     (if list_ex (\<lambda>s. sn_id s = snid \<or> (sn_table s = tid \<and> sn_seq s = seq)) (cat_snapshots c) then Inl Conflict
      else Inr (c\<lparr>cat_snapshots := cat_snapshots c @ [\<lparr>sn_id = snid, sn_tenant = tenant, sn_table = tid, sn_parent = Some parent,
        sn_seq = seq, sn_schema = sch, sn_summary = summary, sn_created_at = now\<rparr>]\<rparr>))"

definition insert_manifest :: "nat \<Rightarrow> int \<Rightarrow> nat \<Rightarrow> nat \<Rightarrow> extent_manifest list \<Rightarrow> catalog \<Rightarrow> catalog_error + catalog" where
  "insert_manifest mid now tenant snid ms c =
     bindE (insert_row unique_error (\<lambda>m. mf_id m = mid) \<lparr>mf_id = mid, mf_tenant = tenant, mf_snapshot = snid, mf_kind = ''data'',
       mf_extent_count = length ms, mf_byte_size = sum_list (map byte_size ms), mf_created_at = now\<rparr> (cat_manifests c))
     (\<lambda>rows. Inr (c\<lparr>cat_manifests := rows\<rparr>))"

definition add_extents :: "nat \<Rightarrow> nat \<Rightarrow> extent_manifest list \<Rightarrow> catalog \<Rightarrow> catalog_error + catalog" where
  "add_extents tenant mid ms c = bindE (insert_extents tenant mid ms (cat_extents c)) (\<lambda>rows. Inr (c\<lparr>cat_extents := rows\<rparr>))"

definition swap_snapshot :: "nat \<Rightarrow> nat \<Rightarrow> nat \<Rightarrow> nat \<Rightarrow> catalog \<Rightarrow> catalog_error + catalog" where
  "swap_snapshot tenant tid parent snid c =
     (let hit = (\<lambda>t. t_tenant t = tenant \<and> t_id t = tid \<and> t_snapshot t = Some parent) in
      if length (filter hit (cat_tables c)) \<noteq> 1 then Inl Conflict
      else Inr (c\<lparr>cat_tables := map (\<lambda>t. if hit t then t\<lparr>t_snapshot := Some snid\<rparr> else t) (cat_tables c)\<rparr>))"

definition pg_commit :: "nat \<Rightarrow> nat \<Rightarrow> int \<Rightarrow> snapshot_summary \<Rightarrow> snapshot_txn \<Rightarrow> catalog \<Rightarrow> (catalog_error + nat) \<times> catalog" where
  "pg_commit snid mid now su tx c =
     (case bindE (case List.find (\<lambda>s. sn_id s = tx_parent tx) (cat_snapshots c) of
                    None \<Rightarrow> Inl (SqlError ''parent snapshot not found'') | Some p \<Rightarrow> Inr (sn_seq p)) (\<lambda>parent_seq.
           bindE (insert_snapshot snid now (summary_json su) (tx_tenant tx) (tx_table tx) (tx_parent tx) (parent_seq + 1) (tx_schema tx) c) (\<lambda>c1.
           bindE (insert_manifest mid now (tx_tenant tx) snid (tx_added tx) c1) (\<lambda>c2.
           bindE (add_extents (tx_tenant tx) mid (tx_added tx) c2) (\<lambda>c3.
           swap_snapshot (tx_tenant tx) (tx_table tx) (tx_parent tx) snid
             (c3\<lparr>cat_extents := soft_delete (tx_tenant tx) now (tx_removed tx) (cat_extents c3)\<rparr>))))) of
        Inl e \<Rightarrow> (Inl e, c)
      | Inr c' \<Rightarrow> (Inr snid, c'))"

definition pg_gc_candidates :: "int \<Rightarrow> catalog \<Rightarrow> string list" where
  "pg_gc_candidates before c = map extent_of (filter (\<lambda>e. deleted_at e \<noteq> None \<and> the (deleted_at e) < before) (cat_extents c))"

text \<open>The rows of \<open>extent_indexes\<close> go with their extents (\<open>ON DELETE CASCADE\<close>).\<close>

definition pg_delete_extent_rows :: "string list \<Rightarrow> catalog \<Rightarrow> catalog" where
  "pg_delete_extent_rows ids c =
     (if ids = [] then c
      else c\<lparr>cat_extents := filter (\<lambda>e. extent_of e \<notin> set ids) (cat_extents c),
             cat_indexes := filter (\<lambda>x. ix_extent x \<notin> set ids) (cat_indexes c)\<rparr>)"

section \<open>Staged extents\<close>

text \<open>A row of \<open>staged_extents\<close>; the manifest is stored as JSON and taken to be read back as it was.\<close>

record staged_row =
  sg_id :: nat
  sg_tenant :: nat
  sg_table :: nat
  sg_batch :: nat
  sg_manifest :: extent_manifest
  sg_created_at :: int

definition stage_extent :: "nat \<Rightarrow> int \<Rightarrow> nat \<Rightarrow> nat \<Rightarrow> extent_manifest \<Rightarrow> staged_row list \<Rightarrow> (catalog_error + bool) \<times> staged_row list" where
  "stage_extent i now tenant batch m sg =
     (if list_ex (\<lambda>r. sg_tenant r = tenant \<and> sg_batch r = batch) sg then (Inr False, sg)
      else case insert_row unique_error (\<lambda>r. sg_id r = i) \<lparr>sg_id = i, sg_tenant = tenant, sg_table = ext_table_id m, sg_batch = batch,
             sg_manifest = m, sg_created_at = now\<rparr> sg of
        Inl e \<Rightarrow> (Inl e, sg)
      | Inr sg' \<Rightarrow> (Inr True, sg'))"

definition list_staged_extents :: "nat \<Rightarrow> nat \<Rightarrow> staged_row list \<Rightarrow> staged_row list" where
  "list_staged_extents tenant limit sg = take limit (sort_key sg_created_at (filter (\<lambda>r. sg_tenant r = tenant) sg))"

definition staged_summary :: "extent_manifest list \<Rightarrow> json" where
  "staged_summary ms = JObject [(''operation'', JString (''ingest_staged_x'' @ show_nat (length ms))),
     (''rows_added'', JInt (sum_list (map (\<lambda>m. int (ext_row_count m)) ms))), (''rows_removed'', JInt 0),
     (''bytes_added'', JInt (sum_list (map (\<lambda>m. int (byte_size m)) ms))), (''bytes_removed'', JInt 0)]"

definition staged_parent :: "nat \<Rightarrow> nat \<Rightarrow> catalog \<Rightarrow> catalog_error + snap_row" where
  "staged_parent tenant tid c =
     bindE (case List.find (\<lambda>t. t_tenant t = tenant \<and> t_id t = tid) (cat_tables c) of
              None \<Rightarrow> Inl (SqlError ''table not found'')
            | Some t \<Rightarrow> (case t_snapshot t of None \<Rightarrow> Inl (SqlError ''unexpected null'') | Some p \<Rightarrow> Inr p)) (\<lambda>parent.
     case List.find (\<lambda>s. sn_id s = parent) (cat_snapshots c) of
       None \<Rightarrow> Inl (SqlError ''parent snapshot not found'')
     | Some p \<Rightarrow> Inr p)"

definition commit_staged_group :: "nat \<Rightarrow> nat \<Rightarrow> int \<Rightarrow> nat \<Rightarrow> nat \<Rightarrow> nat list \<Rightarrow> extent_manifest list
    \<Rightarrow> catalog \<times> staged_row list \<Rightarrow> (catalog_error + nat option) \<times> catalog \<times> staged_row list" where
  "commit_staged_group snid mid now tenant tid ids ms s =
     (let c = fst s; sg = snd s in
      if ms = [] then (Inr None, s)
      else case bindE (staged_parent tenant tid c) (\<lambda>p.
             bindE (insert_snapshot snid now (staged_summary ms) tenant tid (sn_id p) (sn_seq p + 1) (sn_schema p) c) (\<lambda>c1.
             bindE (insert_manifest mid now tenant snid ms c1) (\<lambda>c2.
             bindE (add_extents tenant mid ms c2) (\<lambda>c3.
             swap_snapshot tenant tid (sn_id p) snid c3)))) of
        Inl e \<Rightarrow> (Inl e, s)
      | Inr c' \<Rightarrow> (Inr (Some snid), c', filter (\<lambda>r. \<not> (sg_tenant r = tenant \<and> sg_id r \<in> set ids)) sg))"

section \<open>The committer\<close>

text \<open>
  The retry loop of one group: up to 20 retries on conflict, any other error is logged and the group
  given up. \<open>env\<close> is what happens before an attempt. The result says whether the group was committed.
\<close>

fun staged_loop :: "(nat \<Rightarrow> catalog \<times> staged_row list \<Rightarrow> catalog \<times> staged_row list) \<Rightarrow> (nat \<Rightarrow> nat \<times> nat) \<Rightarrow> (nat \<Rightarrow> int)
    \<Rightarrow> nat \<Rightarrow> nat \<Rightarrow> staged_row list \<Rightarrow> nat \<Rightarrow> nat \<Rightarrow> catalog \<times> staged_row list \<Rightarrow> bool \<times> catalog \<times> staged_row list" where
  "staged_loop env gen now tenant tid rows n attempt s =
     (case commit_staged_group (fst (gen attempt)) (snd (gen attempt)) (now attempt) tenant tid (map sg_id rows) (map sg_manifest rows) (env attempt s) of
        (Inr _, s') \<Rightarrow> (True, s')
      | (Inl Conflict, s') \<Rightarrow>
          (case n of 0 \<Rightarrow> (False, s') | Suc n' \<Rightarrow> staged_loop env gen now tenant tid rows n' (attempt + 1) s')
      | (Inl _, s') \<Rightarrow> (False, s'))"

definition staged_groups :: "staged_row list \<Rightarrow> (nat \<times> staged_row list) list" where
  "staged_groups staged = map (\<lambda>tid. (tid, filter (\<lambda>r. sg_table r = tid) staged)) (remdups (map sg_table staged))"

fun commit_groups :: "(nat \<Rightarrow> nat \<Rightarrow> catalog \<times> staged_row list \<Rightarrow> catalog \<times> staged_row list) \<Rightarrow> (nat \<Rightarrow> nat \<Rightarrow> nat \<times> nat)
    \<Rightarrow> (nat \<Rightarrow> nat \<Rightarrow> int) \<Rightarrow> nat \<Rightarrow> (nat \<times> staged_row list) list \<Rightarrow> nat \<Rightarrow> catalog \<times> staged_row list \<Rightarrow> nat \<times> catalog \<times> staged_row list" where
  "commit_groups env gen now tenant [] n s = (n, s)"
| "commit_groups env gen now tenant ((tid, rows) # gs) n s =
     (case staged_loop (env tid) (gen tid) (now tid) tenant tid rows 20 0 s of
        (ok, s') \<Rightarrow> commit_groups env gen now tenant gs (if ok then n + length rows else n) s')"

text \<open>One pass; \<open>ord\<close> is the order in which the hash map yields its groups.\<close>

definition committer_tick :: "((nat \<times> staged_row list) list \<Rightarrow> (nat \<times> staged_row list) list)
    \<Rightarrow> (nat \<Rightarrow> nat \<Rightarrow> catalog \<times> staged_row list \<Rightarrow> catalog \<times> staged_row list) \<Rightarrow> (nat \<Rightarrow> nat \<Rightarrow> nat \<times> nat) \<Rightarrow> (nat \<Rightarrow> nat \<Rightarrow> int) \<Rightarrow> nat \<Rightarrow> nat
    \<Rightarrow> catalog \<times> staged_row list \<Rightarrow> nat \<times> catalog \<times> staged_row list" where
  "committer_tick ord env gen now tenant max_per_tick s =
     (let staged = list_staged_extents tenant max_per_tick (snd s) in
      if staged = [] then (0, s) else commit_groups env gen now tenant (ord (staged_groups staged)) 0 s)"

section \<open>The two backends agree\<close>

lemma pg_begin_eq: "pg_begin_snapshot = begin_snapshot"
  by (intro ext) (auto simp: pg_begin_snapshot_def begin_snapshot_def bindE_def split: option.splits)

lemma pg_commit_eq: "pg_commit snid mid now su tx c = commit snid mid now su tx c"
proof (cases "List.find (\<lambda>s. sn_id s = tx_parent tx) (cat_snapshots c)")
  case None
  then show ?thesis by (simp add: pg_commit_def commit_def bindE_def)
next
  case (Some p)
  then show ?thesis
    by (simp add: pg_commit_def commit_def bindE_def insert_snapshot_def insert_manifest_def add_extents_def swap_snapshot_def
        insert_row_def Let_def cas_hit_def [abs_def] split: sum.splits)
qed

lemma pg_gc_eq: "pg_gc_candidates = gc_candidates" "pg_delete_extent_rows = delete_extent_rows"
  by (auto simp: fun_eq_iff pg_gc_candidates_def gc_candidates_def before_cut_def pg_delete_extent_rows_def delete_extent_rows_def
      intro!: arg_cong [where f = "map extent_of"] filter_cong split: option.splits)

section \<open>A group is one commit\<close>

definition staged_txn :: "nat \<Rightarrow> nat \<Rightarrow> snap_row \<Rightarrow> extent_manifest list \<Rightarrow> snapshot_txn" where
  "staged_txn tenant tid p ms = \<lparr>tx_tenant = tenant, tx_table = tid, tx_parent = sn_id p, tx_schema = sn_schema p, tx_added = ms, tx_removed = []\<rparr>"

definition staged_su :: "extent_manifest list \<Rightarrow> snapshot_summary" where
  "staged_su ms = \<lparr>su_operation = ''ingest_staged_x'' @ show_nat (length ms), su_rows_added = sum_list (map (\<lambda>m. int (ext_row_count m)) ms),
     su_rows_removed = 0, su_bytes_added = sum_list (map (\<lambda>m. int (byte_size m)) ms), su_bytes_removed = 0\<rparr>"

lemma staged_parent_find: "staged_parent tenant tid c = Inr p \<Longrightarrow> List.find (\<lambda>s. sn_id s = sn_id p) (cat_snapshots c) = Some p"
  by (auto simp: staged_parent_def bindE_Inr_iff find_Some_iff split: option.splits)

lemma commit_staged_commit:
  assumes "staged_parent tenant tid c = Inr p" and "ms \<noteq> []"
  shows "commit_staged_group snid mid now tenant tid ids ms (c, sg) =
    (case commit snid mid now (staged_su ms) (staged_txn tenant tid p ms) c of
       (Inl e, _) \<Rightarrow> (Inl e, c, sg)
     | (Inr i, c') \<Rightarrow> (Inr (Some i), c', filter (\<lambda>r. \<not> (sg_tenant r = tenant \<and> sg_id r \<in> set ids)) sg))"
proof -
  have su: "staged_summary ms = summary_json (staged_su ms)"
    by (simp add: staged_summary_def staged_su_def summary_json_def)
  have sd: "c3\<lparr>cat_extents := soft_delete tenant now [] (cat_extents c3)\<rparr> = c3" for c3 :: catalog
    by (simp add: soft_delete_def)
  show ?thesis
    unfolding pg_commit_eq [symmetric] commit_staged_group_def pg_commit_def su
    by (simp add: assms staged_parent_find [OF assms(1)] staged_txn_def sd bindE_def split: sum.splits)
qed

lemma commit_staged_cases:
  assumes "commit_staged_group snid mid now tenant tid ids ms (c, sg) = (r, c', sg')"
  obtains "c' = c" "sg' = sg"
  | p i where "ms \<noteq> []" "r = Inr (Some i)" "commit snid mid now (staged_su ms) (staged_txn tenant tid p ms) c = (Inr i, c')"
      "sg' = filter (\<lambda>r. \<not> (sg_tenant r = tenant \<and> sg_id r \<in> set ids)) sg"
proof (cases "ms = []")
  case True
  with assms have "c' = c" "sg' = sg" by (simp_all add: commit_staged_group_def)
  then show thesis by (rule that(1))
next
  case False
  show thesis
  proof (cases "staged_parent tenant tid c")
    case (Inl e)
    with assms False have "c' = c" "sg' = sg" by (simp_all add: commit_staged_group_def bindE_def)
    then show thesis by (rule that(1))
  next
    case (Inr p)
    obtain q c1 where q: "commit snid mid now (staged_su ms) (staged_txn tenant tid p ms) c = (q, c1)" by fastforce
    note a = assms [unfolded commit_staged_commit [OF Inr False] q prod.case]
    show thesis
    proof (cases q)
      case (Inl e)
      with a have "c' = c" "sg' = sg" by simp_all
      then show thesis by (rule that(1))
    next
      case Inr': (Inr i)
      with a q show thesis by (intro that(2) [OF False, of i p]) simp_all
    qed
  qed
qed

lemma commit_added_rows:
  assumes "commit snid mid now su tx c = (Inr i, c')"
  shows "map row_manifest (cat_extents c') = map row_manifest (cat_extents c) @ tx_added tx"
    and "distinct (map extent_of (cat_extents c)) \<Longrightarrow> distinct (map extent_of (cat_extents c'))"
proof -
  show "map row_manifest (cat_extents c') = map row_manifest (cat_extents c) @ tx_added tx"
    using assms by (rule commitE) (simp add: committed_def soft_delete_def comp_def if_distrib cong: if_cong)
  show "distinct (map extent_of (cat_extents c)) \<Longrightarrow> distinct (map extent_of (cat_extents c'))"
    using assms by (auto elim: commitE)
qed

section \<open>Exactly once\<close>

text \<open>
  The catalog, the staged rows and, as a ghost, every row that was ever staged. Routers stage extents
  with new identifiers; writers commit transactions of their own; committers, any number of them, commit groups
  of rows that they listed at some earlier time.
\<close>

record staged_world =
  sw_catalog :: catalog
  sw_staged :: "staged_row list"
  sw_history :: "staged_row list"

inductive staged_step :: "staged_world \<Rightarrow> staged_world \<Rightarrow> bool" where
  stage: "stage_extent i now tenant batch m (sw_staged w) = (Inr True, sg) \<Longrightarrow>
    i \<notin> sg_id ` set (sw_history w) \<Longrightarrow> ext_id m \<notin> (ext_id \<circ> sg_manifest) ` set (sw_history w) \<Longrightarrow>
    ext_id m \<notin> extent_of ` set (cat_extents (sw_catalog w)) \<Longrightarrow>
    staged_step w (w\<lparr>sw_staged := sg, sw_history := sw_history w @ [last sg]\<rparr>)"
| other: "commit snid mid now su tx (sw_catalog w) = (r, c') \<Longrightarrow>
    ext_id ` set (tx_added tx) \<inter> (ext_id \<circ> sg_manifest) ` set (sw_history w) = {} \<Longrightarrow>
    staged_step w (w\<lparr>sw_catalog := c'\<rparr>)"
| group: "set rows \<subseteq> set (sw_history w) \<Longrightarrow> \<forall>x \<in> set rows. sg_tenant x = tenant \<Longrightarrow>
    commit_staged_group snid mid now tenant tid (map sg_id rows) (map sg_manifest rows) (sw_catalog w, sw_staged w) = (r, c', sg') \<Longrightarrow>
    staged_step w (w\<lparr>sw_catalog := c', sw_staged := sg'\<rparr>)"

inductive staged_reachable :: "staged_world \<Rightarrow> bool" where
  init: "cat_reachable c \<Longrightarrow> staged_reachable \<lparr>sw_catalog = c, sw_staged = [], sw_history = []\<rparr>"
| step: "staged_reachable w \<Longrightarrow> staged_step w w' \<Longrightarrow> staged_reachable w'"

definition staged_inv :: "staged_world \<Rightarrow> bool" where
  "staged_inv w \<longleftrightarrow> distinct (map extent_of (cat_extents (sw_catalog w))) \<and>
     distinct (map sg_id (sw_history w)) \<and> distinct (map (ext_id \<circ> sg_manifest) (sw_history w)) \<and>
     set (sw_staged w) \<subseteq> set (sw_history w) \<and>
     (\<forall>h \<in> set (sw_history w). h \<in> set (sw_staged w) \<longleftrightarrow> ext_id (sg_manifest h) \<notin> extent_of ` set (cat_extents (sw_catalog w))) \<and>
     (\<forall>h \<in> set (sw_history w) - set (sw_staged w). sg_manifest h \<in> row_manifest ` set (cat_extents (sw_catalog w)))"

lemma staged_invD:
  assumes "staged_inv w"
  shows "distinct (map extent_of (cat_extents (sw_catalog w)))" "distinct (map sg_id (sw_history w))"
    "distinct (map (ext_id \<circ> sg_manifest) (sw_history w))" "set (sw_staged w) \<subseteq> set (sw_history w)"
    "h \<in> set (sw_history w) \<Longrightarrow> h \<in> set (sw_staged w) \<longleftrightarrow> ext_id (sg_manifest h) \<notin> extent_of ` set (cat_extents (sw_catalog w))"
    "h \<in> set (sw_history w) \<Longrightarrow> h \<notin> set (sw_staged w) \<Longrightarrow> sg_manifest h \<in> row_manifest ` set (cat_extents (sw_catalog w))"
  using assms unfolding staged_inv_def by blast+

lemma staged_invI:
  assumes "distinct (map extent_of (cat_extents c))" "distinct (map sg_id hs)" "distinct (map (ext_id \<circ> sg_manifest) hs)" "set sg \<subseteq> set hs"
    and "\<And>h. h \<in> set hs \<Longrightarrow> h \<in> set sg \<longleftrightarrow> ext_id (sg_manifest h) \<notin> extent_of ` set (cat_extents c)"
    and "\<And>h. h \<in> set hs \<Longrightarrow> h \<notin> set sg \<Longrightarrow> sg_manifest h \<in> row_manifest ` set (cat_extents c)"
  shows "staged_inv (w\<lparr>sw_catalog := c, sw_staged := sg, sw_history := hs\<rparr>)"
  using assms unfolding staged_inv_def by auto

lemma manifests_ids: "extent_of ` set (cat_extents c) = ext_id ` row_manifest ` set (cat_extents c)"
  by (simp add: image_comp comp_def)

lemma staged_inv_stage:
  assumes inv: "staged_inv w" and st: "stage_extent i now tenant batch m (sw_staged w) = (Inr True, sg)"
    and i: "i \<notin> sg_id ` set (sw_history w)" and m: "ext_id m \<notin> (ext_id \<circ> sg_manifest) ` set (sw_history w)"
      "ext_id m \<notin> extent_of ` set (cat_extents (sw_catalog w))"
  shows "staged_inv (w\<lparr>sw_staged := sg, sw_history := sw_history w @ [last sg]\<rparr>)"
proof -
  let ?r = "\<lparr>sg_id = i, sg_tenant = tenant, sg_table = ext_table_id m, sg_batch = batch, sg_manifest = m, sg_created_at = now\<rparr>"
  have sg: "sg = sw_staged w @ [?r]"
    using st by (auto simp: stage_extent_def insert_row_def split: if_splits)
  have new: "?r \<notin> set (sw_history w)" using i by force
  note d = staged_invD [OF inv]
  have staged: "h \<in> set sg \<longleftrightarrow> ext_id (sg_manifest h) \<notin> extent_of ` set (cat_extents (sw_catalog w))"
    if "h \<in> set (sw_history w @ [?r])" for h
    using that d(5) [of h] d(4) m(2) new by (cases "h = ?r") (auto simp: sg)
  have fin: "sg_manifest h \<in> row_manifest ` set (cat_extents (sw_catalog w))" if "h \<in> set (sw_history w @ [?r])" "h \<notin> set sg" for h
    using that d(6) [of h] by (auto simp: sg)
  have ids: "distinct (map sg_id (sw_history w @ [?r]))" using d(2) i by auto
  have mans: "distinct (map (ext_id \<circ> sg_manifest) (sw_history w @ [?r]))" using d(3) m(1) by (auto simp: comp_def)
  have sub: "set sg \<subseteq> set (sw_history w @ [?r])" using d(4) by (auto simp: sg)
  have "last sg = ?r" by (simp add: sg)
  with staged_invI [OF d(1) ids mans sub staged fin, where w = w] show ?thesis by simp
qed

lemma staged_inv_other:
  assumes inv: "staged_inv w" and cm: "commit snid mid now su tx (sw_catalog w) = (r, c')"
    and new: "ext_id ` set (tx_added tx) \<inter> (ext_id \<circ> sg_manifest) ` set (sw_history w) = {}"
  shows "staged_inv (w\<lparr>sw_catalog := c'\<rparr>)"
proof (cases r)
  case (Inl e)
  with cm have "c' = sw_catalog w" by (auto dest: commit_Inl)
  with inv show ?thesis by simp
next
  case (Inr i)
  note c = commit_added_rows [OF cm [unfolded Inr]]
  note d = staged_invD [OF inv]
  have rows: "row_manifest ` set (cat_extents c') = row_manifest ` set (cat_extents (sw_catalog w)) \<union> set (tx_added tx)"
    using arg_cong [OF c(1), of set] by simp
  have "ext_id (sg_manifest h) \<notin> ext_id ` set (tx_added tx)" if "h \<in> set (sw_history w)" for h using new that by auto
  then have "h \<in> set (sw_staged w) \<longleftrightarrow> ext_id (sg_manifest h) \<notin> extent_of ` set (cat_extents c')" if "h \<in> set (sw_history w)" for h
    using d(5) [OF that] that unfolding manifests_ids rows by blast
  moreover have "sg_manifest h \<in> row_manifest ` set (cat_extents c')" if "h \<in> set (sw_history w)" "h \<notin> set (sw_staged w)" for h
    using d(6) [OF that] unfolding rows by blast
  ultimately show ?thesis using staged_invI [OF c(2) [OF d(1)] d(2-4), where w = w] by simp
qed

lemma staged_inv_group:
  assumes inv: "staged_inv w" and rows: "set rows \<subseteq> set (sw_history w)" "\<forall>x \<in> set rows. sg_tenant x = tenant"
    and g: "commit_staged_group snid mid now tenant tid (map sg_id rows) (map sg_manifest rows) (sw_catalog w, sw_staged w) = (r, c', sg')"
  shows "staged_inv (w\<lparr>sw_catalog := c', sw_staged := sg'\<rparr>)"
  using g
proof (cases rule: commit_staged_cases)
  case 1
  with inv show ?thesis by simp
next
  case (2 p i)
  note d = staged_invD [OF inv]
  note c = commit_added_rows [OF 2(3)]
  have man: "row_manifest ` set (cat_extents c') = row_manifest ` set (cat_extents (sw_catalog w)) \<union> sg_manifest ` set rows"
    using arg_cong [OF c(1), of set] by (simp add: staged_txn_def)
  have "distinct (map ext_id (map row_manifest (cat_extents c')))" using c(2) d(1) by (simp add: comp_def)
  then have fresh: "ext_id (sg_manifest x) \<notin> extent_of ` set (cat_extents (sw_catalog w))" if "x \<in> set rows" for x
    using that unfolding c(1) by (auto simp: staged_txn_def)
  have gone: "h \<in> set sg' \<longleftrightarrow> h \<in> set (sw_staged w) \<and> h \<notin> set rows" if "h \<in> set (sw_history w)" for h
  proof -
    have "sg_id h \<in> sg_id ` set rows \<longleftrightarrow> h \<in> set rows" using distinct_key [OF d(2) that] rows(1) by (auto simp: image_iff)
    then show ?thesis unfolding 2(4) using rows(2) by auto
  qed
  have staged: "h \<in> set sg' \<longleftrightarrow> ext_id (sg_manifest h) \<notin> extent_of ` set (cat_extents c')" if h: "h \<in> set (sw_history w)" for h
  proof -
    have "ext_id (sg_manifest h) \<in> ext_id ` sg_manifest ` set rows \<longleftrightarrow> h \<in> set rows"
      using distinct_key [OF d(3) h] rows(1) by (auto simp: image_iff)
    then show ?thesis unfolding gone [OF h] d(5) [OF h] manifests_ids [of c'] man image_Un using manifests_ids by auto
  qed
  have "sg_manifest h \<in> row_manifest ` set (cat_extents c')" if "h \<in> set (sw_history w)" "h \<notin> set sg'" for h
    using that gone [OF that(1)] d(6) [OF that(1)] unfolding man by blast
  moreover have "set sg' \<subseteq> set (sw_history w)" using d(4) unfolding 2(4) by auto
  ultimately show ?thesis using staged_invI [OF c(2) [OF d(1)] d(2,3) _ staged, where w = w] by simp
qed

lemma staged_reachable_inv: "staged_reachable w \<Longrightarrow> staged_inv w"
proof (induction rule: staged_reachable.induct)
  case (init c)
  then show ?case using cat_reachable_inv [OF init] by (simp add: staged_inv_def cat_inv_def)
next
  case (step w w')
  from step.hyps(2) step.IH show ?case
    by (cases rule: staged_step.cases) (auto intro: staged_inv_stage staged_inv_other staged_inv_group simp del: o_apply image_comp comp_def)
qed

text \<open>
  C5: Whatever routers, writers and committers do and however stale the listings of the
  committers are, an extent that was staged is at every moment either staged still or committed, never both,
  never lost and never twice.
\<close>

theorem staged_exactly_once:
  assumes "staged_reachable w" and "h \<in> set (sw_history w)"
  shows "length (filter (\<lambda>r. r = h) (remdups (sw_staged w))) +
    length (filter (\<lambda>e. extent_of e = ext_id (sg_manifest h)) (cat_extents (sw_catalog w))) = 1 \<and>
    (h \<in> set (sw_staged w) \<or> sg_manifest h \<in> row_manifest ` set (cat_extents (sw_catalog w)))"
proof -
  note d = staged_invD [OF staged_reachable_inv [OF assms(1)]]
  have one: "length (filter (\<lambda>x. f x = a) xs) = (if a \<in> f ` set xs then 1 else 0)" if "distinct (map f xs)" for f :: "'a \<Rightarrow> 'b" and a xs
    using that by (induction xs) auto
  have "length (filter (\<lambda>r. r = h) (remdups (sw_staged w))) = (if h \<in> set (sw_staged w) then 1 else 0)"
    using one [of id "remdups (sw_staged w)" h] by simp
  then show ?thesis using one [OF d(1), of "ext_id (sg_manifest h)"] d(5,6) [OF assms(2)] by auto
qed

section \<open>Staged rows without a table\<close>

text \<open>
  The staged rows of a table that is gone are never removed: committing their group fails every
  time. They are the oldest, so once they fill the limit of a pass, nothing staged later is ever listed and a
  pass changes nothing, for all tables of the tenant.
\<close>

theorem dropped_table_starves:
  assumes gone: "\<forall>r \<in> set (list_staged_extents tenant n (snd s)). \<forall>t \<in> set (cat_tables (fst s)). t_id t \<noteq> sg_table r"
    and ord: "\<forall>gs. set (ord gs) = set gs" and quiet: "\<forall>tid k d. env tid k d = d"
  shows "committer_tick ord env gen now tenant n s = (0, s)"
proof -
  have fail: "staged_loop (env tid) g t tenant tid rows k a s = (False, s)"
    if "rows \<noteq> []" "\<forall>t \<in> set (cat_tables (fst s)). t_id t \<noteq> tid" for tid g t rows k a
  proof -
    have "List.find (\<lambda>t. t_tenant t = tenant \<and> t_id t = tid) (cat_tables (fst s)) = None"
      using that(2) by (auto simp: find_None_iff)
    then show ?thesis using that(1) quiet
      by (cases s) (simp add: staged_loop.simps [of _ _ _ _ _ _ k] commit_staged_group_def staged_parent_def bindE_def Let_def)
  qed
  have groups: "commit_groups env gen now tenant gs 0 s = (0, s)"
    if "\<forall>(tid, rows) \<in> set gs. rows \<noteq> [] \<and> (\<forall>t \<in> set (cat_tables (fst s)). t_id t \<noteq> tid)" for gs
    using that by (induction gs) (auto simp: fail simp del: staged_loop.simps)
  have "\<forall>(tid, rows) \<in> set (ord (staged_groups staged)). rows \<noteq> [] \<and> (\<forall>t \<in> set (cat_tables (fst s)). t_id t \<noteq> tid)"
    if "staged = list_staged_extents tenant n (snd s)" for staged
    using gone that by (auto simp: ord staged_groups_def filter_empty_conv)
  then show ?thesis by (simp add: committer_tick_def Let_def groups)
qed

section \<open>Witnesses\<close>

definition ex_staged :: staged_row where
  "ex_staged = \<lparr>sg_id = 1, sg_tenant = 7, sg_table = 1, sg_batch = 9, sg_manifest = sample_extent ''a'', sg_created_at = 0\<rparr>"

theorem staged_exactly_once_witness:
  "\<exists>c' sg'. commit_staged_group 4 4 0 7 1 [1] [sample_extent ''a''] (seed_catalog, [ex_staged]) = (Inr (Some 4), c', sg') \<and>
     staged_reachable \<lparr>sw_catalog = c', sw_staged = sg', sw_history = [ex_staged]\<rparr> \<and>
     length (filter (\<lambda>r. r = ex_staged) (remdups sg')) + length (filter (\<lambda>e. extent_of e = ''a'') (cat_extents c')) = 1"
proof -
  let ?w0 = "\<lparr>sw_catalog = seed_catalog, sw_staged = [], sw_history = []\<rparr>"
  let ?w1 = "\<lparr>sw_catalog = seed_catalog, sw_staged = [ex_staged], sw_history = [ex_staged]\<rparr>"
  have "stage_extent 1 0 7 9 (sample_extent ''a'') (sw_staged ?w0) = (Inr True, [ex_staged])"
    by (simp add: stage_extent_def insert_row_def ex_staged_def sample_extent_def)
  from staged_step.stage [OF this] have "staged_step ?w0 ?w1" by (simp add: seed_eq sample_extent_def)
  then have r1: "staged_reachable ?w1" using staged_reachable.init [OF seed_reachable] by (rule staged_reachable.step [rotated])
  let ?g = "commit_staged_group 4 4 0 7 1 [1] [sample_extent ''a''] (seed_catalog, [ex_staged])"
  have "fst ?g = Inr (Some 4)" by code_simp
  then obtain c' sg' where g: "?g = (Inr (Some 4), c', sg')" by (metis prod.collapse)
  have "staged_step ?w1 (?w1\<lparr>sw_catalog := c', sw_staged := sg'\<rparr>)"
    by (rule staged_step.group [where rows = "[ex_staged]" and tenant = 7 and tid = 1]) (use g in \<open>simp_all add: ex_staged_def\<close>)
  then have r2: "staged_reachable \<lparr>sw_catalog = c', sw_staged = sg', sw_history = [ex_staged]\<rparr>"
    using staged_reachable.step [OF r1] by simp
  from staged_exactly_once [OF r2, of ex_staged] g r2 show ?thesis by (simp add: ex_staged_def sample_extent_def)
qed

theorem dropped_table_starves_witness:
  "committer_tick (\<lambda>gs. gs) (\<lambda>_ _ d. d) (\<lambda>_ _. (4, 4)) (\<lambda>_ _. 0) 7 1
     (seed_catalog, [ex_staged\<lparr>sg_table := 2\<rparr>, ex_staged\<lparr>sg_id := 2, sg_created_at := 1\<rparr>]) =
   (0, seed_catalog, [ex_staged\<lparr>sg_table := 2\<rparr>, ex_staged\<lparr>sg_id := 2, sg_created_at := 1\<rparr>])"
proof -
  let ?s = "(seed_catalog, [ex_staged\<lparr>sg_table := 2\<rparr>, ex_staged\<lparr>sg_id := 2, sg_created_at := 1\<rparr>])"
  have "\<forall>r \<in> set (list_staged_extents 7 1 (snd ?s)). \<forall>t \<in> set (cat_tables (fst ?s)). t_id t \<noteq> sg_table r"
    by (simp add: list_staged_extents_def ex_staged_def seed_eq)
  from dropped_table_starves [OF this] show ?thesis by simp
qed

end
