(* ===== verification/Retention.thy ===== *)
theory Retention
  imports Pg_Catalog
begin

text \<open>
  Retention and physical deletion: the settings and their resolution (\<open>pensieve-core/src/retention.rs\<close>,
  \<open>pensieve-catalog/src/retention_settings.rs\<close>), the sweeper that soft-deletes expired extents and the worker
  that deletes objects and rows after the grace period (\<open>pensieve-compaction/src/retention.rs\<close>). The
  object store's \<open>delete\<close> is a parameter.
\<close>

section \<open>Settings\<close>

record retention_settings =
  global_default_days :: "nat option"
  per_source_days :: "(string \<times> nat) list"
  per_table_days :: "(string \<times> nat) list"
  per_artifact_class_days :: "(string \<times> nat) list"

definition settings_default :: retention_settings where
  "settings_default = \<lparr>global_default_days = None, per_source_days = [], per_table_days = [], per_artifact_class_days = []\<rparr>"

definition or_else :: "'a option \<Rightarrow> 'a option \<Rightarrow> 'a option" where
  "or_else a b = (case a of None \<Rightarrow> b | Some x \<Rightarrow> Some x)"

definition artifact_days :: "retention_settings \<Rightarrow> string \<Rightarrow> string \<Rightarrow> nat option" where
  "artifact_days s source cls =
     or_else (or_else (map_of (per_artifact_class_days s) cls) (map_of (per_source_days s) source)) (global_default_days s)"

definition table_days :: "retention_settings \<Rightarrow> string \<Rightarrow> string option \<Rightarrow> nat option" where
  "table_days s table_ref source =
     or_else (or_else (map_of (per_table_days s) table_ref) (Option.bind source (map_of (per_source_days s)))) (global_default_days s)"

text \<open>\<open>split_once('.')\<close>\<close>

fun split_once_dot :: "string \<Rightarrow> (string \<times> string) option" where
  "split_once_dot [] = None"
| "split_once_dot (ch # cs) = (if ch = CHR ''.'' then Some ([], cs) else map_option (\<lambda>(a, b). (ch # a, b)) (split_once_dot cs))"

text \<open>\<open>jsonb_set(config, '{retention_days}', ..)\<close>; a table's configuration is an object.\<close>

fun set_retention :: "nat \<Rightarrow> json \<Rightarrow> json" where
  "set_retention days (JObject kvs) = JObject (json_insert ''retention_days'' (JInt (int days)) kvs)"
| "set_retention days j = j"

definition reconcile_one :: "nat \<Rightarrow> string \<times> nat \<Rightarrow> catalog \<Rightarrow> catalog" where
  "reconcile_one tenant entry c =
     (case split_once_dot (fst entry) of
        None \<Rightarrow> c
      | Some (db, table) \<Rightarrow>
          c\<lparr>cat_tables := map (\<lambda>t. if t_name t = table \<and>
               list_ex (\<lambda>d. db_id d = t_database t \<and> db_tenant d = tenant \<and> db_name d = db) (cat_databases c)
             then t\<lparr>t_config := set_retention (snd entry) (t_config t)\<rparr> else t) (cat_tables c)\<rparr>)"

definition reconcile_table_retention :: "nat \<Rightarrow> retention_settings \<Rightarrow> catalog \<Rightarrow> catalog" where
  "reconcile_table_retention tenant s c = fold (reconcile_one tenant) (per_table_days s) c"

section \<open>The sweeper\<close>

text \<open>\<open>(t.config->>'retention_days')::int\<close>, for configurations that hold an integer or nothing there.\<close>

definition retention_days :: "table_row \<Rightarrow> int option" where
  "retention_days t = (case json_get (t_config t) ''retention_days'' of Some (JInt n) \<Rightarrow> Some n | _ \<Rightarrow> None)"

definition day_nanos :: int where
  "day_nanos = 24 * 3600 * 1000000000"

definition expired_extent :: "int \<Rightarrow> catalog \<Rightarrow> cat_extent \<Rightarrow> bool" where
  "expired_extent now c e \<longleftrightarrow> deleted_at e = None \<and>
     list_ex (\<lambda>t. t_id t = ext_table_id (row_manifest e) \<and>
       (case (retention_days t, max_timestamp (row_manifest e)) of
          (Some d, Some ts) \<Rightarrow> ts < now - d * day_nanos | _ \<Rightarrow> False)) (cat_tables c)"

definition expired_by_table :: "int \<Rightarrow> catalog \<Rightarrow> (nat \<times> string list) list" where
  "expired_by_table now c =
     (let rows = filter (expired_extent now c) (cat_extents c) in
      map (\<lambda>tid. (tid, map extent_of (filter (\<lambda>e. ext_table_id (row_manifest e) = tid) rows)))
        (remdups (map (\<lambda>e. ext_table_id (row_manifest e)) rows)))"

definition retention_summary :: snapshot_summary where
  "retention_summary = \<lparr>su_operation = ''retention'', su_rows_added = 0, su_rows_removed = 0, su_bytes_added = 0, su_bytes_removed = 0\<rparr>"

datatype backend = PostgresBackend | SqliteBackend

datatype retention_error = NeedsPostgres | RetentionFailed catalog_error

text \<open>
  One snapshot per table, at most five attempts each; \<open>begin_snapshot\<close> is that of the default tenant.
\<close>

fun sweep_tables :: "(nat \<Rightarrow> nat \<Rightarrow> catalog \<Rightarrow> catalog) \<Rightarrow> (nat \<Rightarrow> nat \<Rightarrow> nat \<times> nat) \<Rightarrow> (nat \<Rightarrow> nat \<Rightarrow> int) \<Rightarrow> nat \<Rightarrow> (nat \<times> string list) list \<Rightarrow> catalog
    \<Rightarrow> (retention_error + unit) \<times> catalog" where
  "sweep_tables env gen now tenant [] c = (Inr (), c)"
| "sweep_tables env gen now tenant ((tid, xs) # gs) c =
     (case commit_loop (env tid) (gen tid) (now tid) tenant tid (remove_extents xs) retention_summary 5 1 c of
        (Inl e, c') \<Rightarrow> (Inl (RetentionFailed e), c')
      | (Inr _, c') \<Rightarrow> sweep_tables env gen now tenant gs c')"

definition retention_tick :: "backend \<Rightarrow> ((nat \<times> string list) list \<Rightarrow> (nat \<times> string list) list) \<Rightarrow> (nat \<Rightarrow> nat \<Rightarrow> catalog \<Rightarrow> catalog)
    \<Rightarrow> (nat \<Rightarrow> nat \<Rightarrow> nat \<times> nat) \<Rightarrow> (nat \<Rightarrow> nat \<Rightarrow> int) \<Rightarrow> int \<Rightarrow> nat \<Rightarrow> catalog \<Rightarrow> (retention_error + unit) \<times> catalog" where
  "retention_tick b ord env gen now t0 tenant c =
     (if b \<noteq> PostgresBackend then (Inl NeedsPostgres, c)
      else sweep_tables env gen now tenant (ord (expired_by_table t0 c)) c)"

section \<open>Physical deletion\<close>

definition doomed_paths :: "string list \<Rightarrow> catalog \<Rightarrow> string list" where
  "doomed_paths ids c = map (\<lambda>e. object_path (row_manifest e)) (filter (\<lambda>e. extent_of e \<in> set ids) (cat_extents c)) @
     map ix_object_path (filter (\<lambda>x. ix_extent x \<in> set ids) (cat_indexes c))"

text \<open>A failed delete is counted and the batch goes on.\<close>

definition delete_object :: "('st \<Rightarrow> string \<Rightarrow> string + 'st) \<Rightarrow> string \<Rightarrow> 'st \<times> nat \<times> nat \<Rightarrow> 'st \<times> nat \<times> nat" where
  "delete_object del p s = (case s of (st, ok, failed) \<Rightarrow>
     (case del st p of Inl _ \<Rightarrow> (st, ok, failed + 1) | Inr st' \<Rightarrow> (st', ok + 1, failed)))"

definition physical_delete_tick :: "('st \<Rightarrow> string \<Rightarrow> string + 'st) \<Rightarrow> backend \<Rightarrow> int \<Rightarrow> int \<Rightarrow> 'st \<Rightarrow> catalog
    \<Rightarrow> (retention_error + unit) \<times> 'st \<times> catalog" where
  "physical_delete_tick del b now grace st c =
     (let ids = pg_gc_candidates (now - grace) c in
      if ids = [] then (Inr (), st, c)
      else if b \<noteq> PostgresBackend then (Inl NeedsPostgres, st, c)
      else (Inr (), fst (fold (delete_object del) (doomed_paths ids c) (st, 0, 0)), pg_delete_extent_rows ids c))"

section \<open>What physical deletion leaves\<close>

text \<open>The store's \<open>delete\<close> touches no other object.\<close>

definition delete_frame :: "('st \<Rightarrow> string \<Rightarrow> string + 'st) \<Rightarrow> ('st \<Rightarrow> string \<Rightarrow> 'a) \<Rightarrow> bool" where
  "delete_frame del get \<longleftrightarrow> (\<forall>st p st' q. del st p = Inr st' \<and> q \<noteq> p \<longrightarrow> get st' q = get st q)"

text \<open>Every extent and every sidecar has an object of its own.\<close>

definition own_objects :: "catalog \<Rightarrow> bool" where
  "own_objects c \<longleftrightarrow> distinct (map (\<lambda>e. object_path (row_manifest e)) (cat_extents c) @ map ix_object_path (cat_indexes c))"

lemma delete_objects_frame:
  assumes "delete_frame del get" and "p \<notin> set ps \<or> (\<forall>st. \<exists>e. del st p = Inl e)"
  shows "get (fst (fold (delete_object del) ps s)) p = get (fst s) p"
  using assms(2)
proof (induction ps arbitrary: s)
  case (Cons q ps)
  have "get (fst (delete_object del q s)) p = get (fst s) p"
  proof (cases "del (fst s) q")
    case (Inl e)
    then show ?thesis by (cases s) (simp add: delete_object_def)
  next
    case (Inr st')
    then have "q \<noteq> p" using Cons.prems by (metis list.set_intros(1) sum.distinct(1))
    then have "get st' p = get (fst s) p"
      using assms(1) [unfolded delete_frame_def, rule_format, of "fst s" q st' p] Inr by simp
    with Inr show ?thesis by (cases s) (simp add: delete_object_def)
  qed
  with Cons.IH [of "delete_object del q s"] Cons.prems show ?case by auto
qed simp

lemma distinct_map_inj: "distinct (map f xs) \<Longrightarrow> x \<in> set xs \<Longrightarrow> y \<in> set xs \<Longrightarrow> f x = f y \<Longrightarrow> x = y"
  by (auto simp: distinct_map inj_on_def)

lemma doomed_paths_own:
  assumes "own_objects c"
  shows "e \<in> set (cat_extents c) \<Longrightarrow> object_path (row_manifest e) \<in> set (doomed_paths ids c) \<longleftrightarrow> extent_of e \<in> set ids"
    and "x \<in> set (cat_indexes c) \<Longrightarrow> ix_object_path x \<in> set (doomed_paths ids c) \<longleftrightarrow> ix_extent x \<in> set ids"
proof -
  let ?p = "\<lambda>e. object_path (row_manifest e)"
  have d: "distinct (map ?p (cat_extents c))" "distinct (map ix_object_path (cat_indexes c))"
    "?p ` set (cat_extents c) \<inter> ix_object_path ` set (cat_indexes c) = {}"
    using assms by (auto simp: own_objects_def)
  show "?p e \<in> set (doomed_paths ids c) \<longleftrightarrow> extent_of e \<in> set ids" if e: "e \<in> set (cat_extents c)"
  proof
    assume "?p e \<in> set (doomed_paths ids c)"
    moreover have "?p e \<notin> ix_object_path ` set (cat_indexes c)" using d(3) e by blast
    ultimately obtain e' where e': "e' \<in> set (cat_extents c)" "extent_of e' \<in> set ids" "?p e = ?p e'"
      by (auto simp: doomed_paths_def)
    with distinct_map_inj [OF d(1) e e'(1)] show "extent_of e \<in> set ids" by simp
  qed (use e in \<open>auto simp: doomed_paths_def\<close>)
  show "ix_object_path x \<in> set (doomed_paths ids c) \<longleftrightarrow> ix_extent x \<in> set ids" if x: "x \<in> set (cat_indexes c)"
  proof
    assume "ix_object_path x \<in> set (doomed_paths ids c)"
    moreover have "ix_object_path x \<notin> ?p ` set (cat_extents c)" using d(3) x by blast
    ultimately obtain y where y: "y \<in> set (cat_indexes c)" "ix_extent y \<in> set ids" "ix_object_path x = ix_object_path y"
      by (auto simp: doomed_paths_def)
    with distinct_map_inj [OF d(2) x y(1)] show "ix_extent x \<in> set ids" by simp
  qed (use x in \<open>auto simp: doomed_paths_def\<close>)
qed

lemma candidate_iff:
  assumes "distinct (map extent_of (cat_extents c))" "e \<in> set (cat_extents c)"
  shows "extent_of e \<in> set (pg_gc_candidates cutoff c) \<longleftrightarrow> (\<exists>t < cutoff. deleted_at e = Some t)"
proof -
  have "extent_of e \<in> set (pg_gc_candidates cutoff c) \<longleftrightarrow> deleted_at e \<noteq> None \<and> the (deleted_at e) < cutoff"
    using distinct_map_inj [OF assms(1) _ assms(2)] assms(2) by (auto simp: pg_gc_candidates_def)
  then show ?thesis by auto
qed


text \<open>
  When an object cannot be deleted, its extent's row is removed all the same: the object stays in the store and
  no row names it any more, so no later pass will delete it.
\<close>

theorem gc_orphans:
  assumes c: "own_objects c" and del: "delete_frame del get" and fails: "\<forall>st. \<exists>err. del st (object_path (row_manifest e)) = Inl err"
    and e: "e \<in> set (cat_extents c)" "extent_of e \<in> set (pg_gc_candidates (now - grace) c)"
    and run: "physical_delete_tick del PostgresBackend now grace st c = (r, st', c')"
  shows "r = Inr () \<and> get st' (object_path (row_manifest e)) = get st (object_path (row_manifest e)) \<and>
    (\<forall>ids. object_path (row_manifest e) \<notin> set (doomed_paths ids c'))"
proof -
  let ?ids = "pg_gc_candidates (now - grace) c" and ?p = "object_path (row_manifest e)"
  have ne: "?ids \<noteq> []" using e(2) by auto
  then have r: "r = Inr ()" "st' = fst (fold (delete_object del) (doomed_paths ?ids c) (st, 0, 0))" "c' = pg_delete_extent_rows ?ids c"
    using run by (auto simp: physical_delete_tick_def Let_def)
  have "get st' ?p = get st ?p" unfolding r(2) using delete_objects_frame [OF del, of ?p "doomed_paths ?ids c" "(st, 0, 0)"] fails by simp
  moreover have "?p \<notin> set (doomed_paths ids c')" for ids
  proof -
    let ?o = "\<lambda>e. object_path (row_manifest e)"
    have d: "distinct (map ?o (cat_extents c))" "?o ` set (cat_extents c) \<inter> ix_object_path ` set (cat_indexes c) = {}"
      using c by (auto simp: own_objects_def)
    have "?p \<noteq> ?o f" if "f \<in> set (cat_extents c')" for f
      using that distinct_map_inj [OF d(1) e(1), of f] e(2) ne unfolding r(3) by (auto simp: pg_delete_extent_rows_def)
    moreover have "?p \<noteq> ix_object_path x" if "x \<in> set (cat_indexes c')" for x
      using that d(2) e(1) ne unfolding r(3) by (auto simp: pg_delete_extent_rows_def)
    ultimately show ?thesis by (auto simp: doomed_paths_def)
  qed
  ultimately show ?thesis using r(1) by blast
qed

section \<open>What the sweeper expires\<close>

lemma sweep_commit:
  assumes "commit_loop env ids now tenant tid (remove_extents xs) su n k c = (r, c')" and "\<forall>k d. env k d = d"
  shows "case r of Inl e \<Rightarrow> c' = c
    | Inr i \<Rightarrow> live T t c' = live T t c - (if T = tenant then set xs else {})"
proof -
  have "case r of Inl e \<Rightarrow> c' = c
    | Inr i \<Rightarrow> \<exists>tx e j d. begin_snapshot tenant tid e = Inr tx \<and> d = c \<and>
        commit (fst (ids j)) (snd (ids j)) (now j) su (remove_extents xs tx) d = (Inr i, c')"
    by (rule commit_loop_lands [where Q = "\<lambda>d. d = c", OF _ assms(1)]) (simp_all add: assms(2))
  moreover have "live T t c' = live T t c - (if T = tenant then set xs else {})"
    if b: "begin_snapshot tenant tid e = Inr tx" and cm: "commit snid mid now su (remove_extents xs tx) c = (Inr i, c')" for tx e snid mid now i
  proof -
    have tx: "tx_tenant tx = tenant" "tx_added tx = []" "tx_removed tx = []"
      using b by (auto simp: begin_snapshot_def split: option.splits)
    show ?thesis
    proof (cases "T = tenant")
      case True
      with commit_live [OF cm, of t] tx show ?thesis by (simp add: remove_extents_def)
    next
      case False
      from cm obtain p ms where "c' = committed snid mid now su (remove_extents xs tx) p ms c" by (rule commitE)
      with False tx show ?thesis by (simp add: other_tenant_live remove_extents_def)
    qed
  qed
  ultimately show ?thesis by (cases r) auto
qed

lemma sweep_tables_live:
  assumes "sweep_tables env gen now tenant gs c = (r, c')" and "\<forall>tid k d. env tid k d = d"
  shows "live T t c' \<subseteq> live T t c \<and> live T t c - (if T = tenant then \<Union> (set ` snd ` set gs) else {}) \<subseteq> live T t c' \<and>
    (r = Inr () \<longrightarrow> live T t c' = live T t c - (if T = tenant then \<Union> (set ` snd ` set gs) else {}))"
  using assms(1)
proof (induction gs arbitrary: c)
  case (Cons g gs)
  obtain tid xs where g: "g = (tid, xs)" by (cases g)
  obtain r1 c1 where r1: "commit_loop (env tid) (gen tid) (now tid) tenant tid (remove_extents xs) retention_summary 5 1 c = (r1, c1)" by fastforce
  note step = sweep_commit [OF r1, of T t] assms(2)
  show ?case
  proof (cases r1)
    case (Inl e)
    with Cons.prems g r1 have "r = Inl (RetentionFailed e)" "c' = c1" by simp_all
    with step Inl show ?thesis by auto
  next
    case (Inr i)
    with Cons.prems g r1 have "sweep_tables env gen now tenant gs c1 = (r, c')" by simp
    from Cons.IH [OF this] step Inr show ?thesis by (cases "T = tenant") (auto simp: g)
  qed
qed auto

lemma expired_union:
  "\<Union> (set ` snd ` set (expired_by_table now c)) = extent_of ` {e \<in> set (cat_extents c). expired_extent now c e}"
  by (force simp: expired_by_table_def Let_def)


text \<open>
  An expired extent of a table of another tenant makes every sweep fail, and it stays live: the query
  covers all tenants, the snapshot is begun in the default one.
\<close>

lemma sweep_tables_foreign:
  assumes "(tid, xs) \<in> set gs" and "\<forall>t \<in> set (cat_tables c). t_id t = tid \<longrightarrow> t_tenant t \<noteq> tenant"
    and quiet: "\<forall>tid k d. env tid k d = d"
  shows "fst (sweep_tables env gen now tenant gs c) \<noteq> Inr ()"
  using assms(1,2)
proof (induction gs arbitrary: c)
  case (Cons g gs)
  obtain t ys where g: "g = (t, ys)" by (cases g)
  obtain r1 c1 where r1: "commit_loop (env t) (gen t) (now t) tenant t (remove_extents ys) retention_summary 5 1 c = (r1, c1)" by fastforce
  show ?case
  proof (cases r1)
    case (Inl e)
    with g r1 show ?thesis by simp
  next
    case (Inr i)
    have "case r1 of Inl e \<Rightarrow> c1 = c
      | Inr i \<Rightarrow> \<exists>tx e j d. begin_snapshot tenant t e = Inr tx \<and> d = c \<and>
          commit (fst (gen t j)) (snd (gen t j)) (now t j) retention_summary (remove_extents ys tx) d = (Inr i, c1)"
      by (rule commit_loop_lands [where Q = "\<lambda>d. d = c", OF _ r1]) (simp_all add: quiet)
    then obtain tx e j where b: "begin_snapshot tenant t e = Inr tx"
      and cm: "commit (fst (gen t j)) (snd (gen t j)) (now t j) retention_summary (remove_extents ys tx) c = (Inr i, c1)" using Inr by auto
    from b have tx: "tx_tenant tx = tenant" "tx_table tx = t" by (auto simp: begin_snapshot_def split: option.splits)
    from cm obtain p ms where one: "length (filter (cas_hit (remove_extents ys tx)) (cat_tables c)) = 1"
      and c1: "c1 = committed (fst (gen t j)) (snd (gen t j)) (now t j) retention_summary (remove_extents ys tx) p ms c" by (rule commitE)
    from one have "filter (cas_hit (remove_extents ys tx)) (cat_tables c) \<noteq> []" by auto
    then obtain u where "u \<in> set (cat_tables c)" "cas_hit (remove_extents ys tx) u" by (auto simp: filter_empty_conv)
    then have "t \<noteq> tid" using Cons.prems(2) tx by (auto simp: cas_hit_def remove_extents_def)
    moreover have "\<forall>t \<in> set (cat_tables c1). t_id t = tid \<longrightarrow> t_tenant t \<noteq> tenant"
      using Cons.prems(2) by (auto simp: c1 committed_def)
    ultimately have "fst (sweep_tables env gen now tenant gs c1) \<noteq> Inr ()" using Cons.IH Cons.prems(1) g by auto
    with g r1 Inr show ?thesis by simp
  qed
qed simp

lemma foreign_tenant_fails_sweep:
  assumes "e \<in> set (cat_extents c)" "expired_extent t0 c e" and "\<forall>t \<in> set (cat_tables c). t_id t = ext_table_id (row_manifest e) \<longrightarrow> t_tenant t \<noteq> tenant"
    and "\<forall>gs. set (ord gs) = set gs" "\<forall>tid k d. env tid k d = d"
  shows "fst (retention_tick PostgresBackend ord env gen now t0 tenant c) \<noteq> Inr ()"
proof -
  have "(ext_table_id (row_manifest e), map extent_of (filter (\<lambda>f. ext_table_id (row_manifest f) = ext_table_id (row_manifest e))
      (filter (expired_extent t0 c) (cat_extents c)))) \<in> set (ord (expired_by_table t0 c))"
    unfolding assms(4) [rule_format] expired_by_table_def Let_def set_map by (rule imageI) (use assms(1,2) in auto)
  from sweep_tables_foreign [OF this assms(3,5)] show ?thesis by (simp add: retention_tick_def)
qed

section \<open>Overrides that stay\<close>

text \<open>
  Taking a per-table override out of the settings does not take it out of the table: after the settings
  have been saved and applied without it, they say that the table is kept forever, and the sweeper
  still reads the old retention.
\<close>

theorem sticky_override:
  assumes "t \<in> set (cat_tables c)" and "split_once_dot ref = Some (db, t_name t)" and "t_config t = JObject kvs"
    and "\<exists>d \<in> set (cat_databases c). db_id d = t_database t \<and> db_tenant d = tenant \<and> db_name d = db"
  shows "table_days settings_default ref source = None \<and>
    (\<exists>t' \<in> set (cat_tables (reconcile_table_retention tenant settings_default
       (reconcile_table_retention tenant (settings_default\<lparr>per_table_days := [(ref, days)]\<rparr>) c))).
      t_id t' = t_id t \<and> retention_days t' = Some (int days))"
proof -
  let ?t = "t\<lparr>t_config := set_retention days (t_config t)\<rparr>"
  have hit: "list_ex (\<lambda>d. db_id d = t_database t \<and> db_tenant d = tenant \<and> db_name d = db) (cat_databases c)"
    using assms(4) by (auto simp: list_ex_iff)
  have "?t \<in> set (cat_tables (reconcile_one tenant (ref, days) c))"
    unfolding reconcile_one_def fst_conv snd_conv assms(2) option.case prod.case
    using assms(1) hit by (auto simp del: if_image_distrib simp: image_iff intro!: bexI [of _ t])
  moreover have "retention_days ?t = Some (int days)"
    by (simp add: retention_days_def assms(3) map_of_json_insert)
  ultimately show ?thesis
    by (intro conjI bexI [of _ ?t])
      (simp_all add: table_days_def settings_default_def or_else_def reconcile_table_retention_def split: option.split)
qed

section \<open>Witnesses\<close>

definition expiring :: "string \<Rightarrow> int \<Rightarrow> extent_manifest" where
  "expiring i t = (sample_extent i)\<lparr>max_timestamp := Some t\<rparr>"

text \<open>The table of \<open>seed_catalog\<close> with a retention of one day, an old and a recent extent.\<close>

definition ex_retained :: catalog where
  "ex_retained = reconcile_table_retention 7 (settings_default\<lparr>per_table_days := [(''db.logs'', 1)]\<rparr>)
     (snd (ingest_commit (\<lambda>_ d. d) (\<lambda>_. (5, 5)) (\<lambda>_. 0) 7 1 (expiring ''b'' (2 * day_nanos))
       (snd (ingest_commit (\<lambda>_ d. d) (\<lambda>_. (4, 4)) (\<lambda>_. 0) 7 1 (expiring ''a'' 0) seed_catalog))))"


definition ex_delete :: "(string \<rightharpoonup> nat) \<Rightarrow> string \<Rightarrow> string + (string \<rightharpoonup> nat)" where
  "ex_delete st p = (if p = ''b'' then Inl ''denied'' else Inr (st(p := None)))"

lemma ex_delete_frame: "delete_frame ex_delete (\<lambda>st p. st p)"
  by (auto simp: delete_frame_def ex_delete_def split: if_splits)

text \<open>Both extents of \<open>two_extents\<close> were removed long ago.\<close>

definition ex_dead :: catalog where
  "ex_dead = snd (commit 6 6 0 retention_summary \<lparr>tx_tenant = 7, tx_table = 1, tx_parent = 5, tx_schema = 2, tx_added = [sample_extent ''c''],
     tx_removed = [''a'', ''b'']\<rparr> two_extents)"

lemma ex_dead_facts:
  "cat_reachable ex_dead" "own_objects ex_dead"
  "map (\<lambda>e. (extent_of e, object_path (row_manifest e), deleted_at e)) (cat_extents ex_dead) =
     [(''a'', ''a'', Some 0), (''b'', ''b'', Some 0), (''c'', ''c'', None)]"
proof -
  show "cat_reachable ex_dead" unfolding ex_dead_def
    by (rule cat_reachable.step [OF two_extents_reachable cat_step.commit_tx [OF prod.collapse [symmetric]]])
  have "map (\<lambda>e. object_path (row_manifest e)) (cat_extents ex_dead) = [''a'', ''b'', ''c'']" "cat_indexes ex_dead = []" by code_simp+
  then show "own_objects ex_dead" by (simp add: own_objects_def)
  show "map (\<lambda>e. (extent_of e, object_path (row_manifest e), deleted_at e)) (cat_extents ex_dead) =
     [(''a'', ''a'', Some 0), (''b'', ''b'', Some 0), (''c'', ''c'', None)]" by code_simp
qed

lemma ex_dead_row:
  assumes "(i, p, d) \<in> {(''a'', ''a'', Some 0), (''b'', ''b'', Some 0), (''c'', ''c'', None)}"
  shows "\<exists>e \<in> set (cat_extents ex_dead). extent_of e = i \<and> object_path (row_manifest e) = p \<and> deleted_at e = d"
proof -
  have "(i, p, d) \<in> set (map (\<lambda>e. (extent_of e, object_path (row_manifest e), deleted_at e)) (cat_extents ex_dead))"
    unfolding ex_dead_facts(3) using assms by simp
  then show ?thesis by auto
qed


theorem gc_orphans_witness:
  "\<exists>st' c'. physical_delete_tick ex_delete PostgresBackend 100 10 (\<lambda>_. Some 1) ex_dead = (Inr (), st', c') \<and>
     st' ''b'' = Some 1 \<and> (\<nexists>ids. ''b'' \<in> set (doomed_paths ids c'))"
proof -
  obtain r st' c' where run: "physical_delete_tick ex_delete PostgresBackend 100 10 (\<lambda>_. Some 1) ex_dead = (r, st', c')"
    by (metis prod.collapse)
  obtain e where e: "e \<in> set (cat_extents ex_dead)" "extent_of e = ''b''" "object_path (row_manifest e) = ''b''" "deleted_at e = Some 0"
    using ex_dead_row [of "''b''" "''b''" "Some 0"] by auto
  then have "extent_of e \<in> set (pg_gc_candidates (100 - 10) ex_dead)" by (force simp: pg_gc_candidates_def)
  from gc_orphans [OF ex_dead_facts(2) ex_delete_frame _ e(1) this run] e show ?thesis using run by (auto simp: ex_delete_def)
qed

theorem sticky_override_witness:
  "table_days settings_default ''db.logs'' (Some ''github'') = None \<and>
   (\<exists>t \<in> set (cat_tables (reconcile_table_retention 7 settings_default
      (reconcile_table_retention 7 (settings_default\<lparr>per_table_days := [(''db.logs'', 30)]\<rparr>) seed_catalog))).
     t_id t = 1 \<and> retention_days t = Some 30)"
proof -
  let ?t = "\<lparr>t_id = 1, t_tenant = 7, t_database = 1, t_name = ''logs'', t_snapshot = Some 3, t_schema = Some 2,
      t_config = JObject [], t_created_at = 0\<rparr> :: table_row"
  have "?t \<in> set (cat_tables seed_catalog)" "split_once_dot ''db.logs'' = Some (''db'', t_name ?t)" "t_config ?t = JObject []"
    "\<exists>d \<in> set (cat_databases seed_catalog). db_id d = t_database ?t \<and> db_tenant d = 7 \<and> db_name d = ''db''"
    by (simp_all add: seed_eq)
  from sticky_override [OF this, of "Some ''github''" 30] show ?thesis by simp
qed

end
