(* ===== verification/Commit_Coordinator.thy ===== *)
theory Commit_Coordinator
  imports Pg_Catalog "HOL-Library.Multiset"
begin

text \<open>
  The commit coordinator of \<open>pensieve-ingest-core/src/commit_coordinator.rs\<close>: the extents of concurrent
  flushes are grouped by table and each group is committed as one snapshot; every job gets one reply.
\<close>

section \<open>Definitions\<close>

record commit_job =
  jb_table :: nat
  jb_manifest :: extent_manifest
  jb_rows :: nat
  jb_bytes :: nat
  jb_label :: string
  jb_responder :: nat

datatype reply = Committed nat | CommitError catalog_error | BatchFailed string

text \<open>The first waiter gets the error itself, the others its text.\<close>

fun fail_all :: "(catalog_error \<Rightarrow> string) \<Rightarrow> commit_job list \<Rightarrow> catalog_error \<Rightarrow> (nat \<times> reply) list" where
  "fail_all sh [] e = []"
| "fail_all sh (j # js) e = (jb_responder j, CommitError e) #
     map (\<lambda>r. (jb_responder r, BatchFailed (''commit batch failed: '' @ sh e))) js"

definition group_summary :: "commit_job list \<Rightarrow> snapshot_summary" where
  "group_summary jobs = \<lparr>su_operation = ''ingest_x'' @ show_nat (length jobs), su_rows_added = sum_list (map (\<lambda>j. int (jb_rows j)) jobs),
     su_rows_removed = 0, su_bytes_added = sum_list (map (\<lambda>j. int (jb_bytes j)) jobs), su_bytes_removed = 0\<rparr>"

text \<open>
  One attempt of \<open>commit_one_table_group\<close>. \<open>env (2 * k)\<close> is what other writers do before attempt \<open>k\<close> begins,
  \<open>env (2 * k + 1)\<close> what they do between its begin and its commit. An error of the begin is reported as an
  SQL error.
\<close>

definition group_attempt :: "(catalog_error \<Rightarrow> string) \<Rightarrow> (nat \<Rightarrow> catalog \<Rightarrow> catalog) \<Rightarrow> (nat \<Rightarrow> nat \<times> nat) \<Rightarrow> (nat \<Rightarrow> int) \<Rightarrow> nat \<Rightarrow> nat
    \<Rightarrow> commit_job list \<Rightarrow> nat \<Rightarrow> catalog \<Rightarrow> (catalog_error + nat) \<times> catalog" where
  "group_attempt sh env gen now tenant tid jobs k c =
     (let c0 = env (2 * k) c in
      case pg_begin_snapshot tenant tid c0 of
        Inl e \<Rightarrow> (Inl (SqlError (sh e)), c0)
      | Inr tx \<Rightarrow> pg_commit (fst (gen k)) (snd (gen k)) (now k) (group_summary jobs)
                   (fold (\<lambda>j. add_extent (jb_manifest j)) jobs tx) (env (2 * k + 1) c0))"

text \<open>The loop, with \<open>n\<close> attempts after this one.\<close>

fun group_loop :: "(catalog_error \<Rightarrow> string) \<Rightarrow> (nat \<Rightarrow> catalog \<Rightarrow> catalog) \<Rightarrow> (nat \<Rightarrow> nat \<times> nat) \<Rightarrow> (nat \<Rightarrow> int) \<Rightarrow> nat \<Rightarrow> nat \<Rightarrow> commit_job list
    \<Rightarrow> nat \<Rightarrow> nat \<Rightarrow> catalog \<Rightarrow> (nat \<times> reply) list \<times> catalog" where
  "group_loop sh env gen now tenant tid jobs n k c =
     (case group_attempt sh env gen now tenant tid jobs k c of
        (Inr i, c') \<Rightarrow> (map (\<lambda>j. (jb_responder j, Committed i)) jobs, c')
      | (Inl e, c') \<Rightarrow>
          (case n of
             0 \<Rightarrow> (fail_all sh jobs e, c')
           | Suc n' \<Rightarrow> if e = Conflict then group_loop sh env gen now tenant tid jobs n' (k + 1) c'
                       else (fail_all sh jobs e, c')))"

declare group_loop.simps [simp del]

definition commit_one_table_group :: "(catalog_error \<Rightarrow> string) \<Rightarrow> (nat \<Rightarrow> catalog \<Rightarrow> catalog) \<Rightarrow> (nat \<Rightarrow> nat \<times> nat) \<Rightarrow> (nat \<Rightarrow> int) \<Rightarrow> nat \<Rightarrow> nat
    \<Rightarrow> commit_job list \<Rightarrow> catalog \<Rightarrow> (nat \<times> reply) list \<times> catalog" where
  "commit_one_table_group sh env gen now tenant tid jobs c = group_loop sh env gen now tenant tid jobs 19 1 c"

definition job_groups :: "commit_job list \<Rightarrow> (nat \<times> commit_job list) list" where
  "job_groups jobs = map (\<lambda>tid. (tid, filter (\<lambda>j. jb_table j = tid) jobs)) (remdups (map jb_table jobs))"

fun process_groups :: "(catalog_error \<Rightarrow> string) \<Rightarrow> (nat \<Rightarrow> nat \<Rightarrow> catalog \<Rightarrow> catalog) \<Rightarrow> (nat \<Rightarrow> nat \<Rightarrow> nat \<times> nat) \<Rightarrow> (nat \<Rightarrow> nat \<Rightarrow> int) \<Rightarrow> nat
    \<Rightarrow> (nat \<times> commit_job list) list \<Rightarrow> catalog \<Rightarrow> (nat \<times> reply) list \<times> catalog" where
  "process_groups sh env gen now tenant [] c = ([], c)"
| "process_groups sh env gen now tenant ((tid, jobs) # gs) c =
     (case commit_one_table_group sh (env tid) (gen tid) (now tid) tenant tid jobs c of
        (rs, c') \<Rightarrow> (case process_groups sh env gen now tenant gs c' of (rs', c'') \<Rightarrow> (rs @ rs', c'')))"

definition process_batch :: "(catalog_error \<Rightarrow> string) \<Rightarrow> ((nat \<times> commit_job list) list \<Rightarrow> (nat \<times> commit_job list) list) \<Rightarrow> (nat \<Rightarrow> nat \<Rightarrow> catalog \<Rightarrow> catalog)
    \<Rightarrow> (nat \<Rightarrow> nat \<Rightarrow> nat \<times> nat) \<Rightarrow> (nat \<Rightarrow> nat \<Rightarrow> int) \<Rightarrow> nat \<Rightarrow> commit_job list \<Rightarrow> catalog \<Rightarrow> (nat \<times> reply) list \<times> catalog" where
  "process_batch sh ord env gen now tenant jobs c = process_groups sh env gen now tenant (ord (job_groups jobs)) c"

section \<open>Every job is answered once, and truthfully\<close>

lemma fail_all_replies: "map fst (fail_all sh jobs e) = map jb_responder jobs" "(i, Committed sn) \<notin> set (fail_all sh jobs e)"
  by (cases jobs; auto simp: comp_def)+

lemma fold_add_extent: "tx_added (fold (\<lambda>j. add_extent (jb_manifest j)) jobs tx) = tx_added tx @ map jb_manifest jobs"
  by (induction jobs arbitrary: tx) (simp_all add: add_extent_def)

lemma commits_snapshots: "commits c d \<Longrightarrow> set (cat_snapshots c) \<subseteq> set (cat_snapshots d)"
proof (induction rule: commits.induct)
  case (step c d snid mid now su tx r d')
  from commit_appends [OF step.hyps(2)] step.IH show ?case by auto
qed simp

text \<open>A job's extent is in the catalog and its snapshot too.\<close>

definition in_catalog :: "extent_manifest \<Rightarrow> nat \<Rightarrow> catalog \<Rightarrow> bool" where
  "in_catalog m sn c \<longleftrightarrow> m \<in> row_manifest ` set (cat_extents c) \<and> sn \<in> sn_id ` set (cat_snapshots c)"

lemma commits_manifests: "commits c d \<Longrightarrow> row_manifest ` set (cat_extents c) \<subseteq> row_manifest ` set (cat_extents d)"
proof (induction rule: commits.induct)
  case (step c d snid mid now su tx r d')
  show ?case
  proof (cases r)
    case (Inl e)
    with step.hyps(2) have "d' = d" by (auto dest: commit_Inl)
    with step.IH show ?thesis by simp
  next
    case (Inr i)
    with step.hyps(2) have "commit snid mid now su tx d = (Inr i, d')" by simp
    from arg_cong [OF commit_added_rows(1) [OF this], of set] step.IH show ?thesis by auto
  qed
qed simp

lemma in_catalog_commits: "in_catalog m sn c \<Longrightarrow> commits c d \<Longrightarrow> in_catalog m sn d"
  using commits_manifests commits_snapshots unfolding in_catalog_def by blast

lemma committed_in_catalog:
  assumes "commit snid mid now su tx c = (Inr i, c')" and "m \<in> set (tx_added tx)"
  shows "in_catalog m i c'"
proof -
  have "m \<in> row_manifest ` set (cat_extents c')"
    using arg_cong [OF commit_added_rows(1) [OF assms(1)], of set] assms(2) by auto
  moreover have "i \<in> sn_id ` set (cat_snapshots c')" using assms(1) by (rule commitE) (simp add: committed_def)
  ultimately show ?thesis by (simp add: in_catalog_def)
qed

lemma group_attempt_commits:
  assumes env: "\<And>k d. commits d (env k d)" and run: "group_attempt sh env gen now tenant tid jobs k c = (r, c')"
  shows "commits c c'" and "r = Inr i \<Longrightarrow> j \<in> set jobs \<Longrightarrow> in_catalog (jb_manifest j) i c'"
proof -
  let ?c0 = "env (2 * k) c" and ?c1 = "env (2 * k + 1) (env (2 * k) c)"
  have c0: "commits c ?c0" by (rule env)
  have c1: "commits c ?c1" by (rule commits_trans [OF env c0])
  consider e where "r = Inl (SqlError (sh e))" "c' = ?c0"
    | tx where "commit (fst (gen k)) (snd (gen k)) (now k) (group_summary jobs) (fold (\<lambda>j. add_extent (jb_manifest j)) jobs tx) ?c1 = (r, c')"
    using run by (auto simp: group_attempt_def Let_def pg_commit_eq split: sum.splits)
  then have "commits c c' \<and> (r = Inr i \<longrightarrow> j \<in> set jobs \<longrightarrow> in_catalog (jb_manifest j) i c')"
  proof cases
    case 1
    with c0 show ?thesis by simp
  next
    case (2 tx)
    have "in_catalog (jb_manifest j) i c'" if "r = Inr i" "j \<in> set jobs"
      by (rule committed_in_catalog [OF 2 [unfolded that(1)]]) (use that(2) in \<open>simp add: fold_add_extent\<close>)
    with commits.step [OF c1 2] show ?thesis by blast
  qed
  then show "commits c c'" "r = Inr i \<Longrightarrow> j \<in> set jobs \<Longrightarrow> in_catalog (jb_manifest j) i c'" by blast+
qed

text \<open>The replies of one group: all committed in one snapshot, or none.\<close>

definition group_answered :: "commit_job list \<Rightarrow> (nat \<times> reply) list \<Rightarrow> catalog \<Rightarrow> bool" where
  "group_answered jobs rs c \<longleftrightarrow> map fst rs = map jb_responder jobs \<and>
     ((\<exists>sn. rs = map (\<lambda>j. (jb_responder j, Committed sn)) jobs \<and> (\<forall>j \<in> set jobs. in_catalog (jb_manifest j) sn c)) \<or>
      (\<forall>i sn. (i, Committed sn) \<notin> set rs))"

lemma failed_answered: "group_answered jobs (fail_all sh jobs e) c"
  by (simp add: group_answered_def fail_all_replies)

lemma group_loop_replies:
  assumes env: "\<And>k d. commits d (env k d)"
  shows "group_loop sh env gen now tenant tid jobs n k c = (rs, c') \<Longrightarrow> commits c c' \<and> group_answered jobs rs c'"
proof (induction n arbitrary: k c)
  case 0
  obtain r d where r: "group_attempt sh env gen now tenant tid jobs k c = (r, d)" by fastforce
  note a = group_attempt_commits [where env = env, OF env r]
  show ?case
  proof (cases r)
    case (Inl e)
    with 0 r a(1) failed_answered show ?thesis by (auto simp: group_loop.simps)
  next
    case (Inr i)
    with 0 r a show ?thesis by (auto simp: group_loop.simps group_answered_def comp_def)
  qed
next
  case (Suc n)
  obtain r d where r: "group_attempt sh env gen now tenant tid jobs k c = (r, d)" by fastforce
  note a = group_attempt_commits [where env = env, OF env r]
  show ?case
  proof (cases r)
    case (Inl e)
    show ?thesis
    proof (cases "e = Conflict")
      case True
      with Suc.prems r Inl have "group_loop sh env gen now tenant tid jobs n (k + 1) d = (rs, c')"
        by (simp add: group_loop.simps [of _ _ _ _ _ _ _ "Suc n"])
      from Suc.IH [OF this] commits_trans [OF _ a(1)] show ?thesis by blast
    next
      case False
      with Suc.prems r Inl a(1) failed_answered show ?thesis by (auto simp: group_loop.simps)
    qed
  next
    case (Inr i)
    with Suc.prems r a show ?thesis by (auto simp: group_loop.simps group_answered_def comp_def)
  qed
qed

lemma process_groups_replies:
  assumes env: "\<And>t k d. commits d (env t k d)"
  shows "process_groups sh env gen now tenant gs c = (rs, c') \<Longrightarrow>
    commits c c' \<and> map fst rs = map jb_responder (concat (map snd gs)) \<and>
    (\<forall>i sn. (i, Committed sn) \<in> set rs \<longrightarrow>
       (\<exists>g \<in> set gs. i \<in> jb_responder ` set (snd g) \<and> (\<forall>j \<in> set (snd g). in_catalog (jb_manifest j) sn c')))"
proof (induction gs arbitrary: c rs c')
  case (Cons g gs)
  obtain tid jobs where g: "g = (tid, jobs)" by (cases g)
  obtain rs1 c1 where 1: "group_loop sh (env tid) (gen tid) (now tid) tenant tid jobs 19 1 c = (rs1, c1)" by fastforce
  obtain rs2 c2 where 2: "process_groups sh env gen now tenant gs c1 = (rs2, c2)" by fastforce
  have rs: "rs = rs1 @ rs2" "c' = c2" using Cons.prems 1 2 by (simp_all add: g commit_one_table_group_def)
  note h = group_loop_replies [where env = "env tid", OF env 1]
  note t = Cons.IH [OF 2]
  have "\<exists>g' \<in> set (g # gs). i \<in> jb_responder ` set (snd g') \<and> (\<forall>j \<in> set (snd g'). in_catalog (jb_manifest j) sn c')"
    if m: "(i, Committed sn) \<in> set rs" for i sn
  proof (cases "(i, Committed sn) \<in> set rs1")
    case True
    with h have "i \<in> jb_responder ` set jobs" "\<forall>j \<in> set jobs. in_catalog (jb_manifest j) sn c1"
      by (auto simp: group_answered_def)
    with in_catalog_commits t have "i \<in> jb_responder ` set (snd g) \<and> (\<forall>j \<in> set (snd g). in_catalog (jb_manifest j) sn c')"
      by (auto simp: g rs)
    then show ?thesis by (intro bexI [of _ g]) simp_all
  next
    case False
    with m t show ?thesis by (auto simp: rs)
  qed
  with h t commits_trans show ?case by (auto simp: rs g group_answered_def)
qed (auto intro: commits.refl)

lemma job_groups_mset: "mset (concat (map snd (job_groups jobs))) = mset jobs"
proof -
  have "(\<Sum>t \<leftarrow> ts. filter_mset (\<lambda>j. jb_table j = t) M) = filter_mset (\<lambda>j. jb_table j \<in> set ts) M"
    if "distinct ts" for ts and M :: "commit_job multiset"
    using that
  proof (induction ts)
    case (Cons t ts)
    have "filter_mset (\<lambda>j. jb_table j = t) M + filter_mset (\<lambda>j. jb_table j \<in> set ts) M = filter_mset (\<lambda>j. jb_table j \<in> set (t # ts)) M"
      using Cons.prems by (intro multiset_eqI) auto
    with Cons show ?case by simp
  qed simp
  from this [of "remdups (map jb_table jobs)" "mset jobs"]
  have "(\<Sum>t \<leftarrow> remdups (map jb_table jobs). filter_mset (\<lambda>j. jb_table j = t) (mset jobs)) = mset jobs"
    by (simp add: filter_mset_eq_conv)
  moreover have "mset (concat (map f ts)) = (\<Sum>t \<leftarrow> ts. mset (f t))" for f :: "nat \<Rightarrow> commit_job list" and ts
    by (induction ts) simp_all
  ultimately show ?thesis by (simp add: job_groups_def comp_def)
qed

text \<open>
  C7: Every job handed to the coordinator is answered exactly once, whatever other writers do and
  however often commits conflict; and a job that is told a snapshot is in it: its extent and that
  snapshot are in the catalog.
\<close>

theorem coordinator_truthful:
  assumes run: "process_batch sh ord env gen now tenant jobs c = (rs, c')"
    and ord: "\<forall>gs. mset (ord gs) = mset gs" and env: "\<forall>t k d. commits d (env t k d)"
    and resp: "distinct (map jb_responder jobs)"
  shows "mset (map fst rs) = mset (map jb_responder jobs) \<and>
    (\<forall>j \<in> set jobs. \<forall>sn. (jb_responder j, Committed sn) \<in> set rs \<longrightarrow> in_catalog (jb_manifest j) sn c')"
proof -
  let ?gs = "ord (job_groups jobs)"
  have env': "\<And>t k d. commits d (env t k d)" using env by blast
  note p = process_groups_replies [where env = env, OF env' run [unfolded process_batch_def]]
  have "mset (concat (map snd ?gs)) = mset (concat (map snd (job_groups jobs)))"
    using ord [rule_format, of "job_groups jobs"] by (metis mset_concat mset_map sum_mset_sum_list)
  then have all: "mset (concat (map snd ?gs)) = mset jobs" by (simp only: job_groups_mset)
  have set: "set ?gs = set (job_groups jobs)" using ord [rule_format, of "job_groups jobs"] by (metis set_mset_mset)
  have "in_catalog (jb_manifest j) sn c'" if j: "j \<in> set jobs" "(jb_responder j, Committed sn) \<in> set rs" for j sn
  proof -
    from p j(2) obtain g where g: "g \<in> set ?gs" "jb_responder j \<in> jb_responder ` set (snd g)"
      "\<forall>j \<in> set (snd g). in_catalog (jb_manifest j) sn c'" by blast
    then obtain j' where j': "j' \<in> set (snd g)" "jb_responder j' = jb_responder j" by auto
    have "g \<in> set (job_groups jobs)" using g(1) unfolding set .
    then have "j' \<in> set jobs" using j'(1) unfolding job_groups_def by auto
    with j j'(2) resp have "j' = j" by (simp add: distinct_map inj_on_def)
    with g(3) j'(1) show ?thesis by simp
  qed
  moreover have "mset (map fst rs) = mset (map jb_responder jobs)"
    using p all by (metis mset_map)
  ultimately show ?thesis by blast
qed

section \<open>An example\<close>

definition ex_commit_job :: "string \<Rightarrow> nat \<Rightarrow> commit_job" where
  "ex_commit_job i k = \<lparr>jb_table = 1, jb_manifest = sample_extent i, jb_rows = 1, jb_bytes = 1, jb_label = ''logs'', jb_responder = k\<rparr>"

theorem coordinator_truthful_witness:
  "\<exists>c'. process_batch (\<lambda>_. []) (\<lambda>gs. gs) (\<lambda>_ _ d. d) (\<lambda>_ _. (4, 4)) (\<lambda>_ _. 0) 7 [ex_commit_job ''a'' 0, ex_commit_job ''b'' 1] seed_catalog =
      ([(0, Committed 4), (1, Committed 4)], c') \<and>
     in_catalog (sample_extent ''a'') 4 c' \<and> in_catalog (sample_extent ''b'') 4 c'"
proof -
  let ?jobs = "[ex_commit_job ''a'' 0, ex_commit_job ''b'' 1]"
  let ?r = "process_batch (\<lambda>_. []) (\<lambda>gs. gs) (\<lambda>_ _ d. d) (\<lambda>_ _. (4, 4)) (\<lambda>_ _. 0) 7 ?jobs seed_catalog"
  have "fst ?r = [(0, Committed 4), (1, Committed 4)]" by code_simp
  then obtain c' where r: "?r = ([(0, Committed 4), (1, Committed 4)], c')" by (metis prod.collapse)
  have d: "distinct (map jb_responder ?jobs)" by (simp add: ex_commit_job_def)
  from coordinator_truthful [OF r _ _ d] commits.refl have
    "\<forall>j \<in> set ?jobs. \<forall>sn. (jb_responder j, Committed sn) \<in> set [(0, Committed 4), (1, Committed 4)] \<longrightarrow> in_catalog (jb_manifest j) sn c'" by simp
  with r show ?thesis by (simp add: ex_commit_job_def)
qed

end
