(* ===== verification/Staging.thy ===== *)
theory Staging
  imports Ingest Catalog_Listing Commit_Coordinator
begin

text \<open>
  The staging buffer of \<open>pensieve-ingest-core/src/staging.rs\<close>: concurrent ingest requests of a table are
  collected and written as one extent. Each step that holds the lock is a definition; the requests, the
  timer and the flushes interleave as sequences of these steps. A waiter is a number, its \<open>oneshot\<close> the
  reply with that number; dropping it is an error for the request. Durations and instants are in
  nanoseconds; \<open>mem\<close> is Arrow's \<open>get_array_memory_size\<close>.
\<close>

section \<open>The buffer\<close>

record staging_config =
  flush_max_rows :: nat
  flush_max_bytes :: nat
  flush_max_age :: int

definition staging_default :: staging_config where
  "staging_default = \<lparr>flush_max_rows = 8000, flush_max_bytes = 16 * 1024 * 1024, flush_max_age = 50 * 1000000\<rparr>"

record table_staging =
  ts_schema :: "(string \<times> data_type) list"
  ts_name :: string
  ts_batches :: "record_batch list"
  ts_rows :: nat
  ts_bytes :: nat
  ts_first :: int
  ts_waiters :: "nat list"

type_synonym staging = "nat \<rightharpoonup> table_staging"

record drained =
  dr_table :: nat
  dr_schema :: "(string \<times> data_type) list"
  dr_name :: string
  dr_batches :: "record_batch list"
  dr_waiters :: "nat list"
  dr_rows :: nat
  dr_bytes :: nat

record request =
  rq_waiter :: nat
  rq_table :: nat
  rq_name :: string
  rq_schema :: "(string \<times> data_type) list"
  rq_batches :: "record_batch list"

definition sum_batches :: "(arrow_array \<Rightarrow> nat) \<Rightarrow> record_batch list \<Rightarrow> nat \<times> nat" where
  "sum_batches mem bs = (sum_list (map num_rows bs), sum_list (map (\<lambda>b. sum_list (map mem (columns b))) bs))"

text \<open>\<open>enqueue\<close>: the check for a schema change, a first critical section.\<close>

definition needs_schema_flush :: "request \<Rightarrow> staging \<Rightarrow> bool" where
  "needs_schema_flush q sb = (case sb (rq_table q) of None \<Rightarrow> False | Some e \<Rightarrow> ts_schema e \<noteq> rq_schema q)"

text \<open>The second critical section: append to the entry; the result says whether a flush is kicked.\<close>

definition new_entry :: "int \<Rightarrow> request \<Rightarrow> table_staging" where
  "new_entry now q = \<lparr>ts_schema = rq_schema q, ts_name = rq_name q, ts_batches = [], ts_rows = 0, ts_bytes = 0, ts_first = now, ts_waiters = []\<rparr>"

definition enqueue_insert :: "staging_config \<Rightarrow> (arrow_array \<Rightarrow> nat) \<Rightarrow> int \<Rightarrow> request \<Rightarrow> staging \<Rightarrow> bool \<times> staging" where
  "enqueue_insert cfg mem now q sb =
     (let e = (case sb (rq_table q) of None \<Rightarrow> new_entry now q | Some e \<Rightarrow> e);
          added = sum_batches mem (rq_batches q);
          e' = e\<lparr>ts_schema := rq_schema q, ts_batches := ts_batches e @ rq_batches q, ts_rows := ts_rows e + fst added,
                 ts_bytes := ts_bytes e + snd added, ts_waiters := ts_waiters e @ [rq_waiter q]\<rparr>
      in (flush_max_rows cfg \<le> ts_rows e' \<or> flush_max_bytes cfg \<le> ts_bytes e', sb(rq_table q \<mapsto> e')))"

text \<open>The first part of \<open>flush_table\<close>: take what is staged, leave the entry empty.\<close>

definition take_staged :: "int \<Rightarrow> nat \<Rightarrow> staging \<Rightarrow> drained option \<times> staging" where
  "take_staged now tid sb =
     (case sb tid of
        None \<Rightarrow> (None, sb)
      | Some e \<Rightarrow>
          if ts_batches e = [] then (None, sb)
          else (Some \<lparr>dr_table = tid, dr_schema = ts_schema e, dr_name = ts_name e, dr_batches = ts_batches e, dr_waiters = ts_waiters e,
                      dr_rows = ts_rows e, dr_bytes = ts_bytes e\<rparr>,
                sb(tid \<mapsto> e\<lparr>ts_batches := [], ts_waiters := [], ts_rows := 0, ts_bytes := 0, ts_first := now\<rparr>)))"

text \<open>\<open>flush_if_expired\<close> and \<open>drain_all\<close>: which tables they flush; \<open>tids\<close> are the keys of the map.\<close>

definition expired_tables :: "staging_config \<Rightarrow> int \<Rightarrow> nat list \<Rightarrow> staging \<Rightarrow> nat list" where
  "expired_tables cfg now tids sb =
     filter (\<lambda>t. case sb t of None \<Rightarrow> False | Some e \<Rightarrow> ts_batches e \<noteq> [] \<and> ts_first e \<le> now - flush_max_age cfg) tids"

definition nonempty_tables :: "nat list \<Rightarrow> staging \<Rightarrow> nat list" where
  "nonempty_tables tids sb = filter (\<lambda>t. case sb t of None \<Rightarrow> False | Some e \<Rightarrow> ts_batches e \<noteq> []) tids"

section \<open>Flushing\<close>

record flush_outcome =
  fo_snapshot :: nat
  fo_extent :: string
  fo_bytes :: nat
  fo_rows :: nat

text \<open>
  What becomes of the waiters: woken with the outcome, or dropped, with the error of the flush if it has one.
\<close>

datatype flush_result = Woken flush_outcome | Dropped "ingest_error option"

definition flush_manifest :: "table_ref \<Rightarrow> int \<Rightarrow> extent_write_result \<Rightarrow> extent_manifest" where
  "flush_manifest t now w =
     \<lparr>ext_id = res_extent_id w, ext_table_id = tr_id t, schema_snapshot_id = tr_schema_id t,
      object_path = res_object_path w, byte_size = res_byte_size w, ext_row_count = res_row_count w,
      min_timestamp = res_min_timestamp_nanos w, max_timestamp = res_max_timestamp_nanos w,
      column_stats = res_column_stats w, present_paths = res_present_paths w, compaction_gen = 0, created_at = now\<rparr>"

text \<open>Without a coordinator the flush commits its extent itself, in at most 20 attempts.\<close>

definition flush_commit :: "ingest_run \<Rightarrow> nat \<Rightarrow> nat \<Rightarrow> extent_manifest \<Rightarrow> nat \<Rightarrow> nat \<Rightarrow> catalog \<Rightarrow> (catalog_error + nat) \<times> catalog" where
  "flush_commit run tenant tid m rows bytes c =
     commit_loop (run_env run) (run_ids run) (run_clock run) tenant tid (add_extent m)
       \<lparr>su_operation = ''ingest'', su_rows_added = int rows, su_rows_removed = 0, su_bytes_added = int (byte_size m), su_bytes_removed = 0\<rparr> 20 1 c"

text \<open>
  With one it submits a job and waits for its reply. The job is processed in some batch, after the jobs
  \<open>others\<close>; jobs are numbered by their place, as each has a channel of its own. \<open>ws t k\<close> are the
  transactions that other writers commit, \<open>key\<close> gives the order in which the hash map yields the tables.
\<close>

definition writers :: "(nat \<times> nat \<times> int \<times> snapshot_summary \<times> snapshot_txn) list \<Rightarrow> catalog \<Rightarrow> catalog" where
  "writers ws c = fold (\<lambda>(snid, mid, now, su, tx) d. snd (commit snid mid now su tx d)) ws c"

definition number_jobs :: "commit_job list \<Rightarrow> commit_job list" where
  "number_jobs js = map (\<lambda>(i, j). j\<lparr>jb_responder := i\<rparr>) (enumerate 0 js)"

definition coordinator_commit :: "(catalog_error \<Rightarrow> string) \<Rightarrow> (nat \<Rightarrow> nat) \<Rightarrow> (nat \<Rightarrow> nat \<Rightarrow> (nat \<times> nat \<times> int \<times> snapshot_summary \<times> snapshot_txn) list)
    \<Rightarrow> (nat \<Rightarrow> nat \<Rightarrow> nat \<times> nat) \<Rightarrow> (nat \<Rightarrow> nat \<Rightarrow> int) \<Rightarrow> nat \<Rightarrow> commit_job list \<Rightarrow> string
    \<Rightarrow> nat \<Rightarrow> extent_manifest \<Rightarrow> nat \<Rightarrow> nat \<Rightarrow> catalog \<Rightarrow> (catalog_error + nat) \<times> catalog" where
  "coordinator_commit sh key ws gen now tenant others label tid m rows bytes c =
     (let job = \<lparr>jb_table = tid, jb_manifest = m, jb_rows = rows, jb_bytes = bytes, jb_label = label, jb_responder = 0\<rparr> in
      case process_batch sh (sort_key (\<lambda>g. key (fst g))) (\<lambda>t k. writers (ws t k)) gen now tenant (number_jobs (others @ [job])) c of
        (rs, c') \<Rightarrow>
          (case map_of rs (length others) of
             Some (Committed i) \<Rightarrow> (Inr i, c')
           | Some (CommitError e) \<Rightarrow> (Inl e, c')
           | Some (BatchFailed e) \<Rightarrow> (Inl (OtherError e), c')
           | None \<Rightarrow> (Inl (OtherError ''commit coordinator dropped responder''), c')))"

text \<open>The rest of \<open>flush_table\<close>, with either way to commit; \<open>None\<close> is a panic.\<close>

definition flush_drained :: "(nat \<Rightarrow> extent_manifest \<Rightarrow> nat \<Rightarrow> nat \<Rightarrow> catalog \<Rightarrow> (catalog_error + nat) \<times> catalog) \<Rightarrow> 'st libs \<Rightarrow> tlm_format \<Rightarrow> string \<Rightarrow> int
    \<Rightarrow> nat \<Rightarrow> drained \<Rightarrow> 'st \<Rightarrow> catalog \<Rightarrow> (flush_result \<times> 'st \<times> catalog) option" where
  "flush_drained via lb fmt xid now tenant d st c =
     (case lookup_by_id tenant (dr_table d) c of
        Inl e \<Rightarrow> Some (Dropped (Some (CatalogFailed e)), st, c)
      | Inr None \<Rightarrow> Some (Dropped None, st, c)
      | Inr (Some t) \<Rightarrow>
          (case append_batches lb (writer_new fmt xid (dr_schema d)) (dr_batches d) of
             None \<Rightarrow> None
           | Some (Inl e) \<Rightarrow> Some (Dropped (Some (FormatFailed e)), st, c)
           | Some (Inr w) \<Rightarrow>
               (case writer_finish lb st w of
                  None \<Rightarrow> None
                | Some (Inl e) \<Rightarrow> Some (Dropped (Some (FormatFailed e)), st, c)
                | Some (Inr (st', res)) \<Rightarrow>
                    (case via (tr_id t) (flush_manifest t now res) (dr_rows d) (res_byte_size res) c of
                       (Inl e, c') \<Rightarrow> Some (Dropped (Some (CatalogFailed e)), st', c')
                     | (Inr sn, c') \<Rightarrow> Some (Woken \<lparr>fo_snapshot = sn, fo_extent = res_extent_id res, fo_bytes = res_byte_size res,
                                                    fo_rows = res_row_count res\<rparr>, st', c')))))"

section \<open>All interleavings of the buffer\<close>

text \<open>
  The buffer, the flushes taken so far, oldest first, and, as a ghost, the requests accepted so far. Requests
  insert, with or without having flushed another schema before, and flushes take, in any order.
\<close>

record staging_world =
  st_buffer :: staging
  st_drained :: "drained list"
  st_accepted :: "request list"

inductive staging_step :: "staging_config \<Rightarrow> (arrow_array \<Rightarrow> nat) \<Rightarrow> staging_world \<Rightarrow> staging_world \<Rightarrow> bool" for cfg mem where
  insert: "rq_batches q \<noteq> [] \<Longrightarrow> rq_waiter q \<notin> rq_waiter ` set (st_accepted w) \<Longrightarrow> enqueue_insert cfg mem now q (st_buffer w) = (kick, sb) \<Longrightarrow>
    staging_step cfg mem w (w\<lparr>st_buffer := sb, st_accepted := st_accepted w @ [q]\<rparr>)"
| take: "take_staged now tid (st_buffer w) = (r, sb) \<Longrightarrow>
    staging_step cfg mem w (w\<lparr>st_buffer := sb, st_drained := st_drained w @ (case r of None \<Rightarrow> [] | Some d \<Rightarrow> [d])\<rparr>)"

inductive staging_reachable :: "staging_config \<Rightarrow> (arrow_array \<Rightarrow> nat) \<Rightarrow> staging_world \<Rightarrow> bool" for cfg mem where
  init: "staging_reachable cfg mem \<lparr>st_buffer = Map.empty, st_drained = [], st_accepted = []\<rparr>"
| step: "staging_reachable cfg mem w \<Longrightarrow> staging_step cfg mem w w' \<Longrightarrow> staging_reachable cfg mem w'"

section \<open>Requests are neither lost nor split\<close>

text \<open>A flush holds exactly the requests \<open>qs\<close>, and so does an entry of the buffer.\<close>

definition drained_of :: "request list \<Rightarrow> drained \<Rightarrow> bool" where
  "drained_of qs d \<longleftrightarrow> qs \<noteq> [] \<and> dr_waiters d = map rq_waiter qs \<and> dr_batches d = concat (map rq_batches qs) \<and>
     dr_rows d = sum_list (map num_rows (dr_batches d)) \<and> dr_schema d = rq_schema (last qs)"

definition entry_of :: "request list \<Rightarrow> table_staging option \<Rightarrow> bool" where
  "entry_of qs e \<longleftrightarrow> (case e of None \<Rightarrow> qs = []
     | Some e \<Rightarrow> ts_waiters e = map rq_waiter qs \<and> ts_batches e = concat (map rq_batches qs) \<and>
         ts_rows e = sum_list (map num_rows (ts_batches e)) \<and> (qs \<noteq> [] \<longrightarrow> ts_schema e = rq_schema (last qs)))"

definition partitioned :: "nat \<Rightarrow> staging_world \<Rightarrow> request list list \<Rightarrow> request list \<Rightarrow> bool" where
  "partitioned tid w segs rest \<longleftrightarrow> filter (\<lambda>q. rq_table q = tid) (st_accepted w) = concat segs @ rest \<and>
     list_all2 drained_of segs (filter (\<lambda>d. dr_table d = tid) (st_drained w)) \<and> entry_of rest (st_buffer w tid)"

definition staging_inv :: "staging_world \<Rightarrow> bool" where
  "staging_inv w \<longleftrightarrow> distinct (map rq_waiter (st_accepted w)) \<and> (\<forall>q \<in> set (st_accepted w). rq_batches q \<noteq> []) \<and>
     (\<forall>tid. \<exists>segs rest. partitioned tid w segs rest)"

lemma partitioned_insert:
  assumes p: "partitioned tid w segs rest" and q: "enqueue_insert cfg mem now q (st_buffer w) = (kick, sb)"
  shows "partitioned tid (w\<lparr>st_buffer := sb, st_accepted := st_accepted w @ [q]\<rparr>) segs (if rq_table q = tid then rest @ [q] else rest)"
proof (cases "rq_table q = tid")
  case True
  have "entry_of (rest @ [q]) (sb tid)"
    using p q True
    by (cases "st_buffer w tid") (auto simp: partitioned_def entry_of_def enqueue_insert_def Let_def sum_batches_def new_entry_def)
  with p True show ?thesis by (simp add: partitioned_def)
next
  case False
  then have "sb tid = st_buffer w tid" using q by (auto simp: enqueue_insert_def Let_def)
  with p False show ?thesis by (simp add: partitioned_def)
qed

lemma partitioned_take:
  assumes p: "partitioned tid w segs rest" and t: "take_staged now tid' (st_buffer w) = (r, sb)"
    and ne: "\<forall>q \<in> set rest. rq_batches q \<noteq> []"
  shows "\<exists>segs' rest'. partitioned tid (w\<lparr>st_buffer := sb, st_drained := st_drained w @ (case r of None \<Rightarrow> [] | Some d \<Rightarrow> [d])\<rparr>) segs' rest'"
proof (cases r)
  case None
  then have "sb = st_buffer w" using t by (auto simp: take_staged_def split: option.splits if_splits)
  with None p show ?thesis by (auto simp: partitioned_def)
next
  case (Some d)
  from t Some obtain e where e: "st_buffer w tid' = Some e" "ts_batches e \<noteq> []"
    and d: "d = \<lparr>dr_table = tid', dr_schema = ts_schema e, dr_name = ts_name e, dr_batches = ts_batches e, dr_waiters = ts_waiters e,
        dr_rows = ts_rows e, dr_bytes = ts_bytes e\<rparr>"
    and sb: "sb = (st_buffer w)(tid' \<mapsto> e\<lparr>ts_batches := [], ts_waiters := [], ts_rows := 0, ts_bytes := 0, ts_first := now\<rparr>)"
    by (auto simp: take_staged_def split: option.splits if_splits)
  show ?thesis
  proof (cases "tid' = tid")
    case True
    have en: "entry_of rest (Some e)" using p e(1) True by (simp add: partitioned_def)
    then have "rest \<noteq> []" using e(2) by (auto simp: entry_of_def)
    with en have "drained_of rest d" by (simp add: entry_of_def drained_of_def d)
    moreover have "entry_of [] (sb tid)" using True by (simp add: sb entry_of_def)
    ultimately have "partitioned tid (w\<lparr>st_buffer := sb, st_drained := st_drained w @ [d]\<rparr>) (segs @ [rest]) []"
      using p True by (auto simp: partitioned_def d intro!: list_all2_appendI)
    with Some show ?thesis by auto
  next
    case False
    then have "sb tid = st_buffer w tid" by (simp add: sb)
    with p False Some have "partitioned tid (w\<lparr>st_buffer := sb, st_drained := st_drained w @ [d]\<rparr>) segs rest" by (simp add: partitioned_def d)
    with Some show ?thesis by auto
  qed
qed

lemma partitioned_subset: "partitioned tid w segs rest \<Longrightarrow> set (concat segs) \<union> set rest \<subseteq> set (st_accepted w)"
  unfolding partitioned_def by (metis filter_is_subset set_append)

lemma staging_step_inv:
  assumes "staging_step cfg mem w w'" and inv: "staging_inv w"
  shows "staging_inv w'"
  using assms(1)
proof cases
  case (insert q now kick sb)
  have "\<exists>segs rest. partitioned tid w' segs rest" for tid
    using inv partitioned_insert [OF _ insert(4)] unfolding insert(1) staging_inv_def by blast
  with inv insert show ?thesis by (auto simp: staging_inv_def)
next
  case (take now tid' r sb)
  have "\<exists>segs rest. partitioned tid w' segs rest" for tid
  proof -
    obtain segs rest where p: "partitioned tid w segs rest" using inv unfolding staging_inv_def by blast
    have "\<forall>q \<in> set rest. rq_batches q \<noteq> []" using partitioned_subset [OF p] inv by (auto simp: staging_inv_def)
    from partitioned_take [OF p take(2) this] show ?thesis unfolding take(1) .
  qed
  with inv take show ?thesis by (simp add: staging_inv_def)
qed

lemma staging_reachable_inv: "staging_reachable cfg mem w \<Longrightarrow> staging_inv w"
proof (induction rule: staging_reachable.induct)
  case init
  have "partitioned tid \<lparr>st_buffer = Map.empty, st_drained = [], st_accepted = []\<rparr> [] []" for tid
    by (simp add: partitioned_def entry_of_def)
  then show ?case by (auto simp: staging_inv_def) 
next
  case (step w w')
  then show ?case by (blast intro: staging_step_inv)
qed

text \<open>
  C8: However requests, the timer and flushes interleave, the requests accepted for a table are at any
  time, in their order, those of the flushes taken so far, oldest first, followed by those still in the buffer. A flush
  has the waiters and the batches of its own requests, complete and nothing else, and the row count of
  these batches: no request is lost, duplicated or split over two flushes.
\<close>

theorem staging_partition:
  assumes "staging_reachable cfg mem w"
  shows "\<exists>segs rest. filter (\<lambda>q. rq_table q = tid) (st_accepted w) = concat segs @ rest \<and>
    list_all2 drained_of segs (filter (\<lambda>d. dr_table d = tid) (st_drained w)) \<and> entry_of rest (st_buffer w tid)"
  using staging_reachable_inv [OF assms] by (simp add: staging_inv_def partitioned_def)

section \<open>An acknowledged request is durable\<close>

text \<open>What a flush relies on: an extent that is reported committed is in the catalog.\<close>

locale extent_committer =
  fixes via :: "nat \<Rightarrow> extent_manifest \<Rightarrow> nat \<Rightarrow> nat \<Rightarrow> catalog \<Rightarrow> (catalog_error + nat) \<times> catalog"
  assumes reported: "via tid m rows bytes c = (Inr sn, c') \<Longrightarrow> in_catalog m sn c'"
begin

lemma woken_durable:
  assumes f: "flush_drained via lb fmt xid now tenant d st c = Some (Woken out, st', c')"
    and libs: "\<And>w. append_all lb (writer_new fmt xid (dr_schema d)) (dr_batches d) = Some w \<Longrightarrow> libs_read_back lb st w"
    and ok: "\<forall>b \<in> set (dr_batches d). batch_ok b"
  shows "\<exists>m r. in_catalog m (fo_snapshot out) c' \<and> ext_table_id m = dr_table d \<and> ext_id m = fo_extent out \<and>
    reader_open lb st' \<lparr>in_schema = sch, in_object_path = object_path m, in_byte_size = byte_size m\<rparr> = Some (Inr r) \<and>
    r_batches r = dr_batches d"
proof -
  from f obtain t where t: "lookup_by_id tenant (dr_table d) c = Inr (Some t)"
    by (auto simp: flush_drained_def split: sum.splits option.splits)
  from f t obtain w where w: "append_batches lb (writer_new fmt xid (dr_schema d)) (dr_batches d) = Some (Inr w)"
    by (auto simp: flush_drained_def split: sum.splits option.splits)
  from f t w obtain res where fin: "writer_finish lb st w = Some (Inr (st', res))"
    by (auto simp: flush_drained_def split: sum.splits option.splits prod.splits)
  let ?m = "flush_manifest t now res"
  obtain q c1 where q: "via (tr_id t) ?m (dr_rows d) (res_byte_size res) c = (q, c1)" by fastforce
  have sn: "q = Inr (fo_snapshot out)" "c1 = c'" "fo_extent out = res_extent_id res"
    using f t w fin q by (auto simp: flush_drained_def split: sum.splits)
  have w': "append_all lb (writer_new fmt xid (dr_schema d)) (dr_batches d) = Some w" by (rule append_batches_all [OF w])
  from writer_reader [OF w' fin ok libs [OF w'], of sch] obtain r where
    "reader_open lb st' \<lparr>in_schema = sch, in_object_path = res_object_path res, in_byte_size = res_byte_size res\<rparr> = Some (Inr r)"
    "r_batches r = dr_batches d" by blast
  moreover have "in_catalog ?m (fo_snapshot out) c'" using reported [OF q [unfolded sn(1,2)]] .
  ultimately show ?thesis using lookup_by_id_id [OF t] sn(3)
    by (intro exI [of _ ?m] exI [of _ r]) (simp add: flush_manifest_def)
qed

end

interpretation direct: extent_committer "flush_commit run tenant" for run tenant
proof
  fix tid m rows bytes c sn c'
  assume "flush_commit run tenant tid m rows bytes c = (Inr sn, c')"
  from commit_loop_Inr [OF this [unfolded flush_commit_def]] obtain tx j d d' su where
    "commit (fst (run_ids run j)) (snd (run_ids run j)) (run_clock run j) su (add_extent m tx) d' = (Inr sn, c')" by blast
  then show "in_catalog m sn c'" by (rule committed_in_catalog) (simp add: add_extent_def)
qed

lemma writers_commits: "commits c (writers ws c)"
proof (induction ws arbitrary: c)
  case Nil
  show ?case by (simp add: writers_def commits.refl)
next
  case (Cons x ws)
  obtain snid mid now su tx where x: "x = (snid, mid, now, su, tx)" by (cases x)
  have "commits c (snd (commit snid mid now su tx c))" by (rule commits.step [OF commits.refl surjective_pairing])
  with commits_trans [OF Cons.IH] show ?case by (simp add: writers_def x)
qed

lemma number_jobs_nth: "i < length js \<Longrightarrow> number_jobs js ! i = (js ! i)\<lparr>jb_responder := i\<rparr>" "length (number_jobs js) = length js"
  by (simp_all add: number_jobs_def nth_enumerate_eq)

lemma number_jobs_distinct: "map jb_responder (number_jobs js) = [0..<length js]"
  by (rule nth_equalityI) (simp_all add: number_jobs_nth)

interpretation coordinated: extent_committer "coordinator_commit sh key ws gen now tenant others label" for sh key ws gen now tenant others label
proof
  fix tid m rows bytes c sn c'
  let ?job = "\<lparr>jb_table = tid, jb_manifest = m, jb_rows = rows, jb_bytes = bytes, jb_label = label, jb_responder = 0\<rparr>"
  let ?jobs = "number_jobs (others @ [?job])"
  assume a: "coordinator_commit sh key ws gen now tenant others label tid m rows bytes c = (Inr sn, c')"
  obtain rs c1 where p: "process_groups sh (\<lambda>t k. writers (ws t k)) gen now tenant (sort_key (\<lambda>g. key (fst g)) (job_groups ?jobs)) c = (rs, c1)"
    by fastforce
  from a p have r: "map_of rs (length others) = Some (Committed sn)" "c' = c1"
    by (auto simp: coordinator_commit_def process_batch_def Let_def split: option.splits reply.splits)
  let ?j = "?jobs ! length others"
  have "length others < length ?jobs" by (simp add: number_jobs_nth(2))
  then have j: "?j \<in> set ?jobs" "jb_responder ?j = length others" "jb_manifest ?j = m"
    by (rule nth_mem) (simp_all add: number_jobs_nth(1))
  have d: "distinct (map jb_responder ?jobs)" by (simp add: number_jobs_distinct)
  from process_groups_replies [where env = "\<lambda>t k. writers (ws t k)", OF writers_commits p] map_of_SomeD [OF r(1)]
  obtain g where g: "g \<in> set (job_groups ?jobs)" "length others \<in> jb_responder ` set (snd g)"
    "\<forall>j \<in> set (snd g). in_catalog (jb_manifest j) sn c1" by fastforce
  from g(2) obtain j' where j': "j' \<in> set (snd g)" "jb_responder j' = length others" by auto
  have "j' \<in> set ?jobs" using j'(1) g(1) unfolding job_groups_def by auto
  with j(1,2) j'(2) d have "j' = ?j" by (simp add: distinct_map inj_on_def)
  with g(3) j'(1) j(3) r(2) show "in_catalog m sn c'" by auto
qed

text \<open>
  C9: A request that is woken with a snapshot is durable. Whether the flush commits by itself or through
  the coordinator, the extent named in the outcome is in the catalog with that snapshot, and reading it back
  gives the batches of the flush, among them all of the request.
\<close>

theorem staging_ack_durable:
  assumes w: "staging_reachable cfg mem w" and d: "d \<in> set (st_drained w)" and q: "q \<in> set (st_accepted w)" "rq_waiter q \<in> set (dr_waiters d)"
    and via: "via = flush_commit run tenant \<or> via = coordinator_commit sh key ws gen clock tenant others label"
    and f: "flush_drained via lb fmt xid now tenant d st c = Some (Woken out, st', c')"
    and libs: "\<forall>w. append_all lb (writer_new fmt xid (dr_schema d)) (dr_batches d) = Some w \<longrightarrow> libs_read_back lb st w"
    and ok: "\<forall>q \<in> set (st_accepted w). list_all batch_ok (rq_batches q)"
  shows "\<exists>m r. in_catalog m (fo_snapshot out) c' \<and> ext_table_id m = rq_table q \<and> ext_id m = fo_extent out \<and>
    reader_open lb st' \<lparr>in_schema = sch, in_object_path = object_path m, in_byte_size = byte_size m\<rparr> = Some (Inr r) \<and>
    (\<exists>xs ys. r_batches r = xs @ rq_batches q @ ys)"
proof -
  let ?t = "dr_table d"
  have inv: "staging_inv w" by (rule staging_reachable_inv [OF w])
  then obtain segs rest where p: "partitioned ?t w segs rest" unfolding staging_inv_def by blast
  have "d \<in> set (filter (\<lambda>d. dr_table d = ?t) (st_drained w))" using d by simp
  then obtain i where i: "i < length (filter (\<lambda>d. dr_table d = ?t) (st_drained w))" "filter (\<lambda>d. dr_table d = ?t) (st_drained w) ! i = d"
    unfolding in_set_conv_nth by blast
  with p have dr: "drained_of (segs ! i) d" "i < length segs" by (auto simp: partitioned_def list_all2_conv_all_nth)
  have sub: "set (segs ! i) \<subseteq> set (filter (\<lambda>q. rq_table q = ?t) (st_accepted w))"
    using p nth_mem [OF dr(2)] by (auto simp: partitioned_def)
  have dist: "distinct (map rq_waiter (st_accepted w))" using inv by (simp add: staging_inv_def)
  obtain q' where q': "q' \<in> set (segs ! i)" "rq_waiter q' = rq_waiter q" using dr(1) q(2) by (auto simp: drained_of_def)
  have "q' = q" using distinct_key [OF dist _ q(1) q'(2)] q'(1) sub by auto
  then obtain us vs where "segs ! i = us @ q # vs" using split_list [OF q'(1)] by auto
  then have bs: "dr_batches d = concat (map rq_batches us) @ rq_batches q @ concat (map rq_batches vs)"
    using dr(1) by (simp add: drained_of_def)
  have "\<forall>b \<in> set (dr_batches d). batch_ok b" using dr(1) sub ok by (fastforce simp: drained_of_def list_all_iff)
  moreover have "rq_table q = ?t" using q'(1) sub \<open>q' = q\<close> by auto
  ultimately show ?thesis
    using via direct.woken_durable [of run tenant, OF _ _ , of lb fmt xid now tenant d st c out st' c' sch]
      coordinated.woken_durable [of sh key ws gen clock tenant others label lb fmt xid now tenant d st c out st' c' sch] f libs bs
    by metis
qed

section \<open>Two schemas in one buffer\<close>

lemma append_batches_schema:
  "append_batches lb w bs = Some (Inr w') \<Longrightarrow> \<forall>b \<in> set bs. schema b = w_schema w"
proof (induction bs arbitrary: w)
  case (Cons b bs)
  then obtain w1 where w1: "writer_append lb w b = Some (w1, Inr ())" "append_batches lb w1 bs = Some (Inr w')"
    by (auto split: option.splits prod.splits sum.splits)
  then have "schema b = w_schema w" "w_schema w1 = w_schema w"
    by (auto simp: writer_append_def Let_def split: if_splits option.splits)
  with Cons.IH [OF w1(2)] show ?case by simp
qed simp

lemma woken_schema:
  assumes "flush_drained via lb fmt xid now tenant d st c = Some (Woken out, st', c')"
  shows "\<forall>b \<in> set (dr_batches d). schema b = dr_schema d"
proof -
  from assms obtain w where "append_batches lb (writer_new fmt xid (dr_schema d)) (dr_batches d) = Some (Inr w)"
    by (auto simp: flush_drained_def split: sum.splits option.splits)
  from append_batches_schema [OF this] show ?thesis by (simp add: writer_new_def)
qed

text \<open>
  C40: The check for a schema change and the insert are two critical sections. When two requests of a table
  with different schemas both pass the check before either inserts, one buffer holds the batches of
  both, and no flush of it ever succeeds: both requests fail, whatever the store and the catalog do.
\<close>

theorem schema_race_drops_all:
  assumes "rq_table q1 = rq_table q2" and "rq_schema q1 \<noteq> rq_schema q2" and "b \<in> set (rq_batches q1)" "schema b = rq_schema q1"
  shows "\<not> needs_schema_flush q1 Map.empty \<and> \<not> needs_schema_flush q2 Map.empty \<and>
    (\<exists>d sb. take_staged now (rq_table q1) (snd (enqueue_insert cfg mem t2 q2 (snd (enqueue_insert cfg mem t1 q1 Map.empty)))) = (Some d, sb) \<and>
       dr_waiters d = [rq_waiter q1, rq_waiter q2] \<and>
       (\<forall>r st' c'. flush_drained via lb fmt xid created tenant d st c = Some (r, st', c') \<longrightarrow> (\<exists>e. r = Dropped e)))"
proof -
  let ?sb = "snd (enqueue_insert cfg mem t2 q2 (snd (enqueue_insert cfg mem t1 q1 Map.empty)))"
  have ne: "rq_batches q1 \<noteq> []" using assms(3) by auto
  obtain e where e: "?sb (rq_table q1) = Some e" "ts_schema e = rq_schema q2" "ts_batches e = rq_batches q1 @ rq_batches q2"
    "ts_waiters e = [rq_waiter q1, rq_waiter q2]"
    using assms(1) by (simp add: enqueue_insert_def Let_def new_entry_def)
  then obtain d sb where d: "take_staged now (rq_table q1) ?sb = (Some d, sb)" "dr_schema d = rq_schema q2"
    "dr_batches d = rq_batches q1 @ rq_batches q2" "dr_waiters d = [rq_waiter q1, rq_waiter q2]"
    using ne by (simp add: take_staged_def)
  have "\<exists>e. r = Dropped e" if f: "flush_drained via lb fmt xid created tenant d st c = Some (r, st', c')" for r st' c'
  proof (cases r)
    case (Woken out)
    from woken_schema [OF f [unfolded Woken]] assms(2-4) d(2,3) show ?thesis by auto
  qed simp
  with d(1,4) show ?thesis by (auto simp: needs_schema_flush_def)
qed

text \<open>
  The age of a buffer counts from the last flush and not from its first request: a request that
  arrives late enough after a flush is flushed at once, without waiting for others.
\<close>

lemma early_flush:
  assumes "take_staged t0 tid sb = (Some d, sb1)" and "rq_table q = tid" "rq_batches q \<noteq> []" and "t0 + flush_max_age cfg \<le> now"
  shows "tid \<in> set (expired_tables cfg now [tid] (snd (enqueue_insert cfg mem now q sb1)))"
proof -
  obtain e where "sb1 tid = Some e" "ts_first e = t0" using assms(1) by (auto simp: take_staged_def split: option.splits if_splits)
  with assms(2-4) show ?thesis by (simp add: expired_tables_def enqueue_insert_def Let_def)
qed

section \<open>Witnesses\<close>

definition ex_request :: "nat \<Rightarrow> (string \<times> data_type) list \<Rightarrow> record_batch \<Rightarrow> request" where
  "ex_request k sch b = \<lparr>rq_waiter = k, rq_table = 1, rq_name = ''logs'', rq_schema = sch, rq_batches = [b]\<rparr>"

definition ex_flush :: drained where
  "ex_flush = \<lparr>dr_table = 1, dr_schema = ex_schema, dr_name = ''logs'', dr_batches = [ex_batch], dr_waiters = [0], dr_rows = 1, dr_bytes = 0\<rparr>"

definition ex_staging_world :: staging_world where
  "ex_staging_world = \<lparr>st_buffer = [1 \<mapsto> \<lparr>ts_schema = ex_schema, ts_name = ''logs'', ts_batches = [], ts_rows = 0, ts_bytes = 0, ts_first = 5, ts_waiters = []\<rparr>],
     st_drained = [ex_flush], st_accepted = [ex_request 0 ex_schema ex_batch]\<rparr>"

lemma ex_staging_reachable: "staging_reachable staging_default (\<lambda>_. 0) ex_staging_world"
proof -
  let ?w0 = "\<lparr>st_buffer = Map.empty, st_drained = [], st_accepted = []\<rparr>" and ?q = "ex_request 0 ex_schema ex_batch"
  let ?e = "\<lparr>ts_schema = ex_schema, ts_name = ''logs'', ts_batches = [ex_batch], ts_rows = 1, ts_bytes = 0, ts_first = 0, ts_waiters = [0]\<rparr>"
  let ?w1 = "\<lparr>st_buffer = [1 \<mapsto> ?e], st_drained = [], st_accepted = [?q]\<rparr>"
  have "enqueue_insert staging_default (\<lambda>_. 0) 0 ?q (st_buffer ?w0) = (False, [1 \<mapsto> ?e])"
    by (simp add: enqueue_insert_def ex_request_def staging_default_def sum_batches_def new_entry_def Let_def ex_batch_def)
  from staging_step.insert [OF _ _ this] have "staging_step staging_default (\<lambda>_. 0) ?w0 ?w1" by (simp add: ex_request_def)
  moreover have "take_staged 5 1 (st_buffer ?w1) = (Some ex_flush, st_buffer ex_staging_world)"
    by (simp add: take_staged_def ex_flush_def ex_staging_world_def)
  from staging_step.take [OF this] have "staging_step staging_default (\<lambda>_. 0) ?w1 ex_staging_world"
    by (simp add: ex_staging_world_def)
  ultimately show ?thesis using staging_reachable.init staging_reachable.step by metis
qed

theorem staging_partition_witness:
  "staging_reachable staging_default (\<lambda>_. 0) ex_staging_world \<and>
   (\<exists>segs rest. [ex_request 0 ex_schema ex_batch] = concat segs @ rest \<and> list_all2 drained_of segs [ex_flush] \<and>
      entry_of rest (st_buffer ex_staging_world 1))"
  using staging_partition [OF ex_staging_reachable, of 1] ex_staging_reachable
  by (simp add: ex_staging_world_def ex_request_def ex_flush_def)

lemma ex_flush_commit:
  "\<exists>c'. flush_commit sample_run 7 1 m rows bytes seed_catalog = (Inr 4, c')"
  unfolding flush_commit_def
  by (simp add: commit_loop.simps(2) [of _ _ _ _ _ _ _ 19, simplified] begin_snapshot_def commit_def sample_run_def
      seed_eq Let_def insert_row_def bindE_def cas_hit_def add_extent_def)

theorem staging_ack_durable_witness:
  "\<exists>out st' c' m r xs ys. flush_drained (flush_commit sample_run 7) ex_libs ex_format ''x1'' 0 7 ex_flush Map.empty seed_catalog = Some (Woken out, st', c') \<and>
     in_catalog m (fo_snapshot out) c' \<and> ext_id m = fo_extent out \<and>
     reader_open ex_libs st' \<lparr>in_schema = ex_schema, in_object_path = object_path m, in_byte_size = byte_size m\<rparr> = Some (Inr r) \<and>
     r_batches r = xs @ [ex_batch] @ ys"
proof -
  obtain w where w: "append_all ex_libs (writer_new ex_format ''x1'' ex_schema) [ex_batch] = Some w" using ex_append by blast
  obtain st' res where f: "writer_finish ex_libs Map.empty w = Some (Inr (st', res))" using ex_finish [OF w] by blast
  have t: "lookup_by_id 7 1 seed_catalog = Inr (Some \<lparr>tr_id = 1, tr_database = 1, tr_name = ''logs'', tr_snapshot = 3, tr_schema_id = 2,
      tr_schema = [], tr_config = JObject []\<rparr>)" by code_simp
  obtain c' where c: "flush_commit sample_run 7 1 (flush_manifest \<lparr>tr_id = 1, tr_database = 1, tr_name = ''logs'', tr_snapshot = 3,
      tr_schema_id = 2, tr_schema = [], tr_config = JObject []\<rparr> 0 res) 1 (res_byte_size res) seed_catalog = (Inr 4, c')"
    using ex_flush_commit by blast
  have fl: "dr_table ex_flush = 1" "dr_schema ex_flush = ex_schema" "dr_batches ex_flush = [ex_batch]" "dr_rows ex_flush = 1"
    by (simp_all add: ex_flush_def)
  have "\<exists>out. flush_drained (flush_commit sample_run 7) ex_libs ex_format ''x1'' 0 7 ex_flush Map.empty seed_catalog = Some (Woken out, st', c')"
    unfolding flush_drained_def fl t by (simp add: append_batches_ok [OF w] f c [unfolded One_nat_def] del: append_batches.simps)
  then obtain out where run: "flush_drained (flush_commit sample_run 7) ex_libs ex_format ''x1'' 0 7 ex_flush Map.empty seed_catalog = Some (Woken out, st', c')" ..
  have d: "ex_flush \<in> set (st_drained ex_staging_world)" "ex_request 0 ex_schema ex_batch \<in> set (st_accepted ex_staging_world)"
    "rq_waiter (ex_request 0 ex_schema ex_batch) \<in> set (dr_waiters ex_flush)"
    by (simp_all add: ex_staging_world_def ex_request_def ex_flush_def)
  have l: "\<forall>w. append_all ex_libs (writer_new ex_format ''x1'' (dr_schema ex_flush)) (dr_batches ex_flush) = Some w \<longrightarrow> libs_read_back ex_libs Map.empty w"
    unfolding fl using ex_read_back by blast
  have ok: "\<forall>q \<in> set (st_accepted ex_staging_world). list_all batch_ok (rq_batches q)"
    using ex_valid by (simp add: ex_staging_world_def ex_request_def batch_valid_def)
  from staging_ack_durable [OF ex_staging_reachable d disjI1 [OF HOL.refl] run l ok, of ex_schema] run
  show ?thesis by (auto simp: ex_request_def)
qed

theorem schema_race_drops_all_witness:
  "\<exists>d sb. take_staged 2 1 (snd (enqueue_insert staging_default (\<lambda>_. 0) 1 (ex_request 1 [] ex_batch)
       (snd (enqueue_insert staging_default (\<lambda>_. 0) 0 (ex_request 0 ex_schema ex_batch) Map.empty)))) = (Some d, sb) \<and>
     dr_waiters d = [0, 1] \<and>
     (\<forall>r st' c'. flush_drained (flush_commit sample_run 7) ex_libs ex_format ''x1'' 0 7 d Map.empty seed_catalog = Some (r, st', c') \<longrightarrow>
        (\<exists>e. r = Dropped e))"
proof -
  let ?q1 = "ex_request 0 ex_schema ex_batch" and ?q2 = "ex_request 1 [] ex_batch"
  have "rq_table ?q1 = rq_table ?q2" "rq_schema ?q1 \<noteq> rq_schema ?q2" "ex_batch \<in> set (rq_batches ?q1)" "schema ex_batch = rq_schema ?q1"
    by (simp_all add: ex_request_def ex_schema_def ex_batch_def)
  from schema_race_drops_all [OF this, of 2 staging_default "\<lambda>_. 0" 1 0 "flush_commit sample_run 7" ex_libs ex_format "''x1''" 0 7 Map.empty seed_catalog]
  show ?thesis by (simp add: ex_request_def)
qed

end
