(* ===== verification/Kql_Lexer.thy ===== *)
theory Kql_Lexer
  imports Schema_Json Tlm_Column_Stats
begin

text \<open>
  The lexer of the query language, \<open>pensieve-kql/src/lexer.rs\<close>. It runs over the bytes of the source: a
  multi-byte character is either blank, which is decided by its first bytes, or not allowed outside
  of literals and comments, which it passes through unchanged.

  Shown: every token is of the form the parser relies on, and a printed token list is read back.
\<close>

section \<open>Tokens\<close>

text \<open>\<open>'f\<close> stands for \<open>f64\<close>; reading and printing one are parameters.\<close>

datatype 'f kql_token =
  TIdent string | TInt int | TFloat 'f | TStr string | TDuration string
| TPipe | TComma | TLParen | TRParen | TLBracket | TRBracket | TDot | TDotDot
| TEq | TNe | TLt | TLe | TGt | TGe | TPlus | TMinus | TStar | TSlash | TPercent
| TAssign | TColon | TArrow | TRightArrow

record 'f floats =
  parse_f64 :: "string \<Rightarrow> string + 'f"
  show_f64 :: "'f \<Rightarrow> string"

datatype lex_error = LexError string | UnexpectedChar char

definition is_ascii_digit :: "char \<Rightarrow> bool" where
  "is_ascii_digit c \<longleftrightarrow> digit c \<noteq> None"

definition is_ascii_alphabetic :: "char \<Rightarrow> bool" where
  "is_ascii_alphabetic c \<longleftrightarrow> (let n = (of_char c :: nat) in (65 \<le> n \<and> n \<le> 90) \<or> (97 \<le> n \<and> n \<le> 122))"

definition nl :: char where "nl = CHR 0x0A"
definition dquote :: char where "dquote = CHR 0x22"
definition squote :: char where "squote = CHR 0x27"
definition backslash :: char where "backslash = CHR 0x5C"

section \<open>Blanks and comments\<close>

text \<open>\<open>char::is_whitespace\<close>: what follows a blank at the beginning, if there is one.\<close>

definition unicode_blanks :: "string list" where
  "unicode_blanks = map (map char_of)
     ([[194, 133], [194, 160], [225, 154, 128 :: nat]] @ map (\<lambda>k. [226, 128, k]) ([128..<139] @ [168, 169, 175]) @
      [[226, 129, 159], [227, 128, 128]])"

definition strip_prefix :: "string \<Rightarrow> string \<Rightarrow> string option" where
  "strip_prefix p s = (if take (length p) s = p then Some (drop (length p) s) else None)"

definition skip_blank :: "string \<Rightarrow> string option" where
  "skip_blank s = (case s of
     [] \<Rightarrow> None
   | c # cs \<Rightarrow>
      (let n = (of_char c :: nat) in
       if (9 \<le> n \<and> n \<le> 13) \<or> n = 32 then Some cs
       else if n < 128 then None
       else case filter (\<lambda>p. strip_prefix p s \<noteq> None) unicode_blanks of [] \<Rightarrow> None | p # _ \<Rightarrow> strip_prefix p s))"

definition peek2 :: "string \<Rightarrow> string \<Rightarrow> bool" where
  "peek2 s tag \<longleftrightarrow> strip_prefix tag s \<noteq> None"

fun skip_line :: "string \<Rightarrow> string" where
  "skip_line [] = []"
| "skip_line (c # cs) = (if c = nl then cs else skip_line cs)"

section \<open>Literals and identifiers\<close>

definition unescape :: "char \<Rightarrow> char" where
  "unescape c = (if c = CHR ''n'' then nl else if c = CHR ''t'' then CHR 0x09 else if c = CHR ''r'' then CHR 0x0D else c)"

fun lex_double :: "string \<Rightarrow> string \<Rightarrow> lex_error + string \<times> string" where
  "lex_double s [] = Inl (LexError ''unterminated double-quoted string'')"
| "lex_double s (c # cs) =
     (if c = dquote then Inr (s, cs)
      else if c = backslash then
        (case cs of [] \<Rightarrow> Inl (LexError ''dangling backslash'') | d # ds \<Rightarrow> lex_double (s @ [unescape d]) ds)
      else lex_double (s @ [c]) cs)"

fun lex_single :: "string \<Rightarrow> string \<Rightarrow> lex_error + string \<times> string" where
  "lex_single s [] = Inl (LexError ''unterminated single-quoted string'')"
| "lex_single s (c # cs) = (if c = squote then Inr (s, cs) else lex_single (s @ [c]) cs)"

text \<open>The digits of a number, with dots that a digit follows.\<close>

fun lex_digits :: "string \<Rightarrow> bool \<Rightarrow> string \<Rightarrow> string \<times> bool \<times> string" where
  "lex_digits lit fl [] = (lit, fl, [])"
| "lex_digits lit fl (c # cs) =
     (if is_ascii_digit c then lex_digits (lit @ [c]) fl cs
      else if c = CHR ''.'' \<and> (case cs of [] \<Rightarrow> False | d # _ \<Rightarrow> is_ascii_digit d) then lex_digits (lit @ [c]) True cs
      else (lit, fl, c # cs))"

definition unit_suffix :: "char \<Rightarrow> bool" where
  "unit_suffix c \<longleftrightarrow> c \<in> {CHR ''s'', CHR ''m'', CHR ''h'', CHR ''d''}"

definition parse_i64 :: "string \<Rightarrow> lex_error + int" where
  "parse_i64 s = (case parse_nonempty s of
     Some n \<Rightarrow> if int n < 9223372036854775808 then Inr (int n) else Inl (LexError ''bad int: number too large to fit in target type'')
   | None \<Rightarrow> Inl (LexError ''bad int: invalid digit found in string''))"

definition lex_number :: "'f floats \<Rightarrow> string \<Rightarrow> lex_error + 'f kql_token \<times> string" where
  "lex_number fl s =
     (case lex_digits [] False s of (lit, is_float, r) \<Rightarrow>
        if (case r of u # r' \<Rightarrow> unit_suffix u \<and> (case r' of [] \<Rightarrow> True | c # _ \<Rightarrow> \<not> is_ascii_alphanumeric c \<and> c \<noteq> CHR ''_'') | [] \<Rightarrow> False)
        then Inr (TDuration (lit @ [hd r]), tl r)
        else if is_float then
          (case parse_f64 fl lit of Inl e \<Rightarrow> Inl (LexError (''bad float: '' @ e)) | Inr f \<Rightarrow> Inr (TFloat f, r))
        else (case parse_i64 lit of Inl e \<Rightarrow> Inl e | Inr n \<Rightarrow> Inr (TInt n, r)))"

fun lex_ident :: "string \<Rightarrow> string \<Rightarrow> string \<times> string" where
  "lex_ident i [] = (i, [])"
| "lex_ident i (c # cs) =
     (if is_ascii_alphanumeric c \<or> c = CHR ''_'' then lex_ident (i @ [c]) cs
      else if c = CHR ''-'' \<and> (case cs of [] \<Rightarrow> False | d # _ \<Rightarrow> is_ascii_alphabetic d) then lex_ident (i @ [c]) cs
      else (i, c # cs))"

section \<open>The loop\<close>

text \<open>One turn of the loop: at most one token, and the rest of the source.\<close>

definition lex_step :: "'f floats \<Rightarrow> char \<Rightarrow> string \<Rightarrow> lex_error + 'f kql_token option \<times> string" where
  "lex_step fl c cs =
     (let s = c # cs; tok = (\<lambda>t r. Inr (Some t, r)) in
      if skip_blank s \<noteq> None then Inr (None, the (skip_blank s))
      else if peek2 s ''//'' then Inr (None, skip_line s)
      else if c = CHR ''|'' then tok TPipe cs
      else if c = CHR '','' then tok TComma cs
      else if c = CHR ''('' then tok TLParen cs
      else if c = CHR '')'' then tok TRParen cs
      else if c = CHR ''['' then tok TLBracket cs
      else if c = CHR '']'' then tok TRBracket cs
      else if c = CHR ''.'' then (if peek2 cs ''.'' then tok TDotDot (tl cs) else tok TDot cs)
      else if c = CHR ''+'' then tok TPlus cs
      else if c = CHR '':'' then tok TColon cs
      else if c = CHR ''-'' then
        (if peek2 cs ''->'' then tok TArrow (tl (tl cs)) else if peek2 cs ''>'' then tok TRightArrow (tl cs) else tok TMinus cs)
      else if c = CHR ''*'' then tok TStar cs
      else if c = CHR ''%'' then tok TPercent cs
      else if c = CHR ''/'' then tok TSlash cs
      else if c = CHR ''='' then (if peek2 cs ''='' then tok TEq (tl cs) else tok TAssign cs)
      else if c = CHR ''!'' then (if peek2 cs ''='' then tok TNe (tl cs) else Inl (LexError (''expected '' @ [squote] @ ''='' @ [squote] @ '' after '' @ [squote] @ ''!'' @ [squote])))
      else if c = CHR ''<'' then (if peek2 cs ''='' then tok TLe (tl cs) else tok TLt cs)
      else if c = CHR ''>'' then (if peek2 cs ''='' then tok TGe (tl cs) else tok TGt cs)
      else if c = dquote then bindE (lex_double [] cs) (\<lambda>(x, r). tok (TStr x) r)
      else if c = squote then bindE (lex_single [] cs) (\<lambda>(x, r). tok (TStr x) r)
      else if is_ascii_digit c then bindE (lex_number fl s) (\<lambda>(t, r). tok t r)
      else if is_ascii_alphabetic c \<or> c = CHR ''_'' then (case lex_ident [] s of (i, r) \<Rightarrow> tok (TIdent i) r)
      else Inl (UnexpectedChar c))"

section \<open>Every turn reads something\<close>

lemma strip_prefix_Some: "strip_prefix p s = Some r \<longleftrightarrow> s = p @ r"
  by (auto simp: strip_prefix_def) (metis append_take_drop_id)

lemma peek2_iff: "peek2 s p \<longleftrightarrow> (\<exists>r. s = p @ r)"
  by (simp add: peek2_def not_None_eq strip_prefix_Some)

lemma unicode_blanks_nonempty: "p \<in> set unicode_blanks \<Longrightarrow> p \<noteq> []"
  by (auto simp: unicode_blanks_def)

lemma skip_blank_shorter: "skip_blank s = Some r \<Longrightarrow> length r < length s"
proof -
  assume *: "skip_blank s = Some r"
  have "length r < length s" if "filter (\<lambda>p. strip_prefix p s \<noteq> None) unicode_blanks = p # ps" "strip_prefix p s = Some r" for p ps
  proof -
    have "p \<in> set (filter (\<lambda>p. strip_prefix p s \<noteq> None) unicode_blanks)" using that(1) by simp
    then have "p \<noteq> []" using unicode_blanks_nonempty by simp
    with that(2) show ?thesis by (simp add: strip_prefix_Some)
  qed
  with * show ?thesis by (auto simp: skip_blank_def Let_def split: list.splits if_splits)
qed

lemma skip_line_length: "length (skip_line s) \<le> length s" "s \<noteq> [] \<Longrightarrow> length (skip_line s) < length s"
proof -
  show *: "length (skip_line s) \<le> length s" for s by (induction s) auto
  show "s \<noteq> [] \<Longrightarrow> length (skip_line s) < length s" using * by (cases s) (auto simp: less_Suc_eq_le)
qed

lemma lex_double_shorter: "lex_double x s = Inr (y, r) \<Longrightarrow> length r < length s"
  by (induction x s rule: lex_double.induct) (auto split: if_splits list.splits)

lemma lex_single_shorter: "lex_single x s = Inr (y, r) \<Longrightarrow> length r < length s"
  by (induction x s rule: lex_single.induct) (auto split: if_splits)

lemma lex_digits_length: "lex_digits x f s = (y, g, r) \<Longrightarrow> length r \<le> length s"
  by (induction x f s rule: lex_digits.induct) (auto split: if_splits)

lemma lex_ident_length: "lex_ident x s = (y, r) \<Longrightarrow> length r \<le> length s"
  by (induction x s rule: lex_ident.induct) (auto split: if_splits)

lemma lex_number_shorter:
  assumes "lex_number fl (c # cs) = Inr (t, r)" and "is_ascii_digit c"
  shows "length r < length (c # cs)"
proof -
  obtain lit g r0 where d: "lex_digits [] False (c # cs) = (lit, g, r0)" by (metis prod_cases3)
  have "length r0 \<le> length cs" using d assms(2) lex_digits_length by (fastforce split: if_splits)
  then show ?thesis using assms(1) d by (auto simp: lex_number_def split: if_splits list.splits sum.splits)
qed

definition lex_shorter :: "nat \<Rightarrow> lex_error + 'f kql_token option \<times> string \<Rightarrow> bool" where
  "lex_shorter n x \<longleftrightarrow> (case x of Inl _ \<Rightarrow> True | Inr (_, r) \<Rightarrow> length r \<le> n)"

lemma lex_shorter_if: "\<lbrakk>P \<Longrightarrow> lex_shorter n a; \<not> P \<Longrightarrow> lex_shorter n b\<rbrakk> \<Longrightarrow> lex_shorter n (if P then a else b)"
  by simp

lemma lex_shorter_simps [simp]: "lex_shorter n (Inl e)" "lex_shorter n (Inr (t, r)) \<longleftrightarrow> length r \<le> n"
  by (simp_all add: lex_shorter_def)

lemma lex_shorter_bind: "(\<And>x r. m = Inr (x, r) \<Longrightarrow> length r \<le> n) \<Longrightarrow> lex_shorter n (bindE m (\<lambda>(x, r). Inr (Some (f x), r)))"
  by (cases m) (auto split: prod.splits)

lemma lex_ident_shorter:
  assumes "is_ascii_alphabetic c \<or> c = CHR ''_''"
  shows "lex_shorter (length cs) (case lex_ident [] (c # cs) of (i, r) \<Rightarrow> Inr (Some (TIdent i), r))"
proof -
  have "is_ascii_alphanumeric c \<or> c = CHR ''_''" using assms by (auto simp: is_ascii_alphabetic_def is_ascii_alphanumeric_def Let_def)
  then show ?thesis using lex_ident_length [of "[c]" cs] by (cases "lex_ident [c] cs") auto
qed

lemma lex_step_shorter: "lex_shorter (length cs) (lex_step fl c cs)"
  unfolding lex_step_def Let_def
  apply (intro lex_shorter_if lex_ident_shorter)
                      apply (use skip_blank_shorter [of "c # cs"] in force)
                     apply (use skip_line_length(2) [of "c # cs"] in force)
                    apply simp_all
    apply (rule lex_shorter_bind, fastforce dest: lex_double_shorter)
   apply (rule lex_shorter_bind, fastforce dest: lex_single_shorter)
  apply (rule lex_shorter_bind [where f = id, simplified], fastforce dest: lex_number_shorter)
  done

function tokenize_from :: "'f floats \<Rightarrow> string \<Rightarrow> lex_error + 'f kql_token list" where
  "tokenize_from fl [] = Inr []"
| "tokenize_from fl (c # cs) =
     (case lex_step fl c cs of
        Inl e \<Rightarrow> Inl e
      | Inr (None, r) \<Rightarrow> tokenize_from fl r
      | Inr (Some t, r) \<Rightarrow> bindE (tokenize_from fl r) (\<lambda>ts. Inr (t # ts)))"
  by pat_completeness auto
termination
  by (relation "measure (\<lambda>(fl, s). length s)") (use lex_step_shorter in \<open>force simp: lex_shorter_def split: sum.splits\<close>)+

definition kql_tokenize :: "'f floats \<Rightarrow> string \<Rightarrow> lex_error + 'f kql_token list" where
  "kql_tokenize fl src = tokenize_from fl src"

section \<open>The form of tokens\<close>

fun ident_tail :: "string \<Rightarrow> bool" where
  "ident_tail [] = True"
| "ident_tail (c # cs) =
     ((is_ascii_alphanumeric c \<or> c = CHR ''_'' \<or> c = CHR ''-'' \<and> (case cs of [] \<Rightarrow> False | d # _ \<Rightarrow> is_ascii_alphabetic d)) \<and> ident_tail cs)"

definition ident_ok :: "string \<Rightarrow> bool" where
  "ident_ok s \<longleftrightarrow> (case s of [] \<Rightarrow> False | c # cs \<Rightarrow> (is_ascii_alphabetic c \<or> c = CHR ''_'') \<and> ident_tail cs)"

fun number_tail :: "string \<Rightarrow> bool" where
  "number_tail [] = True"
| "number_tail (c # cs) = ((is_ascii_digit c \<or> c = CHR ''.'' \<and> (case cs of [] \<Rightarrow> False | d # _ \<Rightarrow> is_ascii_digit d)) \<and> number_tail cs)"

definition number_ok :: "string \<Rightarrow> bool" where
  "number_ok s \<longleftrightarrow> (case s of [] \<Rightarrow> False | c # cs \<Rightarrow> is_ascii_digit c \<and> number_tail cs)"

text \<open>
  What is relied on of \<open>f64\<close>: \<open>Display\<close> of a number that was parsed from a literal (no sign, no exponent) writes
  digits, letters (\<open>inf\<close>) and dots only.
\<close>

definition floats_ok :: "'f floats \<Rightarrow> bool" where
  "floats_ok fl \<longleftrightarrow> (\<forall>s f. number_ok s \<and> parse_f64 fl s = Inr f \<longrightarrow>
     show_f64 fl f \<noteq> [] \<and> list_all (\<lambda>c. is_ascii_alphanumeric c \<or> c = CHR ''.'') (show_f64 fl f))"

definition tok_ok :: "'f floats \<Rightarrow> 'f kql_token \<Rightarrow> bool" where
  "tok_ok fl t = (case t of
     TIdent s \<Rightarrow> ident_ok s
   | TInt n \<Rightarrow> 0 \<le> n \<and> n < 9223372036854775808
   | TFloat f \<Rightarrow> \<exists>s. number_ok s \<and> parse_f64 fl s = Inr f
   | TDuration d \<Rightarrow> \<exists>n u. d = n @ [u] \<and> number_ok n \<and> unit_suffix u
   | _ \<Rightarrow> True)"

lemma alphabetic_alphanumeric: "is_ascii_alphabetic c \<Longrightarrow> is_ascii_alphanumeric c"
  by (auto simp: is_ascii_alphabetic_def is_ascii_alphanumeric_def Let_def)

lemma digit_alphanumeric: "is_ascii_digit c \<Longrightarrow> is_ascii_alphanumeric c"
  by (auto simp: is_ascii_digit_def digit_def is_ascii_alphanumeric_def Let_def split: if_splits)

lemma lex_ident_split: "lex_ident i s = (j, r) \<Longrightarrow> \<exists>u. j = i @ u \<and> s = u @ r \<and> ident_tail u"
proof (induction i s arbitrary: j r rule: lex_ident.induct)
  case (2 i c cs)
  show ?case
  proof (cases "is_ascii_alphanumeric c \<or> c = CHR ''_''")
    case True
    then obtain u where "j = (i @ [c]) @ u" "cs = u @ r" "ident_tail u" using 2 by auto
    then show ?thesis using True by (intro exI [of _ "c # u"]) auto
  next
    case not: False
    show ?thesis
    proof (cases "c = CHR ''-'' \<and> (case cs of [] \<Rightarrow> False | d # _ \<Rightarrow> is_ascii_alphabetic d)")
      case True
      then obtain u where u: "j = (i @ [c]) @ u" "cs = u @ r" "ident_tail u" using 2 not by auto
      obtain d ds where d: "cs = d # ds" "is_ascii_alphabetic d" using True by (auto split: list.splits)
      have "u \<noteq> []"
      proof
        assume "u = []"
        then have "length r = Suc (length ds)" "lex_ident (i @ [c]) (d # ds) = (j, r)" using u d 2 not True by auto
        then show False using lex_ident_length [of "(i @ [c]) @ [d]" ds] d(2) alphabetic_alphanumeric by fastforce
      qed
      then have "hd u = d" using u(2) d(1) by (cases u) auto
      then show ?thesis using u True d not \<open>u \<noteq> []\<close> by (intro exI [of _ "c # u"]) (cases u; auto)
    next
      case False
      then show ?thesis using 2 not by (intro exI [of _ "[]"]) auto
    qed
  qed
qed auto

lemma lex_digits_split: "lex_digits l g s = (m, h, r) \<Longrightarrow> \<exists>u. m = l @ u \<and> s = u @ r \<and> number_tail u \<and> h = (g \<or> CHR ''.'' \<in> set u)"
proof (induction l g s arbitrary: m h r rule: lex_digits.induct)
  case (2 l g c cs)
  have dot: "\<not> is_ascii_digit (CHR ''.'')" by (simp add: is_ascii_digit_def digit_def)
  show ?case
  proof (cases "is_ascii_digit c")
    case True
    then obtain u where "m = (l @ [c]) @ u" "cs = u @ r" "number_tail u" "h = (g \<or> CHR ''.'' \<in> set u)" using 2 by auto
    then show ?thesis using True dot by (intro exI [of _ "c # u"]) auto
  next
    case not: False
    show ?thesis
    proof (cases "c = CHR ''.'' \<and> (case cs of [] \<Rightarrow> False | d # _ \<Rightarrow> is_ascii_digit d)")
      case True
      then obtain u where u: "m = (l @ [c]) @ u" "cs = u @ r" "number_tail u" "h" using 2 not by auto
      obtain d ds where d: "cs = d # ds" "is_ascii_digit d" using True by (auto split: list.splits)
      have "u \<noteq> []"
      proof
        assume "u = []"
        then have "length r = Suc (length ds)" "lex_digits (l @ [c]) True (d # ds) = (m, h, r)" using u d 2 not True by auto
        then show False using lex_digits_length [of "(l @ [c]) @ [d]" True ds] d(2) by fastforce
      qed
      then have "hd u = d" using u(2) d(1) by (cases u) auto
      then show ?thesis using u True d not \<open>u \<noteq> []\<close> by (intro exI [of _ "c # u"]) (cases u; auto)
    next
      case False
      then show ?thesis using 2 not by (intro exI [of _ "[]"]) auto
    qed
  qed
qed auto

lemma parse_i64_bounds: "parse_i64 s = Inr n \<Longrightarrow> 0 \<le> n \<and> n < 9223372036854775808"
  by (auto simp: parse_i64_def split: option.splits if_splits)

lemma lex_number_ok:
  assumes "lex_number fl (c # cs) = Inr (t, r)" and "is_ascii_digit c"
  shows "tok_ok fl t"
proof -
  obtain lit g r0 where d: "lex_digits [] False (c # cs) = (lit, g, r0)" by (metis prod_cases3)
  obtain u where u: "lit = u" "c # cs = u @ r0" "number_tail u" using lex_digits_split [OF d] by auto
  have "length r0 \<le> length cs" using d assms(2) lex_digits_length by (fastforce split: if_splits)
  with u have "number_ok lit" using assms(2) by (cases u) (auto simp: number_ok_def)
  then show ?thesis using assms(1) d
    by (auto simp: lex_number_def tok_ok_def parse_i64_bounds split: if_splits list.splits sum.splits)
qed

definition lex_tok_ok :: "'f floats \<Rightarrow> lex_error + 'f kql_token option \<times> string \<Rightarrow> bool" where
  "lex_tok_ok fl x \<longleftrightarrow> (case x of Inr (Some t, _) \<Rightarrow> tok_ok fl t | _ \<Rightarrow> True)"

lemma lex_tok_ok_if: "\<lbrakk>P \<Longrightarrow> lex_tok_ok fl a; \<not> P \<Longrightarrow> lex_tok_ok fl b\<rbrakk> \<Longrightarrow> lex_tok_ok fl (if P then a else b)"
  by simp

lemma lex_tok_ok_simps [simp]: "lex_tok_ok fl (Inl e)" "lex_tok_ok fl (Inr (None, r))" "lex_tok_ok fl (Inr (Some t, r)) \<longleftrightarrow> tok_ok fl t"
  by (simp_all add: lex_tok_ok_def)

lemma lex_tok_ok_bind: "(\<And>x r. m = Inr (x, r) \<Longrightarrow> tok_ok fl (f x)) \<Longrightarrow> lex_tok_ok fl (bindE m (\<lambda>(x, r). Inr (Some (f x), r)))"
  by (cases m) (auto split: prod.splits)

lemma lex_ident_ok:
  assumes "is_ascii_alphabetic c \<or> c = CHR ''_''"
  shows "lex_tok_ok fl (case lex_ident [] (c # cs) of (i, r) \<Rightarrow> Inr (Some (TIdent i), r))"
proof -
  have "is_ascii_alphanumeric c \<or> c = CHR ''_''" using assms alphabetic_alphanumeric by blast
  moreover obtain i r where i: "lex_ident [c] cs = (i, r)" by (metis surj_pair)
  ultimately show ?thesis using lex_ident_split [OF i] assms by (auto simp: tok_ok_def ident_ok_def)
qed

lemma lex_step_ok: "lex_tok_ok fl (lex_step fl c cs)"
  unfolding lex_step_def Let_def
  apply (intro lex_tok_ok_if lex_ident_ok)
                      apply (simp_all add: tok_ok_def [of fl "TPipe"] tok_ok_def)
    apply (rule lex_tok_ok_bind, simp add: tok_ok_def)
   apply (rule lex_tok_ok_bind, simp add: tok_ok_def)
  apply (rule lex_tok_ok_bind [where f = id, simplified], blast intro: lex_number_ok)
  done

lemma tokenize_from_ok: "tokenize_from fl s = Inr ts \<Longrightarrow> list_all (tok_ok fl) ts"
proof (induction fl s arbitrary: ts rule: tokenize_from.induct)
  case (2 fl c cs)
  then show ?case using lex_step_ok [of fl c cs]
    by (auto simp: bindE_Inr_iff split: sum.splits option.splits)
qed simp

lemma kql_tokenize_ok: "kql_tokenize fl s = Inr ts \<Longrightarrow> list_all (tok_ok fl) ts"
  by (simp add: kql_tokenize_def tokenize_from_ok)

section \<open>Printing and reading back\<close>

text \<open>A printer for tokens: strings in double quotes, everything followed by a blank.\<close>

fun escape :: "string \<Rightarrow> string" where
  "escape [] = []"
| "escape (c # cs) = (if c = dquote \<or> c = backslash then backslash # c # escape cs else c # escape cs)"

definition show_token :: "'f floats \<Rightarrow> 'f kql_token \<Rightarrow> string" where
  "show_token fl t = (case t of
     TIdent s \<Rightarrow> s | TInt n \<Rightarrow> show_int n | TFloat f \<Rightarrow> show_f64 fl f | TStr s \<Rightarrow> dquote # escape s @ [dquote] | TDuration d \<Rightarrow> d
   | TPipe \<Rightarrow> ''|'' | TComma \<Rightarrow> '','' | TLParen \<Rightarrow> ''('' | TRParen \<Rightarrow> '')'' | TLBracket \<Rightarrow> ''['' | TRBracket \<Rightarrow> '']'' | TDot \<Rightarrow> ''.''
   | TDotDot \<Rightarrow> ''..'' | TEq \<Rightarrow> ''=='' | TNe \<Rightarrow> ''!='' | TLt \<Rightarrow> ''<'' | TLe \<Rightarrow> ''<='' | TGt \<Rightarrow> ''>'' | TGe \<Rightarrow> ''>='' | TPlus \<Rightarrow> ''+''
   | TMinus \<Rightarrow> ''-'' | TStar \<Rightarrow> ''*'' | TSlash \<Rightarrow> ''/'' | TPercent \<Rightarrow> ''%'' | TAssign \<Rightarrow> ''='' | TColon \<Rightarrow> '':'' | TArrow \<Rightarrow> ''-->''
   | TRightArrow \<Rightarrow> ''->'')"

definition print_tokens :: "'f floats \<Rightarrow> 'f kql_token list \<Rightarrow> string" where
  "print_tokens fl ts = concat (map (\<lambda>t. show_token fl t @ '' '') ts)"

text \<open>The tokens that have a text; a number with a fraction has one that is read back.\<close>

definition printable :: "'f floats \<Rightarrow> 'f kql_token \<Rightarrow> bool" where
  "printable fl t = (tok_ok fl t \<and> (case t of
     TFloat f \<Rightarrow> number_ok (show_f64 fl f) \<and> CHR ''.'' \<in> set (show_f64 fl f) \<and> parse_f64 fl (show_f64 fl f) = Inr f | _ \<Rightarrow> True))"

lemma lex_double_escape: "lex_double x (escape s @ dquote # r) = Inr (x @ s, r)"
proof (induction s arbitrary: x)
  case (Cons c cs)
  have "dquote \<noteq> backslash" "unescape dquote = dquote" "unescape backslash = backslash"
    by (simp_all add: dquote_def backslash_def unescape_def)
  with Cons show ?case by auto
qed simp

lemma lex_ident_stop:
  "\<lbrakk>ident_tail u; \<not> is_ascii_alphanumeric b; b \<noteq> CHR ''_''; b \<noteq> CHR ''-''\<rbrakk> \<Longrightarrow> lex_ident i (u @ b # r) = (i @ u, b # r)"
proof (induction u arbitrary: i)
  case (Cons c cs)
  then show ?case by (cases cs) (auto split: if_splits)
qed simp

lemma lex_digits_stop:
  "\<lbrakk>number_tail u; \<not> is_ascii_digit b; b \<noteq> CHR ''.''\<rbrakk> \<Longrightarrow> lex_digits l g (u @ b # r) = (l @ u, g \<or> CHR ''.'' \<in> set u, b # r)"
proof (induction u arbitrary: l g)
  case (Cons c cs)
  have "\<not> is_ascii_digit (CHR ''.'')" by (simp add: is_ascii_digit_def digit_def)
  with Cons.prems Cons.IH [of "l @ [c]" g] Cons.IH [of "l @ [c]" True] show ?case by (cases cs) (auto split: if_splits)
qed simp

lemma blank_facts: "\<not> is_ascii_alphanumeric (CHR '' '')" "\<not> is_ascii_digit (CHR '' '')" "\<not> is_ascii_alphabetic (CHR '' '')" "\<not> unit_suffix (CHR '' '')"
  by (simp_all add: is_ascii_alphanumeric_def is_ascii_digit_def digit_def is_ascii_alphabetic_def unit_suffix_def)

definition special_chars :: "char set" where
  "special_chars = {CHR ''|'', CHR '','', CHR ''('', CHR '')'', CHR ''['', CHR '']'', CHR ''.'', CHR ''+'', CHR '':'', CHR ''-'', CHR ''*'', CHR ''%'', CHR ''/'',
     CHR ''='', CHR ''!'', CHR ''<'', CHR ''>'', dquote, squote}"

lemma word_not_special: "is_ascii_alphanumeric c \<or> c = CHR ''_'' \<Longrightarrow> c \<notin> special_chars"
  by (auto simp: special_chars_def is_ascii_alphanumeric_def dquote_def squote_def)

lemma word_not_blank: "is_ascii_alphanumeric c \<or> c = CHR ''_'' \<Longrightarrow> skip_blank (c # cs) = None"
  by (auto simp: skip_blank_def is_ascii_alphanumeric_def Let_def)

lemma lex_step_word:
  assumes "is_ascii_alphanumeric c \<or> c = CHR ''_''"
  shows "lex_step fl c cs =
    (if is_ascii_digit c then bindE (lex_number fl (c # cs)) (\<lambda>(t, r). Inr (Some t, r))
     else if is_ascii_alphabetic c \<or> c = CHR ''_'' then (case lex_ident [] (c # cs) of (i, r) \<Rightarrow> Inr (Some (TIdent i), r))
     else Inl (UnexpectedChar c))"
proof -
  have "\<not> peek2 (c # cs) ''//''" using word_not_special [OF assms] by (simp add: peek2_iff special_chars_def)
  then show ?thesis using word_not_special [OF assms] word_not_blank [OF assms] by (simp add: lex_step_def Let_def special_chars_def)
qed

lemma lex_step_ident:
  assumes "ident_ok (c # cs)"
  shows "lex_step fl c (cs @ CHR '' '' # r) = Inr (Some (TIdent (c # cs)), CHR '' '' # r)"
proof -
  have c: "is_ascii_alphabetic c \<or> c = CHR ''_''" "ident_tail cs" using assms by (simp_all add: ident_ok_def)
  have "\<not> is_ascii_digit c" using c(1) by (auto simp: is_ascii_digit_def digit_def is_ascii_alphabetic_def Let_def)
  then show ?thesis using c lex_step_word [of c fl] alphabetic_alphanumeric lex_ident_stop [OF c(2) blank_facts(1), of "[c]" r] by auto
qed

lemma show_nat_number: "number_ok (show_nat n)" "CHR ''.'' \<notin> set (show_nat n)"
proof -
  have "number_tail s" if "list_all is_ascii_digit s" for s using that by (induction s) auto
  moreover have d: "list_all is_ascii_digit (show_nat n)" using show_nat_digits [of n] by (simp add: is_ascii_digit_def list_all_iff)
  ultimately show "number_ok (show_nat n)" using show_nat_nonempty [of n] by (cases "show_nat n") (auto simp: number_ok_def)
  have "\<not> is_ascii_digit (CHR ''.'')" by (simp add: is_ascii_digit_def digit_def)
  with d show "CHR ''.'' \<notin> set (show_nat n)" by (auto simp: list_all_iff)
qed

lemma number_ok_cases: "number_ok s \<Longrightarrow> \<exists>c cs. s = c # cs \<and> is_ascii_digit c \<and> number_tail cs"
  by (cases s) (auto simp: number_ok_def)

lemma lex_digits_number:
  assumes "number_ok s" and "\<not> is_ascii_digit b" "b \<noteq> CHR ''.''"
  shows "lex_digits [] False (s @ b # r) = (s, CHR ''.'' \<in> set s, b # r)"
proof -
  have "number_tail s" using number_ok_cases [OF assms(1)] by auto
  from lex_digits_stop [OF this assms(2,3), of "[]" False r] show ?thesis by simp
qed

lemma lex_step_number:
  assumes "number_ok s" and "lex_number fl (s @ r) = Inr (t, r')"
  shows "lex_step fl (hd s) (tl s @ r) = Inr (Some t, r')"
proof -
  obtain c cs where c: "s = c # cs" "is_ascii_digit c" using number_ok_cases [OF assms(1)] by blast
  then show ?thesis using assms(2) lex_step_word [of c fl] digit_alphanumeric by simp
qed

lemma lex_number_int:
  assumes "0 \<le> n" "n < 9223372036854775808"
  shows "lex_number fl (show_int n @ CHR '' '' # r) = Inr (TInt n, CHR '' '' # r)"
proof -
  have "show_int n = show_nat (nat n)" using assms by (simp add: show_int_def)
  moreover have "parse_i64 (show_nat (nat n)) = Inr n" using assms by (simp add: parse_i64_def parse_nonempty_def parse_show_nat)
  ultimately show ?thesis using lex_digits_number [OF show_nat_number(1) blank_facts(2), of "nat n" r] show_nat_number(2) blank_facts
    by (simp add: lex_number_def)
qed

lemma lex_number_float:
  assumes "number_ok s" "CHR ''.'' \<in> set s" "parse_f64 fl s = Inr f"
  shows "lex_number fl (s @ CHR '' '' # r) = Inr (TFloat f, CHR '' '' # r)"
  using lex_digits_number [OF assms(1) blank_facts(2), of r] assms(2,3) blank_facts by (simp add: lex_number_def)

lemma lex_number_duration:
  assumes "number_ok n" "unit_suffix u"
  shows "lex_number fl ((n @ [u]) @ CHR '' '' # r) = Inr (TDuration (n @ [u]), CHR '' '' # r)"
proof -
  have "\<not> is_ascii_digit u" "u \<noteq> CHR ''.''" using assms(2) by (auto simp: unit_suffix_def is_ascii_digit_def digit_def)
  from lex_digits_number [OF assms(1) this, of "CHR '' '' # r"] show ?thesis using assms(2) blank_facts by (simp add: lex_number_def)
qed

lemma lex_step_token:
  assumes "printable fl t"
  shows "show_token fl t \<noteq> [] \<and> lex_step fl (hd (show_token fl t)) (tl (show_token fl t) @ CHR '' '' # r) = Inr (Some t, CHR '' '' # r)"
proof -
  have number: ?thesis if "number_ok n" "show_token fl t = n @ u" "lex_number fl (show_token fl t @ CHR '' '' # r) = Inr (t, CHR '' '' # r)" for n u
    using lex_step_number [OF that(1), of fl "u @ CHR '' '' # r"] that number_ok_cases [OF that(1)] by auto
  show ?thesis
  proof (cases t)
    case (TIdent s)
    then show ?thesis using assms lex_step_ident by (cases s) (auto simp: printable_def tok_ok_def show_token_def ident_ok_def)
  next
    case (TInt n)
    then have n: "0 \<le> n" "n < 9223372036854775808" using assms by (simp_all add: printable_def tok_ok_def)
    then have "show_token fl t = show_nat (nat n) @ []" using TInt by (simp add: show_token_def show_int_def)
    moreover have "lex_number fl (show_token fl t @ CHR '' '' # r) = Inr (t, CHR '' '' # r)" using lex_number_int [OF n] TInt by (simp add: show_token_def)
    ultimately show ?thesis by (rule number [OF show_nat_number(1)])
  next
    case (TFloat f)
    then have "number_ok (show_f64 fl f)" "CHR ''.'' \<in> set (show_f64 fl f)" "parse_f64 fl (show_f64 fl f) = Inr f"
      using assms by (simp_all add: printable_def)
    from number [OF this(1), of "[]"] lex_number_float [OF this] show ?thesis using TFloat by (simp add: show_token_def)
  next
    case (TDuration d)
    then obtain n u where d: "d = n @ [u]" "number_ok n" "unit_suffix u" using assms by (auto simp: printable_def tok_ok_def)
    have "show_token fl t = n @ [u]" using TDuration d(1) by (simp add: show_token_def)
    moreover have "lex_number fl (show_token fl t @ CHR '' '' # r) = Inr (t, CHR '' '' # r)"
      using lex_number_duration [OF d(2,3), of fl r] TDuration d(1) by (simp add: show_token_def)
    ultimately show ?thesis by (rule number [OF d(2)])
  next
    case (TStr x)
    have "skip_blank (dquote # z) = None" "\<not> peek2 (dquote # z) ''//''" for z by (simp_all add: skip_blank_def peek2_iff dquote_def)
    then show ?thesis using TStr lex_double_escape [of "[]" x "CHR '' '' # r"]
      by (simp add: show_token_def lex_step_def Let_def, simp add: dquote_def)
  qed (simp_all add: show_token_def lex_step_def Let_def skip_blank_def peek2_iff dquote_def)
qed

lemma tokenize_print: "list_all (printable fl) ts \<Longrightarrow> tokenize_from fl (print_tokens fl ts) = Inr ts"
proof (induction ts)
  case (Cons t ts)
  have step: "lex_step fl (CHR '' '') r = Inr (None, r)" for r by (simp add: lex_step_def skip_blank_def)
  obtain c cs where c: "show_token fl t = c # cs" "lex_step fl c (cs @ CHR '' '' # print_tokens fl ts) = Inr (Some t, CHR '' '' # print_tokens fl ts)"
    using lex_step_token [of fl t "print_tokens fl ts"] Cons.prems by (cases "show_token fl t") auto
  then show ?case using Cons step by (simp add: print_tokens_def)
qed (simp add: print_tokens_def)

text \<open>
  A printed token list is read back: every list of tokens that have a text, printed with blanks
  between them and strings escaped, is what the lexer makes of the text.
\<close>

theorem kql_tokens_roundtrip:
  assumes "list_all (printable fl) ts"
  shows "kql_tokenize fl (print_tokens fl ts) = Inr ts"
  using tokenize_print [OF assms] by (simp add: kql_tokenize_def)

definition ex_floats :: "string floats" where
  "ex_floats = \<lparr>parse_f64 = Inr, show_f64 = id\<rparr>"

lemma number_tail_chars: "number_tail s \<Longrightarrow> list_all (\<lambda>c. is_ascii_alphanumeric c \<or> c = CHR ''.'') s"
  by (induction s) (auto dest: digit_alphanumeric)

lemma ex_floats_ok: "floats_ok ex_floats"
  by (auto simp: floats_ok_def ex_floats_def number_ok_def number_tail_chars dest: digit_alphanumeric split: list.splits)

theorem kql_tokens_roundtrip_witness:
  "kql_tokenize ex_floats (print_tokens ex_floats [TIdent ''project-away'', TStr [dquote, CHR ''a''], TFloat ''1.5'', TDuration ''5m'', TInt 42, TArrow]) =
     Inr [TIdent ''project-away'', TStr [dquote, CHR ''a''], TFloat ''1.5'', TDuration ''5m'', TInt 42, TArrow]"
proof (rule kql_tokens_roundtrip)
  have "TDuration ''5m'' = TDuration (''5'' @ [CHR ''m''])" by simp
  moreover have "tok_ok ex_floats (TDuration (''5'' @ [CHR ''m'']))" unfolding tok_ok_def
    by (auto simp: number_ok_def is_ascii_digit_def digit_def unit_suffix_def)
  ultimately have "printable ex_floats (TDuration ''5m'')" by (simp add: printable_def)
  moreover have "printable ex_floats (TFloat ''1.5'')"
    by (auto simp: printable_def tok_ok_def ex_floats_def number_ok_def is_ascii_digit_def digit_def)
  ultimately show "list_all (printable ex_floats) [TIdent ''project-away'', TStr [dquote, CHR ''a''], TFloat ''1.5'', TDuration ''5m'', TInt 42, TArrow]"
    by (simp add: printable_def tok_ok_def ident_ok_def is_ascii_alphanumeric_def is_ascii_alphabetic_def)
qed

end
