(* ===== verification/Kql_Expr.thy ===== *)
theory Kql_Expr
  imports Kql_Lexer
begin

text \<open>
  The expression parser of \<open>pensieve-kql/src/parser.rs\<close>, which emits SQL while it parses, and the helpers
  that write identifiers and literals.

  The parser's position is the list of the tokens that are left. An error ends the translation, so a parser
  is a function of the tokens that fails or returns its result and the tokens after it. The debug text
  of a token in an error message is the token. \<open>parse_expr\<close> calls itself for what stands in
  parentheses: the levels of the grammar take the parser of such inner expressions as an argument,
  and \<open>parse_expr_upto\<close> ties the knot with the nesting depth as a bound. \<open>Stuck\<close> is what
  a loop or the recursion gives when its bound is used up, \<open>Panicked\<close> a failed \<open>expect\<close> or slice; \<open>Kql_Statement\<close> shows
  that neither happens.
\<close>

section \<open>Parsers\<close>

datatype 'f parse_error =
  ParseError string | Got string "'f kql_token option" | Trailing "'f kql_token list" | LexFailed lex_error | Stuck | Panicked

type_synonym ('f, 'a) parsed = "'f parse_error + 'a \<times> 'f kql_token list"

definition pbind :: "('f, 'a) parsed \<Rightarrow> ('a \<Rightarrow> 'f kql_token list \<Rightarrow> 'f parse_error + 'b) \<Rightarrow> 'f parse_error + 'b" where
  "pbind m k = (case m of Inl e \<Rightarrow> Inl e | Inr (x, ts) \<Rightarrow> k x ts)"

definition peek :: "'f kql_token list \<Rightarrow> 'f kql_token option" where
  "peek ts = (case ts of [] \<Rightarrow> None | t # _ \<Rightarrow> Some t)"

definition bump :: "'f kql_token list \<Rightarrow> ('f, 'f kql_token) parsed" where
  "bump ts = (case ts of [] \<Rightarrow> Inl (ParseError ''unexpected end of query'') | t # r \<Rightarrow> Inr (t, r))"

definition eat :: "'f kql_token \<Rightarrow> 'f kql_token list \<Rightarrow> 'f kql_token list option" where
  "eat t ts = (case ts of [] \<Rightarrow> None | u # r \<Rightarrow> if u = t then Some r else None)"

definition expect :: "'f kql_token \<Rightarrow> string \<Rightarrow> 'f kql_token list \<Rightarrow> ('f, unit) parsed" where
  "expect t what ts = (case eat t ts of Some r \<Rightarrow> Inr ((), r) | None \<Rightarrow> Inl (Got (''expected '' @ what) (peek ts)))"

definition expect_ident_eq :: "string \<Rightarrow> 'f kql_token list \<Rightarrow> ('f, unit) parsed" where
  "expect_ident_eq lit ts = (case eat (TIdent lit) ts of Some r \<Rightarrow> Inr ((), r) | None \<Rightarrow> Inl (Got (''expected `'' @ lit @ ''`'') (peek ts)))"

definition ident_or :: "string \<Rightarrow> 'f kql_token list \<Rightarrow> ('f, string) parsed" where
  "ident_or what ts = pbind (bump ts) (\<lambda>t r. case t of TIdent s \<Rightarrow> Inr (s, r) | _ \<Rightarrow> Inl (Got what (Some t)))"

definition expect_ident :: "'f kql_token list \<Rightarrow> ('f, string) parsed" where
  "expect_ident ts = ident_or ''expected identifier'' ts"

definition eat_ident_eq :: "string \<Rightarrow> 'f kql_token list \<Rightarrow> bool \<times> 'f kql_token list" where
  "eat_ident_eq kw ts = (case eat (TIdent kw) ts of Some r \<Rightarrow> (True, r) | None \<Rightarrow> (False, ts))"

definition peek_ident :: "string \<Rightarrow> 'f kql_token list \<Rightarrow> bool" where
  "peek_ident kw ts \<longleftrightarrow> peek ts = Some (TIdent kw)"

text \<open>\<open>loop { item; if !eat(sep) { break } }\<close>\<close>

fun sep_list :: "nat \<Rightarrow> 'f kql_token \<Rightarrow> ('f kql_token list \<Rightarrow> ('f, 'a) parsed) \<Rightarrow> 'f kql_token list \<Rightarrow> ('f, 'a list) parsed" where
  "sep_list n sep p ts = pbind (p ts) (\<lambda>x r.
     case eat sep r of
       None \<Rightarrow> Inr ([x], r)
     | Some r' \<Rightarrow> (case n of 0 \<Rightarrow> Inl Stuck | Suc n' \<Rightarrow> pbind (sep_list n' sep p r') (\<lambda>xs r''. Inr (x # xs, r''))))"

declare sep_list.simps [simp del]

definition items :: "('f kql_token list \<Rightarrow> ('f, 'a) parsed) \<Rightarrow> 'f kql_token list \<Rightarrow> ('f, 'a list) parsed" where
  "items p ts = sep_list (length ts) TComma p ts"

text \<open>\<open>while let Some(op) = ... { rhs; lhs = op(lhs, rhs) }\<close>\<close>

fun chain_loop :: "nat \<Rightarrow> ('f kql_token \<Rightarrow> (string \<Rightarrow> string \<Rightarrow> string) option) \<Rightarrow> ('f kql_token list \<Rightarrow> ('f, string) parsed)
    \<Rightarrow> string \<Rightarrow> 'f kql_token list \<Rightarrow> ('f, string) parsed" where
  "chain_loop n opf p lhs ts =
     (case ts of
        [] \<Rightarrow> Inr (lhs, ts)
      | t # r \<Rightarrow>
          (case opf t of
             None \<Rightarrow> Inr (lhs, ts)
           | Some f \<Rightarrow> (case n of 0 \<Rightarrow> Inl Stuck | Suc n' \<Rightarrow> pbind (p r) (\<lambda>rhs r'. chain_loop n' opf p (f lhs rhs) r'))))"

declare chain_loop.simps [simp del]

definition left_assoc :: "('f kql_token \<Rightarrow> (string \<Rightarrow> string \<Rightarrow> string) option) \<Rightarrow> ('f kql_token list \<Rightarrow> ('f, string) parsed)
    \<Rightarrow> 'f kql_token list \<Rightarrow> ('f, string) parsed" where
  "left_assoc opf p ts = pbind (p ts) (\<lambda>lhs r. chain_loop (length r) opf p lhs r)"

section \<open>SQL identifiers and literals\<close>

fun join :: "string \<Rightarrow> string list \<Rightarrow> string" where
  "join sep [] = []"
| "join sep [x] = x"
| "join sep (x # y # xs) = x @ sep @ join sep (y # xs)"

text \<open>\<open>s.replace(q, qq)\<close> and \<open>s.replace(qq, q)\<close>\<close>

fun double_quotes :: "char \<Rightarrow> string \<Rightarrow> string" where
  "double_quotes q [] = []"
| "double_quotes q (c # cs) = (if c = q then q # q # double_quotes q cs else c # double_quotes q cs)"

fun undouble_quotes :: "char \<Rightarrow> string \<Rightarrow> string" where
  "undouble_quotes q (c # d # cs) = (if c = q \<and> d = q then q # undouble_quotes q cs else c # undouble_quotes q (d # cs))"
| "undouble_quotes q cs = cs"

definition sql_string :: "string \<Rightarrow> string" where
  "sql_string s = [squote] @ double_quotes squote s @ [squote]"

definition SQL_RESERVED :: "string list" where
  "SQL_RESERVED =
    [''all'', ''and'', ''any'', ''array'', ''as'', ''asc'', ''asymmetric'', ''authorization'',
     ''between'', ''both'', ''by'', ''case'', ''cast'', ''check'', ''collate'', ''column'',
     ''constraint'', ''create'', ''cross'', ''current'', ''current_date'', ''current_role'',
     ''current_time'', ''current_timestamp'', ''current_user'', ''default'',
     ''deferrable'', ''deferred'', ''delete'', ''desc'', ''distinct'', ''do'', ''else'',
     ''end'', ''except'', ''exists'', ''false'', ''fetch'', ''for'', ''foreign'', ''from'',
     ''full'', ''grant'', ''group'', ''having'', ''in'', ''initially'', ''inner'', ''intersect'',
     ''into'', ''is'', ''join'', ''leading'', ''left'', ''like'', ''limit'', ''localtime'',
     ''localtimestamp'', ''natural'', ''not'', ''null'', ''offset'', ''on'', ''only'', ''or'',
     ''order'', ''outer'', ''overlaps'', ''placing'', ''primary'', ''references'', ''right'',
     ''select'', ''session_user'', ''similar'', ''some'', ''symmetric'', ''table'', ''then'',
     ''to'', ''trailing'', ''true'', ''union'', ''unique'', ''user'', ''using'', ''variadic'',
     ''verbose'', ''when'', ''where'', ''window'', ''with'']"

definition structurally_simple :: "string \<Rightarrow> bool" where
  "structurally_simple name \<longleftrightarrow> list_all (\<lambda>c. is_ascii_alphanumeric c \<or> c = CHR ''_'') name \<and>
     (case name of [] \<Rightarrow> False | c # _ \<Rightarrow> \<not> is_ascii_digit c)"

definition quote_ident :: "string \<Rightarrow> string" where
  "quote_ident name =
     (if structurally_simple name \<and> map to_ascii_lowercase name \<notin> set SQL_RESERVED then name
      else [dquote] @ double_quotes dquote name @ [dquote])"

text \<open>
  The number of seconds that the code computes here is not used; without overflow checks its product wraps.
\<close>

definition duration_to_sql_interval :: "string \<Rightarrow> 'f parse_error + string" where
  "duration_to_sql_interval d =
     (let n = butlast d; u = last d in
      if d = [] then Inl Panicked
      else case parse_i64 n of
        Inl _ \<Rightarrow> Inl (ParseError (''bad duration literal: '' @ d))
      | Inr k \<Rightarrow>
          if u \<in> {CHR ''s'', CHR ''m'', CHR ''h'', CHR ''d''} then
            Inr (''INTERVAL '' @ [squote] @ show_int k @ '' '' @
              (if u = CHR ''s'' then ''second'' else if u = CHR ''m'' then ''minute'' else if u = CHR ''h'' then ''hour'' else ''day'') @ [squote])
          else Inl (ParseError (''unknown duration unit: '' @ [u])))"

definition strip_outer_quotes :: "string \<Rightarrow> string" where
  "strip_outer_quotes s =
     (if s \<noteq> [] \<and> hd s = squote \<and> last s = squote \<and> 2 \<le> length s then undouble_quotes squote (butlast (tl s)) else s)"

definition add_like_right :: "string \<Rightarrow> string" where
  "add_like_right lit = [squote] @ double_quotes squote (strip_outer_quotes lit) @ ''%'' @ [squote]"

definition add_like_left :: "string \<Rightarrow> string" where
  "add_like_left lit = [squote] @ ''%'' @ double_quotes squote (strip_outer_quotes lit) @ [squote]"

definition add_like_both :: "string \<Rightarrow> string" where
  "add_like_both lit = [squote] @ ''%'' @ double_quotes squote (strip_outer_quotes lit) @ ''%'' @ [squote]"

section \<open>Function calls\<close>

definition paren :: "string \<Rightarrow> string" where
  "paren s = ''('' @ s @ '')''"

definition call :: "string \<Rightarrow> string \<Rightarrow> string" where
  "call f x = f @ paren x"

definition func_table0 :: "(string \<times> string) list" where
  "func_table0 = [(''now'', ''now()''), (''count'', ''count(*)'')]"

definition func_table1 :: "(string \<times> (string \<Rightarrow> string)) list" where
  "func_table1 =
    [(''ago'', \<lambda>d. paren (''now() - '' @ d)),
     (''startofhour'', \<lambda>c. call ''date_trunc'' (sql_string ''hour'' @ '', '' @ c)),
     (''startofday'', \<lambda>c. call ''date_trunc'' (sql_string ''day'' @ '', '' @ c)),
     (''startofmonth'', \<lambda>c. call ''date_trunc'' (sql_string ''month'' @ '', '' @ c)),
     (''datetime'', \<lambda>x. call ''CAST'' (x @ '' AS TIMESTAMP'')),
     (''tolower'', call ''lower''), (''toupper'', call ''upper''), (''strlen'', call ''char_length''),
     (''isnull'', \<lambda>x. paren (x @ '' IS NULL'')), (''isnotnull'', \<lambda>x. paren (x @ '' IS NOT NULL'')),
     (''count'', call ''count''), (''sum'', call ''sum''), (''avg'', call ''avg''), (''min'', call ''min''), (''max'', call ''max''),
     (''make_list'', call ''array_agg''), (''dcount'', \<lambda>x. call ''count'' (''DISTINCT '' @ x))]"

definition func_table2 :: "(string \<times> (string \<Rightarrow> string \<Rightarrow> string)) list" where
  "func_table2 =
    [(''bin'', \<lambda>col bucket. call ''date_bin'' (bucket @ '', '' @ col @ '', TIMESTAMP '' @ sql_string ''1970-01-01 00:00:00'')),
     (''dcountif'', \<lambda>x c. call ''count'' (''DISTINCT CASE WHEN '' @ c @ '' THEN '' @ x @ '' ELSE NULL END''))]"

definition iff_sql :: "string \<Rightarrow> string \<Rightarrow> string \<Rightarrow> string" where
  "iff_sql c a b = paren (''CASE WHEN '' @ c @ '' THEN '' @ a @ '' ELSE '' @ b @ '' END'')"

definition func_table :: "string \<Rightarrow> string list \<Rightarrow> string option" where
  "func_table name args =
     (case args of
        [] \<Rightarrow> map_of func_table0 name
      | [x] \<Rightarrow> map_option (\<lambda>f. f x) (map_of func_table1 name)
      | [x, y] \<Rightarrow> map_option (\<lambda>f. f x y) (map_of func_table2 name)
      | [c, a, b] \<Rightarrow> if name = ''iff'' then Some (iff_sql c a b) else None
      | _ \<Rightarrow> None)"

definition func_sql :: "string \<Rightarrow> string list \<Rightarrow> 'f parse_error + string" where
  "func_sql name args =
     (if name = ''strcat'' then Inr (call ''concat'' (join '', '' args))
      else case func_table name args of
        Some s \<Rightarrow> Inr s
      | None \<Rightarrow> Inl (ParseError (''unsupported function: '' @ name @ ''/'' @ show_nat (length args))))"

section \<open>The levels of the expression grammar\<close>

definition infix_op :: "string \<Rightarrow> string \<Rightarrow> string \<Rightarrow> string" where
  "infix_op op l r = paren (l @ '' '' @ op @ '' '' @ r)"

definition parse_func_call :: "('f kql_token list \<Rightarrow> ('f, string) parsed) \<Rightarrow> string \<Rightarrow> 'f kql_token list \<Rightarrow> ('f, string) parsed" where
  "parse_func_call E name ts =
     pbind (case eat TRParen ts of
              Some r \<Rightarrow> Inr ([], r)
            | None \<Rightarrow> pbind (items E ts) (\<lambda>xs r. pbind (expect TRParen ''`)`'' r) (\<lambda>_ r. Inr (xs, r))))
       (\<lambda>args r. bindE (func_sql name args) (\<lambda>s. Inr (s, r)))"

definition parse_atom :: "'f floats \<Rightarrow> ('f kql_token list \<Rightarrow> ('f, string) parsed) \<Rightarrow> 'f kql_token list \<Rightarrow> ('f, string) parsed" where
  "parse_atom fl E ts = pbind (bump ts) (\<lambda>t r.
     case t of
       TInt n \<Rightarrow> Inr (show_int n, r)
     | TFloat f \<Rightarrow> Inr (show_f64 fl f, r)
     | TStr s \<Rightarrow> Inr (sql_string s, r)
     | TDuration d \<Rightarrow> bindE (duration_to_sql_interval d) (\<lambda>s. Inr (s, r))
     | TLParen \<Rightarrow> pbind (E r) (\<lambda>inner r. pbind (expect TRParen ''`)`'' r) (\<lambda>_ r. Inr (paren inner, r)))
     | TStar \<Rightarrow> Inr (''*'', r)
     | TIdent name \<Rightarrow>
         (case eat TLParen r of
            Some r' \<Rightarrow> parse_func_call E name r'
          | None \<Rightarrow>
              if peek r = Some TDot
              then Inl (ParseError (''dotted path `'' @ name @ ''...` not yet supported (dynamic columns land with format-v1)''))
              else Inr (if name = ''true'' then ''TRUE'' else if name = ''false'' then ''FALSE'' else if name = ''null'' then ''NULL''
                        else quote_ident name, r))
     | _ \<Rightarrow> Inl (Got ''unexpected token in expression'' (Some t)))"

fun parse_unary :: "'f floats \<Rightarrow> ('f kql_token list \<Rightarrow> ('f, string) parsed) \<Rightarrow> 'f kql_token list \<Rightarrow> ('f, string) parsed" where
  "parse_unary fl E [] = parse_atom fl E []"
| "parse_unary fl E (t # r) =
     (if t = TMinus then pbind (parse_unary fl E r) (\<lambda>inner r'. Inr (''(-'' @ inner @ '')'', r'))
      else parse_atom fl E (t # r))"

definition mul_op :: "'f kql_token \<Rightarrow> (string \<Rightarrow> string \<Rightarrow> string) option" where
  "mul_op t = (case t of TStar \<Rightarrow> Some (infix_op ''*'') | TSlash \<Rightarrow> Some (infix_op ''/'') | TPercent \<Rightarrow> Some (infix_op ''%'') | _ \<Rightarrow> None)"

definition parse_multiplicative :: "'f floats \<Rightarrow> ('f kql_token list \<Rightarrow> ('f, string) parsed) \<Rightarrow> 'f kql_token list \<Rightarrow> ('f, string) parsed" where
  "parse_multiplicative fl E ts = left_assoc mul_op (parse_unary fl E) ts"

definition add_op :: "'f kql_token \<Rightarrow> (string \<Rightarrow> string \<Rightarrow> string) option" where
  "add_op t = (case t of TPlus \<Rightarrow> Some (infix_op ''+'') | TMinus \<Rightarrow> Some (infix_op ''-'') | _ \<Rightarrow> None)"

definition parse_additive :: "'f floats \<Rightarrow> ('f kql_token list \<Rightarrow> ('f, string) parsed) \<Rightarrow> 'f kql_token list \<Rightarrow> ('f, string) parsed" where
  "parse_additive fl E ts = left_assoc add_op (parse_multiplicative fl E) ts"

definition cmp_op :: "'f kql_token \<Rightarrow> (string \<Rightarrow> string \<Rightarrow> string) option" where
  "cmp_op t = (case t of
     TEq \<Rightarrow> Some (infix_op ''='') | TNe \<Rightarrow> Some (infix_op ''<>'') | TLt \<Rightarrow> Some (infix_op ''<'') | TLe \<Rightarrow> Some (infix_op ''<='')
   | TGt \<Rightarrow> Some (infix_op ''>'') | TGe \<Rightarrow> Some (infix_op ''>='')
   | TIdent s \<Rightarrow> map_of [(''contains'', \<lambda>l r. infix_op ''LIKE'' l (add_like_both r)), (''startswith'', \<lambda>l r. infix_op ''LIKE'' l (add_like_right r)),
       (''endswith'', \<lambda>l r. infix_op ''LIKE'' l (add_like_left r)), (''has'', \<lambda>l r. infix_op ''LIKE'' l (add_like_both r))] s
   | _ \<Rightarrow> None)"

definition peek_in :: "'f kql_token list \<Rightarrow> bool" where
  "peek_in ts \<longleftrightarrow> (case peek ts of Some (TIdent s) \<Rightarrow> map to_ascii_lowercase s = ''in'' | _ \<Rightarrow> False)"

definition between_sql :: "string \<Rightarrow> string \<Rightarrow> string \<Rightarrow> string" where
  "between_sql l low high = paren (paren (l @ '' >= '' @ low) @ '' AND '' @ paren (l @ '' <= '' @ high))"

definition in_sql :: "string \<Rightarrow> string list \<Rightarrow> string" where
  "in_sql l vs = paren (l @ '' IN '' @ paren (join '', '' vs))"

definition parse_comparison :: "'f floats \<Rightarrow> ('f kql_token list \<Rightarrow> ('f, string) parsed) \<Rightarrow> 'f kql_token list \<Rightarrow> ('f, string) parsed" where
  "parse_comparison fl E ts = pbind (parse_additive fl E ts) (\<lambda>lhs r.
     if peek_ident ''between'' r then
       pbind (expect TLParen ''`(`'' (tl r)) (\<lambda>_ r. pbind (parse_additive fl E r) (\<lambda>low r.
       pbind (expect TDotDot ''`..`'' r) (\<lambda>_ r. pbind (parse_additive fl E r) (\<lambda>high r.
       pbind (expect TRParen ''`)`'' r) (\<lambda>_ r. Inr (between_sql lhs low high, r))))))
     else if peek_in r then
       pbind (expect TLParen ''`(` after `in`'' (tl r)) (\<lambda>_ r. pbind (items (parse_additive fl E) r) (\<lambda>vs r.
       pbind (expect TRParen ''`)`'' r) (\<lambda>_ r. Inr (in_sql lhs vs, r))))
     else (case peek r of
       None \<Rightarrow> Inr (lhs, r)
     | Some t \<Rightarrow>
         (case cmp_op t of
            None \<Rightarrow> Inr (lhs, r)
          | Some f \<Rightarrow> pbind (parse_additive fl E (tl r)) (\<lambda>rhs r. Inr (f lhs rhs, r)))))"

fun parse_not :: "'f floats \<Rightarrow> ('f kql_token list \<Rightarrow> ('f, string) parsed) \<Rightarrow> 'f kql_token list \<Rightarrow> ('f, string) parsed" where
  "parse_not fl E [] = parse_comparison fl E []"
| "parse_not fl E (t # r) =
     (if t = TIdent ''not'' then pbind (parse_not fl E r) (\<lambda>inner r'. Inr (paren (''NOT '' @ inner), r'))
      else parse_comparison fl E (t # r))"

definition and_op :: "'f kql_token \<Rightarrow> (string \<Rightarrow> string \<Rightarrow> string) option" where
  "and_op t = (if t = TIdent ''and'' then Some (infix_op ''AND'') else None)"

definition parse_and :: "'f floats \<Rightarrow> ('f kql_token list \<Rightarrow> ('f, string) parsed) \<Rightarrow> 'f kql_token list \<Rightarrow> ('f, string) parsed" where
  "parse_and fl E ts = left_assoc and_op (parse_not fl E) ts"

definition or_op :: "'f kql_token \<Rightarrow> (string \<Rightarrow> string \<Rightarrow> string) option" where
  "or_op t = (if t = TIdent ''or'' then Some (infix_op ''OR'') else None)"

definition parse_or :: "'f floats \<Rightarrow> ('f kql_token list \<Rightarrow> ('f, string) parsed) \<Rightarrow> 'f kql_token list \<Rightarrow> ('f, string) parsed" where
  "parse_or fl E ts = left_assoc or_op (parse_and fl E) ts"

fun parse_expr_upto :: "'f floats \<Rightarrow> nat \<Rightarrow> 'f kql_token list \<Rightarrow> ('f, string) parsed" where
  "parse_expr_upto fl 0 ts = Inl Stuck"
| "parse_expr_upto fl (Suc n) ts = parse_or fl (parse_expr_upto fl n) ts"

definition parse_expr :: "'f floats \<Rightarrow> 'f kql_token list \<Rightarrow> ('f, string) parsed" where
  "parse_expr fl ts = parse_expr_upto fl (Suc (length ts)) ts"

end
