(* ===== verification/Kql_Query.thy ===== *)
theory Kql_Query
  imports Kql_Expr
begin

text \<open>
  The query state of \<open>pensieve-kql/src/state.rs\<close> and the operators of \<open>pensieve-kql/src/parser.rs\<close>: a
  pipeline of operators fills the state, which is rendered as one SQL statement in the end. An operator
  is a function of the state and the tokens; the order of its updates does not show, since an
  error drops the state.
\<close>

section \<open>The query state\<close>

record graph_def =
  gd_edge_table :: string
  gd_src_col :: string
  gd_dst_col :: string
  gd_node_table :: string
  gd_id_col :: string

record query_state =
  q_table :: string
  q_root :: string
  q_select :: "string list"
  q_exclude :: "string list"
  q_extend :: "(string \<times> string) list"
  q_where :: "string list"
  q_group_by :: "string list"
  q_aggregates :: "string list"
  q_order_by :: "(string \<times> bool) list"
  q_limit :: "nat option"
  q_distinct :: bool
  q_graph_def :: "graph_def option"
  q_ctes :: "(string \<times> string \<times> bool) list"
  q_aggregated :: bool
  q_agg_seq :: nat

definition query_state_new :: "string \<Rightarrow> query_state" where
  "query_state_new t = \<lparr>q_table = t, q_root = t, q_select = [], q_exclude = [], q_extend = [], q_where = [], q_group_by = [],
     q_aggregates = [], q_order_by = [], q_limit = None, q_distinct = False, q_graph_def = None, q_ctes = [],
     q_aggregated = False, q_agg_seq = 0\<rparr>"

definition root_table :: "query_state \<Rightarrow> string" where
  "root_table q = q_root q"

definition where_sql :: "string list \<Rightarrow> string" where
  "where_sql ws = (if ws = [] then [] else '' WHERE '' @ join '' AND '' ws)"

definition group_sql :: "string list \<Rightarrow> string" where
  "group_sql gs = (if gs = [] then [] else '' GROUP BY '' @ join '', '' gs)"

definition rebase_aggregation :: "query_state \<Rightarrow> query_state" where
  "rebase_aggregation q =
     (let body = ''SELECT '' @ join '', '' (q_group_by q @ q_aggregates q) @ '' FROM '' @ q_table q @ where_sql (q_where q) @ group_sql (q_group_by q);
          name = ''_agg'' @ show_nat (q_agg_seq q)
      in q\<lparr>q_agg_seq := q_agg_seq q + 1, q_ctes := q_ctes q @ [(name, body, False)], q_table := name, q_select := [], q_exclude := [],
           q_extend := [], q_where := [], q_group_by := [], q_aggregates := [], q_order_by := [], q_limit := None, q_distinct := False,
           q_aggregated := False\<rparr>)"

definition as_sql :: "string \<Rightarrow> string \<Rightarrow> string" where
  "as_sql e name = paren e @ '' AS '' @ name"

definition select_item :: "(string \<times> string) list \<Rightarrow> string \<Rightarrow> string" where
  "select_item ext col = (case List.find (\<lambda>(n, _). n = col) ext of Some (_, e) \<Rightarrow> as_sql e col | None \<Rightarrow> col)"

definition select_clause :: "query_state \<Rightarrow> string" where
  "select_clause q =
     join '', ''
      (if q_aggregates q \<noteq> [] then q_group_by q @ q_aggregates q
       else if q_distinct q \<and> q_select q = [] then
         (if q_extend q = [] then [''*''] else map (\<lambda>(n, e). as_sql e n) (q_extend q))
       else if q_select q \<noteq> [] then map (select_item (q_extend q)) (q_select q)
       else (if q_exclude q = [] then ''*'' else ''* EXCEPT '' @ paren (join '', '' (q_exclude q))) # map (\<lambda>(n, e). as_sql e n) (q_extend q))"

definition cte_sql :: "string \<times> string \<times> bool \<Rightarrow> string" where
  "cte_sql c = (case c of (name, body, _) \<Rightarrow> name @ '' AS '' @ paren body)"

definition render_cte_prelude :: "query_state \<Rightarrow> string" where
  "render_cte_prelude q =
     (if q_ctes q = [] then []
      else (if list_ex (\<lambda>(_, _, r). r) (q_ctes q) then ''WITH RECURSIVE '' else ''WITH '') @ join '', '' (map cte_sql (q_ctes q)) @ '' '')"

definition order_sql :: "(string \<times> bool) list \<Rightarrow> string" where
  "order_sql os = (if os = [] then [] else '' ORDER BY '' @ join '', '' (map (\<lambda>(c, desc). c @ (if desc then '' DESC'' else '' ASC'')) os))"

definition limit_sql :: "nat option \<Rightarrow> string" where
  "limit_sql l = (case l of None \<Rightarrow> [] | Some n \<Rightarrow> '' LIMIT '' @ show_nat n)"

definition to_sql :: "query_state \<Rightarrow> string" where
  "to_sql q = render_cte_prelude q @ ''SELECT '' @ (if q_distinct q \<and> q_aggregates q = [] then ''DISTINCT '' else []) @ select_clause q @
     '' FROM '' @ q_table q @ where_sql (q_where q) @ group_sql (q_group_by q) @ order_sql (q_order_by q) @ limit_sql (q_limit q)"

section \<open>Pipeline operators\<close>

definition rebased :: "query_state \<Rightarrow> query_state" where
  "rebased q = (if q_aggregated q then rebase_aggregation q else q)"

definition op_where :: "'f floats \<Rightarrow> query_state \<Rightarrow> 'f kql_token list \<Rightarrow> ('f, query_state) parsed" where
  "op_where fl q ts = pbind (parse_expr fl ts) (\<lambda>e r. let q = rebased q in Inr (q\<lparr>q_where := q_where q @ [e]\<rparr>, r))"

definition op_project :: "bool \<Rightarrow> query_state \<Rightarrow> 'f kql_token list \<Rightarrow> ('f, query_state) parsed" where
  "op_project away q ts = pbind (items (ident_or ''expected column name after project'') ts) (\<lambda>names r.
     let q = rebased q; cols = map quote_ident names in
     Inr (if away then q\<lparr>q_exclude := q_exclude q @ cols\<rparr> else q\<lparr>q_select := cols\<rparr>, r))"

definition extend_item :: "'f floats \<Rightarrow> 'f kql_token list \<Rightarrow> ('f, string \<times> string) parsed" where
  "extend_item fl ts = pbind (ident_or ''expected name in extend'' ts) (\<lambda>name r. pbind (expect TAssign ''`=`'' r) (\<lambda>_ r.
     pbind (parse_expr fl r) (\<lambda>e r. Inr ((quote_ident name, e), r))))"

definition op_extend :: "'f floats \<Rightarrow> query_state \<Rightarrow> 'f kql_token list \<Rightarrow> ('f, query_state) parsed" where
  "op_extend fl q ts = pbind (items (extend_item fl) ts) (\<lambda>xs r. Inr (q\<lparr>q_extend := q_extend q @ xs\<rparr>, r))"

text \<open>\<open>trim_matches('_')\<close>; a multi-byte character is one underscore.\<close>

definition trim_underscores :: "string \<Rightarrow> string" where
  "trim_underscores s = rev (dropWhile (\<lambda>c. c = CHR ''_'') (rev (dropWhile (\<lambda>c. c = CHR ''_'') s)))"

definition implicit_agg_alias :: "string \<Rightarrow> string" where
  "implicit_agg_alias e =
     (let chars = filter (\<lambda>c. \<not> (128 \<le> (of_char c :: nat) \<and> (of_char c :: nat) < 192)) e;
          i = trim_underscores (map (\<lambda>c. if is_ascii_alphanumeric c then c else CHR ''_'') chars)
      in if i = [] then ''expr'' else take 40 i)"

definition ident_of :: "'f kql_token \<Rightarrow> string option" where
  "ident_of t = (case t of TIdent s \<Rightarrow> Some s | _ \<Rightarrow> None)"

definition try_alias :: "'f kql_token list \<Rightarrow> string option \<times> 'f kql_token list" where
  "try_alias ts = (case ts of t # u # r \<Rightarrow> (case ident_of t of Some a \<Rightarrow> if u = TAssign then (Some (quote_ident a), r) else (None, ts) | None \<Rightarrow> (None, ts)) | _ \<Rightarrow> (None, ts))"

definition agg_item :: "'f floats \<Rightarrow> 'f kql_token list \<Rightarrow> ('f, string) parsed" where
  "agg_item fl ts = (case try_alias ts of (alias, r) \<Rightarrow> pbind (parse_expr fl r) (\<lambda>e r.
     Inr (as_sql e (case alias of Some a \<Rightarrow> a | None \<Rightarrow> implicit_agg_alias e), r)))"

definition op_summarize :: "'f floats \<Rightarrow> query_state \<Rightarrow> 'f kql_token list \<Rightarrow> ('f, query_state) parsed" where
  "op_summarize fl q ts = pbind (items (agg_item fl) ts) (\<lambda>aggs r.
     pbind (if peek_ident ''by'' r then items (parse_expr fl) (tl r) else Inr ([], r)) (\<lambda>keys r.
     Inr (q\<lparr>q_aggregates := q_aggregates q @ aggs, q_group_by := q_group_by q @ keys, q_aggregated := True\<rparr>, r)))"

definition int_or :: "string \<Rightarrow> 'f kql_token list \<Rightarrow> ('f, nat) parsed" where
  "int_or what ts = pbind (bump ts) (\<lambda>t r. case t of
     TInt n \<Rightarrow> if 0 \<le> n then Inr (nat n, r) else Inl (Got what (Some t)) | _ \<Rightarrow> Inl (Got what (Some t)))"

definition op_take :: "query_state \<Rightarrow> 'f kql_token list \<Rightarrow> ('f, query_state) parsed" where
  "op_take q ts = pbind (int_or ''`take` expects integer'' ts) (\<lambda>n r. Inr (q\<lparr>q_limit := Some n\<rparr>, r))"

text \<open>An optional \<open>asc\<close> or \<open>desc\<close>; the default is descending.\<close>

definition sort_dir :: "'f kql_token list \<Rightarrow> bool \<times> 'f kql_token list" where
  "sort_dir ts = (if peek_ident ''asc'' ts then (False, tl ts) else if peek_ident ''desc'' ts then (True, tl ts) else (True, ts))"

definition sort_item :: "'f floats \<Rightarrow> 'f kql_token list \<Rightarrow> ('f, string \<times> bool) parsed" where
  "sort_item fl ts = pbind (parse_expr fl ts) (\<lambda>e r. case sort_dir r of (d, r) \<Rightarrow> Inr ((e, d), r))"

definition op_sort :: "'f floats \<Rightarrow> query_state \<Rightarrow> 'f kql_token list \<Rightarrow> ('f, query_state) parsed" where
  "op_sort fl q ts = pbind (expect_ident_eq ''by'' ts) (\<lambda>_ r. pbind (items (sort_item fl) r) (\<lambda>xs r. Inr (q\<lparr>q_order_by := q_order_by q @ xs\<rparr>, r)))"

definition op_top :: "'f floats \<Rightarrow> query_state \<Rightarrow> 'f kql_token list \<Rightarrow> ('f, query_state) parsed" where
  "op_top fl q ts = pbind (int_or ''`top` expects integer'' ts) (\<lambda>n r. pbind (expect_ident_eq ''by'' r) (\<lambda>_ r.
     pbind (sort_item fl r) (\<lambda>x r. Inr (q\<lparr>q_order_by := q_order_by q @ [x], q_limit := Some n\<rparr>, r))))"

definition op_count :: "query_state \<Rightarrow> 'f kql_token list \<Rightarrow> ('f, query_state) parsed" where
  "op_count q ts = Inr (q\<lparr>q_aggregates := q_aggregates q @ [''count(*) AS '' @ [dquote] @ ''Count'' @ [dquote]]\<rparr>, ts)"

fun distinct_cols :: "'f kql_token list \<Rightarrow> string list \<times> 'f kql_token list" where
  "distinct_cols [] = ([], [])"
| "distinct_cols [t] = (case ident_of t of Some s \<Rightarrow> ([quote_ident s], []) | None \<Rightarrow> ([], [t]))"
| "distinct_cols (t # u # r) =
     (case ident_of t of
        None \<Rightarrow> ([], t # u # r)
      | Some s \<Rightarrow> if u = TComma then (case distinct_cols r of (cs, r') \<Rightarrow> (quote_ident s # cs, r')) else ([quote_ident s], u # r))"

definition op_distinct :: "query_state \<Rightarrow> 'f kql_token list \<Rightarrow> ('f, query_state) parsed" where
  "op_distinct q ts = (case distinct_cols ts of (cs, r) \<Rightarrow>
     Inr (q\<lparr>q_distinct := True, q_select := (if cs = [] then q_select q else cs)\<rparr>, r))"

section \<open>Graph operators\<close>

datatype graph_direction = GForward | GBackward | GBoth

definition column_or :: "string \<Rightarrow> 'f kql_token list \<Rightarrow> ('f, string) parsed" where
  "column_or what ts = pbind (ident_or what ts) (\<lambda>s r. Inr (quote_ident s, r))"

definition parse_direction :: "'f kql_token list \<Rightarrow> ('f, graph_direction) parsed" where
  "parse_direction ts =
     (if peek_ident ''direction'' ts then pbind (ident_or ''expected direction keyword'' (tl ts)) (\<lambda>s r.
        if s = ''forward'' then Inr (GForward, r) else if s = ''backward'' then Inr (GBackward, r)
        else if s = ''both'' then Inr (GBoth, r) else Inl (ParseError (''unknown direction: '' @ s)))
      else Inr (GForward, ts))"

definition parse_graph_preamble :: "'f kql_token list \<Rightarrow> ('f, string \<times> string \<times> nat \<times> graph_direction) parsed" where
  "parse_graph_preamble ts =
     pbind (expect_ident_eq ''from'' ts) (\<lambda>_ r. pbind (column_or ''expected `from` column name'' r) (\<lambda>src r.
     pbind (expect_ident_eq ''to'' r) (\<lambda>_ r. pbind (column_or ''expected `to` column name'' r) (\<lambda>dst r.
     pbind (expect_ident_eq ''max-hops'' r) (\<lambda>_ r. pbind (int_or ''expected positive integer after `max-hops`'' r) (\<lambda>n r.
     pbind (parse_direction r) (\<lambda>d r. Inr ((src, dst, n, d), r))))))))"

definition parse_scalar_literal :: "'f floats \<Rightarrow> 'f kql_token list \<Rightarrow> ('f, string) parsed" where
  "parse_scalar_literal fl ts = pbind (bump ts) (\<lambda>t r. case t of
     TStr s \<Rightarrow> Inr (sql_string s, r) | TInt n \<Rightarrow> Inr (show_int n, r) | TFloat f \<Rightarrow> Inr (show_f64 fl f, r)
   | _ \<Rightarrow> Inl (Got ''expected literal'' (Some t)))"

definition parse_source_seeds :: "'f floats \<Rightarrow> 'f kql_token list \<Rightarrow> ('f, string list) parsed" where
  "parse_source_seeds fl ts =
     (case eat TLParen ts of
        Some r \<Rightarrow> pbind (items (parse_scalar_literal fl) r) (\<lambda>seeds r.
          case eat TRParen r of
            None \<Rightarrow> Inl (ParseError (''expected '' @ [squote] @ '')'' @ [squote] @ '' to close source list''))
          | Some r \<Rightarrow> Inr (seeds, r))
      | None \<Rightarrow> pbind (parse_scalar_literal fl ts) (\<lambda>x r. Inr ([x], r)))"

definition parse_edge_type :: "'f floats \<Rightarrow> 'f kql_token list \<Rightarrow> ('f, string option) parsed" where
  "parse_edge_type fl ts =
     (if peek_ident ''edge-type'' ts then pbind (parse_scalar_literal fl (tl ts)) (\<lambda>v r. Inr (Some v, r)) else Inr (None, ts))"

text \<open>The condition on the edge type, whose value is SQL already.\<close>

definition type_cond :: "string \<Rightarrow> string \<Rightarrow> string" where
  "type_cond e v = e @ ''.'' @ [dquote] @ ''type'' @ [dquote] @ '' = '' @ v"

definition and_type :: "string option \<Rightarrow> string" where
  "and_type t = (case t of None \<Rightarrow> [] | Some v \<Rightarrow> '' AND '' @ type_cond ''e'' v)"

definition next_node :: "string \<Rightarrow> string \<Rightarrow> string \<Rightarrow> graph_direction \<Rightarrow> string" where
  "next_node v src dst d = (case d of
     GForward \<Rightarrow> ''e.'' @ dst
   | GBackward \<Rightarrow> ''e.'' @ src
   | GBoth \<Rightarrow> ''CASE WHEN e.'' @ src @ '' = '' @ v @ ''.node THEN e.'' @ dst @ '' ELSE e.'' @ src @ '' END'')"

definition join_cond :: "string \<Rightarrow> string \<Rightarrow> string \<Rightarrow> graph_direction \<Rightarrow> string" where
  "join_cond v src dst d = (case d of
     GForward \<Rightarrow> ''e.'' @ src @ '' = '' @ v @ ''.node''
   | GBackward \<Rightarrow> ''e.'' @ dst @ '' = '' @ v @ ''.node''
   | GBoth \<Rightarrow> paren (''e.'' @ src @ '' = '' @ v @ ''.node OR e.'' @ dst @ '' = '' @ v @ ''.node''))"

definition build_recursive_step :: "string \<Rightarrow> string \<Rightarrow> graph_direction \<Rightarrow> string" where
  "build_recursive_step src dst d = next_node ''t'' src dst d @ '', t.depth + 1''"

definition build_recursive_step_with_src :: "string \<Rightarrow> string \<Rightarrow> graph_direction \<Rightarrow> string" where
  "build_recursive_step_with_src src dst d = next_node ''t'' src dst d @ '', t.depth + 1, t.node''"

definition cast_varchar :: "string \<Rightarrow> string" where
  "cast_varchar s = call ''CAST'' (s @ '' AS VARCHAR'')"

definition seed_values :: "string list \<Rightarrow> string" where
  "seed_values seeds = join '', '' (map (\<lambda>s. paren (cast_varchar s)) seeds)"

definition push_cte :: "string \<Rightarrow> string \<Rightarrow> bool \<Rightarrow> query_state \<Rightarrow> query_state" where
  "push_cte name body rec q = q\<lparr>q_ctes := q_ctes q @ [(name, body, rec)]\<rparr>"

definition traverse_anchor :: "string list \<Rightarrow> string" where
  "traverse_anchor seeds = (case seeds of
     [s] \<Rightarrow> ''SELECT '' @ cast_varchar s @ '' AS node, 0 AS depth, '' @ cast_varchar s @ '' AS path_src''
   | _ \<Rightarrow> ''SELECT node, 0 AS depth, node AS path_src FROM '' @ paren (''VALUES '' @ seed_values seeds) @ '' AS _seeds(node)'')"

definition op_graph_traverse :: "'f floats \<Rightarrow> query_state \<Rightarrow> 'f kql_token list \<Rightarrow> ('f, query_state) parsed" where
  "op_graph_traverse fl q ts =
     pbind (expect_ident_eq ''source'' ts) (\<lambda>_ r. pbind (parse_source_seeds fl r) (\<lambda>seeds r.
     pbind (parse_graph_preamble r) (\<lambda>(src, dst, n, d) r. pbind (parse_edge_type fl r) (\<lambda>ty r.
     let tbl = q_table q;
         body = traverse_anchor seeds @ '' UNION ALL SELECT '' @ build_recursive_step_with_src src dst d @ '' FROM _gt t JOIN '' @ tbl @ '' e ON '' @
           join_cond ''t'' src dst d @ '' WHERE t.depth < '' @ show_nat n @ and_type ty;
         q1 = push_cte ''_gt(node, depth, path_src)'' body True q;
         q2 = push_cte ''_gt_min'' ''SELECT node, path_src, MIN(depth) AS depth FROM _gt GROUP BY node, path_src'' False q1;
         q3 = push_cte ''_gt_result'' (''SELECT e.*, m.depth FROM _gt_min m JOIN '' @ tbl @ '' e ON e.'' @ src @ '' = m.path_src AND e.'' @ dst @ '' = m.node'') False q2
     in Inr (q3\<lparr>q_table := ''_gt_result''\<rparr>, r)))))"

text \<open>The bounds of a variable-length operator; \<open>op\<close> is its name in the messages.\<close>

definition geq_sign :: string where "geq_sign = map char_of [226, 137, 165 :: nat]"
definition leq_sign :: string where "leq_sign = map char_of [226, 137, 164 :: nat]"

definition parse_hops :: "string \<Rightarrow> 'f kql_token list \<Rightarrow> ('f, nat \<times> nat) parsed" where
  "parse_hops op ts =
     pbind (expect_ident_eq ''min-hops'' ts) (\<lambda>_ r. pbind (int_or ''expected non-negative integer after `min-hops`'' r) (\<lambda>lo r.
     pbind (expect_ident_eq ''max-hops'' r) (\<lambda>_ r. pbind (int_or ''expected non-negative integer after `max-hops`'' r) (\<lambda>hi r.
     if hi = 0 then Inl (ParseError (op @ '': max-hops must be '' @ geq_sign @ '' 1''))
     else if hi < lo then Inl (ParseError (op @ '': min-hops ('' @ show_nat lo @ '') must be '' @ leq_sign @ '' max-hops ('' @ show_nat hi @ '')''))
     else Inr ((lo, hi), r)))))"

definition var_length_anchor :: "string list \<Rightarrow> string" where
  "var_length_anchor seeds = (case seeds of
     [s] \<Rightarrow> ''SELECT '' @ cast_varchar s @ '' AS origin, '' @ cast_varchar s @ '' AS node, 0 AS depth''
   | _ \<Rightarrow> ''SELECT node AS origin, node, 0 AS depth FROM '' @ paren (''VALUES '' @ seed_values seeds) @ '' AS _seeds(node)'')"

definition op_graph_var_length :: "'f floats \<Rightarrow> query_state \<Rightarrow> 'f kql_token list \<Rightarrow> ('f, query_state) parsed" where
  "op_graph_var_length fl q ts =
     pbind (expect_ident_eq ''source'' ts) (\<lambda>_ r. pbind (parse_source_seeds fl r) (\<lambda>seeds r.
     pbind (expect_ident_eq ''from'' r) (\<lambda>_ r. pbind (column_or ''expected `from` column name'' r) (\<lambda>src r.
     pbind (expect_ident_eq ''to'' r) (\<lambda>_ r. pbind (column_or ''expected `to` column name'' r) (\<lambda>dst r.
     pbind (parse_hops ''graph-var-length'' r) (\<lambda>(lo, hi) r. pbind (parse_direction r) (\<lambda>d r. pbind (parse_edge_type fl r) (\<lambda>ty r.
     let body = var_length_anchor seeds @ '' UNION ALL SELECT v.origin, '' @ next_node ''v'' src dst d @ '', v.depth + 1 FROM _vl v JOIN '' @ q_table q @
           '' e ON '' @ join_cond ''v'' src dst d @ '' WHERE v.depth < '' @ show_nat hi @ and_type ty;
         q1 = push_cte ''_vl(origin, node, depth)'' body True q;
         q2 = push_cte ''_vl_min'' ''SELECT origin, node, MIN(depth) AS depth FROM _vl GROUP BY origin, node'' False q1;
         q3 = push_cte ''_vl_result'' (''SELECT origin AS src, node AS dst, depth FROM _vl_min WHERE depth >= '' @ show_nat lo @ '' AND depth <= '' @ show_nat hi) False q2
     in Inr (q3\<lparr>q_table := ''_vl_result''\<rparr>, r))))))))))"

definition op_graph_shortest_path :: "'f floats \<Rightarrow> query_state \<Rightarrow> 'f kql_token list \<Rightarrow> ('f, query_state) parsed" where
  "op_graph_shortest_path fl q ts =
     pbind (expect_ident_eq ''source'' ts) (\<lambda>_ r. pbind (parse_scalar_literal fl r) (\<lambda>source r.
     pbind (expect_ident_eq ''target'' r) (\<lambda>_ r. pbind (parse_scalar_literal fl r) (\<lambda>target r.
     pbind (parse_graph_preamble r) (\<lambda>(src, dst, n, d) r.
     let body = ''SELECT '' @ cast_varchar source @ '' AS node, 0 AS depth UNION ALL SELECT '' @ build_recursive_step src dst d @
           '' FROM _sp t JOIN '' @ q_table q @ '' e ON '' @ join_cond ''t'' src dst d @ '' WHERE t.depth < '' @ show_nat n;
         q1 = push_cte ''_sp(node, depth)'' body True q;
         q2 = push_cte ''_sp_hits'' (''SELECT depth FROM _sp WHERE node = '' @ cast_varchar target) False q1;
         q3 = push_cte ''_sp_result'' ''SELECT MIN(depth) AS depth, COUNT(*) > 0 AS found FROM _sp_hits'' False q2
     in Inr (q3\<lparr>q_table := ''_sp_result''\<rparr>, r))))))"

definition op_make_graph :: "query_state \<Rightarrow> 'f kql_token list \<Rightarrow> ('f, query_state) parsed" where
  "op_make_graph q ts =
     pbind (expect_ident ts) (\<lambda>src r.
     case eat TArrow r of
       None \<Rightarrow> Inl (ParseError ''make-graph: expected `-->` between src and dst'')
     | Some r \<Rightarrow>
         pbind (expect_ident r) (\<lambda>dst r. pbind (expect_ident_eq ''with'' r) (\<lambda>_ r. pbind (expect_ident r) (\<lambda>nodes r.
         pbind (expect_ident_eq ''on'' r) (\<lambda>_ r. pbind (expect_ident r) (\<lambda>idc r.
         Inr (q\<lparr>q_graph_def := Some \<lparr>gd_edge_table = q_table q, gd_src_col = src, gd_dst_col = dst, gd_node_table = nodes, gd_id_col = idc\<rparr>\<rparr>, r)))))))"

section \<open>Graph patterns\<close>

definition parse_node :: "'f kql_token list \<Rightarrow> ('f, string) parsed" where
  "parse_node ts = pbind (expect TLParen ''('' ts) (\<lambda>_ r. pbind (expect_ident r) (\<lambda>n r. pbind (expect TRParen '')'' r) (\<lambda>_ r. Inr (n, r))))"

definition parse_edge :: "'f kql_token list \<Rightarrow> ('f, string \<times> string option) parsed" where
  "parse_edge ts =
     pbind (expect TLBracket ''['' ts) (\<lambda>_ r. pbind (expect_ident r) (\<lambda>e r.
     pbind (case eat TColon r of Some r \<Rightarrow> pbind (expect_ident r) (\<lambda>t r. Inr (Some t, r)) | None \<Rightarrow> Inr (None, r)) (\<lambda>ty r.
     pbind (expect TRBracket '']'' r) (\<lambda>_ r. pbind (expect TRightArrow ''->'' r) (\<lambda>_ r. Inr ((e, ty), r))))))"

definition parse_hop :: "'f kql_token list \<Rightarrow> ('f, (string \<times> string option) \<times> string) parsed" where
  "parse_hop ts = pbind (parse_edge ts) (\<lambda>e r. pbind (parse_node r) (\<lambda>n r. Inr ((e, n), r)))"

definition parse_path :: "'f kql_token list \<Rightarrow> ('f, string \<times> ((string \<times> string option) \<times> string) list) parsed" where
  "parse_path ts = pbind (parse_node ts) (\<lambda>n r. pbind (expect TMinus ''-'' r) (\<lambda>_ r.
     pbind (sep_list (length r) TMinus parse_hop r) (\<lambda>hs r. Inr ((n, hs), r))))"

definition project_item :: "(string \<Rightarrow> 'f parse_error + string) \<Rightarrow> 'f kql_token list \<Rightarrow> ('f, string) parsed" where
  "project_item alias_of ts =
     pbind (expect_ident ts) (\<lambda>var r. pbind (expect TDot ''.'' r) (\<lambda>_ r. pbind (expect_ident r) (\<lambda>col r.
     bindE (alias_of var) (\<lambda>tbl.
     pbind (case eat_ident_eq ''as'' r of (True, r) \<Rightarrow> expect_ident r | (False, r) \<Rightarrow> Inr (var @ ''_'' @ col, r)) (\<lambda>out r.
     Inr (tbl @ ''.'' @ quote_ident col @ '' AS '' @ quote_ident out, r))))))"

definition project_list :: "(string \<Rightarrow> 'f parse_error + string) \<Rightarrow> 'f kql_token list \<Rightarrow> ('f, string list) parsed" where
  "project_list alias_of ts = pbind (expect_ident_eq ''project'' ts) (\<lambda>_ r. items (project_item alias_of) r)"

definition unknown_var :: "string \<Rightarrow> string \<Rightarrow> 'f parse_error + string" where
  "unknown_var op v = Inl (ParseError (op @ '' project: unknown variable `'' @ v @ ''`''))"

definition require_graph :: "string \<Rightarrow> query_state \<Rightarrow> 'f parse_error + graph_def" where
  "require_graph op q = (case q_graph_def q of None \<Rightarrow> Inl (ParseError (op @ '' requires a preceding make-graph'')) | Some d \<Rightarrow> Inr d)"

definition var_match_alias :: "string \<Rightarrow> string \<Rightarrow> string \<Rightarrow> string \<Rightarrow> 'f parse_error + string" where
  "var_match_alias a rel b v =
     (if v = a then Inr ''a'' else if v = b then Inr ''b''
      else if v = rel then Inl (ParseError (''graph-var-match project: relationship `'' @ rel @ ''` has no columns in a variable-length match''))
      else unknown_var ''graph-var-match'' v)"

definition op_graph_var_match :: "query_state \<Rightarrow> 'f kql_token list \<Rightarrow> ('f, query_state) parsed" where
  "op_graph_var_match q ts =
     bindE (require_graph ''graph-var-match'' q) (\<lambda>g.
     pbind (parse_node ts) (\<lambda>a r. pbind (expect TMinus ''-'' r) (\<lambda>_ r. pbind (parse_edge r) (\<lambda>(rel, ty) r. pbind (parse_node r) (\<lambda>b r.
     pbind (parse_hops ''graph-var-match'' r) (\<lambda>(lo, hi) r. pbind (parse_direction r) (\<lambda>d r.
     pbind (project_list (var_match_alias a rel b) r) (\<lambda>sel r.
     let src = quote_ident (gd_src_col g); dst = quote_ident (gd_dst_col g); idc = quote_ident (gd_id_col g);
         body = ''SELECT '' @ cast_varchar idc @ '' AS origin, '' @ cast_varchar idc @ '' AS node, 0 AS depth FROM '' @ gd_node_table g @
           '' UNION ALL SELECT v.origin, '' @ next_node ''v'' src dst d @ '', v.depth + 1 FROM _vm v JOIN '' @ gd_edge_table g @
           '' e ON '' @ join_cond ''v'' src dst d @ '' WHERE v.depth < '' @ show_nat hi @ and_type (map_option sql_string ty);
         q1 = push_cte ''_vm(origin, node, depth)'' body True q;
         q2 = push_cte ''_vm_min'' ''SELECT origin, node, MIN(depth) AS depth FROM _vm GROUP BY origin, node'' False q1;
         q3 = push_cte ''_vm_result'' (''SELECT '' @ join '', '' sel @ '' FROM _vm_min m JOIN '' @ gd_node_table g @ '' a ON m.origin = a.'' @ idc @
           '' JOIN '' @ gd_node_table g @ '' b ON m.node = b.'' @ idc @ '' WHERE m.depth >= '' @ show_nat lo @ '' AND m.depth <= '' @ show_nat hi) False q2
     in Inr (q3\<lparr>q_table := ''_vm_result''\<rparr>, r)))))))))"

text \<open>The single path: the join of one hop and that of a chain.\<close>

definition path_alias :: "string list \<Rightarrow> (string \<times> string option) list \<Rightarrow> string \<Rightarrow> 'f parse_error + string" where
  "path_alias nodes edges v =
     (if length edges = 1 then
        (if v = nodes ! 0 then Inr ''a'' else if v = fst (edges ! 0) then Inr ''e'' else if v = nodes ! 1 then Inr ''b''
         else unknown_var ''graph-match'' v)
      else case position (\<lambda>n. n = v) nodes of
        Some i \<Rightarrow> Inr (''n'' @ show_nat i)
      | None \<Rightarrow> (case position (\<lambda>e. fst e = v) edges of Some i \<Rightarrow> Inr (''ed'' @ show_nat i) | None \<Rightarrow> unknown_var ''graph-match'' v))"

definition on_sql :: "string \<Rightarrow> string \<Rightarrow> string \<Rightarrow> string \<Rightarrow> string" where
  "on_sql e col n idc = e @ ''.'' @ col @ '' = '' @ n @ ''.'' @ idc"

definition join_node :: "string \<Rightarrow> string \<Rightarrow> string \<Rightarrow> string \<Rightarrow> string \<Rightarrow> string \<Rightarrow> string" where
  "join_node kind tbl e col n idc = '' '' @ kind @ '' '' @ tbl @ '' '' @ n @ '' ON '' @ on_sql e col n idc"

definition type_conds :: "string \<Rightarrow> (string \<times> string option) list \<Rightarrow> string list" where
  "type_conds pre edges = concat (map (\<lambda>(i, e). case snd e of Some t \<Rightarrow> [type_cond (pre @ show_nat i) (sql_string t)] | None \<Rightarrow> []) (enumerate 0 edges))"

definition path_body :: "graph_def \<Rightarrow> (string \<times> string option) list \<Rightarrow> string list \<Rightarrow> string" where
  "path_body g edges sel =
     (let src = quote_ident (gd_src_col g); dst = quote_ident (gd_dst_col g); idc = quote_ident (gd_id_col g);
          et = gd_edge_table g; nt = gd_node_table g
      in if length edges = 1 then
           ''SELECT '' @ join '', '' sel @ '' FROM '' @ et @ '' e'' @ join_node ''JOIN'' nt ''e'' src ''a'' idc @ join_node ''JOIN'' nt ''e'' dst ''b'' idc @
             (case snd (edges ! 0) of Some t \<Rightarrow> '' WHERE '' @ type_cond ''e'' (sql_string t) | None \<Rightarrow> [])
         else
           ''SELECT '' @ join '', '' sel @ '' FROM '' @ et @ '' ed0'' @ join_node ''JOIN'' nt ''ed0'' src ''n0'' idc @ join_node ''JOIN'' nt ''ed0'' dst ''n1'' idc @
             concat (map (\<lambda>i. '' JOIN '' @ et @ '' ed'' @ show_nat i @ '' ON '' @ on_sql (''ed'' @ show_nat i) src (''n'' @ show_nat i) idc @
                            join_node ''JOIN'' nt (''ed'' @ show_nat i) dst (''n'' @ show_nat (i + 1)) idc) [1..<length edges]) @
             where_sql (type_conds ''ed'' edges))"

text \<open>Several paths: edges with the numbers of their end nodes, joined one after the other.\<close>

definition push_node :: "string list \<Rightarrow> string \<Rightarrow> string list" where
  "push_node nv v = (if v \<in> set nv then nv else nv @ [v])"

fun path_edges :: "bool \<Rightarrow> string \<Rightarrow> ((string \<times> string option) \<times> string) list \<Rightarrow> (string \<times> string option \<times> string \<times> string \<times> bool) list" where
  "path_edges opt prev [] = []"
| "path_edges opt prev (((ev, et), n) # hs) = (ev, et, prev, n, opt) # path_edges opt n hs"

definition parse_segment :: "'f kql_token list \<Rightarrow> ('f, bool \<times> string \<times> ((string \<times> string option) \<times> string) list) parsed" where
  "parse_segment ts = (case eat_ident_eq ''OPTIONAL'' ts of (opt, r) \<Rightarrow> pbind (parse_path r) (\<lambda>(n, hs) r. Inr ((opt, n, hs), r)))"

definition general_alias :: "string list \<Rightarrow> (string \<times> string option \<times> string \<times> string \<times> bool) list \<Rightarrow> string \<Rightarrow> 'f parse_error + string" where
  "general_alias nodes edges v =
     (case position (\<lambda>n. n = v) nodes of
        Some i \<Rightarrow> Inr (''gn'' @ show_nat i)
      | None \<Rightarrow> (case position (\<lambda>e. fst e = v) edges of Some i \<Rightarrow> Inr (''ge'' @ show_nat i) | None \<Rightarrow> unknown_var ''graph-match'' v))"

definition resolve_edge :: "string list \<Rightarrow> string \<times> string option \<times> string \<times> string \<times> bool \<Rightarrow> (string option \<times> nat \<times> nat \<times> bool) option" where
  "resolve_edge nodes e = (case e of (_, et, sv, dv, opt) \<Rightarrow>
     Option.bind (position (\<lambda>n. n = sv) nodes) (\<lambda>si. map_option (\<lambda>di. (et, si, di, opt)) (position (\<lambda>n. n = dv) nodes)))"

definition join_edge :: "graph_def \<Rightarrow> nat \<Rightarrow> nat list \<Rightarrow> string option \<times> nat \<times> nat \<times> bool \<Rightarrow> string" where
  "join_edge g ei joined e = (case e of (et, si, di, opt) \<Rightarrow>
     (let src = quote_ident (gd_src_col g); dst = quote_ident (gd_dst_col g); idc = quote_ident (gd_id_col g);
          ge = ''ge'' @ show_nat ei; gn = (\<lambda>i. ''gn'' @ show_nat i);
          jk = (if opt then ''LEFT JOIN'' else ''JOIN'');
          conds = (if si \<in> set joined then [on_sql ge src (gn si) idc] else []) @ (if di \<in> set joined then [on_sql ge dst (gn di) idc] else []) @
                  (case et of Some t \<Rightarrow> if opt then [type_cond ge (sql_string t)] else [] | None \<Rightarrow> [])
      in (if conds = [] then (if opt then '' LEFT JOIN '' @ gd_edge_table g @ '' '' @ ge @ '' ON true'' else '' CROSS JOIN '' @ gd_edge_table g @ '' '' @ ge)
          else '' '' @ jk @ '' '' @ gd_edge_table g @ '' '' @ ge @ '' ON '' @ join '' AND '' conds) @
         (if si \<in> set joined then [] else join_node jk (gd_node_table g) ge src (gn si) idc) @
         (if di \<in> set (si # joined) then [] else join_node jk (gd_node_table g) ge dst (gn di) idc)))"

fun join_edges :: "graph_def \<Rightarrow> nat \<Rightarrow> nat list \<Rightarrow> (string option \<times> nat \<times> nat \<times> bool) list \<Rightarrow> string" where
  "join_edges g ei joined [] = []"
| "join_edges g ei joined (e # es) = join_edge g ei joined e @ join_edges g (ei + 1) (fst (snd e) # fst (snd (snd e)) # joined) es"

definition first_edge :: "graph_def \<Rightarrow> string option \<times> nat \<times> nat \<times> bool \<Rightarrow> string" where
  "first_edge g e = (case e of (et, si, di, opt) \<Rightarrow>
     gd_edge_table g @ '' ge0'' @ join_node ''JOIN'' (gd_node_table g) ''ge0'' (quote_ident (gd_src_col g)) (''gn'' @ show_nat si) (quote_ident (gd_id_col g)) @
     join_node ''JOIN'' (gd_node_table g) ''ge0'' (quote_ident (gd_dst_col g)) (''gn'' @ show_nat di) (quote_ident (gd_id_col g)))"

definition from_edges :: "graph_def \<Rightarrow> (string option \<times> nat \<times> nat \<times> bool) list \<Rightarrow> string" where
  "from_edges g es = (case es of [] \<Rightarrow> [] | e # es \<Rightarrow> first_edge g e @ join_edges g 1 [fst (snd e), fst (snd (snd e))] es)"

definition emit_general_graph_match :: "graph_def \<Rightarrow> string \<Rightarrow> ((string \<times> string option) \<times> string) list \<Rightarrow> query_state \<Rightarrow> 'f kql_token list
    \<Rightarrow> ('f, query_state) parsed" where
  "emit_general_graph_match g n0 hs0 q ts =
     pbind (sep_list (length ts) TComma parse_segment ts) (\<lambda>segs r.
     let paths = (False, n0, hs0) # segs;
         nodes = foldl push_node [] (concat (map (\<lambda>(_, n, hs). n # map snd hs) paths));
         edges = concat (map (\<lambda>(opt, n, hs). path_edges opt n hs) paths)
     in pbind (project_list (general_alias nodes edges) r) (\<lambda>sel r.
        case those (map (resolve_edge nodes) edges) of
          None \<Rightarrow> Inl Panicked
        | Some es \<Rightarrow>
            let body = ''SELECT '' @ join '', '' sel @ '' FROM '' @ from_edges g es @
                  where_sql (type_conds ''ge'' (map (\<lambda>(ev, et, _, _, opt). (ev, if opt then None else et)) edges))
            in Inr ((push_cte ''_gm_result'' body False q)\<lparr>q_table := ''_gm_result''\<rparr>, r)))"

definition op_graph_match :: "query_state \<Rightarrow> 'f kql_token list \<Rightarrow> ('f, query_state) parsed" where
  "op_graph_match q ts =
     bindE (require_graph ''graph-match'' q) (\<lambda>g.
     pbind (parse_path ts) (\<lambda>(n0, hs) r.
     case eat TComma r of
       Some r \<Rightarrow> emit_general_graph_match g n0 hs q r
     | None \<Rightarrow>
         pbind (project_list (path_alias (n0 # map snd hs) (map fst hs)) r) (\<lambda>sel r.
         Inr ((push_cte ''_gm_result'' (path_body g (map fst hs) sel) False q)\<lparr>q_table := ''_gm_result''\<rparr>, r))))"

section \<open>Queries\<close>

definition parse_operator :: "'f floats \<Rightarrow> query_state \<Rightarrow> 'f kql_token list \<Rightarrow> ('f, query_state) parsed" where
  "parse_operator fl q ts = pbind (ident_or ''expected operator'' ts) (\<lambda>op r.
     if op = ''where'' then op_where fl q r
     else if op = ''project'' then op_project False q r
     else if op = ''project-away'' then op_project True q r
     else if op = ''extend'' then op_extend fl q r
     else if op = ''summarize'' then op_summarize fl q r
     else if op = ''take'' \<or> op = ''limit'' then op_take q r
     else if op = ''sort'' \<or> op = ''order'' then op_sort fl q r
     else if op = ''top'' then op_top fl q r
     else if op = ''count'' then op_count q r
     else if op = ''distinct'' then op_distinct q r
     else if op = ''graph-traverse'' then op_graph_traverse fl q r
     else if op = ''graph-var-length'' then op_graph_var_length fl q r
     else if op = ''graph-var-match'' then op_graph_var_match q r
     else if op = ''graph-shortest-path'' then op_graph_shortest_path fl q r
     else if op = ''make-graph'' then op_make_graph q r
     else if op = ''graph-match'' then op_graph_match q r
     else Inl (ParseError (''unsupported operator: `'' @ op @ ''`'')))"

text \<open>\<open>while eat(Pipe) { operator }\<close> and the check that nothing is left.\<close>

fun parse_pipes :: "'f floats \<Rightarrow> nat \<Rightarrow> query_state \<Rightarrow> 'f kql_token list \<Rightarrow> 'f parse_error + query_state" where
  "parse_pipes fl n q ts =
     (case eat TPipe ts of
        None \<Rightarrow> if ts = [] then Inr q else Inl (Trailing ts)
      | Some r \<Rightarrow> (case n of 0 \<Rightarrow> Inl Stuck | Suc n' \<Rightarrow> pbind (parse_operator fl q r) (\<lambda>q r. parse_pipes fl n' q r)))"

declare parse_pipes.simps [simp del]

text \<open>A query that does not begin with \<open>union\<close>.\<close>

definition parse_table_query :: "'f floats \<Rightarrow> 'f kql_token list \<Rightarrow> 'f parse_error + query_state" where
  "parse_table_query fl ts = pbind (ident_or ''expected table name'' ts) (\<lambda>t r. parse_pipes fl (length r) (query_state_new t) r)"

datatype union_from = UTable string | USubQuery string

type_synonym union_operand = "string \<times> union_from"

definition RESHAPING_OPS :: "string list" where
  "RESHAPING_OPS = [''project'', ''project-away'', ''summarize'', ''count'', ''distinct'', ''extend'', ''graph-traverse'', ''graph-shortest-path'',
     ''make-graph'', ''graph-match'']"

fun reshaping :: "'f kql_token list \<Rightarrow> string option" where
  "reshaping (t # u # r) =
     (case ident_of u of
        Some op \<Rightarrow> if t = TPipe \<and> op \<in> set RESHAPING_OPS then Some op else reshaping (u # r)
      | None \<Rightarrow> reshaping (u # r))"
| "reshaping _ = None"

text \<open>The tokens up to the matching parenthesis, and that parenthesis with what follows.\<close>

fun matching_paren :: "nat \<Rightarrow> 'f kql_token list \<Rightarrow> ('f kql_token list \<times> 'f kql_token list) option" where
  "matching_paren depth [] = None"
| "matching_paren depth (t # r) =
     (let depth' = (if t = TLParen then depth + 1 else if t = TRParen then depth - 1 else depth) in
      if depth' = 0 then Some ([], t # r) else map_option (\<lambda>(inner, r'). (t # inner, r')) (matching_paren depth' r))"

definition parse_union_operand :: "'f floats \<Rightarrow> 'f kql_token list \<Rightarrow> ('f, union_operand) parsed" where
  "parse_union_operand fl ts =
     (case eat TLParen ts of
        Some r \<Rightarrow>
          (case matching_paren 1 r of
             None \<Rightarrow> Inl (ParseError ''unterminated `(` in union operand'')
           | Some (inner, r) \<Rightarrow>
               pbind (expect TRParen ''`)` to close union operand'' r) (\<lambda>_ r.
               if inner = [] then Inl (ParseError ''empty `()` union operand'')
               else if peek_ident ''union'' inner then Inl (ParseError ''nested union is not supported'')
               else case reshaping inner of
                 Some op \<Rightarrow> Inl (ParseError (''union branch reshapes its schema (`'' @ op @ ''`); v1 union branches may only filter/sort/take''))
               | None \<Rightarrow> bindE (parse_table_query fl inner) (\<lambda>q. Inr ((root_table q, USubQuery (to_sql q)), r))))
      | None \<Rightarrow> pbind (expect_ident ts) (\<lambda>t r. Inr ((t, UTable t), r)))"

definition table_columns :: "(string \<times> string list) list \<Rightarrow> string \<Rightarrow> 'f parse_error + string list" where
  "table_columns schemas t = (case map_of schemas t of
     Some cs \<Rightarrow> Inr cs
   | None \<Rightarrow> Inl (ParseError (if schemas = [] then ''union requires schema context: no schema available for table `'' @ t @ ''`''
                              else ''union: unknown table `'' @ t @ ''` (not in schema)'')))"

fun column_superset :: "(string \<times> string list) list \<Rightarrow> string list \<Rightarrow> union_operand list \<Rightarrow> 'f parse_error + string list" where
  "column_superset schemas acc [] = Inr acc"
| "column_superset schemas acc (op # ops) = bindE (table_columns schemas (fst op)) (\<lambda>cs. column_superset schemas (foldl push_node acc cs) ops)"

definition union_branch :: "(string \<times> string list) list \<Rightarrow> string option \<Rightarrow> string list \<Rightarrow> nat \<Rightarrow> union_operand \<Rightarrow> string" where
  "union_branch schemas src superset i op =
     (let own = (case map_of schemas (fst op) of Some cs \<Rightarrow> cs | None \<Rightarrow> []);
          proj = join '', '' ((case src of Some s \<Rightarrow> [sql_string (fst op) @ '' AS '' @ quote_ident s] | None \<Rightarrow> []) @
                              map (\<lambda>c. if c \<in> set own then quote_ident c else ''NULL AS '' @ quote_ident c) superset)
      in ''SELECT '' @ proj @ '' FROM '' @ (case snd op of UTable t \<Rightarrow> t | USubQuery sql \<Rightarrow> paren sql @ '' _b'' @ show_nat i))"

definition parse_union :: "'f floats \<Rightarrow> (string \<times> string list) list \<Rightarrow> 'f kql_token list \<Rightarrow> ('f, query_state) parsed" where
  "parse_union fl schemas ts =
     pbind (case eat_ident_eq ''withsource'' ts of
              (True, r) \<Rightarrow> pbind (expect TAssign ''`=` after withsource'' r) (\<lambda>_ r. pbind (expect_ident r) (\<lambda>s r. Inr (Some s, r)))
            | (False, r) \<Rightarrow> Inr (None, r)) (\<lambda>src r.
     pbind (items (parse_union_operand fl) r) (\<lambda>ops r.
     bindE (column_superset schemas [] ops) (\<lambda>superset.
     if (case src of Some s \<Rightarrow> s \<in> set superset | None \<Rightarrow> False)
     then Inl (ParseError (''withsource column `'' @ the src @ ''` collides with a column of the union operands''))
     else Inr (push_cte ''_u'' (join '' UNION ALL '' (map (\<lambda>(i, op). union_branch schemas src superset i op) (enumerate 0 ops))) False (query_state_new ''_u''), r))))"

definition parse_query :: "'f floats \<Rightarrow> (string \<times> string list) list \<Rightarrow> 'f kql_token list \<Rightarrow> 'f parse_error + query_state" where
  "parse_query fl schemas ts =
     (if peek_ident ''union'' ts then pbind (parse_union fl schemas (tl ts)) (\<lambda>q r. parse_pipes fl (length r) q r)
      else parse_table_query fl ts)"

definition kql_to_sql_with_schemas :: "'f floats \<Rightarrow> string \<Rightarrow> (string \<times> string list) list \<Rightarrow> 'f parse_error + string" where
  "kql_to_sql_with_schemas fl src schemas =
     (case kql_tokenize fl src of
        Inl e \<Rightarrow> Inl (LexFailed e)
      | Inr ts \<Rightarrow> bindE (parse_query fl schemas ts) (\<lambda>q. Inr (to_sql q)))"

definition kql_to_sql :: "'f floats \<Rightarrow> string \<Rightarrow> 'f parse_error + string" where
  "kql_to_sql fl src = kql_to_sql_with_schemas fl src []"

end
