(* ===== verification/Kql_Safe.thy ===== *)
theory Kql_Safe
  imports Kql_Query "HOL-Library.Sublist"
begin

text \<open>
  What every translation has in common: it returns, it does not panic, and what it emits is one SQL
  statement. Quotes in literals and identifiers of the query never end a literal or an identifier
  of the SQL text; outside of them there is no semicolon and no comment, and parentheses match.

  \<open>spec\<close> is a weakest precondition for parsers: it goes through the definitions, and each level of the
  grammar and each operator has one rule.
\<close>

section \<open>Reading SQL text\<close>

datatype sql_mode = Out | OutDash | OutSlash | InStr | InId

definition sql_step :: "sql_mode \<times> nat \<Rightarrow> char \<Rightarrow> (sql_mode \<times> nat) option" where
  "sql_step st c = (case st of (m, d) \<Rightarrow>
     if m = InStr then Some (if c = squote then Out else InStr, d)
     else if m = InId then Some (if c = dquote then Out else InId, d)
     else if c = squote then Some (InStr, d)
     else if c = dquote then Some (InId, d)
     else if c = CHR '';'' then None
     else if c = CHR ''('' then Some (Out, d + 1)
     else if c = CHR '')'' then (if d = 0 then None else Some (Out, d - 1))
     else if c = CHR ''-'' then (if m = OutDash then None else Some (OutDash, d))
     else if c = CHR ''/'' then Some (OutSlash, d)
     else if c = CHR ''*'' \<and> m = OutSlash then None
     else Some (Out, d))"

fun sql_scan :: "sql_mode \<times> nat \<Rightarrow> string \<Rightarrow> (sql_mode \<times> nat) option" where
  "sql_scan st [] = Some st"
| "sql_scan st (c # cs) = Option.bind (sql_step st c) (\<lambda>st'. sql_scan st' cs)"

text \<open>One statement: quotes are closed, parentheses match, no semicolon, no comment.\<close>

definition single_statement :: "string \<Rightarrow> bool" where
  "single_statement sql \<longleftrightarrow> sql_scan (Out, 0) sql = Some (Out, 0)"

text \<open>
  A text that can stand between others, and one that can also stand after a minus sign.
\<close>

definition clause :: "string \<Rightarrow> bool" where
  "clause s \<longleftrightarrow> (\<forall>d. sql_scan (Out, d) s = Some (Out, d))"

definition frag :: "string \<Rightarrow> bool" where
  "frag s \<longleftrightarrow> clause s \<and> (\<forall>d. sql_scan (OutDash, d) s = Some (Out, d))"

lemma sql_scan_append: "sql_scan st (s @ t) = Option.bind (sql_scan st s) (\<lambda>st'. sql_scan st' t)"
  by (induction s arbitrary: st) auto

lemma frag_clause: "frag s \<Longrightarrow> clause s"
  by (simp add: frag_def)

lemma clause_Nil: "clause []"
  by (simp add: clause_def)

lemma clause_append: "\<lbrakk>clause s; clause t\<rbrakk> \<Longrightarrow> clause (s @ t)"
  by (simp add: clause_def sql_scan_append)

lemma frag_append: "\<lbrakk>frag s; clause t\<rbrakk> \<Longrightarrow> frag (s @ t)"
  by (simp add: frag_def clause_def sql_scan_append)

lemma clause_single: "clause s \<Longrightarrow> single_statement s"
  by (simp add: clause_def single_statement_def)

definition plain_char :: "char \<Rightarrow> bool" where
  "plain_char c \<longleftrightarrow> c \<notin> {squote, dquote, CHR '';'', CHR ''('', CHR '')'', CHR ''-'', CHR ''/''}"

lemma plain_step: "\<lbrakk>plain_char c; m \<noteq> InStr; m \<noteq> InId; m \<noteq> OutSlash\<rbrakk> \<Longrightarrow> sql_step (m, d) c = Some (Out, d)"
  by (auto simp: sql_step_def plain_char_def)

lemma plain_clause: "list_all plain_char s \<Longrightarrow> clause s"
proof -
  assume "list_all plain_char s"
  then have "sql_scan (Out, d) s = Some (Out, d)" for d by (induction s) (auto simp: plain_step)
  then show ?thesis by (simp add: clause_def)
qed

lemma plain_frag: "\<lbrakk>list_all plain_char s; s \<noteq> []\<rbrakk> \<Longrightarrow> frag s"
  using plain_clause [of "tl s"] by (cases s) (auto simp: frag_def clause_def plain_step)

lemmas lit_simps = plain_char_def squote_def dquote_def

lemma paren_frag: "clause s \<Longrightarrow> frag (paren s)"
  by (simp add: frag_def clause_def paren_def sql_scan_append sql_step_def squote_def dquote_def)

lemma join_clause: "\<lbrakk>list_all clause xs; clause sep\<rbrakk> \<Longrightarrow> clause (join sep xs)"
  by (induction sep xs rule: join.induct) (auto intro: clause_append clause_Nil)

lemma join_frag: "\<lbrakk>list_all frag xs; xs \<noteq> []; clause sep\<rbrakk> \<Longrightarrow> frag (join sep xs)"
  by (induction sep xs rule: join.induct) (auto intro: clause_append frag_append frag_clause)

lemma frags_clauses: "list_all frag xs \<Longrightarrow> list_all clause xs"
  by (auto simp: list_all_iff frag_clause)

lemma comma_clause: "clause '', ''"
  by (rule plain_clause) (simp add: lit_simps)

section \<open>Literals and identifiers\<close>

lemma scan_string:
  "sql_scan (InStr, d) (double_quotes squote s @ [squote]) = Some (Out, d)"
  by (induction s) (auto simp: sql_step_def squote_def dquote_def)

lemma scan_ident:
  "sql_scan (InId, d) (double_quotes dquote s @ [dquote]) = Some (Out, d)"
  by (induction s) (auto simp: sql_step_def squote_def dquote_def)

lemma sq_dq: "dquote \<noteq> squote" "squote \<noteq> dquote"
  by (simp_all add: squote_def dquote_def)

lemma quoted_frag: "frag ([squote] @ double_quotes squote s @ [squote])" "frag ([dquote] @ double_quotes dquote s @ [dquote])"
  by (simp_all add: frag_def clause_def sql_step_def scan_string scan_ident squote_def [symmetric] dquote_def [symmetric] sq_dq)

lemma sql_string_frag: "frag (sql_string s)"
  unfolding sql_string_def by (rule quoted_frag)

lemma double_quotes_append: "double_quotes q (s @ t) = double_quotes q s @ double_quotes q t"
  by (induction s) auto

lemma like_frag: "frag (add_like_right s)" "frag (add_like_left s)" "frag (add_like_both s)"
proof -
  have p: "double_quotes squote ''%'' = ''%''" by (simp add: squote_def)
  show "frag (add_like_right s)" "frag (add_like_left s)" "frag (add_like_both s)"
    using quoted_frag(1) [of "strip_outer_quotes s @ ''%''"] quoted_frag(1) [of "''%'' @ strip_outer_quotes s"]
      quoted_frag(1) [of "''%'' @ strip_outer_quotes s @ ''%''"]
    by (simp_all only: add_like_right_def add_like_left_def add_like_both_def double_quotes_append p append_assoc)
qed

lemma word_plain: "is_ascii_alphanumeric c \<or> c = CHR ''_'' \<or> c = CHR ''.'' \<Longrightarrow> plain_char c"
  by (auto simp: lit_simps is_ascii_alphanumeric_def)

lemma quote_ident_frag: "frag (quote_ident s)"
proof (cases "structurally_simple s \<and> map to_ascii_lowercase s \<notin> set SQL_RESERVED")
  case True
  then have "list_all plain_char s" "s \<noteq> []" by (auto simp: structurally_simple_def list_all_iff word_plain split: list.splits)
  then show ?thesis using True by (simp add: quote_ident_def plain_frag)
next
  case False
  then have "quote_ident s = [dquote] @ double_quotes dquote s @ [dquote]" unfolding quote_ident_def by (rule if_not_P)
  then show ?thesis by (simp only: quoted_frag)
qed

lemma show_nat_frag: "frag (show_nat n)"
proof (rule plain_frag)
  show "list_all plain_char (show_nat n)" using show_nat_digits [of n] digit_alphanumeric
    by (auto simp: list_all_iff is_ascii_digit_def intro!: word_plain)
qed simp

lemma ident_tail_clause: "ident_tail s \<Longrightarrow> clause s"
proof -
  assume "ident_tail s"
  then have "sql_scan (Out, d) s = Some (Out, d)" for d
  proof (induction s)
    case (Cons c cs)
    show ?case
    proof (cases "c = CHR ''-''")
      case True
      then obtain e es where e: "cs = e # es" "is_ascii_alphabetic e" using Cons.prems
        by (auto simp: is_ascii_alphanumeric_def split: list.splits)
      have "plain_char e" using e(2) alphabetic_alphanumeric word_plain by blast
      then have "sql_step (OutDash, d) e = sql_step (Out, d) e" by (simp add: plain_step)
      moreover have "sql_step (Out, d) (CHR ''-'') = Some (OutDash, d)" by (simp add: sql_step_def squote_def dquote_def)
      ultimately show ?thesis using Cons e True by simp
    next
      case False
      then have "plain_char c" using Cons.prems word_plain by auto
      then show ?thesis using Cons by (simp add: plain_step)
    qed
  qed simp
  then show ?thesis by (simp add: clause_def)
qed

lemma ident_frag: "ident_ok s \<Longrightarrow> frag s"
proof -
  assume s: "ident_ok s"
  then obtain c cs where c: "s = [c] @ cs" "is_ascii_alphabetic c \<or> c = CHR ''_''" "ident_tail cs" by (cases s) (auto simp: ident_ok_def)
  have "frag [c]" using c(2) word_plain [of c] alphabetic_alphanumeric by (intro plain_frag) auto
  with c show ?thesis by (simp add: frag_append ident_tail_clause del: append.simps append_Cons)
qed

lemma interval_frag: "duration_to_sql_interval d = Inr s \<Longrightarrow> frag s"
proof -
  assume s: "duration_to_sql_interval d = Inr s"
  have q: "frag ([squote] @ x @ [squote])" if "squote \<notin> set x" for x
  proof -
    have "double_quotes squote x = x" using that by (induction x) auto
    then show ?thesis using quoted_frag(1) [of x] by simp
  qed
  have n: "squote \<notin> set (show_int k)" if "parse_i64 n = Inr k" for n k
    using parse_i64_bounds [OF that] show_nat_digits [of "nat k"] by (auto simp: show_int_def list_all_iff squote_def digit_def)
  have "frag ''INTERVAL ''" by (rule plain_frag) (simp_all add: lit_simps)
  moreover obtain k u where "parse_i64 (butlast d) = Inr k" "s = ''INTERVAL '' @ [squote] @ (show_int k @ '' '' @ u) @ [squote]" "squote \<notin> set u"
    using s unfolding duration_to_sql_interval_def
    by (auto simp: Let_def squote_def split: if_splits sum.splits)
  moreover have "frag ([squote] @ (show_int k @ '' '' @ u) @ [squote])"
    using q [of "show_int k @ '' '' @ u"] n calculation by (simp add: squote_def)
  ultimately show ?thesis using frag_append frag_clause by blast
qed

section \<open>The calculus\<close>

definition spec :: "'f parse_error + 'b \<Rightarrow> ('b \<Rightarrow> bool) \<Rightarrow> bool" where
  "spec m Q = (case m of Inl e \<Rightarrow> e \<noteq> Stuck \<and> e \<noteq> Panicked | Inr x \<Rightarrow> Q x)"

lemma spec_base [simp]: "spec (Inl e) Q \<longleftrightarrow> e \<noteq> Stuck \<and> e \<noteq> Panicked" "spec (Inr x) Q \<longleftrightarrow> Q x"
  by (simp_all add: spec_def)

lemma spec_pbind [simp]: "spec (pbind m k) Q \<longleftrightarrow> spec m (\<lambda>(x, r). spec (k x r) Q)"
  by (auto simp: spec_def pbind_def split: sum.splits)

lemma spec_bindE [simp]: "spec (bindE m k) Q \<longleftrightarrow> spec m (\<lambda>x. spec (k x) Q)"
  by (auto simp: spec_def bindE_def split: sum.splits)

lemma eat_Some [simp]: "eat t ts = Some r \<longleftrightarrow> ts = t # r"
  by (auto simp: eat_def split: list.splits if_splits)

lemma eat_None: "eat t ts = None \<longleftrightarrow> (\<forall>r. ts \<noteq> t # r)"
  by (metis eat_Some not_None_eq)

lemma eat_same [simp]: "eat t (t # r) = Some r"
  by simp

lemma spec_bump [simp]: "spec (bump ts) Q \<longleftrightarrow> (\<forall>t r. ts = t # r \<longrightarrow> Q (t, r))"
  by (cases ts) (auto simp: bump_def)

lemma spec_expect [simp]: "spec (expect t w ts) Q \<longleftrightarrow> (\<forall>r. ts = t # r \<longrightarrow> Q ((), r))"
  by (auto simp: expect_def split: option.splits)

lemma spec_expect_ident_eq [simp]: "spec (expect_ident_eq k ts) Q \<longleftrightarrow> (\<forall>r. ts = TIdent k # r \<longrightarrow> Q ((), r))"
  by (auto simp: expect_ident_eq_def split: option.splits)

lemma spec_ident_or [simp]: "spec (ident_or w ts) Q \<longleftrightarrow> (\<forall>s r. ts = TIdent s # r \<longrightarrow> Q (s, r))"
  by (auto simp: ident_or_def split: kql_token.splits)

lemma spec_expect_ident [simp]: "spec (expect_ident ts) Q \<longleftrightarrow> (\<forall>s r. ts = TIdent s # r \<longrightarrow> Q (s, r))"
  by (simp add: expect_ident_def)

lemma spec_int_or [simp]: "spec (int_or w ts) Q \<longleftrightarrow> (\<forall>n r. ts = TInt n # r \<and> 0 \<le> n \<longrightarrow> Q (nat n, r))"
  by (auto simp: int_or_def split: kql_token.splits)

lemma spec_mono: "\<lbrakk>spec m P; \<And>x. P x \<Longrightarrow> Q x\<rbrakk> \<Longrightarrow> spec m Q"
  by (auto simp: spec_def split: sum.splits)

abbreviation toks_ok :: "'f floats \<Rightarrow> 'f kql_token list \<Rightarrow> bool" where
  "toks_ok fl ts \<equiv> list_all (tok_ok fl) ts"

text \<open>A parser that reads something, for lists of up to \<open>n\<close> tokens.\<close>

definition parses :: "'f floats \<Rightarrow> nat \<Rightarrow> ('f kql_token list \<Rightarrow> ('f, 'a) parsed) \<Rightarrow> ('a \<Rightarrow> bool) \<Rightarrow> bool" where
  "parses fl n p Q \<longleftrightarrow> (\<forall>ts. length ts \<le> n \<and> toks_ok fl ts \<longrightarrow> spec (p ts) (\<lambda>(x, r). strict_suffix r ts \<and> Q x))"

lemma suffix_toks: "suffix r ts \<Longrightarrow> toks_ok fl ts \<Longrightarrow> toks_ok fl r"
  by (auto simp: suffix_def)

lemma strict_suffix_length: "strict_suffix r ts \<Longrightarrow> length r < length ts"
  by (simp add: suffix_length_less)

lemma parsesI: "(\<And>ts. \<lbrakk>length ts \<le> n; toks_ok fl ts\<rbrakk> \<Longrightarrow> spec (p ts) (\<lambda>(x, r). strict_suffix r ts \<and> Q x)) \<Longrightarrow> parses fl n p Q"
  by (simp add: parses_def)

lemma parses_mono: "\<lbrakk>parses fl n p Q; \<And>x. Q x \<Longrightarrow> R x\<rbrakk> \<Longrightarrow> parses fl n p R"
  unfolding parses_def by (blast intro: spec_mono)

lemma parses_spec:
  assumes "parses fl n p Q" "length ts \<le> n" "toks_ok fl ts"
    and "\<And>x r. \<lbrakk>strict_suffix r ts; toks_ok fl r; length r < length ts; Q x\<rbrakk> \<Longrightarrow> R (x, r)"
  shows "spec (p ts) R"
proof (rule spec_mono)
  show "spec (p ts) (\<lambda>(x, r). strict_suffix r ts \<and> Q x)" using assms(1-3) by (simp add: parses_def)
  fix z assume "case z of (x, r) \<Rightarrow> strict_suffix r ts \<and> Q x"
  then obtain x r where z: "z = (x, r)" "strict_suffix r ts" "Q x" by (cases z) auto
  have "toks_ok fl r" using suffix_toks [of r ts fl] z(2) assms(3) by (simp add: strict_suffix_def)
  with z show "R z" using assms(4) strict_suffix_length by blast
qed

lemma suffix_Cons_strict: "suffix r ts \<Longrightarrow> strict_suffix r (t # ts)"
  using suffix_length_le [of r ts] by (auto simp: strict_suffix_def suffix_ConsI)

lemma suffix_steps:
  "strict_suffix r ts \<Longrightarrow> suffix r ts"
  "suffix (t # r) ts \<Longrightarrow> suffix r ts"
  "suffix (t # r) ts \<Longrightarrow> strict_suffix r ts"
  "strict_suffix (t # r) ts \<Longrightarrow> strict_suffix r ts"
  "strict_suffix r ts \<Longrightarrow> suffix (tl r) ts"
  by (cases r; auto simp: strict_suffix_def dest: suffix_ConsD suffix_length_le intro: suffix_ConsI)+

lemma strict_suffix_Cons: "strict_suffix r ts \<Longrightarrow> strict_suffix r (t # ts)"
  by (rule suffix_Cons_strict) (rule suffix_order.less_imp_le)

lemma parses_suffix:
  assumes "parses fl n p Q" "suffix q ts" "length ts \<le> n" "toks_ok fl ts"
    and "\<And>x r. \<lbrakk>strict_suffix r ts; strict_suffix r q; Q x\<rbrakk> \<Longrightarrow> R (x, r)"
  shows "spec (p q) R"
  using assms suffix_length_le [OF assms(2)] suffix_toks [OF assms(2,4)]
  by (intro parses_spec [OF assms(1)]) (auto intro: suffix_order.less_le_trans)

lemma spec_sep_list:
  assumes p: "parses fl n p Q"
  shows "\<lbrakk>length ts \<le> n; toks_ok fl ts; length ts \<le> m\<rbrakk> \<Longrightarrow>
    spec (sep_list m sep p ts) (\<lambda>(xs, r). strict_suffix r ts \<and> xs \<noteq> [] \<and> list_all Q xs)"
proof (induction m arbitrary: ts)
  case 0
  then show ?case using p by (simp add: sep_list.simps) (rule parses_spec [OF p], auto)
next
  case (Suc m)
  have "spec (sep_list m sep p r') (\<lambda>(xs, r''). strict_suffix r'' ts \<and> list_all Q xs)"
    if "strict_suffix (sep # r') ts" "toks_ok fl (sep # r')" for r'
  proof (rule spec_mono [OF Suc.IH [of r']])
    have "length (sep # r') < length ts" by (rule strict_suffix_length [OF that(1)])
    then show "length r' \<le> n" "length r' \<le> m" using Suc.prems by simp_all
    show "toks_ok fl r'" using that(2) by simp
    have "strict_suffix r' ts" using that(1) by (metis suffix_Cons_strict suffix_order.less_trans suffix_order.order_refl)
    then show "case x of (xs, r) \<Rightarrow> strict_suffix r r' \<and> xs \<noteq> [] \<and> list_all Q xs \<Longrightarrow> case x of (xs, r) \<Rightarrow> strict_suffix r ts \<and> list_all Q xs" for x
      using suffix_order.less_trans by auto
  qed
  then show ?case using Suc.prems
    by (subst sep_list.simps, simp, intro parses_spec [OF p]) (auto split: option.splits elim!: spec_mono)
qed

lemma items_parses: "parses fl n p Q \<Longrightarrow> parses fl n (items p) (\<lambda>xs. xs \<noteq> [] \<and> list_all Q xs)"
  unfolding items_def by (rule parsesI, rule spec_sep_list) auto

definition frag_op :: "('f kql_token \<Rightarrow> (string \<Rightarrow> string \<Rightarrow> string) option) \<Rightarrow> bool" where
  "frag_op opf \<longleftrightarrow> (\<forall>t f l r. opf t = Some f \<and> frag l \<and> frag r \<longrightarrow> frag (f l r))"

lemma spec_chain_loop:
  assumes p: "parses fl n p frag" and op: "frag_op opf"
  shows "\<lbrakk>length ts \<le> n; toks_ok fl ts; length ts \<le> m; frag lhs\<rbrakk> \<Longrightarrow> spec (chain_loop m opf p lhs ts) (\<lambda>(s, r). suffix r ts \<and> frag s)"
proof (induction m arbitrary: ts lhs)
  case 0
  then show ?case by (simp add: chain_loop.simps)
next
  case (Suc m)
  show ?case
  proof (cases ts)
    case Nil
    then show ?thesis using Suc.prems by (simp add: chain_loop.simps)
  next
    case (Cons t r)
    show ?thesis
    proof (cases "opf t")
      case None
      then show ?thesis using Suc.prems Cons by (simp add: chain_loop.simps)
    next
      case (Some f)
      have "spec (chain_loop m opf p (f lhs x) r') (\<lambda>(s, r''). suffix r'' ts \<and> frag s)"
        if "strict_suffix r' r" "toks_ok fl r'" "length r' < length r" "frag x" for x r'
      proof (rule spec_mono [OF Suc.IH])
        show "frag (f lhs x)" using op Some Suc.prems that by (auto simp: frag_op_def)
        show "case x of (s, r) \<Rightarrow> suffix r r' \<and> frag s \<Longrightarrow> case x of (s, r'') \<Rightarrow> suffix r'' ts \<and> frag s" for x
          using that(1) Cons by (auto simp: strict_suffix_def suffix_Cons intro: suffix_order.order_trans)
      qed (use Suc.prems Cons that in auto)
      then show ?thesis using Suc.prems Cons Some by (simp add: chain_loop.simps) (intro parses_spec [OF p], auto)
    qed
  qed
qed

lemma left_assoc_parses:
  assumes p: "parses fl n p frag" and op: "frag_op opf"
  shows "parses fl n (left_assoc opf p) frag"
proof (rule parsesI)
  fix ts assume ts: "length ts \<le> n" "toks_ok fl ts"
  have "spec (chain_loop (length r) opf p x r) (\<lambda>(s, r'). strict_suffix r' ts \<and> frag s)"
    if "strict_suffix r ts" "toks_ok fl r" "length r < length ts" "frag x" for x r
    by (rule spec_mono [OF spec_chain_loop [OF p op]]) (use that ts in \<open>auto intro: suffix_order.le_less_trans\<close>)
  then show "spec (left_assoc opf p ts) (\<lambda>(s, r). strict_suffix r ts \<and> frag s)" unfolding left_assoc_def using ts
    by simp (intro parses_spec [OF p], auto)
qed

section \<open>Expressions\<close>

lemma infix_frag: "\<lbrakk>frag l; frag r; clause op\<rbrakk> \<Longrightarrow> frag (infix_op op l r)"
  unfolding infix_op_def by (intro paren_frag clause_append frag_clause [of l] frag_clause [of r]) (simp_all add: plain_clause lit_simps)

lemma division_frag: "\<lbrakk>frag l; frag r\<rbrakk> \<Longrightarrow> frag (infix_op ''/'' l r)" "\<lbrakk>frag l; frag r\<rbrakk> \<Longrightarrow> frag (infix_op ''-'' l r)"
proof -
  have "clause ('' '' @ ''/'' @ '' '')" "clause ('' '' @ ''-'' @ '' '')" by (simp_all add: clause_def sql_step_def squote_def dquote_def)
  then show "\<lbrakk>frag l; frag r\<rbrakk> \<Longrightarrow> frag (infix_op ''/'' l r)" "\<lbrakk>frag l; frag r\<rbrakk> \<Longrightarrow> frag (infix_op ''-'' l r)"
    unfolding infix_op_def by (metis append_assoc clause_append frag_clause paren_frag)+
qed

lemma op_cases:
  "mul_op t = Some f \<Longrightarrow> f \<in> {infix_op ''*'', infix_op ''/'', infix_op ''%''}"
  "add_op t = Some f \<Longrightarrow> f \<in> {infix_op ''+'', infix_op ''-''}"
  "and_op t = Some f \<Longrightarrow> f = infix_op ''AND''"
  "or_op t = Some f \<Longrightarrow> f = infix_op ''OR''"
  "cmp_op t = Some f \<Longrightarrow> f \<in> {infix_op ''='', infix_op ''<>'', infix_op ''<'', infix_op ''<='', infix_op ''>'', infix_op ''>='',
     \<lambda>l r. infix_op ''LIKE'' l (add_like_both r), \<lambda>l r. infix_op ''LIKE'' l (add_like_right r), \<lambda>l r. infix_op ''LIKE'' l (add_like_left r)}"
  by (cases t; auto simp: mul_op_def add_op_def and_op_def or_op_def cmp_op_def split: if_splits)+

lemma op_clauses:
  "clause ''*''" "clause ''%''" "clause ''+''" "clause ''AND''" "clause ''OR''" "clause ''=''" "clause ''<>''" "clause ''<''" "clause ''<=''" "clause ''>''" "clause ''>=''" "clause ''LIKE''"
  by (simp_all add: plain_clause lit_simps)

lemma ops_frag: "frag_op mul_op" "frag_op add_op" "frag_op cmp_op" "frag_op and_op" "frag_op or_op"
  unfolding frag_op_def
  by (blast dest!: op_cases intro: infix_frag op_clauses division_frag like_frag)+

lemma call_frag: "\<lbrakk>list_all plain_char f; f \<noteq> []; clause x\<rbrakk> \<Longrightarrow> frag (call f x)"
  unfolding call_def by (intro frag_append plain_frag frag_clause [OF paren_frag])

lemma text_clauses:
  "clause '' AS TIMESTAMP''" "clause '' IS NULL''" "clause '' IS NOT NULL''" "clause ''DISTINCT ''" "clause ''now() - ''" "clause '', TIMESTAMP ''"
  "clause ''CASE WHEN ''" "clause '' THEN ''" "clause '' ELSE ''" "clause '' END''" "clause '' ELSE NULL END''" "clause ''DISTINCT CASE WHEN ''"
  "clause '' >= ''" "clause '' <= ''" "clause '' AND ''" "clause '' IN ''" "clause ''NOT ''"
  by (simp_all add: clause_def sql_step_def squote_def dquote_def)

lemma func_names:
  "list_all plain_char ''date_trunc''" "list_all plain_char ''CAST''" "list_all plain_char ''lower''" "list_all plain_char ''upper''"
  "list_all plain_char ''char_length''" "list_all plain_char ''count''" "list_all plain_char ''sum''" "list_all plain_char ''avg''"
  "list_all plain_char ''min''" "list_all plain_char ''max''" "list_all plain_char ''array_agg''" "list_all plain_char ''concat''" "list_all plain_char ''date_bin''"
  by (simp_all add: lit_simps)

lemma func_table0_frag: "(n, s) \<in> set func_table0 \<Longrightarrow> frag s"
  by (auto simp: func_table0_def frag_def clause_def sql_step_def squote_def dquote_def)

lemma func_table1_frag:
  assumes "(n, f) \<in> set func_table1" and "frag x"
  shows "frag (f x)"
  using assms(1) unfolding func_table1_def set_simps insert_iff prod.inject
  by (elim disjE conjE emptyE; hypsubst)
    (intro paren_frag call_frag clause_append text_clauses func_names comma_clause frag_clause [OF sql_string_frag] frag_clause [OF assms(2)] list.distinct(2); fail)+

lemma func_table2_frag:
  assumes "(n, f) \<in> set func_table2" and "frag x" "frag y"
  shows "frag (f x y)"
  using assms(1) unfolding func_table2_def set_simps insert_iff prod.inject
  by (elim disjE conjE emptyE; hypsubst)
    (intro paren_frag call_frag clause_append text_clauses func_names comma_clause frag_clause [OF sql_string_frag] frag_clause [OF assms(2)]
      frag_clause [OF assms(3)] list.distinct(2); fail)+

lemma iff_frag: "\<lbrakk>frag c; frag a; frag b\<rbrakk> \<Longrightarrow> frag (iff_sql c a b)"
  unfolding iff_sql_def by (intro paren_frag clause_append text_clauses frag_clause)

lemma func_frag:
  assumes "list_all frag args"
  shows "spec (func_sql name args) frag"
proof -
  have "frag (call ''concat'' (join '', '' args))"
    by (intro call_frag join_clause frags_clauses assms comma_clause func_names list.distinct(2))
  moreover have "frag s" if "func_table name args = Some s" for s
    using that assms
    by (auto simp: func_table_def split: list.splits if_splits dest!: map_of_SomeD intro: func_table0_frag func_table1_frag func_table2_frag iff_frag)
  ultimately show ?thesis unfolding func_sql_def by (auto split: option.splits)
qed

lemma int_frag: "0 \<le> n \<Longrightarrow> frag (show_int n)"
  by (simp add: show_int_def show_nat_frag)

lemma float_frag:
  assumes "floats_ok fl" "number_ok s" "parse_f64 fl s = Inr f"
  shows "frag (show_f64 fl f)"
proof (rule plain_frag)
  have "show_f64 fl f \<noteq> []" "list_all (\<lambda>c. is_ascii_alphanumeric c \<or> c = CHR ''.'') (show_f64 fl f)" using assms unfolding floats_ok_def by blast+
  then show "list_all plain_char (show_f64 fl f)" "show_f64 fl f \<noteq> []" using word_plain by (auto simp: list_all_iff)
qed

lemma func_call_parses:
  assumes E: "parses fl n E frag" and ts: "length ts \<le> n" "toks_ok fl ts"
  shows "spec (parse_func_call E name ts) (\<lambda>(s, r). suffix r ts \<and> frag s)"
proof (cases "eat TRParen ts")
  case None
  have "spec (items E ts) (\<lambda>(xs, r). strict_suffix r ts \<and> xs \<noteq> [] \<and> list_all frag xs)"
    using items_parses [OF E] ts by (simp add: parses_def)
  then show ?thesis unfolding parse_func_call_def using None
    by (auto elim!: spec_mono intro!: spec_mono [OF func_frag] dest: suffix_ConsD simp: strict_suffix_def)
next
  case (Some r)
  then show ?thesis unfolding parse_func_call_def by (auto intro!: spec_mono [OF func_frag] suffix_ConsI)
qed

lemma interval_spec: "tok_ok fl (TDuration d) \<Longrightarrow> spec (duration_to_sql_interval d) frag"
  using interval_frag [of d] by (auto simp: spec_def tok_ok_def duration_to_sql_interval_def Let_def split: sum.splits if_splits)

lemma atom_parses:
  assumes E: "parses fl n E frag" and fl: "floats_ok fl"
  shows "parses fl (Suc n) (parse_atom fl E) frag"
proof (rule parsesI)
  fix ts assume ts: "length ts \<le> Suc n" "toks_ok fl ts"
  show "spec (parse_atom fl E ts) (\<lambda>(s, r). strict_suffix r ts \<and> frag s)"
  proof (cases ts)
    case Nil
    then show ?thesis by (simp add: parse_atom_def)
  next
    case (Cons t r)
    then have r: "length r \<le> n" "toks_ok fl r" "tok_ok fl t" "strict_suffix r ts" using ts suffix_Cons_strict [of r r t] by auto
    have star: "frag ''*''" "frag ''TRUE''" "frag ''FALSE''" "frag ''NULL''" by (simp_all add: plain_frag lit_simps)
    have inner: "spec (E r) (\<lambda>(s, r'). \<forall>q. r' = TRParen # q \<longrightarrow> strict_suffix q (t # r) \<and> frag (paren s))"
      by (rule parses_spec [OF E r(1,2)]) (auto intro!: paren_frag frag_clause strict_suffix_Cons dest: suffix_steps(4))
    have call: "spec (parse_func_call E name r') (\<lambda>(s, q). strict_suffix q (t # r) \<and> frag s)" if "r = TLParen # r'" for name r'
      by (rule spec_mono [OF func_call_parses [OF E]]) (use that r in \<open>auto intro!: suffix_Cons_strict suffix_ConsI\<close>)
    show ?thesis
    proof (cases t)
      case (TIdent name)
      then show ?thesis unfolding Cons using r(4) call star quote_ident_frag Cons
        by (auto simp: parse_atom_def split: option.splits)
    next
      case (TDuration d)
      then show ?thesis unfolding Cons using r(4) Cons spec_mono [OF interval_spec [of fl d]] r(3) by (auto simp: parse_atom_def)
    next
      case TLParen
      then show ?thesis unfolding Cons using inner by (auto simp: parse_atom_def elim!: spec_mono)
    next
      case (TInt n)
      then show ?thesis using r int_frag by (simp add: parse_atom_def Cons tok_ok_def)
    next
      case (TFloat f)
      then show ?thesis using r float_frag [OF fl] by (auto simp: parse_atom_def Cons tok_ok_def)
    qed (use r star sql_string_frag in \<open>simp_all add: parse_atom_def Cons\<close>)
  qed
qed

lemma neg_frag: "frag s \<Longrightarrow> frag (''(-'' @ s @ '')'')"
  by (simp add: frag_def clause_def sql_scan_append sql_step_def squote_def dquote_def)

lemma unary_parses:
  assumes E: "parses fl n E frag" and fl: "floats_ok fl"
  shows "parses fl (Suc n) (parse_unary fl E) frag"
proof (rule parsesI)
  note a = atom_parses [OF assms]
  show "\<lbrakk>length ts \<le> Suc n; toks_ok fl ts\<rbrakk> \<Longrightarrow> spec (parse_unary fl E ts) (\<lambda>(s, r). strict_suffix r ts \<and> frag s)" for ts
  proof (induction ts)
    case Nil
    have "spec (parse_atom fl E []) (\<lambda>(s, r). strict_suffix r [] \<and> frag s)" by (rule parses_spec [OF a]) auto
    then show ?case by (simp only: parse_unary.simps parse_not.simps)
  next
    case (Cons t r)
    then show ?case using a unfolding parses_def
      by (auto elim!: spec_mono intro: neg_frag strict_suffix_Cons simp del: append.simps)
  qed
qed

lemma multiplicative_parses: "\<lbrakk>parses fl n E frag; floats_ok fl\<rbrakk> \<Longrightarrow> parses fl (Suc n) (parse_multiplicative fl E) frag"
  unfolding parse_multiplicative_def by (intro left_assoc_parses unary_parses ops_frag)

lemma additive_parses: "\<lbrakk>parses fl n E frag; floats_ok fl\<rbrakk> \<Longrightarrow> parses fl (Suc n) (parse_additive fl E) frag"
  unfolding parse_additive_def by (intro left_assoc_parses multiplicative_parses ops_frag)

lemma between_frag: "\<lbrakk>frag l; frag a; frag b\<rbrakk> \<Longrightarrow> frag (between_sql l a b)"
  unfolding between_sql_def by (intro paren_frag clause_append text_clauses frag_clause [OF paren_frag] frag_clause)

lemma in_frag: "\<lbrakk>frag l; list_all frag vs\<rbrakk> \<Longrightarrow> frag (in_sql l vs)"
  unfolding in_sql_def by (intro paren_frag clause_append text_clauses frag_clause [OF paren_frag] join_clause frags_clauses comma_clause) (rule frag_clause)

lemma comparison_parses:
  assumes E: "parses fl n E frag" and fl: "floats_ok fl"
  shows "parses fl (Suc n) (parse_comparison fl E) frag"
proof (rule parsesI)
  note a = additive_parses [OF assms]
  fix ts assume ts: "length ts \<le> Suc n" "toks_ok fl ts"
  have rest: "spec (parse_additive fl E q) (case_prod K)" if "suffix q ts" "\<And>x r. \<lbrakk>strict_suffix r ts; frag x\<rbrakk> \<Longrightarrow> K x r" for q K
    by (rule parses_suffix [OF a that(1) ts]) (use that(2) in auto)
  have many: "spec (items (parse_additive fl E) q) (case_prod K)" if "suffix q ts" "\<And>x r. \<lbrakk>strict_suffix r ts; list_all frag x\<rbrakk> \<Longrightarrow> K x r" for q K
    by (rule parses_suffix [OF items_parses [OF a] that(1) ts]) (use that(2) in auto)
  have op: "frag (f l r)" if "cmp_op t = Some f" "frag l" "frag r" for t f l r using ops_frag(3) that unfolding frag_op_def by blast
  show "spec (parse_comparison fl E ts) (\<lambda>(s, r). strict_suffix r ts \<and> frag s)"
    unfolding parse_comparison_def spec_pbind
  proof (rule rest, simp)
    fix l r assume l: "strict_suffix r ts" "frag l"
    have r: "suffix (tl r) ts" by (rule suffix_steps(5) [OF l(1)])
    have between: "spec (pbind (expect TLParen w (tl r)) (\<lambda>_ r. pbind (parse_additive fl E r) (\<lambda>low r.
       pbind (expect TDotDot w' r) (\<lambda>_ r. pbind (parse_additive fl E r) (\<lambda>high r.
       pbind (expect TRParen w'' r) (\<lambda>_ r. Inr (between_sql l low high, r))))))) (\<lambda>(s, r). strict_suffix r ts \<and> frag s)" for w w' w''
      by (simp only: spec_pbind spec_expect spec_base prod.case, intro rest allI impI conjI between_frag l(2))
        (use l(1) r in \<open>auto dest: suffix_steps(1-4)\<close>)
    have in_list: "spec (pbind (expect TLParen w (tl r)) (\<lambda>_ r. pbind (items (parse_additive fl E) r) (\<lambda>vs r.
       pbind (expect TRParen w' r) (\<lambda>_ r. Inr (in_sql l vs, r))))) (\<lambda>(s, r). strict_suffix r ts \<and> frag s)" for w w'
      by (simp only: spec_pbind spec_expect spec_base prod.case, intro many allI impI conjI in_frag l(2))
        (use l(1) r in \<open>auto dest: suffix_steps(1-4)\<close>)
    have cmp: "spec (pbind (parse_additive fl E (tl r)) (\<lambda>rhs r. Inr (f l rhs, r))) (\<lambda>(s, r). strict_suffix r ts \<and> frag s)"
      if "peek r = Some t" "cmp_op t = Some f" for t f
      by (simp only: spec_pbind spec_base prod.case, intro rest conjI op [OF that(2) l(2)]) (use l(1) r in \<open>auto dest: suffix_steps(1-4)\<close>)
    show "spec (if peek_ident ''between'' r then
       pbind (expect TLParen ''`(`'' (tl r)) (\<lambda>_ r. pbind (parse_additive fl E r) (\<lambda>low r.
       pbind (expect TDotDot ''`..`'' r) (\<lambda>_ r. pbind (parse_additive fl E r) (\<lambda>high r.
       pbind (expect TRParen ''`)`'' r) (\<lambda>_ r. Inr (between_sql l low high, r))))))
     else if peek_in r then
       pbind (expect TLParen ''`(` after `in`'' (tl r)) (\<lambda>_ r. pbind (items (parse_additive fl E) r) (\<lambda>vs r.
       pbind (expect TRParen ''`)`'' r) (\<lambda>_ r. Inr (in_sql l vs, r))))
     else (case peek r of
       None \<Rightarrow> Inr (l, r)
     | Some t \<Rightarrow>
         (case cmp_op t of
            None \<Rightarrow> Inr (l, r)
          | Some f \<Rightarrow> pbind (parse_additive fl E (tl r)) (\<lambda>rhs r. Inr (f l rhs, r))))) (\<lambda>(s, r). strict_suffix r ts \<and> frag s)"
      using between in_list cmp l by (simp only: spec_base prod.case simp_thms split: if_split option.split) blast
  qed
qed

lemma not_frag: "frag s \<Longrightarrow> frag (paren (''NOT '' @ s))"
  by (intro paren_frag clause_append text_clauses frag_clause)

lemma not_parses:
  assumes E: "parses fl n E frag" and fl: "floats_ok fl"
  shows "parses fl (Suc n) (parse_not fl E) frag"
proof (rule parsesI)
  note a = comparison_parses [OF assms]
  show "\<lbrakk>length ts \<le> Suc n; toks_ok fl ts\<rbrakk> \<Longrightarrow> spec (parse_not fl E ts) (\<lambda>(s, r). strict_suffix r ts \<and> frag s)" for ts
  proof (induction ts)
    case Nil
    have "spec (parse_comparison fl E []) (\<lambda>(s, r). strict_suffix r [] \<and> frag s)" by (rule parses_spec [OF a]) auto
    then show ?case by (simp only: parse_unary.simps parse_not.simps)
  next
    case (Cons t r)
    then show ?case using a unfolding parses_def
      by (auto elim!: spec_mono intro: not_frag strict_suffix_Cons simp del: append.simps)
  qed
qed

lemma and_parses: "\<lbrakk>parses fl n E frag; floats_ok fl\<rbrakk> \<Longrightarrow> parses fl (Suc n) (parse_and fl E) frag"
  unfolding parse_and_def by (intro left_assoc_parses not_parses ops_frag)

lemma or_parses: "\<lbrakk>parses fl n E frag; floats_ok fl\<rbrakk> \<Longrightarrow> parses fl (Suc n) (parse_or fl E) frag"
  unfolding parse_or_def by (intro left_assoc_parses and_parses ops_frag)

lemma expr_upto_parses: "floats_ok fl \<Longrightarrow> parses fl n (parse_expr_upto fl (Suc n)) frag"
proof (induction n)
  case 0
  have "parses fl 0 (parse_or fl (parse_expr_upto fl 0)) frag"
  proof (rule parsesI)
    fix ts :: "'a kql_token list" assume "length ts \<le> 0"
    then have "ts = []" by simp
    then show "spec (parse_or fl (parse_expr_upto fl 0) ts) (\<lambda>(x, r). strict_suffix r ts \<and> frag x)"
      by (simp add: parse_or_def parse_and_def parse_comparison_def parse_additive_def parse_multiplicative_def left_assoc_def parse_atom_def)
  qed
  then show ?case by (simp add: parses_def)
next
  case (Suc n)
  have "parse_expr_upto fl (Suc (Suc n)) = parse_or fl (parse_expr_upto fl (Suc n))" by (rule ext) (rule parse_expr_upto.simps)
  then show ?case using or_parses [OF Suc.IH [OF Suc.prems] Suc.prems] by (simp only:)
qed

lemma expr_parses: "floats_ok fl \<Longrightarrow> parses fl n (parse_expr fl) frag"
proof (rule parsesI)
  fix ts :: "'a kql_token list" assume "floats_ok fl" "toks_ok fl ts"
  then show "spec (parse_expr fl ts) (\<lambda>(x, r). strict_suffix r ts \<and> frag x)"
    using expr_upto_parses [of fl "length ts"] unfolding parse_expr_def parses_def by blast
qed

end
