(* ===== verification/Kql_Grammar.thy ===== *)
theory Kql_Grammar
  imports Kql_Safe
begin

text \<open>
  A declarative grammar of the expressions, with the SQL text of each phrase, and the proof that the
  recursive-descent parser accepts exactly its phrases. The grammar fixes what the code leaves to the
  order of its calls: the precedence of the operators, that the binary ones associate to the left, that
  comparisons do not chain, and where \<open>not\<close> is a keyword.
\<close>

section \<open>The grammar\<close>

text \<open>
  The levels: 0 \<open>or\<close>, 1 \<open>and\<close>, 2 \<open>not\<close>, 3 comparisons, 4 sums, 5 products, 6 negation, 7 atoms.
\<close>

definition level_op :: "nat \<Rightarrow> 'f kql_token \<Rightarrow> (string \<Rightarrow> string \<Rightarrow> string) option" where
  "level_op l t = (if l = 0 then or_op t else if l = 1 then and_op t else if l = 4 then add_op t else if l = 5 then mul_op t else None)"

definition column_sql :: "string \<Rightarrow> string" where
  "column_sql name = (if name = ''true'' then ''TRUE'' else if name = ''false'' then ''FALSE'' else if name = ''null'' then ''NULL'' else quote_ident name)"

definition is_in :: "string \<Rightarrow> bool" where
  "is_in s \<longleftrightarrow> map to_ascii_lowercase s = ''in''"

inductive phrase :: "'f floats \<Rightarrow> nat \<Rightarrow> 'f kql_token list \<Rightarrow> string \<Rightarrow> bool"
  and phrases :: "'f floats \<Rightarrow> nat \<Rightarrow> 'f kql_token list \<Rightarrow> string list \<Rightarrow> bool"
  for fl :: "'f floats" where
  up: "\<lbrakk>phrase fl (Suc l) ts s; l < 7; l = 2 \<longrightarrow> hd ts \<noteq> TIdent ''not''\<rbrakk> \<Longrightarrow> phrase fl l ts s"
| binary: "\<lbrakk>phrase fl l ts s; level_op l t = Some f; phrase fl (Suc l) us r\<rbrakk> \<Longrightarrow> phrase fl l (ts @ t # us) (f s r)"
| negated: "phrase fl 2 ts s \<Longrightarrow> phrase fl 2 (TIdent ''not'' # ts) (paren (''NOT '' @ s))"
| compared: "\<lbrakk>phrase fl 4 ts s; cmp_op t = Some f; phrase fl 4 us r\<rbrakk> \<Longrightarrow> phrase fl 3 (ts @ t # us) (f s r)"
| between: "\<lbrakk>phrase fl 4 ts s; phrase fl 4 us low; phrase fl 4 vs high\<rbrakk>
    \<Longrightarrow> phrase fl 3 (ts @ TIdent ''between'' # TLParen # us @ TDotDot # vs @ [TRParen]) (between_sql s low high)"
| in_list: "\<lbrakk>phrase fl 4 ts s; is_in w; phrases fl 4 us xs\<rbrakk> \<Longrightarrow> phrase fl 3 (ts @ TIdent w # TLParen # us @ [TRParen]) (in_sql s xs)"
| minus: "phrase fl 6 ts s \<Longrightarrow> phrase fl 6 (TMinus # ts) (''(-'' @ s @ '')'')"
| int: "phrase fl 7 [TInt n] (show_int n)"
| float: "phrase fl 7 [TFloat f] (show_f64 fl f)"
| str: "phrase fl 7 [TStr s] (sql_string s)"
| duration: "duration_to_sql_interval d = (Inr s :: 'f parse_error + string) \<Longrightarrow> phrase fl 7 [TDuration d] s"
| star: "phrase fl 7 [TStar] ''*''"
| column: "phrase fl 7 [TIdent name] (column_sql name)"
| parens: "phrase fl 0 ts s \<Longrightarrow> phrase fl 7 (TLParen # ts @ [TRParen]) (paren s)"
| call0: "func_sql name [] = (Inr s :: 'f parse_error + string) \<Longrightarrow> phrase fl 7 [TIdent name, TLParen, TRParen] s"
| call: "\<lbrakk>phrases fl 0 ts xs; func_sql name xs = (Inr s :: 'f parse_error + string)\<rbrakk> \<Longrightarrow> phrase fl 7 (TIdent name # TLParen # ts @ [TRParen]) s"
| one: "phrase fl l ts s \<Longrightarrow> phrases fl l ts [s]"
| more: "\<lbrakk>phrase fl l ts s; phrases fl l us xs\<rbrakk> \<Longrightarrow> phrases fl l (ts @ TComma # us) (s # xs)"

text \<open>The parser of each level.\<close>

definition parse_level :: "'f floats \<Rightarrow> nat \<Rightarrow> nat \<Rightarrow> 'f kql_token list \<Rightarrow> ('f, string) parsed" where
  "parse_level fl n l = (let E = parse_expr_upto fl n in
     if l = 0 then parse_or fl E else if l = 1 then parse_and fl E else if l = 2 then parse_not fl E else if l = 3 then parse_comparison fl E
     else if l = 4 then parse_additive fl E else if l = 5 then parse_multiplicative fl E else if l = 6 then parse_unary fl E else parse_atom fl E)"

lemma parse_levels:
  "parse_level fl n 0 = parse_or fl (parse_expr_upto fl n)"
  "parse_level fl n (Suc 0) = parse_and fl (parse_expr_upto fl n)"
  "parse_level fl n 2 = parse_not fl (parse_expr_upto fl n)"
  "parse_level fl n 3 = parse_comparison fl (parse_expr_upto fl n)"
  "parse_level fl n 4 = parse_additive fl (parse_expr_upto fl n)"
  "parse_level fl n 5 = parse_multiplicative fl (parse_expr_upto fl n)"
  "parse_level fl n 6 = parse_unary fl (parse_expr_upto fl n)"
  "parse_level fl n 7 = parse_atom fl (parse_expr_upto fl n)"
  by (simp_all add: parse_level_def)

lemma level_ops: "level_op 0 = or_op" "level_op (Suc 0) = and_op" "level_op 4 = add_op" "level_op 5 = mul_op" "level_op 6 t = None"
  by (simp_all add: level_op_def fun_eq_iff)

lemma left_assoc_level:
  assumes "l \<in> {0, 1, 4, 5}"
  shows "parse_level fl n l = left_assoc (level_op l) (parse_level fl n (Suc l))"
proof -
  have "parse_or fl E = left_assoc or_op (parse_and fl E)" "parse_and fl E = left_assoc and_op (parse_not fl E)"
    "parse_additive fl E = left_assoc add_op (parse_multiplicative fl E)" "parse_multiplicative fl E = left_assoc mul_op (parse_unary fl E)" for E
    by (simp_all add: fun_eq_iff parse_or_def parse_and_def parse_additive_def parse_multiplicative_def)
  then show ?thesis using assms by (auto simp: parse_level_def Let_def level_ops)
qed

section \<open>What is parsed is a phrase\<close>

definition reads :: "'f floats \<Rightarrow> nat \<Rightarrow> ('f kql_token list \<Rightarrow> ('f, string) parsed) \<Rightarrow> bool" where
  "reads fl l p \<longleftrightarrow> (\<forall>ts s r. p ts = Inr (s, r) \<longrightarrow> (\<exists>us. ts = us @ r \<and> phrase fl l us s))"

lemma readsD: "\<lbrakk>reads fl l p; p ts = Inr (s, r)\<rbrakk> \<Longrightarrow> \<exists>us. ts = us @ r \<and> phrase fl l us s"
  by (simp add: reads_def)

lemma pbind_Inr: "pbind m k = Inr y \<longleftrightarrow> (\<exists>x r. m = Inr (x, r) \<and> k x r = Inr y)"
  by (auto simp: pbind_def split: sum.splits)

lemma expect_Inr: "expect t w ts = Inr (u, r) \<longleftrightarrow> ts = t # r"
  by (auto simp: expect_def split: option.splits)

lemma bump_Inr: "bump ts = Inr (t, r) \<longleftrightarrow> ts = t # r"
  by (auto simp: bump_def split: list.splits)

lemma peek_iff: "peek ts = Some t \<longleftrightarrow> (\<exists>r. ts = t # r)"
  by (auto simp: peek_def split: list.splits)

lemma peek_ident_iff: "peek_ident w q \<longleftrightarrow> (\<exists>q'. q = TIdent w # q')"
  by (simp add: peek_ident_def peek_iff)

lemma peek_in_iff: "peek_in q \<longleftrightarrow> (\<exists>w q'. q = TIdent w # q' \<and> is_in w)"
  by (auto simp: peek_in_def peek_def is_in_def split: list.splits kql_token.splits)

lemma phrase_nonempty: "phrase fl l ts s \<Longrightarrow> ts \<noteq> []" and phrases_nonempty: "phrases fl l us xs \<Longrightarrow> us \<noteq> []"
  by (induction rule: phrase_phrases.inducts) auto

lemma sep_list_Suc:
  "sep_list (Suc m) sep p ts = pbind (p ts) (\<lambda>x r.
     case eat sep r of None \<Rightarrow> Inr ([x], r) | Some r' \<Rightarrow> pbind (sep_list m sep p r') (\<lambda>xs r''. Inr (x # xs, r'')))"
  by (subst sep_list.simps, unfold nat.case) (rule HOL.refl)

lemma chain_loop_Suc:
  "chain_loop (Suc m) opf p lhs ts =
     (case ts of [] \<Rightarrow> Inr (lhs, ts) | t # r \<Rightarrow>
        (case opf t of None \<Rightarrow> Inr (lhs, ts) | Some f \<Rightarrow> pbind (p r) (\<lambda>rhs r'. chain_loop m opf p (f lhs rhs) r')))"
  by (subst chain_loop.simps, unfold nat.case) (rule HOL.refl)

lemma sep_list_phrases:
  assumes p: "reads fl l p"
  shows "sep_list m TComma p ts = Inr (xs, r) \<Longrightarrow> \<exists>us. ts = us @ r \<and> phrases fl l us xs"
proof (induction m arbitrary: ts xs)
  case 0
  then show ?case by (subst (asm) sep_list.simps) (auto simp: pbind_Inr split: option.splits dest!: readsD [OF p] intro: one)
next
  case (Suc m)
  from Suc.prems obtain x q where x: "p ts = Inr (x, q)"
    and q: "(case eat TComma q of None \<Rightarrow> Inr ([x], q) | Some r' \<Rightarrow> pbind (sep_list m TComma p r') (\<lambda>xs r''. Inr (x # xs, r''))) = Inr (xs, r)"
    by (auto simp: sep_list_Suc pbind_Inr)
  obtain us where us: "ts = us @ q" "phrase fl l us x" using readsD [OF p x] by blast
  show ?case
  proof (cases "eat TComma q")
    case None
    then show ?thesis using us q by (auto intro: one)
  next
    case (Some q')
    with q obtain ys where ys: "sep_list m TComma p q' = Inr (ys, r)" "xs = x # ys" by (auto simp: pbind_Inr)
    then obtain vs where "q' = vs @ r" "phrases fl l vs ys" using Suc.IH by blast
    then have "ts = (us @ TComma # vs) @ r" "phrases fl l (us @ TComma # vs) xs" using us Some ys(2) by (auto intro: more)
    then show ?thesis by blast
  qed
qed

lemma items_phrases: "\<lbrakk>reads fl l p; items p ts = Inr (xs, r)\<rbrakk> \<Longrightarrow> \<exists>us. ts = us @ r \<and> phrases fl l us xs"
  unfolding items_def by (rule sep_list_phrases)

lemma chain_phrase:
  assumes p: "reads fl (Suc l) p"
  shows "\<lbrakk>chain_loop m (level_op l) p lhs ts = Inr (s, r); phrase fl l us lhs\<rbrakk> \<Longrightarrow> \<exists>vs. ts = vs @ r \<and> phrase fl l (us @ vs) s"
proof (induction m arbitrary: lhs ts us)
  case 0
  then show ?case by (subst (asm) chain_loop.simps) (auto split: list.splits option.splits)
next
  case (Suc m)
  show ?case
  proof (cases "\<exists>t q f. ts = t # q \<and> level_op l t = Some f")
    case True
    then obtain t q f where t: "ts = t # q" "level_op l t = Some f" by blast
    then obtain x q' where x: "p q = Inr (x, q')" "chain_loop m (level_op l) p (f lhs x) q' = Inr (s, r)"
      using Suc.prems(1) by (auto simp: chain_loop_Suc pbind_Inr)
    obtain vs where vs: "q = vs @ q'" "phrase fl (Suc l) vs x" using readsD [OF p x(1)] by blast
    have "phrase fl l (us @ t # vs) (f lhs x)" by (rule binary [OF Suc.prems(2) t(2) vs(2)])
    from Suc.IH [OF x(2) this] obtain ws where "q' = ws @ r" "phrase fl l ((us @ t # vs) @ ws) s" by blast
    then have "ts = (t # vs @ ws) @ r" "phrase fl l (us @ (t # vs @ ws)) s" using t vs by auto
    then show ?thesis by blast
  next
    case False
    then show ?thesis using Suc.prems by (auto simp: chain_loop_Suc split: list.splits option.splits)
  qed
qed

lemma left_assoc_reads:
  assumes "reads fl (Suc l) p" "l < 7" "l \<noteq> 2"
  shows "reads fl l (left_assoc (level_op l) p)"
  unfolding reads_def
proof (intro allI impI)
  fix ts s r assume "left_assoc (level_op l) p ts = Inr (s, r)"
  then obtain x q where x: "p ts = Inr (x, q)" "chain_loop (length q) (level_op l) p x q = Inr (s, r)" by (auto simp: left_assoc_def pbind_Inr)
  obtain us where us: "ts = us @ q" "phrase fl (Suc l) us x" using readsD [OF assms(1) x(1)] by blast
  have "phrase fl l us x" using us(2) assms(2,3) by (blast intro: up)
  from chain_phrase [OF assms(1) x(2) this] us(1) show "\<exists>us. ts = us @ r \<and> phrase fl l us s" by (metis append_assoc)
qed

lemma atom_reads:
  assumes E: "reads fl 0 E"
  shows "reads fl 7 (parse_atom fl E)"
  unfolding reads_def
proof (intro allI impI)
  fix ts s r assume p: "parse_atom fl E ts = Inr (s, r)"
  then obtain t q where t: "ts = t # q" by (auto simp: parse_atom_def pbind_Inr bump_Inr)
  have inner: "\<exists>us. TLParen # q = us @ r \<and> phrase fl 7 us (paren x)" if e: "E q = Inr (x, TRParen # r)" for x
  proof -
    obtain us where "q = us @ TRParen # r" "phrase fl 0 us x" using readsD [OF E e] by blast
    then show ?thesis by (intro exI [of _ "TLParen # us @ [TRParen]"]) (auto intro: parens)
  qed
  have call: "\<exists>us. TIdent name # TLParen # q' = us @ r \<and> phrase fl 7 us s" if c: "parse_func_call E name q' = Inr (s, r)" for name q'
  proof (cases "eat TRParen q'")
    case None
    then obtain xs where xs: "items E q' = Inr (xs, TRParen # r)" "func_sql name xs = (Inr s :: 'a parse_error + string)"
      using c by (auto simp: parse_func_call_def pbind_Inr expect_Inr bindE_Inr_iff)
    then obtain us where "q' = us @ TRParen # r" "phrases fl 0 us xs" using items_phrases [OF E] by blast
    then show ?thesis using xs(2) by (intro exI [of _ "TIdent name # TLParen # us @ [TRParen]"]) (auto intro: phrase_phrases.call)
  next
    case (Some q'')
    then have "q' = TRParen # r" "func_sql name [] = (Inr s :: 'a parse_error + string)" using c
      by (auto simp: parse_func_call_def pbind_Inr bindE_Inr_iff)
    then show ?thesis by (intro exI [of _ "[TIdent name, TLParen, TRParen]"]) (auto intro: call0)
  qed
  show "\<exists>us. ts = us @ r \<and> phrase fl 7 us s"
  proof (cases t)
    case (TIdent name)
    show ?thesis
    proof (cases "eat TLParen q")
      case None
      then have "s = column_sql name" "q = r" using p by (auto simp: parse_atom_def pbind_Inr bump_Inr t TIdent column_sql_def split: if_splits)
      then show ?thesis unfolding t TIdent by (intro exI [of _ "[TIdent name]"]) (auto intro: column)
    next
      case (Some q')
      then show ?thesis using p call [of name q'] by (auto simp: parse_atom_def pbind_Inr bump_Inr t TIdent)
    qed
  next
    case TLParen
    then show ?thesis using p inner by (auto simp: parse_atom_def pbind_Inr bump_Inr expect_Inr t)
  next
    case (TInt n)
    then show ?thesis using p by (intro exI [of _ "[t]"]) (auto simp: parse_atom_def pbind_Inr bump_Inr t intro: int)
  next
    case (TFloat f)
    then show ?thesis using p by (intro exI [of _ "[t]"]) (auto simp: parse_atom_def pbind_Inr bump_Inr t intro: float)
  next
    case (TStr x)
    then show ?thesis using p by (intro exI [of _ "[t]"]) (auto simp: parse_atom_def pbind_Inr bump_Inr t intro: str)
  next
    case (TDuration d)
    then show ?thesis using p by (intro exI [of _ "[t]"]) (auto simp: parse_atom_def pbind_Inr bump_Inr bindE_Inr_iff t intro: duration)
  next
    case TStar
    then show ?thesis using p by (intro exI [of _ "[t]"]) (auto simp: parse_atom_def pbind_Inr bump_Inr t intro: star)
  qed (use p in \<open>auto simp: parse_atom_def pbind_Inr bump_Inr t\<close>)
qed

lemma unary_reads:
  assumes "reads fl 0 E"
  shows "reads fl 6 (parse_unary fl E)"
proof -
  note a = readsD [OF atom_reads [OF assms]]
  have "parse_unary fl E ts = Inr (s, r) \<Longrightarrow> \<exists>us. ts = us @ r \<and> phrase fl 6 us s" for ts s r
  proof (induction ts arbitrary: s r)
    case Nil
    then show ?case using a [of "[]"] by (auto dest: phrase_nonempty)
  next
    case (Cons t q)
    show ?case
    proof (cases "t = TMinus")
      case True
      then obtain x where x: "parse_unary fl E q = Inr (x, r)" "s = ''(-'' @ x @ '')''" using Cons.prems by (auto simp: pbind_Inr)
      then obtain us where "q = us @ r" "phrase fl 6 us x" using Cons.IH by blast
      moreover have "phrase fl 6 (TMinus # us) s" unfolding x(2) by (rule minus [OF calculation(2)])
      ultimately show ?thesis using True by (intro exI [of _ "TMinus # us"]) simp
    next
      case False
      then show ?thesis using Cons.prems a [of "t # q"] by (auto intro!: up [where l = 6])
    qed
  qed
  then show ?thesis by (simp add: reads_def)
qed

lemma comparison_reads:
  assumes "reads fl 4 (parse_additive fl E)"
  shows "reads fl 3 (parse_comparison fl E)"
  unfolding reads_def
proof (intro allI impI)
  note a = readsD [OF assms]
  fix ts s r assume p: "parse_comparison fl E ts = Inr (s, r)"
  then obtain x q where x: "parse_additive fl E ts = Inr (x, q)" by (auto simp: parse_comparison_def pbind_Inr)
  then obtain us where us: "ts = us @ q" "phrase fl 4 us x" using a by blast
  consider (between) q' where "q = TIdent ''between'' # q'" | (in_list) w q' where "q = TIdent w # q'" "is_in w"
    | (cmp) t f q' where "q = t # q'" "cmp_op t = Some f" "\<not> peek_ident ''between'' q" "\<not> peek_in q"
    | (none) "\<not> peek_ident ''between'' q" "\<not> peek_in q" "\<And>t q'. q = t # q' \<Longrightarrow> cmp_op t = None"
    unfolding peek_ident_iff peek_in_iff by (metis not_None_eq)
  then show "\<exists>us. ts = us @ r \<and> phrase fl 3 us s"
  proof cases
    case between
    then have "peek_ident ''between'' q" by (simp add: peek_ident_iff)
    then obtain low q1 q2 high where l: "q' = TLParen # q1" "parse_additive fl E q1 = Inr (low, TDotDot # q2)"
      "parse_additive fl E q2 = Inr (high, TRParen # r)" "s = between_sql x low high"
      using p x between by (auto simp: parse_comparison_def pbind_Inr expect_Inr)
    obtain vs ws where "q1 = vs @ TDotDot # q2" "phrase fl 4 vs low" "q2 = ws @ TRParen # r" "phrase fl 4 ws high" using a [OF l(2)] a [OF l(3)] by blast
    then show ?thesis using us between l
      by (intro exI [of _ "us @ TIdent ''between'' # TLParen # vs @ TDotDot # ws @ [TRParen]"]) (auto intro: phrase_phrases.between)
  next
    case in_list
    then have "peek_in q" "\<not> peek_ident ''between'' q" by (auto simp: peek_in_iff peek_ident_iff is_in_def)
    then obtain xs q1 where l: "q' = TLParen # q1" "items (parse_additive fl E) q1 = Inr (xs, TRParen # r)" "s = in_sql x xs"
      using p x in_list by (auto simp: parse_comparison_def pbind_Inr expect_Inr)
    obtain vs where "q1 = vs @ TRParen # r" "phrases fl 4 vs xs" using items_phrases [OF assms l(2)] by blast
    then show ?thesis using us in_list l
      by (intro exI [of _ "us @ TIdent w # TLParen # vs @ [TRParen]"]) (auto intro: phrase_phrases.in_list)
  next
    case cmp
    then obtain y where y: "parse_additive fl E q' = Inr (y, r)" "s = f x y" using p x by (auto simp: parse_comparison_def pbind_Inr peek_def)
    then obtain vs where "q' = vs @ r" "phrase fl 4 vs y" using a by blast
    then show ?thesis using us cmp(1,2) y by (intro exI [of _ "us @ t # vs"]) (auto intro: compared)
  next
    case none
    then have "s = x" "r = q" using p x by (auto simp: parse_comparison_def pbind_Inr peek_def split: list.splits)
    then show ?thesis using us by (auto intro!: up [where l = 3])
  qed
qed

lemma not_reads:
  assumes "reads fl 3 (parse_comparison fl E)"
  shows "reads fl 2 (parse_not fl E)"
proof -
  note a = readsD [OF assms]
  have "parse_not fl E ts = Inr (s, r) \<Longrightarrow> \<exists>us. ts = us @ r \<and> phrase fl 2 us s" for ts s r
  proof (induction ts arbitrary: s r)
    case Nil
    then show ?case using a [of "[]"] by (auto dest: phrase_nonempty)
  next
    case (Cons t q)
    show ?case
    proof (cases "t = TIdent ''not''")
      case True
      then obtain x where x: "parse_not fl E q = Inr (x, r)" "s = paren (''NOT '' @ x)" using Cons.prems by (auto simp: pbind_Inr simp del: append.simps)
      then obtain us where us: "q = us @ r" "phrase fl 2 us x" using Cons.IH by blast
      have "phrase fl 2 (TIdent ''not'' # us) s" unfolding x(2) by (rule negated [OF us(2)])
      then show ?thesis using True us(1) by (intro exI [of _ "TIdent ''not'' # us"]) simp
    next
      case False
      then have "parse_comparison fl E (t # q) = Inr (s, r)" using Cons.prems by simp
      then obtain us where us: "t # q = us @ r" "phrase fl 3 us s" using a by blast
      have "hd us = t" using us phrase_nonempty [OF us(2)] by (cases us) auto
      then have "phrase fl 2 us s" using up [of fl 2 us s] False us(2) by (simp add: numeral_3_eq_3)
      then show ?thesis using us(1) by blast
    qed
  qed
  then show ?thesis by (simp add: reads_def)
qed

lemma levels_read:
  assumes E: "reads fl 0 (parse_expr_upto fl n)" and "l \<le> 7"
  shows "reads fl l (parse_level fl n l)"
proof -
  have chain: "reads fl l (parse_level fl n l)" if "reads fl (Suc l) (parse_level fl n (Suc l))" "l \<in> {0, 1, 4, 5}" for l
    unfolding left_assoc_level [OF that(2)] by (rule left_assoc_reads [OF that(1)]) (use that(2) in auto)
  have 7: "reads fl 7 (parse_level fl n 7)" using atom_reads [OF E] by (simp add: parse_levels)
  have 6: "reads fl 6 (parse_level fl n 6)" using unary_reads [OF E] by (simp add: parse_levels)
  have 5: "reads fl 5 (parse_level fl n 5)" by (rule chain) (use 6 in simp_all)
  have 4: "reads fl 4 (parse_level fl n 4)" by (rule chain) (use 5 in simp_all)
  have 3: "reads fl 3 (parse_level fl n 3)" using 4 comparison_reads by (simp add: parse_levels)
  have 2: "reads fl 2 (parse_level fl n 2)" using 3 not_reads by (simp add: parse_levels)
  have 1: "reads fl (Suc 0) (parse_level fl n (Suc 0))" by (rule chain) (use 2 in \<open>simp_all add: numeral_2_eq_2\<close>)
  have 0: "reads fl 0 (parse_level fl n 0)" by (rule chain) (use 1 in simp_all)
  have "l \<in> {0, Suc 0, 2, 3, 4, 5, 6, 7}" using assms(2) by auto
  then show ?thesis using 0 1 2 3 4 5 6 7 by auto
qed

lemma upto_Suc: "parse_expr_upto fl (Suc n) = parse_level fl n 0"
  by (rule ext) (simp add: parse_levels)

lemma upto_reads: "reads fl 0 (parse_expr_upto fl n)"
proof (induction n)
  case (Suc n)
  then show ?case unfolding upto_Suc by (rule levels_read) simp
qed (simp add: reads_def)

section \<open>Every phrase is parsed\<close>

text \<open>What may follow a phrase of a level: no operator that the level or one below it would take in.\<close>

definition follows :: "nat \<Rightarrow> 'f kql_token \<Rightarrow> bool" where
  "follows l t \<longleftrightarrow> t \<noteq> TLParen \<and> t \<noteq> TDot \<and> (l \<le> 5 \<longrightarrow> mul_op t = None) \<and> (l \<le> 4 \<longrightarrow> add_op t = None) \<and>
     (l \<le> 3 \<longrightarrow> cmp_op t = None \<and> (\<forall>w. t = TIdent w \<longrightarrow> w \<noteq> ''between'' \<and> \<not> is_in w)) \<and>
     (l \<le> 1 \<longrightarrow> and_op t = None) \<and> (l = 0 \<longrightarrow> or_op t = None)"

definition stop :: "nat \<Rightarrow> 'f kql_token list \<Rightarrow> bool" where
  "stop l ts \<longleftrightarrow> (\<forall>t r. ts = t # r \<longrightarrow> follows l t)"

lemma stop_simps [simp]: "stop l []" "stop l (t # r) \<longleftrightarrow> follows l t"
  by (simp_all add: stop_def)

lemma stop_mono: "\<lbrakk>stop l ts; l \<le> m\<rbrakk> \<Longrightarrow> stop m ts"
  by (auto simp: stop_def follows_def)

lemma follows_closing [simp]: "follows l TRParen" "follows l TComma" "follows l TDotDot"
  by (simp_all add: follows_def mul_op_def add_op_def cmp_op_def and_op_def or_op_def)

lemma follows_op: "level_op l t = Some f \<Longrightarrow> follows (Suc l) t"
  by (cases t) (auto simp: level_op_def follows_def mul_op_def add_op_def cmp_op_def and_op_def or_op_def is_in_def to_ascii_lowercase_def split: if_splits)

lemma follows_cmp: "cmp_op t = Some f \<Longrightarrow> follows 4 t" "follows 4 (TIdent w)"
  by (cases t; auto simp: follows_def mul_op_def add_op_def cmp_op_def)+

lemma stop_level: "\<lbrakk>stop l (t # r); l \<le> 5\<rbrakk> \<Longrightarrow> level_op l t = None"
  by (auto simp: follows_def level_op_def)

text \<open>The bound of the loops does not matter once it is the number of tokens.\<close>

lemma reads_shorter: "\<lbrakk>reads fl l p; p ts = Inr (s, r)\<rbrakk> \<Longrightarrow> length r < length ts"
  using readsD phrase_nonempty by fastforce

lemma chain_fuel:
  assumes p: "reads fl l p"
  shows "\<lbrakk>length ts \<le> m; length ts \<le> k\<rbrakk> \<Longrightarrow> chain_loop m opf p s ts = chain_loop k opf p s ts"
proof (induction m arbitrary: k s ts)
  case 0
  then show ?case by (simp add: chain_loop.simps)
next
  case (Suc m)
  show ?case
  proof (cases ts)
    case Nil
    then show ?thesis by (simp add: chain_loop.simps)
  next
    case (Cons t r)
    then obtain k' where k': "k = Suc k'" using Suc.prems(2) by (cases k) auto
    have "pbind (p r) (\<lambda>rhs r'. chain_loop m opf p (f s rhs) r') = pbind (p r) (\<lambda>rhs r'. chain_loop k' opf p (f s rhs) r')" for f
    proof (cases "p r")
      case (Inr y)
      obtain x r' where y: "y = (x, r')" by (cases y)
      then have "length r' < length r" using reads_shorter [OF p] Inr by blast
      then have "chain_loop m opf p (f s x) r' = chain_loop k' opf p (f s x) r'" using Suc.prems k' Cons by (intro Suc.IH) auto
      then show ?thesis by (simp add: Inr y pbind_def)
    qed (simp add: pbind_def)
    then show ?thesis unfolding k' chain_loop_Suc Cons by (auto split: option.split)
  qed
qed

definition chain_level :: "nat \<Rightarrow> bool" where
  "chain_level l \<longleftrightarrow> l \<in> {0, 1, 4, 5}"

definition complete :: "'f floats \<Rightarrow> nat \<Rightarrow> 'f kql_token list \<Rightarrow> string \<Rightarrow> bool" where
  "complete fl l ts s \<longleftrightarrow> (\<forall>n rest. length ts \<le> n \<longrightarrow> stop (if chain_level l then Suc l else l) rest \<longrightarrow>
     parse_level fl n l (ts @ rest) =
       (if chain_level l then chain_loop (length rest) (level_op l) (parse_level fl n (Suc l)) s rest else Inr (s, rest)))"

lemma complete_chain:
  "\<lbrakk>complete fl l ts s; chain_level l; length ts \<le> n; stop (Suc l) rest\<rbrakk>
   \<Longrightarrow> parse_level fl n l (ts @ rest) = chain_loop (length rest) (level_op l) (parse_level fl n (Suc l)) s rest"
  by (simp add: complete_def)

lemma completeD:
  assumes c: "complete fl l ts s" and n: "length ts \<le> n" and rest: "stop l rest"
  shows "parse_level fl n l (ts @ rest) = Inr (s, rest)"
proof (cases "chain_level l")
  case True
  then have "l \<le> 5" by (auto simp: chain_level_def)
  then have "level_op l t = None" if "rest = t # r" for t r using rest that by (intro stop_level [of l t r]) simp_all
  then have "chain_loop (length rest) (level_op l) (parse_level fl n (Suc l)) s rest = Inr (s, rest)"
    by (cases rest) (simp_all add: chain_loop.simps)
  then show ?thesis using complete_chain [OF c True n stop_mono [OF rest]] by simp
next
  case False
  then show ?thesis using assms by (simp add: complete_def)
qed

lemma level_reads: "l \<le> 7 \<Longrightarrow> reads fl l (parse_level fl n l)"
  by (rule levels_read [OF upto_reads])

lemma complete_binary:
  assumes c: "complete fl l ts s" "complete fl (Suc l) us r" and op: "level_op l t = Some f"
  shows "complete fl l (ts @ t # us) (f s r)"
proof -
  have l: "chain_level l" using op by (auto simp: level_op_def chain_level_def split: if_splits)
  show ?thesis unfolding complete_def
  proof (intro allI impI)
    fix n and rest :: "'a kql_token list" assume n: "length (ts @ t # us) \<le> n" and "stop (if chain_level l then Suc l else l) rest"
    then have rest: "stop (Suc l) rest" using l by simp
    let ?p = "parse_level fl n (Suc l)"
    have "parse_level fl n l ((ts @ t # us) @ rest) = chain_loop (Suc (length (us @ rest))) (level_op l) ?p s (t # us @ rest)"
      using complete_chain [OF c(1) l, of n "t # us @ rest"] n follows_op [OF op] by simp
    also have "\<dots> = pbind (?p (us @ rest)) (\<lambda>x q. chain_loop (length (us @ rest)) (level_op l) ?p (f s x) q)"
      by (simp add: chain_loop_Suc op)
    also have "\<dots> = chain_loop (length (us @ rest)) (level_op l) ?p (f s r) rest"
      using completeD [OF c(2) _ rest, of n] n by (simp add: pbind_def)
    also have "\<dots> = chain_loop (length rest) (level_op l) ?p (f s r) rest"
      by (rule chain_fuel [OF level_reads]) (use l in \<open>auto simp: chain_level_def\<close>)
    finally show "parse_level fl n l ((ts @ t # us) @ rest) = (if chain_level l
        then chain_loop (length rest) (level_op l) ?p (f s r) rest else Inr (f s r, rest))" using l by simp
  qed
qed

lemma atom_start: "phrase fl 7 ts s \<Longrightarrow> hd ts \<noteq> TMinus"
  by (cases rule: phrase.cases) (auto simp: level_op_def)

lemma complete_up:
  assumes c: "complete fl (Suc l) ts s" and p: "phrase fl (Suc l) ts s" and l: "l < 7" and "not": "l = 2 \<longrightarrow> hd ts \<noteq> TIdent ''not''"
  shows "complete fl l ts s"
  unfolding complete_def
proof (intro allI impI)
  fix n and rest :: "'a kql_token list" assume n: "length ts \<le> n" and rest: "stop (if chain_level l then Suc l else l) rest"
  have deep: "parse_level fl n (Suc l) (ts @ rest) = Inr (s, rest)"
    by (rule completeD [OF c n]) (use rest in \<open>auto split: if_splits intro: stop_mono\<close>)
  obtain t us where ts: "ts = t # us" using phrase_nonempty [OF p] by (cases ts) auto
  show "parse_level fl n l (ts @ rest) =
      (if chain_level l then chain_loop (length rest) (level_op l) (parse_level fl n (Suc l)) s rest else Inr (s, rest))"
  proof (cases "chain_level l")
    case True
    then have "parse_level fl n l = left_assoc (level_op l) (parse_level fl n (Suc l))" by (intro left_assoc_level) (simp add: chain_level_def)
    then show ?thesis using True deep by (simp add: left_assoc_def pbind_def)
  next
    case False
    then consider "l = 2" | "l = 3" | "l = 6" using l unfolding chain_level_def by fastforce
    then show ?thesis
    proof cases
      case 1
      then show ?thesis using deep "not" ts False by (simp add: parse_levels numeral_2_eq_2 [symmetric] numeral_3_eq_3 [symmetric])
    next
      case 2
      have "parse_comparison fl E (ts @ rest) = Inr (s, rest)" if "parse_additive fl E (ts @ rest) = Inr (s, rest)" for E
        using that rest False 2
        by (auto simp: parse_comparison_def pbind_def peek_ident_iff peek_in_iff follows_def peek_def stop_def split: list.splits)
      then show ?thesis using deep False 2 by (simp add: parse_levels)
    next
      case 3
      then have "t \<noteq> TMinus" using atom_start [of fl ts s] p ts by simp
      then show ?thesis using deep ts False 3 by (simp add: parse_levels)
    qed
  qed
qed

definition completes :: "'f floats \<Rightarrow> nat \<Rightarrow> 'f kql_token list \<Rightarrow> string list \<Rightarrow> bool" where
  "completes fl l ts xs \<longleftrightarrow> (\<forall>n m rest. length ts \<le> n \<longrightarrow> length ts \<le> m \<longrightarrow> stop l rest \<longrightarrow> eat TComma rest = None \<longrightarrow>
     sep_list m TComma (parse_level fl n l) (ts @ rest) = Inr (xs, rest))"

lemma completes_items:
  "\<lbrakk>completes fl l ts xs; length ts \<le> n; stop l rest; eat TComma rest = None\<rbrakk> \<Longrightarrow> items (parse_level fl n l) (ts @ rest) = Inr (xs, rest)"
  by (simp add: items_def completes_def)

lemma completes_one: "complete fl l ts s \<Longrightarrow> completes fl l ts [s]"
  unfolding completes_def
proof (intro allI impI)
  fix n m and rest :: "'a kql_token list"
  assume "complete fl l ts s" "length ts \<le> n" "stop l rest" and rest: "eat TComma rest = None"
  then have "parse_level fl n l (ts @ rest) = Inr (s, rest)" by (intro completeD)
  then show "sep_list m TComma (parse_level fl n l) (ts @ rest) = Inr ([s], rest)" using rest by (simp add: sep_list.simps pbind_def)
qed

lemma completes_more: "\<lbrakk>complete fl l ts s; completes fl l us xs\<rbrakk> \<Longrightarrow> completes fl l (ts @ TComma # us) (s # xs)"
  unfolding completes_def [of fl l "ts @ TComma # us"]
proof (intro allI impI)
  fix n m and rest :: "'a kql_token list"
  assume c: "complete fl l ts s" and cs: "completes fl l us xs" and n: "length (ts @ TComma # us) \<le> n" and m: "length (ts @ TComma # us) \<le> m"
    and rest: "stop l rest" "eat TComma rest = None"
  obtain m' where m': "m = Suc m'" using m by (cases m) auto
  have "parse_level fl n l (ts @ TComma # us @ rest) = Inr (s, TComma # us @ rest)"
    by (rule completeD [OF c]) (use n in auto)
  moreover have "sep_list m' TComma (parse_level fl n l) (us @ rest) = Inr (xs, rest)" using cs n m m' rest by (simp add: completes_def)
  ultimately show "sep_list m TComma (parse_level fl n l) ((ts @ TComma # us) @ rest) = Inr (s # xs, rest)"
    unfolding m' by (simp add: sep_list_Suc pbind_def)
qed

lemma complete_plain:
  assumes "\<not> chain_level l" and "\<And>n rest. \<lbrakk>length ts \<le> n; stop l rest\<rbrakk> \<Longrightarrow> parse_level fl n l (ts @ rest) = Inr (s, rest)"
  shows "complete fl l ts s"
  using assms by (simp add: complete_def)

lemma not_chain: "\<not> chain_level 2" "\<not> chain_level 3" "\<not> chain_level 6" "\<not> chain_level 7"
  by (simp_all add: chain_level_def)

lemma complete_comparison:
  assumes ts: "complete fl 4 ts s"
  shows "\<lbrakk>cmp_op t = Some f; complete fl 4 us r\<rbrakk> \<Longrightarrow> complete fl 3 (ts @ t # us) (f s r)"
    and "\<lbrakk>complete fl 4 us low; complete fl 4 vs high\<rbrakk>
      \<Longrightarrow> complete fl 3 (ts @ TIdent ''between'' # TLParen # us @ TDotDot # vs @ [TRParen]) (between_sql s low high)"
    and "\<lbrakk>is_in w; completes fl 4 us xs\<rbrakk> \<Longrightarrow> complete fl 3 (ts @ TIdent w # TLParen # us @ [TRParen]) (in_sql s xs)"
proof -
  assume op: "cmp_op t = Some f" and us: "complete fl 4 us r"
  have kw: "t \<noteq> TIdent ''between''" "\<And>w. t = TIdent w \<Longrightarrow> \<not> is_in w" using op
    by (auto simp: cmp_op_def is_in_def to_ascii_lowercase_def split: if_splits)
  show "complete fl 3 (ts @ t # us) (f s r)"
  proof (rule complete_plain [OF not_chain(2)])
    fix n and rest :: "'a kql_token list" assume n: "length (ts @ t # us) \<le> n" and "stop 3 rest"
    then have "stop 4 rest" using stop_mono [of 3 rest 4] by simp
    then show "parse_level fl n 3 ((ts @ t # us) @ rest) = Inr (f s r, rest)"
      using completeD [OF ts, of n "t # us @ rest"] completeD [OF us, of n rest] n follows_cmp(1) [OF op] kw op
      by (auto simp: parse_levels parse_comparison_def pbind_def peek_ident_iff peek_in_iff peek_def)
  qed
next
  assume us: "complete fl 4 us low" and vs: "complete fl 4 vs high"
  show "complete fl 3 (ts @ TIdent ''between'' # TLParen # us @ TDotDot # vs @ [TRParen]) (between_sql s low high)"
  proof (rule complete_plain [OF not_chain(2)])
    fix n and rest :: "'a kql_token list" assume n: "length (ts @ TIdent ''between'' # TLParen # us @ TDotDot # vs @ [TRParen]) \<le> n"
    show "parse_level fl n 3 ((ts @ TIdent ''between'' # TLParen # us @ TDotDot # vs @ [TRParen]) @ rest) = Inr (between_sql s low high, rest)"
      using completeD [OF ts, of n "TIdent ''between'' # TLParen # us @ TDotDot # vs @ TRParen # rest"]
        completeD [OF us, of n "TDotDot # vs @ TRParen # rest"] completeD [OF vs, of n "TRParen # rest"] n
      by (simp add: follows_cmp(2) parse_levels parse_comparison_def pbind_def peek_ident_iff expect_def)
  qed
next
  assume w: "is_in w" and us: "completes fl 4 us xs"
  have kw: "w \<noteq> ''between''" using w by (auto simp: is_in_def to_ascii_lowercase_def)
  show "complete fl 3 (ts @ TIdent w # TLParen # us @ [TRParen]) (in_sql s xs)"
  proof (rule complete_plain [OF not_chain(2)])
    fix n and rest :: "'a kql_token list" assume n: "length (ts @ TIdent w # TLParen # us @ [TRParen]) \<le> n"
    have "eat TComma (TRParen # rest) = None" by (simp add: eat_def)
    then show "parse_level fl n 3 ((ts @ TIdent w # TLParen # us @ [TRParen]) @ rest) = Inr (in_sql s xs, rest)"
      using completeD [OF ts, of n "TIdent w # TLParen # us @ TRParen # rest"] completes_items [OF us, of n "TRParen # rest"] n kw w
      by (simp add: follows_cmp(2) parse_levels parse_comparison_def pbind_def peek_ident_iff peek_in_iff expect_def)
  qed
qed

lemma complete_inner:
  assumes c: "complete fl 0 ts s" and n: "length ts < n"
  shows "parse_expr_upto fl n (ts @ TRParen # rest) = Inr (s, TRParen # rest)"
proof -
  obtain n' where n': "n = Suc n'" using n by (cases n) auto
  have "parse_level fl n' 0 (ts @ TRParen # rest) = Inr (s, TRParen # rest)" by (rule completeD [OF c]) (use n n' in auto)
  then show ?thesis by (simp add: n' upto_Suc del: parse_expr_upto.simps)
qed

lemma completes_inner:
  assumes c: "completes fl 0 ts xs" and n: "length ts < n"
  shows "items (parse_expr_upto fl n) (ts @ TRParen # rest) = Inr (xs, TRParen # rest)"
proof -
  obtain n' where n': "n = Suc n'" using n by (cases n) auto
  have "items (parse_level fl n' 0) (ts @ TRParen # rest) = Inr (xs, TRParen # rest)"
    by (rule completes_items [OF c]) (use n n' in \<open>auto simp: eat_def\<close>)
  then show ?thesis by (simp add: n' upto_Suc del: parse_expr_upto.simps)
qed

lemma phrases_start: "phrase fl l ts s \<Longrightarrow> hd ts \<noteq> TRParen" "phrases fl l us xs \<Longrightarrow> hd us \<noteq> TRParen"
  by (induction rule: phrase_phrases.inducts) (auto simp: hd_append phrase_nonempty)

lemma complete_atoms:
  "complete fl 7 [TInt k] (show_int k)" "complete fl 7 [TFloat f] (show_f64 fl f)" "complete fl 7 [TStr x] (sql_string x)"
  "duration_to_sql_interval d = (Inr s :: 'f parse_error + string) \<Longrightarrow> complete (fl :: 'f floats) 7 [TDuration d] s"
  "complete fl 7 [TStar] ''*''" "complete fl 7 [TIdent name] (column_sql name)"
  "complete fl 0 ts s \<Longrightarrow> complete fl 7 (TLParen # ts @ [TRParen]) (paren s)"
  "func_sql name [] = (Inr s :: 'f parse_error + string) \<Longrightarrow> complete (fl :: 'f floats) 7 [TIdent name, TLParen, TRParen] s"
proof -
  show "complete fl 7 [TInt k] (show_int k)" "complete fl 7 [TFloat f] (show_f64 fl f)" "complete fl 7 [TStr x] (sql_string x)"
    "complete fl 7 [TStar] ''*''"
    by (rule complete_plain [OF not_chain(4)], simp add: parse_levels parse_atom_def bump_def pbind_def)+
  show "duration_to_sql_interval d = (Inr s :: 'f parse_error + string) \<Longrightarrow> complete fl 7 [TDuration d] s"
    by (rule complete_plain [OF not_chain(4)], simp add: parse_levels parse_atom_def bump_def pbind_def)
  show "complete fl 7 [TIdent name] (column_sql name)"
    by (rule complete_plain [OF not_chain(4)])
      (auto simp: parse_levels parse_atom_def bump_def pbind_def column_sql_def eat_def peek_def follows_def stop_def split: list.splits)
  show "complete fl 0 ts s \<Longrightarrow> complete fl 7 (TLParen # ts @ [TRParen]) (paren s)"
    by (rule complete_plain [OF not_chain(4)], simp add: parse_levels parse_atom_def bump_def pbind_def complete_inner expect_def)
  show "func_sql name [] = (Inr s :: 'f parse_error + string) \<Longrightarrow> complete fl 7 [TIdent name, TLParen, TRParen] s"
    by (rule complete_plain [OF not_chain(4)], simp add: parse_levels parse_atom_def bump_def pbind_def parse_func_call_def)
qed

lemma complete_call:
  assumes c: "completes fl 0 ts xs" and p: "phrases fl 0 ts xs" and f: "func_sql name xs = (Inr s :: 'f parse_error + string)"
  shows "complete (fl :: 'f floats) 7 (TIdent name # TLParen # ts @ [TRParen]) s"
proof (rule complete_plain [OF not_chain(4)])
  fix n and rest :: "'f kql_token list" assume n: "length (TIdent name # TLParen # ts @ [TRParen]) \<le> n"
  have "eat TRParen (ts @ TRParen # rest) = None"
    using phrases_start(2) [OF p] phrases_nonempty [OF p] by (cases ts) (auto simp: eat_def)
  then show "parse_level fl n 7 ((TIdent name # TLParen # ts @ [TRParen]) @ rest) = Inr (s, rest)"
    using completes_inner [OF c, of n rest] n f
    by (simp add: parse_levels parse_atom_def bump_def pbind_def parse_func_call_def expect_def)
qed

lemma complete_prefix:
  "complete fl 2 ts s \<Longrightarrow> complete fl 2 (TIdent ''not'' # ts) (paren (''NOT '' @ s))"
  "complete fl 6 ts s \<Longrightarrow> complete fl 6 (TMinus # ts) (''(-'' @ s @ '')'')"
  by (rule complete_plain [OF not_chain(1)], simp add: completeD parse_levels [symmetric], simp add: parse_levels completeD [of fl 2, unfolded parse_levels] pbind_def)
    (rule complete_plain [OF not_chain(3)], simp add: parse_levels completeD [of fl 6, unfolded parse_levels] pbind_def)

lemma phrase_complete: "phrase fl l ts s \<Longrightarrow> complete fl l ts s" and phrases_complete: "phrases fl l us xs \<Longrightarrow> completes fl l us xs"
  by (induction rule: phrase_phrases.inducts)
    (blast intro: complete_up complete_binary complete_prefix complete_comparison complete_atoms complete_call completes_one completes_more)+

text \<open>
  C23: the expression parser accepts a whole token list exactly when it is a phrase of the
  grammar, and it emits the SQL of that phrase. In particular the grammar is unambiguous.
\<close>

theorem kql_expression_grammar: "parse_expr fl ts = Inr (s, []) \<longleftrightarrow> phrase fl 0 ts s"
proof
  assume "parse_expr fl ts = Inr (s, [])"
  then show "phrase fl 0 ts s" unfolding parse_expr_def by (auto dest!: readsD [OF upto_reads] simp del: parse_expr_upto.simps)
next
  assume "phrase fl 0 ts s"
  then have "parse_level fl (length ts) 0 (ts @ []) = Inr (s, [])" by (intro completeD [OF phrase_complete]) simp_all
  then show "parse_expr fl ts = Inr (s, [])" by (simp add: parse_expr_def upto_Suc del: parse_expr_upto.simps)
qed

text \<open>An expression is read up to a token that cannot continue it.\<close>

lemma parse_expr_phrase:
  assumes "phrase fl 0 ts s" "stop 0 rest"
  shows "parse_expr fl (ts @ rest) = Inr (s, rest)"
  using completeD [OF phrase_complete [OF assms(1)] _ assms(2), of "length (ts @ rest)"]
  by (simp add: parse_expr_def upto_Suc del: parse_expr_upto.simps)

end
