(* ===== verification/Kql_Operators.thy ===== *)
theory Kql_Operators
  imports Kql_Safe
begin

text \<open>
  The operators keep the query state well formed, and a well-formed state renders as one statement.
\<close>

section \<open>Well-formed states\<close>

definition graph_ok :: "graph_def \<Rightarrow> bool" where
  "graph_ok g \<longleftrightarrow> frag (gd_edge_table g) \<and> frag (gd_node_table g)"

definition state_ok :: "query_state \<Rightarrow> bool" where
  "state_ok q \<longleftrightarrow> frag (q_table q) \<and> list_all frag (q_select q) \<and> list_all frag (q_exclude q) \<and>
     list_all (\<lambda>(n, e). frag n \<and> frag e) (q_extend q) \<and> list_all frag (q_where q) \<and> list_all frag (q_group_by q) \<and>
     list_all clause (q_aggregates q) \<and> list_all (\<lambda>(e, _). frag e) (q_order_by q) \<and>
     list_all (\<lambda>(n, b, _). clause n \<and> clause b) (q_ctes q) \<and> (\<forall>g. q_graph_def q = Some g \<longrightarrow> graph_ok g)"

lemma state_okD:
  assumes "state_ok q"
  shows "frag (q_table q)" "list_all frag (q_select q)" "list_all frag (q_exclude q)" "list_all (\<lambda>(n, e). frag n \<and> frag e) (q_extend q)"
    "list_all frag (q_where q)" "list_all frag (q_group_by q)" "list_all clause (q_aggregates q)" "list_all (\<lambda>(e, _). frag e) (q_order_by q)"
    "list_all (\<lambda>(n, b, _). clause n \<and> clause b) (q_ctes q)" "q_graph_def q = Some g \<Longrightarrow> graph_ok g"
  using assms unfolding state_ok_def by blast+

lemma statement_clauses:
  "clause ''SELECT ''" "clause '' FROM ''" "clause '' WHERE ''" "clause '' GROUP BY ''" "clause '' ORDER BY ''" "clause '' LIMIT ''" "clause '' AS ''"
  "clause ''*''" "clause ''* EXCEPT ''" "clause ''WITH RECURSIVE ''" "clause ''WITH ''" "clause '' ''" "clause '' DESC''" "clause '' ASC''" "clause ''DISTINCT ''"
  "clause ''_agg''" "clause '' UNION ALL ''" "clause ''NULL AS ''" "clause '' _b''"
  by (simp_all add: plain_clause lit_simps)

lemma where_clause: "list_all frag ws \<Longrightarrow> clause (where_sql ws)"
  unfolding where_sql_def by (simp only: split: if_split) (intro impI conjI clause_Nil clause_append statement_clauses text_clauses join_clause frags_clauses)

lemma where_clause': "list_all clause ws \<Longrightarrow> clause (where_sql ws)"
  unfolding where_sql_def by (simp only: split: if_split) (intro impI conjI clause_Nil clause_append statement_clauses text_clauses join_clause)

lemma group_clause: "list_all frag gs \<Longrightarrow> clause (group_sql gs)"
  unfolding group_sql_def by (simp only: split: if_split) (intro impI conjI clause_Nil clause_append statement_clauses comma_clause join_clause frags_clauses)

lemma as_clause: "\<lbrakk>clause e; clause n\<rbrakk> \<Longrightarrow> clause (as_sql e n)"
  unfolding as_sql_def by (intro clause_append frag_clause [OF paren_frag] statement_clauses)

lemma agg_name_frag: "frag (''_agg'' @ show_nat n)"
  by (intro frag_append frag_clause [OF show_nat_frag]) (simp add: plain_frag lit_simps)

lemma rebased_ok: "state_ok q \<Longrightarrow> state_ok (rebased q)"
proof -
  assume q: "state_ok q"
  have "clause (''SELECT '' @ join '', '' (q_group_by q @ q_aggregates q) @ '' FROM '' @ q_table q @ where_sql (q_where q) @ group_sql (q_group_by q))"
    using state_okD(1,5,6,7) [OF q]
    by (intro clause_append statement_clauses join_clause comma_clause where_clause group_clause frag_clause) (auto simp: frags_clauses)
  then show ?thesis using q agg_name_frag frag_clause [OF agg_name_frag]
    by (simp add: rebased_def rebase_aggregation_def Let_def state_ok_def)
qed

lemma select_item_clause:
  assumes "list_all (\<lambda>(n, e). frag n \<and> frag e) ext" "clause col"
  shows "clause (select_item ext col)"
proof (cases "List.find (\<lambda>(n, _). n = col) ext")
  case (Some p)
  then have "p \<in> set ext" by (metis find_Some_iff nth_mem)
  then have "frag (snd p)" using assms(1) by (auto simp: list_all_iff)
  then show ?thesis using Some assms(2) as_clause frag_clause by (cases p) (simp add: select_item_def)
qed (simp add: select_item_def assms)

lemma select_clause_ok: "state_ok q \<Longrightarrow> clause (select_clause q)"
proof -
  assume q: "state_ok q"
  have except: "clause (''* EXCEPT '' @ paren (join '', '' (q_exclude q)))"
    by (intro clause_append statement_clauses frag_clause [OF paren_frag] join_clause frags_clauses comma_clause state_okD(3) [OF q])
  have ext: "list_all clause (map (\<lambda>(n, e). as_sql e n) (q_extend q))"
    using state_okD(4) [OF q] by (auto simp: list_all_iff intro!: as_clause dest!: bspec dest: frag_clause)
  have sel: "list_all clause (map (select_item (q_extend q)) (q_select q))"
    using state_okD(2,4) [OF q] by (auto simp: list_all_iff intro!: select_item_clause dest: frag_clause)
  have agg: "list_all clause (q_group_by q @ q_aggregates q)" using frags_clauses [OF state_okD(6) [OF q]] state_okD(7) [OF q] by simp
  show ?thesis unfolding select_clause_def using except ext sel agg statement_clauses(8)
    by (intro join_clause comma_clause) simp
qed

lemma to_sql_clause: "state_ok q \<Longrightarrow> clause (to_sql q)"
proof -
  assume q: "state_ok q"
  have cte: "list_all clause (map cte_sql (q_ctes q))"
    using state_okD(9) [OF q] unfolding list_all_iff cte_sql_def
    by (auto intro!: clause_append [OF _ clause_append [OF statement_clauses(7) frag_clause [OF paren_frag]]] simp del: append.simps)
  have "clause (render_cte_prelude q)" unfolding render_cte_prelude_def
    by (simp only: split: if_split, intro impI conjI clause_Nil clause_append statement_clauses join_clause comma_clause cte)
  moreover have "clause (order_sql (q_order_by q))"
  proof -
    have "list_all clause (map (\<lambda>(c, desc). c @ (if desc then '' DESC'' else '' ASC'')) (q_order_by q))"
      using state_okD(8) [OF q] statement_clauses(13,14) by (auto simp: list_all_iff intro!: clause_append dest!: bspec dest: frag_clause simp del: append.simps)
    then show ?thesis unfolding order_sql_def
      by (simp only: split: if_split, intro impI conjI clause_Nil clause_append statement_clauses join_clause comma_clause)
  qed
  moreover have "clause (limit_sql (q_limit q))" unfolding limit_sql_def
    by (cases "q_limit q"; simp only: option.case; intro clause_Nil clause_append statement_clauses frag_clause [OF show_nat_frag])
  moreover have "clause (if q_distinct q \<and> q_aggregates q = [] then ''DISTINCT '' else [])"
    by (simp only: statement_clauses clause_Nil simp_thms split: if_split)
  ultimately show ?thesis unfolding to_sql_def
    by (intro clause_append statement_clauses where_clause group_clause frag_clause [OF state_okD(1) [OF q]] state_okD [OF q] select_clause_ok [OF q])
qed

lemma new_state_ok: "frag t \<Longrightarrow> state_ok (query_state_new t)"
  by (simp add: state_ok_def query_state_new_def)

section \<open>Pipeline operators\<close>

lemma alias_frag: "frag (implicit_agg_alias e)"
proof -
  define cs where "cs = map (\<lambda>c. if is_ascii_alphanumeric c then c else CHR ''_'') (filter (\<lambda>c. \<not> (128 \<le> (of_char c :: nat) \<and> (of_char c :: nat) < 192)) e)"
  have "list_all plain_char cs" unfolding cs_def using word_plain by (auto simp: list_all_iff)
  moreover have "set (trim_underscores cs) \<subseteq> set cs" unfolding trim_underscores_def by (auto dest!: set_dropWhileD)
  ultimately have "list_all plain_char (take 40 (trim_underscores cs))" by (auto simp: list_all_iff dest!: in_set_takeD)
  moreover have "frag ''expr''" by (simp add: plain_frag lit_simps)
  ultimately show ?thesis unfolding implicit_agg_alias_def cs_def [symmetric] Let_def by (auto intro!: plain_frag)
qed

lemma ident_parses: "parses fl n (ident_or w) ident_ok"
  by (auto simp: parses_def tok_ok_def intro: suffix_Cons_strict)

lemma seq_expr:
  assumes "floats_ok fl" "suffix q ts" "toks_ok fl ts" and "\<And>x r. \<lbrakk>strict_suffix r ts; frag x\<rbrakk> \<Longrightarrow> K x r"
  shows "spec (parse_expr fl q) (case_prod K)"
  by (rule parses_suffix [OF expr_parses [OF assms(1)] assms(2) order_refl assms(3)]) (use assms(4) in auto)

lemma seq_items:
  assumes "\<And>n. parses fl n p Q" "suffix q ts" "toks_ok fl ts" and "\<And>x r. \<lbrakk>strict_suffix r ts; x \<noteq> []; list_all Q x\<rbrakk> \<Longrightarrow> K x r"
  shows "spec (items p q) (case_prod K)"
  by (rule parses_suffix [OF items_parses [OF assms(1)] assms(2) order_refl assms(3)]) (use assms(4) in auto)

lemma seq_parses:
  assumes "\<And>n. parses fl n p Q" "suffix q ts" "toks_ok fl ts" and "\<And>x r. \<lbrakk>strict_suffix r ts; Q x\<rbrakk> \<Longrightarrow> K x r"
  shows "spec (p q) (case_prod K)"
  by (rule parses_suffix [OF assms(1) assms(2) order_refl assms(3)]) (use assms(4) in auto)

text \<open>The rules for the primitives, which say of the rest only that it is a suffix of the input.\<close>

lemma seq_bind:
  "spec m (\<lambda>(x, r). spec (k x r) Q) \<Longrightarrow> spec (pbind m k) Q"
  "spec m' (\<lambda>x'. spec (k' x') Q) \<Longrightarrow> spec (bindE m' k') Q"
  "Q z \<Longrightarrow> spec (Inr z) Q"
  by simp_all

lemma seq_expect:
  assumes "suffix q ts" "\<And>r. suffix r ts \<Longrightarrow> K () r"
  shows "spec (expect t w q) (case_prod K)" "spec (expect_ident_eq k q) (case_prod K)"
  using assms by (auto dest: suffix_steps(2))

lemma seq_ident:
  assumes "suffix q ts" "toks_ok fl ts" "\<And>s r. \<lbrakk>suffix r ts; ident_ok s\<rbrakk> \<Longrightarrow> K s r"
  shows "spec (ident_or w q) (case_prod K)" "spec (expect_ident q) (case_prod K)"
proof -
  have "K s r" if "q = TIdent s # r" for s r
    using that assms(1,3) suffix_toks [OF assms(1,2)] by (auto simp: tok_ok_def dest: suffix_steps(2))
  then show "spec (ident_or w q) (case_prod K)" "spec (expect_ident q) (case_prod K)" by simp_all
qed

lemma seq_int:
  assumes "suffix q ts" "\<And>n r. suffix r ts \<Longrightarrow> K n r"
  shows "spec (int_or w q) (case_prod K)"
  using assms by (auto dest: suffix_steps(2))

lemma seq_column:
  assumes "suffix q ts" "\<And>s r. \<lbrakk>suffix r ts; frag s\<rbrakk> \<Longrightarrow> K s r"
  shows "spec (column_or w q) (case_prod K)"
  using assms quote_ident_frag by (auto simp: column_or_def dest: suffix_steps(2))

lemma seq_part:
  assumes "\<And>n. parses fl n p Q" "toks_ok fl ts" "suffix q ts" and "\<And>x r. \<lbrakk>suffix r ts; Q x\<rbrakk> \<Longrightarrow> K x r"
  shows "spec (p q) (case_prod K)"
  by (rule seq_parses [OF assms(1,3,2)]) (use assms(4) suffix_steps(1) in blast)

lemmas seq = seq_expect seq_int seq_column

lemmas wp = spec_pbind spec_bindE spec_base spec_expect spec_expect_ident_eq spec_ident_or spec_expect_ident spec_int_or prod.case

lemma extend_item_parses:
  assumes "floats_ok fl"
  shows "parses fl n (extend_item fl) (\<lambda>(n, e). frag n \<and> frag e)"
proof (rule parsesI)
  fix ts :: "'a kql_token list" assume ts: "toks_ok fl ts"
  show "spec (extend_item fl ts) (\<lambda>(x, r). strict_suffix r ts \<and> (case x of (n, e) \<Rightarrow> frag n \<and> frag e))"
    unfolding extend_item_def by (simp only: wp, intro allI impI seq_expr [OF assms _ ts]) (auto simp: quote_ident_frag suffix_Cons)
qed

lemma op_where_ok:
  assumes "floats_ok fl" "state_ok q" "toks_ok fl ts"
  shows "spec (op_where fl q ts) (\<lambda>(q', r). suffix r ts \<and> state_ok q')"
  unfolding op_where_def Let_def using rebased_ok [OF assms(2)]
  by (simp only: wp, intro seq_expr [OF assms(1) _ assms(3)]) (auto simp: state_ok_def strict_suffix_def)

lemma op_project_ok:
  assumes "state_ok q" "toks_ok fl ts"
  shows "spec (op_project away q ts) (\<lambda>(q', r). suffix r ts \<and> state_ok q')"
  unfolding op_project_def Let_def using rebased_ok [OF assms(1)]
  by (simp only: wp, intro seq_items [OF ident_parses _ assms(2)]) (auto simp: state_ok_def strict_suffix_def quote_ident_frag list_all_iff)

lemma op_extend_ok:
  assumes "floats_ok fl" "state_ok q" "toks_ok fl ts"
  shows "spec (op_extend fl q ts) (\<lambda>(q', r). suffix r ts \<and> state_ok q')"
  unfolding op_extend_def using assms(2)
  by (simp only: wp, intro seq_items [OF extend_item_parses [OF assms(1)] _ assms(3)]) (auto simp: state_ok_def strict_suffix_def)

lemma try_alias_ok: "try_alias ts = (a, r) \<Longrightarrow> suffix r ts \<and> (\<forall>x. a = Some x \<longrightarrow> frag x)"
  by (auto simp: try_alias_def quote_ident_frag suffix_Cons split: list.splits option.splits if_splits)

lemma agg_item_parses:
  assumes "floats_ok fl"
  shows "parses fl n (agg_item fl) clause"
proof (rule parsesI)
  fix ts :: "'a kql_token list" assume ts: "toks_ok fl ts"
  obtain a r where a: "try_alias ts = (a, r)" by (metis surj_pair)
  note ok = try_alias_ok [OF a]
  have "clause (as_sql e (case a of Some a \<Rightarrow> a | None \<Rightarrow> implicit_agg_alias e))" if "frag e" for e
    using that ok by (auto intro!: as_clause frag_clause [OF alias_frag] dest: frag_clause split: option.split)
  then show "spec (agg_item fl ts) (\<lambda>(x, r). strict_suffix r ts \<and> clause x)"
    unfolding agg_item_def a prod.case by (simp only: wp, intro seq_expr [OF assms _ ts]) (use ok in auto)
qed

lemma op_summarize_ok:
  assumes "floats_ok fl" "state_ok q" "toks_ok fl ts"
  shows "spec (op_summarize fl q ts) (\<lambda>(q', r). suffix r ts \<and> state_ok q')"
proof -
  have keys: "spec (if peek_ident ''by'' r then items (parse_expr fl) (tl r) else Inr ([], r)) (\<lambda>(keys, r). suffix r ts \<and> list_all frag keys)"
    if "strict_suffix r ts" for r
    by (simp only: spec_base prod.case split: if_split, intro conjI impI seq_items [OF expr_parses [OF assms(1)] _ assms(3)])
      (use that suffix_steps in auto)
  show ?thesis unfolding op_summarize_def using assms(2)
    by (simp only: wp, intro seq_items [OF agg_item_parses [OF assms(1)] _ assms(3)], simp)
      (rule spec_mono [OF keys], auto simp: state_ok_def)
qed

lemma op_take_ok: "state_ok q \<Longrightarrow> spec (op_take q ts) (\<lambda>(q', r). suffix r ts \<and> state_ok q')"
  unfolding op_take_def by (simp only: wp) (auto simp: state_ok_def suffix_Cons)

lemma sort_dir_suffix: "sort_dir ts = (d, r) \<Longrightarrow> suffix r ts"
  by (cases ts) (auto simp: sort_dir_def suffix_Cons split: if_splits)

lemma sort_item_parses:
  assumes "floats_ok fl"
  shows "parses fl n (sort_item fl) (\<lambda>(e, _). frag e)"
proof (rule parsesI)
  fix ts :: "'a kql_token list" assume ts: "toks_ok fl ts"
  show "spec (sort_item fl ts) (\<lambda>(x, r). strict_suffix r ts \<and> (case x of (e, _) \<Rightarrow> frag e))"
    unfolding sort_item_def by (simp only: wp, intro seq_expr [OF assms _ ts])
      (auto split: prod.splits dest: sort_dir_suffix intro: suffix_order.le_less_trans)
qed

lemma op_sort_ok:
  assumes "floats_ok fl" "state_ok q" "toks_ok fl ts"
  shows "spec (op_sort fl q ts) (\<lambda>(q', r). suffix r ts \<and> state_ok q')"
  unfolding op_sort_def using assms(2)
  by (simp only: wp, intro allI impI seq_items [OF sort_item_parses [OF assms(1)] _ assms(3)]) (auto simp: state_ok_def strict_suffix_def suffix_Cons)

lemma op_top_ok:
  assumes "floats_ok fl" "state_ok q" "toks_ok fl ts"
  shows "spec (op_top fl q ts) (\<lambda>(q', r). suffix r ts \<and> state_ok q')"
  unfolding op_top_def using assms(2)
  by (simp only: wp, intro allI impI seq_parses [OF sort_item_parses [OF assms(1)] _ assms(3)]) (auto simp: state_ok_def strict_suffix_def suffix_Cons)

lemma op_count_ok: "state_ok q \<Longrightarrow> spec (op_count q ts) (\<lambda>(q', r). suffix r ts \<and> state_ok q')"
proof -
  have "clause (''count(*) AS '' @ [dquote] @ ''Count'' @ [dquote])" by (simp add: clause_def sql_step_def squote_def dquote_def)
  then show "state_ok q \<Longrightarrow> ?thesis" by (simp add: op_count_def state_ok_def)
qed

lemma distinct_cols_ok: "distinct_cols ts = (cs, r) \<Longrightarrow> suffix r ts \<and> list_all frag cs"
  by (induction ts arbitrary: cs r rule: distinct_cols.induct)
    (auto simp: quote_ident_frag suffix_Cons split: option.splits if_splits prod.splits)

lemma op_distinct_ok: "state_ok q \<Longrightarrow> spec (op_distinct q ts) (\<lambda>(q', r). suffix r ts \<and> state_ok q')"
  using distinct_cols_ok [of ts] by (auto simp: op_distinct_def state_ok_def split: prod.splits)

section \<open>Graph operators\<close>

lemma direction_ok:
  assumes "suffix q ts" and "\<And>d r. suffix r ts \<Longrightarrow> K d r"
  shows "spec (parse_direction q) (case_prod K)"
  unfolding parse_direction_def using assms
  by (cases q) (auto simp: peek_ident_def peek_def dest: suffix_ConsD)

lemma scalar_parses:
  assumes "floats_ok fl"
  shows "parses fl n (parse_scalar_literal fl) frag"
proof (rule parsesI)
  fix ts assume ts: "toks_ok fl ts"
  show "spec (parse_scalar_literal fl ts) (\<lambda>(x, r). strict_suffix r ts \<and> frag x)"
  proof (cases ts)
    case (Cons t r)
    then have r: "tok_ok fl t" "strict_suffix r ts" using ts suffix_Cons_strict [of r r t] by auto
    then show ?thesis using Cons sql_string_frag int_frag float_frag [OF assms]
      by (cases t) (auto simp: parse_scalar_literal_def tok_ok_def)
  qed (simp add: parse_scalar_literal_def)
qed

lemma seeds_parses:
  assumes "floats_ok fl"
  shows "parses fl n (parse_source_seeds fl) (\<lambda>xs. list_all frag xs)"
proof (rule parsesI)
  fix ts :: "'a kql_token list" assume ts: "toks_ok fl ts"
  show "spec (parse_source_seeds fl ts) (\<lambda>(xs, r). strict_suffix r ts \<and> list_all frag xs)"
  proof (cases "eat TLParen ts")
    case None
    then show ?thesis unfolding parse_source_seeds_def
      by (simp only: option.case wp, intro seq_parses [OF scalar_parses [OF assms] _ ts]) auto
  next
    case (Some r)
    then show ?thesis unfolding parse_source_seeds_def
      by (simp only: option.case wp, intro seq_items [OF scalar_parses [OF assms] _ ts])
        (auto split: option.splits simp: suffix_Cons dest: suffix_steps)
  qed
qed

lemma preamble_spec:
  assumes "suffix q ts" and "\<And>src dst n d r. \<lbrakk>frag src; frag dst; suffix r ts\<rbrakk> \<Longrightarrow> spec (k src dst n d r) Q"
  shows "spec (pbind (parse_graph_preamble q) (\<lambda>(src, dst, n, d) r. k src dst n d r)) Q"
  unfolding parse_graph_preamble_def
  by (rule seq_bind(1), (intro seq_bind seq [where ts = ts] direction_ok [where ts = ts] assms(1); assumption?)) (simp add: assms(2))

lemma hops_spec:
  assumes "suffix q ts" and "\<And>lo hi r. suffix r ts \<Longrightarrow> spec (k lo hi r) Q"
  shows "spec (pbind (parse_hops op q) (\<lambda>(lo, hi) r. k lo hi r)) Q"
  unfolding parse_hops_def
  by (rule seq_bind(1), (intro seq_bind seq [where ts = ts] assms(1); assumption?)) (simp add: assms(2))

lemma edge_type_spec:
  assumes "floats_ok fl" "toks_ok fl ts" "suffix q ts" and "\<And>ty r. \<lbrakk>suffix r ts; \<And>v. ty = Some v \<Longrightarrow> frag v\<rbrakk> \<Longrightarrow> K ty r"
  shows "spec (parse_edge_type fl q) (case_prod K)"
proof (cases "peek_ident ''edge-type'' q")
  case True
  then have "suffix (tl q) ts" using assms(3) by (cases q) (auto simp: peek_ident_def peek_def dest: suffix_ConsD)
  then show ?thesis unfolding parse_edge_type_def if_P [OF True]
    by (intro seq_bind seq_part [OF scalar_parses [OF assms(1)] assms(2)]) (auto intro: assms(4))
next
  case False
  then show ?thesis unfolding parse_edge_type_def if_not_P [OF False] using assms(4) [OF assms(3), of None] by simp
qed

lemma graph_clauses:
  "clause '' = ''" "clause ''e.''" "clause ''.node''" "clause ''.node OR e.''" "clause ''.node THEN e.''" "clause ''CASE WHEN e.''" "clause '' ELSE e.''" "clause '' END''"
  "clause '', t.depth + 1''" "clause '', t.depth + 1, t.node''" "clause '' AS VARCHAR''" "clause ''VALUES ''" "clause '' AS _seeds(node)''"
  "clause '' AS node, 0 AS depth, ''" "clause '' AS path_src''" "clause ''SELECT node, 0 AS depth, node AS path_src FROM ''"
  "clause '' UNION ALL SELECT ''" "clause '' FROM _gt t JOIN ''" "clause '' e ON ''" "clause '' WHERE t.depth < ''" "clause ''.''" "clause ''_gt(node, depth, path_src)''"
  "clause ''SELECT node, path_src, MIN(depth) AS depth FROM _gt GROUP BY node, path_src''" "clause ''_gt_min''" "clause ''_gt_result''"
  "clause ''SELECT e.*, m.depth FROM _gt_min m JOIN ''" "clause '' e ON e.''" "clause '' = m.path_src AND e.''" "clause '' = m.node''"
  by (simp_all add: clause_def sql_step_def squote_def dquote_def)

lemma var_clauses:
  "clause '' AS origin, ''" "clause '' AS node, 0 AS depth''" "clause ''SELECT node AS origin, node, 0 AS depth FROM ''" "clause '' UNION ALL SELECT v.origin, ''"
  "clause '', v.depth + 1 FROM _vl v JOIN ''" "clause '' WHERE v.depth < ''" "clause ''_vl(origin, node, depth)''" "clause ''_vl_min''" "clause ''_vl_result''"
  "clause ''SELECT origin, node, MIN(depth) AS depth FROM _vl GROUP BY origin, node''" "clause ''SELECT origin AS src, node AS dst, depth FROM _vl_min WHERE depth >= ''"
  "clause '' AND depth <= ''" "clause '' AS node, 0 AS depth UNION ALL SELECT ''" "clause '' FROM _sp t JOIN ''" "clause ''_sp(node, depth)''" "clause ''_sp_hits''"
  "clause ''_sp_result''" "clause ''SELECT depth FROM _sp WHERE node = ''" "clause ''SELECT MIN(depth) AS depth, COUNT(*) > 0 AS found FROM _sp_hits''"
  "clause '' AS node, 0 AS depth FROM ''" "clause '', v.depth + 1 FROM _vm v JOIN ''" "clause ''_vm(origin, node, depth)''" "clause ''_vm_min''" "clause ''_vm_result''"
  "clause ''SELECT origin, node, MIN(depth) AS depth FROM _vm GROUP BY origin, node''" "clause '' FROM _vm_min m JOIN ''" "clause '' a ON m.origin = a.''" "clause '' JOIN ''"
  "clause '' b ON m.node = b.''" "clause '' WHERE m.depth >= ''" "clause '' AND m.depth <= ''"
  by (simp_all add: clause_def sql_step_def squote_def dquote_def)

lemma graph_tables: "frag ''_gt_result''" "frag ''_vl_result''" "frag ''_sp_result''" "frag ''_vm_result''" "frag ''_gm_result''" "frag ''_u''"
  by (simp_all add: plain_frag lit_simps)

lemma next_node_clause: "\<lbrakk>clause v; clause src; clause dst\<rbrakk> \<Longrightarrow> clause (next_node v src dst d)"
  unfolding next_node_def by (cases d; simp only: graph_direction.case; intro clause_append graph_clauses)

lemma join_cond_clause: "\<lbrakk>clause v; clause src; clause dst\<rbrakk> \<Longrightarrow> clause (join_cond v src dst d)"
  unfolding join_cond_def by (cases d; simp only: graph_direction.case; intro frag_clause [OF paren_frag] clause_append graph_clauses)

lemma var_names: "clause ''t''" "clause ''v''" "clause ''e''"
  by (simp_all add: plain_clause lit_simps)

lemma step_clauses: "\<lbrakk>clause src; clause dst\<rbrakk> \<Longrightarrow> clause (build_recursive_step src dst d)" "\<lbrakk>clause src; clause dst\<rbrakk> \<Longrightarrow> clause (build_recursive_step_with_src src dst d)"
  unfolding build_recursive_step_def build_recursive_step_with_src_def by (intro clause_append next_node_clause graph_clauses var_names; assumption)+

lemma cast_clause: "clause s \<Longrightarrow> clause (cast_varchar s)"
  unfolding cast_varchar_def by (intro frag_clause [OF call_frag] func_names clause_append graph_clauses) auto

lemma type_cond_clause: "\<lbrakk>clause e; clause v\<rbrakk> \<Longrightarrow> clause (type_cond e v)"
proof -
  have "clause (''.'' @ [dquote] @ ''type'' @ [dquote] @ '' = '')" by (simp add: clause_def sql_step_def squote_def dquote_def)
  then show "\<lbrakk>clause e; clause v\<rbrakk> \<Longrightarrow> ?thesis" unfolding type_cond_def using clause_append by (metis append_assoc)
qed

lemma and_type_clause: "(\<And>v. ty = Some v \<Longrightarrow> clause v) \<Longrightarrow> clause (and_type ty)"
  unfolding and_type_def by (cases ty; simp only: option.case; intro clause_Nil clause_append text_clauses type_cond_clause var_names) blast

lemma seed_values_clause: "list_all frag seeds \<Longrightarrow> clause (seed_values seeds)"
  unfolding seed_values_def by (intro join_clause comma_clause) (auto simp: list_all_iff intro!: frag_clause [OF paren_frag] cast_clause dest: frag_clause)

lemma traverse_anchor_clause: "list_all frag seeds \<Longrightarrow> clause (traverse_anchor seeds)"
  unfolding traverse_anchor_def
  by (cases seeds rule: remdups_adj.cases; simp only: list.case; intro clause_append cast_clause statement_clauses graph_clauses frag_clause [OF paren_frag] seed_values_clause)
    (auto dest: frag_clause)

lemma var_length_anchor_clause: "list_all frag seeds \<Longrightarrow> clause (var_length_anchor seeds)"
  unfolding var_length_anchor_def
  by (cases seeds rule: remdups_adj.cases; simp only: list.case; intro clause_append cast_clause statement_clauses graph_clauses var_clauses frag_clause [OF paren_frag] seed_values_clause)
    (auto dest: frag_clause)

lemma push_cte_ok: "\<lbrakk>state_ok q; clause n; clause b\<rbrakk> \<Longrightarrow> state_ok (push_cte n b rec q)"
  by (simp add: state_ok_def push_cte_def)

lemma table_ok: "\<lbrakk>state_ok q; frag t\<rbrakk> \<Longrightarrow> state_ok (q\<lparr>q_table := t\<rparr>)"
  by (simp add: state_ok_def)

lemmas body_intros = conjI table_ok push_cte_ok graph_tables clause_append statement_clauses graph_clauses var_clauses traverse_anchor_clause
  var_length_anchor_clause cast_clause step_clauses next_node_clause join_cond_clause and_type_clause var_names frag_clause [OF show_nat_frag]

lemma op_graph_traverse_ok:
  assumes fl: "floats_ok fl" and q: "state_ok q" and ts: "toks_ok fl ts"
  shows "spec (op_graph_traverse fl q ts) (\<lambda>(q', r). suffix r ts \<and> state_ok q')"
  unfolding op_graph_traverse_def Let_def
  by (intro preamble_spec [where ts = ts] seq_bind seq [where ts = ts] seq_part [OF seeds_parses [OF fl] ts] edge_type_spec [OF fl ts];
    (rule suffix_order.order_refl | assumption)?)
    (simp only: prod.case, intro body_intros q frag_clause [OF state_okD(1) [OF q]], auto dest: frag_clause)

lemma op_graph_var_length_ok:
  assumes fl: "floats_ok fl" and q: "state_ok q" and ts: "toks_ok fl ts"
  shows "spec (op_graph_var_length fl q ts) (\<lambda>(q', r). suffix r ts \<and> state_ok q')"
  unfolding op_graph_var_length_def Let_def
  by (intro hops_spec [where ts = ts] seq_bind seq [where ts = ts] seq_part [OF seeds_parses [OF fl] ts] direction_ok [where ts = ts] edge_type_spec [OF fl ts];
    (rule suffix_order.order_refl | assumption)?)
    (simp only: prod.case, intro body_intros q frag_clause [OF state_okD(1) [OF q]], auto dest: frag_clause)

lemma op_graph_shortest_path_ok:
  assumes fl: "floats_ok fl" and q: "state_ok q" and ts: "toks_ok fl ts"
  shows "spec (op_graph_shortest_path fl q ts) (\<lambda>(q', r). suffix r ts \<and> state_ok q')"
  unfolding op_graph_shortest_path_def Let_def
  by (intro preamble_spec [where ts = ts] seq_bind seq [where ts = ts] seq_part [OF scalar_parses [OF fl] ts];
    (rule suffix_order.order_refl | assumption)?)
    (simp only: prod.case, intro body_intros q frag_clause [OF state_okD(1) [OF q]], auto dest: frag_clause)

lemma eat_spec:
  assumes "suffix q ts" "\<And>r. suffix r ts \<Longrightarrow> spec (k r) Q" "spec m Q"
  shows "spec (case eat t q of None \<Rightarrow> m | Some r \<Rightarrow> k r) Q"
  using assms by (cases "eat t q") (auto dest: suffix_steps(2))

lemma op_make_graph_ok:
  assumes q: "state_ok q" and ts: "toks_ok fl ts"
  shows "spec (op_make_graph q ts) (\<lambda>(q', r). suffix r ts \<and> state_ok q')"
  unfolding op_make_graph_def
  by (intro seq_bind seq [where ts = ts] seq_ident [OF _ ts] eat_spec [where ts = ts]; (rule suffix_order.order_refl | assumption)?)
    (use q ident_frag in \<open>auto simp: state_ok_def graph_ok_def\<close>)

end
