(* ===== verification/Kql_Statement.thy ===== *)
theory Kql_Statement
  imports Kql_Operators
begin

text \<open>
  Graph patterns and whole queries. The properties of the translation: it returns, it does not panic,
  and it emits a single statement.
\<close>

section \<open>Patterns\<close>

lemma node_parses: "parses fl n parse_node ident_ok"
proof (rule parsesI)
  fix ts :: "'a kql_token list" assume "toks_ok fl ts"
  then show "spec (parse_node ts) (\<lambda>(x, r). strict_suffix r ts \<and> ident_ok x)"
    by (auto simp: parse_node_def tok_ok_def intro!: suffix_Cons_strict suffix_ConsI)
qed

lemma edge_parses: "parses fl n parse_edge (\<lambda>_. True)"
proof (rule parsesI)
  fix ts :: "'a kql_token list"
  show "spec (parse_edge ts) (\<lambda>(x, r). strict_suffix r ts \<and> True)"
    by (auto simp: parse_edge_def intro!: suffix_Cons_strict suffix_ConsI split: option.split)
qed

lemma hop_parses: "parses fl n parse_hop (\<lambda>_. True)"
proof (rule parsesI)
  fix ts assume ts: "toks_ok fl ts"
  show "spec (parse_hop ts) (\<lambda>(x, r). strict_suffix r ts \<and> True)"
    unfolding parse_hop_def
    by (intro seq_bind seq_parses [OF edge_parses _ ts] seq_parses [OF node_parses _ ts]) (auto dest: suffix_steps(1))
qed

lemma seq_sep:
  assumes "\<And>n. parses fl n p Q" "toks_ok fl ts" "suffix q ts" and "\<And>x r. \<lbrakk>strict_suffix r ts; x \<noteq> []; list_all Q x\<rbrakk> \<Longrightarrow> K x r"
  shows "spec (sep_list (length q) sep p q) (case_prod K)"
  by (rule spec_mono [OF spec_sep_list [OF assms(1)]], rule order_refl, rule suffix_toks [OF assms(3,2)], rule order_refl)
    (use assms(3,4) in \<open>auto intro: suffix_order.less_le_trans\<close>)

lemma path_parses: "parses fl n parse_path (\<lambda>(n, hs). hs \<noteq> [])"
proof (rule parsesI)
  fix ts :: "'a kql_token list" assume ts: "toks_ok fl ts"
  show "spec (parse_path ts) (\<lambda>(x, r). strict_suffix r ts \<and> (case x of (n, hs) \<Rightarrow> hs \<noteq> []))"
    unfolding parse_path_def
    by (intro seq_bind seq_part [OF node_parses ts] seq [where ts = ts] seq_sep [OF hop_parses ts]; (rule suffix_order.order_refl | assumption)?) simp
qed

lemma segment_parses: "parses fl n parse_segment (\<lambda>_. True)"
proof (rule parsesI)
  fix ts :: "'a kql_token list" assume ts: "toks_ok fl ts"
  obtain b r where b: "eat_ident_eq ''OPTIONAL'' ts = (b, r)" by (metis surj_pair)
  then have r: "suffix r ts" by (cases ts) (auto simp: eat_ident_eq_def suffix_Cons split: option.splits)
  show "spec (parse_segment ts) (\<lambda>(x, r). strict_suffix r ts \<and> True)"
    unfolding parse_segment_def b prod.case
    by (intro seq_bind seq_parses [OF path_parses r ts]) auto
qed

lemma project_item_parses:
  assumes "\<And>v. spec (alias_of v :: 'f parse_error + string) clause"
  shows "parses fl n (project_item alias_of) clause"
proof (rule parsesI)
  fix ts :: "'f kql_token list" assume ts: "toks_ok fl ts"
  have out: "spec (case eat_ident_eq ''as'' q of (True, r) \<Rightarrow> expect_ident r | (False, r) \<Rightarrow> Inr (d, r)) (\<lambda>(_, r). strict_suffix r ts)"
    if "strict_suffix q ts" for q d
    using that by (auto simp: eat_ident_eq_def split: option.splits dest: suffix_steps)
  have item: "clause (tbl @ ''.'' @ quote_ident c @ '' AS '' @ quote_ident d)" if "clause tbl" for tbl c d
    using that by (intro clause_append graph_clauses statement_clauses frag_clause [OF quote_ident_frag])
  have "spec (bindE (alias_of v) (\<lambda>tbl. pbind (case eat_ident_eq ''as'' q of (True, r) \<Rightarrow> expect_ident r | (False, r) \<Rightarrow> Inr (v @ ''_'' @ c, r))
      (\<lambda>d r. Inr (tbl @ ''.'' @ quote_ident c @ '' AS '' @ quote_ident d, r)))) (\<lambda>(x, r). strict_suffix r ts \<and> clause x)"
    if "strict_suffix q ts" for q v c
    by (rule seq_bind, rule spec_mono [OF assms], rule seq_bind, rule spec_mono [OF out [OF that]]) (use item in auto)
  then show "spec (project_item alias_of ts) (\<lambda>(x, r). strict_suffix r ts \<and> clause x)"
    unfolding project_item_def by (simp only: wp, intro allI impI) (auto intro!: suffix_Cons_strict suffix_ConsI)
qed

lemma project_list_spec:
  assumes "\<And>v. spec (alias_of v :: 'f parse_error + string) clause" "toks_ok fl ts" "suffix q ts"
    and "\<And>x r. \<lbrakk>suffix r ts; list_all clause x\<rbrakk> \<Longrightarrow> K x r"
  shows "spec (project_list alias_of q) (case_prod K)"
  unfolding project_list_def
  by (intro seq_bind seq [where ts = ts] assms(3) seq_items [OF project_item_parses [OF assms(1)] _ assms(2)])
    (use assms(4) suffix_steps(1) in auto)

section \<open>Matching\<close>

lemma require_graph_spec: "\<lbrakk>state_ok q; \<And>g. graph_ok g \<Longrightarrow> Q g\<rbrakk> \<Longrightarrow> spec (require_graph op q) Q"
  using state_okD(10) by (auto simp: require_graph_def split: option.split)

lemma edge_spec:
  assumes "toks_ok fl ts" "suffix q ts" and "\<And>e ty r. suffix r ts \<Longrightarrow> spec (k e ty r) Q"
  shows "spec (pbind (parse_edge q) (\<lambda>(e, ty) r. k e ty r)) Q"
  by (intro seq_bind seq_part [OF edge_parses assms(1,2)]) (auto simp: assms(3) split: prod.split)

lemma path_spec:
  assumes "toks_ok fl ts" "suffix q ts" and "\<And>n hs r. suffix r ts \<Longrightarrow> spec (k n hs r) Q"
  shows "spec (pbind (parse_path q) (\<lambda>(n, hs) r. k n hs r)) Q"
  by (intro seq_bind seq_part [OF path_parses assms(1,2)]) (auto simp: assms(3) split: prod.split)

lemma alias_names: "clause ''a''" "clause ''b''" "clause ''n''" "clause ''ed''" "clause ''gn''" "clause ''ge''" "clause ''ge0''" "clause '' ge0''" "clause '' e''" "clause '' ed0''" "clause ''ed0''"
  "clause ''n0''" "clause ''n1''" "clause '' ed''" "clause '' ON ''" "clause ''JOIN''" "clause ''LEFT JOIN''" "clause '' LEFT JOIN ''" "clause '' CROSS JOIN ''" "clause '' ON true''"
  "clause ''_gm_result''"
  by (simp_all add: plain_clause lit_simps)

lemma unknown_spec: "spec (unknown_var op v) Q"
  by (simp add: unknown_var_def)

lemma numbered_clause: "clause x \<Longrightarrow> clause (x @ show_nat i)"
  by (intro clause_append frag_clause [OF show_nat_frag])

lemma alias_specs:
  "spec (var_match_alias a rel b v) clause" "spec (path_alias nodes edges v) clause" "spec (general_alias nodes' edges' v) clause"
  unfolding var_match_alias_def path_alias_def general_alias_def
  by (simp_all only: spec_base unknown_spec alias_names var_names numbered_clause parse_error.distinct simp_thms split: if_split option.split)

lemma graph_okD: "graph_ok g \<Longrightarrow> clause (gd_edge_table g)" "graph_ok g \<Longrightarrow> clause (gd_node_table g)"
  by (auto simp: graph_ok_def frag_clause)

lemma op_graph_var_match_ok:
  assumes q: "state_ok q" and ts: "toks_ok fl ts"
  shows "spec (op_graph_var_match q ts) (\<lambda>(q', r). suffix r ts \<and> state_ok q')"
  unfolding op_graph_var_match_def Let_def
  by (intro require_graph_spec [OF q] edge_spec [OF ts] hops_spec [where ts = ts] seq_bind seq_part [OF node_parses ts] seq [where ts = ts]
      direction_ok [where ts = ts] project_list_spec [OF alias_specs(1) ts]; (rule suffix_order.order_refl | assumption)?)
    (simp only: prod.case, intro body_intros q join_clause comma_clause frag_clause [OF quote_ident_frag] graph_okD,
      auto intro: frag_clause [OF sql_string_frag])

lemma join_node_clause: "\<lbrakk>clause k; clause t; clause e; clause n\<rbrakk> \<Longrightarrow> clause (join_node k t e (quote_ident c) n (quote_ident d))"
  "\<lbrakk>clause e; clause n\<rbrakk> \<Longrightarrow> clause (on_sql e (quote_ident c) n (quote_ident d))"
  unfolding join_node_def on_sql_def by (intro clause_append statement_clauses alias_names graph_clauses frag_clause [OF quote_ident_frag]; assumption)+

lemma type_conds_clause: "clause pre \<Longrightarrow> list_all clause (type_conds pre edges)"
  unfolding type_conds_def
  by (auto simp: list_all_iff split: option.splits intro!: type_cond_clause clause_append frag_clause [OF show_nat_frag] frag_clause [OF sql_string_frag])

lemma concat_clause: "list_all clause xs \<Longrightarrow> clause (concat xs)"
  by (induction xs) (auto intro: clause_Nil clause_append)

lemma path_body_clause:
  assumes "graph_ok g" "list_all clause sel"
  shows "clause (path_body g edges sel)"
proof -
  note rules = clause_append statement_clauses alias_names var_names join_clause comma_clause assms graph_okD [OF assms(1)] join_node_clause numbered_clause
  have one: "clause (case t of Some t \<Rightarrow> '' WHERE '' @ type_cond ''e'' (sql_string t) | None \<Rightarrow> [])" for t
    by (cases t; simp only: option.case; intro clause_Nil clause_append statement_clauses type_cond_clause var_names frag_clause [OF sql_string_frag])
  have many: "list_all clause (map (\<lambda>i. '' JOIN '' @ gd_edge_table g @ '' ed'' @ show_nat i @ '' ON '' @
      on_sql (''ed'' @ show_nat i) (quote_ident (gd_src_col g)) (''n'' @ show_nat i) (quote_ident (gd_id_col g)) @
      join_node ''JOIN'' (gd_node_table g) (''ed'' @ show_nat i) (quote_ident (gd_dst_col g)) (''n'' @ show_nat (i + 1)) (quote_ident (gd_id_col g))) is)" for "is"
    unfolding list_all_iff set_map by (intro ballI, elim imageE, hypsubst) (intro rules var_clauses frag_clause [OF show_nat_frag])
  show ?thesis unfolding path_body_def Let_def
    by (simp only: split: if_split, intro conjI impI rules one concat_clause [OF many] where_clause' type_conds_clause)
qed

lemma push_nodes: "set (foldl push_node nv xs) = set nv \<union> set xs"
  by (induction xs arbitrary: nv) (auto simp: push_node_def)

lemma path_edges_nodes: "(ev, et, s, d, opt') \<in> set (path_edges opt n hs) \<Longrightarrow> s \<in> set (n # map snd hs) \<and> d \<in> set (n # map snd hs)"
  by (induction opt n hs rule: path_edges.induct) auto

lemma those_Some: "(\<And>x. x \<in> set xs \<Longrightarrow> f x \<noteq> None) \<Longrightarrow> those (map f xs) \<noteq> None"
  by (induction xs) (auto split: option.splits)

text \<open>Every end of an edge is a node of its path: \<open>node_ord\<close> finds it, and its \<open>expect\<close> does not fail.\<close>

lemma edges_resolved:
  fixes paths :: "(bool \<times> string \<times> ((string \<times> string option) \<times> string) list) list"
  defines "nodes \<equiv> foldl push_node [] (concat (map (\<lambda>(_, n, hs). n # map snd hs) paths))"
    and "edges \<equiv> concat (map (\<lambda>(opt, n, hs). path_edges opt n hs) paths)"
  shows "those (map (resolve_edge nodes) edges) \<noteq> None"
proof -
  have "resolve_edge nodes e \<noteq> None" if "e \<in> set edges" for e
  proof -
    obtain ev et s d opt where e: "e = (ev, et, s, d, opt)" by (cases e)
    from that obtain o' n hs where p: "(o', n, hs) \<in> set paths" "e \<in> set (path_edges o' n hs)" unfolding edges_def by auto
    have "n # map snd hs \<in> (\<lambda>(_, n, hs). n # map snd hs) ` set paths" using p(1) by (rule rev_image_eqI) simp
    then have "set (n # map snd hs) \<subseteq> set nodes" unfolding nodes_def push_nodes set_concat set_map by blast
    moreover have "s \<in> set (n # map snd hs) \<and> d \<in> set (n # map snd hs)" using p(2) unfolding e by (rule path_edges_nodes)
    ultimately have "s \<in> set nodes" "d \<in> set nodes" by blast+
    then have "position (\<lambda>n. n = s) nodes \<noteq> None" "position (\<lambda>n. n = d) nodes \<noteq> None" unfolding position_None by blast+
    then show ?thesis unfolding e resolve_edge_def by auto
  qed
  then show ?thesis by (rule those_Some)
qed

lemma join_edge_clause: "graph_ok g \<Longrightarrow> clause (join_edge g i joined e)"
proof -
  assume g: "graph_ok g"
  obtain et si di opt where e: "e = (et, si, di, opt)" by (cases e)
  note rules = clause_append statement_clauses alias_names graph_okD [OF g] join_node_clause numbered_clause
  have cond: "clause (if b then x else y)" if "clause x" "clause y" for b x y using that by simp
  have conds: "list_all clause ((if b then [on_sql (''ge'' @ show_nat i) (quote_ident c) (''gn'' @ show_nat j) (quote_ident d)] else []) @
      (if b' then [on_sql (''ge'' @ show_nat i) (quote_ident c') (''gn'' @ show_nat j') (quote_ident d)] else []) @
      (case et of Some t \<Rightarrow> if opt then [type_cond (''ge'' @ show_nat i) (sql_string t)] else [] | None \<Rightarrow> []))" for b b' c c' d j j'
    using join_node_clause(2) [OF numbered_clause numbered_clause, OF alias_names(6,5)] type_cond_clause [OF numbered_clause [OF alias_names(6)] frag_clause [OF sql_string_frag]]
    by (simp split: option.split)
  show ?thesis unfolding e join_edge_def prod.case Let_def
    by (intro rules frag_clause [OF show_nat_frag] cond join_clause conds text_clauses clause_Nil)
qed

lemma from_edges_clause: "graph_ok g \<Longrightarrow> clause (from_edges g es)"
proof -
  assume g: "graph_ok g"
  have join: "clause (join_edges g i joined es)" for i joined es
    by (induction es arbitrary: i joined) (simp_all add: clause_Nil clause_append join_edge_clause [OF g])
  have first: "clause (first_edge g e)" for e
    unfolding first_edge_def by (cases e; simp only: prod.case; intro clause_append alias_names graph_okD [OF g] join_node_clause numbered_clause)
  show ?thesis unfolding from_edges_def by (cases es; simp only: list.case; intro clause_Nil clause_append first join)
qed

lemma general_ok:
  assumes q: "state_ok q" and g: "graph_ok g" and ts: "toks_ok fl ts" and r: "suffix r ts"
  shows "spec (emit_general_graph_match g n0 hs0 q r) (\<lambda>(q', r). suffix r ts \<and> state_ok q')"
  unfolding emit_general_graph_match_def Let_def
  by (intro seq_bind seq_sep [OF segment_parses ts] project_list_spec [OF alias_specs(3) ts] r suffix_steps(1), assumption,
      simp only: edges_resolved option.case_eq_if if_False,
      intro seq_bind, simp only: prod.case,
      intro TrueI conjI table_ok push_cte_ok q graph_tables clause_append statement_clauses alias_names join_clause comma_clause from_edges_clause [OF g] where_clause' type_conds_clause)

lemma op_graph_match_ok:
  assumes q: "state_ok q" and ts: "toks_ok fl ts"
  shows "spec (op_graph_match q ts) (\<lambda>(q', r). suffix r ts \<and> state_ok q')"
proof -
  have one: "spec (pbind (project_list (path_alias (n0 # map snd hs) (map fst hs)) r) (\<lambda>sel r.
      Inr ((push_cte ''_gm_result'' (path_body g (map fst hs) sel) False q)\<lparr>q_table := ''_gm_result''\<rparr>, r))) (\<lambda>(q', r). suffix r ts \<and> state_ok q')"
    if "graph_ok g" "suffix r ts" for n0 hs r g
    by (intro seq_bind project_list_spec [OF alias_specs(2) ts that(2)])
      (simp only: prod.case, intro TrueI conjI table_ok push_cte_ok q graph_tables alias_names path_body_clause that(1))
  show ?thesis unfolding op_graph_match_def
    by (intro require_graph_spec [OF q] seq_bind(2) path_spec [OF ts] eat_spec [where ts = ts] general_ok [OF q _ ts] one; (rule suffix_order.order_refl | assumption))
qed

section \<open>Queries\<close>

lemma operator_ok:
  assumes fl: "floats_ok fl" and q: "state_ok q" and ts: "toks_ok fl ts"
  shows "spec (parse_operator fl q ts) (\<lambda>(q', r). strict_suffix r ts \<and> state_ok q')"
proof (cases "\<exists>op r. ts = TIdent op # r")
  case True
  then obtain op r where t: "ts = TIdent op # r" by blast
  then have r: "toks_ok fl r" using ts by simp
  have step: "spec m (\<lambda>(q', r'). strict_suffix r' ts \<and> state_ok q')" if "spec m (\<lambda>(q', r'). suffix r' r \<and> state_ok q')"
    for m :: "('a, query_state) parsed"
    by (rule spec_mono [OF that]) (auto simp: t intro: suffix_Cons_strict)
  have branch: "spec (if b then m else m') Q" if "spec m Q" "spec m' Q" for b and m m' :: "('a, query_state) parsed" and Q
    using that by simp
  have head: "pbind (ident_or w (TIdent op # r)) k = k op r" for w and k :: "string \<Rightarrow> 'a kql_token list \<Rightarrow> ('a, query_state) parsed"
    by (simp add: ident_or_def bump_def pbind_def)
  show ?thesis unfolding t parse_operator_def head unfolding t [symmetric]
    by (intro branch step op_where_ok [OF fl q r] op_project_ok [OF q r] op_extend_ok [OF fl q r] op_summarize_ok [OF fl q r] op_take_ok [OF q]
        op_sort_ok [OF fl q r] op_top_ok [OF fl q r] op_count_ok [OF q] op_distinct_ok [OF q] op_graph_traverse_ok [OF fl q r]
        op_graph_var_length_ok [OF fl q r] op_graph_var_match_ok [OF q r] op_graph_shortest_path_ok [OF fl q r] op_make_graph_ok [OF q r]
        op_graph_match_ok [OF q r]) simp
qed (auto simp: parse_operator_def)

lemma pipes_ok:
  assumes fl: "floats_ok fl"
  shows "\<lbrakk>state_ok q; toks_ok fl ts; length ts \<le> n\<rbrakk> \<Longrightarrow> spec (parse_pipes fl n q ts) state_ok"
proof (induction n arbitrary: q ts)
  case 0
  then show ?case by (simp add: parse_pipes.simps [of fl 0] eat_def)
next
  case (Suc n)
  have "spec (pbind (parse_operator fl q r) (\<lambda>q r. parse_pipes fl n q r)) state_ok" if "ts = TPipe # r" for r
  proof (rule seq_bind, rule spec_mono [OF operator_ok [OF fl Suc.prems(1)]])
    show r: "toks_ok fl r" using Suc.prems that by simp
    fix z assume "case z of (q', r') \<Rightarrow> strict_suffix r' r \<and> state_ok q'"
    then obtain q' r' where z: "z = (q', r')" "strict_suffix r' r" "state_ok q'" by (cases z) auto
    have "toks_ok fl r'" using suffix_toks [OF suffix_steps(1) [OF z(2)] r] .
    moreover have "length r' \<le> n" using strict_suffix_length [OF z(2)] Suc.prems that by simp
    ultimately show "case z of (q, r) \<Rightarrow> spec (parse_pipes fl n q r) state_ok" using Suc.IH z by simp
  qed
  then show ?case using Suc.prems(1) by (subst parse_pipes.simps) (auto split: option.split)
qed

lemma table_query_ok:
  assumes "floats_ok fl" "toks_ok fl ts"
  shows "spec (parse_table_query fl ts) state_ok"
proof -
  have "spec (parse_pipes fl (length r) (query_state_new t) r) state_ok" if "ts = TIdent t # r" for t r
    by (rule pipes_ok [OF assms(1) new_state_ok]) (use assms(2) that ident_frag in \<open>auto simp: tok_ok_def\<close>)
  then show ?thesis by (simp add: parse_table_query_def)
qed

lemma matching_paren_split: "matching_paren d ts = Some (inner, r) \<Longrightarrow> ts = inner @ r"
  by (induction d ts arbitrary: inner rule: matching_paren.induct) (auto simp: Let_def split: if_splits)

definition operand_ok :: "union_operand \<Rightarrow> bool" where
  "operand_ok op \<longleftrightarrow> (case snd op of UTable t \<Rightarrow> frag t | USubQuery sql \<Rightarrow> clause sql)"

lemma operand_parses:
  assumes "floats_ok fl"
  shows "parses fl n (parse_union_operand fl) operand_ok"
proof (rule parsesI)
  fix ts assume ts: "toks_ok fl ts"
  show "spec (parse_union_operand fl ts) (\<lambda>(x, r). strict_suffix r ts \<and> operand_ok x)"
  proof (cases "eat TLParen ts")
    case None
    then show ?thesis using ts ident_frag
      by (auto simp: parse_union_operand_def operand_ok_def tok_ok_def intro: suffix_Cons_strict)
  next
    case (Some r)
    have sub: "spec (parse_table_query fl inner) (\<lambda>q. strict_suffix r' ts \<and> operand_ok (root_table q, USubQuery (to_sql q)))"
      if "matching_paren 1 r = Some (inner, TRParen # r')" for inner r'
    proof -
      have split: "r = inner @ TRParen # r'" by (rule matching_paren_split [OF that])
      then have "toks_ok fl inner" using Some ts by simp
      moreover have "strict_suffix r' ts" using Some split by (auto simp: suffix_def intro!: suffix_Cons_strict)
      ultimately show ?thesis using to_sql_clause by (auto simp: operand_ok_def intro: spec_mono [OF table_query_ok [OF assms]])
    qed
    then show ?thesis unfolding parse_union_operand_def using Some
      by (auto split: option.split)
  qed
qed

lemma superset_spec: "spec (column_superset schemas acc ops) (\<lambda>_. True)"
proof (induction ops arbitrary: acc)
  case (Cons op ops)
  have "spec (table_columns schemas (fst op)) (\<lambda>_. True)" by (auto simp: table_columns_def split: option.split)
  then show ?case by (auto elim!: spec_mono intro: Cons.IH)
qed simp

lemma union_branch_clause:
  assumes "operand_ok op"
  shows "clause (union_branch schemas src superset i op)"
proof -
  have proj: "list_all clause ((case src of Some s \<Rightarrow> [sql_string (fst op) @ '' AS '' @ quote_ident s] | None \<Rightarrow> []) @
      map (\<lambda>c. if c \<in> set own then quote_ident c else ''NULL AS '' @ quote_ident c) superset)" for own
  proof -
    have "clause (sql_string t @ '' AS '' @ quote_ident s)" "clause (''NULL AS '' @ quote_ident s)" for t s
      by (intro clause_append statement_clauses frag_clause [OF sql_string_frag] frag_clause [OF quote_ident_frag])+
    then show ?thesis using frag_clause [OF quote_ident_frag] by (auto simp: list_all_iff simp del: append.simps split: option.splits)
  qed
  have "clause (case snd op of UTable t \<Rightarrow> t | USubQuery sql \<Rightarrow> paren sql @ '' _b'' @ show_nat i)"
  proof (cases "snd op")
    case (UTable t)
    then show ?thesis using assms frag_clause by (simp add: operand_ok_def)
  next
    case (USubQuery sql)
    then have "clause sql" using assms by (simp add: operand_ok_def)
    then show ?thesis unfolding USubQuery union_from.case by (intro clause_append frag_clause [OF paren_frag] statement_clauses frag_clause [OF show_nat_frag])
  qed
  then show ?thesis unfolding union_branch_def Let_def by (intro clause_append statement_clauses join_clause comma_clause proj)
qed

lemma union_ok:
  assumes fl: "floats_ok fl" and ts: "toks_ok fl ts"
  shows "spec (parse_union fl schemas ts) (\<lambda>(q, r). suffix r ts \<and> state_ok q)"
proof -
  have src: "spec (case eat_ident_eq ''withsource'' ts of
      (True, r) \<Rightarrow> pbind (expect TAssign ''`=` after withsource'' r) (\<lambda>_ r. pbind (expect_ident r) (\<lambda>s r. Inr (Some s, r)))
    | (False, r) \<Rightarrow> Inr (None, r)) (\<lambda>(_, r). suffix r ts)"
    by (auto simp: eat_ident_eq_def suffix_Cons split: option.splits)
  have body: "clause (join '' UNION ALL '' (map (\<lambda>(i, op). union_branch schemas src superset i op) (enumerate 0 ops)))"
    if "list_all operand_ok ops" for src superset ops
  proof (rule join_clause [OF _ statement_clauses(17)])
    show "list_all clause (map (\<lambda>(i, op). union_branch schemas src superset i op) (enumerate 0 ops))"
      unfolding list_all_iff using that
      by (auto simp: list_all_iff in_set_enumerate_eq intro!: union_branch_clause) (metis nth_mem)
  qed
  have fin: "state_ok (push_cte ''_u'' b False (query_state_new ''_u''))" if "clause b" for b
    by (intro push_cte_ok new_state_ok graph_tables that frag_clause [OF graph_tables(6)])
  show ?thesis unfolding parse_union_def
  proof (rule seq_bind, rule spec_mono [OF src], clarify)
    fix w r assume r: "suffix r ts"
    show "spec (pbind (items (parse_union_operand fl) r) (\<lambda>ops r. bindE (column_superset schemas [] ops) (\<lambda>superset.
       if (case w of Some s \<Rightarrow> s \<in> set superset | None \<Rightarrow> False)
       then Inl (ParseError (''withsource column `'' @ the w @ ''` collides with a column of the union operands''))
       else Inr (push_cte ''_u'' (join '' UNION ALL '' (map (\<lambda>(i, op). union_branch schemas w superset i op) (enumerate 0 ops))) False (query_state_new ''_u''), r))))
      (\<lambda>(q, r). suffix r ts \<and> state_ok q)"
      by (intro seq_bind seq_items [OF operand_parses [OF fl] r ts], rule spec_mono [OF superset_spec])
        (use fin body suffix_steps(1) in auto)
  qed
qed

lemma query_ok:
  assumes fl: "floats_ok fl" and ts: "toks_ok fl ts"
  shows "spec (parse_query fl schemas ts) state_ok"
proof (cases "peek_ident ''union'' ts")
  case True
  have t: "toks_ok fl (tl ts)" using ts by (cases ts) auto
  show ?thesis unfolding parse_query_def if_P [OF True]
    by (rule seq_bind, rule spec_mono [OF union_ok [OF fl t]]) (auto intro!: pipes_ok [OF fl] dest: suffix_toks [OF _ t])
next
  case False
  show ?thesis unfolding parse_query_def if_not_P [OF False] by (rule table_query_ok [OF fl ts])
qed

lemma translation_spec: "floats_ok fl \<Longrightarrow> spec (kql_to_sql_with_schemas fl src schemas) clause"
proof -
  assume fl: "floats_ok fl"
  show ?thesis
  proof (cases "kql_tokenize fl src")
    case (Inr ts)
    then have "toks_ok fl ts" using kql_tokenize_ok fl by blast
    then show ?thesis unfolding kql_to_sql_with_schemas_def Inr sum.case
      by (intro seq_bind spec_mono [OF query_ok [OF fl]] to_sql_clause)
  qed (simp add: kql_to_sql_with_schemas_def)
qed

text \<open>
  C2: whatever the query text, what \<open>kql_to_sql_with_schemas\<close> emits is one SQL statement. No
  quote of a literal, an identifier, a table, an edge type or a seed of the query ends the SQL literal or
  identifier it is put into, no semicolon and no comment stands outside of them, and the parentheses match.
\<close>

theorem kql_single_statement:
  assumes "floats_ok fl" "kql_to_sql_with_schemas fl src schemas = Inr sql"
  shows "single_statement sql"
  using translation_spec [OF assms(1), of src schemas] assms(2) by (simp add: clause_single)


definition ex_injection :: string where
  "ex_injection = ''users | where name == '' @ [dquote] @ ''x'' @ [squote] @ ''; DROP TABLE users; --'' @ [dquote] @ '' | take 5''"

lemma ex_injection_sql:
  "kql_to_sql_with_schemas ex_floats ex_injection [] =
     Inr (''SELECT * FROM users WHERE (name = '' @ [squote] @ ''x'' @ [squote, squote] @ ''; DROP TABLE users; --'' @ [squote] @ '') LIMIT 5'')"
  by code_simp

theorem kql_single_statement_witness:
  "single_statement (''SELECT * FROM users WHERE (name = '' @ [squote] @ ''x'' @ [squote, squote] @ ''; DROP TABLE users; --'' @ [squote] @ '') LIMIT 5'')"
  by (rule kql_single_statement [OF ex_floats_ok ex_injection_sql])


section \<open>Where the SQL is not the pipeline\<close>

text \<open>
  The state has one limit and one list of conditions, so the order of \<open>take\<close> and \<open>where\<close> is lost: the
  limit applies to what the conditions leave, also when it came first.
\<close>

lemma take_order_lost:
  "kql_to_sql ex_floats ''t | take 5 | where a == 1'' = kql_to_sql ex_floats ''t | where a == 1 | take 5''"
  "kql_to_sql ex_floats ''t | take 5 | where a == 1'' = Inr ''SELECT * FROM t WHERE (a = 1) LIMIT 5''"
  by code_simp+

text \<open>Likewise a count after \<open>distinct\<close> counts all rows.\<close>

lemma distinct_count_lost:
  "kql_to_sql ex_floats ''t | distinct a | count'' = kql_to_sql ex_floats ''t | count''"
  by code_simp

text \<open>The right side of \<open>contains\<close> is taken as text also when it is a column.\<close>

lemma contains_column:
  "kql_to_sql ex_floats ''t | where a contains b'' = kql_to_sql ex_floats (''t | where a contains '' @ [dquote] @ ''b'' @ [dquote])"
  by code_simp

text \<open>A variable that occurs twice in a single path is two variables.\<close>

lemma repeated_variable:
  "kql_to_sql ex_floats ''e | make-graph s --> d with n on id | graph-match (a)-[r]->(a) project a.x'' =
     Inr ''WITH _gm_result AS (SELECT a.x AS a_x FROM e e JOIN n a ON e.s = a.id JOIN n b ON e.d = b.id) SELECT * FROM _gm_result''"
  by code_simp

text \<open>With several paths a loop in the first edge gives two tables the same alias.\<close>

lemma duplicate_alias:
  "kql_to_sql ex_floats ''e | make-graph s --> d with n on id | graph-match (a)-[r]->(a), (a)-[q]->(b) project a.x'' =
     Inr ''WITH _gm_result AS (SELECT gn0.x AS a_x FROM e ge0 JOIN n gn0 ON ge0.s = gn0.id JOIN n gn0 ON ge0.d = gn0.id JOIN e ge1 ON ge1.s = gn0.id JOIN n gn1 ON ge1.d = gn1.id) SELECT * FROM _gm_result''"
  by code_simp

end
