(* ===== verification/Discover.thy ===== *)
theory Discover
  imports Kql_Grammar Kql_Statement
begin

text \<open>
  The search bar: \<open>pensieve-server/src/discover/grammar.rs\<close> reads the search text as a list of clauses, and
  \<open>compile.rs\<close> compiles them to a KQL query for each source, which the KQL front end translates to SQL.

  Shown: the SQL of a search is the selection from the source with one condition per clause that applies to its
  schema, whatever stands in the search text. Where the search does not do what the documentation of its grammar
  says, or gives a query that is not accepted, a lemma has an example.
\<close>

section \<open>The search grammar\<close>

datatype search_cmp = CGt | CGe | CLt | CLe

datatype search_clause =
  Substring string | FieldEq string string | FieldNeq string string | FieldCmp string search_cmp string | FieldExists string

datatype grammar_error = UnterminatedQuote | DanglingNegation | NegatedSubstring

text \<open>The text up to the closing quote, and what follows it.\<close>

fun read_quoted :: "string \<Rightarrow> (string \<times> string) option" where
  "read_quoted [] = None"
| "read_quoted (c # cs) = (if c = dquote then Some ([], cs) else map_option (\<lambda>(q, r). (c # q, r)) (read_quoted cs))"

lemma read_quoted_shorter: "read_quoted s = Some (q, r) \<Longrightarrow> length r < length s"
  by (induction s arbitrary: q) (auto split: if_splits)

function read_token :: "string \<Rightarrow> grammar_error + string \<times> string" where
  "read_token [] = Inr ([], [])"
| "read_token (c # cs) =
     (if skip_blank (c # cs) \<noteq> None then Inr ([], c # cs)
      else if c = dquote then
        (case read_quoted cs of
           None \<Rightarrow> Inl UnterminatedQuote
         | Some (q, r) \<Rightarrow> bindE (read_token r) (\<lambda>(b, r'). Inr (q @ b, r')))
      else bindE (read_token cs) (\<lambda>(b, r'). Inr (c # b, r')))"
  by pat_completeness auto
termination
  by (relation "measure length") (use read_quoted_shorter in \<open>fastforce+\<close>)

lemma read_token_length: "read_token s = Inr (b, r) \<Longrightarrow> length r \<le> length s"
proof (induction s arbitrary: b r rule: read_token.induct)
  case (2 c cs)
  then show ?case by (fastforce simp: bindE_Inr_iff split: if_splits option.splits dest: read_quoted_shorter)
qed simp

lemma read_token_shorter: "\<lbrakk>read_token (c # cs) = Inr (b, r); skip_blank (c # cs) = None\<rbrakk> \<Longrightarrow> length r < length (c # cs)"
  by (fastforce simp: bindE_Inr_iff split: if_splits option.splits dest: read_quoted_shorter read_token_length)

definition split_field :: "string \<Rightarrow> (string \<times> string) option" where
  "split_field token = (case position (\<lambda>c. c = CHR '':'') token of
     None \<Rightarrow> None
   | Some i \<Rightarrow> if i = 0 then None else Some (take i token, drop (i + 1) token))"

definition token_to_clause :: "string \<Rightarrow> bool \<Rightarrow> grammar_error + search_clause" where
  "token_to_clause token negated =
     (case split_field token of
        Some (field, v) \<Rightarrow>
          (if v = ''*'' then Inr (FieldExists field)
           else case strip_prefix ''>='' v of Some x \<Rightarrow> Inr (FieldCmp field CGe x) | None \<Rightarrow>
                case strip_prefix ''<='' v of Some x \<Rightarrow> Inr (FieldCmp field CLe x) | None \<Rightarrow>
                case strip_prefix ''>'' v of Some x \<Rightarrow> Inr (FieldCmp field CGt x) | None \<Rightarrow>
                case strip_prefix ''<'' v of Some x \<Rightarrow> Inr (FieldCmp field CLt x) | None \<Rightarrow>
                if negated then Inr (FieldNeq field v) else Inr (FieldEq field v))
      | None \<Rightarrow> if negated then Inl NegatedSubstring else Inr (Substring token))"

function search_parse :: "string \<Rightarrow> grammar_error + search_clause list" where
  "search_parse [] = Inr []"
| "search_parse (c # cs) =
     (case skip_blank (c # cs) of
        Some r \<Rightarrow> search_parse r
      | None \<Rightarrow>
          (let negated = (c = CHR ''-'') in
           case read_token (if negated then cs else c # cs) of
             Inl e \<Rightarrow> Inl e
           | Inr (token, r) \<Rightarrow>
               if token = [] then (if negated then Inl DanglingNegation else search_parse r)
               else bindE (token_to_clause token negated) (\<lambda>cl. bindE (search_parse r) (\<lambda>cls. Inr (cl # cls)))))"
  by pat_completeness auto
termination
proof (relation "measure length", goal_cases)
  case (2 c cs n x token r)
  then show ?case using read_token_shorter [of c cs] by auto
next
  case (3 c cs n x token r)
  then show ?case using read_token_shorter [of c cs] read_token_length [of cs] by (fastforce split: if_splits)
next
  case (4 c cs r)
  then show ?case using skip_blank_shorter by fastforce
qed auto

section \<open>Compiling to KQL\<close>

datatype col_type =
  CUtf8 | CLargeUtf8 | CUtf8View | CInt8 | CInt16 | CInt32 | CInt64 | CUInt8 | CUInt16 | CUInt32 | CUInt64
| CFloat16 | CFloat32 | CFloat64 | CDecimal128 | CDecimal256 | CTimestamp | CFixedSizeList col_type nat | CList col_type | CLargeList col_type | COtherType nat

text \<open>Of a \<open>TableRef\<close> the compiler reads the name and the fields of the schema, of a timestamp only that it is one.\<close>

record table_source =
  src_name :: string
  src_fields :: "(string \<times> col_type) list"

datatype drop_reason = UnknownField | TypeMismatch

record compiled_source =
  cs_kql :: string
  cs_dropped :: "(drop_reason \<times> search_clause) list"
  cs_timestamp :: "string option"

definition is_string_type :: "col_type \<Rightarrow> bool" where
  "is_string_type t \<longleftrightarrow> t \<in> {CUtf8, CLargeUtf8, CUtf8View}"

definition is_numeric_or_timestamp :: "col_type \<Rightarrow> bool" where
  "is_numeric_or_timestamp t \<longleftrightarrow>
     t \<in> {CInt8, CInt16, CInt32, CInt64, CUInt8, CUInt16, CUInt32, CUInt64, CFloat16, CFloat32, CFloat64, CDecimal128, CDecimal256, CTimestamp}"

definition is_vector_type :: "col_type \<Rightarrow> bool" where
  "is_vector_type t = (case t of
     CFixedSizeList e _ \<Rightarrow> e \<in> {CFloat16, CFloat32, CFloat64} | CList e \<Rightarrow> e \<in> {CFloat16, CFloat32, CFloat64}
   | CLargeList e \<Rightarrow> e \<in> {CFloat16, CFloat32, CFloat64} | _ \<Rightarrow> False)"

definition vector_columns :: "table_source \<Rightarrow> string list" where
  "vector_columns src = map fst (filter (\<lambda>f. is_vector_type (snd f)) (src_fields src))"

definition escape_str :: "string \<Rightarrow> string" where
  "escape_str s = [dquote] @ escape s @ [dquote]"

definition require_field :: "table_source \<Rightarrow> string \<Rightarrow> drop_reason + unit" where
  "require_field src name = (if name \<in> fst ` set (src_fields src) then Inr () else Inl UnknownField)"

definition cmp_text :: "search_cmp \<Rightarrow> string" where
  "cmp_text op = (case op of CGt \<Rightarrow> ''>'' | CGe \<Rightarrow> ''>='' | CLt \<Rightarrow> ''<'' | CLe \<Rightarrow> ''<='')"

definition compile_clause :: "'f floats \<Rightarrow> table_source \<Rightarrow> search_clause \<Rightarrow> drop_reason + string" where
  "compile_clause fl src c = (case c of
     Substring v \<Rightarrow>
       (let parts = map (\<lambda>f. fst f @ '' contains '' @ escape_str v) (filter (\<lambda>f. is_string_type (snd f)) (src_fields src)) in
        if parts = [] then Inl TypeMismatch
        else if length parts = 1 then Inr (hd parts) else Inr (''('' @ join '' or '' parts @ '')''))
   | FieldEq field v \<Rightarrow> bindE (require_field src field) (\<lambda>_. Inr (field @ '' == '' @ escape_str v))
   | FieldNeq field v \<Rightarrow> bindE (require_field src field) (\<lambda>_. Inr (field @ '' != '' @ escape_str v))
   | FieldExists field \<Rightarrow> bindE (require_field src field) (\<lambda>_. Inr (''isnotnull('' @ field @ '')''))
   | FieldCmp field op v \<Rightarrow>
       (case List.find (\<lambda>f. fst f = field) (src_fields src) of
          None \<Rightarrow> Inl UnknownField
        | Some f \<Rightarrow>
            if \<not> is_numeric_or_timestamp (snd f) then Inl TypeMismatch
            else (case parse_f64 fl v of Inl _ \<Rightarrow> Inl TypeMismatch | Inr _ \<Rightarrow> Inr (field @ '' '' @ cmp_text op @ '' '' @ v))))"

datatype ts_kind = TsTimestamp | TsIsoString

definition ISO_STRING_TIME_NAMES :: "string list" where
  "ISO_STRING_TIME_NAMES = [''ts'', ''timestamp'', ''event_time'', ''observed_time'', ''_time'']"

definition find_timestamp_column :: "table_source \<Rightarrow> (string \<times> ts_kind) option" where
  "find_timestamp_column src =
     (let fs = src_fields src in
      case List.find (\<lambda>f. fst f \<noteq> ''at'' \<and> snd f = CTimestamp) fs of Some f \<Rightarrow> Some (fst f, TsTimestamp) | None \<Rightarrow>
      case List.find (\<lambda>f. is_string_type (snd f) \<and> map to_ascii_lowercase (fst f) \<in> set ISO_STRING_TIME_NAMES) fs of Some f \<Rightarrow> Some (fst f, TsIsoString) | None \<Rightarrow>
      map_option (\<lambda>f. (fst f, TsTimestamp)) (List.find (\<lambda>f. snd f = CTimestamp) fs))"

text \<open>\<open>fmt\<close> is \<open>ms_to_iso\<close>, the formatting of \<open>chrono\<close>.\<close>

definition time_part :: "(int \<Rightarrow> string) \<Rightarrow> string \<times> ts_kind \<Rightarrow> int \<times> int \<Rightarrow> string" where
  "time_part fmt ts tr =
     (let col = fst ts; lo = [dquote] @ fmt (fst tr) @ [dquote]; hi = [dquote] @ fmt (snd tr) @ [dquote] in
      case snd ts of
        TsTimestamp \<Rightarrow> col @ '' >= datetime('' @ lo @ '') and '' @ col @ '' < datetime('' @ hi @ '')''
      | TsIsoString \<Rightarrow> col @ '' >= '' @ lo @ '' and '' @ col @ '' < '' @ hi)"

definition compile_for_source :: "'f floats \<Rightarrow> (int \<Rightarrow> string) \<Rightarrow> table_source \<Rightarrow> search_clause list \<Rightarrow> (int \<times> int) option \<Rightarrow> nat \<Rightarrow> compiled_source" where
  "compile_for_source fl fmt src clauses time_range limit =
     (let ts = find_timestamp_column src;
          compiled = map (\<lambda>c. (c, compile_clause fl src c)) clauses;
          parts = concat (map (\<lambda>(c, r). case r of Inr s \<Rightarrow> [s] | Inl _ \<Rightarrow> []) compiled) @
                  (case (time_range, ts) of (Some tr, Some t) \<Rightarrow> [time_part fmt t tr] | _ \<Rightarrow> []);
          away = vector_columns src
      in \<lparr>cs_kql = src_name src @ concat (map (\<lambda>p. '' | where '' @ p) parts) @
            (if away = [] then [] else '' | project-away '' @ join '', '' away) @ '' | take '' @ show_nat limit,
          cs_dropped = concat (map (\<lambda>(c, r). case r of Inl e \<Rightarrow> [(e, c)] | Inr _ \<Rightarrow> []) compiled),
          cs_timestamp = map_option fst ts\<rparr>)"

section \<open>Reading the emitted text\<close>

text \<open>A text that is read as the given tokens, before anything or before a delimiter.\<close>

definition delim :: "string \<Rightarrow> bool" where
  "delim s \<longleftrightarrow> (case s of [] \<Rightarrow> False | c # _ \<Rightarrow> c \<in> {CHR '' '', CHR ''('', CHR '')'', CHR '',''})"

definition lexes_any :: "'f floats \<Rightarrow> string \<Rightarrow> 'f kql_token list \<Rightarrow> bool" where
  "lexes_any fl s ts \<longleftrightarrow> (\<forall>rest. tokenize_from fl (s @ rest) = bindE (tokenize_from fl rest) (\<lambda>us. Inr (ts @ us)))"

definition lexes :: "'f floats \<Rightarrow> string \<Rightarrow> 'f kql_token list \<Rightarrow> bool" where
  "lexes fl s ts \<longleftrightarrow> (\<forall>rest. rest = [] \<or> delim rest \<longrightarrow> tokenize_from fl (s @ rest) = bindE (tokenize_from fl rest) (\<lambda>us. Inr (ts @ us)))"

lemma bind_app: "bindE (bindE m (\<lambda>us. Inr (vs @ us))) (\<lambda>us. Inr (ts @ us)) = bindE m (\<lambda>us. Inr ((ts @ vs) @ us))"
  by (cases m) auto

lemma bind_Nil: "bindE m Inr = m"
  by (cases m) auto

lemma delim_append: "delim s \<Longrightarrow> delim (s @ t)"
  by (cases s) (simp_all add: delim_def)

lemma lexes_append:
  "\<lbrakk>lexes_any fl s ts; lexes_any fl t us\<rbrakk> \<Longrightarrow> lexes_any fl (s @ t) (ts @ us)"
  "\<lbrakk>lexes_any fl s ts; lexes fl t us\<rbrakk> \<Longrightarrow> lexes fl (s @ t) (ts @ us)"
  "\<lbrakk>lexes fl s ts; lexes_any fl t us; delim t\<rbrakk> \<Longrightarrow> lexes_any fl (s @ t) (ts @ us)"
  "\<lbrakk>lexes fl s ts; lexes fl t us; delim t\<rbrakk> \<Longrightarrow> lexes fl (s @ t) (ts @ us)"
  by (simp_all add: lexes_any_def lexes_def bind_app delim_append)

lemma lexes_weaken: "lexes_any fl s ts \<Longrightarrow> lexes fl s ts"
  by (simp add: lexes_any_def lexes_def)

lemma lexes_any_Nil: "lexes_any fl [] []"
  by (simp add: lexes_any_def bind_Nil)

lemma lexes_whole: "lexes fl s ts \<Longrightarrow> kql_tokenize fl s = Inr ts"
  by (auto simp: lexes_def kql_tokenize_def dest: spec [of _ "[]"])

lemma tokenize_token:
  assumes "lex_step fl c cs = Inr (Some t, r)"
  shows "tokenize_from fl (c # cs) = bindE (tokenize_from fl r) (\<lambda>us. Inr ([t] @ us))"
  using assms by simp

lemma delim_facts: "delim (b # r) \<Longrightarrow> \<not> is_ascii_alphanumeric b \<and> \<not> is_ascii_digit b \<and> \<not> is_ascii_alphabetic b \<and> \<not> unit_suffix b \<and> b \<noteq> CHR ''_'' \<and> b \<noteq> CHR ''-'' \<and> b \<noteq> CHR ''.''"
  by (auto simp: delim_def is_ascii_alphanumeric_def is_ascii_digit_def digit_def is_ascii_alphabetic_def unit_suffix_def)

lemma lex_ident_end: "ident_tail u \<Longrightarrow> lex_ident i u = (i @ u, [])"
proof (induction u arbitrary: i)
  case (Cons c cs)
  then show ?case by (cases cs) (auto split: if_splits)
qed simp

lemma lexes_ident:
  assumes "ident_ok s"
  shows "lexes fl s [TIdent s]"
  unfolding lexes_def
proof (intro allI impI)
  fix rest assume rest: "rest = [] \<or> delim rest"
  obtain c cs where s: "s = c # cs" "is_ascii_alphabetic c \<or> c = CHR ''_''" "ident_tail cs" using assms by (cases s) (auto simp: ident_ok_def)
  have c: "\<not> is_ascii_digit c" "is_ascii_alphanumeric c \<or> c = CHR ''_''"
    using s(2) alphabetic_alphanumeric by (auto simp: is_ascii_digit_def digit_def is_ascii_alphabetic_def Let_def)
  have "lex_ident [c] (cs @ rest) = (c # cs, rest)"
    using rest lex_ident_end [OF s(3), of "[c]"] lex_ident_stop [OF s(3)] delim_facts by (cases rest) auto
  then have "lex_step fl c (cs @ rest) = Inr (Some (TIdent s), rest)" using lex_step_word [OF c(2), of fl "cs @ rest"] c s by (elim disjE) simp_all
  from tokenize_token [OF this] show "tokenize_from fl (s @ rest) = bindE (tokenize_from fl rest) (\<lambda>us. Inr ([TIdent s] @ us))" using s(1) by simp
qed

lemma lex_digits_end: "number_tail u \<Longrightarrow> lex_digits l g u = (l @ u, g \<or> CHR ''.'' \<in> set u, [])"
proof (induction u arbitrary: l g)
  case (Cons c cs)
  have "\<not> is_ascii_digit (CHR ''.'')" by (simp add: is_ascii_digit_def digit_def)
  with Cons.prems Cons.IH [of "l @ [c]" g] Cons.IH [of "l @ [c]" True] show ?case by (cases cs) (auto split: if_splits)
qed simp

lemma lexes_int:
  assumes v: "v \<noteq> []" "list_all is_ascii_digit v" and n: "parse_i64 v = Inr n"
  shows "lexes fl v [TInt n]"
  unfolding lexes_def
proof (intro allI impI)
  fix rest assume rest: "rest = [] \<or> delim rest"
  have "number_tail s" if "list_all is_ascii_digit s" for s using that by (induction s) auto
  then have num: "number_ok v" "number_tail v" using v by (cases v; simp add: number_ok_def)+
  have dot: "CHR ''.'' \<notin> set v" using v(2) by (auto simp: list_all_iff is_ascii_digit_def digit_def)
  have "lex_number fl (v @ rest) = Inr (TInt n, rest)"
    using rest lex_digits_end [OF num(2), of "[]" False] lex_digits_number [OF num(1)] delim_facts dot n
    by (cases rest) (auto simp: lex_number_def)
  from tokenize_token [OF lex_step_number [OF num(1) this]] v(1)
  show "tokenize_from fl (v @ rest) = bindE (tokenize_from fl rest) (\<lambda>us. Inr ([TInt n] @ us))" by (cases v) simp_all
qed

lemma lexes_str: "lexes_any fl (escape_str v) [TStr v]"
proof -
  have "skip_blank (dquote # z) = None" "\<not> peek2 (dquote # z) ''//''" for z by (simp_all add: skip_blank_def peek2_iff dquote_def)
  then have "lex_step fl dquote (escape v @ dquote # rest) = Inr (Some (TStr v), rest)" for rest
    using lex_double_escape [of "[]" v rest] by (simp add: lex_step_def Let_def, simp add: dquote_def)
  from tokenize_token [OF this] show ?thesis by (simp add: lexes_any_def escape_str_def)
qed

lemma lexes_any_simple:
  assumes "\<And>rest. lex_step fl c (cs @ rest) = Inr (Some t, rest)"
  shows "lexes_any fl (c # cs) [t]"
  unfolding lexes_any_def using tokenize_token [OF assms] by simp

lemma lexes_blank: "lexes_any fl '' '' []"
  by (simp add: lexes_any_def lex_step_def skip_blank_def bind_Nil)

lemma lexes_punct:
  "lexes_any fl ''|'' [TPipe]" "lexes_any fl ''('' [TLParen]" "lexes_any fl '')'' [TRParen]" "lexes_any fl '','' [TComma]" "lexes_any fl ''=='' [TEq]"
  "lexes_any fl ''!='' [TNe]" "lexes_any fl ''>='' [TGe]" "lexes_any fl ''<='' [TLe]"
  by (rule lexes_any_simple; simp add: lex_step_def Let_def skip_blank_def peek2_iff dquote_def)+

lemma lexes_angle: "lexes_any fl ''> '' [TGt]" "lexes_any fl ''< '' [TLt]"
  by (simp_all add: lexes_any_def lex_step_def Let_def skip_blank_def peek2_iff dquote_def bind_Nil)

end
