(* ===== verification/Discover_Search.thy ===== *)
theory Discover_Search
  imports Discover
begin

text \<open>
  What a search means: the conditions of its clauses, written as SQL, and the proof that the search text, compiled to
  KQL and translated to SQL by the front end, gives exactly them.
\<close>

section \<open>The conditions of a search\<close>

definition string_columns :: "table_source \<Rightarrow> string list" where
  "string_columns src = map fst (filter (\<lambda>f. is_string_type (snd f)) (src_fields src))"

text \<open>The clauses that apply to a source.\<close>

definition applies :: "'f floats \<Rightarrow> table_source \<Rightarrow> search_clause \<Rightarrow> bool" where
  "applies fl src c = (case c of
     Substring _ \<Rightarrow> string_columns src \<noteq> []
   | FieldEq f _ \<Rightarrow> f \<in> fst ` set (src_fields src)
   | FieldNeq f _ \<Rightarrow> f \<in> fst ` set (src_fields src)
   | FieldExists f \<Rightarrow> f \<in> fst ` set (src_fields src)
   | FieldCmp f _ v \<Rightarrow> (\<exists>t. map_of (src_fields src) f = Some t \<and> is_numeric_or_timestamp t) \<and> (\<exists>x. parse_f64 fl v = Inr x))"

definition contains_sql :: "string \<Rightarrow> string \<Rightarrow> string" where
  "contains_sql v col = infix_op ''LIKE'' (column_sql col) (sql_string (''%'' @ v @ ''%''))"

definition clause_sql :: "table_source \<Rightarrow> search_clause \<Rightarrow> string" where
  "clause_sql src c = (case c of
     Substring v \<Rightarrow>
       (case map (contains_sql v) (string_columns src) of
          [] \<Rightarrow> [] | [x] \<Rightarrow> x | x # xs \<Rightarrow> paren (foldl (infix_op ''OR'') x xs))
   | FieldEq f v \<Rightarrow> infix_op ''='' (column_sql f) (sql_string v)
   | FieldNeq f v \<Rightarrow> infix_op ''<>'' (column_sql f) (sql_string v)
   | FieldExists f \<Rightarrow> paren (column_sql f @ '' IS NOT NULL'')
   | FieldCmp f op v \<Rightarrow> infix_op (cmp_text op) (column_sql f) (case parse_i64 v of Inr n \<Rightarrow> show_int n | Inl _ \<Rightarrow> []))"

definition time_sql :: "(int \<Rightarrow> string) \<Rightarrow> string \<times> ts_kind \<Rightarrow> int \<times> int \<Rightarrow> string" where
  "time_sql fmt ts tr =
     (let lit = (\<lambda>x. case snd ts of TsTimestamp \<Rightarrow> call ''CAST'' (sql_string (fmt x) @ '' AS TIMESTAMP'') | TsIsoString \<Rightarrow> sql_string (fmt x))
      in infix_op ''AND'' (infix_op ''>='' (column_sql (fst ts)) (lit (fst tr))) (infix_op ''<'' (column_sql (fst ts)) (lit (snd tr))))"

definition search_conditions :: "'f floats \<Rightarrow> (int \<Rightarrow> string) \<Rightarrow> table_source \<Rightarrow> search_clause list \<Rightarrow> (int \<times> int) option \<Rightarrow> string list" where
  "search_conditions fl fmt src clauses tr = map (clause_sql src) (filter (applies fl src) clauses) @
     (case (tr, find_timestamp_column src) of (Some r, Some ts) \<Rightarrow> [time_sql fmt ts r] | _ \<Rightarrow> [])"

definition search_sql :: "'f floats \<Rightarrow> (int \<Rightarrow> string) \<Rightarrow> table_source \<Rightarrow> search_clause list \<Rightarrow> (int \<times> int) option \<Rightarrow> nat \<Rightarrow> string" where
  "search_sql fl fmt src clauses tr limit =
     ''SELECT '' @ (if vector_columns src = [] then ''*'' else ''* EXCEPT '' @ paren (join '', '' (map quote_ident (vector_columns src)))) @
     '' FROM '' @ src_name src @ where_sql (search_conditions fl fmt src clauses tr) @ '' LIMIT '' @ show_nat limit"

text \<open>
  Sources whose table and columns are words of KQL, where \<open>not\<close> and \<open>union\<close> are keywords at the places where they would
  stand, and searches that compare with whole numbers.
\<close>

definition column_ok :: "string \<Rightarrow> bool" where
  "column_ok c \<longleftrightarrow> ident_ok c \<and> c \<noteq> ''not''"

definition source_ok :: "table_source \<Rightarrow> bool" where
  "source_ok src \<longleftrightarrow> ident_ok (src_name src) \<and> src_name src \<noteq> ''union'' \<and> list_all (\<lambda>f. column_ok (fst f)) (src_fields src)"

definition search_ok :: "search_clause \<Rightarrow> bool" where
  "search_ok c = (case c of FieldCmp _ _ v \<Rightarrow> v \<noteq> [] \<and> list_all is_ascii_digit v \<and> (\<exists>n. parse_i64 v = Inr n) | _ \<Rightarrow> True)"

definition fmt_ok :: "(int \<Rightarrow> string) \<Rightarrow> bool" where
  "fmt_ok fmt \<longleftrightarrow> (\<forall>x. dquote \<notin> set (fmt x) \<and> backslash \<notin> set (fmt x))"

section \<open>Conditions are phrases\<close>

lemma undouble_double: "undouble_quotes q (double_quotes q s) = s"
proof (induction s)
  case (Cons c cs)
  have "undouble_quotes q (c # xs) = c # undouble_quotes q xs" if "c \<noteq> q" for xs using that by (cases xs) auto
  then show ?case using Cons by auto
qed simp

lemma like_literal: "add_like_both (sql_string v) = sql_string (''%'' @ v @ ''%'')"
proof -
  have "strip_outer_quotes (sql_string v) = v"
    by (simp add: strip_outer_quotes_def sql_string_def undouble_double butlast_append)
  moreover have "double_quotes squote ''%'' = ''%''" by (simp add: squote_def)
  ultimately show ?thesis unfolding add_like_both_def sql_string_def double_quotes_append by simp
qed

lemma phrase_le:
  "\<lbrakk>phrase fl m ts s; l \<le> m; m \<le> 7; l \<le> 2 \<longrightarrow> m \<le> 2 \<or> hd ts \<noteq> TIdent ''not''\<rbrakk> \<Longrightarrow> phrase fl l ts s"
proof (induction m)
  case (Suc m)
  show ?case
  proof (cases "l = Suc m")
    case False
    then have "phrase fl m ts s" using Suc.prems by (intro up [OF Suc.prems(1)]) auto
    then show ?thesis using Suc False by (intro Suc.IH) auto
  qed (use Suc in simp)
qed simp

lemma column_phrase: "phrase fl 4 [TIdent c] (column_sql c)" and str_phrase: "phrase fl 4 [TStr v] (sql_string v)"
  and int_phrase: "phrase fl 4 [TInt n] (show_int n)"
  by (rule phrase_le [OF column], simp_all) (rule phrase_le [OF str], simp_all, rule phrase_le [OF int], simp_all)

lemma comparison_phrase:
  assumes "column_ok c" "cmp_op t = Some f" "phrase fl 4 us r"
  shows "phrase fl 2 (TIdent c # t # us) (f (column_sql c) r)"
proof (rule up)
  show "phrase fl (Suc 2) (TIdent c # t # us) (f (column_sql c) r)"
    using compared [OF column_phrase assms(2,3), of c] by (simp add: numeral_3_eq_3 numeral_2_eq_2)
qed (use assms(1) in \<open>auto simp: column_ok_def\<close>)

lemma level_zero: "phrase fl 2 ts s \<Longrightarrow> phrase fl 0 ts s"
  by (rule phrase_le [where m = 2]) simp_all

text \<open>A piece of KQL text, its tokens and the SQL they stand for.\<close>

definition condition :: "'f floats \<Rightarrow> string \<Rightarrow> string \<Rightarrow> bool" where
  "condition fl kql sql \<longleftrightarrow> (\<exists>ts. lexes fl kql ts \<and> phrase fl 0 ts sql)"

lemma conditionI: "\<lbrakk>lexes fl kql ts; phrase fl 0 ts sql\<rbrakk> \<Longrightarrow> condition fl kql sql"
  by (auto simp: condition_def)

lemma words: "ident_ok ''contains''" "ident_ok ''or''" "ident_ok ''and''" "ident_ok ''isnotnull''" "ident_ok ''datetime''" "ident_ok ''where''"
  "ident_ok ''project-away''" "ident_ok ''take''"
  by (simp_all add: ident_ok_def is_ascii_alphabetic_def is_ascii_alphanumeric_def)

lemma delims: "delim ('' '' @ s)" "delim (''('' @ s)" "delim ('')'' @ s)" "delim ('','' @ s)"
  by (simp_all add: delim_def)

lemma lexes_word: "ident_ok w \<Longrightarrow> lexes_any fl ('' '' @ w @ '' '') [TIdent w]"
  using lexes_append(1) [OF lexes_blank lexes_append(3) [OF lexes_ident lexes_blank]] delims(1) [of "[]"] by fastforce

lemma contains_part:
  assumes "column_ok c"
  shows "lexes_any fl (c @ '' contains '' @ escape_str v) [TIdent c, TIdent ''contains'', TStr v]"
    and "phrase fl 2 [TIdent c, TIdent ''contains'', TStr v] (contains_sql v c)"
proof -
  have c: "ident_ok c" using assms by (simp add: column_ok_def)
  have "lexes_any fl (c @ ('' '' @ ''contains'' @ '' '') @ escape_str v) ([TIdent c] @ [TIdent ''contains''] @ [TStr v])"
    by (intro lexes_append(3) [OF lexes_ident [OF c]] lexes_append(1) [OF lexes_word [OF words(1)]] lexes_str) (simp add: delim_def)
  then show "lexes_any fl (c @ '' contains '' @ escape_str v) [TIdent c, TIdent ''contains'', TStr v]" by simp
  have "cmp_op (TIdent ''contains'') = Some (\<lambda>l r. infix_op ''LIKE'' l (add_like_both r))" by (simp add: cmp_op_def)
  from comparison_phrase [OF assms this str_phrase]
  show "phrase fl 2 [TIdent c, TIdent ''contains'', TStr v] (contains_sql v c)" unfolding contains_sql_def like_literal .
qed

lemma or_chain:
  assumes "list_all column_ok cs"
  shows "\<lbrakk>lexes_any fl s ts; phrase fl 0 ts x\<rbrakk> \<Longrightarrow>
    \<exists>us. lexes_any fl (s @ concat (map (\<lambda>c. '' or '' @ c @ '' contains '' @ escape_str v) cs)) us \<and> phrase fl 0 us (foldl (infix_op ''OR'') x (map (contains_sql v) cs))"
  using assms
proof (induction cs arbitrary: s ts x)
  case (Cons c cs)
  let ?u = "[TIdent c, TIdent ''contains'', TStr v]"
  have c: "column_ok c" using Cons.prems by simp
  have "lexes_any fl (('' '' @ ''or'' @ '' '') @ c @ '' contains '' @ escape_str v) ([TIdent ''or''] @ ?u)"
    by (rule lexes_append(1) [OF lexes_word [OF words(2)] contains_part(1) [OF c]])
  then have "lexes_any fl (s @ '' or '' @ c @ '' contains '' @ escape_str v) (ts @ TIdent ''or'' # ?u)"
    using lexes_append(1) [OF Cons.prems(1)] by fastforce
  moreover have "phrase fl 0 (ts @ TIdent ''or'' # ?u) (infix_op ''OR'' x (contains_sql v c))"
    by (rule binary [OF Cons.prems(2)]) (simp_all add: level_op_def or_op_def phrase_le [OF contains_part(2) [OF c]])
  ultimately obtain us where "lexes_any fl ((s @ '' or '' @ c @ '' contains '' @ escape_str v) @ concat (map (\<lambda>c. '' or '' @ c @ '' contains '' @ escape_str v) cs)) us"
    "phrase fl 0 us (foldl (infix_op ''OR'') (infix_op ''OR'' x (contains_sql v c)) (map (contains_sql v) cs))"
    using Cons.IH Cons.prems(3) by (metis list.pred_inject(2))
  then show ?case by auto
qed auto

lemma join_concat: "join sep (x # xs) = x @ concat (map (\<lambda>y. sep @ y) xs)"
  by (induction xs arbitrary: x) simp_all

lemma substring_condition:
  assumes cols: "list_all column_ok cs" "cs \<noteq> []"
  shows "condition fl (if length cs = 1 then hd cs @ '' contains '' @ escape_str v else ''('' @ join '' or '' (map (\<lambda>c. c @ '' contains '' @ escape_str v) cs) @ '')'')
    (case map (contains_sql v) cs of [] \<Rightarrow> [] | [x] \<Rightarrow> x | x # xs \<Rightarrow> paren (foldl (infix_op ''OR'') x xs))"
proof -
  obtain c ds where cs: "cs = c # ds" using cols(2) by (cases cs) auto
  have c: "column_ok c" "list_all column_ok ds" using cols(1) cs by simp_all
  obtain us where us: "lexes_any fl ((c @ '' contains '' @ escape_str v) @ concat (map (\<lambda>c. '' or '' @ c @ '' contains '' @ escape_str v) ds)) us"
    "phrase fl 0 us (foldl (infix_op ''OR'') (contains_sql v c) (map (contains_sql v) ds))"
    using or_chain [OF c(2) contains_part(1) [OF c(1)] level_zero [OF contains_part(2) [OF c(1)]]] by blast
  show ?thesis
  proof (cases ds)
    case Nil
    then show ?thesis using us cs by (auto simp: condition_def intro: lexes_weaken)
  next
    case (Cons d es)
    have "join '' or '' (map (\<lambda>c. c @ '' contains '' @ escape_str v) cs) =
        (c @ '' contains '' @ escape_str v) @ concat (map (\<lambda>c. '' or '' @ c @ '' contains '' @ escape_str v) ds)"
      by (simp only: cs list.map join_concat map_map comp_def)
    then have "lexes fl (''('' @ join '' or '' (map (\<lambda>c. c @ '' contains '' @ escape_str v) cs) @ '')'') ([TLParen] @ us @ [TRParen])"
      using us(1) by (simp only:) (intro lexes_weaken lexes_append(1) lexes_punct)
    moreover have "phrase fl 0 ([TLParen] @ us @ [TRParen]) (paren (foldl (infix_op ''OR'') (contains_sql v c) (map (contains_sql v) ds)))"
      using phrase_le [OF parens [OF us(2)], of 0] by simp
    ultimately have "condition fl (''('' @ join '' or '' (map (\<lambda>c. c @ '' contains '' @ escape_str v) cs) @ '')'')
        (paren (foldl (infix_op ''OR'') (contains_sql v c) (map (contains_sql v) ds)))" by (rule conditionI)
    then show ?thesis using cs Cons by (simp del: append.simps)
  qed
qed

lemma compared_condition:
  assumes c: "column_ok c" and op: "lexes_any fl o' [t]" "cmp_op t = Some f" and v: "lexes fl v us" "phrase fl 4 us r"
  shows "condition fl (c @ '' '' @ o' @ v) (f (column_sql c) r)"
proof (rule conditionI)
  have "lexes fl (c @ '' '' @ o' @ v) ([TIdent c] @ [] @ [t] @ us)"
    by (intro lexes_append(4) [OF lexes_ident] lexes_append(2) [OF lexes_blank] lexes_append(2) [OF op(1)] v(1) delims)
      (use c in \<open>simp add: column_ok_def\<close>)
  then show "lexes fl (c @ '' '' @ o' @ v) (TIdent c # t # us)" by simp
  show "phrase fl 0 (TIdent c # t # us) (f (column_sql c) r)" by (rule level_zero [OF comparison_phrase [OF c op(2) v(2)]])
qed

lemma equal_texts: "lexes_any fl ''== '' [TEq]" "lexes_any fl ''!= '' [TNe]" "lexes_any fl ''>= '' [TGe]" "lexes_any fl ''<= '' [TLe]"
  using lexes_append(1) [where fl = fl, OF lexes_punct(5) lexes_blank] lexes_append(1) [where fl = fl, OF lexes_punct(6) lexes_blank]
    lexes_append(1) [where fl = fl, OF lexes_punct(7) lexes_blank] lexes_append(1) [where fl = fl, OF lexes_punct(8) lexes_blank]
  by simp_all

lemma op_texts:
  "lexes_any fl (cmp_text op @ '' '') [case op of CGt \<Rightarrow> TGt | CGe \<Rightarrow> TGe | CLt \<Rightarrow> TLt | CLe \<Rightarrow> TLe]"
  "cmp_op TEq = Some (infix_op ''='')" "cmp_op TNe = Some (infix_op ''<>'')"
  "cmp_op (case op of CGt \<Rightarrow> TGt | CGe \<Rightarrow> TGe | CLt \<Rightarrow> TLt | CLe \<Rightarrow> TLe) = Some (infix_op (cmp_text op))"
  by (simp_all add: cmp_op_def cmp_text_def lexes_angle equal_texts split: search_cmp.split)

lemma exists_condition:
  assumes c: "column_ok c"
  shows "condition fl (''isnotnull('' @ c @ '')'') (paren (column_sql c @ '' IS NOT NULL''))"
proof (rule conditionI)
  have i: "ident_ok c" using c by (simp add: column_ok_def)
  have "lexes_any fl (''isnotnull'' @ ''('' @ c @ '')'') ([TIdent ''isnotnull''] @ [TLParen] @ [TIdent c] @ [TRParen])"
    by (intro lexes_append(3) [OF lexes_ident [OF words(4)]] lexes_append(1) [OF lexes_punct(2)] lexes_append(3) [OF lexes_ident [OF i]] lexes_punct)
      (simp_all add: delim_def)
  then show "lexes fl (''isnotnull('' @ c @ '')'') [TIdent ''isnotnull'', TLParen, TIdent c, TRParen]" by (auto dest: lexes_weaken)
  have col: "phrase fl 0 [TIdent c] (column_sql c)" by (rule phrase_le [OF column]) (use c in \<open>auto simp: column_ok_def\<close>)
  have "func_sql ''isnotnull'' [column_sql c] = (Inr (paren (column_sql c @ '' IS NOT NULL'')) :: 'a parse_error + string)"
    by (simp add: func_sql_def func_table_def func_table1_def)
  from phrase_phrases.call [OF one [OF col] this]
  have p: "phrase fl 7 [TIdent ''isnotnull'', TLParen, TIdent c, TRParen] (paren (column_sql c @ '' IS NOT NULL''))" by simp
  show "phrase fl 0 [TIdent ''isnotnull'', TLParen, TIdent c, TRParen] (paren (column_sql c @ '' IS NOT NULL''))"
    by (rule phrase_le [OF p]) simp_all
qed

lemma escape_plain: "\<lbrakk>dquote \<notin> set s; backslash \<notin> set s\<rbrakk> \<Longrightarrow> [dquote] @ s @ [dquote] = escape_str s"
  by (induction s) (auto simp: escape_str_def)

lemma find_column: "source_ok src \<Longrightarrow> find_timestamp_column src = Some ts \<Longrightarrow> column_ok (fst ts)"
  by (auto simp: find_timestamp_column_def source_ok_def list_all_iff Let_def find_Some_iff split: option.splits) (metis nth_mem fst_conv)+

lemma datetime_phrase: "lexes_any fl (''datetime('' @ escape_str v @ '')'') [TIdent ''datetime'', TLParen, TStr v, TRParen]"
  "phrase fl 4 [TIdent ''datetime'', TLParen, TStr v, TRParen] (call ''CAST'' (sql_string v @ '' AS TIMESTAMP''))"
proof -
  have "lexes_any fl (''datetime'' @ ''('' @ escape_str v @ '')'') ([TIdent ''datetime''] @ [TLParen] @ [TStr v] @ [TRParen])"
    by (intro lexes_append(3) [OF lexes_ident [OF words(5)]] lexes_append(1) lexes_punct lexes_str) (simp_all add: delim_def)
  then show "lexes_any fl (''datetime('' @ escape_str v @ '')'') [TIdent ''datetime'', TLParen, TStr v, TRParen]" by simp
  have "func_sql ''datetime'' [sql_string v] = (Inr (call ''CAST'' (sql_string v @ '' AS TIMESTAMP'')) :: 'a parse_error + string)"
    by (simp add: func_sql_def func_table_def func_table1_def)
  from phrase_phrases.call [OF one [OF phrase_le [OF str_phrase]] this]
  have p: "phrase fl 7 [TIdent ''datetime'', TLParen, TStr v, TRParen] (call ''CAST'' (sql_string v @ '' AS TIMESTAMP''))" by simp
  show "phrase fl 4 [TIdent ''datetime'', TLParen, TStr v, TRParen] (call ''CAST'' (sql_string v @ '' AS TIMESTAMP''))"
    by (rule phrase_le [OF p]) simp_all
qed

lemma range_condition:
  assumes c: "column_ok c" and lo: "lexes_any fl a ts" "phrase fl 4 ts x" and hi: "lexes_any fl b us" "phrase fl 4 us y"
  shows "condition fl (c @ '' >= '' @ a @ '' and '' @ c @ '' < '' @ b)
    (infix_op ''AND'' (infix_op ''>='' (column_sql c) x) (infix_op ''<'' (column_sql c) y))"
proof (rule conditionI)
  have i: "ident_ok c" using c by (simp add: column_ok_def)
  have "lexes fl (c @ '' '' @ ''>= '' @ a @ ('' '' @ ''and'' @ '' '') @ c @ '' '' @ ''< '' @ b)
      ([TIdent c] @ [] @ [TGe] @ ts @ [TIdent ''and''] @ [TIdent c] @ [] @ [TLt] @ us)"
    by (intro lexes_append(4) [OF lexes_ident [OF i]] lexes_append(2) [OF lexes_blank] lexes_append(2) [OF equal_texts(3)] lexes_append(2) [OF lo(1)]
        lexes_append(2) [OF lexes_word [OF words(3)]] lexes_append(2) [OF lexes_angle(2)] lexes_weaken [OF hi(1)] delims)
  then show "lexes fl (c @ '' >= '' @ a @ '' and '' @ c @ '' < '' @ b) ((TIdent c # TGe # ts) @ TIdent ''and'' # TIdent c # TLt # us)" by simp
  have ge: "phrase fl 2 (TIdent c # TGe # ts) (infix_op ''>='' (column_sql c) x)" by (rule comparison_phrase [OF c _ lo(2)]) (simp add: cmp_op_def)
  have lt: "phrase fl 2 (TIdent c # TLt # us) (infix_op ''<'' (column_sql c) y)" by (rule comparison_phrase [OF c _ hi(2)]) (simp add: cmp_op_def)
  have "phrase fl 1 ((TIdent c # TGe # ts) @ TIdent ''and'' # TIdent c # TLt # us) (infix_op ''AND'' (infix_op ''>='' (column_sql c) x) (infix_op ''<'' (column_sql c) y))"
    by (rule binary [OF phrase_le [OF ge]]) (use lt in \<open>simp_all add: level_op_def and_op_def numeral_2_eq_2\<close>)
  from phrase_le [OF this] show "phrase fl 0 ((TIdent c # TGe # ts) @ TIdent ''and'' # TIdent c # TLt # us)
      (infix_op ''AND'' (infix_op ''>='' (column_sql c) x) (infix_op ''<'' (column_sql c) y))" by simp
qed

lemma time_condition:
  assumes "source_ok src" "find_timestamp_column src = Some ts" "fmt_ok fmt"
  shows "condition fl (time_part fmt ts tr) (time_sql fmt ts tr)"
proof -
  have c: "column_ok (fst ts)" by (rule find_column [OF assms(1,2)])
  have q: "[dquote] @ fmt x @ [dquote] = escape_str (fmt x)" for x using assms(3) by (intro escape_plain) (simp_all add: fmt_ok_def)
  show ?thesis
  proof (cases "snd ts")
    case TsTimestamp
    have "condition fl (fst ts @ '' >= '' @ (''datetime('' @ escape_str (fmt (fst tr)) @ '')'') @ '' and '' @ fst ts @ '' < '' @ ''datetime('' @ escape_str (fmt (snd tr)) @ '')'')
        (time_sql fmt ts tr)"
      unfolding time_sql_def Let_def TsTimestamp ts_kind.case by (rule range_condition [OF c datetime_phrase datetime_phrase])
    then show ?thesis unfolding time_part_def Let_def TsTimestamp ts_kind.case q by simp
  next
    case TsIsoString
    show ?thesis unfolding time_part_def time_sql_def Let_def TsIsoString ts_kind.case q by (rule range_condition [OF c lexes_str str_phrase lexes_str str_phrase])
  qed
qed

section \<open>Clauses\<close>

lemma find_map_of: "List.find (\<lambda>f. fst f = x) xs = map_option (Pair x) (map_of xs x)"
  by (induction xs) auto

lemma clause_compiles:
  assumes src: "source_ok src" and c: "search_ok c" and a: "applies fl src c"
  shows "\<exists>s. compile_clause fl src c = Inr s \<and> condition fl s (clause_sql src c)"
proof -
  have col: "column_ok f" if "f \<in> fst ` set (src_fields src)" for f using src that by (auto simp: source_ok_def list_all_iff)
  show ?thesis
  proof (cases c)
    case (Substring v)
    let ?parts = "map (\<lambda>f. fst f @ '' contains '' @ escape_str v) (filter (\<lambda>f. is_string_type (snd f)) (src_fields src))"
    have parts: "?parts = map (\<lambda>c. c @ '' contains '' @ escape_str v) (string_columns src)" by (simp add: string_columns_def)
    have ne: "string_columns src \<noteq> []" using a Substring by (simp add: applies_def)
    then have h: "hd ?parts = hd (string_columns src) @ '' contains '' @ escape_str v" 
      unfolding parts by (rule list.map_sel(1))
    have ok: "list_all column_ok (string_columns src)" using col by (auto simp: string_columns_def list_all_iff)
    have "compile_clause fl src c = Inr (if length (string_columns src) = 1 then hd (string_columns src) @ '' contains '' @ escape_str v
        else ''('' @ join '' or '' (map (\<lambda>c. c @ '' contains '' @ escape_str v) (string_columns src)) @ '')'')"
      using ne unfolding Substring compile_clause_def search_clause.case Let_def h unfolding parts by simp
    then show ?thesis using substring_condition [OF ok ne, of fl v] by (simp add: Substring clause_sql_def)
  next
    case (FieldEq f v)
    have f: "f \<in> fst ` set (src_fields src)" using a FieldEq by (simp add: applies_def)
    have "condition fl (f @ '' '' @ ''== '' @ escape_str v) (infix_op ''='' (column_sql f) (sql_string v))"
      by (rule compared_condition [OF col [OF f] equal_texts(1) op_texts(2) lexes_weaken [OF lexes_str] str_phrase])
    then show ?thesis using f FieldEq by (simp add: compile_clause_def clause_sql_def require_field_def bindE_def)
  next
    case (FieldNeq f v)
    have f: "f \<in> fst ` set (src_fields src)" using a FieldNeq by (simp add: applies_def)
    have "condition fl (f @ '' '' @ ''!= '' @ escape_str v) (infix_op ''<>'' (column_sql f) (sql_string v))"
      by (rule compared_condition [OF col [OF f] equal_texts(2) op_texts(3) lexes_weaken [OF lexes_str] str_phrase])
    then show ?thesis using f FieldNeq by (simp add: compile_clause_def clause_sql_def require_field_def bindE_def)
  next
    case (FieldCmp f op v)
    then obtain t x where t: "map_of (src_fields src) f = Some t" "is_numeric_or_timestamp t" "parse_f64 fl v = Inr x"
      using a by (auto simp: applies_def)
    obtain n where n: "v \<noteq> []" "list_all is_ascii_digit v" "parse_i64 v = Inr n" using c FieldCmp by (auto simp: search_ok_def)
    have "f \<in> fst ` set (src_fields src)" using t(1) by (metis map_of_SomeD image_eqI fst_conv)
    then have "condition fl (f @ '' '' @ (cmp_text op @ '' '') @ v) (infix_op (cmp_text op) (column_sql f) (show_int n))"
      by (rule compared_condition [OF col op_texts(1,4) lexes_int [OF n] int_phrase])
    then show ?thesis using t n(3) FieldCmp by (simp add: compile_clause_def clause_sql_def find_map_of)
  next
    case (FieldExists f)
    have f: "f \<in> fst ` set (src_fields src)" using a FieldExists by (simp add: applies_def)
    then show ?thesis using FieldExists exists_condition [OF col [OF f], of fl] by (simp add: compile_clause_def clause_sql_def require_field_def bindE_def)
  qed
qed

lemma clause_dropped: "\<not> applies fl src c \<Longrightarrow> \<exists>e. compile_clause fl src c = Inl e"
  by (cases c) (auto simp: applies_def compile_clause_def require_field_def bindE_def find_map_of string_columns_def Let_def split: option.splits sum.splits)

section \<open>The pipeline\<close>

lemma where_pipes:
  assumes "list_all2 (condition fl) ks ss" and tail: "lexes fl tail (TPipe # us)" "delim tail"
  shows "\<exists>ts. lexes fl (concat (map (\<lambda>p. '' | where '' @ p) ks) @ tail) (TPipe # ts) \<and>
    (\<forall>n q. Suc (length ts) \<le> n \<and> \<not> q_aggregated q \<longrightarrow>
      (\<exists>m. Suc (length us) \<le> m \<and> parse_pipes fl n q (TPipe # ts) = parse_pipes fl m (q\<lparr>q_where := q_where q @ ss\<rparr>) (TPipe # us)))"
  using assms(1)
proof (induction ks ss rule: list_all2_induct)
  case Nil
  then show ?case using tail by (intro exI [of _ us]) auto
next
  case (Cons k ks s ss)
  then obtain ts where ts: "lexes fl (concat (map (\<lambda>p. '' | where '' @ p) ks) @ tail) (TPipe # ts)"
    "\<And>n q. Suc (length ts) \<le> n \<Longrightarrow> \<not> q_aggregated q \<Longrightarrow>
      \<exists>m. Suc (length us) \<le> m \<and> parse_pipes fl n q (TPipe # ts) = parse_pipes fl m (q\<lparr>q_where := q_where q @ ss\<rparr>) (TPipe # us)" by blast
  obtain vs where vs: "lexes fl k vs" "phrase fl 0 vs s" using Cons.hyps by (auto simp: condition_def)
  have d: "delim (concat (map (\<lambda>p. '' | where '' @ p) ks) @ tail)" using tail(2) by (cases ks) (simp_all add: delim_def)
  have "lexes fl ('' '' @ ''|'' @ ('' '' @ ''where'' @ '' '') @ k @ (concat (map (\<lambda>p. '' | where '' @ p) ks) @ tail))
      ([] @ [TPipe] @ [TIdent ''where''] @ vs @ TPipe # ts)"
    by (intro lexes_append(2) [OF lexes_blank] lexes_append(2) [OF lexes_punct(1)] lexes_append(2) [OF lexes_word [OF words(6)]]
        lexes_append(4) [OF vs(1) ts(1) d])
  then have lex: "lexes fl (concat (map (\<lambda>p. '' | where '' @ p) (k # ks)) @ tail) (TPipe # TIdent ''where'' # vs @ TPipe # ts)" by simp
  have run: "\<exists>m. Suc (length us) \<le> m \<and> parse_pipes fl n q (TPipe # TIdent ''where'' # vs @ TPipe # ts) =
      parse_pipes fl m (q\<lparr>q_where := q_where q @ s # ss\<rparr>) (TPipe # us)"
    if n: "Suc (length (TIdent ''where'' # vs @ TPipe # ts)) \<le> n" and q: "\<not> q_aggregated q" for n q
  proof -
    obtain n' where n': "n = Suc n'" "Suc (length ts) \<le> n'" using n by (cases n) auto
    have "stop 0 (TPipe # ts)" by (simp add: follows_def mul_op_def add_op_def cmp_op_def and_op_def or_op_def)
    then have "parse_expr fl (vs @ TPipe # ts) = Inr (s, TPipe # ts)" by (rule parse_expr_phrase [OF vs(2)])
    then have "op_where fl q (vs @ TPipe # ts) = Inr (q\<lparr>q_where := q_where q @ [s]\<rparr>, TPipe # ts)"
      using q by (simp add: op_where_def pbind_def Let_def rebased_def)
    then have "parse_operator fl q (TIdent ''where'' # vs @ TPipe # ts) = Inr (q\<lparr>q_where := q_where q @ [s]\<rparr>, TPipe # ts)"
      by (simp add: parse_operator_def ident_or_def bump_def pbind_def)
    then have "parse_pipes fl n q (TPipe # TIdent ''where'' # vs @ TPipe # ts) = parse_pipes fl n' (q\<lparr>q_where := q_where q @ [s]\<rparr>) (TPipe # ts)"
      by (simp add: n' parse_pipes.simps [of fl "Suc n'"] pbind_def)
    then show ?thesis using ts(2) [OF n'(2), of "q\<lparr>q_where := q_where q @ [s]\<rparr>"] q by simp
  qed
  show ?case using lex run by (intro exI [of _ "TIdent ''where'' # vs @ TPipe # ts"]) auto
qed

fun comma_idents :: "string list \<Rightarrow> 'f kql_token list" where
  "comma_idents [] = []"
| "comma_idents [c] = [TIdent c]"
| "comma_idents (c # d # cs) = TIdent c # TComma # comma_idents (d # cs)"

lemma lexes_idents: "\<lbrakk>list_all ident_ok cs; cs \<noteq> []\<rbrakk> \<Longrightarrow> lexes fl (join '', '' cs) (comma_idents cs)"
proof (induction cs rule: comma_idents.induct)
  case (3 c d cs)
  have "lexes fl (c @ '','' @ '' '' @ join '', '' (d # cs)) ([TIdent c] @ [TComma] @ [] @ comma_idents (d # cs))"
    by (intro lexes_append(4) [OF lexes_ident] lexes_append(2) [OF lexes_punct(4)] lexes_append(2) [OF lexes_blank] 3 delims) (use 3 in auto)
  then show ?case by simp
qed (auto simp: lexes_ident)

lemma ident_or_ident: "ident_or w (TIdent c # r) = Inr (c, r)"
  by (simp add: ident_or_def bump_def pbind_def)

lemma items_idents:
  "\<lbrakk>cs \<noteq> []; length cs \<le> m; eat TComma rest = None\<rbrakk> \<Longrightarrow> sep_list m TComma (ident_or w) (comma_idents cs @ rest) = Inr (cs, rest)"
proof (induction cs arbitrary: m rule: comma_idents.induct)
  case (2 c)
  then show ?case by (subst sep_list.simps) (simp add: ident_or_ident pbind_def)
next
  case (3 c d cs)
  then obtain m' where m': "m = Suc m'" by (cases m) auto
  then have "sep_list m' TComma (ident_or w) (comma_idents (d # cs) @ rest) = Inr (d # cs, rest)" using 3 by auto
  then show ?case by (simp add: m' sep_list_Suc ident_or_ident pbind_def)
qed simp

lemma comma_idents_length: "length cs \<le> length (comma_idents cs)"
  by (induction cs rule: comma_idents.induct) auto

lemma take_tail:
  assumes "limit < 9223372036854775808"
  shows "lexes fl ('' | take '' @ show_nat limit) [TPipe, TIdent ''take'', TInt (int limit)]"
    and "Suc 0 \<le> n \<Longrightarrow> parse_pipes fl n q [TPipe, TIdent ''take'', TInt (int limit)] = Inr (q\<lparr>q_limit := Some limit\<rparr>)"
proof -
  have "list_all is_ascii_digit (show_nat limit)" using show_nat_digits [of limit] by (simp add: is_ascii_digit_def list_all_iff)
  moreover have "parse_i64 (show_nat limit) = Inr (int limit)" using assms by (simp add: parse_i64_def parse_nonempty_def parse_show_nat)
  ultimately have "lexes fl (show_nat limit) [TInt (int limit)]" using show_nat_nonempty lexes_int by blast
  then have "lexes fl ('' '' @ ''|'' @ ('' '' @ ''take'' @ '' '') @ show_nat limit) ([] @ [TPipe] @ [TIdent ''take''] @ [TInt (int limit)])"
    by (intro lexes_append(2) [OF lexes_blank] lexes_append(2) [OF lexes_punct(1)] lexes_append(2) [OF lexes_word [OF words(8)]])
  then show "lexes fl ('' | take '' @ show_nat limit) [TPipe, TIdent ''take'', TInt (int limit)]" by simp
  show "parse_pipes fl n q [TPipe, TIdent ''take'', TInt (int limit)] = Inr (q\<lparr>q_limit := Some limit\<rparr>)" if n: "Suc 0 \<le> n"
  proof -
    obtain n' where "n = Suc n'" using n by (cases n) auto
    then show ?thesis
      by (simp add: parse_pipes.simps [of fl "Suc n'"] parse_pipes.simps [of fl n' _ "[]"] parse_operator_def ident_or_def bump_def pbind_def op_take_def int_or_def eat_def)
  qed
qed

text \<open>The end of the query: the columns that are left out, and the limit.\<close>

lemma query_tail:
  fixes fl :: "'a floats"
  assumes "limit < 9223372036854775808" and away: "list_all ident_ok away"
  defines "tail \<equiv> (if away = [] then [] else '' | project-away '' @ join '', '' away) @ '' | take '' @ show_nat limit"
  shows "\<exists>us. lexes fl tail (TPipe # us) \<and> delim tail \<and>
    (\<forall>n q. Suc (length us) \<le> n \<and> \<not> q_aggregated q \<longrightarrow>
       parse_pipes fl n q (TPipe # us) = Inr (q\<lparr>q_exclude := q_exclude q @ map quote_ident away, q_limit := Some limit\<rparr>))"
proof (cases "away = []")
  case True
  have "delim tail" by (simp add: tail_def True delim_def)
  moreover have "lexes fl tail [TPipe, TIdent ''take'', TInt (int limit)]" using take_tail(1) [OF assms(1)] by (simp add: tail_def True)
  moreover have "parse_pipes fl n q [TPipe, TIdent ''take'', TInt (int limit)] = Inr (q\<lparr>q_limit := Some limit\<rparr>)"
    if "Suc (length [TIdent ''take'', TInt (int limit)]) \<le> n" for n q
    by (rule take_tail(2) [OF assms(1)]) (use that in simp)
  ultimately show ?thesis using True by (intro exI [of _ "[TIdent ''take'', TInt (int limit)]"] conjI) simp_all
next
  case False
  let ?take = "[TPipe, TIdent ''take'', TInt (int limit)] :: 'a kql_token list"
  let ?us = "TIdent ''project-away'' # comma_idents away @ ?take"
  have "lexes fl ('' '' @ ''|'' @ ('' '' @ ''project-away'' @ '' '') @ join '', '' away @ '' | take '' @ show_nat limit)
      ([] @ [TPipe] @ [TIdent ''project-away''] @ comma_idents away @ ?take)"
    by (intro lexes_append(2) [OF lexes_blank] lexes_append(2) [OF lexes_punct(1)] lexes_append(2) [OF lexes_word [OF words(7)]]
        lexes_append(4) [OF lexes_idents [OF away False] take_tail(1) [OF assms(1)]]) (simp add: delim_def)
  then have lex: "lexes fl tail (TPipe # ?us)" using False by (simp add: tail_def)
  have run: "parse_pipes fl n q (TPipe # ?us) = Inr (q\<lparr>q_exclude := q_exclude q @ map quote_ident away, q_limit := Some limit\<rparr>)"
    if n: "Suc (length ?us) \<le> n" and q: "\<not> q_aggregated q" for n q
  proof -
    obtain n' where n': "n = Suc n'" "Suc 0 \<le> n'" using n by (cases n) auto
    have "items (ident_or w) (comma_idents away @ ?take) = Inr (away, ?take)" for w
      unfolding items_def by (rule items_idents [OF False]) (simp_all add: eat_def le_SucI comma_idents_length)
    then have "op_project True q (comma_idents away @ ?take) = Inr (q\<lparr>q_exclude := q_exclude q @ map quote_ident away\<rparr>, ?take)"
      using q by (simp add: op_project_def pbind_def Let_def rebased_def)
    then have "parse_operator fl q ?us = Inr (q\<lparr>q_exclude := q_exclude q @ map quote_ident away\<rparr>, ?take)"
      unfolding parse_operator_def by (simp add: ident_or_ident pbind_def)
    then have "parse_pipes fl n q (TPipe # ?us) = parse_pipes fl n' (q\<lparr>q_exclude := q_exclude q @ map quote_ident away\<rparr>) ?take"
      by (simp add: n' parse_pipes.simps [of fl "Suc n'"] pbind_def)
    then show ?thesis using take_tail(2) [OF assms(1) n'(2)] by simp
  qed
  have "delim tail" using False by (simp add: tail_def delim_def)
  then show ?thesis using lex run by (intro exI [of _ ?us]) auto
qed

lemma list_all2_conditions:
  assumes src: "source_ok src" and cs: "list_all search_ok cs"
  shows "list_all2 (condition fl) (concat (map (\<lambda>(c, r). case r of Inr s \<Rightarrow> [s] | Inl _ \<Rightarrow> []) (map (\<lambda>c. (c, compile_clause fl src c)) cs)))
    (map (clause_sql src) (filter (applies fl src) cs))"
  using cs
proof (induction cs)
  case (Cons c cs)
  then show ?case using clause_compiles [OF src, of c fl] clause_dropped [of fl src c] by (cases "applies fl src c") auto
qed simp


text \<open>
  An example: the search text \<open>error "it's" level:warn took:>=250\<close> on a table of logs, with an embedding that is left out
  and a clause on a column that the table does not have.
\<close>

definition ex_logs :: table_source where
  "ex_logs = \<lparr>src_name = ''logs'', src_fields = [(''at'', CTimestamp), (''ts'', CUtf8), (''message'', CUtf8), (''level'', CUtf8), (''took'', CInt64),
     (''embedding'', CFixedSizeList CFloat32 384)]\<rparr>"

definition ex_search :: string where
  "ex_search = ''error '' @ [dquote] @ ''it'' @ [squote] @ ''s'' @ [dquote] @ '' -level:warn took:>=250 user:bob''"

definition ex_fmt :: "int \<Rightarrow> string" where
  "ex_fmt ms = (if ms = 0 then ''1970-01-01T00:00:00.000Z'' else ''2024-05-01T00:00:00.000Z'')"

definition ex_clauses :: "search_clause list" where
  "ex_clauses = [Substring ''error'', Substring (''it'' @ [squote] @ ''s''), FieldNeq ''level'' ''warn'', FieldCmp ''took'' CGe ''250'', FieldEq ''user'' ''bob'']"

lemma ex_search_clauses: "search_parse ex_search = Inr ex_clauses"
  by code_simp

lemma ex_search_drops: "cs_dropped (compile_for_source ex_floats ex_fmt ex_logs ex_clauses (Some (0, 1)) 50) = [(UnknownField, FieldEq ''user'' ''bob'')]"
  by code_simp


section \<open>Where a search is not what it says\<close>

text \<open>The minus sign is lost before a comparison and before \<open>*\<close>: the clause is that of the text without it.\<close>

lemma negated_comparison:
  "search_parse ''-took:>5'' = search_parse ''took:>5''" "search_parse ''-user:*'' = search_parse ''user:*''"
  by code_simp+

text \<open>Quotes do not make a text of what stands in them, when it has a colon.\<close>

lemma quoted_colon:
  "search_parse ([dquote] @ ''error: disk'' @ [dquote]) = Inr [FieldEq ''error'' '' disk'']"
  by code_simp

text \<open>
  The text of a substring is put between the wildcards of \<open>LIKE\<close> with its own \<open>%\<close> and \<open>_\<close> as they are, so that the search
  for a per cent sign is a condition that every text meets.
\<close>

lemma substring_wildcard:
  "kql_to_sql ex_floats (cs_kql (compile_for_source ex_floats ex_fmt \<lparr>src_name = ''logs'', src_fields = [(''message'', CUtf8)]\<rparr> [Substring ''%''] None 50)) =
     Inr (''SELECT * FROM logs WHERE (message LIKE '' @ [squote] @ ''%%%'' @ [squote] @ '') LIMIT 50'')"
  by code_simp

text \<open>
  A number that \<open>f64\<close> reads but the lexer does not, such as \<open>1e5\<close>, is not dropped but makes the query of the source one
  that is not accepted; so does a column whose name is not a word of KQL, which is not quoted.
\<close>

lemma exponent_rejected:
  "cs_dropped (compile_for_source ex_floats ex_fmt ex_logs [FieldCmp ''took'' CGt ''1e5''] None 50) = []"
  "\<exists>e. kql_to_sql ex_floats (cs_kql (compile_for_source ex_floats ex_fmt ex_logs [FieldCmp ''took'' CGt ''1e5''] None 50)) = Inl e"
  by (code_simp, rule exI, code_simp)

lemma odd_column_rejected:
  "\<exists>e. kql_to_sql ex_floats (cs_kql (compile_for_source ex_floats ex_fmt \<lparr>src_name = ''logs'', src_fields = [(''user name'', CUtf8)]\<rparr> [Substring ''bob''] None 50)) = Inl e"
  by (rule exI, code_simp)

end
