(* ===== verification/Batch_Queue.thy ===== *)
theory Batch_Queue
  imports Background_Tasks "HOL-Library.Sublist"
begin

text \<open>
  The batched queue of \<open>pensieve-queue\<close> (\<open>lib.rs\<close>, \<open>worker.rs\<close>): submitters put jobs on a channel, durable ones
  after storing them as background tasks; one worker drains the channel in batches, retries a batch that
  fails, settles the stored tasks, and replays tasks left by an earlier process.

  Submitters and the worker interleave: a submission is several steps (\<open>submit_begin\<close>, \<open>submit_persist\<close>,
  \<open>submit_send\<close>, \<open>submit_mark\<close>), and so is a replay. An event is one step, with the clock, fresh identifiers, the
  results of the batch handler and whether a database call succeeded as its arguments; \<open>qstep\<close> performs it when
  it is possible. \<open>sent\<close>, \<open>acked\<close> and \<open>tried\<close> are a history, which no step reads.

  Shown: an acknowledged durable job is stored until a batch with it succeeded or its attempts are used up, also
  across crashes; without a store the worker tries every job once, in the order of the channel; a barrier that is
  passed has the jobs acknowledged before behind it, when submissions do not overlap. Where they do, and
  where a store replays, examples show a barrier that is passed too early and a job that is handled twice.
\<close>

section \<open>Configuration\<close>

record queue_config =
  cfg_name :: string
  cfg_max_batch :: nat
  cfg_linger_ms :: nat
  cfg_channel_cap :: nat
  cfg_max_retries :: nat
  cfg_barrier_ms :: nat
  cfg_poll_ms :: nat

definition queue_config_default :: queue_config where
  "queue_config_default = \<lparr>cfg_name = ''queue'', cfg_max_batch = 64, cfg_linger_ms = 50, cfg_channel_cap = 1024, cfg_max_retries = 3,
     cfg_barrier_ms = 2000, cfg_poll_ms = 2000\<rparr>"

text \<open>\<open>num\<close> reads an environment variable as a \<open>u64\<close>; \<open>max_retries\<close> is truncated to 32 bits.\<close>

definition queue_config_from_env :: "(string \<Rightarrow> nat option) \<Rightarrow> string \<Rightarrow> string \<Rightarrow> queue_config" where
  "queue_config_from_env num name pre =
     (let var = (\<lambda>k. num (pre @ ''_'' @ k)); d = queue_config_default;
          pick = (\<lambda>x v. case x of None \<Rightarrow> v | Some y \<Rightarrow> y)
      in \<lparr>cfg_name = name,
          cfg_max_batch = pick (map_option (max 1) (var ''MAX_BATCH'')) (cfg_max_batch d),
          cfg_linger_ms = pick (var ''LINGER_MS'') (cfg_linger_ms d),
          cfg_channel_cap = pick (map_option (max 1) (var ''CAP'')) (cfg_channel_cap d),
          cfg_max_retries = pick (map_option (\<lambda>v. v mod 2 ^ 32) (var ''MAX_RETRIES'')) (cfg_max_retries d),
          cfg_barrier_ms = pick (var ''BARRIER_MS'') (cfg_barrier_ms d),
          cfg_poll_ms = pick (var ''POLL_MS'') (cfg_poll_ms d)\<rparr>)"

section \<open>State\<close>

record queue_job =
  qj_seq :: nat
  qj_partition :: string
  qj_payload :: json
  qj_durable :: bool
  qj_task :: "nat option"

datatype submit_phase = Begun | Stored | Sent

text \<open>What the worker is doing; the flag says that the source of the batch ran dry.\<close>

datatype queue_worker = Idle | Collecting "queue_job list" | Replaying "queue_job list" bool | Draining "queue_job list" bool | Stopped

record queue_state =
  qs_seq :: nat
  qs_channel :: "queue_job list"
  qs_submitted :: "string \<rightharpoonup> nat"
  qs_attempted :: "string \<rightharpoonup> nat"
  qs_store :: "task_row list option"
  qs_worker :: queue_worker
  qs_inflight :: "(queue_job \<times> submit_phase) list"
  qs_sent :: "queue_job list"
  qs_acked :: "queue_job list"
  qs_tried :: "(queue_job \<times> bool) list"

text \<open>\<open>spawn\<close>: with a store the worker begins with what an earlier process left.\<close>

definition queue_spawn :: "task_row list option \<Rightarrow> queue_state" where
  "queue_spawn store = \<lparr>qs_seq = 0, qs_channel = [], qs_submitted = Map.empty, qs_attempted = Map.empty, qs_store = store,
     qs_worker = (if store = None then Idle else Replaying [] False), qs_inflight = [], qs_sent = [], qs_acked = [], qs_tried = []\<rparr>"

section \<open>Submitting\<close>

definition bump_mark :: "string \<Rightarrow> nat \<Rightarrow> (string \<rightharpoonup> nat) \<Rightarrow> (string \<rightharpoonup> nat)" where
  "bump_mark p n m = m(p \<mapsto> max n (case m p of None \<Rightarrow> 0 | Some k \<Rightarrow> k))"

definition submit_begin :: "string \<Rightarrow> json \<Rightarrow> bool \<Rightarrow> queue_state \<Rightarrow> queue_state" where
  "submit_begin p pl durable q =
     (let n = qs_seq q + 1
      in q\<lparr>qs_seq := n, qs_inflight := qs_inflight q @ [(\<lparr>qj_seq = n, qj_partition = p, qj_payload = pl, qj_durable = durable, qj_task = None\<rparr>, Begun)]\<rparr>)"

definition envelope :: "string \<Rightarrow> json \<Rightarrow> json" where
  "envelope p pl = JObject [(''partition'', JString p), (''payload'', pl)]"

definition drop_nth :: "nat \<Rightarrow> 'a list \<Rightarrow> 'a list" where
  "drop_nth k xs = take k xs @ drop (k + 1) xs"

text \<open>Whether a submission has to store its job first.\<close>

definition needs_store :: "queue_state \<Rightarrow> queue_job \<Rightarrow> bool" where
  "needs_store q j \<longleftrightarrow> qj_durable j \<and> qs_store q \<noteq> None"

definition submit_persist :: "queue_config \<Rightarrow> nat \<Rightarrow> nat \<Rightarrow> int \<Rightarrow> nat \<Rightarrow> bool \<Rightarrow> queue_state \<Rightarrow> queue_state option" where
  "submit_persist cfg k i now tenant up q =
     (if k < length (qs_inflight q) then
        (case (qs_inflight q ! k, qs_store q) of
           ((j, Begun), Some rows) \<Rightarrow>
             if \<not> qj_durable j then None
             else if \<not> up then Some (q\<lparr>qs_inflight := drop_nth k (qs_inflight q)\<rparr>)
             else (case submit_task i now tenant (cfg_name cfg) None (envelope (qj_partition j) (qj_payload j)) 0 rows of
                 (Inl _, _) \<Rightarrow> Some (q\<lparr>qs_inflight := drop_nth k (qs_inflight q)\<rparr>)
               | (Inr i, rows') \<Rightarrow> Some (q\<lparr>qs_store := Some rows', qs_inflight := (qs_inflight q)[k := (j\<lparr>qj_task := Some i\<rparr>, Stored)]\<rparr>))
         | _ \<Rightarrow> None)
      else None)"

text \<open>
  \<open>try_send\<close>. On a full channel a stored job is left to the repair poll and acknowledged without a mark; on a
  closed one its task is retired and the caller gets the error.
\<close>

definition submit_send :: "queue_config \<Rightarrow> nat \<Rightarrow> int \<Rightarrow> queue_state \<Rightarrow> queue_state option" where
  "submit_send cfg k now q =
     (if k < length (qs_inflight q) then
        (case qs_inflight q ! k of (j, ph) \<Rightarrow>
           if ph = Sent \<or> (ph = Begun \<and> needs_store q j) then None
           else if qs_worker q = Stopped then
             Some (q\<lparr>qs_store := (case qj_task j of None \<Rightarrow> qs_store q | Some i \<Rightarrow> map_option (complete_task i now) (qs_store q)),
                     qs_inflight := drop_nth k (qs_inflight q)\<rparr>)
           else if length (qs_channel q) < cfg_channel_cap cfg then
             Some (q\<lparr>qs_channel := qs_channel q @ [j], qs_sent := qs_sent q @ [j], qs_inflight := (qs_inflight q)[k := (j, Sent)]\<rparr>)
           else if qj_task j \<noteq> None then Some (q\<lparr>qs_acked := qs_acked q @ [j], qs_inflight := drop_nth k (qs_inflight q)\<rparr>)
           else Some (q\<lparr>qs_inflight := drop_nth k (qs_inflight q)\<rparr>))
      else None)"

definition submit_mark :: "nat \<Rightarrow> queue_state \<Rightarrow> queue_state option" where
  "submit_mark k q =
     (if k < length (qs_inflight q) then
        (case qs_inflight q ! k of
           (j, Sent) \<Rightarrow> Some (q\<lparr>qs_submitted := bump_mark (qj_partition j) (qj_seq j) (qs_submitted q),
                             qs_acked := qs_acked q @ [j], qs_inflight := drop_nth k (qs_inflight q)\<rparr>)
         | _ \<Rightarrow> None)
      else None)"

section \<open>Barriers\<close>

text \<open>The marks a barrier waits for, taken when it is called; no partitions stand for all.\<close>

definition barrier_targets :: "string list \<Rightarrow> queue_state \<Rightarrow> (string \<rightharpoonup> nat)" where
  "barrier_targets ps q = (if ps = [] then qs_submitted q else qs_submitted q |` set ps)"

definition mark_reached :: "(string \<rightharpoonup> nat) \<Rightarrow> string \<Rightarrow> nat \<Rightarrow> bool" where
  "mark_reached m p n \<longleftrightarrow> n \<le> (case m p of None \<Rightarrow> 0 | Some k \<Rightarrow> k)"

definition barrier_reached :: "(string \<rightharpoonup> nat) \<Rightarrow> queue_state \<Rightarrow> bool" where
  "barrier_reached targets q \<longleftrightarrow> (\<forall>p n. targets p = Some n \<longrightarrow> mark_reached (qs_attempted q) p n)"

section \<open>The worker\<close>

text \<open>The attempts at a batch: \<open>r k\<close> is the result of the \<open>k\<close>-th call of the handler.\<close>

function batch_attempts :: "nat \<Rightarrow> (nat \<Rightarrow> bool) \<Rightarrow> nat \<Rightarrow> bool" where
  "batch_attempts max_tries r k =
     (if r k then True
      else if k + 1 > max_tries then False
      else batch_attempts max_tries r (k + 1))"
  by auto
termination
  by (relation "measure (\<lambda>(m, _, k). m - k)") auto

declare batch_attempts.simps [simp del]

definition settle_job :: "bool \<Rightarrow> int \<Rightarrow> (nat \<Rightarrow> bool) \<Rightarrow> queue_job \<Rightarrow> task_row list \<Rightarrow> task_row list" where
  "settle_job ok now up j rows = (case qj_task j of
     None \<Rightarrow> rows
   | Some i \<Rightarrow> if \<not> up i then rows
             else if ok then complete_task i now rows
             else fail_task i ''batch failed after in-process retries'' now rows)"

definition process_batch :: "queue_config \<Rightarrow> (nat \<Rightarrow> bool) \<Rightarrow> (nat \<Rightarrow> bool) \<Rightarrow> int \<Rightarrow> queue_job list \<Rightarrow> queue_state \<Rightarrow> queue_state" where
  "process_batch cfg r up now batch q =
     (let ok = batch_attempts (cfg_max_retries cfg) r 0
      in q\<lparr>qs_store := map_option (fold (settle_job ok now up) batch) (qs_store q),
           qs_attempted := fold (\<lambda>j. bump_mark (qj_partition j) (qj_seq j)) batch (qs_attempted q),
           qs_tried := qs_tried q @ map (\<lambda>j. (j, ok)) batch\<rparr>)"

definition envelope_parts :: "json \<Rightarrow> string \<times> json" where
  "envelope_parts e = (case e of
     JObject kvs \<Rightarrow> (case map_of kvs ''partition'' of Some (JString p) \<Rightarrow> p | _ \<Rightarrow> ''default'', case map_of kvs ''payload'' of Some pl \<Rightarrow> pl | None \<Rightarrow> JNull)
   | other \<Rightarrow> (''default'', other))"

definition job_from_task :: "nat \<Rightarrow> background_task \<Rightarrow> queue_job" where
  "job_from_task n b = (let (p, pl) = envelope_parts (task_payload b) in
     \<lparr>qj_seq = n, qj_partition = p, qj_payload = pl, qj_durable = True, qj_task = Some (task_id b)\<rparr>)"

text \<open>One round of the loop over \<open>claim_task\<close>, with a lease of 120 seconds (the clock counts milliseconds).\<close>

definition claim_one :: "queue_config \<Rightarrow> nat \<Rightarrow> int \<Rightarrow> bool \<Rightarrow> queue_state \<Rightarrow> queue_state option" where
  "claim_one cfg node now up q = (case (qs_worker q, qs_store q) of
     (Replaying b False, Some rows) \<Rightarrow>
       if length b < cfg_max_batch cfg then
         (case (if up then claim_task (cfg_name cfg) node now 120000 rows else (None, rows)) of
            (Some t, rows') \<Rightarrow> Some (q\<lparr>qs_store := Some rows', qs_seq := qs_seq q + 1, qs_worker := Replaying (b @ [job_from_task (qs_seq q + 1) t]) False\<rparr>)
          | (None, rows') \<Rightarrow> Some (q\<lparr>qs_store := Some rows', qs_worker := (if b = [] then Idle else Replaying b True)\<rparr>))
       else Some (q\<lparr>qs_worker := (if b = [] then Idle else Replaying b True)\<rparr>)
   | _ \<Rightarrow> None)"

text \<open>\<open>recv\<close> for the first job of a batch and \<open>collect_batch\<close> until the batch is full or the linger time is over.\<close>

definition receive_one :: "queue_config \<Rightarrow> queue_state \<Rightarrow> queue_state option" where
  "receive_one cfg q = (case (qs_worker q, qs_channel q) of
     (Idle, j # js) \<Rightarrow> Some (q\<lparr>qs_channel := js, qs_worker := Collecting [j]\<rparr>)
   | (Collecting b, j # js) \<Rightarrow> if length b < cfg_max_batch cfg then Some (q\<lparr>qs_channel := js, qs_worker := Collecting (b @ [j])\<rparr>) else None
   | _ \<Rightarrow> None)"

text \<open>\<open>drain_channel\<close>, after which the receiver is dropped with what was sent in between.\<close>

definition drain_one :: "queue_config \<Rightarrow> queue_state \<Rightarrow> queue_state option" where
  "drain_one cfg q = (case qs_worker q of
     Draining b False \<Rightarrow>
       if length b < cfg_max_batch cfg \<and> qs_channel q \<noteq> [] then Some (q\<lparr>qs_channel := tl (qs_channel q), qs_worker := Draining (b @ [hd (qs_channel q)]) False\<rparr>)
       else Some (q\<lparr>qs_worker := Draining b True\<rparr>)
   | Draining [] True \<Rightarrow> Some (q\<lparr>qs_channel := [], qs_worker := Stopped\<rparr>)
   | _ \<Rightarrow> None)"

definition handle_batch :: "queue_config \<Rightarrow> (nat \<Rightarrow> bool) \<Rightarrow> (nat \<Rightarrow> bool) \<Rightarrow> int \<Rightarrow> queue_state \<Rightarrow> queue_state option" where
  "handle_batch cfg r up now q = (case qs_worker q of
     Collecting b \<Rightarrow> Some ((process_batch cfg r up now b q)\<lparr>qs_worker := Idle\<rparr>)
   | Replaying b True \<Rightarrow> Some ((process_batch cfg r up now b q)\<lparr>qs_worker := Replaying [] False\<rparr>)
   | Draining b True \<Rightarrow> if b = [] then None else Some ((process_batch cfg r up now b q)\<lparr>qs_worker := Draining [] False\<rparr>)
   | _ \<Rightarrow> None)"

section \<open>The whole\<close>

datatype queue_event =
  EBegin string json bool
| EPersist nat nat int nat bool
| ESend nat int
| EMark nat
| EReceive
| EHandle "nat \<Rightarrow> bool" "nat \<Rightarrow> bool" int
| EPoll
| EClaim nat int bool
| EShutdown
| EDrain
| ECrash

definition qstep :: "queue_config \<Rightarrow> queue_event \<Rightarrow> queue_state \<Rightarrow> queue_state option" where
  "qstep cfg e q = (case e of
     EBegin p pl d \<Rightarrow> Some (submit_begin p pl d q)
   | EPersist k i now tenant up \<Rightarrow> submit_persist cfg k i now tenant up q
   | ESend k now \<Rightarrow> submit_send cfg k now q
   | EMark k \<Rightarrow> submit_mark k q
   | EReceive \<Rightarrow> receive_one cfg q
   | EHandle r up now \<Rightarrow> handle_batch cfg r up now q
   | EPoll \<Rightarrow> (if qs_worker q = Idle \<and> qs_store q \<noteq> None \<and> qs_channel q = [] then Some (q\<lparr>qs_worker := Replaying [] False\<rparr>) else None)
   | EClaim node now up \<Rightarrow> claim_one cfg node now up q
   | EShutdown \<Rightarrow> (if qs_worker q = Idle then Some (q\<lparr>qs_worker := Draining [] False\<rparr>) else None)
   | EDrain \<Rightarrow> drain_one cfg q
   | ECrash \<Rightarrow> Some ((queue_spawn (qs_store q))\<lparr>qs_sent := qs_sent q, qs_acked := qs_acked q, qs_tried := qs_tried q\<rparr>))"

fun qrun :: "queue_config \<Rightarrow> queue_event list \<Rightarrow> queue_state \<Rightarrow> queue_state option" where
  "qrun cfg [] q = Some q"
| "qrun cfg (e # es) q = Option.bind (qstep cfg e q) (qrun cfg es)"

section \<open>Stored jobs\<close>

definition worker_batch :: "queue_state \<Rightarrow> queue_job list" where
  "worker_batch q = (case qs_worker q of Collecting b \<Rightarrow> b | Replaying b _ \<Rightarrow> b | Draining b _ \<Rightarrow> b | _ \<Rightarrow> [])"

text \<open>The partition and payload that a stored task stands for.\<close>

definition task_content :: "task_row \<Rightarrow> string \<times> json" where
  "task_content t = envelope_parts (bt_payload t)"

definition job_content :: "queue_job \<Rightarrow> string \<times> json" where
  "job_content j = (qj_partition j, qj_payload j)"

text \<open>A task that is still to be done, has been given up, or was done by a batch that succeeded.\<close>

definition kept :: "(queue_job \<times> bool) list \<Rightarrow> task_row \<Rightarrow> bool" where
  "kept tr t \<longleftrightarrow> open_task t \<or> (bt_status t = TaskFailed \<and> bt_max_attempts t \<le> bt_attempt t) \<or> (\<exists>j. (j, True) \<in> set tr \<and> job_content j = task_content t)"

definition stored :: "queue_config \<Rightarrow> (queue_job \<times> bool) list \<Rightarrow> task_row list \<Rightarrow> queue_job \<Rightarrow> bool" where
  "stored cfg tr rows j \<longleftrightarrow> (\<exists>t \<in> set rows. qj_task j = Some (bt_id t) \<and> bt_kind t = cfg_name cfg \<and>
     bt_payload t = envelope (qj_partition j) (qj_payload j) \<and> bt_max_attempts t = 5 \<and> kept tr t)"

definition backed :: "task_row list \<Rightarrow> queue_job \<Rightarrow> bool" where
  "backed rows j \<longleftrightarrow> (\<forall>i. qj_task j = Some i \<longrightarrow> (\<exists>t \<in> set rows. bt_id t = i \<and> task_content t = job_content j))"

lemma envelope_content: "bt_payload t = envelope (qj_partition j) (qj_payload j) \<Longrightarrow> task_content t = job_content j"
  by (simp add: task_content_def envelope_def envelope_parts_def job_content_def)

lemma job_from_task_content: "\<lbrakk>task_payload b = bt_payload t; task_id b = bt_id t\<rbrakk> \<Longrightarrow> job_content (job_from_task n b) = task_content t \<and> qj_task (job_from_task n b) = Some (bt_id t)"
  by (simp add: job_from_task_def task_content_def job_content_def split: prod.split)

text \<open>What no update of the task table changes.\<close>

definition same_task :: "task_row \<Rightarrow> task_row \<Rightarrow> bool" where
  "same_task t u \<longleftrightarrow> bt_id u = bt_id t \<and> bt_kind u = bt_kind t \<and> bt_payload u = bt_payload t \<and> bt_max_attempts u = bt_max_attempts t"

lemma same_content: "same_task t u \<Longrightarrow> task_content u = task_content t"
  by (simp add: same_task_def task_content_def)

lemma backed_map:
  assumes "backed rows j" "\<And>t. same_task t (f t)"
  shows "backed (map f rows) j"
  unfolding backed_def
proof (intro allI impI)
  fix i assume "qj_task j = Some i"
  then obtain t where t: "t \<in> set rows" "bt_id t = i" "task_content t = job_content j" using assms(1) by (auto simp: backed_def)
  then have "bt_id (f t) = i" "task_content (f t) = job_content j" using assms(2) [of t] same_content [OF assms(2)] by (simp_all add: same_task_def)
  then show "\<exists>t \<in> set (map f rows). bt_id t = i \<and> task_content t = job_content j" using t(1) by auto
qed

lemma stored_map:
  assumes "stored cfg tr rows j" "\<And>t. same_task t (f t)" "\<And>t. \<lbrakk>t \<in> set rows; qj_task j = Some (bt_id t); kept tr t\<rbrakk> \<Longrightarrow> kept tr' (f t)"
  shows "stored cfg tr' (map f rows) j"
proof -
  obtain t where t: "t \<in> set rows" "qj_task j = Some (bt_id t)" "bt_kind t = cfg_name cfg"
    "bt_payload t = envelope (qj_partition j) (qj_payload j)" "bt_max_attempts t = 5" "kept tr t"
    using assms(1) by (auto simp: stored_def)
  then show ?thesis using assms(2) [of t] assms(3) [of t] unfolding stored_def
    by (intro bexI [of _ "f t"]) (auto simp: same_task_def)
qed

lemma kept_more: "kept tr t \<Longrightarrow> kept (tr @ x) t"
  by (auto simp: kept_def)

lemma map_ids: "(\<And>t. same_task t (f t)) \<Longrightarrow> map bt_id (map f rows) = map bt_id rows"
  by (simp add: same_task_def)

lemma same_ids: "(\<And>t. same_task t (f t)) \<Longrightarrow> bt_id \<circ> f = bt_id"
  by (simp add: same_task_def fun_eq_iff)

lemma settle_map:
  obtains f :: "task_row \<Rightarrow> task_row" where "settle_job ok now up j = map f" and "\<And>t. same_task t (f t)"
    and "\<And>t tr. \<lbrakk>kept tr t; \<not> (ok \<and> qj_task j = Some (bt_id t))\<rbrakk> \<Longrightarrow> kept tr (f t)"
proof -
  define f :: "task_row \<Rightarrow> task_row" where "f = (\<lambda>t. case qj_task j of None \<Rightarrow> t | Some i \<Rightarrow> if \<not> up i \<or> bt_id t \<noteq> i then t
     else if ok then t\<lparr>bt_status := TaskDone, bt_updated_at := now\<rparr>
     else t\<lparr>bt_status := (if bt_attempt t < bt_max_attempts t then TaskPending else TaskFailed), bt_expires := None,
            bt_error := Some ''batch failed after in-process retries'', bt_updated_at := now\<rparr>)"
  show thesis
  proof (rule that)
    show "settle_job ok now up j = map f"
      by (rule ext) (auto simp: settle_job_def f_def complete_task_def fail_task_def split: option.split)
    show "same_task t (f t)" for t by (simp add: f_def same_task_def split: option.split)
    show "kept tr (f t)" if "kept tr t" "\<not> (ok \<and> qj_task j = Some (bt_id t))" for t tr
      using that by (auto simp: f_def kept_def open_task_def task_content_def split: option.split)
  qed
qed

lemma settle_all:
  assumes "distinct (map bt_id rows)" "\<forall>j \<in> set batch. backed rows j" "ok \<longrightarrow> (\<forall>j \<in> set batch. (j, True) \<in> set tr)"
  shows "distinct (map bt_id (fold (settle_job ok now up) batch rows)) \<and>
    (\<forall>j. backed rows j \<longrightarrow> backed (fold (settle_job ok now up) batch rows) j) \<and>
    (\<forall>j. stored cfg tr rows j \<longrightarrow> stored cfg tr (fold (settle_job ok now up) batch rows) j)"
  using assms
proof (induction batch arbitrary: rows)
  case (Cons b bs)
  obtain f where f: "settle_job ok now up b = map f" "\<And>t. same_task t (f t)"
    "\<And>t tr. \<lbrakk>kept tr t; \<not> (ok \<and> qj_task b = Some (bt_id t))\<rbrakk> \<Longrightarrow> kept tr (f t)"
    using settle_map [of ok now up b] by blast
  have back1: "backed rows j \<Longrightarrow> backed (map f rows) j" for j by (rule backed_map [OF _ f(2)])
  have after: "kept tr (f t)" if t: "t \<in> set rows" "kept tr t" for t
  proof (cases "ok \<and> qj_task b = Some (bt_id t)")
    case True
    then obtain u where "u \<in> set rows" "bt_id u = bt_id t" "task_content u = job_content b" using Cons.prems(2) by (auto simp: backed_def)
    moreover from this have "u = t" using t(1) Cons.prems(1) by (auto simp: distinct_map dest: inj_onD)
    ultimately have "job_content b = task_content (f t)" using same_content [OF f(2)] by simp
    then show ?thesis using True Cons.prems(3) by (auto simp: kept_def)
  qed (use f(3) t in blast)
  have ids: "map bt_id (map f rows) = map bt_id rows" by (rule map_ids [OF f(2)])
  have keep: "stored cfg tr rows j \<Longrightarrow> stored cfg tr (map f rows) j" for j
    by (rule stored_map [OF _ f(2)]) (use after in auto)
  show ?case using Cons.IH [of "map f rows"] Cons.prems back1 keep by (simp only: fold.simps o_apply f(1) ids) auto
qed simp

section \<open>Acknowledged durable jobs are kept\<close>

text \<open>The jobs whose submission got past the store.\<close>

definition promised :: "queue_state \<Rightarrow> queue_job list" where
  "promised q = qs_acked q @ map fst (filter (\<lambda>x. snd x \<noteq> Begun) (qs_inflight q))"

definition job_tasks :: "queue_job list \<Rightarrow> nat list" where
  "job_tasks js = concat (map (\<lambda>j. case qj_task j of None \<Rightarrow> [] | Some i \<Rightarrow> [i]) js)"

definition promises_kept :: "queue_config \<Rightarrow> task_row list \<Rightarrow> queue_state \<Rightarrow> bool" where
  "promises_kept cfg rows q \<longleftrightarrow> distinct (map bt_id rows) \<and>
     (\<forall>j \<in> set (qs_channel q @ worker_batch q). backed rows j) \<and>
     (\<forall>j \<in> set (promised q). qj_durable j \<or> qj_task j \<noteq> None \<longrightarrow> stored cfg (qs_tried q) rows j) \<and>
     (\<forall>x \<in> set (qs_inflight q). snd x = Begun \<longrightarrow> qj_task (fst x) = None) \<and>
     distinct (job_tasks (qs_acked q @ map fst (qs_inflight q)))"

lemma job_tasks_simps [simp]:
  "job_tasks [] = []" "job_tasks (j # js) = (case qj_task j of None \<Rightarrow> [] | Some i \<Rightarrow> [i]) @ job_tasks js" "job_tasks (js @ ks) = job_tasks js @ job_tasks ks"
  by (simp_all add: job_tasks_def)

lemma in_job_tasks: "i \<in> set (job_tasks js) \<longleftrightarrow> (\<exists>j \<in> set js. qj_task j = Some i)"
  by (induction js) (auto split: option.split)

lemma at_nth:
  assumes "k < length xs"
  obtains as bs where "xs = as @ xs ! k # bs" "drop_nth k xs = as @ bs" "\<And>y. xs[k := y] = as @ y # bs"
  using assms by (intro that [of "take k xs" "drop (k + 1) xs"]) (simp_all add: id_take_nth_drop drop_nth_def upd_conv_take_nth_drop)

lemma stored_backed: "\<lbrakk>stored cfg tr rows j; distinct (map bt_id rows)\<rbrakk> \<Longrightarrow> backed rows j"
  unfolding stored_def backed_def by (auto intro: envelope_content)

lemma stored_more: "stored cfg tr rows j \<Longrightarrow> stored cfg (tr @ x) (rows @ ts) j"
  unfolding stored_def by (auto intro: kept_more)

lemma backed_more: "backed rows j \<Longrightarrow> backed (rows @ ts) j"
  unfolding backed_def by auto

lemma promised_task:
  assumes "promises_kept cfg rows q" "h \<in> set (qs_acked q @ map fst (qs_inflight q))" "qj_task h = Some i"
  shows "h \<in> set (promised q)"
proof (cases "h \<in> set (qs_acked q)")
  case False
  then obtain ph where x: "(h, ph) \<in> set (qs_inflight q)" using assms(2) by auto
  then have "ph \<noteq> Begun" using assms(1,3) by (auto simp: promises_kept_def)
  then show ?thesis using x by (force simp: promised_def)
qed (simp add: promised_def)

lemma past_store:
  assumes "promises_kept cfg rows q" "(j, ph) \<in> set (qs_inflight q)" "ph \<noteq> Begun" "qj_durable j \<or> qj_task j \<noteq> None"
  shows "stored cfg (qs_tried q) rows j"
proof -
  have "j \<in> set (promised q)" using assms(2,3) by (force simp: promised_def)
  then show ?thesis using assms(1,4) by (auto simp: promises_kept_def)
qed

lemma persist_keeps:
  assumes inv: "promises_kept cfg rows q" and st: "qs_store q = Some rows" and step: "submit_persist cfg k i now tenant up q = Some q'"
  shows "\<exists>rows'. qs_store q' = Some rows' \<and> promises_kept cfg rows' q'"
proof -
  have k: "k < length (qs_inflight q)" using step by (simp add: submit_persist_def split: if_splits)
  obtain as bs where ab: "qs_inflight q = as @ (qs_inflight q ! k) # bs" "drop_nth k (qs_inflight q) = as @ bs"
    "\<And>y. (qs_inflight q)[k := y] = as @ y # bs" using at_nth [OF k] by blast
  obtain j ph where j: "qs_inflight q ! k = (j, ph)" by fastforce
  then have ph: "ph = Begun" "qj_durable j" using step k st by (auto simp: submit_persist_def split: submit_phase.splits if_splits)
  have drop: "promises_kept cfg rows (q\<lparr>qs_inflight := as @ bs\<rparr>)"
    using inv ab(1) j by (auto simp: promises_kept_def promised_def worker_batch_def)
  show ?thesis
  proof (cases "up \<and> i \<notin> bt_id ` set rows")
    case False
    then have "q' = q\<lparr>qs_inflight := as @ bs\<rparr>" using step k st j ph ab(2)
      by (auto simp: submit_persist_def submit_task_def insert_row_def list_ex_iff split: if_splits)
    then show ?thesis using drop st by simp
  next
    case True
    define t where "t = \<lparr>bt_id = i, bt_tenant = tenant, bt_kind = cfg_name cfg, bt_table = None, bt_payload = envelope (qj_partition j) (qj_payload j),
      bt_priority = 0, bt_status = TaskPending, bt_attempt = 0, bt_max_attempts = 5, bt_expires = None, bt_claimed_by = None, bt_error = None,
      bt_created_at = now, bt_updated_at = now\<rparr>"
    have t: "bt_id t = i" "bt_kind t = cfg_name cfg" "bt_payload t = envelope (qj_partition j) (qj_payload j)" "bt_max_attempts t = 5" "open_task t"
      by (simp_all add: t_def open_task_def)
    have q': "q' = q\<lparr>qs_store := Some (rows @ [t]), qs_inflight := as @ (j\<lparr>qj_task := Some i\<rparr>, Stored) # bs\<rparr>"
      using step k st j ph True by (auto simp: submit_persist_def submit_task_def insert_row_def list_ex_iff ab(3) t_def split: if_splits)
    have new: "i \<notin> set (job_tasks (qs_acked q @ map fst (as @ bs)))"
    proof
      assume "i \<in> set (job_tasks (qs_acked q @ map fst (as @ bs)))"
      then obtain h where h: "h \<in> set (qs_acked q @ map fst (as @ bs))" "qj_task h = Some i" unfolding in_job_tasks by blast
      then have "h \<in> set (qs_acked q @ map fst (qs_inflight q))" by (subst ab(1)) auto
      then have "h \<in> set (promised q)" using promised_task [OF inv _ h(2)] by simp
      then have "stored cfg (qs_tried q) rows h" using inv h(2) by (auto simp: promises_kept_def)
      then show False using True h(2) by (auto simp: stored_def)
    qed
    have "stored cfg (qs_tried q) (rows @ [t]) (j\<lparr>qj_task := Some i\<rparr>)" using t by (auto simp: stored_def kept_def)
    moreover have "stored cfg (qs_tried q) (rows @ [t]) h" if "stored cfg (qs_tried q) rows h" for h using stored_more [OF that, of "[]"] by simp
    ultimately have "promises_kept cfg (rows @ [t]) q'" using drop new True t(1) unfolding q'
      by (auto simp: promises_kept_def promised_def worker_batch_def backed_more)
    then show ?thesis using q' by auto
  qed
qed

lemma send_keeps:
  assumes inv: "promises_kept cfg rows q" and st: "qs_store q = Some rows" and step: "submit_send cfg k now q = Some q'"
  shows "\<exists>rows'. qs_store q' = Some rows' \<and> promises_kept cfg rows' q'"
proof -
  have k: "k < length (qs_inflight q)" using step by (simp add: submit_send_def split: if_splits)
  obtain as bs where ab: "qs_inflight q = as @ (qs_inflight q ! k) # bs" "drop_nth k (qs_inflight q) = as @ bs"
    "\<And>y. (qs_inflight q)[k := y] = as @ y # bs" using at_nth [OF k] by blast
  obtain j ph where j: "qs_inflight q ! k = (j, ph)" by fastforce
  have ph: "ph = Stored \<or> (ph = Begun \<and> \<not> qj_durable j \<and> qj_task j = None)"
  proof -
    have "ph \<noteq> Sent" "ph = Begun \<longrightarrow> \<not> qj_durable j" using step k j st by (auto simp: submit_send_def needs_store_def split: if_splits)
    moreover have "ph = Begun \<longrightarrow> qj_task j = None" using inv ab(1) j by (auto simp: promises_kept_def)
    ultimately show ?thesis by (cases ph) auto
  qed
  have mine: "stored cfg (qs_tried q) rows j" if t: "qj_durable j \<or> qj_task j \<noteq> None"
  proof -
    have "(j, Stored) \<in> set (qs_inflight q)" using k j ph t nth_mem [OF k] by auto
    then show ?thesis using past_store [OF inv _ _ t] by simp
  qed
  then have back1: "backed rows j" using stored_backed inv by (cases "qj_task j") (auto simp: promises_kept_def backed_def)
  have drop: "promises_kept cfg rows (q\<lparr>qs_inflight := as @ bs\<rparr>)"
    using inv ab(1) j by (auto simp: promises_kept_def promised_def worker_batch_def)
  consider (closed) "qs_worker q = Stopped" | (sent) "qs_worker q \<noteq> Stopped" "length (qs_channel q) < cfg_channel_cap cfg"
    | (full) "qs_worker q \<noteq> Stopped" "\<not> length (qs_channel q) < cfg_channel_cap cfg" by blast
  then show ?thesis
  proof cases
    case sent
    then have "q' = q\<lparr>qs_channel := qs_channel q @ [j], qs_sent := qs_sent q @ [j], qs_inflight := as @ (j, Sent) # bs\<rparr>"
      using step k j by (auto simp: submit_send_def ab(3) split: if_splits)
    moreover have "promises_kept cfg rows (q\<lparr>qs_channel := qs_channel q @ [j], qs_sent := qs_sent q @ [j], qs_inflight := as @ (j, Sent) # bs\<rparr>)"
      using inv mine back1 ab(1) j by (auto simp: promises_kept_def promised_def worker_batch_def)
    ultimately show ?thesis using st by simp
  next
    case full
    show ?thesis
    proof (cases "qj_task j")
      case None
      then have "q' = q\<lparr>qs_inflight := as @ bs\<rparr>" using full step k j ab(2) by (auto simp: submit_send_def split: if_splits)
      then show ?thesis using drop st by simp
    next
      case (Some i)
      then have "q' = q\<lparr>qs_acked := qs_acked q @ [j], qs_inflight := as @ bs\<rparr>" using full step k j ab(2) by (auto simp: submit_send_def split: if_splits)
      moreover have "promises_kept cfg rows (q\<lparr>qs_acked := qs_acked q @ [j], qs_inflight := as @ bs\<rparr>)"
        using inv mine ab(1) j Some by (auto simp: promises_kept_def promised_def worker_batch_def)
      ultimately show ?thesis using st by simp
    qed
  next
    case closed
    show ?thesis
    proof (cases "qj_task j")
      case None
      then have "q' = q\<lparr>qs_inflight := as @ bs\<rparr>" using closed step k j ab(2) by (auto simp: submit_send_def split: if_splits)
      then show ?thesis using drop st by simp
    next
      case (Some i)
      define f :: "task_row \<Rightarrow> task_row" where "f = (\<lambda>t. if bt_id t = i then t\<lparr>bt_status := TaskDone, bt_updated_at := now\<rparr> else t)"
      have q': "q' = q\<lparr>qs_store := Some (map f rows), qs_inflight := as @ bs\<rparr>"
        using closed step k j st Some ab(2) by (auto simp: submit_send_def complete_task_def f_def split: if_splits)
      have same: "same_task t (f t)" for t by (simp add: f_def same_task_def)
      have other: "i \<notin> set (job_tasks (qs_acked q @ map fst (as @ bs)))" using inv ab(1) j Some by (auto simp: promises_kept_def)
      have "stored cfg (qs_tried q) (map f rows) h" if h: "h \<in> set (promised (q\<lparr>qs_inflight := as @ bs\<rparr>))" "stored cfg (qs_tried q) rows h" for h
      proof (rule stored_map [OF h(2) same])
        fix t assume t: "qj_task h = Some (bt_id t)" "kept (qs_tried q) t"
        have "h \<in> set (qs_acked q @ map fst (as @ bs))" using h(1) by (auto simp: promised_def)
        then have "bt_id t \<noteq> i" using other t(1) unfolding in_job_tasks by auto
        then show "kept (qs_tried q) (f t)" using t(2) by (simp add: f_def)
      qed
      then have "promises_kept cfg (map f rows) (q\<lparr>qs_store := Some (map f rows), qs_inflight := as @ bs\<rparr>)"
        using drop same_ids [OF same] backed_map [OF _ same] by (auto simp: promises_kept_def promised_def worker_batch_def)
      then show ?thesis using q' by simp
    qed
  qed
qed

lemma mark_keeps:
  assumes inv: "promises_kept cfg rows q" and step: "submit_mark k q = Some q'"
  shows "qs_store q' = qs_store q \<and> promises_kept cfg rows q'"
proof -
  have k: "k < length (qs_inflight q)" using step by (simp add: submit_mark_def split: if_splits)
  obtain as bs where ab: "qs_inflight q = as @ (qs_inflight q ! k) # bs" "drop_nth k (qs_inflight q) = as @ bs" using at_nth [OF k] by blast
  obtain j where j: "qs_inflight q ! k = (j, Sent)" using step k by (auto simp: submit_mark_def split: prod.splits submit_phase.splits)
  then have "q' = q\<lparr>qs_submitted := bump_mark (qj_partition j) (qj_seq j) (qs_submitted q), qs_acked := qs_acked q @ [j], qs_inflight := as @ bs\<rparr>"
    using step k ab(2) by (simp add: submit_mark_def)
  moreover have "(j, Sent) \<in> set (qs_inflight q)" using nth_mem [OF k] j by simp
  ultimately show ?thesis using past_store [OF inv, of j Sent] inv ab(1) j by (auto simp: promises_kept_def promised_def worker_batch_def)
qed

lemma worker_moves:
  assumes "promises_kept cfg rows q" "set (qs_channel q' @ worker_batch q') \<subseteq> set (qs_channel q @ worker_batch q)"
    "qs_acked q' = qs_acked q" "qs_inflight q' = qs_inflight q" "qs_tried q' = qs_tried q"
  shows "promises_kept cfg rows q'"
  using assms unfolding promises_kept_def promised_def by auto

lemma receive_keeps:
  assumes "promises_kept cfg rows q" "receive_one cfg q = Some q'"
  shows "qs_store q' = qs_store q \<and> promises_kept cfg rows q'"
proof -
  have "qs_store q' = qs_store q \<and> set (qs_channel q' @ worker_batch q') \<subseteq> set (qs_channel q @ worker_batch q) \<and>
      qs_acked q' = qs_acked q \<and> qs_inflight q' = qs_inflight q \<and> qs_tried q' = qs_tried q"
    using assms(2) by (auto simp: receive_one_def worker_batch_def split: queue_worker.splits list.splits if_splits)
  then show ?thesis using worker_moves [OF assms(1)] by blast
qed

lemma drain_keeps:
  assumes "promises_kept cfg rows q" "drain_one cfg q = Some q'"
  shows "qs_store q' = qs_store q \<and> promises_kept cfg rows q'"
proof -
  have "qs_store q' = qs_store q \<and> set (qs_channel q' @ worker_batch q') \<subseteq> set (qs_channel q @ worker_batch q) \<and>
      qs_acked q' = qs_acked q \<and> qs_inflight q' = qs_inflight q \<and> qs_tried q' = qs_tried q"
    using assms(2) by (cases "qs_channel q") (auto simp: drain_one_def worker_batch_def split: queue_worker.splits list.splits if_splits bool.splits)
  then show ?thesis using worker_moves [OF assms(1)] by blast
qed

lemma process_keeps:
  assumes inv: "promises_kept cfg rows q" and st: "qs_store q = Some rows" and b: "worker_batch q = batch"
    and w: "worker_batch q' = []" "q' = (process_batch cfg r up now batch q)\<lparr>qs_worker := w\<rparr>"
  shows "\<exists>rows'. qs_store q' = Some rows' \<and> promises_kept cfg rows' q'"
proof -
  define ok where "ok = batch_attempts (cfg_max_retries cfg) r 0"
  define tr where "tr = qs_tried q @ map (\<lambda>j. (j, ok)) batch"
  define rows' where "rows' = fold (settle_job ok now up) batch rows"
  have q': "qs_store q' = Some rows'" "qs_tried q' = tr" "qs_channel q' = qs_channel q" "qs_acked q' = qs_acked q" "qs_inflight q' = qs_inflight q"
    using w(2) st by (simp_all add: process_batch_def Let_def ok_def rows'_def tr_def)
  have "ok \<longrightarrow> (\<forall>j \<in> set batch. (j, True) \<in> set tr)" by (auto simp: tr_def)
  moreover have "distinct (map bt_id rows)" "\<forall>j \<in> set batch. backed rows j" using inv b by (auto simp: promises_kept_def)
  ultimately have settled: "distinct (map bt_id rows')" "\<And>j. backed rows j \<Longrightarrow> backed rows' j" "\<And>j. stored cfg tr rows j \<Longrightarrow> stored cfg tr rows' j"
    using settle_all [of rows batch ok tr now up cfg] by (simp_all add: rows'_def)
  have "stored cfg tr rows' j" if "stored cfg (qs_tried q) rows j" for j
    using settled(3) stored_more [OF that, of "map (\<lambda>j. (j, ok)) batch" "[]"] by (simp add: tr_def)
  then have "promises_kept cfg rows' q'" using inv settled(1,2) w(1) unfolding promises_kept_def promised_def q' by auto
  then show ?thesis using q'(1) by blast
qed

lemma handle_keeps:
  assumes "promises_kept cfg rows q" "qs_store q = Some rows" "handle_batch cfg r up now q = Some q'"
  shows "\<exists>rows'. qs_store q' = Some rows' \<and> promises_kept cfg rows' q'"
proof -
  obtain w where "q' = (process_batch cfg r up now (worker_batch q) q)\<lparr>qs_worker := w\<rparr>" "worker_batch q' = []"
    using assms(3) by (auto simp: handle_batch_def worker_batch_def split: queue_worker.splits bool.splits if_splits)
  then show ?thesis using process_keeps [OF assms(1,2) HOL.refl] by blast
qed

lemma claim_map:
  obtains f :: "task_row \<Rightarrow> task_row" where "snd (claim_task kind node now lease rows) = map f rows" and "\<And>t. same_task t (f t)"
    and "\<And>t tr. kept tr t \<Longrightarrow> kept tr (f t)"
    and "\<And>b. fst (claim_task kind node now lease rows) = Some b \<Longrightarrow> \<exists>t \<in> set rows. task_id b = bt_id t \<and> task_payload b = bt_payload t"
proof (cases "select_best task_before (filter (task_claimable kind now) rows)")
  case None
  then show ?thesis by (intro that [of id]) (simp_all add: claim_task_def same_task_def)
next
  case (Some r)
  have r: "r \<in> set rows" using select_best_mem [OF Some] by auto
  define f :: "task_row \<Rightarrow> task_row" where "f = (\<lambda>t. if bt_id t = bt_id r \<and> open_task t then claim_row node now lease (bt_attempt r + 1) t else t)"
  show ?thesis
  proof (rule that [of f])
    show "snd (claim_task kind node now lease rows) = map f rows" by (simp add: claim_task_def Some Let_def f_def)
    show "same_task t (f t)" for t by (simp add: f_def same_task_def claim_row_def)
    show "kept tr (f t)" if "kept tr t" for t tr using that by (auto simp: f_def kept_def claim_row_def open_task_def)
    show "\<exists>t \<in> set rows. task_id b = bt_id t \<and> task_payload b = bt_payload t" if "fst (claim_task kind node now lease rows) = Some b" for b
      using that r by (auto simp: claim_task_def Some Let_def split: if_splits)
  qed
qed

lemma claim_keeps:
  assumes inv: "promises_kept cfg rows q" and st: "qs_store q = Some rows" and step: "claim_one cfg node now up q = Some q'"
  shows "\<exists>rows'. qs_store q' = Some rows' \<and> promises_kept cfg rows' q'"
proof -
  obtain b where b: "qs_worker q = Replaying b False" using step st by (auto simp: claim_one_def split: queue_worker.splits bool.splits)
  show ?thesis
  proof (cases "length b < cfg_max_batch cfg \<and> up")
    case False
    then have "q' = q\<lparr>qs_worker := (if b = [] then Idle else Replaying b True)\<rparr>" using step st b by (auto simp: claim_one_def split: if_splits)
    moreover from this have "promises_kept cfg rows q'" using b by (intro worker_moves [OF inv]) (auto simp: worker_batch_def)
    ultimately show ?thesis using st by auto
  next
    case True
    obtain f where f: "snd (claim_task (cfg_name cfg) node now 120000 rows) = map f rows" "\<And>t. same_task t (f t)" "\<And>t tr. kept tr t \<Longrightarrow> kept tr (f t)"
      "\<And>b. fst (claim_task (cfg_name cfg) node now 120000 rows) = Some b \<Longrightarrow> \<exists>t \<in> set rows. task_id b = bt_id t \<and> task_payload b = bt_payload t"
      using claim_map [of "cfg_name cfg" node now 120000 rows] by blast
    have upd: "promises_kept cfg (map f rows) q" using inv same_ids [OF f(2)] backed_map [OF _ f(2)] stored_map [OF _ f(2) f(3)]
      by (auto simp: promises_kept_def)
    show ?thesis
    proof (cases "fst (claim_task (cfg_name cfg) node now 120000 rows)")
      case None
      then have "q' = q\<lparr>qs_store := Some (map f rows), qs_worker := (if b = [] then Idle else Replaying b True)\<rparr>"
        using step st b True f(1) by (auto simp: claim_one_def split: prod.splits)
      moreover from this have "promises_kept cfg (map f rows) q'" using b by (intro worker_moves [OF upd]) (auto simp: worker_batch_def)
      ultimately show ?thesis by auto
    next
      case (Some t)
      define j where "j = job_from_task (qs_seq q + 1) t"
      have q': "q' = q\<lparr>qs_store := Some (map f rows), qs_seq := qs_seq q + 1, qs_worker := Replaying (b @ [j]) False\<rparr>"
        using step st b True f(1) Some by (auto simp: claim_one_def j_def split: prod.splits)
      obtain u where u: "u \<in> set rows" "task_id t = bt_id u" "task_payload t = bt_payload u" using f(4) [OF Some] by blast
      have "backed rows j" using u job_from_task_content [OF u(3,2), of "qs_seq q + 1"] by (auto simp: backed_def j_def)
      then have "backed (map f rows) j" by (rule backed_map [OF _ f(2)])
      then have "promises_kept cfg (map f rows) q'" using upd b unfolding q' by (auto simp: promises_kept_def promised_def worker_batch_def)
      then show ?thesis using q' by auto
    qed
  qed
qed

lemma qstep_keeps:
  assumes inv: "promises_kept cfg rows q" and st: "qs_store q = Some rows" and step: "qstep cfg e q = Some q'"
  shows "\<exists>rows'. qs_store q' = Some rows' \<and> promises_kept cfg rows' q'"
proof (cases e)
  case (EBegin p pl d)
  then have "q' = submit_begin p pl d q" using step by (simp add: qstep_def)
  then show ?thesis using inv st by (auto simp: submit_begin_def Let_def promises_kept_def promised_def worker_batch_def)
next
  case EPoll
  then have "q' = q\<lparr>qs_worker := Replaying [] False\<rparr>" using step by (simp add: qstep_def split: if_splits)
  then show ?thesis using st worker_moves [OF inv, of q'] by (auto simp: worker_batch_def)
next
  case EShutdown
  then have "q' = q\<lparr>qs_worker := Draining [] False\<rparr>" using step by (simp add: qstep_def split: if_splits)
  then show ?thesis using st worker_moves [OF inv, of q'] by (auto simp: worker_batch_def)
next
  case ECrash
  then show ?thesis using step inv st by (auto simp: qstep_def queue_spawn_def promises_kept_def promised_def worker_batch_def)
next
  case (EPersist k i now tenant up)
  then show ?thesis using step persist_keeps [OF inv st] by (simp add: qstep_def)
next
  case (ESend k now)
  then show ?thesis using step send_keeps [OF inv st] by (simp add: qstep_def)
next
  case (EMark k)
  then show ?thesis using step mark_keeps [OF inv] st by (simp add: qstep_def)
next
  case EReceive
  then show ?thesis using step receive_keeps [OF inv] st by (simp add: qstep_def)
next
  case (EHandle r up now)
  then show ?thesis using step handle_keeps [OF inv st] by (simp add: qstep_def)
next
  case (EClaim node now up)
  then show ?thesis using step claim_keeps [OF inv st] by (simp add: qstep_def)
next
  case EDrain
  then show ?thesis using step drain_keeps [OF inv] st by (simp add: qstep_def)
qed

lemma qrun_keeps: "\<lbrakk>qrun cfg es q = Some q'; promises_kept cfg rows q; qs_store q = Some rows\<rbrakk> \<Longrightarrow> \<exists>rows'. qs_store q' = Some rows' \<and> promises_kept cfg rows' q'"
proof (induction es arbitrary: q rows)
  case (Cons e es)
  then obtain q1 where "qstep cfg e q = Some q1" "qrun cfg es q1 = Some q'" by (auto simp: bind_eq_Some_conv)
  then show ?case using qstep_keeps [OF Cons.prems(2,3)] Cons.IH by blast
qed auto

text \<open>
  C10: a durable job that was acknowledged is in the task table with its partition and payload, and
  it is either still to be done, or given up after five claims, or a batch with this partition and payload
  succeeded: whatever the submitters, the worker and the store did in between, and however often the process crashed.
\<close>

theorem durable_ack_kept:
  assumes "distinct (map bt_id rows)" and "qrun cfg es (queue_spawn (Some rows)) = Some q" and "j \<in> set (qs_acked q)" and "qj_durable j"
  shows "\<exists>rows' t. qs_store q = Some rows' \<and> t \<in> set rows' \<and> qj_task j = Some (bt_id t) \<and>
    bt_kind t = cfg_name cfg \<and> bt_payload t = envelope (qj_partition j) (qj_payload j) \<and>
    (open_task t \<or> (bt_status t = TaskFailed \<and> 5 \<le> bt_attempt t) \<or>
     (\<exists>j'. (j', True) \<in> set (qs_tried q) \<and> qj_partition j' = qj_partition j \<and> qj_payload j' = qj_payload j))"
proof -
  have "promises_kept cfg rows (queue_spawn (Some rows))"
    using assms(1) by (simp add: promises_kept_def promised_def queue_spawn_def worker_batch_def)
  then obtain rows' where r: "qs_store q = Some rows'" "promises_kept cfg rows' q" using qrun_keeps [OF assms(2)] by (auto simp: queue_spawn_def)
  then have "stored cfg (qs_tried q) rows' j" using assms(3,4) by (auto simp: promises_kept_def promised_def)
  then obtain t where t: "t \<in> set rows'" "qj_task j = Some (bt_id t)" "bt_kind t = cfg_name cfg" "bt_payload t = envelope (qj_partition j) (qj_payload j)"
    "bt_max_attempts t = 5" "kept (qs_tried q) t" by (auto simp: stored_def)
  then show ?thesis using r(1) envelope_content [OF t(4)] by (auto simp: kept_def job_content_def intro!: exI [of _ t])
qed

section \<open>Without a store: every job once, in order\<close>

text \<open>The submissions that have not reached the channel.\<close>

definition unsent :: "queue_state \<Rightarrow> queue_job list" where
  "unsent q = map fst (filter (\<lambda>x. snd x \<noteq> Sent) (qs_inflight q))"

definition in_memory :: "queue_state \<Rightarrow> bool" where
  "in_memory q \<longleftrightarrow> qs_store q = None \<and>
     (if qs_worker q = Stopped then prefix (map fst (qs_tried q)) (qs_sent q)
      else map fst (qs_tried q) @ worker_batch q @ qs_channel q = qs_sent q) \<and>
     set (qs_acked q) \<subseteq> set (qs_sent q) \<and> (\<forall>x \<in> set (qs_inflight q). qj_task (fst x) = None \<and> (snd x = Sent \<longrightarrow> fst x \<in> set (qs_sent q))) \<and>
     distinct (map qj_seq (qs_sent q @ unsent q)) \<and> (\<forall>j \<in> set (qs_sent q @ unsent q). 1 \<le> qj_seq j \<and> qj_seq j \<le> qs_seq q)"

lemma send_in_memory:
  assumes inv: "in_memory q" and step: "submit_send cfg k now q = Some q'"
  shows "in_memory q'"
proof -
  have k: "k < length (qs_inflight q)" using step by (simp add: submit_send_def split: if_splits)
  obtain as bs where ab: "qs_inflight q = as @ (qs_inflight q ! k) # bs" "drop_nth k (qs_inflight q) = as @ bs"
    "\<And>y. (qs_inflight q)[k := y] = as @ y # bs" using at_nth [OF k] by blast
  obtain j ph where j: "qs_inflight q ! k = (j, ph)" by fastforce
  have none: "qj_task j = None" "qs_store q = None" using inv j nth_mem [OF k] by (force simp: in_memory_def)+
  have ph: "ph \<noteq> Sent" using step k j by (auto simp: submit_send_def split: if_splits)
  have sub: "set as \<union> set bs \<subseteq> set (qs_inflight q)" by (subst ab(1)) auto
  have unsent: "unsent q = map fst (filter (\<lambda>x. snd x \<noteq> Sent) as) @ j # map fst (filter (\<lambda>x. snd x \<noteq> Sent) bs)"
    unfolding unsent_def by (subst ab(1)) (simp add: j ph)
  show ?thesis
  proof (cases "qs_worker q \<noteq> Stopped \<and> length (qs_channel q) < cfg_channel_cap cfg")
    case True
    then have q': "q' = q\<lparr>qs_channel := qs_channel q @ [j], qs_sent := qs_sent q @ [j], qs_inflight := as @ (j, Sent) # bs\<rparr>"
      using step k j by (auto simp: submit_send_def ab(3) split: if_splits)
    have "set (qs_inflight q') = insert (j, Sent) (set as \<union> set bs)" by (auto simp: q')
    moreover have "unsent q' = map fst (filter (\<lambda>x. snd x \<noteq> Sent) as) @ map fst (filter (\<lambda>x. snd x \<noteq> Sent) bs)" by (simp add: unsent_def q')
    ultimately show ?thesis using inv True none unsent sub unfolding in_memory_def by (auto simp: q' worker_batch_def)
  next
    case False
    then have q': "q' = q\<lparr>qs_inflight := as @ bs\<rparr>" using step k j none ab(2) by (auto simp: submit_send_def split: if_splits)
    have "unsent q' = map fst (filter (\<lambda>x. snd x \<noteq> Sent) as) @ map fst (filter (\<lambda>x. snd x \<noteq> Sent) bs)" by (simp add: unsent_def q')
    then show ?thesis using inv unsent sub unfolding in_memory_def by (auto simp: q' worker_batch_def)
  qed
qed

lemma mark_in_memory:
  assumes inv: "in_memory q" and step: "submit_mark k q = Some q'"
  shows "in_memory q'"
proof -
  have k: "k < length (qs_inflight q)" using step by (simp add: submit_mark_def split: if_splits)
  obtain as bs where ab: "qs_inflight q = as @ (qs_inflight q ! k) # bs" "drop_nth k (qs_inflight q) = as @ bs" using at_nth [OF k] by blast
  obtain j where j: "qs_inflight q ! k = (j, Sent)" using step k by (auto simp: submit_mark_def split: prod.splits submit_phase.splits)
  then have q': "q' = q\<lparr>qs_submitted := bump_mark (qj_partition j) (qj_seq j) (qs_submitted q), qs_acked := qs_acked q @ [j], qs_inflight := as @ bs\<rparr>"
    using step k ab(2) by (simp add: submit_mark_def)
  have "(j, Sent) \<in> set (qs_inflight q)" using nth_mem [OF k] j by simp
  moreover have "unsent q' = unsent q" unfolding unsent_def by (subst ab(1)) (simp add: q' j)
  moreover have "set as \<union> set bs \<subseteq> set (qs_inflight q)" by (subst ab(1)) auto
  ultimately show ?thesis using inv unfolding in_memory_def by (auto simp: q' worker_batch_def)
qed

lemma worker_in_memory:
  assumes inv: "in_memory q" and same: "qs_store q' = None" "qs_sent q' = qs_sent q" "qs_acked q' = qs_acked q" "qs_inflight q' = qs_inflight q" "qs_seq q' = qs_seq q"
    and move: "if qs_worker q' = Stopped then prefix (map fst (qs_tried q')) (qs_sent q) else map fst (qs_tried q') @ worker_batch q' @ qs_channel q' = qs_sent q"
  shows "in_memory q'"
  using inv move unfolding in_memory_def unsent_def same by auto

lemma receive_in_memory:
  assumes inv: "in_memory q" and step: "receive_one cfg q = Some q'"
  shows "in_memory q'"
proof (rule worker_in_memory [OF inv])
  have w: "qs_worker q \<noteq> Stopped" using step by (auto simp: receive_one_def)
  have st: "qs_store q = None" "map fst (qs_tried q) @ worker_batch q @ qs_channel q = qs_sent q" using inv w by (simp_all add: in_memory_def)
  obtain j js where c: "qs_channel q = j # js" using step by (auto simp: receive_one_def split: queue_worker.splits list.splits)
  show "qs_store q' = None" "qs_sent q' = qs_sent q" "qs_acked q' = qs_acked q" "qs_inflight q' = qs_inflight q" "qs_seq q' = qs_seq q"
    using step st by (cases "qs_worker q"; auto simp: receive_one_def c split: if_splits)+
  show "if qs_worker q' = Stopped then prefix (map fst (qs_tried q')) (qs_sent q) else map fst (qs_tried q') @ worker_batch q' @ qs_channel q' = qs_sent q"
    using step st(2) by (cases "qs_worker q") (auto simp: receive_one_def c worker_batch_def split: if_splits)
qed

lemma prefix_eqI: "xs @ zs = ys \<Longrightarrow> prefix xs ys"
  by auto

lemma drain_in_memory:
  assumes inv: "in_memory q" and step: "drain_one cfg q = Some q'"
  shows "in_memory q'"
proof (rule worker_in_memory [OF inv])
  have st: "qs_store q = None" using inv by (simp add: in_memory_def)
  have w: "qs_worker q \<noteq> Stopped" using step by (auto simp: drain_one_def)
  have all: "map fst (qs_tried q) @ worker_batch q @ qs_channel q = qs_sent q" using inv w by (simp add: in_memory_def)
  obtain b d where b: "qs_worker q = Draining b d" using step by (auto simp: drain_one_def split: queue_worker.splits)
  show "qs_store q' = None" "qs_sent q' = qs_sent q" "qs_acked q' = qs_acked q" "qs_inflight q' = qs_inflight q" "qs_seq q' = qs_seq q"
    using step st by (cases d; cases b; auto simp: drain_one_def b split: if_splits)+
  show "if qs_worker q' = Stopped then prefix (map fst (qs_tried q')) (qs_sent q) else map fst (qs_tried q') @ worker_batch q' @ qs_channel q' = qs_sent q"
    using step all prefix_eqI [OF all] by (cases d; cases b) (auto simp: drain_one_def b worker_batch_def split: if_splits)
qed

lemma handle_in_memory:
  assumes inv: "in_memory q" and step: "handle_batch cfg r up now q = Some q'"
  shows "in_memory q'"
proof -
  obtain w where w: "q' = (process_batch cfg r up now (worker_batch q) q)\<lparr>qs_worker := w\<rparr>" "worker_batch q' = []" "w \<noteq> Stopped" "qs_worker q \<noteq> Stopped"
    using step by (auto simp: handle_batch_def worker_batch_def split: queue_worker.splits bool.splits if_splits)
  have "map fst (map (\<lambda>j. (j, b)) js) = js" for b :: bool and js :: "queue_job list" by (simp add: comp_def)
  then have "map fst (qs_tried q') @ worker_batch q' @ qs_channel q' = map fst (qs_tried q) @ worker_batch q @ qs_channel q"
    unfolding w(2) by (simp add: w(1) process_batch_def Let_def del: map_map)
  moreover have "qs_worker q' = w" "qs_store q' = None" "qs_sent q' = qs_sent q" "qs_acked q' = qs_acked q" "qs_inflight q' = qs_inflight q" "qs_seq q' = qs_seq q"
    using inv by (simp_all add: w(1) process_batch_def Let_def in_memory_def)
  ultimately show ?thesis using inv w(3,4) by (intro worker_in_memory [OF inv]) (auto simp: in_memory_def)
qed

lemma qstep_in_memory:
  assumes inv: "in_memory q" and step: "qstep cfg e q = Some q'" and "e \<noteq> ECrash"
  shows "in_memory q'"
proof (cases e)
  case (EBegin p pl d)
  then have q': "q' = submit_begin p pl d q" using step by (simp add: qstep_def)
  have "unsent q' = unsent q @ [\<lparr>qj_seq = qs_seq q + 1, qj_partition = p, qj_payload = pl, qj_durable = d, qj_task = None\<rparr>]"
    by (simp add: unsent_def q' submit_begin_def Let_def)
  moreover have "qs_seq q + 1 \<notin> qj_seq ` set (qs_sent q @ unsent q)"
  proof
    assume "qs_seq q + 1 \<in> qj_seq ` set (qs_sent q @ unsent q)"
    then obtain j where "j \<in> set (qs_sent q @ unsent q)" "qj_seq j = qs_seq q + 1" by (metis imageE)
    moreover have "\<forall>j \<in> set (qs_sent q @ unsent q). qj_seq j \<le> qs_seq q" using inv by (simp add: in_memory_def)
    ultimately show False by fastforce
  qed
  moreover have "\<forall>j \<in> set (qs_sent q @ unsent q). qj_seq j \<le> Suc (qs_seq q)" using inv by (simp add: in_memory_def le_SucI)
  ultimately show ?thesis using inv unfolding in_memory_def by (auto simp: q' submit_begin_def Let_def worker_batch_def)
next
  case EPoll
  then show ?thesis using step inv by (simp add: qstep_def in_memory_def split: if_splits)
next
  case EShutdown
  then have "qs_worker q = Idle" "q' = q\<lparr>qs_worker := Draining [] False\<rparr>" using step by (simp_all add: qstep_def split: if_splits)
  then show ?thesis using inv by (intro worker_in_memory [OF inv]) (auto simp: in_memory_def worker_batch_def)
next
  case (EPersist k i now tenant up)
  then show ?thesis using step inv by (simp add: qstep_def in_memory_def submit_persist_def split: if_splits prod.splits submit_phase.splits)
next
  case (EClaim node now up)
  then show ?thesis using step inv by (simp add: qstep_def in_memory_def claim_one_def split: queue_worker.splits bool.splits)
next
  case (ESend k now)
  then show ?thesis using step send_in_memory [OF inv] by (simp add: qstep_def)
next
  case (EMark k)
  then show ?thesis using step mark_in_memory [OF inv] by (simp add: qstep_def)
next
  case EReceive
  then show ?thesis using step receive_in_memory [OF inv] by (simp add: qstep_def)
next
  case (EHandle r up now)
  then show ?thesis using step handle_in_memory [OF inv] by (simp add: qstep_def)
next
  case EDrain
  then show ?thesis using step drain_in_memory [OF inv] by (simp add: qstep_def)
qed (use assms(3) in simp)

lemma qrun_in_memory: "\<lbrakk>qrun cfg es q = Some q'; ECrash \<notin> set es; in_memory q\<rbrakk> \<Longrightarrow> in_memory q'"
  by (induction es arbitrary: q) (auto simp: bind_eq_Some_conv dest: qstep_in_memory)

lemma spawn_in_memory: "in_memory (queue_spawn None)"
  by (simp add: in_memory_def queue_spawn_def worker_batch_def unsent_def)

text \<open>
  C22: without a store and until a crash, the jobs that batches were made of are a prefix of the jobs put on
  the channel, in that order; the rest is in the batch being collected and on the channel, until the
  worker has stopped. No job is on the channel twice, and every acknowledged one was put there.
\<close>

theorem queue_fifo:
  assumes "qrun cfg es (queue_spawn None) = Some q" and "ECrash \<notin> set es"
  shows "prefix (map fst (qs_tried q)) (qs_sent q) \<and>
    (qs_worker q \<noteq> Stopped \<longrightarrow> map fst (qs_tried q) @ worker_batch q @ qs_channel q = qs_sent q) \<and>
    distinct (map qj_seq (qs_sent q)) \<and> set (qs_acked q) \<subseteq> set (qs_sent q)"
proof -
  have "in_memory q" by (rule qrun_in_memory [OF assms spawn_in_memory])
  then show ?thesis using prefix_eqI [of "map fst (qs_tried q)" _ "qs_sent q"] by (auto simp: in_memory_def split: if_splits)
qed

section \<open>Barriers without overlapping submissions\<close>

text \<open>No submission begins before the last one returned.\<close>

fun one_submitter :: "queue_config \<Rightarrow> queue_event list \<Rightarrow> queue_state \<Rightarrow> bool" where
  "one_submitter cfg [] q \<longleftrightarrow> True"
| "one_submitter cfg (e # es) q \<longleftrightarrow> (case e of EBegin _ _ _ \<Rightarrow> qs_inflight q = [] | _ \<Rightarrow> True) \<and>
     (case qstep cfg e q of Some q' \<Rightarrow> one_submitter cfg es q' | None \<Rightarrow> True)"

definition marked :: "queue_state \<Rightarrow> bool" where
  "marked q \<longleftrightarrow> in_memory q \<and> length (qs_inflight q) \<le> 1 \<and> sorted_wrt (<) (map qj_seq (qs_sent q @ unsent q)) \<and>
     (\<forall>j \<in> set (qs_acked q). \<exists>n. qs_submitted q (qj_partition j) = Some n \<and> qj_seq j \<le> n) \<and>
     (\<forall>p n. qs_attempted q p = Some n \<longrightarrow> n = 0 \<or> (\<exists>j \<in> fst ` set (qs_tried q). qj_partition j = p \<and> n \<le> qj_seq j))"

lemma bump_marks:
  assumes "fold (\<lambda>j. bump_mark (qj_partition j) (qj_seq j)) js m p = Some n"
  shows "m p = Some n \<or> n = 0 \<or> (\<exists>j \<in> set js. qj_partition j = p \<and> n \<le> qj_seq j)"
  using assms
proof (induction js arbitrary: m)
  case (Cons j js)
  then have "bump_mark (qj_partition j) (qj_seq j) m p = Some n \<or> n = 0 \<or> (\<exists>j \<in> set js. qj_partition j = p \<and> n \<le> qj_seq j)" by simp
  then show ?case by (auto simp: bump_mark_def max_def split: if_splits option.splits)
qed simp

lemma marked_step:
  assumes m: "marked q" and step: "qstep cfg e q = Some q'" and c: "e \<noteq> ECrash"
    and one: "case e of EBegin _ _ _ \<Rightarrow> qs_inflight q = [] | _ \<Rightarrow> True"
  shows "marked q'"
proof -
  have inv: "in_memory q" using m by (simp add: marked_def)
  have inv': "in_memory q'" by (rule qstep_in_memory [OF inv step c])
  have st: "qs_store q = None" using inv by (simp add: in_memory_def)
  have same: "marked q'" if "qs_inflight q' = qs_inflight q" "qs_sent q' = qs_sent q" "qs_acked q' = qs_acked q" "qs_submitted q' = qs_submitted q"
    "qs_attempted q' = qs_attempted q" "qs_tried q' = qs_tried q"
    using m inv' that unfolding marked_def unsent_def by simp
  show ?thesis
  proof (cases e)
    case (EBegin p pl d)
    then have none: "qs_inflight q = []" and q': "q' = submit_begin p pl d q" using one step by (simp_all add: qstep_def)
    have "\<forall>j \<in> set (qs_sent q). qj_seq j < qs_seq q + 1" using inv by (simp add: in_memory_def less_Suc_eq_le)
    then show ?thesis using m inv' none unfolding marked_def by (auto simp: q' submit_begin_def Let_def unsent_def sorted_wrt_append)
  next
    case (ESend k now)
    then have s: "submit_send cfg k now q = Some q'" using step by (simp add: qstep_def)
    then have "k < length (qs_inflight q)" by (simp add: submit_send_def split: if_splits)
    then obtain j ph where x: "qs_inflight q = [(j, ph)]" "k = 0" using m by (cases "qs_inflight q") (auto simp: marked_def)
    have none: "qj_task j = None" using inv x by (simp add: in_memory_def)
    have ph: "ph \<noteq> Sent" using s x by (auto simp: submit_send_def split: if_splits)
    show ?thesis
    proof (cases "qs_worker q \<noteq> Stopped \<and> length (qs_channel q) < cfg_channel_cap cfg")
      case True
      then have "q' = q\<lparr>qs_channel := qs_channel q @ [j], qs_sent := qs_sent q @ [j], qs_inflight := [(j, Sent)]\<rparr>"
        using s x by (auto simp: submit_send_def split: if_splits)
      then show ?thesis using m inv' x ph by (auto simp: marked_def unsent_def)
    next
      case False
      then have "q' = q\<lparr>qs_inflight := []\<rparr>" using s x none by (auto simp: submit_send_def drop_nth_def split: if_splits)
      then show ?thesis using m inv' x ph by (auto simp: marked_def unsent_def sorted_wrt_append)
    qed
  next
    case (EMark k)
    then have s: "submit_mark k q = Some q'" using step by (simp add: qstep_def)
    then have "k < length (qs_inflight q)" by (simp add: submit_mark_def split: if_splits)
    then obtain j ph where x: "qs_inflight q = [(j, ph)]" "k = 0" using m by (cases "qs_inflight q") (auto simp: marked_def)
    then have q': "ph = Sent" "q' = q\<lparr>qs_submitted := bump_mark (qj_partition j) (qj_seq j) (qs_submitted q), qs_acked := qs_acked q @ [j], qs_inflight := []\<rparr>"
      using s by (auto simp: submit_mark_def drop_nth_def split: submit_phase.splits)
    have "\<exists>n. bump_mark (qj_partition j) (qj_seq j) (qs_submitted q) (qj_partition h) = Some n \<and> qj_seq h \<le> n" if "h \<in> set (qs_acked q @ [j])" for h
      using that m by (fastforce simp: bump_mark_def marked_def max_def)
    then show ?thesis using m inv' x q' by (auto simp: marked_def unsent_def)
  next
    case (EHandle r up now)
    then obtain w where w: "q' = (process_batch cfg r up now (worker_batch q) q)\<lparr>qs_worker := w\<rparr>"
      using step by (auto simp: qstep_def handle_batch_def worker_batch_def split: queue_worker.splits bool.splits if_splits)
    define tr where "tr = map (\<lambda>j. (j, batch_attempts (cfg_max_retries cfg) r 0)) (worker_batch q)"
    have q': "qs_inflight q' = qs_inflight q" "qs_sent q' = qs_sent q" "qs_acked q' = qs_acked q" "qs_submitted q' = qs_submitted q"
      "qs_tried q' = qs_tried q @ tr" "qs_attempted q' = fold (\<lambda>j. bump_mark (qj_partition j) (qj_seq j)) (worker_batch q) (qs_attempted q)"
      by (simp_all add: w process_batch_def Let_def tr_def)
    have tr: "fst ` set tr = set (worker_batch q)" by (force simp: tr_def)
    have "n = 0 \<or> (\<exists>j \<in> fst ` set (qs_tried q @ tr). qj_partition j = p \<and> n \<le> qj_seq j)"
      if n: "fold (\<lambda>j. bump_mark (qj_partition j) (qj_seq j)) (worker_batch q) (qs_attempted q) p = Some n" for p n
    proof -
      have old: "qs_attempted q p = Some n \<Longrightarrow> n = 0 \<or> (\<exists>j \<in> fst ` set (qs_tried q). qj_partition j = p \<and> n \<le> qj_seq j)" using m by (simp add: marked_def)
      have "fst ` set (qs_tried q @ tr) = fst ` set (qs_tried q) \<union> set (worker_batch q)" by (simp add: image_Un tr)
      then show ?thesis using bump_marks [OF n] old by auto
    qed
    then show ?thesis using m inv' unfolding marked_def unsent_def q' by simp
  next
    case (EPersist k i now tenant up)
    then show ?thesis using step st by (simp add: qstep_def submit_persist_def split: if_splits prod.splits submit_phase.splits)
  next
    case (EClaim node now up)
    then show ?thesis using step st by (simp add: qstep_def claim_one_def split: queue_worker.splits bool.splits)
  next
    case EReceive
    then show ?thesis using step by (intro same) (auto simp: qstep_def receive_one_def split: queue_worker.splits list.splits if_splits)
  next
    case EDrain
    then obtain b d where "qs_worker q = Draining b d" using step by (auto simp: qstep_def drain_one_def split: queue_worker.splits)
    then show ?thesis using step EDrain by (intro same; cases b; cases d; auto simp: qstep_def drain_one_def split: if_splits)
  next
    case EPoll
    then show ?thesis using step st by (simp add: qstep_def split: if_splits)
  next
    case EShutdown
    then show ?thesis using step by (intro same) (auto simp: qstep_def split: if_splits)
  qed (use c in simp)
qed

lemma marked_run: "\<lbrakk>qrun cfg es q = Some q'; ECrash \<notin> set es; one_submitter cfg es q; marked q\<rbrakk> \<Longrightarrow> marked q'"
proof (induction es arbitrary: q)
  case (Cons e es)
  then obtain q1 where q1: "qstep cfg e q = Some q1" "qrun cfg es q1 = Some q'" by (auto simp: bind_eq_Some_conv)
  have "marked q1" using Cons.prems by (intro marked_step [OF Cons.prems(4) q1(1)]) auto
  then show ?case using Cons.IH [OF q1(2)] Cons.prems q1(1) by simp
qed simp

lemma sent_grows: "qstep cfg e q = Some q' \<Longrightarrow> set (qs_sent q) \<subseteq> set (qs_sent q')"
  by (auto simp: qstep_def submit_begin_def Let_def submit_persist_def submit_send_def submit_mark_def receive_one_def drain_one_def
      handle_batch_def process_batch_def claim_one_def split: queue_event.splits if_splits prod.splits submit_phase.splits sum.splits
      option.splits queue_worker.splits bool.splits list.splits)

lemma sent_grows_run: "qrun cfg es q = Some q' \<Longrightarrow> set (qs_sent q) \<subseteq> set (qs_sent q')"
  by (induction es arbitrary: q) (auto simp: bind_eq_Some_conv dest!: sent_grows)

text \<open>
  C24: without a store and without overlapping submissions, when a barrier returns that was
  called on some partitions, or on all, then every job of them that was acknowledged before the call has been in a
  batch that the worker finished with.
\<close>

theorem barrier_sound:
  assumes "qrun cfg es (queue_spawn None) = Some q" and "qrun cfg fs q = Some q'"
    and "ECrash \<notin> set (es @ fs)" and "one_submitter cfg (es @ fs) (queue_spawn None)"
    and "barrier_reached (barrier_targets ps q) q'" and "j \<in> set (qs_acked q)" and "ps = [] \<or> qj_partition j \<in> set ps"
  shows "j \<in> fst ` set (qs_tried q')"
proof -
  have spawn: "marked (queue_spawn None)" using spawn_in_memory by (simp add: marked_def queue_spawn_def unsent_def)
  have "one_submitter cfg es (queue_spawn None) \<and> one_submitter cfg fs q"
  proof -
    have "\<lbrakk>one_submitter cfg (es @ fs) r; qrun cfg es r = Some q\<rbrakk> \<Longrightarrow> one_submitter cfg es r \<and> one_submitter cfg fs q" for r
      by (induction es arbitrary: r) (auto simp: bind_eq_Some_conv)
    then show ?thesis using assms(1,4) by blast
  qed
  then have m: "marked q" "marked q'" using marked_run [OF assms(1) _ _ spawn] marked_run [OF assms(2)] assms(3) by auto
  obtain n where n: "qs_submitted q (qj_partition j) = Some n" "qj_seq j \<le> n" using m(1) assms(6) by (auto simp: marked_def)
  have sent: "j \<in> set (qs_sent q)" using m(1) assms(6) by (auto simp: marked_def in_memory_def)
  have sent': "j \<in> set (qs_sent q')" using sent sent_grows_run [OF assms(2)] by auto
  have "1 \<le> qj_seq j" using m(1) sent by (auto simp: marked_def in_memory_def)
  have "barrier_targets ps q (qj_partition j) = Some n" using n(1) assms(7) by (auto simp: barrier_targets_def)
  then have "mark_reached (qs_attempted q') (qj_partition j) n" using assms(5) by (auto simp: barrier_reached_def)
  then obtain k where k: "qs_attempted q' (qj_partition j) = Some k" "n \<le> k"
    using n(2) \<open>1 \<le> qj_seq j\<close> by (auto simp: mark_reached_def split: option.splits)
  then obtain h where h: "h \<in> fst ` set (qs_tried q')" "qj_seq j \<le> qj_seq h"
    using m(2) n(2) \<open>1 \<le> qj_seq j\<close> unfolding marked_def by fastforce
  have "prefix (map fst (qs_tried q')) (qs_sent q')" using m(2) prefix_eqI [of "map fst (qs_tried q')" _ "qs_sent q'"]
    by (auto simp: marked_def in_memory_def split: if_splits)
  then obtain ks where ks: "qs_sent q' = map fst (qs_tried q') @ ks" by (auto simp: prefix_def)
  have "sorted_wrt (<) (map qj_seq (map fst (qs_tried q')) @ map qj_seq ks)" using m(2) unfolding marked_def ks by (simp add: sorted_wrt_append)
  then have "j \<notin> set ks" using h by (fastforce simp: sorted_wrt_append)
  then show ?thesis using sent' unfolding ks by auto
qed

section \<open>Examples\<close>

definition ex_queue :: queue_config where
  "ex_queue = queue_config_default\<lparr>cfg_name := ''memory_ops''\<rparr>"

abbreviation all_well :: "nat \<Rightarrow> bool" where
  "all_well \<equiv> (\<lambda>_. True)"

text \<open>
  Two submissions overlap: the second takes its number later and is sent first. When its batch is done, the mark of
  the partition is already that of the second, and the barrier does not wait for the first, although that was
  acknowledged and still is on the channel.
\<close>

definition overtaken :: "queue_event list" where
  "overtaken = [EBegin ''r'' (JInt 1) False, EBegin ''r'' (JInt 2) False, ESend 1 0, EMark 1, EReceive, EHandle all_well all_well 0, ESend 0 0, EMark 0]"

lemma barrier_overtaken:
  "\<exists>q. qrun ex_queue overtaken (queue_spawn None) = Some q \<and> map qj_payload (qs_acked q) = [JInt 2, JInt 1] \<and>
     qs_submitted q ''r'' = Some 2 \<and> qs_attempted q ''r'' = Some 2 \<and> map qj_payload (qs_channel q) = [JInt 1] \<and> map (qj_payload \<circ> fst) (qs_tried q) = [JInt 2]"
  by (simp add: overtaken_def qstep_def submit_begin_def Let_def queue_spawn_def submit_send_def needs_store_def ex_queue_def queue_config_default_def
      submit_mark_def drop_nth_def bump_mark_def receive_one_def handle_batch_def process_batch_def batch_attempts.simps)

text \<open>
  One submitter is not enough when there is a store: a replayed task gets the next number, so that its batch moves the
  mark of its partition past a job that was acknowledged and is still on the channel.
\<close>

definition left_task :: task_row where
  "left_task = \<lparr>bt_id = 3, bt_tenant = 1, bt_kind = ''memory_ops'', bt_table = None, bt_payload = envelope ''r'' (JInt 0), bt_priority = 0,
     bt_status = TaskPending, bt_attempt = 0, bt_max_attempts = 5, bt_expires = None, bt_claimed_by = None, bt_error = None,
     bt_created_at = 0, bt_updated_at = 0\<rparr>"

definition replayed :: "queue_event list" where
  "replayed = [EBegin ''r'' (JInt 1) False, ESend 0 0, EMark 0, EClaim 1 10 True, EClaim 1 10 True, EHandle all_well all_well 11]"

lemma barrier_replay:
  "map_option (\<lambda>q. (map qj_payload (qs_acked q), qs_submitted q ''r'', qs_attempted q ''r'', map qj_payload (qs_channel q), map (qj_payload \<circ> fst) (qs_tried q)))
     (qrun ex_queue replayed (queue_spawn (Some [left_task]))) = Some ([JInt 1], Some 1, Some 2, [JInt 1], [JInt 0])"
  by code_simp

text \<open>
  A durable job that is stored but not yet sent is pending in the task table, where the repair poll finds it: it is
  handled as a replay, and again when it comes through the channel.
\<close>

definition delivered_twice :: "queue_event list" where
  "delivered_twice = [EClaim 1 0 True, EBegin ''r'' (JInt 1) True, EPersist 0 7 1 1 True, EPoll, EClaim 1 2 True, EClaim 1 2 True,
     EHandle all_well all_well 3, EClaim 1 4 True, ESend 0 4, EMark 0, EReceive, EHandle all_well all_well 5]"

lemma durable_delivered_twice:
  "map_option (\<lambda>q. map (\<lambda>x. (qj_seq (fst x), qj_task (fst x), qj_payload (fst x), snd x)) (qs_tried q)) (qrun ex_queue delivered_twice (queue_spawn (Some []))) =
     Some [(2, Some 7, JInt 1, True), (1, Some 7, JInt 1, True)]"
  by code_simp

section \<open>Witnesses\<close>

definition crashed :: "queue_event list" where
  "crashed = [EClaim 1 0 True, EBegin ''r'' (JInt 1) True, EPersist 0 7 1 1 True, ESend 0 2, EMark 0, EReceive, ECrash]"

lemmas run_simps = qstep_def submit_begin_def Let_def queue_spawn_def submit_send_def needs_store_def ex_queue_def queue_config_default_def
  submit_mark_def drop_nth_def bump_mark_def receive_one_def handle_batch_def process_batch_def batch_attempts.simps claim_one_def claim_task_def
  submit_persist_def submit_task_def insert_row_def

theorem durable_ack_kept_witness:
  "\<exists>q rows t. qrun ex_queue crashed (queue_spawn (Some [])) = Some q \<and> qs_channel q = [] \<and> qs_store q = Some rows \<and> t \<in> set rows \<and>
     bt_payload t = envelope ''r'' (JInt 1) \<and> (open_task t \<or> (bt_status t = TaskFailed \<and> 5 \<le> bt_attempt t) \<or> qs_tried q \<noteq> [])"
proof -
  obtain q j where q: "qrun ex_queue crashed (queue_spawn (Some [])) = Some q" "qs_channel q = []" "j \<in> set (qs_acked q)" "qj_durable j"
    "qj_partition j = ''r''" "qj_payload j = JInt 1"
    by (simp add: crashed_def run_simps)
  have "distinct (map bt_id [])" by simp
  then show ?thesis using durable_ack_kept [OF _ q(1,3,4)] q by fastforce
qed

definition submit_one :: "queue_event list" where
  "submit_one = [EBegin ''r'' (JInt 1) False, ESend 0 0, EMark 0]"

definition flush_one :: "queue_event list" where
  "flush_one = [EReceive, EHandle all_well all_well 1]"

theorem queue_fifo_witness:
  "\<exists>q. qrun ex_queue (submit_one @ submit_one @ flush_one) (queue_spawn None) = Some q \<and> length (qs_sent q) = 2 \<and> length (qs_tried q) = 1 \<and>
     map fst (qs_tried q) @ worker_batch q @ qs_channel q = qs_sent q"
proof -
  obtain q where q: "qrun ex_queue (submit_one @ submit_one @ flush_one) (queue_spawn None) = Some q" "length (qs_sent q) = 2" "length (qs_tried q) = 1"
    "qs_worker q = Idle"
    by (simp add: submit_one_def flush_one_def run_simps)
  have "ECrash \<notin> set (submit_one @ submit_one @ flush_one)" by (simp add: submit_one_def flush_one_def)
  from queue_fifo [OF q(1) this] show ?thesis using q by auto
qed

theorem barrier_sound_witness:
  "\<exists>q q' j. qrun ex_queue submit_one (queue_spawn None) = Some q \<and> qrun ex_queue flush_one q = Some q' \<and> qs_acked q = [j] \<and> j \<in> fst ` set (qs_tried q')"
proof -
  obtain q q' j where q: "qrun ex_queue submit_one (queue_spawn None) = Some q" "qrun ex_queue flush_one q = Some q'" "qs_acked q = [j]"
    "qj_partition j = ''r''" "qs_submitted q = [''r'' \<mapsto> 1]" "qs_attempted q' = [''r'' \<mapsto> 1]"
    by (simp add: submit_one_def flush_one_def run_simps)
  have b: "barrier_reached (barrier_targets [''r''] q) q'" using q(5,6) by (simp add: barrier_reached_def barrier_targets_def mark_reached_def)
  have "one_submitter ex_queue (submit_one @ flush_one) (queue_spawn None)" by (simp add: submit_one_def flush_one_def run_simps)
  moreover have "ECrash \<notin> set (submit_one @ flush_one)" by (simp add: submit_one_def flush_one_def)
  ultimately have "j \<in> fst ` set (qs_tried q')" using barrier_sound [OF q(1,2) _ _ b, of j] q(3,4) by simp
  then show ?thesis using q(1-3) by blast
qed

end
