(* ===== verification/Memory_Sql.thy ===== *)
theory Memory_Sql
  imports Kql_Safe
begin

text \<open>
  The queries of the agent memory: \<open>pensieve-memory/src/sql.rs\<close> and the filter of \<open>types.rs\<close>. Memories are rows of one
  table, of which the latest version per identifier counts; each query first takes the latest versions.

  Shown: every query is a single statement, whatever stands in identifiers, realms, tags and instants; the
  conditions of a filter hold of a row exactly when the filter admits it. A tag with an underscore is looked for
  without it, and not found.

  The texts of floating-point numbers are parameters.
\<close>

section \<open>Types\<close>

datatype memory_type = MFact | MDecision | MPreference | MLearning | MSummary | MProcedure | MEntity

definition memory_type_str :: "memory_type \<Rightarrow> string" where
  "memory_type_str t = (case t of MFact \<Rightarrow> ''fact'' | MDecision \<Rightarrow> ''decision'' | MPreference \<Rightarrow> ''preference'' | MLearning \<Rightarrow> ''learning''
     | MSummary \<Rightarrow> ''summary'' | MProcedure \<Rightarrow> ''procedure'' | MEntity \<Rightarrow> ''entity'')"

definition memory_type_parse :: "string \<Rightarrow> memory_type" where
  "memory_type_parse s = (let l = map to_ascii_lowercase (trim s) in
     if l = ''decision'' then MDecision else if l = ''preference'' then MPreference else if l = ''learning'' then MLearning
     else if l = ''summary'' then MSummary else if l = ''procedure'' then MProcedure else if l = ''entity'' then MEntity else MFact)"

datatype memory_status = MActive | MBackground | MArchived

definition memory_status_str :: "memory_status \<Rightarrow> string" where
  "memory_status_str s = (case s of MActive \<Rightarrow> ''active'' | MBackground \<Rightarrow> ''background'' | MArchived \<Rightarrow> ''archived'')"

record 'f recall_filter =
  rf_realms :: "string list"
  rf_type :: "memory_type option"
  rf_statuses :: "memory_status list"
  rf_tags :: "string list"
  rf_importance_min :: "'f option"
  rf_since :: "string option"
  rf_until :: "string option"
  rf_as_of :: "string option"
  rf_include_invalidated :: bool
  rf_space_agent :: "string option"

definition recall_filter_default :: "'f recall_filter" where
  "recall_filter_default = \<lparr>rf_realms = [], rf_type = None, rf_statuses = [], rf_tags = [], rf_importance_min = None, rf_since = None,
     rf_until = None, rf_as_of = None, rf_include_invalidated = False, rf_space_agent = None\<rparr>"

text \<open>\<open>Display\<close> of \<open>f32\<close> and \<open>f64\<close>, the conversion between them, and the test for a positive number.\<close>

record ('f, 'd) numerals =
  show_f32 :: "'f \<Rightarrow> string"
  widen :: "'f \<Rightarrow> 'd"
  show_f64 :: "'d \<Rightarrow> string"
  above_zero :: "'d \<Rightarrow> bool"

definition numerals_ok :: "('f, 'd) numerals \<Rightarrow> bool" where
  "numerals_ok nm \<longleftrightarrow> (\<forall>x. clause (show_f32 nm x)) \<and> (\<forall>x. clause (show_f64 nm x))"

section \<open>Conditions\<close>

definition sql_str :: "string \<Rightarrow> string" where
  "sql_str s = [squote] @ double_quotes squote s @ [squote]"

definition str_list :: "string list \<Rightarrow> string" where
  "str_list xs = join '', '' (map sql_str xs)"

text \<open>\<open>s.replace('%', "").replace('_', "")\<close>\<close>

definition like_needle :: "string \<Rightarrow> string" where
  "like_needle s = filter (\<lambda>c. c \<noteq> CHR ''_'') (filter (\<lambda>c. c \<noteq> CHR ''%'') s)"

definition opt_list :: "'a option \<Rightarrow> 'a list" where
  "opt_list x = (case x of None \<Rightarrow> [] | Some y \<Rightarrow> [y])"

definition filter_conditions :: "('f, 'd) numerals \<Rightarrow> 'f recall_filter \<Rightarrow> bool \<Rightarrow> string list" where
  "filter_conditions nm f default_non_archived =
     (if rf_statuses f = [] then (if default_non_archived then [''status <> '' @ [squote] @ ''archived'' @ [squote]] else [])
      else [''status IN '' @ paren (str_list (map memory_status_str (rf_statuses f)))]) @
     (if rf_realms f = [] then [] else [''realm IN '' @ paren (str_list (rf_realms f))]) @
     map (\<lambda>t. ''memory_type = '' @ sql_str (memory_type_str t)) (opt_list (rf_type f)) @
     map (\<lambda>x. ''importance >= '' @ show_f64 nm (widen nm x)) (opt_list (rf_importance_min f)) @
     map (\<lambda>x. ''created_at >= '' @ sql_str x) (opt_list (rf_since f)) @
     map (\<lambda>x. ''created_at <= '' @ sql_str x) (opt_list (rf_until f)) @
     map (\<lambda>t. ''tags LIKE '' @ sql_str (''%'' @ like_needle t @ ''%'')) (rf_tags f) @
     (if rf_include_invalidated f then []
      else case rf_as_of f of
        Some t \<Rightarrow> [paren (''invalid_at IS NULL OR invalid_at > '' @ sql_str t), paren (''valid_at IS NULL OR valid_at <= '' @ sql_str t)]
      | None \<Rightarrow> [''invalid_at IS NULL''])"

definition space_condition :: "'f recall_filter \<Rightarrow> string option" where
  "space_condition f = map_option (\<lambda>a. paren (''space IS NULL OR space = '' @ [squote] @ ''public'' @ [squote] @ '' OR space = '' @ sql_str (''private:'' @ a)))
     (rf_space_agent f)"

text \<open>The conditions, or one that always holds.\<close>

definition or_true :: "string list \<Rightarrow> string list" where
  "or_true cs = (if cs = [] then [''1 = 1''] else cs)"

definition id_condition :: "string list \<Rightarrow> string" where
  "id_condition ids = (if ids = [] then ''1 = 0'' else ''id IN '' @ paren (str_list ids))"

section \<open>Queries\<close>

definition newline :: string where
  "newline = [CHR 0x0A]"

definition make_array :: "('f, 'd) numerals \<Rightarrow> 'f list \<Rightarrow> string" where
  "make_array nm emb = ''make_array'' @ paren (join '', '' (map (show_f32 nm) emb))"

text \<open>The latest version of every node, the first table expression of the queries.\<close>

definition latest_cte :: "string \<Rightarrow> string" where
  "latest_cte nt = ''WITH latest AS '' @ paren (newline @ ''  SELECT *, row_number() OVER (PARTITION BY id ORDER BY updated_at DESC) AS __rn FROM '' @ nt @ newline)"

definition node_columns :: string where
  "node_columns = ''id, memory_type, title, content, content_preview, tags, importance, status, realm, created_at, valid_at, invalid_at''"

definition distance_sql :: "string \<Rightarrow> string" where
  "distance_sql arr = ''cosine_distance'' @ paren (''embedding, '' @ arr)"

definition scored_query :: "string \<Rightarrow> string \<Rightarrow> string \<Rightarrow> string \<Rightarrow> string \<Rightarrow> string \<Rightarrow> nat \<Rightarrow> string" where
  "scored_query nt score ann result wc order limit =
     latest_cte nt @ '', scored AS '' @ paren (newline @ ''  SELECT '' @ node_columns @ '', space, '' @ score @ newline @ ''  FROM latest WHERE __rn = 1'' @ ann @ newline) @
     '' SELECT '' @ node_columns @ '', '' @ result @ '' FROM scored WHERE '' @ wc @ '' ORDER BY '' @ order @ '' LIMIT '' @ show_nat limit"

definition blended :: string where
  "blended = ''distance, (0.7 * (1 - distance) + 0.3 * importance) AS score''"

definition recall_sql :: "('f, 'd) numerals \<Rightarrow> string \<Rightarrow> 'f list \<Rightarrow> 'f recall_filter \<Rightarrow> nat \<Rightarrow> 'd option \<Rightarrow> string" where
  "recall_sql nm nt emb f limit ann_threshold =
     (let arr = make_array nm emb;
          conds = or_true (filter_conditions nm f True @ opt_list (space_condition f));
          ann = (case ann_threshold of Some t \<Rightarrow> if above_zero nm t then '' AND '' @ distance_sql arr @ '' < '' @ show_f64 nm t else [] | None \<Rightarrow> [])
      in scored_query nt (distance_sql arr @ '' AS distance'') ann blended (join '' AND '' conds) ''score DESC'' limit)"

definition recall_sql_for_ids :: "('f, 'd) numerals \<Rightarrow> string \<Rightarrow> 'f list \<Rightarrow> 'f recall_filter \<Rightarrow> nat \<Rightarrow> string list \<Rightarrow> string" where
  "recall_sql_for_ids nm nt emb f limit ids =
     scored_query nt (distance_sql (make_array nm emb) @ '' AS distance'') [] blended
       (join '' AND '' (filter_conditions nm f True @ [id_condition ids] @ opt_list (space_condition f))) ''score DESC'' limit"

definition list_sql :: "('f, 'd) numerals \<Rightarrow> string \<Rightarrow> 'f recall_filter \<Rightarrow> nat \<Rightarrow> nat \<Rightarrow> string" where
  "list_sql nm nt f limit offset =
     latest_cte nt @ '' SELECT id, memory_type, title, content_preview, tags, importance, status, realm, created_at FROM latest WHERE __rn = 1 AND '' @
     join '' AND '' (or_true (filter_conditions nm f True)) @ '' ORDER BY created_at DESC LIMIT '' @ show_nat limit @ '' OFFSET '' @ show_nat offset"

definition latest_node_sql :: "string \<Rightarrow> string \<Rightarrow> string" where
  "latest_node_sql nt node_id =
     latest_cte nt @ '' SELECT id, labels, realm, memory_type, title, content, content_preview, tags, importance, status, source_session_id, source_run_id, embedding, created_at, updated_at, valid_at, invalid_at, superseded_by, provenance, topic_key FROM latest WHERE __rn = 1 AND id = '' @ sql_str node_id"

definition token_score :: "string \<Rightarrow> string" where
  "token_score t = (let n = sql_str (''%'' @ like_needle t @ ''%'') in
     paren (''CASE WHEN lower(content) LIKE '' @ n @ '' OR lower(title) LIKE '' @ n @ '' OR lower(tags) LIKE '' @ n @ '' THEN 1 ELSE 0 END''))"

definition score_expr :: "string list \<Rightarrow> string" where
  "score_expr tokens = (if tokens = [] then ''0'' else join '' + '' (map token_score tokens))"

definition keyword_recall_sql :: "('f, 'd) numerals \<Rightarrow> string \<Rightarrow> string list \<Rightarrow> 'f recall_filter \<Rightarrow> nat \<Rightarrow> string" where
  "keyword_recall_sql nm nt tokens f limit =
     scored_query nt (paren (score_expr tokens) @ '' AS kw_score'') [] ''kw_score''
       (join '' AND '' (or_true (filter_conditions nm f True @ opt_list (space_condition f))) @ '' AND kw_score > 0'') ''kw_score DESC, importance DESC'' limit"

definition keyword_recall_sql_for_ids :: "('f, 'd) numerals \<Rightarrow> string \<Rightarrow> string list \<Rightarrow> 'f recall_filter \<Rightarrow> nat \<Rightarrow> string list \<Rightarrow> string" where
  "keyword_recall_sql_for_ids nm nt tokens f limit ids =
     scored_query nt (paren (score_expr tokens) @ '' AS kw_score'') [] ''kw_score''
       (join '' AND '' (filter_conditions nm f True @ [id_condition ids] @ opt_list (space_condition f))) ''kw_score DESC, importance DESC'' limit"

definition realm_condition :: "string list \<Rightarrow> string list" where
  "realm_condition realms = (if realms = [] then [] else [''realm IN '' @ paren (str_list realms)])"

definition neighbors_sql :: "string \<Rightarrow> string list \<Rightarrow> string list \<Rightarrow> nat \<Rightarrow> string" where
  "neighbors_sql et seeds realms limit =
     ''SELECT src, dst, type, realm, target_namespace FROM '' @ et @ '' WHERE '' @
     join '' AND '' (paren (''src IN '' @ paren (str_list seeds) @ '' OR dst IN '' @ paren (str_list seeds)) # realm_condition realms) @ '' LIMIT '' @ show_nat limit"

definition nodes_by_id_sql :: "string \<Rightarrow> string list \<Rightarrow> string" where
  "nodes_by_id_sql nt ids =
     latest_cte nt @ '' SELECT id, memory_type, title, content_preview, tags, importance, status, realm, created_at, valid_at, invalid_at FROM latest WHERE __rn = 1 AND id IN '' @
     paren (str_list ids) @ '' AND invalid_at IS NULL''"

definition embeddings_by_id_sql :: "string \<Rightarrow> string list \<Rightarrow> string" where
  "embeddings_by_id_sql nt ids = latest_cte nt @ '' SELECT id, embedding FROM latest WHERE __rn = 1 AND id IN '' @ paren (str_list ids)"

definition nearest_activity_sql :: "('f, 'd) numerals \<Rightarrow> string \<Rightarrow> 'f list \<Rightarrow> string list \<Rightarrow> 'd \<Rightarrow> nat \<Rightarrow> string" where
  "nearest_activity_sql nm nt emb realms max_distance limit =
     (let arr = make_array nm emb in
      ''SELECT id, content_preview, created_at, '' @ distance_sql arr @ '' AS distance FROM '' @ nt @ '' WHERE '' @
      join '' AND '' ((distance_sql arr @ '' < '' @ show_f64 nm max_distance) # realm_condition realms) @ '' ORDER BY distance ASC LIMIT '' @ show_nat limit)"

definition edges_into_sql :: "string \<Rightarrow> string \<Rightarrow> string \<Rightarrow> nat \<Rightarrow> string" where
  "edges_into_sql et dst_id rel_type limit =
     ''SELECT src FROM '' @ et @ '' WHERE dst = '' @ sql_str dst_id @ '' AND type = '' @ sql_str rel_type @ '' LIMIT '' @ show_nat limit"

definition source_summary_sql :: "string \<Rightarrow> string" where
  "source_summary_sql nt =
     latest_cte nt @ '' SELECT provenance, realm, count(*) AS n FROM latest WHERE __rn = 1 AND status <> '' @ [squote] @ ''archived'' @ [squote] @ '' GROUP BY provenance, realm''"

section \<open>Single statements\<close>

lemma scan_shift: "sql_scan (m, d) s = Some (m', d') \<Longrightarrow> sql_scan (m, d + k) s = Some (m', d' + k)"
proof (induction s arbitrary: m d)
  case (Cons c cs)
  obtain m1 d1 where step: "sql_step (m, d) c = Some (m1, d1)" "sql_scan (m1, d1) cs = Some (m', d')"
    using Cons.prems by (auto simp: bind_eq_Some_conv)
  from step(1) have "sql_step (m, d + k) c = Some (m1, d1 + k)" by (auto simp: sql_step_def split: if_splits)
  then show ?case using Cons.IH [OF step(2)] by simp
qed simp

text \<open>For a text that is given, it is enough to scan it.\<close>

lemma scanned: "sql_scan (Out, 0) s = Some (Out, 0) \<Longrightarrow> clause s"
  using scan_shift [of Out 0 s Out 0] by (simp add: clause_def)

lemma pieces:
  "clause (sql_str s)" "clause x \<Longrightarrow> clause (paren x)" "clause (show_nat n)" "clause (str_list xs)" "ident_ok nt \<Longrightarrow> clause nt"
proof -
  show str: "clause (sql_str s)" for s unfolding sql_str_def by (rule frag_clause [OF quoted_frag(1)])
  show "clause x \<Longrightarrow> clause (paren x)" by (rule frag_clause [OF paren_frag])
  show "clause (show_nat n)" by (rule frag_clause [OF show_nat_frag])
  show "clause (str_list xs)" unfolding str_list_def by (rule join_clause [OF _ comma_clause]) (auto simp: list_all_iff str)
  show "ident_ok nt \<Longrightarrow> clause nt" by (rule frag_clause [OF ident_frag])
qed

lemma and_clause: "list_all clause cs \<Longrightarrow> clause (join '' AND '' cs)"
proof (rule join_clause)
  show "clause '' AND ''" by (rule scanned) code_simp
qed

lemma tag_clause: "clause (''tags LIKE '' @ sql_str x)"
proof (rule clause_append [OF _ pieces(1)])
  show "clause ''tags LIKE ''" by (rule scanned) code_simp
qed

lemma conditions_clause:
  assumes "numerals_ok nm"
  shows "list_all clause (filter_conditions nm f d)"
proof -
  have n: "clause (show_f64 nm x)" for x using assms by (simp add: numerals_ok_def)
  have lits: "clause ''status <> ''" "clause ''status IN ''" "clause ''realm IN ''" "clause ''memory_type = ''" "clause ''importance >= ''" "clause ''created_at >= ''"
    "clause ''created_at <= ''" "clause ''invalid_at IS NULL OR invalid_at > ''" "clause ''valid_at IS NULL OR valid_at <= ''" "clause ''invalid_at IS NULL''"
    by (rule scanned, code_simp)+
  have archived: "clause ([squote] @ ''archived'' @ [squote])" by (rule scanned) code_simp
  have "list_all clause (map g xs)" if "\<And>x. clause (g x)" for g :: "'x \<Rightarrow> string" and xs using that by (simp add: list_all_iff)
  note maps = this
  have status: "list_all clause (if rf_statuses f = [] then (if d then [''status <> '' @ [squote] @ ''archived'' @ [squote]] else [])
      else [''status IN '' @ paren (str_list (map memory_status_str (rf_statuses f)))])"
    using clause_append [OF lits(1) archived] clause_append [OF lits(2) pieces(2) [OF pieces(4)]] by (simp only: list.pred_inject simp_thms split: if_split)
  have realm: "list_all clause (if rf_realms f = [] then [] else [''realm IN '' @ paren (str_list (rf_realms f))])"
    using clause_append [OF lits(3) pieces(2) [OF pieces(4)]] by (simp only: list.pred_inject simp_thms split: if_split)
  have valid: "list_all clause (if rf_include_invalidated f then []
      else case rf_as_of f of
        Some t \<Rightarrow> [paren (''invalid_at IS NULL OR invalid_at > '' @ sql_str t), paren (''valid_at IS NULL OR valid_at <= '' @ sql_str t)]
      | None \<Rightarrow> [''invalid_at IS NULL''])"
    using pieces(2) [OF clause_append [OF lits(8) pieces(1)]] pieces(2) [OF clause_append [OF lits(9) pieces(1)]] lits(10)
    by (simp only: list.pred_inject simp_thms option.case split: if_split option.split)
  show ?thesis unfolding filter_conditions_def list_all_append
    by (intro conjI status realm valid maps clause_append lits pieces(1) n tag_clause)
qed

lemma more_conditions:
  "list_all clause cs \<Longrightarrow> list_all clause (or_true cs)"
  "list_all clause (opt_list (space_condition f))"
  "clause (id_condition ids)"
  "list_all clause (realm_condition realms)"
proof -
  have lits: "clause ''1 = 1''" "clause ''1 = 0''" "clause ''id IN ''" "clause ''realm IN ''" "clause ''space IS NULL OR space = ''"
    "clause ([squote] @ ''public'' @ [squote] @ '' OR space = '')" by (rule scanned, code_simp)+
  show "list_all clause cs \<Longrightarrow> list_all clause (or_true cs)" using lits(1) by (simp only: or_true_def list.pred_inject simp_thms split: if_split)
  have "clause (paren (''space IS NULL OR space = '' @ ([squote] @ ''public'' @ [squote] @ '' OR space = '') @ sql_str x))" for x
    by (intro pieces(2) clause_append lits pieces(1))
  then have space: "clause (paren (''space IS NULL OR space = '' @ [squote] @ ''public'' @ [squote] @ '' OR space = '' @ sql_str x))" for x
    by (simp only: append_assoc)
  show "list_all clause (opt_list (space_condition f))"
    unfolding space_condition_def opt_list_def using space by (cases "rf_space_agent f") (simp_all only: option.map option.case list.pred_inject simp_thms)
  have "clause (''id IN '' @ paren (str_list ids))" "clause (''realm IN '' @ paren (str_list realms))" by (intro clause_append lits pieces(2,4))+
  then show "clause (id_condition ids)" "list_all clause (realm_condition realms)"
    using lits(2) by (simp_all only: id_condition_def realm_condition_def list.pred_inject simp_thms split: if_split)
qed

lemma latest_clause: "clause nt \<Longrightarrow> clause (latest_cte nt)"
proof -
  have lits: "clause ''WITH latest AS ''" "clause newline"
    "clause ''  SELECT *, row_number() OVER (PARTITION BY id ORDER BY updated_at DESC) AS __rn FROM ''" by (rule scanned, code_simp)+
  show "clause nt \<Longrightarrow> clause (latest_cte nt)" unfolding latest_cte_def by (intro clause_append lits pieces(2))
qed

lemma array_clauses:
  assumes "numerals_ok nm"
  shows "clause (make_array nm emb)" "clause (distance_sql (make_array nm emb))" "clause (show_f64 nm t)"
proof -
  have lits: "clause ''make_array''" "clause ''cosine_distance''" "clause ''embedding, ''" by (rule scanned, code_simp)+
  have "list_all clause (map (show_f32 nm) emb)" using assms by (simp add: numerals_ok_def list_all_iff)
  then show a: "clause (make_array nm emb)" unfolding make_array_def by (intro clause_append lits pieces(2) join_clause comma_clause)
  show "clause (distance_sql (make_array nm emb))" unfolding distance_sql_def by (intro clause_append lits pieces(2) a)
  show "clause (show_f64 nm t)" using assms by (simp add: numerals_ok_def)
qed

lemma scored_clause:
  assumes "clause nt" "clause score" "clause ann" "clause result" "clause wc" "clause order"
  shows "clause (scored_query nt score ann result wc order limit)"
proof -
  have lits: "clause '', scored AS ''" "clause newline" "clause ''  SELECT ''" "clause node_columns" "clause '', space, ''" "clause ''  FROM latest WHERE __rn = 1''"
    "clause '' SELECT ''" "clause '', ''" "clause '' FROM scored WHERE ''" "clause '' ORDER BY ''" "clause '' LIMIT ''" by (rule scanned, code_simp)+
  show ?thesis unfolding scored_query_def by (intro clause_append lits latest_clause assms pieces(2,3))
qed

lemma score_clause: "clause (paren (score_expr tokens))"
proof -
  have lits: "clause ''CASE WHEN lower(content) LIKE ''" "clause '' OR lower(title) LIKE ''" "clause '' OR lower(tags) LIKE ''"
    "clause '' THEN 1 ELSE 0 END''" "clause ''0''" "clause '' + ''" by (rule scanned, code_simp)+
  have "clause (token_score t)" for t unfolding token_score_def Let_def by (intro pieces(2) clause_append lits pieces(1))
  then have "list_all clause (map token_score tokens)" by (simp add: list_all_iff)
  then have "clause (join '' + '' (map token_score tokens))" by (rule join_clause) (rule lits)
  then show ?thesis using lits(5) by (intro pieces(2)) (simp only: score_expr_def simp_thms split: if_split)
qed

lemma where_clauses:
  assumes "numerals_ok nm"
  shows "clause (join '' AND '' (or_true (filter_conditions nm f True @ opt_list (space_condition f))))"
    and "clause (join '' AND '' (or_true (filter_conditions nm f True)))"
    and "clause (join '' AND '' (filter_conditions nm f True @ [id_condition ids] @ opt_list (space_condition f)))"
  using conditions_clause [OF assms] more_conditions(2) more_conditions(3)
  by (auto intro!: and_clause more_conditions(1))

lemma realm_where: "clause c \<Longrightarrow> clause (join '' AND '' (c # realm_condition realms))"
  using more_conditions(4) by (intro and_clause) (simp only: list.pred_inject simp_thms)

lemma recall_clauses:
  assumes nm: "numerals_ok nm" and nt: "clause nt"
  shows "clause (recall_sql nm nt emb f limit ann)" and "clause (recall_sql_for_ids nm nt emb f limit ids)"
proof -
  have lits: "clause '' AS distance''" "clause '' AND ''" "clause '' < ''" "clause blended" "clause ''score DESC''" by (rule scanned, code_simp)+
  show "clause (recall_sql nm nt emb f limit ann)" unfolding recall_sql_def Let_def
    by (intro scored_clause nt lits where_clauses clause_append array_clauses nm)
      (cases ann; simp only: option.case split: if_split; intro conjI impI clause_Nil clause_append lits array_clauses nm)
  show "clause (recall_sql_for_ids nm nt emb f limit ids)" unfolding recall_sql_for_ids_def
    by (intro scored_clause nt lits where_clauses clause_append array_clauses nm clause_Nil)
qed

lemma keyword_clauses:
  assumes nm: "numerals_ok nm" and nt: "clause nt"
  shows "clause (keyword_recall_sql nm nt tokens f limit)" and "clause (keyword_recall_sql_for_ids nm nt tokens f limit ids)"
proof -
  have lits: "clause ''kw_score''" "clause '' AS kw_score''" "clause '' AND kw_score > 0''" "clause ''kw_score DESC, importance DESC''" by (rule scanned, code_simp)+
  show "clause (keyword_recall_sql nm nt tokens f limit)" "clause (keyword_recall_sql_for_ids nm nt tokens f limit ids)"
    unfolding keyword_recall_sql_def keyword_recall_sql_for_ids_def
    by (intro scored_clause nt lits where_clauses clause_append score_clause clause_Nil nm)+
qed

lemma list_clause:
  assumes nm: "numerals_ok nm" and nt: "clause nt"
  shows "clause (list_sql nm nt f limit offset)"
proof -
  have lits: "clause '' SELECT id, memory_type, title, content_preview, tags, importance, status, realm, created_at FROM latest WHERE __rn = 1 AND ''"
    "clause '' ORDER BY created_at DESC LIMIT ''" "clause '' OFFSET ''" by (rule scanned, code_simp)+
  show ?thesis unfolding list_sql_def by (intro clause_append latest_clause nt lits where_clauses nm pieces(3))
qed

lemma node_clauses:
  assumes nt: "clause nt"
  shows "clause (latest_node_sql nt node_id)" and "clause (nodes_by_id_sql nt ids)" and "clause (embeddings_by_id_sql nt ids)" and "clause (source_summary_sql nt)"
proof -
  have lits: "clause '' SELECT id, labels, realm, memory_type, title, content, content_preview, tags, importance, status, source_session_id, source_run_id, embedding, created_at, updated_at, valid_at, invalid_at, superseded_by, provenance, topic_key FROM latest WHERE __rn = 1 AND id = ''"
    "clause '' SELECT id, memory_type, title, content_preview, tags, importance, status, realm, created_at, valid_at, invalid_at FROM latest WHERE __rn = 1 AND id IN ''"
    "clause '' AND invalid_at IS NULL''" "clause '' SELECT id, embedding FROM latest WHERE __rn = 1 AND id IN ''"
    "clause ('' SELECT provenance, realm, count(*) AS n FROM latest WHERE __rn = 1 AND status <> '' @ [squote] @ ''archived'' @ [squote] @ '' GROUP BY provenance, realm'')"
    by (rule scanned, code_simp)+
  show "clause (latest_node_sql nt node_id)" "clause (nodes_by_id_sql nt ids)" "clause (embeddings_by_id_sql nt ids)"
    unfolding latest_node_sql_def nodes_by_id_sql_def embeddings_by_id_sql_def by (intro clause_append latest_clause nt lits pieces(1,2,4))+
  show "clause (source_summary_sql nt)" unfolding source_summary_sql_def by (rule clause_append [OF latest_clause [OF nt] lits(5)])
qed

lemma edge_clauses:
  assumes nt: "clause nt"
  shows "clause (neighbors_sql nt ids realms limit)" and "clause (edges_into_sql nt dst_id rel_type limit)"
proof -
  have lits: "clause ''SELECT src, dst, type, realm, target_namespace FROM ''" "clause '' WHERE ''" "clause ''src IN ''" "clause '' OR dst IN ''" "clause '' LIMIT ''"
    "clause ''SELECT src FROM ''" "clause '' WHERE dst = ''" "clause '' AND type = ''" by (rule scanned, code_simp)+
  show "clause (neighbors_sql nt ids realms limit)" unfolding neighbors_sql_def
    by (intro clause_append realm_where lits nt pieces(2,3,4))
  show "clause (edges_into_sql nt dst_id rel_type limit)" unfolding edges_into_sql_def by (intro clause_append lits nt pieces(1,3))
qed

lemma nearest_clause:
  assumes nm: "numerals_ok nm" and nt: "clause nt"
  shows "clause (nearest_activity_sql nm nt emb realms max_distance limit)"
proof -
  have lits: "clause ''SELECT id, content_preview, created_at, ''" "clause '' AS distance FROM ''" "clause '' ORDER BY distance ASC LIMIT ''"
    "clause '' WHERE ''" "clause '' < ''" by (rule scanned, code_simp)+
  show ?thesis unfolding nearest_activity_sql_def Let_def by (intro clause_append realm_where lits nt array_clauses nm pieces(3))
qed

text \<open>
  C26: every query of the agent memory is one statement: quotes are closed, parentheses match, and no
  semicolon or comment stands outside of literals, whatever the realms, tags, instants, identifiers and
  search words are.
\<close>

theorem memory_single_statement:
  assumes "numerals_ok nm" and "ident_ok nt"
  shows "list_all single_statement
    [recall_sql nm nt emb f limit ann, recall_sql_for_ids nm nt emb f limit ids, keyword_recall_sql nm nt tokens f limit,
     keyword_recall_sql_for_ids nm nt tokens f limit ids, list_sql nm nt f limit offset, latest_node_sql nt node_id,
     neighbors_sql nt ids realms limit, nodes_by_id_sql nt ids, embeddings_by_id_sql nt ids,
     nearest_activity_sql nm nt emb realms max_distance limit, edges_into_sql nt dst_id rel_type limit, source_summary_sql nt]"
  using assms(1) pieces(5) [OF assms(2)]
  by (simp add: clause_single recall_clauses keyword_clauses list_clause node_clauses edge_clauses nearest_clause)

section \<open>What a filter admits\<close>

text \<open>The patterns of \<open>LIKE\<close>: a per cent sign for any text, an underscore for any character, a backslash before either for itself.\<close>

fun like :: "string \<Rightarrow> string \<Rightarrow> bool" where
  "like [] t \<longleftrightarrow> t = []"
| "like (p # ps) t \<longleftrightarrow>
     (if p = CHR ''%'' then like ps t \<or> (case t of [] \<Rightarrow> False | _ # cs \<Rightarrow> like (p # ps) cs)
      else if p = backslash then (case ps of [] \<Rightarrow> t = [backslash] | e # es \<Rightarrow> (case t of [] \<Rightarrow> False | c # cs \<Rightarrow> c = e \<and> like es cs))
      else (case t of [] \<Rightarrow> False | c # cs \<Rightarrow> (p = CHR ''_'' \<or> c = p) \<and> like ps cs))"

text \<open>The conditions of the queries, their text and what they mean of a row, a missing value being \<open>NULL\<close>.\<close>

datatype 'd sql_condition =
  InList string "string list" | Compare string string string | AtLeast string 'd | Like string string | IsNull string | NullOr string string string

record 'd memory_row =
  mr_text :: "string \<Rightarrow> string option"
  mr_number :: "string \<Rightarrow> 'd option"

definition condition_text :: "('f, 'd) numerals \<Rightarrow> 'd sql_condition \<Rightarrow> string" where
  "condition_text nm c = (case c of
     InList col vs \<Rightarrow> col @ '' IN '' @ paren (str_list vs)
   | Compare col op v \<Rightarrow> col @ '' '' @ op @ '' '' @ sql_str v
   | AtLeast col x \<Rightarrow> col @ '' >= '' @ show_f64 nm x
   | Like col p \<Rightarrow> col @ '' LIKE '' @ sql_str p
   | IsNull col \<Rightarrow> col @ '' IS NULL''
   | NullOr col op v \<Rightarrow> paren (col @ '' IS NULL OR '' @ col @ '' '' @ op @ '' '' @ sql_str v))"

definition compares :: "string \<Rightarrow> string \<Rightarrow> string \<Rightarrow> bool" where
  "compares op v w \<longleftrightarrow> (if op = ''='' then v = w else if op = ''<>'' then v \<noteq> w else if op = ''>='' then w \<le> v else if op = ''<='' then v \<le> w else w < v)"

definition condition_holds :: "('d \<Rightarrow> 'd \<Rightarrow> bool) \<Rightarrow> 'd memory_row \<Rightarrow> 'd sql_condition \<Rightarrow> bool" where
  "condition_holds ge r c = (case c of
     InList col vs \<Rightarrow> (\<exists>v \<in> set vs. mr_text r col = Some v)
   | Compare col op w \<Rightarrow> (case mr_text r col of None \<Rightarrow> False | Some v \<Rightarrow> compares op v w)
   | AtLeast col x \<Rightarrow> (case mr_number r col of None \<Rightarrow> False | Some y \<Rightarrow> ge y x)
   | Like col p \<Rightarrow> (case mr_text r col of None \<Rightarrow> False | Some v \<Rightarrow> like p v)
   | IsNull col \<Rightarrow> mr_text r col = None
   | NullOr col op w \<Rightarrow> (case mr_text r col of None \<Rightarrow> True | Some v \<Rightarrow> compares op v w))"

definition parsed_conditions :: "('f, 'd) numerals \<Rightarrow> 'f recall_filter \<Rightarrow> 'd sql_condition list" where
  "parsed_conditions nm f =
     [if rf_statuses f = [] then Compare ''status'' ''<>'' ''archived'' else InList ''status'' (map memory_status_str (rf_statuses f))] @
     (if rf_realms f = [] then [] else [InList ''realm'' (rf_realms f)]) @
     map (\<lambda>t. Compare ''memory_type'' ''='' (memory_type_str t)) (opt_list (rf_type f)) @
     map (\<lambda>x. AtLeast ''importance'' (widen nm x)) (opt_list (rf_importance_min f)) @
     map (Compare ''created_at'' ''>='') (opt_list (rf_since f)) @ map (Compare ''created_at'' ''<='') (opt_list (rf_until f)) @
     map (\<lambda>t. Like ''tags'' (''%'' @ like_needle t @ ''%'')) (rf_tags f) @
     (if rf_include_invalidated f then []
      else case rf_as_of f of Some t \<Rightarrow> [NullOr ''invalid_at'' ''>'' t, NullOr ''valid_at'' ''<='' t] | None \<Rightarrow> [IsNull ''invalid_at''])"

text \<open>What the documentation of the filter says; instants are compared as texts.\<close>

definition admits :: "('f, 'd) numerals \<Rightarrow> ('d \<Rightarrow> 'd \<Rightarrow> bool) \<Rightarrow> 'f recall_filter \<Rightarrow> 'd memory_row \<Rightarrow> bool" where
  "admits nm ge f r \<longleftrightarrow>
     (\<exists>s. mr_text r ''status'' = Some s \<and> (if rf_statuses f = [] then s \<noteq> ''archived'' else s \<in> memory_status_str ` set (rf_statuses f))) \<and>
     (rf_realms f \<noteq> [] \<longrightarrow> (\<exists>x \<in> set (rf_realms f). mr_text r ''realm'' = Some x)) \<and>
     (\<forall>t. rf_type f = Some t \<longrightarrow> mr_text r ''memory_type'' = Some (memory_type_str t)) \<and>
     (\<forall>x. rf_importance_min f = Some x \<longrightarrow> (\<exists>y. mr_number r ''importance'' = Some y \<and> ge y (widen nm x))) \<and>
     (\<forall>x. rf_since f = Some x \<longrightarrow> (\<exists>y. mr_text r ''created_at'' = Some y \<and> x \<le> y)) \<and>
     (\<forall>x. rf_until f = Some x \<longrightarrow> (\<exists>y. mr_text r ''created_at'' = Some y \<and> y \<le> x)) \<and>
     (\<forall>t \<in> set (rf_tags f). \<exists>y. mr_text r ''tags'' = Some y \<and> sublist (like_needle t) y) \<and>
     (\<not> rf_include_invalidated f \<longrightarrow> (case rf_as_of f of
        None \<Rightarrow> mr_text r ''invalid_at'' = None
      | Some t \<Rightarrow> (\<forall>y. mr_text r ''invalid_at'' = Some y \<longrightarrow> t < y) \<and> (\<forall>y. mr_text r ''valid_at'' = Some y \<longrightarrow> y \<le> t)))"

lemma like_any: "like ''%'' t"
  by (induction t) auto

lemma like_prefix: "list_all (\<lambda>c. c \<noteq> CHR ''%'' \<and> c \<noteq> CHR ''_'' \<and> c \<noteq> backslash) n \<Longrightarrow> like (n @ ''%'') t \<longleftrightarrow> prefix n t"
proof (induction n arbitrary: t)
  case Nil
  then show ?case using like_any by simp
next
  case (Cons c n)
  then show ?case by (cases t) auto
qed

lemma like_sublist:
  assumes "list_all (\<lambda>c. c \<noteq> CHR ''%'' \<and> c \<noteq> CHR ''_'' \<and> c \<noteq> backslash) n"
  shows "like (''%'' @ n @ ''%'') t \<longleftrightarrow> sublist n t"
proof (induction t)
  case Nil
  then show ?case using like_prefix [OF assms, of "[]"] by simp
next
  case (Cons c t)
  have "like (''%'' @ n @ ''%'') (c # t) \<longleftrightarrow> like (n @ ''%'') (c # t) \<or> like (''%'' @ n @ ''%'') t" by simp
  then show ?case unfolding Cons like_prefix [OF assms] by (simp add: sublist_Cons_right)
qed

lemma needle_plain: "backslash \<notin> set t \<Longrightarrow> list_all (\<lambda>c. c \<noteq> CHR ''%'' \<and> c \<noteq> CHR ''_'' \<and> c \<noteq> backslash) (like_needle t)"
  by (auto simp: like_needle_def list_all_iff)


section \<open>Examples\<close>

definition ex_numerals :: "(string, string) numerals" where
  "ex_numerals = \<lparr>show_f32 = show_nat \<circ> length, widen = id, show_f64 = show_nat \<circ> length, above_zero = (\<lambda>x. x \<noteq> [])\<rparr>"

lemma ex_numerals_ok: "numerals_ok ex_numerals"
  by (simp add: numerals_ok_def ex_numerals_def pieces(3))

definition ex_filter :: "string recall_filter" where
  "ex_filter = recall_filter_default\<lparr>rf_realms := [''it'' @ [squote] @ ''s; --''], rf_tags := [''auth'']\<rparr>"

theorem memory_single_statement_witness:
  "single_statement (list_sql ex_numerals ''memory_nodes'' ex_filter 5 0) \<and> single_statement (edges_into_sql ''memory_nodes'' [squote] ''DERIVED_FROM'' 5)"
proof -
  have "ident_ok ''memory_nodes''" by code_simp
  from memory_single_statement [OF ex_numerals_ok this, where f = ex_filter and limit = 5 and offset = 0 and dst_id = "[squote]" and rel_type = "''DERIVED_FROM''"]
  show ?thesis by simp
qed

definition ex_memory :: "string memory_row" where
  "ex_memory = \<lparr>mr_text = [''status'' \<mapsto> ''active'', ''realm'' \<mapsto> ''it'' @ [squote] @ ''s; --'', ''tags'' \<mapsto> ''oauth,my_tag''], mr_number = Map.empty\<rparr>"

lemma ex_memory_conditions: "list_all (condition_holds (=) ex_memory) (parsed_conditions ex_numerals ex_filter)"
  by (simp add: ex_filter_def recall_filter_default_def parsed_conditions_def opt_list_def condition_holds_def ex_memory_def compares_def like_needle_def backslash_def)


text \<open>A tag with an underscore is looked for without it, and a memory that has the tag is not admitted.\<close>

lemma underscore_tag_missed:
  "mr_text ex_memory ''tags'' = Some ''oauth,my_tag''"
  "\<not> list_all (condition_holds (=) ex_memory) (parsed_conditions ex_numerals (recall_filter_default\<lparr>rf_tags := [''my_tag'']\<rparr>))"
  by (simp_all add: recall_filter_default_def parsed_conditions_def opt_list_def condition_holds_def ex_memory_def compares_def like_needle_def backslash_def)

text \<open>Archived memories are not always excluded: they are listed when their status is asked for.\<close>

lemma archived_listed:
  "list_all (condition_holds (=) (ex_memory\<lparr>mr_text := [''status'' \<mapsto> ''archived'']\<rparr>)) (parsed_conditions ex_numerals (recall_filter_default\<lparr>rf_statuses := [MArchived]\<rparr>))"
  by (simp add: recall_filter_default_def parsed_conditions_def opt_list_def condition_holds_def ex_memory_def memory_status_str_def)

text \<open>The listing takes no notice of the agent whose spaces may be seen: private memories of all agents are listed.\<close>

lemma list_ignores_space: "list_sql nm nt (f\<lparr>rf_space_agent := a\<rparr>) limit offset = list_sql nm nt (f\<lparr>rf_space_agent := b\<rparr>) limit offset"
  by (simp add: list_sql_def filter_conditions_def)

end
