(* ===== verification/Memory_Retrieve.thy ===== *)
theory Memory_Retrieve
  imports Memory_Sql
begin

text \<open>
  Recall of memories: the scope of a token (\<open>pensieve-server/src/auth/scope.rs\<close>) and the retrieval pipeline
  (\<open>agent/memory_retrieve.rs\<close>): candidates by vector and by keyword, their neighbours in the graph of memories, and the
  precedent.

  The query engine is a parameter, the rows it returns for a text; so are the embedding of the query, the candidates
  of the indexes, and the final ranking, which blends floating-point scores and may reorder and drop.

  Shown: a token restricted to some realms gets memories of these realms only, and nothing outside of the memory
  graph. Neighbours in the graph are not subject to the rest of the filter, as examples show.
\<close>

section \<open>Scopes\<close>

record principal =
  pr_databases :: "string list option"
  pr_realms :: "string list option"

definition check_database_scope :: "principal \<Rightarrow> string \<Rightarrow> string + unit" where
  "check_database_scope p db = (case pr_databases p of
     None \<Rightarrow> Inr ()
   | Some allowed \<Rightarrow> if db \<in> set allowed then Inr () else Inl (''token not scoped to database `'' @ db @ ''`''))"

text \<open>A \<open>RealmScope\<close>: the realms that a token may touch, or all.\<close>

type_synonym realm_scope = "string list option"

definition realm_allows :: "realm_scope \<Rightarrow> string \<Rightarrow> bool" where
  "realm_allows scope realm = (case scope of None \<Rightarrow> True | Some l \<Rightarrow> realm \<in> set l)"

datatype effective_realms = Unrestricted "string list" | Scoped "string list" | Nothing

definition intersect_realms :: "realm_scope \<Rightarrow> string list \<Rightarrow> effective_realms" where
  "intersect_realms scope requested = (case scope of
     None \<Rightarrow> Unrestricted requested
   | Some allowed \<Rightarrow>
       (let eff = (if requested = [] then allowed else filter (\<lambda>r. r \<in> set allowed) requested)
        in if eff = [] then Nothing else Scoped eff))"

definition check_realm_scope :: "principal \<Rightarrow> string \<Rightarrow> string + unit" where
  "check_realm_scope p realm = (case pr_realms p of
     None \<Rightarrow> Inr ()
   | Some allowed \<Rightarrow> if realm \<in> set allowed then Inr () else Inl (''token not scoped to realm `'' @ realm @ ''`''))"

definition MEMORY_DB :: string where
  "MEMORY_DB = ''memory''"

definition ACTIVITIES_DB :: string where
  "ACTIVITIES_DB = ''activities''"

definition is_memory_internal_db :: "string \<Rightarrow> bool" where
  "is_memory_internal_db db \<longleftrightarrow> db = MEMORY_DB \<or> db = ''file_candidates'' \<or> db = ACTIVITIES_DB"

section \<open>Candidates\<close>

record 'd cand =
  c_id :: string
  c_type :: string
  c_title :: "string option"
  c_preview :: string
  c_importance :: 'd
  c_realm :: string
  c_created :: "string option"
  c_valid :: "string option"
  c_invalid :: "string option"
  c_distance :: "'d option"
  c_kw :: "'d option"
  c_vec_rank :: "nat option"
  c_kw_rank :: "nat option"
  c_proximity :: 'd
  c_via :: "(string \<times> string \<times> nat) option"

text \<open>Numbers: zero, \<open>Value::as_f64\<close>, and the proximity \<open>1 / (1 + depth)\<close>.\<close>

record 'd scores =
  sc_zero :: 'd
  as_number :: "json \<Rightarrow> 'd option"
  hop_proximity :: "nat \<Rightarrow> 'd"

definition get_str :: "json \<Rightarrow> string \<Rightarrow> string option" where
  "get_str row k = Option.bind (json_get row k) json_as_str"

definition get_f64 :: "'d scores \<Rightarrow> json \<Rightarrow> string \<Rightarrow> 'd option" where
  "get_f64 sc row k = Option.bind (json_get row k) (as_number sc)"

definition or_default :: "'a \<Rightarrow> 'a option \<Rightarrow> 'a" where
  "or_default d x = (case x of None \<Rightarrow> d | Some y \<Rightarrow> y)"

definition empty_cand :: "'d scores \<Rightarrow> string \<Rightarrow> 'd cand" where
  "empty_cand sc i = \<lparr>c_id = i, c_type = [], c_title = None, c_preview = [], c_importance = sc_zero sc, c_realm = [], c_created = None, c_valid = None,
     c_invalid = None, c_distance = None, c_kw = None, c_vec_rank = None, c_kw_rank = None, c_proximity = sc_zero sc, c_via = None\<rparr>"

definition from_row :: "'d scores \<Rightarrow> json \<Rightarrow> 'd cand option" where
  "from_row sc row = map_option (\<lambda>i.
     \<lparr>c_id = i, c_type = or_default [] (get_str row ''memory_type''), c_title = get_str row ''title'', c_preview = or_default [] (get_str row ''content_preview''),
      c_importance = or_default (sc_zero sc) (get_f64 sc row ''importance''), c_realm = or_default [] (get_str row ''realm''),
      c_created = get_str row ''created_at'', c_valid = get_str row ''valid_at'', c_invalid = get_str row ''invalid_at'',
      c_distance = get_f64 sc row ''distance'', c_kw = get_f64 sc row ''kw_score'', c_vec_rank = None, c_kw_rank = None,
      c_proximity = sc_zero sc, c_via = None\<rparr>) (get_str row ''id'')"

definition graph_cand :: "'d scores \<Rightarrow> string \<Rightarrow> string \<Rightarrow> string \<Rightarrow> nat \<Rightarrow> 'd cand" where
  "graph_cand sc i seed etype depth = (empty_cand sc i)\<lparr>c_proximity := hop_proximity sc depth, c_via := Some (seed, etype, depth)\<rparr>"

definition hydrate :: "'d scores \<Rightarrow> json \<Rightarrow> 'd cand \<Rightarrow> 'd cand" where
  "hydrate sc row c = c\<lparr>c_type := or_default [] (get_str row ''memory_type''), c_title := get_str row ''title'',
     c_preview := or_default [] (get_str row ''content_preview''), c_importance := or_default (sc_zero sc) (get_f64 sc row ''importance''),
     c_realm := or_default [] (get_str row ''realm''), c_created := get_str row ''created_at'', c_valid := get_str row ''valid_at'', c_invalid := get_str row ''invalid_at''\<rparr>"

text \<open>The map of candidates, by identifier: a list in the order of insertion.\<close>

definition has_cand :: "string \<Rightarrow> 'd cand list \<Rightarrow> bool" where
  "has_cand i cs \<longleftrightarrow> i \<in> c_id ` set cs"

definition or_insert :: "'d cand \<Rightarrow> 'd cand list \<Rightarrow> 'd cand list" where
  "or_insert c cs = (if has_cand (c_id c) cs then cs else cs @ [c])"

definition change_cand :: "string \<Rightarrow> ('d cand \<Rightarrow> 'd cand) \<Rightarrow> 'd cand list \<Rightarrow> 'd cand list" where
  "change_cand i f cs = map (\<lambda>c. if c_id c = i then f c else c) cs"

definition remove_cand :: "string \<Rightarrow> 'd cand list \<Rightarrow> 'd cand list" where
  "remove_cand i cs = filter (\<lambda>c. c_id c \<noteq> i) cs"

definition merge_vec :: "'d scores \<Rightarrow> json list \<Rightarrow> 'd cand list \<Rightarrow> 'd cand list" where
  "merge_vec sc rows cs = fold (\<lambda>(rank, row) cs. case from_row sc row of None \<Rightarrow> cs | Some c \<Rightarrow> or_insert (c\<lparr>c_vec_rank := Some rank\<rparr>) cs)
     (enumerate 0 rows) cs"

definition merge_kw_row :: "'d scores \<Rightarrow> nat \<times> json \<Rightarrow> 'd cand list \<Rightarrow> 'd cand list" where
  "merge_kw_row sc rr cs = (case get_str (snd rr) ''id'' of
       None \<Rightarrow> cs
     | Some i \<Rightarrow> change_cand i (\<lambda>c. c\<lparr>c_kw_rank := Some (fst rr), c_kw := (case c_kw c of None \<Rightarrow> get_f64 sc (snd rr) ''kw_score'' | Some s \<Rightarrow> Some s)\<rparr>)
                 (or_insert (or_default (empty_cand sc i) (from_row sc (snd rr))) cs))"

definition merge_kw :: "'d scores \<Rightarrow> json list \<Rightarrow> 'd cand list \<Rightarrow> 'd cand list" where
  "merge_kw sc rows cs = fold (merge_kw_row sc) (enumerate 0 rows) cs"

section \<open>Neighbours\<close>

definition CAND_K :: nat where "CAND_K = 50"
definition SEED_N :: nat where "SEED_N = 10"
definition EXPAND_CAP :: nat where "EXPAND_CAP = 200"
definition MAX_HOPS :: nat where "MAX_HOPS = 2"
definition NODE_TABLE :: string where "NODE_TABLE = ''memory_nodes''"
definition EDGE_TABLE :: string where "EDGE_TABLE = ''memory_edges''"

record linked_resource =
  lr_node :: string
  lr_namespace :: "string option"
  lr_edge :: string
  lr_depth :: nat

text \<open>\<open>usize::MAX\<close> stands for no rank.\<close>

definition best_rank :: "'d cand \<Rightarrow> nat" where
  "best_rank c = (case (c_vec_rank c, c_kw_rank c) of
     (None, None) \<Rightarrow> 2 ^ 64 - 1 | (Some a, None) \<Rightarrow> a | (None, Some b) \<Rightarrow> b | (Some a, Some b) \<Rightarrow> min a b)"

record 'd expansion =
  x_cands :: "'d cand list"
  x_linked :: "linked_resource list"
  x_seen :: "string list"
  x_new :: "string list"

definition expand_edge :: "'d scores \<Rightarrow> bool \<Rightarrow> string list \<Rightarrow> nat \<Rightarrow> json \<Rightarrow> 'd expansion \<Rightarrow> 'd expansion" where
  "expand_edge sc restricted frontier depth edge x =
     (let src = or_default [] (get_str edge ''src''); dst = or_default [] (get_str edge ''dst''); etype = or_default [] (get_str edge ''type'');
          ends = (if src \<in> set frontier then Some (src, dst) else if dst \<in> set frontier then Some (dst, src) else None)
      in case ends of None \<Rightarrow> x | Some (seed, far) \<Rightarrow>
           if far = [] then x
           else if prefix ''memory:'' far then
             (if \<not> has_cand far (x_cands x) \<and> far \<notin> set (x_seen x)
              then x\<lparr>x_cands := x_cands x @ [graph_cand sc far seed etype depth], x_seen := x_seen x @ [far], x_new := x_new x @ [far]\<rparr> else x)
           else if restricted then x
           else x\<lparr>x_linked := x_linked x @ [\<lparr>lr_node = far, lr_namespace = get_str edge ''target_namespace'', lr_edge = etype, lr_depth = depth\<rparr>]\<rparr>)"

text \<open>The rows of the new neighbours; a restricted token keeps those of its realms, and none without a row.\<close>

definition materialize_row :: "'d scores \<Rightarrow> bool \<Rightarrow> string list \<Rightarrow> json \<Rightarrow> 'd cand list \<Rightarrow> 'd cand list" where
  "materialize_row sc restricted realms row cs = (case get_str row ''id'' of
     None \<Rightarrow> cs
   | Some i \<Rightarrow> if restricted \<and> or_default [] (get_str row ''realm'') \<notin> set realms then remove_cand i cs else change_cand i (hydrate sc row) cs)"

definition materialize :: "'d scores \<Rightarrow> bool \<Rightarrow> string list \<Rightarrow> json list \<Rightarrow> string list \<Rightarrow> 'd cand list \<Rightarrow> 'd cand list" where
  "materialize sc restricted realms rows new cs =
     (let cs' = fold (materialize_row sc restricted realms) rows cs in
      if restricted then fold (\<lambda>i cs. if Some i \<in> (\<lambda>r. get_str r ''id'') ` set rows then cs else remove_cand i cs) new cs' else cs')"

text \<open>\<open>exec\<close> is the query engine: a database, a query and a number of rows at most.\<close>

fun expand_hops :: "'d scores \<Rightarrow> (string \<Rightarrow> string \<Rightarrow> nat \<Rightarrow> json list) \<Rightarrow> bool \<Rightarrow> string list \<Rightarrow> nat \<Rightarrow> nat list \<Rightarrow> string list
    \<Rightarrow> 'd cand list \<times> linked_resource list \<times> string list \<Rightarrow> 'd cand list \<times> linked_resource list" where
  "expand_hops sc exec restricted realms limit [] frontier (cs, ln, seen) = (cs, ln)"
| "expand_hops sc exec restricted realms limit (depth # ds) frontier (cs, ln, seen) =
     (if frontier = [] then (cs, ln)
      else
        (let edges = exec MEMORY_DB (neighbors_sql EDGE_TABLE frontier realms EXPAND_CAP) EXPAND_CAP;
             x = fold (expand_edge sc restricted frontier depth) edges \<lparr>x_cands = cs, x_linked = ln, x_seen = seen, x_new = []\<rparr>;
             cs' = (if x_new x = [] then x_cands x
                    else materialize sc restricted realms (exec MEMORY_DB (nodes_by_id_sql NODE_TABLE (x_new x)) (max 1 (length (x_new x)))) (x_new x) (x_cands x))
         in if length cs' > CAND_K * 4 \<or> length (x_linked x) > limit * 20 then (cs', x_linked x)
            else expand_hops sc exec restricted realms limit ds (x_new x) (cs', x_linked x, x_seen x)))"

text \<open>\<open>iter\<close> is the order in which the map of candidates is visited.\<close>

definition graph_expand :: "'d scores \<Rightarrow> (string \<Rightarrow> string \<Rightarrow> nat \<Rightarrow> json list) \<Rightarrow> ('d cand list \<Rightarrow> 'd cand list) \<Rightarrow> bool \<Rightarrow> string list \<Rightarrow> nat \<Rightarrow> nat
    \<Rightarrow> 'd cand list \<Rightarrow> 'd cand list \<times> linked_resource list" where
  "graph_expand sc exec iter restricted realms hops limit cs =
     (let frontier = map c_id (take SEED_N (sort_key best_rank (iter cs)))
      in expand_hops sc exec restricted realms limit [1..<hops + 1] frontier (cs, [], frontier))"

section \<open>Retrieval\<close>

record 'f retrieve_request =
  rq_realms :: "string list"
  rq_type :: "string option"
  rq_tags :: "string list"
  rq_importance_min :: "'f option"
  rq_as_of :: "string option"
  rq_include_invalidated :: bool
  rq_limit :: "nat option"
  rq_hops :: "nat option"
  rq_space_agent :: "string option"

record 'd memory_settings =
  ms_limit :: nat
  ms_hops :: nat
  ms_ann_threshold :: 'd
  ms_precedent :: "('d \<times> nat) option"

record precedent_block =
  pb_activity :: string
  pb_preview :: string
  pb_created :: "string option"
  pb_memories :: "string list"

record 'd retrieve_result =
  rr_memories :: "'d cand list"
  rr_linked :: "linked_resource list"
  rr_precedent :: "precedent_block option"

definition request_filter :: "'f retrieve_request \<Rightarrow> string list \<Rightarrow> 'f recall_filter" where
  "request_filter rq realms = recall_filter_default\<lparr>rf_realms := realms, rf_type := map_option memory_type_parse (rq_type rq), rf_tags := rq_tags rq,
     rf_importance_min := rq_importance_min rq, rf_as_of := rq_as_of rq, rf_include_invalidated := rq_include_invalidated rq,
     rf_space_agent := rq_space_agent rq\<rparr>"

text \<open>What the embedding backend and the indexes contribute to a query.\<close>

record 'f query_input =
  qi_embedding :: "'f list option"
  qi_tokens :: "string list"
  qi_ann_ids :: "string list option"
  qi_bm25_ids :: "string list option"

definition vec_query :: "('f, 'd) numerals \<Rightarrow> 'd memory_settings \<Rightarrow> 'f list \<Rightarrow> 'f query_input \<Rightarrow> 'f recall_filter \<Rightarrow> string" where
  "vec_query nm st qvec qi f = (case qi_ann_ids qi of
     Some ids \<Rightarrow> recall_sql_for_ids nm NODE_TABLE qvec f CAND_K ids
   | None \<Rightarrow> recall_sql nm NODE_TABLE qvec f CAND_K (if above_zero nm (ms_ann_threshold st) then Some (ms_ann_threshold st) else None))"

definition kw_query :: "('f, 'd) numerals \<Rightarrow> 'f query_input \<Rightarrow> 'f recall_filter \<Rightarrow> string" where
  "kw_query nm qi f = (case qi_bm25_ids qi of
     Some ids \<Rightarrow> keyword_recall_sql_for_ids nm NODE_TABLE (qi_tokens qi) f CAND_K ids
   | None \<Rightarrow> keyword_recall_sql nm NODE_TABLE (qi_tokens qi) f CAND_K)"

definition find_precedent :: "('f, 'd) numerals \<Rightarrow> (string \<Rightarrow> string \<Rightarrow> nat \<Rightarrow> json list) \<Rightarrow> 'f list \<Rightarrow> string list \<Rightarrow> 'd \<times> nat \<Rightarrow> precedent_block option" where
  "find_precedent nm exec qvec realms cfg =
     (case exec ACTIVITIES_DB (nearest_activity_sql nm NODE_TABLE qvec realms (fst cfg) 1) 1 of
        [] \<Rightarrow> None
      | row # _ \<Rightarrow>
          (case get_str row ''id'' of None \<Rightarrow> None | Some i \<Rightarrow>
             (let ids = List.map_filter (\<lambda>r. get_str r ''src'') (exec MEMORY_DB (edges_into_sql EDGE_TABLE i ''DERIVED_FROM'' (snd cfg)) (snd cfg))
              in if ids = [] then None
                 else Some \<lparr>pb_activity = i, pb_preview = or_default [] (get_str row ''content_preview''), pb_created = get_str row ''created_at'', pb_memories = ids\<rparr>)))"

fun dedup_nodes :: "linked_resource list \<Rightarrow> linked_resource list" where
  "dedup_nodes (a # b # ls) = (if lr_node a = lr_node b then dedup_nodes (a # ls) else a # dedup_nodes (b # ls))"
| "dedup_nodes ls = ls"

text \<open>The candidates of the indexes, by vector first; the whole pipeline in some realms.\<close>

definition candidates :: "('f, 'd) numerals \<Rightarrow> 'd scores \<Rightarrow> (string \<Rightarrow> string \<Rightarrow> nat \<Rightarrow> json list) \<Rightarrow> 'd memory_settings \<Rightarrow> 'f query_input \<Rightarrow> 'f recall_filter
    \<Rightarrow> 'f list \<Rightarrow> 'd cand list" where
  "candidates nm sc exec st qi f qvec =
     merge_kw sc (if qi_tokens qi = [] then [] else exec MEMORY_DB (kw_query nm qi f) CAND_K)
       (merge_vec sc (exec MEMORY_DB (vec_query nm st qvec qi f) CAND_K) [])"

definition retrieve_in :: "('f, 'd) numerals \<Rightarrow> 'd scores \<Rightarrow> (string \<Rightarrow> string \<Rightarrow> nat \<Rightarrow> json list) \<Rightarrow> ('d cand list \<Rightarrow> 'd cand list) \<Rightarrow> ('d cand list \<Rightarrow> 'd cand list)
    \<Rightarrow> 'd memory_settings \<Rightarrow> bool \<Rightarrow> 'f query_input \<Rightarrow> 'f retrieve_request \<Rightarrow> 'f list \<Rightarrow> string list \<Rightarrow> 'd retrieve_result" where
  "retrieve_in nm sc exec iter rank st restricted qi rq qvec realms =
     (let limit = max 1 (min 100 (or_default (ms_limit st) (rq_limit rq)));
          hops = min (or_default (ms_hops st) (rq_hops rq)) MAX_HOPS;
          cs = candidates nm sc exec st qi (request_filter rq realms) qvec;
          x = (if hops \<ge> 1 \<and> cs \<noteq> [] then graph_expand sc exec iter restricted realms hops limit cs else (cs, []))
      in \<lparr>rr_memories = take limit (rank (fst x)), rr_linked = take 50 (dedup_nodes (sort_key lr_depth (snd x))),
          rr_precedent = (case ms_precedent st of None \<Rightarrow> None | Some cfg \<Rightarrow> find_precedent nm exec qvec realms cfg)\<rparr>)"

definition nothing_found :: "'d retrieve_result" where
  "nothing_found = \<lparr>rr_memories = [], rr_linked = [], rr_precedent = None\<rparr>"

definition retrieve :: "('f, 'd) numerals \<Rightarrow> 'd scores \<Rightarrow> (string \<Rightarrow> string \<Rightarrow> nat \<Rightarrow> json list) \<Rightarrow> ('d cand list \<Rightarrow> 'd cand list) \<Rightarrow> ('d cand list \<Rightarrow> 'd cand list)
    \<Rightarrow> 'd memory_settings \<Rightarrow> realm_scope \<Rightarrow> 'f query_input \<Rightarrow> 'f retrieve_request \<Rightarrow> 'd retrieve_result" where
  "retrieve nm sc exec iter rank st scope qi rq = (case qi_embedding qi of
     None \<Rightarrow> nothing_found
   | Some qvec \<Rightarrow> (case intersect_realms scope (rq_realms rq) of
       Nothing \<Rightarrow> nothing_found
     | Unrestricted realms \<Rightarrow> retrieve_in nm sc exec iter rank st (scope \<noteq> None) qi rq qvec realms
     | Scoped realms \<Rightarrow> retrieve_in nm sc exec iter rank st (scope \<noteq> None) qi rq qvec realms))"

section \<open>A restricted token stays in its realms\<close>

definition row_view :: "'d scores \<Rightarrow> json \<Rightarrow> 'd memory_row" where
  "row_view sc r = \<lparr>mr_text = get_str r, mr_number = get_f64 sc r\<rparr>"

text \<open>The engine returns only rows of which the conditions of the query hold.\<close>

definition honours :: "('f, 'd) numerals \<Rightarrow> 'd scores \<Rightarrow> ('d \<Rightarrow> 'd \<Rightarrow> bool) \<Rightarrow> (string \<Rightarrow> string \<Rightarrow> nat \<Rightarrow> json list) \<Rightarrow> 'f recall_filter \<Rightarrow> string \<Rightarrow> bool" where
  "honours nm sc ge exec f q \<longleftrightarrow> (\<forall>r \<in> set (exec MEMORY_DB q CAND_K). list_all (condition_holds ge (row_view sc r)) (parsed_conditions nm f))"

definition within :: "string list \<Rightarrow> 'd cand list \<Rightarrow> bool" where
  "within realms cs \<longleftrightarrow> (\<forall>c \<in> set cs. c_realm c \<in> set realms)"

lemma honoured_realm:
  assumes "honours nm sc ge exec (request_filter rq realms) q" "realms \<noteq> []" "r \<in> set (exec MEMORY_DB q CAND_K)"
  shows "or_default [] (get_str r ''realm'') \<in> set realms"
proof -
  have "InList ''realm'' realms \<in> set (parsed_conditions nm (request_filter rq realms))"
    using assms(2) by (simp add: parsed_conditions_def request_filter_def recall_filter_default_def)
  then have "condition_holds ge (row_view sc r) (InList ''realm'' realms)" using assms(1,3) by (auto simp: honours_def list_all_iff)
  then show ?thesis by (auto simp: condition_holds_def row_view_def or_default_def)
qed

lemma from_row_realm: "from_row sc row = Some c \<Longrightarrow> c_realm c = or_default [] (get_str row ''realm'')"
  by (auto simp: from_row_def)

lemma fold_inv: "\<lbrakk>P s; \<And>x s. \<lbrakk>x \<in> set xs; P s\<rbrakk> \<Longrightarrow> P (f x s)\<rbrakk> \<Longrightarrow> P (fold f xs s)"
  by (induction xs arbitrary: s) auto

lemma enumerate_row: "(k, row) \<in> set (enumerate n rows) \<Longrightarrow> row \<in> set rows"
  by (metis enumerate_eq_zip in_set_zipE)

lemma merge_vec_within:
  assumes "within realms cs" "\<And>r. r \<in> set rows \<Longrightarrow> or_default [] (get_str r ''realm'') \<in> set realms"
  shows "within realms (merge_vec sc rows cs)"
  unfolding merge_vec_def
proof (intro fold_inv [where P = "within realms"] assms(1))
  fix x and cs :: "'a cand list" assume x: "x \<in> set (enumerate 0 rows)" and cs: "within realms cs"
  obtain rank row where r: "x = (rank, row)" by fastforce
  then have realm: "or_default [] (get_str row ''realm'') \<in> set realms" using x assms(2) enumerate_row by fastforce
  show "within realms ((case x of (rank, row) \<Rightarrow> \<lambda>cs. case from_row sc row of None \<Rightarrow> cs | Some c \<Rightarrow> or_insert (c\<lparr>c_vec_rank := Some rank\<rparr>) cs) cs)"
  proof (cases "from_row sc row")
    case (Some c)
    then show ?thesis using r cs realm from_row_realm [OF Some] by (simp add: within_def or_insert_def)
  qed (use r cs in simp)
qed

lemma merge_kw_within:
  assumes "within realms cs" "\<And>r. r \<in> set rows \<Longrightarrow> or_default [] (get_str r ''realm'') \<in> set realms"
  shows "within realms (merge_kw sc rows cs)"
  unfolding merge_kw_def
proof (intro fold_inv [where P = "within realms"] assms(1))
  fix x and cs :: "'a cand list" assume x: "x \<in> set (enumerate 0 rows)" and cs: "within realms cs"
  obtain rank row where r: "x = (rank, row)" by fastforce
  then have realm: "or_default [] (get_str row ''realm'') \<in> set realms" using x assms(2) enumerate_row by fastforce
  show "within realms (merge_kw_row sc x cs)"
  proof (cases "get_str row ''id''")
    case (Some i)
    then obtain c where c: "from_row sc row = Some c" by (auto simp: from_row_def)
    have "within realms (or_insert c cs)" using cs realm from_row_realm [OF c] by (auto simp: within_def or_insert_def)
    then show ?thesis using r Some c by (auto simp: merge_kw_row_def within_def change_cand_def or_default_def)
  qed (use r cs in \<open>simp add: merge_kw_row_def\<close>)
qed

text \<open>In between, the new neighbours have no row yet.\<close>

lemma expand_edge_restricted:
  obtains "expand_edge sc True frontier depth e y = y"
  | far seed etype where "expand_edge sc True frontier depth e y =
      y\<lparr>x_cands := x_cands y @ [graph_cand sc far seed etype depth], x_seen := x_seen y @ [far], x_new := x_new y @ [far]\<rparr>"
proof -
  define ends where "ends = (if or_default [] (get_str e ''src'') \<in> set frontier then Some (or_default [] (get_str e ''src''), or_default [] (get_str e ''dst''))
    else if or_default [] (get_str e ''dst'') \<in> set frontier then Some (or_default [] (get_str e ''dst''), or_default [] (get_str e ''src'')) else None)"
  have eq: "expand_edge sc True frontier depth e y = (case ends of None \<Rightarrow> y | Some (seed, far) \<Rightarrow>
      if far \<noteq> [] \<and> prefix ''memory:'' far \<and> \<not> has_cand far (x_cands y) \<and> far \<notin> set (x_seen y)
      then y\<lparr>x_cands := x_cands y @ [graph_cand sc far seed (or_default [] (get_str e ''type'')) depth], x_seen := x_seen y @ [far], x_new := x_new y @ [far]\<rparr> else y)"
    unfolding expand_edge_def Let_def ends_def [symmetric] by (simp split: option.split)
  show thesis
  proof (cases ends)
    case (Some p)
    then show thesis using that eq by (cases p) (simp split: if_splits)
  qed (use that eq in simp)
qed

lemma edges_restricted:
  fixes x :: "'d expansion"
  assumes "within realms (x_cands x)" "x_new x = []"
  shows "(\<forall>c \<in> set (x_cands (fold (expand_edge sc True frontier depth) edges x)). c_realm c \<in> set realms \<or> c_id c \<in> set (x_new (fold (expand_edge sc True frontier depth) edges x))) \<and>
    x_linked (fold (expand_edge sc True frontier depth) edges x) = x_linked x"
proof (rule fold_inv [where P = "\<lambda>y. (\<forall>c \<in> set (x_cands y). c_realm c \<in> set realms \<or> c_id c \<in> set (x_new y)) \<and> x_linked y = x_linked x"])
  fix e and y :: "'d expansion"
  assume y: "(\<forall>c \<in> set (x_cands y). c_realm c \<in> set realms \<or> c_id c \<in> set (x_new y)) \<and> x_linked y = x_linked x"
  show "(\<forall>c \<in> set (x_cands (expand_edge sc True frontier depth e y)). c_realm c \<in> set realms \<or> c_id c \<in> set (x_new (expand_edge sc True frontier depth e y))) \<and>
      x_linked (expand_edge sc True frontier depth e y) = x_linked x"
    by (cases rule: expand_edge_restricted [of sc frontier depth e y]) (use y in \<open>auto simp: graph_cand_def empty_cand_def\<close>)
qed (use assms in \<open>auto simp: within_def\<close>)

lemma rows_restricted:
  assumes "\<forall>c \<in> set cs. c_realm c \<in> set realms \<or> c_id c \<in> set new"
  shows "\<forall>c \<in> set (fold (materialize_row sc True realms) rows cs). c_realm c \<in> set realms \<or> (c_id c \<in> set new \<and> Some (c_id c) \<notin> (\<lambda>r. get_str r ''id'') ` set rows)"
  using assms
proof (induction rows rule: rev_induct)
  case (snoc row rows)
  then show ?case
    by (auto simp: materialize_row_def remove_cand_def change_cand_def hydrate_def split: option.split)
qed auto

lemma removed: "set (fold (\<lambda>i cs. if P i then cs else remove_cand i cs) new cs) = {c \<in> set cs. c_id c \<notin> set new \<or> P (c_id c)}"
  by (induction new arbitrary: cs) (auto simp: remove_cand_def)

lemma materialize_restricted:
  assumes "\<forall>c \<in> set cs. c_realm c \<in> set realms \<or> c_id c \<in> set new"
  shows "within realms (materialize sc True realms rows new cs)"
  using rows_restricted [OF assms, of sc rows] unfolding materialize_def Let_def within_def by (auto simp: removed)

lemma expand_hops_restricted:
  "within realms cs \<Longrightarrow> (case expand_hops sc exec True realms limit ds frontier (cs, [], seen) of (cs', ln) \<Rightarrow> within realms cs' \<and> ln = [])"
proof (induction ds arbitrary: cs frontier seen)
  case (Cons d ds)
  define x where "x = fold (expand_edge sc True frontier d) (exec MEMORY_DB (neighbors_sql EDGE_TABLE frontier realms EXPAND_CAP) EXPAND_CAP)
    \<lparr>x_cands = cs, x_linked = [], x_seen = seen, x_new = []\<rparr>"
  define cs' where "cs' = (if x_new x = [] then x_cands x
    else materialize sc True realms (exec MEMORY_DB (nodes_by_id_sql NODE_TABLE (x_new x)) (max 1 (length (x_new x)))) (x_new x) (x_cands x))"
  have x: "\<forall>c \<in> set (x_cands x). c_realm c \<in> set realms \<or> c_id c \<in> set (x_new x)" "x_linked x = []"
    using edges_restricted [of realms "\<lparr>x_cands = cs, x_linked = [], x_seen = seen, x_new = []\<rparr>"] Cons.prems by (simp_all add: x_def)
  have cs': "within realms cs'" using x materialize_restricted [OF x(1)] by (auto simp: cs'_def within_def)
  have "expand_hops sc exec True realms limit (d # ds) frontier (cs, [], seen) =
      (if frontier = [] then (cs, []) else if length cs' > CAND_K * 4 \<or> length (x_linked x) > limit * 20 then (cs', x_linked x)
       else expand_hops sc exec True realms limit ds (x_new x) (cs', x_linked x, x_seen x))"
    by (simp add: Let_def x_def cs'_def)
  then show ?case using Cons.prems Cons.IH [OF cs', of "x_new x" "x_seen x"] cs' x(2) by simp
qed simp

lemma scoped_realms:
  assumes "intersect_realms (Some allowed) requested = Scoped realms"
  shows "realms \<noteq> []" "set realms \<subseteq> set allowed" "requested \<noteq> [] \<Longrightarrow> set realms \<subseteq> set requested"
  using assms by (auto simp: intersect_realms_def Let_def split: if_splits)

lemma expanded_restricted:
  assumes "within realms cs"
  shows "within realms (fst (if P then graph_expand sc exec iter True realms hops limit cs else (cs, [])))"
    "snd (if P then graph_expand sc exec iter True realms hops limit cs else (cs, [])) = []"
proof -
  define frontier where "frontier = map c_id (take SEED_N (sort_key best_rank (iter cs)))"
  have "within realms (fst (graph_expand sc exec iter True realms hops limit cs)) \<and> snd (graph_expand sc exec iter True realms hops limit cs) = []"
    unfolding graph_expand_def Let_def frontier_def [symmetric]
    using expand_hops_restricted [OF assms, of sc exec limit "[1..<hops + 1]" frontier frontier]
    by (cases "expand_hops sc exec True realms limit [1..<hops + 1] frontier (cs, [], frontier)") simp
  then show "within realms (fst (if P then graph_expand sc exec iter True realms hops limit cs else (cs, [])))"
    "snd (if P then graph_expand sc exec iter True realms hops limit cs else (cs, [])) = []" using assms by simp_all
qed


section \<open>Concrete runs\<close>

definition ex_scores :: "string scores" where
  "ex_scores = \<lparr>sc_zero = ''0'', as_number = (\<lambda>_. None), hop_proximity = show_nat\<rparr>"

definition ex_settings :: "string memory_settings" where
  "ex_settings = \<lparr>ms_limit = 5, ms_hops = 1, ms_ann_threshold = ''0'', ms_precedent = Some (''0.1'', 3)\<rparr>"

definition ex_input :: "string query_input" where
  "ex_input = \<lparr>qi_embedding = Some [''1''], qi_tokens = [], qi_ann_ids = None, qi_bm25_ids = None\<rparr>"

definition ex_request :: "string retrieve_request" where
  "ex_request = \<lparr>rq_realms = [], rq_type = None, rq_tags = [], rq_importance_min = None, rq_as_of = None, rq_include_invalidated = False,
     rq_limit = None, rq_hops = None, rq_space_agent = Some ''alice''\<rparr>"

definition memory_json :: "string \<Rightarrow> string \<Rightarrow> string \<Rightarrow> json" where
  "memory_json i realm space = JObject [(''id'', JString i), (''status'', JString ''active''), (''realm'', JString realm), (''space'', JString space)]"

definition edge_json :: "string \<Rightarrow> string \<Rightarrow> json" where
  "edge_json src dst = JObject [(''src'', JString src), (''dst'', JString dst), (''type'', JString ''RELATES_TO'')]"

text \<open>A public memory of Alice's team, linked to one of another realm and to a private one of Bob, and an activity.\<close>

definition ex_exec :: "string \<Rightarrow> string \<Rightarrow> nat \<Rightarrow> json list" where
  "ex_exec db q n = (
     if n = CAND_K then [memory_json ''memory:1'' ''ours'' ''public'']
     else if db = ACTIVITIES_DB then [JObject [(''id'', JString ''activity:1'')]]
     else if prefix ''SELECT src, dst'' q then [edge_json ''memory:1'' ''memory:2'', edge_json ''memory:1'' ''memory:3'', edge_json ''memory:1'' ''table:7'']
     else if prefix ''SELECT src FROM'' q then [JObject [(''src'', JString ''memory:2'')]]
     else [memory_json ''memory:2'' ''theirs'' ''public'', memory_json ''memory:3'' ''ours'' ''bob''])"

lemma ex_restricted_run:
  "map c_id (rr_memories (retrieve ex_numerals ex_scores ex_exec id id ex_settings (Some [''ours'']) ex_input ex_request)) = [''memory:1'', ''memory:3'']"
  by code_simp

text \<open>Neighbours are not subject to the filter on spaces: a search for Alice finds the private memory of Bob.\<close>

lemma private_neighbour:
  "map (\<lambda>c. (c_id c, c_realm c)) (rr_memories (retrieve ex_numerals ex_scores ex_exec id id ex_settings None ex_input (ex_request\<lparr>rq_realms := [''ours'']\<rparr>))) =
    [(''memory:1'', ''ours''), (''memory:2'', ''theirs''), (''memory:3'', ''ours'')]"
  by code_simp

text \<open>A neighbour that is no longer valid has no row, but stays, with its identifier only.\<close>

lemma invalidated_neighbour:
  "map (\<lambda>c. (c_id c, c_realm c)) (rr_memories (retrieve ex_numerals ex_scores (\<lambda>db q n. if prefix ''WITH latest'' q \<and> n \<noteq> CAND_K then [] else ex_exec db q n)
      id id ex_settings None ex_input ex_request)) = [(''memory:1'', ''ours''), (''memory:2'', []), (''memory:3'', [])]"
  by code_simp

text \<open>The precedent of a restricted token names memories of any realm.\<close>

lemma precedent_of_other_realm:
  "map_option pb_memories (rr_precedent (retrieve ex_numerals ex_scores ex_exec id id ex_settings (Some [''ours'']) ex_input ex_request)) = Some [''memory:2'']"
  by code_simp

lemma ex_honours: "honours ex_numerals ex_scores (=) ex_exec (request_filter ex_request [''ours'']) q"
  by (simp add: honours_def ex_exec_def memory_json_def request_filter_def ex_request_def recall_filter_default_def parsed_conditions_def opt_list_def
      condition_holds_def compares_def row_view_def get_str_def)


end
