(* ===== verification/Spec2Isabelle.thy ===== *)
theory Spec2Isabelle
  imports Graph_Components Graph_Codec Caching_Store Sqlite_Queue Pg_Fabric Fts_Tokenizer Fts_Sidecar Ingest
    Compaction Retention Staging Discover_Search Batch_Queue Memory_Retrieve
begin

text \<open>
  A model of the storage, catalog, indexing and job machinery of pensieve, a context engine that
  ingests batches of rows, keeps them as immutable extents on object storage, records them in a
  catalog of snapshots, and answers queries and graph traversals over them.

  \<^bold>\<open>How the parts work together.\<close> An ingest appends record batches to an extent writer
  (\<open>pensieve-format-tlm\<close>), which collects statistics per block and per extent and puts one object into
  the store; the write path (\<open>pensieve-ingest-core\<close>) then commits the extent's manifest to the catalog
  (\<open>pensieve-catalog-sqlite\<close>) in a snapshot transaction that is retried when another writer was faster, and
  records the request's idempotency key. A query pushes its filters down (\<open>pensieve-exec\<close>) to the
  catalog, which lists the extents that may hold a matching row, and to the extent reader, which skips
  blocks. Reads go through a cache of object ranges (\<open>pensieve-storage\<close>). Requests may be collected in a
  staging buffer and their extents committed in groups, by a coordinator or by a committer over a table of
  staged extents. Compaction (\<open>pensieve-compaction\<close>) plans groups of small extents, queues them as
  background tasks, merges them and commits the exchange; retention soft-deletes expired extents, and
  after a grace period their objects are deleted. Background work is leased to workers by a job queue, in SQLite
  (\<open>pensieve-local\<close>) or Postgres (\<open>pensieve-catalog\<close>). Full-text sidecars (\<open>pensieve-index-fts\<close>) use the
  same tokens as the extent statistics. Graph queries run on an immutable adjacency structure
  (\<open>pensieve-graph-topo\<close>). Queries are written in KQL, which \<open>pensieve-kql\<close> translates to SQL text for the
  query engine; the search bar (\<open>pensieve-server\<close>) compiles its text to KQL.

  \<^bold>\<open>Theories and sources.\<close> Paths are under \<open>src/crates/\<close>.

  \<^item> \<open>Prelude\<close>, \<open>Bytes\<close>, \<open>Json\<close>: list and option helpers, the total-correctness rule for \<open>while\<close> loops,
    little-endian bytes and readers with the locale \<open>codec\<close>, and the JSON values the sources use.
  \<^item> \<open>Graph_Topo\<close>, \<open>Graph_Traverse\<close>, \<open>Graph_Components\<close>, \<open>Graph_Codec\<close>: \<open>pensieve-graph-topo/src/lib.rs\<close>. The
    record \<open>csr_graph\<close> is \<open>CsrGraph\<close>; \<open>build\<close>, \<open>build_csr\<close>, \<open>step\<close>, \<open>k_hop\<close>, \<open>var_length\<close>, \<open>shortest_path_len\<close>,
    \<open>connected_components\<close>, \<open>densify\<close>, \<open>to_bytes\<close> and \<open>from_bytes\<close> keep their names. Shown: the counting sort
    is stable and in bounds, traversals compute exactly the distances of the input graph and
    terminate, components are the connectivity classes, serialization round-trips.
  \<^item> \<open>Pruning\<close>, \<open>Tlm_Block_Stats\<close>, \<open>Tlm_Column_Stats\<close>, \<open>Tlm_Extent\<close>: the locale \<open>pruner\<close> states what a summary
    may rule out; \<open>block_stats.rs\<close>, \<open>column_stats.rs\<close>, \<open>writer.rs\<close> and \<open>reader.rs\<close> of \<open>pensieve-format-tlm\<close>.
  \<^item> \<open>Catalog_Prune\<close>, \<open>Exec_Prune\<close>, \<open>Scan\<close>: \<open>list_extents_in_tenant\<close> of \<open>pensieve-catalog-sqlite/src/lib.rs\<close>,
    the filter pushdown of \<open>pensieve-exec/src/lib.rs\<close>, and the path of a row through all of them: a scan
    never misses a row, except for the two cases \<open>Scan\<close> exhibits (substring patterns, and times
    before 1970 under an upper bound).
  \<^item> \<open>Schema_Json\<close>, \<open>Catalog_State\<close>, \<open>Catalog_Snapshots\<close>: the tables of the SQLite catalog and one function
    per operation (\<open>lib.rs\<close>, \<open>snapshot.rs\<close>). Shown: stored schemas read back, every reachable catalog
    keeps a gap-free snapshot history per table, commits are atomic.
  \<^item> \<open>Commit_Retry\<close>, \<open>Ingest\<close>: the retry loops of \<open>pensieve-ingest-core\<close> and \<open>pensieve-compaction\<close> over the
    catalog, with other writers as an environment, and \<open>ingest_with_idempotency\<close>. The locale
    \<open>optimistic_commit\<close> is the contract of the transactions. Shown: no lost update, success after an
    undisturbed attempt, what is ingested is found by a scan, keys are replayed; a compaction's retry
    can store rows twice, an expired key is never protected again.
  \<^item> \<open>Catalog_Listing\<close>, \<open>Background_Tasks\<close>, \<open>Compaction\<close>: the listings and the \<open>background_tasks\<close> table of the
    SQLite catalog, \<open>CompactionScheduler\<close> and \<open>CompactionWorker\<close> of \<open>pensieve-compaction/src/lib.rs\<close>. Shown: the
    planner proposes the smallest extents of exactly the tables that have enough, a claim takes the first
    claimable task, promotion to the current schema is well typed, and a compaction changes nothing a
    reader sees; two ticks of the scheduler can lead to a double compaction.
  \<^item> \<open>Pg_Catalog\<close>, \<open>Commit_Coordinator\<close>, \<open>Staging\<close>: the snapshot transaction, staged extents and garbage
    collection of \<open>pensieve-catalog\<close>, which agree with those of SQLite where both exist; \<open>committer.rs\<close>,
    \<open>commit_coordinator.rs\<close> and \<open>staging.rs\<close> of \<open>pensieve-ingest-core\<close>. The locale \<open>extent_committer\<close> is what a flush needs
    of either way to commit. Shown: staged extents are committed exactly once, the
    coordinator answers every job once and truthfully, the buffer neither loses nor repeats a request, and
    an acknowledged request can be read back; and the race of two schemas.
  \<^item> \<open>Retention\<close>: \<open>pensieve-core/src/retention.rs\<close>, \<open>retention_settings.rs\<close> of \<open>pensieve-catalog\<close>, and
    \<open>RetentionSweeper\<close> and \<open>PhysicalDeleteWorker\<close> of \<open>pensieve-compaction/src/retention.rs\<close>. Shown: a sweep removes
    exactly the expired extents, physical deletion touches only what was deleted before the grace period;
    and where objects are orphaned and overrides stay.
  \<^item> \<open>Object_Cache\<close>, \<open>Caching_Store\<close>: the \<open>Lru\<close> and the \<open>CachingObjectStore\<close> of
    \<open>pensieve-storage/src/cache.rs\<close>. Shown: the three indexes refine a recency list, the byte budget
    holds, reads through the cache agree with the store as long as reads and writes do not interleave,
    and the interleaving that leaves a stale entry.
  \<^item> \<open>Jobs\<close>, \<open>Sqlite_Queue\<close>, \<open>Pg_Fabric\<close>: the \<open>jobs\<close> table with the locale \<open>lease_queue\<close>;
    \<open>pensieve-local/src/sqlite_queue.rs\<close> and \<open>pensieve-catalog/src/fabric.rs\<close>. Shown: a leased job is
    touched by its owner only, claims return and mark runnable jobs, the Postgres sweep releases
    expired leases and finished jobs stay finished; and where the SQLite queue differs.
  \<^item> \<open>Batch_Queue\<close>: \<open>lib.rs\<close> and \<open>worker.rs\<close> of \<open>pensieve-queue\<close>, submitters and one worker as interleaved steps. Shown:
    acknowledged durable jobs are kept across crashes until they were handled, jobs are tried in order and once
    when there is no store, barriers are sound when submissions do not overlap; and where they are not, and
    where a durable job is handled twice.
  \<^item> \<open>Memory_Sql\<close>: \<open>sql.rs\<close> of \<open>pensieve-memory\<close>, the queries of the agent memory. Shown: each is one
    statement, and its conditions admit the rows of the filter;
  \<^item> \<open>Memory_Retrieve\<close>: \<open>auth/scope.rs\<close> and \<open>agent/memory_retrieve.rs\<close> of \<open>pensieve-server\<close>, recall: candidates,
    neighbours in the graph, the precedent. Shown: a token restricted to some realms gets memories of these only.
  \<^item> \<open>Kql_Lexer\<close>, \<open>Kql_Expr\<close>, \<open>Kql_Query\<close>: \<open>lexer.rs\<close>, \<open>parser.rs\<close> and \<open>state.rs\<close> of \<open>pensieve-kql\<close>: the tokenizer,
    the expression parser and the operators, one function each, and the rendering as SQL. \<open>Kql_Safe\<close>,
    \<open>Kql_Operators\<close>, \<open>Kql_Statement\<close>: a scanner of SQL text and a calculus for parsers. Shown: the lexer reads printed
    tokens back, the translation of every text returns without panic, and what it emits is a single
    statement, so query text cannot leave its literal or identifier; and where the flat SQL differs from the
    pipeline. \<open>Kql_Grammar\<close> has the grammar of expressions as an inductive relation: the parser accepts exactly its
    phrases.
  \<^item> \<open>Discover\<close>, \<open>Discover_Search\<close>: the search bar, \<open>discover/grammar.rs\<close> and \<open>discover/compile.rs\<close> of \<open>pensieve-server\<close>,
    which compiles a search to KQL. Shown: through the KQL front end, a search is the selection by one condition per
    clause that applies; and where the grammar is not what its table says.
  \<^item> \<open>Fts_Tokenizer\<close>, \<open>Fts_Sidecar\<close>: \<open>tokenizer.rs\<close> and \<open>file.rs\<close> of \<open>pensieve-index-fts\<close>. Shown: all tokenizers
    agree, offsets and file ranges are in bounds, sidecars round-trip.

  \<^bold>\<open>Conventions.\<close> Errors are the left of a sum, a panic is \<open>None\<close>. Fixed-width integers are naturals
  or integers with the wrap-around written out where the code can reach it (\<open>as_u32\<close>); strings are the
  list of their UTF-8 bytes. Loops that the code does not bound are \<open>loopM\<close>, where not returning is
  \<open>None\<close>, and are proved to return. The retry loops take at most 20 (ingest, coordinator),
  21 (committer), 10 (compaction) and 5 (retention) attempts, as the code does; the loops
  of the KQL parser are bounded by the number of tokens and proved never to reach the bound. Database operations are atomic: each is one transaction or
  one statement in the source. Fresh identifiers, clock readings, the object store, Arrow IPC,
  \<open>serde_json\<close> texts, \<open>chrono\<close>, floating-point comparison and the search engine's directory are
  parameters; what is relied on is a hypothesis of the theorems that need it, and each such
  theorem has an instance where it holds.

  \<^bold>\<open>Not modelled.\<close> Floating-point algorithms (PageRank, Louvain, vector index, memory ranking), the writing of memories, the Cypher
  front end, which translates to KQL, the meaning of the SQL text (the query engine's), the operations of the Postgres
  catalog that repeat those of the SQLite catalog, artifact retention and index scheduling, the enqueueing of
  sidecar rebuilds after a compaction, timers and channels of the background loops, the remaining
  single-row tables of the catalog
  (dashboards, users, tokens, quotas), and the server, command line, connectors and deployment code,
  which are I/O around these parts.
\<close>

end
